(* ===== verification/Pml_Prelude.thy ===== *)
theory Pml_Prelude
  imports Main "HOL-Library.Word"
begin

text \<open>
  Shared vocabulary of the development: the machine integer types of the x86-64
  kernel (include/pml/types.h and the compiler's own types), the error numbers that
  the modelled code stores in errno, the result type of operations that may touch
  memory they do not own, and the generic list, option and word lemmas the
  component theories rely on.
\<close>

unbundle bit_operations_syntax

section \<open>Machine integers\<close>

type_synonym u8 = "8 word"
type_synonym u16 = "16 word"
type_synonym u32 = "32 word"
type_synonym u64 = "64 word"

text \<open>
  Addresses and sizes (\<open>uintptr_t\<close>, \<open>size_t\<close>) are 64-bit words where a wrap-around
  is part of the behaviour, and natural numbers below \<open>2 ^ 64\<close> where the data
  structure keeps them in range.
\<close>

abbreviation word64_limit :: nat where
  "word64_limit \<equiv> 2 ^ 64"

section \<open>Error numbers\<close>

datatype errno =
    EPERM | ENOENT | ESRCH | EINTR | EBADF | ECHILD | ENOMEM | EACCES | EFAULT
  | EINVAL | EMFILE | EFBIG | ENOSPC | ESPIPE | EPIPE | ENAMETOOLONG | ENOSYS
  | ENOTSUP | ELOOP | EUCLEAN | ENOTDIR | EEXIST | ENOTTY | EISDIR | EROFS | EXDEV
  | EBUSY | ENFILE | EIO | ENOTBLK

section \<open>Automation\<close>

named_theorems word_facts \<open>unat and bit images of the word operations of the code\<close>
named_theorems list_facts \<open>updates and searches of C arrays held as lists\<close>

section \<open>Words\<close>

lemma unat_lt64 [simp]: "unat (x :: u64) < 18446744073709551616"
  using unsigned_less [of x, where ?'a = nat] by simp

lemma unat_lt8 [simp]: "unat (x :: u8) < 256"
  using unsigned_less [of x, where ?'a = nat] by simp

lemma unat_plus64:
  "unat a + unat b < 2 ^ 64 \<Longrightarrow> unat (a + b :: u64) = unat a + unat b"
  by (simp add: unat_word_ariths)

lemma unat_minus64: "b \<le> a \<Longrightarrow> unat (a - b :: u64) = unat a - unat b"
  by (rule unat_sub)

lemma word_eq_by_unat: "unat a = unat b \<Longrightarrow> a = (b :: 'a::len word)"
  by (simp add: word_unat_eq_iff)

text \<open>Bit tests of a word through its masks.\<close>

lemma and_push_bit_1_iff:
  fixes w :: "'a::len word"
  assumes "n < LENGTH('a)"
  shows "w AND push_bit n 1 \<noteq> 0 \<longleftrightarrow> bit w n"
proof -
  have eq: "w AND push_bit n 1 = (if bit w n then push_bit n 1 else 0)"
    by (rule bit_word_eqI) (auto simp: bit_simps)
  have "push_bit n (1 :: 'a word) \<noteq> 0"
    using assms by (simp add: push_bit_eq_mult)
  with eq show ?thesis by simp
qed

lemma and_exp_eq_0_iff:
  fixes w :: "'a::len word"
  shows "n < LENGTH('a) \<Longrightarrow> w AND 2 ^ n = 0 \<longleftrightarrow> \<not> bit w n"
  using and_push_bit_1_iff [of n w] by (auto simp: push_bit_eq_mult)

lemma bit_255: "i < 8 \<Longrightarrow> bit (255 :: u8) i"
proof -
  assume "i < 8"
  moreover have "(255 :: u8) = -1" by simp
  ultimately show ?thesis by (simp only: bit_minus_1_iff) (simp add: exp_eq_zero_iff)
qed

lemma unat_take: "unat (take_bit n (x :: u64)) = unat x mod 2 ^ n"
proof -
  have "unat (take_bit n x) = take_bit n (unat x)" by (rule unsigned_take_bit_eq)
  then show ?thesis by (simp only: take_bit_eq_mod)
qed

lemma unat_drop: "unat (drop_bit n (x :: u64)) = unat x div 2 ^ n"
  unfolding unat_drop_bit_eq by (rule drop_bit_eq_div)

lemma unat_ucast8 [simp]: "unat (ucast (a :: u8) :: u64) = unat a"
proof -
  have "unat a < 2 ^ 64" by (rule less_le_trans [OF unat_lt8]) simp
  then show ?thesis by (simp add: unsigned_ucast_eq take_bit_eq_mod)
qed

lemma xor_eq_0_iff: "x XOR y = (0 :: u64) \<longleftrightarrow> x = y"
  by (auto simp: bit_eq_iff bit_xor_iff)

lemma ucast8_eq_iff [simp]: "ucast (a :: u8) = (ucast b :: u64) \<longleftrightarrow> a = b"
  by (metis unat_ucast8 word_eq_by_unat)

section \<open>Lists read as arrays\<close>

lemma nth_list_update_if:
  "i < length xs \<Longrightarrow> (xs[i := v]) ! j = (if j = i then v else xs ! j)"
  by (auto simp: nth_list_update)

lemma length_filter_le_length: "length (filter P xs) \<le> length xs"
  by (rule length_filter_le)

end
