(* ===== verification/Pml_Stdlib.thy ===== *)
theory Pml_Stdlib
  imports Pml_Prelude
begin

text \<open>
  The integer macros and inline functions of include/stdlib.h: alignment, the
  power-of-two test, the zero-byte test on a long, bitmaps, rotations, rounding
  division and rounding to a power of two. Every other component computes with
  these; the lemmas give each one its arithmetical meaning.
\<close>

section \<open>Definitions\<close>

definition ALIGNED :: "u64 \<Rightarrow> u64 \<Rightarrow> bool" where
  "ALIGNED x s \<longleftrightarrow> x AND (s - 1) = 0"

definition LONG_NULL :: "u64 \<Rightarrow> u64" where
  "LONG_NULL x = (x - 0x0101010101010101) AND NOT x AND 0x8080808080808080"

definition LONG_CHAR :: "u64 \<Rightarrow> u64 \<Rightarrow> u64" where
  "LONG_CHAR x c = LONG_NULL (x XOR c)"

definition ALIGN_DOWN :: "u64 \<Rightarrow> u64 \<Rightarrow> u64" where
  "ALIGN_DOWN x a = x AND NOT (a - 1)"

definition ALIGN_UP :: "u64 \<Rightarrow> u64 \<Rightarrow> u64" where
  "ALIGN_UP x a = ((x - 1) OR (a - 1)) + 1"

definition IS_P2 :: "u64 \<Rightarrow> bool" where
  "IS_P2 x \<longleftrightarrow> x \<noteq> 0 \<and> \<not> (x AND (x - 1) \<noteq> 0)"

text \<open>
  A bitmap is the byte array it lives in. An index beyond the array has no
  behaviour in C; the result \<open>None\<close> is that access.
\<close>

definition set_bit_bm :: "u8 list \<Rightarrow> nat \<Rightarrow> u8 list option" where
  "set_bit_bm bitmap index =
     (if index div 8 < length bitmap
      then Some (bitmap[index div 8 := bitmap ! (index div 8) OR push_bit (index mod 8) 1])
      else None)"

definition clear_bit_bm :: "u8 list \<Rightarrow> nat \<Rightarrow> u8 list option" where
  "clear_bit_bm bitmap index =
     (if index div 8 < length bitmap
      then Some (bitmap[index div 8 := bitmap ! (index div 8) AND NOT (push_bit (index mod 8) 1)])
      else None)"

definition test_bit_bm :: "u8 list \<Rightarrow> nat \<Rightarrow> bool option" where
  "test_bit_bm bitmap index =
     (if index div 8 < length bitmap
      then Some (bitmap ! (index div 8) AND push_bit (index mod 8) 1 \<noteq> 0)
      else None)"

definition roll :: "u32 \<Rightarrow> nat \<Rightarrow> u32" where
  "roll x n = push_bit n x OR drop_bit (32 - n) x"

definition rorl :: "u32 \<Rightarrow> nat \<Rightarrow> u32" where
  "rorl x n = drop_bit n x OR push_bit (32 - n) x"

definition rolq :: "u64 \<Rightarrow> nat \<Rightarrow> u64" where
  "rolq x n = push_bit n x OR drop_bit (64 - n) x"

definition rorq :: "u64 \<Rightarrow> nat \<Rightarrow> u64" where
  "rorq x n = drop_bit n x OR push_bit (64 - n) x"

definition div32_ceil :: "u32 \<Rightarrow> u32 \<Rightarrow> u32" where
  "div32_ceil a b = (if a = 0 then 0 else (a - 1) div b + 1)"

definition div64_ceil :: "u64 \<Rightarrow> u64 \<Rightarrow> u64" where
  "div64_ceil a b = (if a = 0 then 0 else (a - 1) div b + 1)"

definition smear :: "nat \<Rightarrow> 'a::len word \<Rightarrow> 'a word" where
  "smear n x = x OR drop_bit n x"

definition next32_p2 :: "u32 \<Rightarrow> u32" where
  "next32_p2 x = smear 16 (smear 8 (smear 4 (smear 2 (smear 1 (x - 1))))) + 1"

definition next64_p2 :: "u64 \<Rightarrow> u64" where
  "next64_p2 x =
     smear 32 (smear 16 (smear 8 (smear 4 (smear 2 (smear 1 (x - 1)))))) + 1"

section \<open>Alignment\<close>

text \<open>Alignments are powers of two; \<open>exp64 k\<close> names the alignment \<open>2 ^ k\<close>.\<close>

abbreviation exp64 :: "nat \<Rightarrow> u64" where
  "exp64 k \<equiv> 2 ^ k"

lemma exp64_minus_1: "exp64 k - 1 = mask k"
  by (simp add: mask_eq_decr_exp)

lemma unat_mask64: "k \<le> 64 \<Longrightarrow> unat (mask k :: u64) = mask k"
  by (auto simp: bit_eq_iff bit_simps)

lemma unat_exp64: "k < 64 \<Longrightarrow> unat (exp64 k) = 2 ^ k"
proof -
  assume "k < 64"
  then have "(2::nat) ^ k < 2 ^ 64" by (simp only: power_strict_increasing_iff)
  then have "unat (of_nat (2 ^ k) :: u64) = 2 ^ k"
    by (subst unat_of_nat) simp
  then show ?thesis by simp
qed

lemma nat_or_mask: "n OR mask k = n div 2 ^ k * 2 ^ k + (2 ^ k - 1)" for n :: nat
proof -
  have "push_bit k (drop_bit k n) + mask k = push_bit k (drop_bit k n) OR mask k"
    by (rule disjunctive_add_eq_or) (auto simp: bit_eq_iff bit_simps)
  also have "\<dots> = n OR mask k"
    by (auto simp: bit_eq_iff bit_simps)
  finally show ?thesis
    by (simp add: push_bit_eq_mult drop_bit_eq_div mask_nat_def)
qed

lemma unat_or_mask:
  fixes y :: u64
  assumes "k \<le> 64"
  shows "unat (y OR mask k) = unat y div 2 ^ k * 2 ^ k + (2 ^ k - 1)"
  using assms by (simp add: unsigned_or_eq unat_mask64 nat_or_mask)

lemma unat_ALIGN_UP:
  assumes "k < 64"
  shows "unat (ALIGN_UP x (exp64 k)) =
         (unat x + 2 ^ k - 1) div 2 ^ k * 2 ^ k mod 2 ^ 64"
proof (cases "x = 0")
  case True
  have "ALIGN_UP 0 (exp64 k) = 0" by (simp add: ALIGN_UP_def)
  with True show ?thesis by simp
next
  case False
  then have x: "unat (x - 1) = unat x - 1" and "0 < unat x"
    by (simp_all add: unat_minus_one unat_gt_0)
  have "unat (ALIGN_UP x (exp64 k)) = ((unat x - 1) div 2 ^ k * 2 ^ k + (2 ^ k - 1) + 1) mod 2 ^ 64"
    using assms unfolding ALIGN_UP_def exp64_minus_1 by (simp only: unat_word_ariths unat_or_mask x unat_1) simp
  also have "(unat x - 1) div 2 ^ k * 2 ^ k + (2 ^ k - 1) + 1 = ((unat x - 1) div 2 ^ k + 1) * 2 ^ k"
    by simp
  also have "(unat x - 1) div 2 ^ k + 1 = (unat x + 2 ^ k - 1) div 2 ^ k"
  proof -
    have "unat x + 2 ^ k - 1 = (unat x - 1) + 2 ^ k" using \<open>0 < unat x\<close> by simp
    moreover have "((unat x - 1) + 2 ^ k) div 2 ^ k = (unat x - 1) div 2 ^ k + 1"
      by (rule div_add_self2) simp
    ultimately show ?thesis by simp
  qed
  finally show ?thesis .
qed

lemma unat_ALIGN_DOWN:
  shows "unat (ALIGN_DOWN x (exp64 k)) = unat x div 2 ^ k * 2 ^ k"
proof -
  have "unat (ALIGN_DOWN x (exp64 k)) = push_bit k (drop_bit k (unat x))"
    unfolding ALIGN_DOWN_def exp64_minus_1
    by (auto simp: bit_eq_iff bit_simps dest: bit_imp_le_length)
  then show ?thesis by (simp add: push_bit_eq_mult drop_bit_eq_div)
qed

lemma IS_P2_exp: "k < 64 \<Longrightarrow> IS_P2 (exp64 k)"
proof -
  assume "k < 64"
  then have "unat (exp64 k) \<noteq> 0" by (simp add: unat_exp64)
  moreover have "exp64 k AND mask k = 0"
    by (rule bit_word_eqI) (auto simp: bit_simps)
  ultimately show ?thesis using \<open>k < 64\<close> by (auto simp: IS_P2_def exp64_minus_1)
qed

lemma nat_and_pred_eq_0:
  fixes n :: nat
  assumes "n AND (n - 1) = 0" and "0 < n"
  shows "\<exists>k. n = 2 ^ k"
  using assms
proof (induction n rule: less_induct)
  case (less n)
  show ?case
  proof (cases "even n")
    case True
    then obtain m where m: "n = 2 * m" by (elim evenE)
    with less.prems have "0 < m" by simp
    have "m AND (m - 1) = (n AND (n - 1)) div 2"
    proof -
      have "(2 * m - 1) div 2 = m - 1" using \<open>0 < m\<close> by arith
      then show ?thesis using m by (simp add: and_nat_unfold [of "2 * m"])
    qed
    with less.prems have "m AND (m - 1) = 0" by simp
    with less.IH [of m] m \<open>0 < m\<close> obtain k where "m = 2 ^ k" by auto
    with m have "n = 2 ^ Suc k" by simp
    then show ?thesis by blast
  next
    case False
    then obtain m where m: "n = 2 * m + 1" by (elim oddE)
    have "2 * m = n AND (n - 1)"
    proof -
      have "n = 2 * m OR 1" using m by (simp add: or_Suc_0_eq)
      moreover have "(2 * m OR 1) AND 2 * m = 2 * m" by (auto simp: bit_eq_iff bit_simps)
      moreover have "n - 1 = 2 * m" using m by simp
      ultimately show ?thesis by (simp only:)
    qed
    also have "\<dots> = 0" by (rule less.prems(1))
    finally have "n = 2 ^ 0" using m by simp
    then show ?thesis by blast
  qed
qed

lemma IS_P2_iff: "IS_P2 x \<longleftrightarrow> (\<exists>k < 64. x = exp64 k)"
proof
  assume p: "IS_P2 x"
  then have nz: "x \<noteq> 0" and "unat (x AND (x - 1)) = 0" by (simp_all add: IS_P2_def)
  then have "unat x AND (unat x - 1) = 0" by (simp add: unsigned_and_eq unat_minus_one)
  then obtain k where k: "unat x = 2 ^ k"
    using nat_and_pred_eq_0 [of "unat x"] nz by (auto simp: unat_gt_0)
  have "k < 64"
    using unat_lt64 [of x] unfolding k
    by (rule_tac power_less_imp_less_exp [of "2::nat"]) simp_all
  moreover from this k have "x = exp64 k"
    by (simp add: word_unat_eq_iff unat_exp64)
  ultimately show "\<exists>k < 64. x = exp64 k" by blast
next
  assume "\<exists>k < 64. x = exp64 k"
  then show "IS_P2 x" by (auto intro: IS_P2_exp)
qed


lemma smear_double:
  fixes y z :: "'a::len word"
  assumes "\<And>j. bit z j \<longleftrightarrow> (\<exists>i < m. bit y (j + i))"
  shows "bit (smear m z) j \<longleftrightarrow> (\<exists>i < 2 * m. bit y (j + i))"
proof -
  have "bit (smear m z) j \<longleftrightarrow> (\<exists>i < m. bit y (j + i)) \<or> (\<exists>i < m. bit y (m + j + i))"
    by (simp add: smear_def bit_simps assms)
  also have "\<dots> \<longleftrightarrow> (\<exists>i < 2 * m. bit y (j + i))"
  proof
    assume "(\<exists>i < m. bit y (j + i)) \<or> (\<exists>i < m. bit y (m + j + i))"
    then show "\<exists>i < 2 * m. bit y (j + i)"
    proof
      assume "\<exists>i < m. bit y (j + i)"
      then obtain i where "i < m" "bit y (j + i)" by blast
      then show ?thesis by (intro exI [of _ i]) simp
    next
      assume "\<exists>i < m. bit y (m + j + i)"
      then obtain i where "i < m" "bit y (m + j + i)" by blast
      then show ?thesis by (intro exI [of _ "m + i"]) (simp add: ac_simps)
    qed
  next
    assume "\<exists>i < 2 * m. bit y (j + i)"
    then obtain i where i: "i < 2 * m" "bit y (j + i)" by blast
    show "(\<exists>i < m. bit y (j + i)) \<or> (\<exists>i < m. bit y (m + j + i))"
    proof (cases "i < m")
      case False
      with i have "i - m < m" "bit y (m + j + (i - m))" by auto
      then show ?thesis by blast
    qed (use i in blast)
  qed
  finally show ?thesis .
qed

lemma bit_smear_all:
  fixes y :: u64
  shows "bit (smear 32 (smear 16 (smear 8 (smear 4 (smear 2 (smear 1 y)))))) j \<longleftrightarrow>
         (\<exists>i \<ge> j. bit y i)"
proof -
  have "bit y j \<longleftrightarrow> (\<exists>i < 1. bit y (j + i))" for j by simp
  note s1 = smear_double [of y 1 y, OF this, simplified]
  note s2 = smear_double [of _ 2, OF s1, simplified]
  note s4 = smear_double [of _ 4, OF s2, simplified]
  note s8 = smear_double [of _ 8, OF s4, simplified]
  note s16 = smear_double [of _ 16, OF s8, simplified]
  have "bit (smear 32 (smear 16 (smear 8 (smear 4 (smear 2 (smear 1 y)))))) j \<longleftrightarrow>
     (\<exists>i < 64. bit y (j + i))"
    using smear_double [of _ 32, OF s16, simplified] by simp
  also have "\<dots> \<longleftrightarrow> (\<exists>i \<ge> j. bit y i)"
  proof
    assume "\<exists>i \<ge> j. bit y i"
    then obtain i where "j \<le> i" "bit y i" by blast
    moreover from this have "i < 64" by (auto dest: bit_imp_le_length)
    ultimately show "\<exists>i < 64. bit y (j + i)" by (intro exI [of _ "i - j"]) auto
  next
    assume "\<exists>i < 64. bit y (j + i)"
    then show "\<exists>i \<ge> j. bit y i" using le_add1 by blast
  qed
  finally show ?thesis .
qed

lemma highest_bit:
  fixes n :: nat
  assumes "0 < n"
  obtains k where "bit n k" "n < 2 ^ Suc k" "\<And>i. bit n i \<Longrightarrow> i \<le> k"
proof -
  define m where "m = (LEAST m. n < 2 ^ m)"
  have ex: "n < 2 ^ n" by (rule less_exp)
  have lt: "n < 2 ^ m" unfolding m_def by (rule LeastI [of _ n]) (rule ex)
  have "m \<noteq> 0" using lt assms by (cases m) auto
  then obtain k where k: "m = Suc k" by (cases m) auto
  have ge: "2 ^ k \<le> n"
    using not_less_Least [of k "\<lambda>m. n < 2 ^ m"] k by (simp add: m_def [symmetric])
  have "n div 2 ^ k = 1"
    using ge lt k by (intro div_nat_eqI) auto
  then have "bit n k" by (simp add: bit_iff_odd)
  moreover have "i \<le> k" if "bit n i" for i
  proof (rule ccontr)
    assume "\<not> i \<le> k"
    then have "(2::nat) ^ Suc k \<le> 2 ^ i" by (intro power_increasing) auto
    with lt k have "n div 2 ^ i = 0" by simp
    with that show False by (simp add: bit_iff_odd)
  qed
  ultimately show thesis using that lt k by blast
qed

lemma next64_p2_spec:
  assumes "0 < x" and "x \<le> 2 ^ 63"
  shows "\<exists>k < 64. next64_p2 x = exp64 k \<and> unat x \<le> 2 ^ k \<and> 2 ^ k < 2 * unat x"
proof (cases "x = 1")
  case True
  then have "next64_p2 x = exp64 0" by (simp add: next64_p2_def smear_def)
  with True show ?thesis by (intro exI [of _ 0]) simp
next
  case False
  define y where "y = x - 1"
  have x0: "0 < unat x" using assms(1) by (simp add: word_less_nat_alt)
  have y: "unat y = unat x - 1" using assms(1) by (auto simp: y_def unat_minus_one)
  have "unat x \<noteq> 1" using False by (simp add: word_unat_eq_iff)
  with x0 y have "0 < unat y" by simp
  from highest_bit [OF this] obtain p where
    p: "bit (unat y) p" "unat y < 2 ^ Suc p" "\<And>i. bit (unat y) i \<Longrightarrow> i \<le> p"
    by blast
  have "unat x \<le> 2 ^ 63" using assms(2) by (simp add: word_le_nat_alt)
  with y x0 have "unat y < 2 ^ 63" by simp
  have p63: "p < 63"
  proof (rule ccontr)
    assume "\<not> p < 63"
    then have "(2::nat) ^ 63 \<le> 2 ^ p" by (intro power_increasing) auto
    with \<open>unat y < 2 ^ 63\<close> have "unat y div 2 ^ p = 0" by simp
    with p(1) show False by (simp add: bit_iff_odd)
  qed
  have "smear 32 (smear 16 (smear 8 (smear 4 (smear 2 (smear 1 y))))) = mask (Suc p)"
  proof (rule bit_word_eqI)
    fix j assume "j < LENGTH(64)"
    then show "bit (smear 32 (smear 16 (smear 8 (smear 4 (smear 2 (smear 1 y)))))) j = bit (mask (Suc p) :: u64) j"
      unfolding bit_smear_all
      using p(1,3) p63 by (auto simp: bit_simps less_Suc_eq_le dest: le_trans)
  qed
  then have n: "next64_p2 x = exp64 (Suc p)"
    by (simp add: next64_p2_def y_def [symmetric] mask_eq_decr_exp)
  have "2 ^ p \<le> unat y"
  proof (rule ccontr)
    assume "\<not> 2 ^ p \<le> unat y"
    then have "unat y div 2 ^ p = 0" by simp
    with p(1) show False by (simp add: bit_iff_odd)
  qed
  then have "2 ^ Suc p < 2 * unat x" using y x0 by simp
  moreover have "unat x \<le> 2 ^ Suc p" using p(2) y x0 by simp
  ultimately show ?thesis using n p63 by (intro exI [of _ "Suc p"]) auto
qed

section \<open>The zero-byte test\<close>

text \<open>
  The test of \<open>LONG_NULL\<close> over \<open>n\<close> bytes of an unbounded integer: the borrow of the
  subtraction can only start at a zero byte, so by induction on the number of bytes the
  mask is nonzero exactly when some byte is zero.
\<close>

primrec byte_ones :: "nat \<Rightarrow> int" where
  "byte_ones 0 = 0"
| "byte_ones (Suc n) = 1 + 256 * byte_ones n"

definition zero_byte_mask :: "nat \<Rightarrow> int \<Rightarrow> int" where
  "zero_byte_mask n x = (x - byte_ones n) AND NOT x AND (128 * byte_ones n)"

lemma bit_128: "bit (128 :: int) i \<longleftrightarrow> i = 7"
  using bit_exp_iff [of 7 i, where ?'a = int] by simp

lemma byte_pred_and_not:
  fixes b :: int
  assumes "1 \<le> b" and "b \<le> 255"
  shows "(b - 1) AND NOT b AND 128 = 0"
proof -
  have "\<not> (bit (b - 1) 7 \<and> \<not> bit b 7)"
  proof
    assume "bit (b - 1) 7 \<and> \<not> bit b 7"
    then have odd: "odd ((b - 1) div 128)" and even: "even (b div 128)" by (simp_all add: bit_iff_odd)
    have "128 \<le> b - 1"
    proof (rule ccontr)
      assume "\<not> 128 \<le> b - 1"
      with assms have "(b - 1) div 128 = 0" by (intro div_pos_pos_trivial) auto
      with odd show False by simp
    qed
    then have "(b - 128) div 128 = 0" using assms by (intro div_pos_pos_trivial) auto
    moreover have "b div 128 = 1 + (b - 128) div 128" using div_mult_self2 [of 128 "b - 128" 1] by simp
    ultimately show False using even by simp
  qed
  moreover have "(b - 1) AND NOT b AND 128 = (if bit (b - 1) 7 \<and> \<not> bit b 7 then 128 else 0)"
    by (intro bit_eqI) (auto simp: bit_simps bit_128)
  ultimately show ?thesis by simp
qed

lemma zero_byte_mask_Suc:
  "take_bit 8 (zero_byte_mask (Suc n) x) =
     take_bit 8 (take_bit 8 x - 1) AND NOT (take_bit 8 x) AND 128"
  "0 < x mod 256 \<Longrightarrow> drop_bit 8 (zero_byte_mask (Suc n) x) = zero_byte_mask n (x div 256)"
proof -
  have "take_bit 8 (x - byte_ones (Suc n)) = take_bit 8 (take_bit 8 x - 1)"
  proof -
    have "(x - byte_ones (Suc n)) mod 256 = (x - 1 + 256 * (- byte_ones n)) mod 256"
      by (simp add: algebra_simps)
    also have "\<dots> = (x - 1) mod 256" by (rule mod_mult_self2)
    also have "\<dots> = (x mod 256 - 1) mod 256" by (simp add: mod_diff_left_eq)
    finally show ?thesis by (simp add: take_bit_eq_mod del: byte_ones.simps)
  qed
  moreover have "take_bit 8 (128 * byte_ones (Suc n)) = 128"
  proof -
    have "128 * byte_ones (Suc n) = 128 + 256 * (128 * byte_ones n)" by simp
    then have "128 * byte_ones (Suc n) mod 256 = 128 mod 256" by (simp only: mod_mult_self2)
    then show ?thesis by (simp add: take_bit_eq_mod del: byte_ones.simps)
  qed
  moreover have "take_bit 8 (NOT x) AND 128 = NOT (take_bit 8 x) AND 128"
    by (rule bit_eqI) (auto simp: bit_simps bit_128)
  ultimately show "take_bit 8 (zero_byte_mask (Suc n) x) =
     take_bit 8 (take_bit 8 x - 1) AND NOT (take_bit 8 x) AND 128"
    by (simp add: zero_byte_mask_def take_bit_and and.assoc del: byte_ones.simps)
next
  assume pos: "0 < x mod 256"
  have "x - 1 = (x mod 256 - 1) + 256 * (x div 256)" by (simp add: minus_mod_eq_mult_div [symmetric])
  then have "(x - 1) div 256 = ((x mod 256 - 1) + 256 * (x div 256)) div 256" by (rule arg_cong)
  also have "\<dots> = x div 256 + (x mod 256 - 1) div 256" by (rule div_mult_self2) simp
  also have "(x mod 256 - 1) div 256 = 0" using pos pos_mod_bound [of 256 x] by (intro div_pos_pos_trivial) auto
  finally have "(x - 1) div 256 = x div 256" by simp
  moreover have "(x - 1 + 256 * (- byte_ones n)) div 256 = - byte_ones n + (x - 1) div 256"
    by (rule div_mult_self2) simp
  ultimately have "drop_bit 8 (x - byte_ones (Suc n)) = x div 256 - byte_ones n"
    by (simp add: drop_bit_eq_div algebra_simps)
  moreover have "drop_bit 8 (128 * byte_ones (Suc n)) = 128 * byte_ones n"
    by (simp add: drop_bit_eq_div)
  moreover have "drop_bit 8 (NOT x) = NOT (x div 256)"
    by (simp add: drop_bit_eq_div not_int_def)
  ultimately show "drop_bit 8 (zero_byte_mask (Suc n) x) = zero_byte_mask n (x div 256)"
    by (simp only: zero_byte_mask_def drop_bit_and)
qed

lemma zero_byte_mask_iff:
  "zero_byte_mask n x \<noteq> 0 \<longleftrightarrow> (\<exists>i < n. x div 256 ^ i mod 256 = 0)"
proof (induction n arbitrary: x)
  case 0
  then show ?case by (simp add: zero_byte_mask_def)
next
  case (Suc n)
  let ?z = "zero_byte_mask (Suc n) x"
  have split: "?z \<noteq> 0 \<longleftrightarrow> take_bit 8 ?z \<noteq> 0 \<or> drop_bit 8 ?z \<noteq> 0"
    using bits_ident [of 8 ?z] by (metis add.left_neutral drop_bit_of_0 push_bit_of_0 take_bit_of_0)
  show ?case
  proof (cases "x mod 256 = 0")
    case True
    then have "take_bit 8 x = 0" by (simp add: take_bit_eq_mod)
    then have "take_bit 8 ?z = 128"
      by (simp add: zero_byte_mask_Suc(1) mask_eq_exp_minus_1)
    with split have "?z \<noteq> 0" by auto
    with True show ?thesis by (auto intro!: exI [of _ 0])
  next
    case False
    then have pos: "0 < x mod 256" by (simp add: order_less_le)
    have "take_bit 8 ?z = 0" 
    proof -
      have "take_bit 8 (take_bit 8 x - 1) = take_bit 8 x - 1"
        using pos by (simp add: take_bit_eq_mod)
      moreover have "1 \<le> take_bit 8 x" "take_bit 8 x \<le> 255"
        using pos pos_mod_bound [of 256 x] by (simp_all add: take_bit_eq_mod)
      ultimately show ?thesis
        using byte_pred_and_not [of "take_bit 8 x"] by (simp only: zero_byte_mask_Suc(1))
    qed
    with split have "?z \<noteq> 0 \<longleftrightarrow> zero_byte_mask n (x div 256) \<noteq> 0"
      by (simp add: zero_byte_mask_Suc(2) [OF pos])
    also have "\<dots> \<longleftrightarrow> (\<exists>i < n. x div 256 ^ Suc i mod 256 = 0)"
      by (simp add: Suc.IH zdiv_zmult2_eq)
    also have "\<dots> \<longleftrightarrow> (\<exists>i < Suc n. x div 256 ^ i mod 256 = 0)"
      using False by (auto simp: less_Suc_eq_0_disj)
    finally show ?thesis .
  qed
qed


lemma take_bit_and_and:
  "take_bit n (a AND b AND m) = a AND b AND take_bit n m" for a b m :: int
  by (rule bit_eqI) (auto simp: bit_simps)

lemma LONG_NULL_mask: "uint (LONG_NULL x) = zero_byte_mask 8 (uint x)"
proof -
  have ones: "byte_ones 8 = 0x0101010101010101"
    by (simp add: numeral_eq_Suc)
  have "uint (LONG_NULL x) =
      take_bit 64 (uint x - 0x0101010101010101) AND take_bit 64 (NOT (uint x)) AND 0x8080808080808080"
    unfolding LONG_NULL_def
    by (simp add: unsigned_and_eq unsigned_not_eq uint_word_ariths take_bit_eq_mod)
  also have "\<dots> = take_bit 64 ((uint x - 0x0101010101010101) AND NOT (uint x) AND 0x8080808080808080)"
    by (simp add: take_bit_and)
  also have "\<dots> = (uint x - 0x0101010101010101) AND NOT (uint x) AND take_bit 64 0x8080808080808080"
    by (rule take_bit_and_and)
  also have "\<dots> = zero_byte_mask 8 (uint x)"
    by (simp add: zero_byte_mask_def ones)
  finally show ?thesis .
qed

lemma LONG_NULL_iff:
  "LONG_NULL x \<noteq> 0 \<longleftrightarrow> (\<exists>i < 8. take_bit 8 (drop_bit (8 * i) x) = 0)"
proof -
  have byte: "uint x div 256 ^ i mod 256 = uint (take_bit 8 (drop_bit (8 * i) x))" for i
  proof -
    have "uint (take_bit 8 (drop_bit (8 * i) x)) = take_bit 8 (drop_bit (8 * i) (uint x))"
      by (rule bit_eqI) (auto simp: bit_simps dest: bit_imp_le_length)
    also have "\<dots> = uint x div 256 ^ i mod 256"
      by (simp only: take_bit_eq_mod drop_bit_eq_div power_mult) simp
    finally show ?thesis by simp
  qed
  have "LONG_NULL x \<noteq> 0 \<longleftrightarrow> uint (LONG_NULL x) \<noteq> 0" by (simp add: uint_0_iff)
  also have "\<dots> \<longleftrightarrow> (\<exists>i < 8. uint (take_bit 8 (drop_bit (8 * i) x)) = 0)"
    by (simp only: LONG_NULL_mask zero_byte_mask_iff byte)
  finally show ?thesis by (simp add: uint_0_iff)
qed


end
