(* ===== verification/Pml_Bitmap.thy ===== *)
theory Pml_Bitmap
  imports Pml_Stdlib
begin

text \<open>
  The bitmap interface that the PID allocator (kernel/pid.c) and the ext2 bit arrays
  (drivers/fs/ext2/bitarray.c) are clients of: a byte array read as the set of its
  one bits. The locale states what setting, clearing and testing a bit promise; the
  loops over ranges of bits are verified once, from these laws, and the interpretation
  discharges the laws for the inline functions of include/stdlib.h.
\<close>

section \<open>Loops over consecutive bits\<close>

text \<open>\<open>for (i = 0; i < num; i++) op (b, start + i)\<close>, stopping at the first bad access.\<close>

fun iter_range :: "('b \<Rightarrow> nat \<Rightarrow> 'b option) \<Rightarrow> 'b \<Rightarrow> nat \<Rightarrow> nat \<Rightarrow> 'b option" where
  "iter_range f b start 0 = Some b"
| "iter_range f b start (Suc num) =
     (case f b start of None \<Rightarrow> None | Some b' \<Rightarrow> iter_range f b' (Suc start) num)"

text \<open>The first index in a range whose bit is clear, the reference for every search loop.\<close>

fun first_clear :: "nat set \<Rightarrow> nat \<Rightarrow> nat \<Rightarrow> nat option" where
  "first_clear S start 0 = None"
| "first_clear S start (Suc num) =
     (if start \<notin> S then Some start else first_clear S (Suc start) num)"

lemma first_clear_None: "first_clear S a n = None \<longleftrightarrow> {a..<a + n} \<subseteq> S"
proof (induction n arbitrary: a)
  case (Suc n)
  have "{a..<a + Suc n} = insert a {Suc a..<Suc a + n}" by auto
  with Suc.IH [of "Suc a"] show ?case by auto
qed simp

lemma first_clear_Some:
  "first_clear S a n = Some i \<longleftrightarrow> a \<le> i \<and> i < a + n \<and> i \<notin> S \<and> {a..<i} \<subseteq> S"
proof (induction n arbitrary: a)
  case (Suc n)
  show ?case
  proof (cases "a \<in> S")
    case True
    have "{a..<i} \<subseteq> S \<longleftrightarrow> {Suc a..<i} \<subseteq> S" if "Suc a \<le> i"
    proof -
      have "{a..<i} = insert a {Suc a..<i}" using that by auto
      then show ?thesis using True by simp
    qed
    with True Suc.IH [of "Suc a"] show ?thesis by (auto dest: Suc_leI le_neq_implies_less)
  next
    case False
    then have "first_clear S a (Suc n) = Some i \<longleftrightarrow> i = a" by auto
    also have "\<dots> \<longleftrightarrow> a \<le> i \<and> i < a + Suc n \<and> i \<notin> S \<and> {a..<i} \<subseteq> S"
    proof
      assume h: "a \<le> i \<and> i < a + Suc n \<and> i \<notin> S \<and> {a..<i} \<subseteq> S"
      show "i = a"
      proof (rule ccontr)
        assume "i \<noteq> a"
        with h have "a \<in> {a..<i}" by simp
        with h False show False by blast
      qed
    qed (use False in simp)
    finally show ?thesis .
  qed
qed auto

section \<open>The interface\<close>

locale bitmap_interface =
  fixes bset :: "'b \<Rightarrow> nat \<Rightarrow> 'b option"
    and bclear :: "'b \<Rightarrow> nat \<Rightarrow> 'b option"
    and btest :: "'b \<Rightarrow> nat \<Rightarrow> bool option"
    and ones :: "'b \<Rightarrow> nat set"
    and cap :: "'b \<Rightarrow> nat"
  assumes ones_bound: "ones b \<subseteq> {..<cap b}"
    and set_in: "i < cap b \<Longrightarrow>
      \<exists>b'. bset b i = Some b' \<and> ones b' = insert i (ones b) \<and> cap b' = cap b"
    and clear_in: "i < cap b \<Longrightarrow>
      \<exists>b'. bclear b i = Some b' \<and> ones b' = ones b - {i} \<and> cap b' = cap b"
    and test_in: "i < cap b \<Longrightarrow> btest b i = Some (i \<in> ones b)"
    and set_out: "cap b \<le> i \<Longrightarrow> bset b i = None"
    and clear_out: "cap b \<le> i \<Longrightarrow> bclear b i = None"
    and test_out: "cap b \<le> i \<Longrightarrow> btest b i = None"
begin

lemma set_SomeD:
  "bset b i = Some b' \<Longrightarrow> i < cap b \<and> ones b' = insert i (ones b) \<and> cap b' = cap b"
  using set_in [of i b] set_out [of b i] by (cases "i < cap b") auto

lemma clear_SomeD:
  "bclear b i = Some b' \<Longrightarrow> i < cap b \<and> ones b' = ones b - {i} \<and> cap b' = cap b"
  using clear_in [of i b] clear_out [of b i] by (cases "i < cap b") auto

lemma test_SomeD: "btest b i = Some t \<Longrightarrow> i < cap b \<and> t = (i \<in> ones b)"
  using test_in [of i b] test_out [of b i] by (cases "i < cap b") auto

lemma set_range:
  "a + n \<le> cap b \<Longrightarrow>
   \<exists>b'. iter_range bset b a n = Some b' \<and> ones b' = ones b \<union> {a..<a + n} \<and> cap b' = cap b"
proof (induction n arbitrary: a b)
  case (Suc n)
  then obtain b1 where b1: "bset b a = Some b1" "ones b1 = insert a (ones b)" "cap b1 = cap b"
    using set_in [of a b] by auto
  with Suc.prems Suc.IH [of "Suc a" b1] obtain b' where
    "iter_range bset b1 (Suc a) n = Some b'" "ones b' = ones b1 \<union> {Suc a..<Suc a + n}" "cap b' = cap b1"
    by auto
  moreover have "{a..<a + Suc n} = insert a {Suc a..<Suc a + n}" by auto
  ultimately show ?case using b1 by simp
qed simp

lemma clear_range:
  "a + n \<le> cap b \<Longrightarrow>
   \<exists>b'. iter_range bclear b a n = Some b' \<and> ones b' = ones b - {a..<a + n} \<and> cap b' = cap b"
proof (induction n arbitrary: a b)
  case (Suc n)
  then obtain b1 where b1: "bclear b a = Some b1" "ones b1 = ones b - {a}" "cap b1 = cap b"
    using clear_in [of a b] by auto
  with Suc.prems Suc.IH [of "Suc a" b1] obtain b' where
    "iter_range bclear b1 (Suc a) n = Some b'" "ones b' = ones b1 - {Suc a..<Suc a + n}" "cap b' = cap b1"
    by auto
  moreover have "{a..<a + Suc n} = insert a {Suc a..<Suc a + n}" by auto
  ultimately show ?case using b1 by (simp add: Diff_insert2 [symmetric])
qed simp

end

section \<open>The byte-array bitmaps of stdlib.h\<close>

definition bm_ones :: "u8 list \<Rightarrow> nat set" where
  "bm_ones bm = {i. i < 8 * length bm \<and> bit (bm ! (i div 8)) (i mod 8)}"

abbreviation bm_cap :: "u8 list \<Rightarrow> nat" where
  "bm_cap bm \<equiv> 8 * length bm"

lemma div8_less: "i < 8 * n \<longleftrightarrow> i div 8 < (n::nat)"
  by (simp add: div_less_iff_less_mult mult.commute)

lemma bm_ones_update:
  assumes "i div 8 < length bm"
  shows "j \<in> bm_ones (bm[i div 8 := w]) \<longleftrightarrow>
         (if j div 8 = i div 8 then bit w (j mod 8) else j \<in> bm_ones bm)"
  using assms by (auto simp: bm_ones_def nth_list_update div8_less)

lemma same_byte_eq: "j div 8 = i div 8 \<Longrightarrow> j mod 8 = i mod 8 \<longleftrightarrow> j = (i::nat)"
  by (metis div_mult_mod_eq)

lemma bm_ones_same_byte:
  "i < bm_cap bm \<Longrightarrow> j div 8 = i div 8 \<Longrightarrow> j \<in> bm_ones bm \<longleftrightarrow> bit (bm ! (i div 8)) (j mod 8)"
  by (simp add: bm_ones_def div8_less)

lemma set_bit_bm_ones:
  assumes "i < bm_cap bm"
  shows "\<exists>bm'. set_bit_bm bm i = Some bm' \<and> bm_ones bm' = insert i (bm_ones bm)
               \<and> bm_cap bm' = bm_cap bm"
proof -
  let ?w = "bm ! (i div 8) OR push_bit (i mod 8) 1"
  have k: "i div 8 < length bm" using assms by (simp add: div8_less)
  have "j \<in> bm_ones (bm[i div 8 := ?w]) \<longleftrightarrow> j \<in> insert i (bm_ones bm)" for j
  proof (cases "j div 8 = i div 8")
    case True
    have "bit ?w (j mod 8) \<longleftrightarrow> bit (bm ! (i div 8)) (j mod 8) \<or> j mod 8 = i mod 8"
      by (auto simp: bit_simps)
    with True show ?thesis
      by (simp only: bm_ones_update [OF k] bm_ones_same_byte [OF assms] same_byte_eq insert_iff) auto
  next
    case False
    then show ?thesis by (auto simp: bm_ones_update [OF k])
  qed
  then have "bm_ones (bm[i div 8 := ?w]) = insert i (bm_ones bm)" by blast
  with k show ?thesis by (simp add: set_bit_bm_def)
qed

lemma clear_bit_bm_ones:
  assumes "i < bm_cap bm"
  shows "\<exists>bm'. clear_bit_bm bm i = Some bm' \<and> bm_ones bm' = bm_ones bm - {i}
               \<and> bm_cap bm' = bm_cap bm"
proof -
  let ?w = "bm ! (i div 8) AND NOT (push_bit (i mod 8) 1)"
  have k: "i div 8 < length bm" using assms by (simp add: div8_less)
  have "j \<in> bm_ones (bm[i div 8 := ?w]) \<longleftrightarrow> j \<in> bm_ones bm - {i}" for j
  proof (cases "j div 8 = i div 8")
    case True
    have "bit ?w (j mod 8) \<longleftrightarrow> bit (bm ! (i div 8)) (j mod 8) \<and> j mod 8 \<noteq> i mod 8"
      by (auto simp: bit_simps)
    with True show ?thesis
      by (simp only: bm_ones_update [OF k] bm_ones_same_byte [OF assms] same_byte_eq Diff_iff) simp
  next
    case False
    then show ?thesis by (auto simp: bm_ones_update [OF k])
  qed
  then have "bm_ones (bm[i div 8 := ?w]) = bm_ones bm - {i}" by blast
  with k show ?thesis by (simp add: clear_bit_bm_def)
qed

lemma test_bit_bm_ones:
  "i < bm_cap bm \<Longrightarrow> test_bit_bm bm i = Some (i \<in> bm_ones bm)"
  using and_push_bit_1_iff [of "i mod 8" "bm ! (i div 8)"]
  by (simp add: test_bit_bm_def bm_ones_def div8_less)

interpretation bm: bitmap_interface set_bit_bm clear_bit_bm test_bit_bm bm_ones bm_cap
proof unfold_locales
  show "bm_ones b \<subseteq> {..<bm_cap b}" for b by (auto simp: bm_ones_def)
next
  fix i b
  assume "bm_cap b \<le> i"
  then have out: "\<not> i div 8 < length b" by (simp add: div8_less [symmetric])
  show "set_bit_bm b i = None" "clear_bit_bm b i = None" "test_bit_bm b i = None"
    using out by (simp_all add: set_bit_bm_def clear_bit_bm_def test_bit_bm_def)
qed (fact set_bit_bm_ones clear_bit_bm_ones test_bit_bm_ones)+

lemma bm_ones_zeros: "bm_ones (replicate n 0) = {}"
  by (auto simp: bm_ones_def div8_less)

lemma bm_ones_append_zeros: "bm_ones (bm @ replicate n 0) = bm_ones bm"
proof (rule set_eqI)
  fix j
  show "j \<in> bm_ones (bm @ replicate n 0) \<longleftrightarrow> j \<in> bm_ones bm"
  proof (cases "j div 8 < length bm")
    case True
    then have "j < bm_cap bm" by (simp add: div8_less)
    with True show ?thesis by (simp add: bm_ones_def nth_append)
  next
    case False
    then have "j \<notin> bm_ones bm" by (simp add: bm_ones_def div8_less)
    moreover have "j \<notin> bm_ones (bm @ replicate n 0)"
      using False div8_less [of j "length bm + n"] by (auto simp: bm_ones_def nth_append)
    ultimately show ?thesis by simp
  qed
qed

end
