(* ===== verification/Pml_Siphash.thy ===== *)
theory Pml_Siphash
  imports Pml_Stdlib
begin

text \<open>
  util/siphash.c: the keyed hash behind every hash map of the kernel (PIDs, vnode
  caches, directory children). The four state words of the C function are a record,
  \<open>SIP_ROUND\<close> is the statement sequence of the macro, and the byte buffer is a list
  of bytes, read eight at a time in little-endian order as the x86-64 load does.
\<close>

record sip_state =
  v0 :: u64
  v1 :: u64
  v2 :: u64
  v3 :: u64

definition SIP_ROUND :: "sip_state \<Rightarrow> sip_state" where
  "SIP_ROUND s =
     (let s = s\<lparr>v0 := v0 s + 1\<rparr>;
          s = s\<lparr>v1 := rolq (v1 s) 13\<rparr>;
          s = s\<lparr>v1 := v1 s XOR v0 s\<rparr>;
          s = s\<lparr>v0 := rolq (v0 s) 32\<rparr>;
          s = s\<lparr>v2 := v2 s + v3 s\<rparr>;
          s = s\<lparr>v3 := rolq (v3 s) 16\<rparr>;
          s = s\<lparr>v3 := v3 s XOR v2 s\<rparr>;
          s = s\<lparr>v0 := v0 s + v3 s\<rparr>;
          s = s\<lparr>v3 := rolq (v3 s) 21\<rparr>;
          s = s\<lparr>v3 := v3 s XOR v0 s\<rparr>;
          s = s\<lparr>v2 := v2 s + v1 s\<rparr>;
          s = s\<lparr>v1 := rolq (v1 s) 17\<rparr>;
          s = s\<lparr>v1 := v1 s XOR v2 s\<rparr>
      in s\<lparr>v2 := rolq (v2 s) 32\<rparr>)"

text \<open>\<open>*((uint64_t *) data)\<close>, and the bytes left over after the last full word.\<close>

fun le_word :: "u8 list \<Rightarrow> u64" where
  "le_word [] = 0"
| "le_word (b # bs) = ucast b OR push_bit 8 (le_word bs)"

fun sip_blocks :: "nat \<Rightarrow> u8 list \<Rightarrow> sip_state \<Rightarrow> sip_state" where
  "sip_blocks 0 data s = s"
| "sip_blocks (Suc n) data s =
     (let m = le_word (take 8 data);
          s = s\<lparr>v3 := v3 s XOR m\<rparr>;
          s = SIP_ROUND (SIP_ROUND s)
      in sip_blocks n (drop 8 data) (s\<lparr>v0 := v0 s XOR m\<rparr>))"

text \<open>The switch on \<open>rem\<close> falls through from the highest byte to the lowest.\<close>

definition sip_tail :: "u8 list \<Rightarrow> u64 \<Rightarrow> u64" where
  "sip_tail data b =
     (let rem = length data in
      let b = (if 7 \<le> rem then b OR push_bit 48 (ucast (data ! 6)) else b);
          b = (if 6 \<le> rem then b OR push_bit 40 (ucast (data ! 5)) else b);
          b = (if 5 \<le> rem then b OR push_bit 32 (ucast (data ! 4)) else b);
          b = (if 4 \<le> rem then b OR push_bit 24 (ucast (data ! 3)) else b);
          b = (if 3 \<le> rem then b OR push_bit 16 (ucast (data ! 2)) else b);
          b = (if 2 \<le> rem then b OR push_bit 8 (ucast (data ! 1)) else b)
      in (if 1 \<le> rem then b OR ucast (data ! 0) else b))"

definition siphash :: "u8 list \<Rightarrow> 128 word \<Rightarrow> u64" where
  "siphash buffer key =
     (let len = length buffer;
          k0 = ucast (key AND 0xffffffffffffffff) :: u64;
          k1 = ucast (drop_bit 64 key) :: u64;
          b = push_bit 56 (of_nat len) :: u64;
          s = \<lparr>v0 = 0x736f6d6570736575, v1 = 0x646f72616e646f6d,
               v2 = 0x6c7967656e657261, v3 = 0x7465646279746573\<rparr>;
          s = s\<lparr>v3 := v3 s XOR k1, v2 := v2 s XOR k0, v1 := v1 s XOR k1, v0 := v0 s XOR k0\<rparr>;
          s = sip_blocks (len div 8) buffer s;
          b = sip_tail (drop (len div 8 * 8) buffer) b;
          s = s\<lparr>v3 := v3 s XOR b\<rparr>;
          s = SIP_ROUND (SIP_ROUND s);
          s = s\<lparr>v0 := v0 s XOR b\<rparr>;
          s = s\<lparr>v2 := v2 s XOR 0xff\<rparr>;
          s = SIP_ROUND (SIP_ROUND (SIP_ROUND (SIP_ROUND s)))
      in v0 s XOR v1 s XOR v2 s XOR v3 s)"

text \<open>The keys the kernel hashes: an \<open>unsigned long\<close> and a \<open>pid_t\<close> as their object bytes.\<close>

definition ulong_bytes :: "u64 \<Rightarrow> u8 list" where
  "ulong_bytes k = map (\<lambda>i. ucast (drop_bit (8 * i) k)) [0..<8]"

definition uint_bytes :: "u32 \<Rightarrow> u8 list" where
  "uint_bytes k = map (\<lambda>i. ucast (drop_bit (8 * i) k)) [0..<4]"

section \<open>Evaluation and key serialisation\<close>

lemma SIP_ROUND_exec:
  "SIP_ROUND \<lparr>v0 = a, v1 = b, v2 = c, v3 = d\<rparr> =
   (let a1 = a + 1; b1 = rolq b 13 XOR a1; a2 = rolq a1 32; c1 = c + d; d1 = rolq d 16 XOR c1;
        a3 = a2 + d1; d2 = rolq d1 21 XOR a3; c2 = c1 + b1; b2 = rolq b1 17 XOR c2
    in \<lparr>v0 = a3, v1 = b2, v2 = rolq c2 32, v3 = d2\<rparr>)"
  by (simp add: SIP_ROUND_def Let_def)

lemmas sip_eval = siphash_def SIP_ROUND_exec rolq_def sip_tail_def Let_def

lemma le_word_bytes:
  "le_word (map (\<lambda>i. ucast (drop_bit (8 * i) (k :: u64))) [a..<a + m]) =
   take_bit (8 * m) (drop_bit (8 * a) k)"
proof (induction m arbitrary: a)
  case (Suc m)
  have "[a..<a + Suc m] = a # [Suc a..<Suc a + m]" by (simp add: upt_rec)
  moreover have "(ucast (ucast (drop_bit (8 * a) k) :: u8) :: u64) OR
      push_bit 8 (take_bit (8 * m) (drop_bit (8 * Suc a) k)) =
      take_bit (8 * Suc m) (drop_bit (8 * a) k)"
  proof (rule bit_word_eqI)
    fix n
    show "bit ((ucast (ucast (drop_bit (8 * a) k) :: u8) :: u64) OR
        push_bit 8 (take_bit (8 * m) (drop_bit (8 * Suc a) k))) n =
      bit (take_bit (8 * Suc m) (drop_bit (8 * a) k)) n"
    proof (cases "n < 8")
      case False
      then have "8 * Suc a + (n - 8) = 8 * a + n" by simp
      with False show ?thesis
        by (auto simp: bit_simps dest: bit_imp_le_length)
    qed (simp add: bit_simps)
  qed
  ultimately show ?case using Suc.IH [of "Suc a"] by simp
qed simp

lemma le_word_ulong_bytes: "le_word (ulong_bytes k) = k"
proof -
  have "take_bit 64 k = k" by (rule bit_word_eqI) (simp add: bit_simps)
  then show ?thesis using le_word_bytes [of k 0 8] by (simp add: ulong_bytes_def)
qed

lemma ulong_bytes_inj: "ulong_bytes j = ulong_bytes k \<longleftrightarrow> j = k"
  by (metis le_word_ulong_bytes)

end
