(* ===== verification/Pml_Map.thy ===== *)
theory Pml_Map
  imports Pml_Siphash
begin

text \<open>
  util/map.c: the chained hash maps of the kernel, \<open>struct hashmap\<close> (integer keys) and
  \<open>struct strmap\<close> (string keys). The two halves of the source file are the same code over
  two key types, so the bucket walks and the rehash are defined once over a key type and
  a hash function, and the operations of the two maps are their instances.

  A bucket is the list of its entries in chain order. Every entry carries the state of
  the memory block it lives in: \<open>Live\<close>, \<open>Freed\<close> after a call of free on it, or \<open>NullKey\<close>
  for a string entry whose strdup failed. Touching an entry that is not live has no
  defined behaviour in C; an operation that does so has the result \<open>None\<close>.

  Allocation failures are an input: the list of outcomes of the calls to malloc, calloc
  and strdup in the order they are made (an exhausted list means success).
\<close>

section \<open>Data\<close>

datatype entry_state = Live | Freed | NullKey

record ('k, 'v) map_entry =
  ekey :: 'k
  evalue :: 'v
  estate :: entry_state

record ('k, 'v) chain_map =
  buckets :: "('k, 'v) map_entry list list"
  bucket_count :: nat
  object_count :: nat

definition HASHMAP_INIT_BUCKETS :: nat where
  "HASHMAP_INIT_BUCKETS = 16"

type_synonym alloc_outcomes = "bool list"

fun take_alloc :: "alloc_outcomes \<Rightarrow> bool \<times> alloc_outcomes" where
  "take_alloc [] = (True, [])"
| "take_alloc (ok # al) = (ok, al)"

section \<open>Operations common to both maps\<close>

definition map_create :: "alloc_outcomes \<Rightarrow> ('k, 'v) chain_map option \<times> alloc_outcomes" where
  "map_create al =
     (let (ok, al) = take_alloc al in
      if \<not> ok then (None, al)
      else let (ok, al) = take_alloc al in
           if \<not> ok then (None, al)
           else (Some \<lparr>buckets = replicate HASHMAP_INIT_BUCKETS [],
                       bucket_count = HASHMAP_INIT_BUCKETS, object_count = 0\<rparr>, al))"

definition free_entry :: "('k, 'v) map_entry \<Rightarrow> ('k, 'v) map_entry" where
  "free_entry e = e\<lparr>estate := Freed\<rparr>"

text \<open>
  The inner loop of the rehash: each entry of one old bucket is copied to a new block
  appended to its chain in the new array. \<open>Inl None\<close> is a bad access, \<open>Inl (Some al)\<close>
  a failed allocation.
\<close>

fun rehash_bucket ::
    "('k \<Rightarrow> u64) \<Rightarrow> nat \<Rightarrow> alloc_outcomes \<Rightarrow> ('k, 'v) map_entry list
     \<Rightarrow> ('k, 'v) map_entry list list
     \<Rightarrow> alloc_outcomes option + (('k, 'v) map_entry list list \<times> alloc_outcomes)" where
  "rehash_bucket hash n al [] new = Inr (new, al)"
| "rehash_bucket hash n al (e # es) new =
     (if estate e \<noteq> Live then Inl None
      else let index = unat (hash (ekey e)) mod n;
               (ok, al) = take_alloc al
           in if \<not> ok then Inl (Some al)
              else rehash_bucket hash n al es (new[index := new ! index @ [e]]))"

text \<open>
  The outer loop: after a bucket is copied its old entries are freed, so a failure in a
  later bucket leaves the already copied buckets of the map pointing at freed blocks.
\<close>

fun rehash_all ::
    "('k \<Rightarrow> u64) \<Rightarrow> nat \<Rightarrow> alloc_outcomes \<Rightarrow> ('k, 'v) map_entry list list
     \<Rightarrow> ('k, 'v) map_entry list list \<Rightarrow> ('k, 'v) map_entry list list
     \<Rightarrow> (('k, 'v) map_entry list list \<times> alloc_outcomes) option
        + (('k, 'v) map_entry list list \<times> alloc_outcomes)" where
  "rehash_all hash n al processed [] new = Inr (new, al)"
| "rehash_all hash n al processed (b # bs) new =
     (case rehash_bucket hash n al b new of
        Inl None \<Rightarrow> Inl None
      | Inl (Some al') \<Rightarrow> Inl (Some (processed @ b # bs, al'))
      | Inr (new', al') \<Rightarrow> rehash_all hash n al' (processed @ [map free_entry b]) bs new')"

text \<open>The growth step; the boolean says whether the insertion goes on.\<close>

definition map_grow ::
    "('k \<Rightarrow> u64) \<Rightarrow> alloc_outcomes \<Rightarrow> ('k, 'v) chain_map
     \<Rightarrow> (bool \<times> ('k, 'v) chain_map \<times> alloc_outcomes) option" where
  "map_grow hash al m =
     (if object_count m \<ge> bucket_count m * 3 div 4
      then let (ok, al) = take_alloc al in
           if \<not> ok then Some (False, m, al)
           else (case rehash_all hash (bucket_count m * 2) al [] (buckets m)
                        (replicate (bucket_count m * 2) []) of
                   Inl None \<Rightarrow> None
                 | Inl (Some (bs, al)) \<Rightarrow> Some (False, m\<lparr>buckets := bs\<rparr>, al)
                 | Inr (new, al) \<Rightarrow>
                     Some (True, m\<lparr>buckets := new, bucket_count := bucket_count m * 2\<rparr>, al))
      else Some (True, m, al))"

text \<open>
  The walk that replaces the value of an existing entry: \<open>None\<close> for a bad access,
  \<open>Some None\<close> when the key is absent.
\<close>

fun bucket_replace ::
    "'k \<Rightarrow> 'v \<Rightarrow> ('k, 'v) map_entry list \<Rightarrow> ('k, 'v) map_entry list option option" where
  "bucket_replace k v [] = Some None"
| "bucket_replace k v (e # es) =
     (if estate e \<noteq> Live then None
      else if ekey e = k then Some (Some (e\<lparr>evalue := v\<rparr> # es))
      else map_option (map_option (\<lambda>es'. e # es')) (bucket_replace k v es))"

fun bucket_lookup :: "'k \<Rightarrow> ('k, 'v) map_entry list \<Rightarrow> 'v option option" where
  "bucket_lookup k [] = Some None"
| "bucket_lookup k (e # es) =
     (if estate e \<noteq> Live then None
      else if ekey e = k then Some (Some (evalue e))
      else bucket_lookup k es)"

definition bucket_index :: "('k \<Rightarrow> u64) \<Rightarrow> ('k, 'v) chain_map \<Rightarrow> 'k \<Rightarrow> nat" where
  "bucket_index hash m k = unat (hash k) mod bucket_count m"

text \<open>
  The part of the insertion after the growth step. \<open>dup\<close> is set for the string map,
  which duplicates the key without looking at the result of strdup.
\<close>

definition map_put ::
    "('k \<Rightarrow> u64) \<Rightarrow> bool \<Rightarrow> alloc_outcomes \<Rightarrow> ('k, 'v) chain_map \<Rightarrow> 'k \<Rightarrow> 'v
     \<Rightarrow> (int \<times> ('k, 'v) chain_map \<times> alloc_outcomes) option" where
  "map_put hash dup al m k v =
     (let index = bucket_index hash m k in
      case bucket_replace k v (buckets m ! index) of
        None \<Rightarrow> None
      | Some (Some b) \<Rightarrow> Some (0, m\<lparr>buckets := (buckets m)[index := b]\<rparr>, al)
      | Some None \<Rightarrow>
          (let (ok, al) = take_alloc al in
           if \<not> ok then Some (-1, m, al)
           else let (keyok, al) = (if dup then take_alloc al else (True, al));
                    e = \<lparr>ekey = k, evalue = v, estate = (if keyok then Live else NullKey)\<rparr>
                in Some (0, m\<lparr>buckets := (buckets m)[index := buckets m ! index @ [e]],
                              object_count := object_count m + 1\<rparr>, al)))"

definition map_insert ::
    "('k \<Rightarrow> u64) \<Rightarrow> bool \<Rightarrow> alloc_outcomes \<Rightarrow> ('k, 'v) chain_map \<Rightarrow> 'k \<Rightarrow> 'v
     \<Rightarrow> (int \<times> ('k, 'v) chain_map \<times> alloc_outcomes) option" where
  "map_insert hash dup al m k v =
     (case map_grow hash al m of
        None \<Rightarrow> None
      | Some (False, m, al) \<Rightarrow> Some (-1, m, al)
      | Some (True, m, al) \<Rightarrow> map_put hash dup al m k v)"

definition map_lookup ::
    "('k \<Rightarrow> u64) \<Rightarrow> ('k, 'v) chain_map \<Rightarrow> 'k \<Rightarrow> 'v option option" where
  "map_lookup hash m k = bucket_lookup k (buckets m ! bucket_index hash m k)"

fun bucket_iterate ::
    "('k \<Rightarrow> 'v \<Rightarrow> 'd \<Rightarrow> 'd) \<Rightarrow> ('k, 'v) map_entry list \<Rightarrow> 'd \<Rightarrow> 'd option" where
  "bucket_iterate f [] d = Some d"
| "bucket_iterate f (e # es) d =
     (if estate e \<noteq> Live then None else bucket_iterate f es (f (ekey e) (evalue e) d))"

fun map_iterate_from ::
    "('k \<Rightarrow> 'v \<Rightarrow> 'd \<Rightarrow> 'd) \<Rightarrow> ('k, 'v) map_entry list list \<Rightarrow> 'd \<Rightarrow> 'd option" where
  "map_iterate_from f [] d = Some d"
| "map_iterate_from f (b # bs) d =
     (case bucket_iterate f b d of None \<Rightarrow> None | Some d' \<Rightarrow> map_iterate_from f bs d')"

section \<open>struct hashmap\<close>

type_synonym 'v hashmap = "(u64, 'v) chain_map"

definition hash_ulong :: "u64 \<Rightarrow> u64" where
  "hash_ulong k = siphash (ulong_bytes k) 0"

definition hashmap_create :: "alloc_outcomes \<Rightarrow> 'v hashmap option \<times> alloc_outcomes" where
  "hashmap_create al = map_create al"

definition hashmap_insert ::
    "alloc_outcomes \<Rightarrow> 'v hashmap \<Rightarrow> u64 \<Rightarrow> 'v \<Rightarrow> (int \<times> 'v hashmap \<times> alloc_outcomes) option" where
  "hashmap_insert al m k v = map_insert hash_ulong False al m k v"

definition hashmap_lookup :: "'v hashmap \<Rightarrow> u64 \<Rightarrow> 'v option option" where
  "hashmap_lookup m k = map_lookup hash_ulong m k"

definition hashmap_iterate ::
    "'v hashmap \<Rightarrow> (u64 \<Rightarrow> 'v \<Rightarrow> 'd \<Rightarrow> 'd) \<Rightarrow> 'd \<Rightarrow> 'd option" where
  "hashmap_iterate m f d = map_iterate_from f (buckets m) d"

text \<open>
  Freeing calls the callback on every value, in bucket order; the list is the sequence of
  values handed to it. The bucket array itself is not freed.
\<close>

definition hashmap_free :: "'v hashmap \<Rightarrow> 'v list option" where
  "hashmap_free m = map_iterate_from (\<lambda>k v vs. vs @ [v]) (buckets m) []"

text \<open>\<open>Some None\<close>: the key is not in this bucket.\<close>

fun bucket_remove :: "'k \<Rightarrow> ('k, 'v) map_entry list \<Rightarrow> ('k, 'v) map_entry list option option" where
  "bucket_remove k [] = Some None"
| "bucket_remove k (e # es) =
     (if estate e \<noteq> Live then None
      else if ekey e = k then Some (Some es)
      else map_option (map_option (\<lambda>es'. e # es')) (bucket_remove k es))"

fun buckets_remove ::
    "'k \<Rightarrow> ('k, 'v) map_entry list list \<Rightarrow> ('k, 'v) map_entry list list option option" where
  "buckets_remove k [] = Some None"
| "buckets_remove k (b # bs) =
     (case bucket_remove k b of
        None \<Rightarrow> None
      | Some (Some b') \<Rightarrow> Some (Some (b' # bs))
      | Some None \<Rightarrow> map_option (map_option (\<lambda>bs'. b # bs')) (buckets_remove k bs))"

definition hashmap_remove :: "'v hashmap \<Rightarrow> u64 \<Rightarrow> (int \<times> 'v hashmap) option" where
  "hashmap_remove m k =
     (case buckets_remove k (buckets m) of
        None \<Rightarrow> None
      | Some None \<Rightarrow> Some (-1, m)
      | Some (Some bs) \<Rightarrow> Some (0, m\<lparr>buckets := bs\<rparr>))"

section \<open>struct strmap\<close>

type_synonym 'v strmap = "(u8 list, 'v) chain_map"

definition hash_string :: "u8 list \<Rightarrow> u64" where
  "hash_string s = siphash s 0"

definition strmap_create :: "alloc_outcomes \<Rightarrow> 'v strmap option \<times> alloc_outcomes" where
  "strmap_create al = map_create al"

definition strmap_insert ::
    "alloc_outcomes \<Rightarrow> 'v strmap \<Rightarrow> u8 list \<Rightarrow> 'v \<Rightarrow> (int \<times> 'v strmap \<times> alloc_outcomes) option" where
  "strmap_insert al m k v = map_insert hash_string True al m k v"

definition strmap_lookup :: "'v strmap \<Rightarrow> u8 list \<Rightarrow> 'v option option" where
  "strmap_lookup m k = map_lookup hash_string m k"

definition strmap_iterate ::
    "'v strmap \<Rightarrow> (u8 list \<Rightarrow> 'v \<Rightarrow> 'd \<Rightarrow> 'd) \<Rightarrow> 'd \<Rightarrow> 'd option" where
  "strmap_iterate m f d = map_iterate_from f (buckets m) d"

definition strmap_free :: "'v strmap \<Rightarrow> 'v list option" where
  "strmap_free m = map_iterate_from (\<lambda>k v vs. vs @ [v]) (buckets m) []"

text \<open>
  The removal loop of the string map frees every entry it passes over before it reads
  that entry's next pointer; the flag says whether \<open>prev\<close> is set, which then points to a
  freed entry.
\<close>

fun str_bucket_remove ::
    "bool \<Rightarrow> u8 list \<Rightarrow> (u8 list, 'v) map_entry list
     \<Rightarrow> (u8 list, 'v) map_entry list option option" where
  "str_bucket_remove prev k [] = Some None"
| "str_bucket_remove prev k (e # es) =
     (if estate e \<noteq> Live then None
      else if ekey e = k then (if prev then None else Some (Some es))
      else (let e = free_entry e in
            if estate e \<noteq> Live then None
            else map_option (map_option (\<lambda>es'. e # es')) (str_bucket_remove True k es)))"

fun str_buckets_remove ::
    "u8 list \<Rightarrow> (u8 list, 'v) map_entry list list
     \<Rightarrow> (u8 list, 'v) map_entry list list option option" where
  "str_buckets_remove k [] = Some None"
| "str_buckets_remove k (b # bs) =
     (case str_bucket_remove False k b of
        None \<Rightarrow> None
      | Some (Some b') \<Rightarrow> Some (Some (b' # bs))
      | Some None \<Rightarrow> map_option (map_option (\<lambda>bs'. b # bs')) (str_buckets_remove k bs))"

definition strmap_remove :: "'v strmap \<Rightarrow> u8 list \<Rightarrow> (int \<times> 'v strmap) option" where
  "strmap_remove m k =
     (case str_buckets_remove k (buckets m) of
        None \<Rightarrow> None
      | Some None \<Rightarrow> Some (-1, m)
      | Some (Some bs) \<Rightarrow> Some (0, m\<lparr>buckets := bs\<rparr>))"

section \<open>Walks over live buckets\<close>

definition kv :: "('k, 'v) map_entry \<Rightarrow> 'k \<times> 'v" where
  "kv e = (ekey e, evalue e)"

definition bucket_map :: "('k, 'v) map_entry list \<Rightarrow> 'k \<rightharpoonup> 'v" where
  "bucket_map b = map_of (map kv b)"

definition all_live :: "('k, 'v) map_entry list \<Rightarrow> bool" where
  "all_live b \<longleftrightarrow> (\<forall>e \<in> set b. estate e = Live)"

abbreviation keys :: "('k, 'v) map_entry list \<Rightarrow> 'k set" where
  "keys b \<equiv> ekey ` set b"

lemma all_live_simps [simp]:
  "all_live []"
  "all_live (e # es) \<longleftrightarrow> estate e = Live \<and> all_live es"
  "all_live (xs @ ys) \<longleftrightarrow> all_live xs \<and> all_live ys"
  by (auto simp: all_live_def)

lemma bucket_map_simps [simp]:
  "bucket_map [] = Map.empty"
  "bucket_map (e # es) = (bucket_map es)(ekey e \<mapsto> evalue e)"
  "bucket_map (xs @ ys) = bucket_map ys ++ bucket_map xs"
  by (simp_all add: bucket_map_def kv_def)

lemma bucket_map_dom: "dom (bucket_map b) = keys b"
  by (simp add: bucket_map_def dom_map_of_conv_image_fst image_image kv_def)

lemma bucket_map_None: "bucket_map b k = None \<longleftrightarrow> k \<notin> keys b"
  using bucket_map_dom [of b] by blast

lemma bucket_lookup_live: "all_live b \<Longrightarrow> bucket_lookup k b = Some (bucket_map b k)"
  by (induction b) auto

lemma bucket_replace_live:
  assumes "all_live b"
  shows "(k \<notin> keys b \<and> bucket_replace k v b = Some None) \<or>
         (\<exists>b'. bucket_replace k v b = Some (Some b') \<and> all_live b' \<and>
               map ekey b' = map ekey b \<and> bucket_map b' = (bucket_map b)(k \<mapsto> v))"
  using assms
proof (induction b)
  case (Cons e es)
  show ?case
  proof (cases "ekey e = k")
    case True
    with Cons.prems show ?thesis by auto
  next
    case False
    from Cons.prems have "all_live es" by simp
    from Cons.IH [OF this] consider
        (absent) "k \<notin> keys es" "bucket_replace k v es = Some None"
      | (found) b' where "bucket_replace k v es = Some (Some b')" "all_live b'"
          "map ekey b' = map ekey es" "bucket_map b' = (bucket_map es)(k \<mapsto> v)"
      by blast
    then show ?thesis
    proof cases
      case absent
      with False Cons.prems show ?thesis by auto
    next
      case found
      with False Cons.prems show ?thesis by (auto simp: fun_upd_twist)
    qed
  qed
qed simp

lemma bucket_remove_live:
  assumes "all_live b" and "distinct (map ekey b)"
  shows "(k \<notin> keys b \<and> bucket_remove k b = Some None) \<or>
         (\<exists>b'. bucket_remove k b = Some (Some b') \<and> k \<in> keys b \<and> set b' \<subseteq> set b \<and>
               distinct (map ekey b') \<and> bucket_map b' = (bucket_map b)(k := None))"
  using assms
proof (induction b)
  case (Cons e es)
  show ?case
  proof (cases "ekey e = k")
    case True
    with Cons.prems have "bucket_map es = (bucket_map (e # es))(k := None)"
      by (auto simp: bucket_map_None)
    with True Cons.prems show ?thesis by (auto simp: bucket_map_None)
  next
    case False
    from Cons.prems have "all_live es" "distinct (map ekey es)" by auto
    from Cons.IH [OF this] consider
        (absent) "k \<notin> keys es" "bucket_remove k es = Some None"
      | (found) b' where "bucket_remove k es = Some (Some b')" "k \<in> keys es" "set b' \<subseteq> set es"
          "distinct (map ekey b')" "bucket_map b' = (bucket_map es)(k := None)"
      by blast
    then show ?thesis
    proof cases
      case absent
      with False Cons.prems show ?thesis by auto
    next
      case found
      have "ekey e \<notin> keys b'" using found(3) Cons.prems(2) by auto
      moreover have "bucket_map (e # b') = (bucket_map (e # es))(k := None)"
        using False found(5) by (simp add: fun_upd_twist)
      ultimately show ?thesis using False Cons.prems found by auto
    qed
  qed
qed simp

section \<open>The rehash\<close>

lemma rehash_bucket_live:
  assumes "all_live b" and "0 < n" and "length new = n"
  shows "(\<exists>al'. rehash_bucket hash n al b new = Inl (Some al')) \<or>
         (\<exists>new' al'. rehash_bucket hash n al b new = Inr (new', al') \<and> length new' = n \<and>
            (\<forall>j < n. new' ! j = new ! j @ filter (\<lambda>e. unat (hash (ekey e)) mod n = j) b))"
  using assms
proof (induction b arbitrary: al new)
  case (Cons e es)
  let ?i = "unat (hash (ekey e)) mod n"
  have i: "?i < n" using Cons.prems by simp
  obtain ok al1 where al1: "take_alloc al = (ok, al1)" by (cases "take_alloc al")
  show ?case
  proof (cases ok)
    case False
    with al1 Cons.prems show ?thesis by simp
  next
    case True
    let ?new = "new[?i := new ! ?i @ [e]]"
    have "rehash_bucket hash n al (e # es) new = rehash_bucket hash n al1 es ?new"
      using True al1 Cons.prems by (simp add: Let_def)
    moreover have "?new ! j = new ! j @ (if ?i = j then [e] else [])" if "j < n" for j
      using that i Cons.prems(3) by (simp add: nth_list_update)
    moreover note Cons.IH [of ?new al1]
    ultimately show ?thesis using Cons.prems by auto
  qed
qed simp

lemma rehash_all_live:
  assumes "\<forall>b \<in> set bs. all_live b" and "0 < n" and "length new = n"
  shows "(\<exists>bs' al'. rehash_all hash n al processed bs new = Inl (Some (bs', al'))) \<or>
         (\<exists>new' al'. rehash_all hash n al processed bs new = Inr (new', al') \<and> length new' = n \<and>
            (\<forall>j < n. new' ! j = new ! j @ filter (\<lambda>e. unat (hash (ekey e)) mod n = j) (concat bs)))"
  using assms
proof (induction bs arbitrary: al processed new)
  case (Cons b bs)
  then have "all_live b" by simp
  from rehash_bucket_live [OF this Cons.prems(2,3), of hash al]
  consider al' where "rehash_bucket hash n al b new = Inl (Some al')"
    | new' al' where "rehash_bucket hash n al b new = Inr (new', al')" "length new' = n"
        "\<forall>j < n. new' ! j = new ! j @ filter (\<lambda>e. unat (hash (ekey e)) mod n = j) b"
    by blast
  then show ?case
  proof cases
    case 1
    then show ?thesis by simp
  next
    case 2
    with Cons.IH [of new' al' "processed @ [map free_entry b]"] Cons.prems
    show ?thesis by auto
  qed
qed simp


section \<open>Invariant and abstraction\<close>

definition map_inv :: "('k \<Rightarrow> u64) \<Rightarrow> ('k, 'v) chain_map \<Rightarrow> bool" where
  "map_inv hash m \<longleftrightarrow>
     0 < bucket_count m \<and> length (buckets m) = bucket_count m \<and>
     (\<forall>i < bucket_count m. all_live (buckets m ! i) \<and> distinct (map ekey (buckets m ! i)) \<and>
        (\<forall>k \<in> keys (buckets m ! i). bucket_index hash m k = i))"

definition map_abs :: "('k \<Rightarrow> u64) \<Rightarrow> ('k, 'v) chain_map \<Rightarrow> 'k \<rightharpoonup> 'v" where
  "map_abs hash m k = bucket_map (buckets m ! bucket_index hash m k) k"

lemma bucket_index_less: "map_inv hash m \<Longrightarrow> bucket_index hash m k < bucket_count m"
  by (simp add: map_inv_def bucket_index_def)

lemma map_inv_bucket:
  assumes "map_inv hash m" and "i < bucket_count m"
  shows "all_live (buckets m ! i)" "distinct (map ekey (buckets m ! i))"
    "k \<in> keys (buckets m ! i) \<Longrightarrow> bucket_index hash m k = i"
  using assms by (auto simp: map_inv_def)

lemma map_inv_length: "map_inv hash m \<Longrightarrow> length (buckets m) = bucket_count m"
  by (simp add: map_inv_def)

lemma bucket_map_other:
  "map_inv hash m \<Longrightarrow> i < bucket_count m \<Longrightarrow> bucket_index hash m k \<noteq> i \<Longrightarrow>
   bucket_map (buckets m ! i) k = None"
  using map_inv_bucket(3) [of hash m i k] by (auto simp: bucket_map_None)

lemma map_lookup_abs: "map_inv hash m \<Longrightarrow> map_lookup hash m k = Some (map_abs hash m k)"
  by (simp add: map_lookup_def map_abs_def bucket_lookup_live map_inv_bucket bucket_index_less)

lemma bucket_map_concat:
  "(\<And>i. i < length bs \<Longrightarrow> i \<noteq> j \<Longrightarrow> bucket_map (bs ! i) k = None) \<Longrightarrow> j < length bs \<Longrightarrow>
   bucket_map (concat bs) k = bucket_map (bs ! j) k"
proof (induction bs arbitrary: j)
  case (Cons b bs)
  show ?case
  proof (cases j)
    case 0
    have "bucket_map (concat bs) k = None"
      using Cons.prems(1) [of "Suc i" for i] 0 unfolding bucket_map_None
      by (force simp: in_set_conv_nth)
    with 0 show ?thesis by (auto simp: map_add_def split: option.splits)
  next
    case (Suc j')
    have "bucket_map b k = None" using Cons.prems(1) [of 0] Suc by simp
    moreover have "bucket_map (concat bs) k = bucket_map (bs ! j') k"
      using Cons.IH [of j'] Cons.prems(1) [of "Suc i" for i] Cons.prems(2) Suc by auto
    ultimately show ?thesis using Suc by (simp add: map_add_def)
  qed
qed simp

lemma bucket_map_filter:
  "(\<And>e. ekey e = k \<Longrightarrow> P e) \<Longrightarrow> bucket_map (filter P b) k = bucket_map b k"
  by (induction b) auto

lemma distinct_concat_nth:
  "(\<And>i. i < length xss \<Longrightarrow> distinct (xss ! i)) \<Longrightarrow>
   (\<And>i j. i < j \<Longrightarrow> j < length xss \<Longrightarrow> set (xss ! i) \<inter> set (xss ! j) = {}) \<Longrightarrow>
   distinct (concat xss)"
proof (induction xss)
  case (Cons xs xss)
  have "distinct xs" using Cons.prems(1) [of 0] by simp
  moreover have "distinct (concat xss)"
    using Cons.IH Cons.prems(1) [of "Suc i" for i] Cons.prems(2) [of "Suc i" "Suc j" for i j]
    by simp
  moreover have "set xs \<inter> set ys = {}" if "ys \<in> set xss" for ys
    using that Cons.prems(2) [of 0 "Suc j" for j] by (auto simp: in_set_conv_nth)
  ultimately show ?case by auto
qed simp

lemma distinct_keys_concat:
  assumes "map_inv hash m"
  shows "distinct (map ekey (concat (buckets m)))"
proof -
  have "distinct (concat (map (map ekey) (buckets m)))"
  proof (rule distinct_concat_nth)
    fix i j assume ij: "i < j" "j < length (map (map ekey) (buckets m))"
    then have "i < bucket_count m" "j < bucket_count m" using map_inv_length [OF assms] by auto
    with ij map_inv_bucket(3) [OF assms, of i] map_inv_bucket(3) [OF assms, of j]
    have "keys (buckets m ! i) \<inter> keys (buckets m ! j) = {}" by fastforce
    with ij show "set (map (map ekey) (buckets m) ! i) \<inter> set (map (map ekey) (buckets m) ! j) = {}"
      by simp
  qed (use map_inv_bucket(2) [OF assms] map_inv_length [OF assms] in simp)
  then show ?thesis by (simp add: map_concat)
qed

text \<open>Growing keeps the invariant and the contents, whenever it goes through.\<close>

lemma map_grow_inv:
  assumes inv: "map_inv hash m"
  shows "(\<exists>m' al'. map_grow hash al m = Some (False, m', al')) \<or>
         (\<exists>m' al'. map_grow hash al m = Some (True, m', al') \<and> map_inv hash m' \<and>
            map_abs hash m' = map_abs hash m \<and> object_count m' = object_count m)"
proof (cases "object_count m \<ge> bucket_count m * 3 div 4 \<and> fst (take_alloc al)")
  case False
  with inv show ?thesis by (auto simp: map_grow_def split: prod.splits)
next
  case True
  let ?n = "bucket_count m * 2"
  let ?P = "\<lambda>j e. unat (hash (ekey e)) mod ?n = j"
  obtain al1 where al1: "take_alloc al = (True, al1)" using True by (cases "take_alloc al") auto
  have n: "0 < ?n" using inv by (simp add: map_inv_def)
  have live: "\<forall>b \<in> set (buckets m). all_live b"
    using inv by (auto simp: map_inv_def in_set_conv_nth)
  from rehash_all_live [OF live n, of "replicate ?n []" hash al1 "[]"]
  consider bs' al' where "rehash_all hash ?n al1 [] (buckets m) (replicate ?n []) = Inl (Some (bs', al'))"
    | new al' where "rehash_all hash ?n al1 [] (buckets m) (replicate ?n []) = Inr (new, al')"
        "length new = ?n" "\<forall>j < ?n. new ! j = filter (?P j) (concat (buckets m))"
    by auto
  then show ?thesis
  proof cases
    case 1
    with True al1 show ?thesis by (simp add: map_grow_def)
  next
    case 2
    let ?m = "m\<lparr>buckets := new, bucket_count := ?n\<rparr>"
    have "map_inv hash ?m"
      unfolding map_inv_def
    proof (intro conjI allI impI ballI)
      fix i assume "i < bucket_count ?m"
      then have i: "i < ?n" by simp
      then have new: "buckets ?m ! i = filter (?P i) (concat (buckets m))" using 2(3) by simp
      show "all_live (buckets ?m ! i)" using new live by (auto simp: all_live_def)
      show "distinct (map ekey (buckets ?m ! i))"
        using new distinct_keys_concat [OF inv] by (simp add: distinct_map_filter)
      fix k assume "k \<in> keys (buckets ?m ! i)"
      then show "bucket_index hash ?m k = i" using new by (auto simp: bucket_index_def)
    qed (use 2(2) n in auto)
    moreover have "map_abs hash ?m k = map_abs hash m k" for k
    proof -
      have "map_abs hash ?m k = bucket_map (concat (buckets m)) k"
        using 2(3) n by (simp add: map_abs_def bucket_index_def bucket_map_filter)
      also have "\<dots> = map_abs hash m k"
        unfolding map_abs_def
        using bucket_map_other [OF inv, of _ k] bucket_index_less [OF inv, of k] map_inv_length [OF inv]
        by (intro bucket_map_concat) auto
      finally show ?thesis .
    qed
    ultimately show ?thesis using True al1 2(1) by (simp add: map_grow_def fun_eq_iff)
  qed
qed

lemma map_inv_update_bucket:
  assumes inv: "map_inv hash m" and i: "i < bucket_count m"
    and b: "all_live b" "distinct (map ekey b)" "\<And>k. k \<in> keys b \<Longrightarrow> bucket_index hash m k = i"
  shows "map_inv hash (m\<lparr>buckets := (buckets m)[i := b], object_count := c\<rparr>)"
  using inv i b by (auto simp: map_inv_def bucket_index_def nth_list_update)

lemma map_abs_update_bucket:
  assumes inv: "map_inv hash m" and i: "i = bucket_index hash m k"
    and b: "bucket_map b = (bucket_map (buckets m ! i))(k := x)"
  shows "map_abs hash (m\<lparr>buckets := (buckets m)[i := b], object_count := c\<rparr>) = (map_abs hash m)(k := x)"
proof
  fix k'
  have "i < length (buckets m)" using i bucket_index_less [OF inv] map_inv_length [OF inv] by simp
  then show "map_abs hash (m\<lparr>buckets := (buckets m)[i := b], object_count := c\<rparr>) k' = ((map_abs hash m)(k := x)) k'"
    using i b by (auto simp: map_abs_def bucket_index_def nth_list_update)
qed

lemma map_put_inv:
  assumes inv: "map_inv hash m" and dup: "\<not> dup \<or> al = []"
  shows "(\<exists>al'. map_put hash dup al m k v = Some (-1, m, al') \<and> map_abs hash m k = None \<and> al \<noteq> []) \<or>
         (\<exists>m' al'. map_put hash dup al m k v = Some (0, m', al') \<and> map_inv hash m' \<and>
            map_abs hash m' = (map_abs hash m)(k \<mapsto> v))"
proof -
  let ?i = "bucket_index hash m k"
  have i: "?i < bucket_count m" using bucket_index_less [OF inv] .
  note b = map_inv_bucket [OF inv i]
  from bucket_replace_live [OF b(1), of k v] consider
      (absent) "k \<notin> keys (buckets m ! ?i)" "bucket_replace k v (buckets m ! ?i) = Some None"
    | (found) b' where "bucket_replace k v (buckets m ! ?i) = Some (Some b')" "all_live b'"
        "map ekey b' = map ekey (buckets m ! ?i)" "bucket_map b' = (bucket_map (buckets m ! ?i))(k \<mapsto> v)"
    by blast
  then show ?thesis
  proof cases
    case absent
    then have none: "map_abs hash m k = None" by (simp add: map_abs_def bucket_map_None)
    obtain ok al1 where al1: "take_alloc al = (ok, al1)" by (cases "take_alloc al")
    let ?b = "buckets m ! ?i @ [\<lparr>ekey = k, evalue = v, estate = Live\<rparr>]"
    let ?m = "m\<lparr>buckets := (buckets m)[?i := ?b], object_count := object_count m + 1\<rparr>"
    have 1: "map_inv hash ?m"
    proof (rule map_inv_update_bucket [OF inv i])
      show "all_live ?b" using b(1) by simp
      show "distinct (map ekey ?b)" using b(2) absent(1) by simp
      show "bucket_index hash m k' = ?i" if "k' \<in> keys ?b" for k'
        using that b(3) [of k'] by auto
    qed
    have "bucket_map ?b = (bucket_map (buckets m ! ?i))(k \<mapsto> v)"
    proof -
      have "bucket_map (buckets m ! ?i) k = None" using absent by (simp add: bucket_map_None)
      then show ?thesis by (auto simp: map_add_def fun_eq_iff split: option.splits)
    qed
    then have 2: "map_abs hash ?m = (map_abs hash m)(k \<mapsto> v)"
      by (rule map_abs_update_bucket [OF inv refl])
    show ?thesis
    proof (cases ok)
      case True
      then obtain al' where "map_put hash dup al m k v = Some (0, ?m, al')"
        using absent(2) al1 dup by (cases dup) (auto simp: map_put_def Let_def)
      with 1 2 show ?thesis by (intro disjI2 exI [of _ ?m]) simp
    next
      case False
      then have "map_put hash dup al m k v = Some (-1, m, al1)" "al \<noteq> []"
        using absent(2) al1 by (auto simp: map_put_def Let_def)
      with none show ?thesis by simp
    qed
  next
    case found
    let ?m = "m\<lparr>buckets := (buckets m)[?i := b']\<rparr>"
    have keys: "keys b' = keys (buckets m ! ?i)" using found(3) by (metis set_map)
    have "map_inv hash (?m\<lparr>object_count := object_count m\<rparr>)"
    proof (rule map_inv_update_bucket [OF inv i found(2)])
      show "distinct (map ekey b')" using b(2) found(3) by simp
      show "bucket_index hash m k' = ?i" if "k' \<in> keys b'" for k'
        using that b(3) [of k'] keys by blast
    qed
    then have "map_inv hash ?m" by simp
    moreover have "map_abs hash ?m = (map_abs hash m)(k \<mapsto> v)"
      using map_abs_update_bucket [OF inv refl found(4), of "object_count m"] by simp
    ultimately show ?thesis using found(1) by (simp add: map_put_def Let_def)
  qed
qed


lemma rehash_bucket_mem: "all_live b \<Longrightarrow> \<exists>new'. rehash_bucket hash n [] b new = Inr (new', [])"
  by (induction b arbitrary: new) (simp_all add: Let_def)

lemma rehash_all_mem:
  "\<forall>b \<in> set bs. all_live b \<Longrightarrow> \<exists>new'. rehash_all hash n [] processed bs new = Inr (new', [])"
proof (induction bs arbitrary: processed new)
  case (Cons b bs)
  then obtain new1 where "rehash_bucket hash n [] b new = Inr (new1, [])"
    using rehash_bucket_mem [of b hash n new] by auto
  with Cons show ?case by simp
qed simp

lemma map_grow_mem:
  assumes "map_inv hash m"
  shows "\<exists>m'. map_grow hash [] m = Some (True, m', []) \<and> map_inv hash m' \<and> map_abs hash m' = map_abs hash m"
proof -
  have live: "\<forall>b \<in> set (buckets m). all_live b"
    using assms by (auto simp: map_inv_def in_set_conv_nth)
  then obtain new where new: "rehash_all hash (bucket_count m * 2) [] [] (buckets m)
      (replicate (bucket_count m * 2) []) = Inr (new, [])"
    using rehash_all_mem [of "buckets m" hash] by blast
  then have "\<exists>m'. map_grow hash [] m = Some (True, m', [])" by (simp add: map_grow_def)
  with map_grow_inv [OF assms, of "[]"] show ?thesis by auto
qed

lemma map_insert_inv:
  assumes inv: "map_inv hash m" and dup: "\<not> dup \<or> al = []"
  shows "(\<exists>m' al'. map_insert hash dup al m k v = Some (-1, m', al') \<and> al \<noteq> []) \<or>
         (\<exists>m' al'. map_insert hash dup al m k v = Some (0, m', al') \<and> map_inv hash m' \<and>
            map_abs hash m' = (map_abs hash m)(k \<mapsto> v))"
proof (cases "al = []")
  case True
  obtain m1 where m1: "map_grow hash al m = Some (True, m1, [])" "map_inv hash m1"
      "map_abs hash m1 = map_abs hash m"
    using map_grow_mem [OF inv] True by blast
  with map_put_inv [OF m1(2), of dup "[]" k v] show ?thesis by (auto simp: map_insert_def)
next
  case False
  with dup have "\<not> dup" by simp
  from map_grow_inv [OF inv, of al]
  consider m' al' where "map_grow hash al m = Some (False, m', al')"
    | m1 al1 where "map_grow hash al m = Some (True, m1, al1)" "map_inv hash m1"
        "map_abs hash m1 = map_abs hash m"
    by blast
  then show ?thesis
  proof cases
    case 1
    with False show ?thesis by (simp add: map_insert_def)
  next
    case 2
    with map_put_inv [OF 2(2), of dup al1 k v] False \<open>\<not> dup\<close> show ?thesis
      by (auto simp: map_insert_def)
  qed
qed

lemma map_create_inv: "\<exists>m. map_create [] = (Some m, []) \<and> map_inv hash m \<and> map_abs hash m = Map.empty"
proof -
  let ?m = "\<lparr>buckets = replicate HASHMAP_INIT_BUCKETS [], bucket_count = HASHMAP_INIT_BUCKETS,
             object_count = 0\<rparr>"
  have "map_inv hash ?m" by (simp add: map_inv_def HASHMAP_INIT_BUCKETS_def)
  moreover have "map_abs hash ?m = Map.empty"
    by (simp add: map_abs_def bucket_index_def HASHMAP_INIT_BUCKETS_def fun_eq_iff)
  ultimately show ?thesis by (simp add: map_create_def)
qed

section \<open>Removal and iteration\<close>

lemma buckets_remove_live:
  assumes "\<forall>b \<in> set bs. all_live b \<and> distinct (map ekey b)"
  shows "((\<forall>b \<in> set bs. k \<notin> keys b) \<and> buckets_remove k bs = Some None) \<or>
         (\<exists>j b'. j < length bs \<and> k \<in> keys (bs ! j) \<and> bucket_remove k (bs ! j) = Some (Some b') \<and>
                 buckets_remove k bs = Some (Some (bs[j := b'])))"
  using assms
proof (induction bs)
  case (Cons b bs)
  from Cons.prems have b: "all_live b" "distinct (map ekey b)" by simp_all
  show ?case
  proof (cases "k \<in> keys b")
    case True
    with bucket_remove_live [OF b, of k] obtain b' where "bucket_remove k b = Some (Some b')" by blast
    with True show ?thesis by (intro disjI2 exI [of _ 0]) auto
  next
    case False
    with bucket_remove_live [OF b, of k] have none: "bucket_remove k b = Some None" by blast
    from Cons.prems have "\<forall>b \<in> set bs. all_live b \<and> distinct (map ekey b)" by simp
    from Cons.IH [OF this] consider
        "\<forall>b \<in> set bs. k \<notin> keys b" "buckets_remove k bs = Some None"
      | j b' where "j < length bs" "k \<in> keys (bs ! j)" "bucket_remove k (bs ! j) = Some (Some b')"
          "buckets_remove k bs = Some (Some (bs[j := b']))"
      by blast
    then show ?thesis
    proof cases
      case 1
      with False none show ?thesis by simp
    next
      case 2
      with none show ?thesis by (intro disjI2 exI [of _ "Suc j"]) auto
    qed
  qed
qed simp

lemma hashmap_remove_inv:
  assumes inv: "map_inv hash_ulong m"
  shows "(map_abs hash_ulong m k = None \<and> hashmap_remove m k = Some (-1, m)) \<or>
         (map_abs hash_ulong m k \<noteq> None \<and>
          (\<exists>m'. hashmap_remove m k = Some (0, m') \<and> map_inv hash_ulong m' \<and>
             map_abs hash_ulong m' = (map_abs hash_ulong m)(k := None) \<and>
             object_count m' = object_count m))"
proof -
  have "\<forall>b \<in> set (buckets m). all_live b \<and> distinct (map ekey b)"
    using inv by (auto simp: map_inv_def in_set_conv_nth)
  from buckets_remove_live [OF this, of k] consider
      "\<forall>b \<in> set (buckets m). k \<notin> keys b" "buckets_remove k (buckets m) = Some None"
    | j b' where "j < length (buckets m)" "k \<in> keys (buckets m ! j)"
        "bucket_remove k (buckets m ! j) = Some (Some b')"
        "buckets_remove k (buckets m) = Some (Some ((buckets m)[j := b']))"
    by blast
  then show ?thesis
  proof cases
    case 1
    moreover have "buckets m ! bucket_index hash_ulong m k \<in> set (buckets m)"
      using bucket_index_less [OF inv] map_inv_length [OF inv] by simp
    ultimately show ?thesis by (auto simp: hashmap_remove_def map_abs_def bucket_map_None)
  next
    case 2
    then have j: "j < bucket_count m" using map_inv_length [OF inv] by simp
    have idx: "j = bucket_index hash_ulong m k" using map_inv_bucket(3) [OF inv j 2(2)] by simp
    from bucket_remove_live [OF map_inv_bucket(1,2) [OF inv j], of k] 2(3)
    have b': "set b' \<subseteq> set (buckets m ! j)" "distinct (map ekey b')"
      "bucket_map b' = (bucket_map (buckets m ! j))(k := None)" by auto
    have "all_live b'" using b'(1) map_inv_bucket(1) [OF inv j] by (auto simp: all_live_def)
    then have "map_inv hash_ulong (m\<lparr>buckets := (buckets m)[j := b'], object_count := object_count m\<rparr>)"
      using map_inv_update_bucket [OF inv j _ b'(2)] map_inv_bucket(3) [OF inv j] b'(1) by blast
    moreover have "map_abs hash_ulong (m\<lparr>buckets := (buckets m)[j := b'], object_count := object_count m\<rparr>)
        = (map_abs hash_ulong m)(k := None)"
      by (rule map_abs_update_bucket [OF inv idx b'(3)])
    moreover have "map_abs hash_ulong m k \<noteq> None"
      using 2(2) idx by (simp add: map_abs_def bucket_map_None)
    ultimately show ?thesis using 2(4) by (simp add: hashmap_remove_def)
  qed
qed

lemma bucket_iterate_live:
  "all_live b \<Longrightarrow> bucket_iterate f b d = Some (fold (\<lambda>e. f (ekey e) (evalue e)) b d)"
  by (induction b arbitrary: d) auto

lemma map_iterate_from_live:
  "\<forall>b \<in> set bs. all_live b \<Longrightarrow>
   map_iterate_from f bs d = Some (fold (\<lambda>e. f (ekey e) (evalue e)) (concat bs) d)"
  by (induction bs arbitrary: d) (auto simp: bucket_iterate_live)

end
