(* ===== verification/Pml_Map_Spec.thy ===== *)
theory Pml_Map_Spec
  imports Pml_Map
begin

text \<open>
  What the clients of util/map.c rely on, as two interfaces. Every map promises that with
  memory available an insertion updates exactly one key and that a lookup returns what was
  inserted last; the string maps promise no more than that. The integer maps also promise
  a usable result under allocation failure whenever they return zero, and have a removal.
  The interpretations discharge both contracts for the model of the code.
\<close>

section \<open>Interfaces\<close>

fun insert_all ::
    "(alloc_outcomes \<Rightarrow> 'm \<Rightarrow> 'k \<Rightarrow> 'v \<Rightarrow> (int \<times> 'm \<times> alloc_outcomes) option)
     \<Rightarrow> 'm \<Rightarrow> ('k \<times> 'v) list \<Rightarrow> 'm option" where
  "insert_all ins m [] = Some m"
| "insert_all ins m ((k, v) # kvs) =
     (case ins [] m k v of
        Some (r, m', al) \<Rightarrow> if r = 0 then insert_all ins m' kvs else None
      | None \<Rightarrow> None)"

locale map_interface =
  fixes create :: "alloc_outcomes \<Rightarrow> 'm option \<times> alloc_outcomes"
    and ins :: "alloc_outcomes \<Rightarrow> 'm \<Rightarrow> 'k \<Rightarrow> 'v \<Rightarrow> (int \<times> 'm \<times> alloc_outcomes) option"
    and look :: "'m \<Rightarrow> 'k \<Rightarrow> 'v option option"
    and abs :: "'m \<Rightarrow> 'k \<rightharpoonup> 'v"
    and inv :: "'m \<Rightarrow> bool"
  assumes create_empty: "\<exists>m. create [] = (Some m, []) \<and> inv m \<and> abs m = Map.empty"
    and ins_update: "inv m \<Longrightarrow>
      \<exists>m' al. ins [] m k v = Some (0, m', al) \<and> inv m' \<and> abs m' = (abs m)(k \<mapsto> v)"
    and look_abs: "inv m \<Longrightarrow> look m k = Some (abs m k)"
begin

lemma look_after_ins:
  assumes "inv m" and "ins [] m k v = Some (0, m', al)"
  shows "look m' k' = Some (if k' = k then Some v else abs m k')"
  using ins_update [OF assms(1), of k v] assms(2) look_abs by auto

lemma insert_all_abs:
  "inv m \<Longrightarrow> \<exists>m'. insert_all ins m kvs = Some m' \<and> inv m' \<and> abs m' = abs m ++ map_of (rev kvs)"
proof (induction kvs arbitrary: m)
  case (Cons kv kvs)
  obtain k v where kv: "kv = (k, v)" by (cases kv)
  obtain m1 al where m1: "ins [] m k v = Some (0, m1, al)" "inv m1" "abs m1 = (abs m)(k \<mapsto> v)"
    using ins_update [OF Cons.prems, of k v] by blast
  obtain m' where m': "insert_all ins m1 kvs = Some m'" "inv m'" "abs m' = abs m1 ++ map_of (rev kvs)"
    using Cons.IH [OF m1(2)] by blast
  have "abs m1 ++ map_of (rev kvs) = abs m ++ map_of (rev (kv # kvs))"
    using m1(3) kv by (simp add: map_add_def fun_eq_iff split: option.splits)
  with m1(1) m' kv show ?case by simp
qed simp

lemma build_from_empty:
  assumes "create [] = (Some m, al)"
  shows "\<exists>m'. insert_all ins m kvs = Some m' \<and> (\<forall>k. look m' k = Some (map_of (rev kvs) k))"
proof -
  have m: "inv m" "abs m = Map.empty" using create_empty assms by auto
  obtain m' where "insert_all ins m kvs = Some m'" "inv m'" "abs m' = map_of (rev kvs)"
    using insert_all_abs [OF m(1), of kvs] m(2) by auto
  then show ?thesis using look_abs by auto
qed

end

locale robust_map_interface = map_interface create ins look abs inv
  for create :: "alloc_outcomes \<Rightarrow> 'm option \<times> alloc_outcomes"
    and ins :: "alloc_outcomes \<Rightarrow> 'm \<Rightarrow> 'k \<Rightarrow> 'v \<Rightarrow> (int \<times> 'm \<times> alloc_outcomes) option"
    and look :: "'m \<Rightarrow> 'k \<Rightarrow> 'v option option"
    and abs :: "'m \<Rightarrow> 'k \<rightharpoonup> 'v"
    and inv :: "'m \<Rightarrow> bool" +
  fixes del :: "'m \<Rightarrow> 'k \<Rightarrow> (int \<times> 'm) option"
  assumes ins_no_fault: "inv m \<Longrightarrow> ins al m k v \<noteq> None"
    and ins_zero: "inv m \<Longrightarrow> ins al m k v = Some (0, m', al') \<Longrightarrow>
      inv m' \<and> abs m' = (abs m)(k \<mapsto> v)"
    and del_present: "inv m \<Longrightarrow> abs m k \<noteq> None \<Longrightarrow>
      \<exists>m'. del m k = Some (0, m') \<and> inv m' \<and> abs m' = (abs m)(k := None)"
    and del_absent: "inv m \<Longrightarrow> abs m k = None \<Longrightarrow> del m k = Some (-1, m)"
begin

lemma look_after_del:
  assumes "inv m"
  shows "\<exists>r m'. del m k = Some (r, m') \<and> inv m' \<and>
         look m' k' = Some (if k' = k then None else abs m k')"
proof (cases "abs m k")
  case None
  with assms show ?thesis using del_absent [OF assms None] look_abs [OF assms, of k'] by auto
next
  case (Some v)
  then obtain m' where "del m k = Some (0, m')" "inv m'" "abs m' = (abs m)(k := None)"
    using del_present [OF assms, of k] by auto
  then show ?thesis using look_abs [of m' k'] by auto
qed

text \<open>Removing what was just inserted gives back the old contents for a fresh key.\<close>

lemma del_after_ins:
  assumes "inv m" and "abs m k = None" and "ins al m k v = Some (0, m1, al1)"
  shows "\<exists>m2. del m1 k = Some (0, m2) \<and> inv m2 \<and> abs m2 = abs m"
proof -
  have m1: "inv m1" "abs m1 = (abs m)(k \<mapsto> v)" using ins_zero [OF assms(1,3)] by auto
  then obtain m2 where "del m1 k = Some (0, m2)" "inv m2" "abs m2 = (abs m1)(k := None)"
    using del_present [of m1 k] by auto
  moreover from this m1 assms(2) have "abs m2 = abs m" by (auto simp: fun_eq_iff)
  ultimately show ?thesis by blast
qed

end

section \<open>The kernel's maps satisfy them\<close>

definition hashmap_inv :: "'v hashmap \<Rightarrow> bool" where
  "hashmap_inv m = map_inv hash_ulong m"

definition hashmap_abs :: "'v hashmap \<Rightarrow> u64 \<rightharpoonup> 'v" where
  "hashmap_abs m = map_abs hash_ulong m"

definition strmap_inv :: "'v strmap \<Rightarrow> bool" where
  "strmap_inv m = map_inv hash_string m"

definition strmap_abs :: "'v strmap \<Rightarrow> u8 list \<rightharpoonup> 'v" where
  "strmap_abs m = map_abs hash_string m"

interpretation hm: robust_map_interface hashmap_create hashmap_insert hashmap_lookup
    hashmap_abs hashmap_inv hashmap_remove
proof unfold_locales
  show "\<exists>m. hashmap_create [] = (Some m, []) \<and> hashmap_inv m \<and> hashmap_abs m = Map.empty"
    using map_create_inv [of hash_ulong]
    by (simp add: hashmap_create_def hashmap_inv_def hashmap_abs_def)
next
  fix m :: "'v hashmap" and k v
  assume "hashmap_inv m"
  then have inv: "map_inv hash_ulong m" by (simp add: hashmap_inv_def)
  show "\<exists>m' al. hashmap_insert [] m k v = Some (0, m', al) \<and> hashmap_inv m' \<and>
      hashmap_abs m' = (hashmap_abs m)(k \<mapsto> v)"
    using map_insert_inv [OF inv, of False "[]" k v]
    by (simp add: hashmap_insert_def hashmap_inv_def hashmap_abs_def)
  show "hashmap_lookup m k = Some (hashmap_abs m k)"
    using map_lookup_abs [OF inv] by (simp add: hashmap_lookup_def hashmap_abs_def)
  show "hashmap_insert al m k v \<noteq> None" for al
    using map_insert_inv [OF inv, of False al k v] by (auto simp: hashmap_insert_def)
  show "hashmap_inv m' \<and> hashmap_abs m' = (hashmap_abs m)(k \<mapsto> v)"
    if "hashmap_insert al m k v = Some (0, m', al')" for al m' al'
    using map_insert_inv [OF inv, of False al k v] that
    by (auto simp: hashmap_insert_def hashmap_inv_def hashmap_abs_def)
  show "\<exists>m'. hashmap_remove m k = Some (0, m') \<and> hashmap_inv m' \<and>
      hashmap_abs m' = (hashmap_abs m)(k := None)" if "hashmap_abs m k \<noteq> None"
    using hashmap_remove_inv [OF inv, of k] that by (auto simp: hashmap_inv_def hashmap_abs_def)
  show "hashmap_remove m k = Some (-1, m)" if "hashmap_abs m k = None"
    using hashmap_remove_inv [OF inv, of k] that by (auto simp: hashmap_abs_def)
qed

interpretation sm: map_interface strmap_create strmap_insert strmap_lookup strmap_abs strmap_inv
proof unfold_locales
  show "\<exists>m. strmap_create [] = (Some m, []) \<and> strmap_inv m \<and> strmap_abs m = Map.empty"
    using map_create_inv [of hash_string]
    by (simp add: strmap_create_def strmap_inv_def strmap_abs_def)
next
  fix m :: "'v strmap" and k v
  assume "strmap_inv m"
  then have inv: "map_inv hash_string m" by (simp add: strmap_inv_def)
  show "\<exists>m' al. strmap_insert [] m k v = Some (0, m', al) \<and> strmap_inv m' \<and>
      strmap_abs m' = (strmap_abs m)(k \<mapsto> v)"
    using map_insert_inv [OF inv, of True "[]" k v]
    by (simp add: strmap_insert_def strmap_inv_def strmap_abs_def)
  show "strmap_lookup m k = Some (strmap_abs m k)"
    using map_lookup_abs [OF inv] by (simp add: strmap_lookup_def strmap_abs_def)
qed

section \<open>Properties of the hash maps\<close>

text \<open>
  C3: Any sequence of insertions into a freshly created hash map goes through when memory
  is available, and every later lookup returns the value inserted last for its key, or
  nothing for a key that was never inserted, whatever rehashing happened on the way.
\<close>

theorem hashmap_refines_map:
  "\<exists>m m'. hashmap_create [] = (Some m, []) \<and> insert_all hashmap_insert m kvs = Some m' \<and>
          (\<forall>k. hashmap_lookup m' k = Some (map_of (rev kvs) k))"
  using hm.create_empty hm.build_from_empty by blast

text \<open>
  hashmap_insert never touches memory it does not own and returns 0 or -1, whichever
  of its allocations fail; after a 0 exactly the given key has changed.
\<close>

theorem hashmap_insert_total:
  assumes "hashmap_inv m"
  shows "\<exists>r m' al'. hashmap_insert al m k v = Some (r, m', al') \<and>
     (r = 0 \<or> r = -1) \<and>
     (r = 0 \<longrightarrow> hashmap_inv m' \<and>
        (\<forall>k'. hashmap_lookup m' k' = (if k' = k then Some (Some v) else hashmap_lookup m k')))"
proof -
  have inv: "map_inv hash_ulong m" using assms by (simp add: hashmap_inv_def)
  obtain r m' al' where r: "hashmap_insert al m k v = Some (r, m', al')" "r = 0 \<or> r = -1"
    using map_insert_inv [OF inv, of False al k v] by (auto simp: hashmap_insert_def)
  have "hashmap_lookup m' k' = (if k' = k then Some (Some v) else hashmap_lookup m k')"
    if "r = 0" for k'
    using hm.ins_zero [OF assms, of al k v m' al'] r(1) that hm.look_abs [of m' k'] hm.look_abs [OF assms, of k']
    by auto
  with r hm.ins_zero [OF assms, of al k v m' al'] show ?thesis by auto
qed

lemma hash_ulong_0: "hash_ulong 0 = 7702425892663755369"
proof -
  have "ulong_bytes 0 = [0, 0, 0, 0, 0, 0, 0, 0]" by (simp add: ulong_bytes_def upt_rec)
  then show ?thesis unfolding hash_ulong_def siphash_def
    by (simp add: Let_def SIP_ROUND_exec rolq_def sip_tail_def numeral_eq_Suc [of num.One] cong: let_weak_cong)
qed

lemma hash_ulong_1: "hash_ulong 1 = 2427479568307535904"
proof -
  have "ulong_bytes 1 = [1, 0, 0, 0, 0, 0, 0, 0]" by (simp add: ulong_bytes_def upt_rec)
  then show ?thesis unfolding hash_ulong_def siphash_def
    by (simp add: Let_def SIP_ROUND_exec rolq_def sip_tail_def numeral_eq_Suc [of num.One] cong: let_weak_cong)
qed

definition two_buckets :: "nat hashmap" where
  "two_buckets = \<lparr>buckets = [[\<lparr>ekey = 1, evalue = 10, estate = Live\<rparr>],
                             [\<lparr>ekey = 0, evalue = 20, estate = Live\<rparr>]],
                  bucket_count = 2, object_count = 2\<rparr>"

lemma two_buckets_inv: "hashmap_inv two_buckets"
  by (auto simp: hashmap_inv_def map_inv_def two_buckets_def bucket_index_def all_live_def
      hash_ulong_0 hash_ulong_1 less_2_cases_iff)

theorem hashmap_insert_total_witness:
  "hashmap_inv two_buckets \<and>
   (\<exists>r m' al'. hashmap_insert [True, False] two_buckets 5 30 = Some (r, m', al') \<and>
     (r = 0 \<or> r = -1) \<and>
     (r = 0 \<longrightarrow> hashmap_inv m' \<and>
        (\<forall>k'. hashmap_lookup m' k' =
              (if k' = 5 then Some (Some 30) else hashmap_lookup two_buckets k'))))"
  using two_buckets_inv hashmap_insert_total [OF two_buckets_inv] by blast

text \<open>
  hashmap_remove drops exactly the given key and reports with -1 that it was absent; the
  object count of the map stays as it was in both cases.
\<close>

theorem hashmap_remove_spec:
  assumes "hashmap_inv m"
  shows "\<exists>r m'. hashmap_remove m k = Some (r, m') \<and> hashmap_inv m' \<and>
     r = (if hashmap_lookup m k = Some None then -1 else 0) \<and>
     object_count m' = object_count m \<and>
     (\<forall>k'. hashmap_lookup m' k' = (if k' = k then Some None else hashmap_lookup m k'))"
proof -
  have inv: "map_inv hash_ulong m" using assms by (simp add: hashmap_inv_def)
  obtain r m' where del: "hashmap_remove m k = Some (r, m')" "hashmap_inv m'"
      "r = (if hashmap_abs m k = None then -1 else 0)" "object_count m' = object_count m"
    using hashmap_remove_inv [OF inv, of k] assms by (auto simp: hashmap_inv_def hashmap_abs_def)
  moreover have "hashmap_lookup m' k' = (if k' = k then Some None else hashmap_lookup m k')" for k'
    using hm.look_after_del [OF assms, of k k'] del(1) hm.look_abs [OF assms, of k'] by auto
  ultimately show ?thesis using hm.look_abs [OF assms, of k] by auto
qed

theorem hashmap_remove_spec_witness:
  "\<exists>r m'. hashmap_remove two_buckets 0 = Some (r, m') \<and> hashmap_inv m' \<and>
     r = (if hashmap_lookup two_buckets 0 = Some None then -1 else 0) \<and>
     object_count m' = object_count two_buckets \<and>
     (\<forall>k'. hashmap_lookup m' k' = (if k' = 0 then Some None else hashmap_lookup two_buckets k'))"
  by (rule hashmap_remove_spec [OF two_buckets_inv])

lemma rehash_bucket_fail:
  "all_live (es @ e # es') \<Longrightarrow>
   rehash_bucket hash n (replicate (length es) True @ False # al) (es @ e # es') new = Inl (Some al)"
  by (induction es arbitrary: new) (auto simp: Let_def)

lemma rehash_bucket_pass:
  "all_live es \<Longrightarrow>
   \<exists>new'. rehash_bucket hash n (replicate (length es) True @ al) es new = Inr (new', al)"
  by (induction es arbitrary: new) (auto simp: Let_def)

text \<open>
  When an allocation fails while hashmap_insert copies the second bucket, the insertion
  reports -1 but the map is no longer usable: looking up a key of the first bucket, which
  was present before, reads an entry that has been freed.
\<close>

theorem hashmap_insert_failure_dangles:
  assumes "hashmap_inv m" and "object_count m \<ge> bucket_count m * 3 div 4"
    and "buckets m = (e # es) # (f # fs) # bs"
    and "al = replicate (length es + 2) True @ [False]"
  shows "hashmap_lookup m (ekey e) = Some (Some (evalue e)) \<and>
    (\<exists>m'. hashmap_insert al m k v = Some (-1, m', []) \<and> hashmap_lookup m' (ekey e) = None)"
proof -
  have inv: "map_inv hash_ulong m" using assms(1) by (simp add: hashmap_inv_def)
  have len: "bucket_count m = Suc (Suc (length bs))"
    using map_inv_length [OF inv] assms(3) by simp
  have live: "all_live (e # es)" "all_live (f # fs)"
    using map_inv_bucket(1) [OF inv, of 0] map_inv_bucket(1) [OF inv, of 1] assms(3) len by auto
  have idx: "bucket_index hash_ulong m (ekey e) = 0"
    using map_inv_bucket(3) [OF inv, of 0 "ekey e"] assms(3) len by simp
  let ?n = "bucket_count m * 2"
  let ?bs = "map free_entry (e # es) # (f # fs) # bs"
  have al: "take_alloc al = (True, replicate (length (e # es)) True @ [False])"
    using assms(4) by simp
  obtain new where new: "rehash_bucket hash_ulong ?n (replicate (length (e # es)) True @ [False])
      (e # es) (replicate ?n []) = Inr (new, [False])"
    using rehash_bucket_pass [OF live(1)] by blast
  have "rehash_bucket hash_ulong ?n [False] (f # fs) new = Inl (Some [])"
    using rehash_bucket_fail [of "[]" f fs] live(2) by simp
  then have "rehash_all hash_ulong ?n (replicate (length (e # es)) True @ [False]) []
      (buckets m) (replicate ?n []) = Inl (Some (?bs, []))"
    using new assms(3) by simp
  then have "hashmap_insert al m k v = Some (-1, m\<lparr>buckets := ?bs\<rparr>, [])"
    using al assms(2) by (simp add: hashmap_insert_def map_insert_def map_grow_def del: replicate.simps list.map)
  moreover have "hashmap_lookup (m\<lparr>buckets := ?bs\<rparr>) (ekey e) = None"
    using idx by (simp add: hashmap_lookup_def map_lookup_def bucket_index_def free_entry_def)
  moreover have "hashmap_lookup m (ekey e) = Some (Some (evalue e))"
    using idx live(1) assms(3) by (simp add: hashmap_lookup_def map_lookup_def)
  ultimately show ?thesis by blast
qed

theorem hashmap_insert_failure_dangles_witness:
  "hashmap_lookup two_buckets 1 = Some (Some 10) \<and>
   (\<exists>m'. hashmap_insert [True, True, False] two_buckets 5 30 = Some (-1, m', []) \<and>
         hashmap_lookup m' 1 = None)"
  using hashmap_insert_failure_dangles [OF two_buckets_inv,
      of "\<lparr>ekey = 1, evalue = 10, estate = Live\<rparr>" "[]"
         "\<lparr>ekey = 0, evalue = 20, estate = Live\<rparr>" "[]" "[]" "[True, True, False]" 5 30]
  by (simp add: two_buckets_def)

text \<open>
  With memory available the string maps keep the same promise as the integer maps for
  every sequence of insertions and lookups.
\<close>

theorem strmap_refines_map:
  "\<exists>m m'. strmap_create [] = (Some m, []) \<and> insert_all strmap_insert m kvs = Some m' \<and>
          (\<forall>k. strmap_lookup m' k = Some (map_of (rev kvs) k))"
  using sm.create_empty sm.build_from_empty by blast

text \<open>
  strmap_remove works only for the head of the first bucket in use: for any other key it
  frees an entry it passes and then reads the freed block.
\<close>

theorem strmap_remove_first_only:
  assumes "strmap_inv m" and "buckets m = replicate i [] @ (e # es) # bs"
  shows "strmap_remove m k =
    (if ekey e = k then Some (0, m\<lparr>buckets := replicate i [] @ es # bs\<rparr>) else None)"
proof -
  have "estate e = Live"
    using assms map_inv_bucket(1) [of hash_string m i] by (auto simp: strmap_inv_def map_inv_def nth_append)
  then have "str_buckets_remove k (replicate i [] @ (e # es) # bs) =
     (if ekey e = k then Some (Some (replicate i [] @ es # bs)) else None)"
    by (induction i) (auto simp: free_entry_def Let_def)
  then show ?thesis using assms(2) by (simp add: strmap_remove_def)
qed

lemma hash_string_a: "unat (hash_string [97]) mod 2 = 1"
  unfolding hash_string_def siphash_def
    by (simp add: Let_def SIP_ROUND_exec rolq_def sip_tail_def numeral_eq_Suc [of num.One] cong: let_weak_cong)

lemma hash_string_c: "unat (hash_string [99]) mod 2 = 0"
  unfolding hash_string_def siphash_def
    by (simp add: Let_def SIP_ROUND_exec rolq_def sip_tail_def numeral_eq_Suc [of num.One] cong: let_weak_cong)

definition two_strings :: "nat strmap" where
  "two_strings = \<lparr>buckets = [[\<lparr>ekey = [99], evalue = 10, estate = Live\<rparr>],
                             [\<lparr>ekey = [97], evalue = 20, estate = Live\<rparr>]],
                  bucket_count = 2, object_count = 2\<rparr>"

theorem strmap_remove_first_only_witness:
  "strmap_lookup two_strings [97] = Some (Some 20) \<and> strmap_remove two_strings [97] = None"
proof -
  have "strmap_inv two_strings"
    by (auto simp: strmap_inv_def map_inv_def two_strings_def bucket_index_def all_live_def
        hash_string_a hash_string_c less_2_cases_iff)
  from strmap_remove_first_only [OF this, of 0] show ?thesis
    by (simp add: two_strings_def strmap_lookup_def map_lookup_def bucket_index_def hash_string_a)
qed

end
