(* ===== verification/Pml_Memory.thy ===== *)
theory Pml_Memory
  imports Pml_Stdlib
begin

text \<open>
  Byte-addressed memory with little-endian accesses, for the code that works on raw
  addresses (the kernel heap of kernel/heap.c and the page tables of
  arch/x86_64/mm.c). Addresses and the values stored are natural numbers; the pointer
  arithmetic of \<open>uintptr_t\<close> is reduced modulo \<open>2 ^ 64\<close> explicitly.
\<close>

type_synonym memory = "nat \<Rightarrow> u8"

definition add64 :: "nat \<Rightarrow> nat \<Rightarrow> nat" where
  "add64 a b = (a + b) mod 2 ^ 64"

definition sub64 :: "nat \<Rightarrow> nat \<Rightarrow> nat" where
  "sub64 a b = (a + 2 ^ 64 - b) mod 2 ^ 64"

definition align_up64 :: "nat \<Rightarrow> nat \<Rightarrow> nat" where
  "align_up64 x a = unat (ALIGN_UP (word_of_nat x) (word_of_nat a))"

fun load_le :: "memory \<Rightarrow> nat \<Rightarrow> nat \<Rightarrow> nat" where
  "load_le m a 0 = 0"
| "load_le m a (Suc n) = unat (m a) + 256 * load_le m (Suc a) n"

fun store_le :: "memory \<Rightarrow> nat \<Rightarrow> nat \<Rightarrow> nat \<Rightarrow> memory" where
  "store_le m a 0 v = m"
| "store_le m a (Suc n) v = store_le (m(a := word_of_nat v)) (Suc a) n (v div 256)"

text \<open>\<open>memcpy\<close> of \<open>n\<close> bytes between blocks that do not overlap, from low addresses up.\<close>

fun copy_bytes :: "memory \<Rightarrow> nat \<Rightarrow> nat \<Rightarrow> nat \<Rightarrow> memory" where
  "copy_bytes m dst src 0 = m"
| "copy_bytes m dst src (Suc n) = copy_bytes (m(dst := m src)) (Suc dst) (Suc src) n"

fun fill_bytes :: "memory \<Rightarrow> nat \<Rightarrow> nat \<Rightarrow> u8 \<Rightarrow> memory" where
  "fill_bytes m dst 0 c = m"
| "fill_bytes m dst (Suc n) c = fill_bytes (m(dst := c)) (Suc dst) n c"

section \<open>Arithmetic\<close>

lemma add64_exact [simp]: "a + b < 2 ^ 64 \<Longrightarrow> add64 a b = a + b"
  by (simp add: add64_def)

lemma sub64_exact [simp]:
  assumes "b \<le> a" and "a < 2 ^ 64"
  shows "sub64 a b = a - b"
proof -
  have "a + 2 ^ 64 - b = (a - b) + 2 ^ 64" using assms by simp
  then have "sub64 a b = ((a - b) + 2 ^ 64) mod 2 ^ 64" by (simp only: sub64_def)
  also have "\<dots> = (a - b) mod 2 ^ 64" by (rule mod_add_self2)
  finally show ?thesis using assms by simp
qed

lemma align_up64_exact:
  assumes "x + 2 ^ k \<le> 2 ^ 64" and "k < 64"
  shows "align_up64 x (2 ^ k) = (x + (2 ^ k - 1)) div 2 ^ k * 2 ^ k"
proof -
  have p: "0 < (2::nat) ^ k" by simp
  have lt: "x < 2 ^ 64" using assms(1) p by linarith
  then have x: "unat (word_of_nat x :: u64) = x"
    by (simp add: unsigned_of_nat take_bit_eq_mod)
  have "(x + (2 ^ k - 1)) div 2 ^ k * 2 ^ k \<le> x + (2 ^ k - 1)" by (rule div_times_less_eq_dividend)
  then have "(x + (2 ^ k - 1)) div 2 ^ k * 2 ^ k < 2 ^ 64"
    using assms(1) p by linarith
  then show ?thesis using unat_ALIGN_UP [OF assms(2), of "word_of_nat x"] x
    by (simp add: align_up64_def)
qed

lemma align_up64_16: "x + 16 \<le> 2 ^ 64 \<Longrightarrow> align_up64 x 16 = (x + 15) div 16 * 16"
  using align_up64_exact [of x 4] by simp

section \<open>Loads after stores\<close>

lemma store_le_other: "x < a \<or> a + n \<le> x \<Longrightarrow> store_le m a n v x = m x"
  by (induction n arbitrary: m a v) auto

lemma load_le_cong: "(\<And>x. a \<le> x \<Longrightarrow> x < a + n \<Longrightarrow> m' x = m x) \<Longrightarrow> load_le m' a n = load_le m a n"
  by (induction n arbitrary: a) auto

lemma load_store_below [simp]: "a + k \<le> b \<Longrightarrow> load_le (store_le m b n v) a k = load_le m a k"
  by (rule load_le_cong) (simp add: store_le_other)

lemma load_store_above [simp]: "b + n \<le> a \<Longrightarrow> load_le (store_le m b n v) a k = load_le m a k"
  by (rule load_le_cong) (simp add: store_le_other)

lemma load_le_less: "load_le m a n < 256 ^ n"
proof (induction n arbitrary: a)
  case (Suc n)
  have "unat (m a) < 256" by (rule unat_lt8)
  with Suc [of "Suc a"] show ?case unfolding load_le.simps power_Suc by linarith
qed simp

lemma unat_word_of_nat8: "unat (word_of_nat v :: u8) = v mod 256"
  by (simp add: unsigned_of_nat take_bit_eq_mod)

lemma load_store_same_mod: "load_le (store_le m a n v) a n = v mod 256 ^ n"
proof (induction n arbitrary: m a v)
  case (Suc n)
  have "load_le (store_le m a (Suc n) v) a (Suc n)
      = v mod 256 + 256 * (v div 256 mod 256 ^ n)"
    using Suc by (simp add: store_le_other unat_word_of_nat8)
  also have "\<dots> = v mod (256 * 256 ^ n)"
    by (simp only: mod_mult2_eq add.commute)
  finally show ?case by simp
qed simp

lemma load_store_same [simp]: "v < 256 ^ n \<Longrightarrow> load_le (store_le m a n v) a n = v"
  by (simp add: load_store_same_mod)

lemma copy_bytes_spec:
  "dst + n \<le> src \<or> src + n \<le> dst \<Longrightarrow>
   copy_bytes m dst src n x = (if dst \<le> x \<and> x < dst + n then m (x - dst + src) else m x)"
proof (induction n arbitrary: m dst src)
  case (Suc n)
  then have "Suc dst + n \<le> Suc src \<or> Suc src + n \<le> Suc dst" by auto
  from Suc.IH [OF this, of "m(dst := m src)"]
  have "copy_bytes m dst src (Suc n) x =
      (if Suc dst \<le> x \<and> x < Suc dst + n then (m(dst := m src)) (x - Suc dst + Suc src)
       else (m(dst := m src)) x)" by (simp only: copy_bytes.simps)
  moreover have "Suc dst \<le> x \<Longrightarrow> x - Suc dst + Suc src = x - dst + src" by simp
  moreover have "x < Suc dst + n \<Longrightarrow> x - dst + src \<noteq> dst \<or> x < Suc dst" using Suc.prems by auto
  ultimately show ?case by (cases "x = dst") auto
qed auto

lemma fill_bytes_spec: "fill_bytes m dst n c x = (if dst \<le> x \<and> x < dst + n then c else m x)"
  by (induction n arbitrary: m dst) auto

end
