(* ===== verification/Pml_Kheap.thy ===== *)
theory Pml_Kheap
  imports Pml_Memory "HOL-Library.Monad_Syntax"
begin

text \<open>
  kernel/heap.c and util/malloc.c: the kernel heap, a sequence of blocks each framed by a
  header (magic, flags, size) and a tail (magic, reserved, pointer to the header) that
  live in the heap memory itself. The operations below read and write those fields in
  byte memory, in the order of the source.

  The state is the memory, the two bounds of the heap, the spinlock and errno. An
  operation has the result \<open>None\<close> when it does not return: it spins on a lock that is
  already held, or walks in circles over corrupt block sizes.
\<close>

section \<open>Data\<close>

definition KH_HEADER_MAGIC :: nat where "KH_HEADER_MAGIC = 0x07242005"
definition KH_TAIL_MAGIC :: nat where "KH_TAIL_MAGIC = 0xdeadc0de"
definition KH_DEFAULT_ALIGN :: nat where "KH_DEFAULT_ALIGN = 16"
definition KH_MIN_BLOCK_SPLIT_SIZE :: nat where "KH_MIN_BLOCK_SPLIT_SIZE = 32"
definition KH_FLAG_ALLOC :: nat where "KH_FLAG_ALLOC = 1"
definition PAGE_SIZE :: nat where "PAGE_SIZE = 4096"

definition sizeof_kh_header :: nat where "sizeof_kh_header = 16"
definition sizeof_kh_tail :: nat where "sizeof_kh_tail = 16"

text \<open>\<open>struct kh_header\<close>: magic at offset 0, flags at 4, nbytes at 8.\<close>

definition h_magic :: "memory \<Rightarrow> nat \<Rightarrow> nat" where "h_magic m h = load_le m h 4"
definition h_flags :: "memory \<Rightarrow> nat \<Rightarrow> nat" where "h_flags m h = load_le m (h + 4) 4"
definition h_size :: "memory \<Rightarrow> nat \<Rightarrow> nat" where "h_size m h = load_le m (h + 8) 8"
definition set_h_magic :: "nat \<Rightarrow> nat \<Rightarrow> memory \<Rightarrow> memory" where
  "set_h_magic h v m = store_le m h 4 v"
definition set_h_flags :: "nat \<Rightarrow> nat \<Rightarrow> memory \<Rightarrow> memory" where
  "set_h_flags h v m = store_le m (h + 4) 4 v"
definition set_h_size :: "nat \<Rightarrow> nat \<Rightarrow> memory \<Rightarrow> memory" where
  "set_h_size h v m = store_le m (h + 8) 8 v"

text \<open>\<open>struct kh_tail\<close>: magic at offset 0, reserved at 4, header at 8.\<close>

definition t_magic :: "memory \<Rightarrow> nat \<Rightarrow> nat" where "t_magic m t = load_le m t 4"
definition t_header :: "memory \<Rightarrow> nat \<Rightarrow> nat" where "t_header m t = load_le m (t + 8) 8"
definition set_t_magic :: "nat \<Rightarrow> nat \<Rightarrow> memory \<Rightarrow> memory" where
  "set_t_magic t v m = store_le m t 4 v"
definition set_t_reserved :: "nat \<Rightarrow> nat \<Rightarrow> memory \<Rightarrow> memory" where
  "set_t_reserved t v m = store_le m (t + 4) 4 v"
definition set_t_header :: "nat \<Rightarrow> nat \<Rightarrow> memory \<Rightarrow> memory" where
  "set_t_header t v m = store_le m (t + 8) 8 v"

text \<open>The three assignments that make a tail, and the three that make a header.\<close>

definition make_tail :: "nat \<Rightarrow> nat \<Rightarrow> memory \<Rightarrow> memory" where
  "make_tail t hdr m = set_t_header t hdr (set_t_reserved t 0 (set_t_magic t KH_TAIL_MAGIC m))"

definition make_header :: "nat \<Rightarrow> nat \<Rightarrow> nat \<Rightarrow> memory \<Rightarrow> memory" where
  "make_header h flags sz m = set_h_size h sz (set_h_flags h flags (set_h_magic h KH_HEADER_MAGIC m))"

definition flag_alloc :: "nat \<Rightarrow> bool" where
  "flag_alloc flags = (flags AND KH_FLAG_ALLOC \<noteq> 0)"

definition flag_clear_alloc :: "nat \<Rightarrow> nat" where
  "flag_clear_alloc flags = unat ((word_of_nat flags :: u32) AND NOT (word_of_nat KH_FLAG_ALLOC))"

record kheap =
  hmem :: memory
  kh_base_addr :: nat
  kh_end_addr :: nat
  kh_lock :: bool
  kh_errno :: "errno option"

definition spinlock_acquire :: "kheap \<Rightarrow> kheap option" where
  "spinlock_acquire s = (if kh_lock s then None else Some (s\<lparr>kh_lock := True\<rparr>))"

definition spinlock_release :: "kheap \<Rightarrow> kheap" where
  "spinlock_release s = s\<lparr>kh_lock := False\<rparr>"

section \<open>Initialization\<close>

definition kh_init :: "nat \<Rightarrow> nat \<Rightarrow> kheap \<Rightarrow> kheap" where
  "kh_init base nbytes s =
     (let m1 = make_header base 0 (sub64 (sub64 nbytes sizeof_kh_header) sizeof_kh_tail) (hmem s);
          kend = add64 base nbytes;
          m2 = make_tail (sub64 kend sizeof_kh_tail) base m1
      in s\<lparr>hmem := m2, kh_base_addr := base, kh_end_addr := kend\<rparr>)"

section \<open>Allocation\<close>

text \<open>
  The search loop of kh_alloc_aligned: the header and tail of the first free block that
  can hold the request at the alignment, with the aligned data pointer.
\<close>

partial_function (option) kh_search ::
    "memory \<Rightarrow> nat \<Rightarrow> nat \<Rightarrow> nat \<Rightarrow> nat \<Rightarrow> (errno + nat \<times> nat \<times> nat) option" where
  "kh_search m kend nbytes align header =
     (if header \<ge> kend then Some (Inl ENOMEM)
      else if h_magic m header \<noteq> KH_HEADER_MAGIC then Some (Inl EUCLEAN)
      else let tail = add64 (add64 header (h_size m header)) sizeof_kh_header in
        if t_magic m tail \<noteq> KH_TAIL_MAGIC \<or> t_header m tail \<noteq> header then Some (Inl EUCLEAN)
        else let block = align_up64 (add64 header sizeof_kh_header) align in
          if \<not> flag_alloc (h_flags m header) \<and> block < tail \<and> sub64 tail block \<ge> nbytes
          then Some (Inr (header, tail, block))
          else kh_search m kend nbytes align (add64 tail sizeof_kh_tail))"

text \<open>
  The body of the loop once a block is found: move the header up to the aligned block and
  account for the bytes skipped. The result is the header the function goes on with.
\<close>

definition kh_carve ::
    "nat \<Rightarrow> nat \<Rightarrow> nat \<Rightarrow> nat \<Rightarrow> nat \<Rightarrow> memory \<Rightarrow> nat \<times> memory" where
  "kh_carve base align header tail block m =
     (let aligned_header = sub64 block sizeof_kh_header;
          diff = sub64 aligned_header header;
          first = (diff > 0 \<and> diff < sizeof_kh_header + sizeof_kh_tail \<and> header = base);
          aligned_header = (if first then add64 aligned_header align else aligned_header);
          diff = (if first then add64 diff align else diff);
          m = copy_bytes m aligned_header header sizeof_kh_header;
          m = set_h_size aligned_header (sub64 (h_size m aligned_header) diff) m;
          m = (if diff > KH_MIN_BLOCK_SPLIT_SIZE + sizeof_kh_header + sizeof_kh_tail
               then make_tail (sub64 aligned_header sizeof_kh_tail) header
                      (set_h_size header
                        (sub64 (sub64 diff sizeof_kh_header) sizeof_kh_tail) m)
               else if diff > 0
               then let prev_tail = sub64 header sizeof_kh_tail;
                        m = (if prev_tail < base
                             then let m = make_header base 0
                                        (sub64 (sub64 diff sizeof_kh_header) sizeof_kh_tail) m
                                  in make_tail (add64 (add64 base sizeof_kh_header) (h_size m base))
                                       base m
                             else let p = t_header m prev_tail;
                                      m = set_h_size p (add64 (h_size m p) diff) m
                                  in copy_bytes m (sub64 aligned_header sizeof_kh_tail) prev_tail
                                       sizeof_kh_tail)
                    in set_t_header tail aligned_header m
               else m)
      in (aligned_header, m))"

text \<open>After the loop: split off the space that is left over, if it makes a block.\<close>

definition kh_split :: "nat \<Rightarrow> nat \<Rightarrow> nat \<Rightarrow> memory \<Rightarrow> memory" where
  "kh_split nbytes header tail m =
     (if h_size m header \<ge> add64 nbytes
           (sizeof_kh_header + sizeof_kh_tail + KH_MIN_BLOCK_SPLIT_SIZE)
      then let new_tail = add64 (add64 header sizeof_kh_header) nbytes;
               m = make_tail new_tail header m;
               new_header = add64 new_tail sizeof_kh_tail;
               m = make_header new_header (h_flags m header)
                     (sub64 (sub64 (sub64 (h_size m header) nbytes) sizeof_kh_header) sizeof_kh_tail) m;
               m = set_t_header tail new_header m
           in set_h_size header nbytes m
      else m)"

definition kh_alloc_aligned :: "nat \<Rightarrow> nat \<Rightarrow> kheap \<Rightarrow> (nat \<times> kheap) option" where
  "kh_alloc_aligned nbytes align s =
     (if \<not> IS_P2 (word_of_nat align) then Some (0, s\<lparr>kh_errno := Some EINVAL\<rparr>)
      else let nbytes = align_up64 nbytes KH_DEFAULT_ALIGN in
        do {
          s \<leftarrow> spinlock_acquire s;
          r \<leftarrow> kh_search (hmem s) (kh_end_addr s) nbytes align (kh_base_addr s);
          (case r of
             Inl e \<Rightarrow> Some (0, (spinlock_release s)\<lparr>kh_errno := Some e\<rparr>)
           | Inr (header, tail, block) \<Rightarrow>
               let (header, m) = kh_carve (kh_base_addr s) align header tail block (hmem s);
                   m = kh_split nbytes header tail m;
                   m = set_h_flags header (h_flags m header OR KH_FLAG_ALLOC) m
               in Some (block, spinlock_release (s\<lparr>hmem := m\<rparr>)))
        })"

section \<open>Release\<close>

definition kh_merge_prev :: "nat \<Rightarrow> nat \<Rightarrow> memory \<Rightarrow> nat \<times> memory" where
  "kh_merge_prev base header m =
     (let tail = sub64 header sizeof_kh_tail in
      if tail \<ge> base \<and> h_flags m header = h_flags m (t_header m tail)
      then let p = t_header m tail;
               m = set_h_size p (add64 (h_size m p)
                     (add64 (h_size m header) (sizeof_kh_header + sizeof_kh_tail))) m;
               next_tail = add64 (add64 header sizeof_kh_header) (h_size m header);
               m = set_t_header next_tail (t_header m tail) m
           in (t_header m tail, m)
      else (header, m))"

definition kh_merge_next :: "nat \<Rightarrow> nat \<Rightarrow> memory \<Rightarrow> memory" where
  "kh_merge_next kend header m =
     (let next_header = add64 (add64 header (sizeof_kh_header + sizeof_kh_tail)) (h_size m header) in
      if next_header < kend \<and> h_flags m header = h_flags m next_header
      then let m = set_h_size header (add64 (h_size m header)
                     (add64 (sizeof_kh_header + sizeof_kh_tail) (h_size m next_header))) m;
               next_tail = add64 (add64 next_header sizeof_kh_header) (h_size m next_header)
           in set_t_header next_tail header m
      else m)"

definition kh_free :: "nat \<Rightarrow> kheap \<Rightarrow> kheap option" where
  "kh_free ptr s =
     (if ptr = 0 then Some s
      else do {
        s \<leftarrow> spinlock_acquire s;
        let header = sub64 ptr sizeof_kh_header;
        (if h_magic (hmem s) header \<noteq> KH_HEADER_MAGIC
         then Some ((spinlock_release s)\<lparr>kh_errno := Some EFAULT\<rparr>)
         else let m = set_h_flags header (flag_clear_alloc (h_flags (hmem s) header)) (hmem s);
                  (header, m) = kh_merge_prev (kh_base_addr s) header m;
                  m = kh_merge_next (kh_end_addr s) header m
              in Some (spinlock_release (s\<lparr>hmem := m\<rparr>)))
      })"

section \<open>Resizing\<close>

text \<open>Growing into the free block that follows, keeping the rest as a block if it is large enough.\<close>

definition kh_grow :: "nat \<Rightarrow> nat \<Rightarrow> nat \<Rightarrow> memory \<Rightarrow> memory" where
  "kh_grow nbytes header next_header m =
     (let next_tail = add64 (add64 next_header sizeof_kh_header) (h_size m next_header);
          extra = add64 (sizeof_kh_header + sizeof_kh_tail) (h_size m next_header);
          needed = sub64 nbytes (h_size m header)
      in if sub64 extra needed \<ge> sizeof_kh_header + sizeof_kh_tail + KH_MIN_BLOCK_SPLIT_SIZE
         then let next_size = h_size m next_header;
                  new_tail = add64 (add64 header sizeof_kh_header) nbytes;
                  m = make_tail new_tail header m;
                  new_header = add64 new_tail sizeof_kh_tail;
                  m = make_header new_header (flag_clear_alloc (h_flags m header))
                        (sub64 (add64 (h_size m header) next_size) nbytes) m;
                  m = set_h_size header nbytes m
              in set_t_header next_tail new_header m
         else let m = set_t_header next_tail header m
              in set_h_size header (add64 (h_size m header) extra) m)"

definition kh_shrink :: "nat \<Rightarrow> nat \<Rightarrow> memory \<Rightarrow> memory" where
  "kh_shrink nbytes header m =
     (if sub64 (h_size m header) nbytes \<ge>
           sizeof_kh_header + sizeof_kh_tail + KH_MIN_BLOCK_SPLIT_SIZE
      then let tail = add64 (add64 header sizeof_kh_header) nbytes;
               m = make_tail tail header m;
               next_header = add64 tail sizeof_kh_tail;
               m = make_header next_header (flag_clear_alloc (h_flags m header))
                     (sub64 (sub64 (sub64 (h_size m header) nbytes) sizeof_kh_header) sizeof_kh_tail) m;
               next_tail = add64 (add64 header sizeof_kh_header) (h_size m header);
               m = set_t_header next_tail next_header m
           in set_h_size header nbytes m
      else m)"

definition kh_realloc :: "nat \<Rightarrow> nat \<Rightarrow> kheap \<Rightarrow> (nat \<times> kheap) option" where
  "kh_realloc ptr nbytes s =
     (let header = sub64 ptr sizeof_kh_header in
      if ptr = 0 then kh_alloc_aligned nbytes KH_DEFAULT_ALIGN s
      else let nbytes = align_up64 nbytes KH_DEFAULT_ALIGN in
        do {
          s \<leftarrow> spinlock_acquire s;
          let m = hmem s;
          (if h_magic m header \<noteq> KH_HEADER_MAGIC
           then Some (0, (spinlock_release s)\<lparr>kh_errno := Some EFAULT\<rparr>)
           else if \<not> flag_alloc (h_flags m header)
           then kh_alloc_aligned nbytes KH_DEFAULT_ALIGN (spinlock_release s)
           else if nbytes > h_size m header
           then let next_header = add64 (add64 header (sizeof_kh_header + sizeof_kh_tail))
                                    (h_size m header) in
             if next_header < kh_end_addr s \<and> \<not> flag_alloc (h_flags m next_header) \<and>
                add64 (add64 (h_size m header) (sizeof_kh_header + sizeof_kh_tail))
                  (h_size m next_header) \<ge> nbytes
             then Some (ptr, spinlock_release (s\<lparr>hmem := kh_grow nbytes header next_header m\<rparr>))
             else do {
               (new_ptr, s) \<leftarrow> kh_alloc_aligned nbytes KH_DEFAULT_ALIGN (spinlock_release s);
               (if new_ptr = 0 then Some (0, s)
                else do {
                  let m = copy_bytes (hmem s) new_ptr ptr (h_size (hmem s) header);
                  s \<leftarrow> kh_free ptr (s\<lparr>hmem := m\<rparr>);
                  Some (new_ptr, s)
                })
             }
           else Some (ptr, spinlock_release (s\<lparr>hmem := kh_shrink nbytes header m\<rparr>)))
        })"

section \<open>util/malloc.c\<close>

definition malloc :: "nat \<Rightarrow> kheap \<Rightarrow> (nat \<times> kheap) option" where
  "malloc nbytes s = kh_alloc_aligned nbytes KH_DEFAULT_ALIGN s"

definition calloc :: "nat \<Rightarrow> nat \<Rightarrow> kheap \<Rightarrow> (nat \<times> kheap) option" where
  "calloc block nbytes s =
     do {
       let n = block * nbytes mod 2 ^ 64;
       (ptr, s) \<leftarrow> malloc n s;
       (if ptr \<noteq> 0 then Some (ptr, s\<lparr>hmem := fill_bytes (hmem s) ptr n 0\<rparr>) else Some (ptr, s))
     }"

definition aligned_alloc :: "nat \<Rightarrow> nat \<Rightarrow> kheap \<Rightarrow> (nat \<times> kheap) option" where
  "aligned_alloc align nbytes s = kh_alloc_aligned nbytes align s"

definition valloc :: "nat \<Rightarrow> kheap \<Rightarrow> (nat \<times> kheap) option" where
  "valloc nbytes s = kh_alloc_aligned nbytes PAGE_SIZE s"

definition realloc :: "nat \<Rightarrow> nat \<Rightarrow> kheap \<Rightarrow> (nat \<times> kheap) option" where
  "realloc ptr nbytes s = kh_realloc ptr nbytes s"

definition free :: "nat \<Rightarrow> kheap \<Rightarrow> kheap option" where
  "free ptr s = kh_free ptr s"

end
