(* ===== verification/Pml_Kheap_Spec.thy ===== *)
theory Pml_Kheap_Spec
  imports Pml_Kheap
begin

text \<open>
  Correctness of the kernel heap. The abstract view of a heap is the list of its blocks,
  each a size and an allocated flag; \<open>chain\<close> says that headers and tails in memory spell out
  such a list between the two bounds of the heap. \<open>abs_alloc\<close> (first fit with splitting) and
  \<open>abs_free\<close> (coalescing) specify allocation and release on lists, and the operations on
  memory refine them for the default alignment of 16. From the refinement the heap
  is shown to satisfy the allocator interface its clients rely on.
\<close>

section \<open>The list of blocks in memory\<close>

lemmas kh_sizes = sizeof_kh_header_def sizeof_kh_tail_def KH_MIN_BLOCK_SPLIT_SIZE_def KH_DEFAULT_ALIGN_def
lemmas kh_loads = h_magic_def h_flags_def h_size_def t_magic_def t_header_def
lemmas kh_stores = set_h_magic_def set_h_flags_def set_h_size_def set_t_magic_def
  set_t_reserved_def set_t_header_def make_tail_def make_header_def
lemmas kh_consts = KH_HEADER_MAGIC_def KH_TAIL_MAGIC_def KH_FLAG_ALLOC_def

type_synonym block_list = "(nat \<times> bool) list"

definition blk :: "memory \<Rightarrow> nat \<Rightarrow> nat \<Rightarrow> bool \<Rightarrow> bool" where
  "blk m h sz al = (h_magic m h = KH_HEADER_MAGIC \<and> h_flags m h = (if al then 1 else 0) \<and>
     h_size m h = sz \<and> t_magic m (h + 16 + sz) = KH_TAIL_MAGIC \<and> t_header m (h + 16 + sz) = h)"

fun chain :: "memory \<Rightarrow> nat \<Rightarrow> block_list \<Rightarrow> nat \<Rightarrow> bool" where
  "chain m h [] e = (h = e)"
| "chain m h ((sz, al) # bs) e = (blk m h sz al \<and> 16 dvd sz \<and> chain m (h + sz + 32) bs e)"

fun span :: "block_list \<Rightarrow> nat" where
  "span [] = 0"
| "span ((sz, al) # bs) = sz + 32 + span bs"

fun payload :: "nat \<Rightarrow> block_list \<Rightarrow> nat set" where
  "payload h [] = {}"
| "payload h ((sz, al) # bs) =
     (if al then {h + 16..<h + 16 + sz} else {}) \<union> payload (h + sz + 32) bs"

definition heap_inv :: "kheap \<Rightarrow> block_list \<Rightarrow> bool" where
  "heap_inv s bs = (chain (hmem s) (kh_base_addr s) bs (kh_end_addr s) \<and> \<not> kh_lock s \<and>
     16 dvd kh_base_addr s \<and> 16 \<le> kh_base_addr s \<and> kh_end_addr s + 64 \<le> 2 ^ 64)"

fun split_block :: "nat \<Rightarrow> nat \<Rightarrow> block_list" where
  "split_block n sz = (if n + 64 \<le> sz then [(n, True), (sz - n - 32, False)] else [(sz, True)])"

fun abs_alloc :: "nat \<Rightarrow> block_list \<Rightarrow> (nat \<times> block_list) option" where
  "abs_alloc n [] = None"
| "abs_alloc n ((sz, al) # bs) =
     (if \<not> al \<and> 0 < sz \<and> n \<le> sz then Some (0, split_block n sz @ bs)
      else map_option (\<lambda>(off, bs'). (sz + 32 + off, (sz, al) # bs')) (abs_alloc n bs))"

lemma span_append [simp]: "span (xs @ ys) = span xs + span ys"
  by (induction xs) auto

lemma payload_append: "payload h (xs @ ys) = payload h xs \<union> payload (h + span xs) ys"
  by (induction xs arbitrary: h) (auto simp: add.assoc)

lemma payload_range: "payload h bs \<subseteq> {h..<h + span bs}"
proof (induction bs arbitrary: h)
  case (Cons b bs)
  obtain sz al where b: "b = (sz, al)" by (cases b)
  have "payload (h + sz + 32) bs \<subseteq> {h..<h + span (b # bs)}"
    using Cons [of "h + sz + 32"] b by auto
  moreover have "{h + 16..<h + 16 + sz} \<subseteq> {h..<h + span (b # bs)}" using b by auto
  ultimately show ?case using b by auto
qed simp

lemma chain_span: "chain m h bs e \<Longrightarrow> e = h + span bs"
  by (induction m h bs e rule: chain.induct) auto

lemma chain_append: "chain m h (xs @ ys) e \<longleftrightarrow> chain m h xs (h + span xs) \<and> chain m (h + span xs) ys e"
  by (induction xs arbitrary: h) (auto simp: add.assoc)

lemma blk_cong: "(\<And>a. h \<le> a \<Longrightarrow> a < h + sz + 32 \<Longrightarrow> m' a = m a) \<Longrightarrow> blk m' h sz al = blk m h sz al"
  unfolding blk_def kh_loads by (intro arg_cong2 [of _ _ _ _ "(\<and>)"] arg_cong2 [of _ _ _ _ "(=)"] refl load_le_cong) auto

lemma chain_cong:
  "(\<And>a. h \<le> a \<Longrightarrow> a < h + span bs \<Longrightarrow> m' a = m a) \<Longrightarrow> chain m' h bs e = chain m h bs e"
proof (induction bs arbitrary: h)
  case (Cons b bs)
  obtain sz al where b: "b = (sz, al)" by (cases b)
  have "blk m' h sz al = blk m h sz al" by (rule blk_cong) (use Cons.prems b in auto)
  moreover have "chain m' (h + sz + 32) bs e = chain m (h + sz + 32) bs e"
    by (rule Cons.IH) (use Cons.prems b in auto)
  ultimately show ?case using b by simp
qed simp

lemma chain_dvd: "chain m h bs e \<Longrightarrow> 16 dvd h \<Longrightarrow> 16 dvd e"
  by (induction m h bs e rule: chain.induct) auto

text \<open>Replacing the middle of a chain by what a change of memory confined to it makes.\<close>

lemma chain_replace:
  assumes "chain m h (xs @ ys @ zs) e" and "\<And>a. a < h + span xs \<or> h + span xs + span ys \<le> a \<Longrightarrow> m' a = m a"
    and "chain m' (h + span xs) ys' (h + span xs + span ys)"
  shows "chain m' h (xs @ ys' @ zs) e"
proof -
  have 1: "chain m h xs (h + span xs)" "chain m (h + span xs + span ys) zs e"
    using assms(1) by (simp_all add: chain_append)
  have "chain m' h xs (h + span xs)"
    using 1(1) chain_cong [of h xs m' m] assms(2) by simp
  moreover have "chain m' (h + span xs + span ys) zs e"
    using 1(2) chain_cong [of "h + span xs + span ys" zs m' m] assms(2) by simp
  moreover have "span ys' = span ys" using chain_span [OF assms(3)] by simp
  ultimately show ?thesis using assms(3) by (simp add: chain_append)
qed

lemma abs_alloc_Some:
  "abs_alloc n bs = Some (off, bs') \<Longrightarrow>
   \<exists>xs sz ys. bs = xs @ (sz, False) # ys \<and> off = span xs \<and> bs' = xs @ split_block n sz @ ys \<and> 0 < sz \<and> n \<le> sz"
proof (induction bs arbitrary: off bs')
  case (Cons b bs)
  obtain sz al where b: "b = (sz, al)" by (cases b)
  show ?case
  proof (cases "\<not> al \<and> 0 < sz \<and> n \<le> sz")
    case True
    with Cons.prems b show ?thesis by (intro exI [of _ "[]"]) auto
  next
    case False
    with Cons.prems b obtain off' bs'' where o: "abs_alloc n bs = Some (off', bs'')"
        "off = sz + 32 + off'" "bs' = b # bs''" by (auto simp del: split_block.simps)
    from Cons.IH [OF o(1)] obtain xs sz' ys where "bs = xs @ (sz', False) # ys" "off' = span xs"
      "bs'' = xs @ split_block n sz' @ ys" "0 < sz'" "n \<le> sz'" by blast
    with o b show ?thesis by (intro exI [of _ "b # xs"]) auto
  qed
qed simp

lemma align16_id: "16 dvd x \<Longrightarrow> x + 16 \<le> 2 ^ 64 \<Longrightarrow> align_up64 x 16 = x"
  by (auto simp: align_up64_16 elim!: dvdE)

lemma kh_search_chain:
  "chain m h bs e \<Longrightarrow> 16 dvd h \<Longrightarrow> e + 64 \<le> 2 ^ 64 \<Longrightarrow>
   kh_search m e n 16 h = Some (case abs_alloc n bs of None \<Rightarrow> Inl ENOMEM
     | Some (off, bs') \<Rightarrow> Inr (h + off, h + off + 16 + h_size m (h + off), h + off + 16))"
proof (induction m h bs e rule: chain.induct)
  case (1 m h e)
  then show ?case by (subst kh_search.simps) simp
next
  case (2 m h sz al bs e)
  then have b: "blk m h sz al" "16 dvd sz" "chain m (h + sz + 32) bs e" by simp_all
  have e: "h + sz + 32 \<le> e" using chain_span [OF b(3)] by simp
  have "16 dvd h + 16" using 2(3) by simp
  then have al16: "align_up64 (h + 16) 16 = h + 16" using e 2(4) by (intro align16_id) auto
  have fl: "flag_alloc (h_flags m h) = al" using b(1) by (simp add: blk_def flag_alloc_def KH_FLAG_ALLOC_def)
  have IH: "kh_search m e n 16 (h + sz + 32) = Some (case abs_alloc n bs of None \<Rightarrow> Inl ENOMEM
     | Some (off, bs') \<Rightarrow> Inr (h + sz + 32 + off, h + sz + 32 + off + 16 + h_size m (h + sz + 32 + off), h + sz + 32 + off + 16))"
    using 2(1) [OF b(3)] 2(3,4) b(2) by simp
  have "kh_search m e n 16 h = (if \<not> al \<and> 0 < sz \<and> n \<le> sz then Some (Inr (h, h + 16 + sz, h + 16)) else kh_search m e n 16 (h + sz + 32))"
  proof -
    define t where "t = h + 16 + sz"
    have t: "add64 (add64 h sz) 16 = t" "add64 h 16 = h + 16" "add64 t 16 = h + sz + 32" "sub64 t (h + 16) = sz"
      "h + 16 < t \<longleftrightarrow> 0 < sz" "\<not> e \<le> h"
      using e 2(4) by (auto simp: t_def)
    have m: "h_magic m h = KH_HEADER_MAGIC" "h_size m h = sz" "t_magic m t = KH_TAIL_MAGIC" "t_header m t = h"
      using b(1) by (simp_all add: blk_def t_def)
    show ?thesis unfolding t_def [symmetric]
      by (subst kh_search.simps) (simp add: sizeof_kh_header_def sizeof_kh_tail_def Let_def t m fl al16)
  qed
  then show ?case using IH b(1) by (auto simp: blk_def add.assoc split: option.splits simp del: split_block.simps)
qed

lemma copy_bytes_self: "copy_bytes m a a n = m"
  by (induction n arbitrary: a) auto

lemma flag_or_alloc [simp]: "0 OR KH_FLAG_ALLOC = Suc 0" "Suc 0 OR KH_FLAG_ALLOC = Suc 0"
  by (simp_all add: KH_FLAG_ALLOC_def)

lemma kh_carve_exact:
  assumes "blk m h sz False" "h + sz + 96 \<le> 2 ^ 64"
  shows "kh_carve base 16 h t (h + 16) m = (h, set_h_size h sz m)"
proof -
  have "sub64 (h + 16) 16 = h" "sub64 h h = 0" "sub64 sz 0 = sz" using assms(2) by auto
  then show ?thesis using assms(1)
    by (simp add: kh_carve_def kh_sizes copy_bytes_self blk_def)
qed

lemma kh_split_spec:
  assumes b: "blk m h sz False" and e: "h + sz + 96 \<le> 2 ^ 64" and n: "n \<le> sz"
    and dvd: "16 dvd n" "16 dvd sz"
    and m': "m' = (let m1 = kh_split n h (h + 16 + sz) m in set_h_flags h (h_flags m1 h OR KH_FLAG_ALLOC) m1)"
  shows "chain m' h (split_block n sz) (h + sz + 32)"
    and "\<And>a. a < h \<or> h + sz + 32 \<le> a \<Longrightarrow> m' a = m a"
proof -
  have ld: "h_magic m h = KH_HEADER_MAGIC" "h_flags m h = 0" "h_size m h = sz"
    "t_magic m (h + 16 + sz) = KH_TAIL_MAGIC" "t_header m (h + 16 + sz) = h"
    using b by (simp_all add: blk_def)
  have "chain m' h (split_block n sz) (h + sz + 32) \<and> (\<forall>a. a < h \<or> h + sz + 32 \<le> a \<longrightarrow> m' a = m a)"
  proof (cases "n + 64 \<le> sz")
    case False
    then have "m' = set_h_flags h 1 m" using m' e n ld by (simp add: kh_split_def kh_sizes KH_FLAG_ALLOC_def)
    then show ?thesis using ld e dvd False
      by (simp add: blk_def kh_loads kh_stores store_le_other)
  next
    case True
    then obtain r where r: "sz = n + 64 + r" using le_Suc_ex by blast
    have r16: "16 dvd r + 32" using dvd r by presburger
    have "m' = set_h_flags h 1 (set_h_size h n (set_t_header (h + 16 + sz) (h + n + 32)
        (make_header (h + n + 32) 0 (r + 32) (make_tail (h + n + 16) h m))))"
      using m' e n ld r by (simp add: kh_split_def kh_sizes Let_def kh_loads kh_stores KH_FLAG_ALLOC_def ac_simps)
    then show ?thesis using ld e dvd True r r16
      by (simp add: blk_def kh_loads kh_stores store_le_other kh_consts ac_simps)
  qed
  then show "chain m' h (split_block n sz) (h + sz + 32)"
    "\<And>a. a < h \<or> h + sz + 32 \<le> a \<Longrightarrow> m' a = m a" by blast+
qed

lemma payload_free:
  "a \<in> payload h (xs @ (sz, False) # ys) \<Longrightarrow> a < h + span xs \<or> h + span xs + sz + 32 \<le> a"
  using payload_range [of h xs] payload_range [of "h + span xs + sz + 32" ys]
  by (auto simp: payload_append subset_eq)

lemma heap_inv_chain:
  assumes "heap_inv s (xs @ (sz, al) # ys)"
  shows "blk (hmem s) (kh_base_addr s + span xs) sz al" and "16 dvd sz"
    and "kh_base_addr s + span xs + sz + 96 \<le> 2 ^ 64"
    and "kh_end_addr s = kh_base_addr s + span xs + sz + 32 + span ys"
proof -
  have ch: "chain (hmem s) (kh_base_addr s) (xs @ (sz, al) # ys) (kh_end_addr s)"
    and e: "kh_end_addr s + 64 \<le> 2 ^ 64" using assms by (simp_all add: heap_inv_def)
  show "kh_end_addr s = kh_base_addr s + span xs + sz + 32 + span ys" using chain_span [OF ch] by simp
  with e show "kh_base_addr s + span xs + sz + 96 \<le> 2 ^ 64" by simp
  show "blk (hmem s) (kh_base_addr s + span xs) sz al" "16 dvd sz" using ch by (simp_all add: chain_append)
qed

lemma align_up64_dvd: "16 dvd align_up64 n 16"
proof -
  have "align_up64 n 16 = (unat (word_of_nat n :: u64) + 2 ^ 4 - 1) div 2 ^ 4 * 2 ^ 4 mod 2 ^ 64"
    using unat_ALIGN_UP [of 4 "word_of_nat n"] by (simp add: align_up64_def)
  also have "16 dvd \<dots>" by (intro dvd_mod) simp_all
  finally show ?thesis .
qed

lemma kh_alloc_refines:
  assumes inv: "heap_inv s bs"
  shows "case abs_alloc (align_up64 n 16) bs of
      None \<Rightarrow> kh_alloc_aligned n 16 s = Some (0, s\<lparr>kh_errno := Some ENOMEM\<rparr>)
    | Some (off, bs') \<Rightarrow>
        \<exists>m'. kh_alloc_aligned n 16 s = Some (kh_base_addr s + off + 16, s\<lparr>hmem := m'\<rparr>) \<and>
             heap_inv (s\<lparr>hmem := m'\<rparr>) bs' \<and>
             (\<forall>a \<in> payload (kh_base_addr s) bs. m' a = hmem s a)"
proof -
  let ?n = "align_up64 n 16" and ?b = "kh_base_addr s"
  have p2: "IS_P2 16" using IS_P2_exp [of 4] by simp
  have ch: "chain (hmem s) ?b bs (kh_end_addr s)" "16 dvd ?b" "kh_end_addr s + 64 \<le> 2 ^ 64"
    and lock: "\<not> kh_lock s" using inv by (simp_all add: heap_inv_def)
  note search = kh_search_chain [OF ch, of ?n]
  show ?thesis
  proof (cases "abs_alloc ?n bs")
    case None
    then show ?thesis using search lock p2
      by (simp add: kh_alloc_aligned_def KH_DEFAULT_ALIGN_def spinlock_acquire_def spinlock_release_def)
  next
    case (Some r)
    obtain off bs' where r: "r = (off, bs')" by (cases r)
    then obtain xs sz ys where d: "bs = xs @ (sz, False) # ys" "off = span xs"
        "bs' = xs @ split_block ?n sz @ ys" "?n \<le> sz" using abs_alloc_Some [of ?n bs] Some by blast
    define h where "h = ?b + span xs"
    note hc = heap_inv_chain [OF inv [unfolded d(1)], folded h_def]
    have sz: "h_size (hmem s) h = sz" using hc(1) by (simp add: blk_def)
    define m where "m = set_h_size h sz (hmem s)"
    have b: "blk m h sz False" "\<And>a. a < h \<or> h + sz + 32 \<le> a \<Longrightarrow> m a = hmem s a"
      using hc by (auto simp: m_def blk_def kh_loads kh_stores store_le_other)
    note dvd = align_up64_dvd [of n]
    define m' where "m' = (let m1 = kh_split ?n h (h + 16 + sz) m in set_h_flags h (h_flags m1 h OR KH_FLAG_ALLOC) m1)"
    note sp = kh_split_spec [OF b(1) hc(3) d(4) dvd hc(2) m'_def]
    have run: "kh_alloc_aligned n 16 s = Some (h + 16, s\<lparr>hmem := m'\<rparr>)"
      using search lock p2 Some r kh_carve_exact [OF hc(1,3), of ?b "h + 16 + sz"] sz d(2)
      by (simp add: kh_alloc_aligned_def KH_DEFAULT_ALIGN_def spinlock_acquire_def
          spinlock_release_def m'_def m_def Let_def h_def [symmetric])
    have outside: "m' a = hmem s a" if "a < h \<or> h + sz + 32 \<le> a" for a
      using sp(2) b(2) that by simp
    have "chain m' ?b (xs @ split_block ?n sz @ ys) (kh_end_addr s)"
      by (rule chain_replace [of "hmem s" ?b xs "[(sz, False)]"])
         (use ch(1) d(1) outside sp(1) in \<open>simp_all add: h_def add.assoc\<close>)
    then have "heap_inv (s\<lparr>hmem := m'\<rparr>) bs'" using inv d(3) by (simp add: heap_inv_def)
    moreover have "\<forall>a \<in> payload ?b bs. m' a = hmem s a"
      using payload_free [of _ ?b xs sz ys] d(1) outside by (simp add: h_def)
    ultimately show ?thesis using run Some r d(2)
      by (simp add: h_def) (rule exI [of _ m'], simp)
  qed
qed

definition absorb_prev :: "block_list \<Rightarrow> nat \<Rightarrow> block_list \<times> nat" where
  "absorb_prev xs sz =
     (if xs \<noteq> [] \<and> \<not> snd (last xs) then (butlast xs, fst (last xs) + sz + 32) else (xs, sz))"

definition absorb_next :: "nat \<Rightarrow> block_list \<Rightarrow> nat \<times> block_list" where
  "absorb_next sz ys =
     (if ys \<noteq> [] \<and> \<not> snd (hd ys) then (sz + 32 + fst (hd ys), tl ys) else (sz, ys))"

definition abs_free :: "block_list \<Rightarrow> nat \<Rightarrow> block_list \<Rightarrow> block_list" where
  "abs_free xs sz ys =
     (let (xs', sz1) = absorb_prev xs sz; (sz2, ys') = absorb_next sz1 ys in xs' @ (sz2, False) # ys')"

lemma flag_clear_alloc_simps [simp]: "flag_clear_alloc 0 = 0" "flag_clear_alloc (Suc 0) = 0"
  by (simp_all add: flag_clear_alloc_def KH_FLAG_ALLOC_def)

lemma kh_merge_prev_spec:
  assumes ch: "chain m base (xs @ (sz, False) # ys) e" and e: "e + 64 \<le> 2 ^ 64" and base: "16 \<le> base"
    and res: "kh_merge_prev base (base + span xs) m = (h', m')" and abs: "absorb_prev xs sz = (xs', sz')"
  shows "h' = base + span xs' \<and> chain m' base (xs' @ (sz', False) # ys) e \<and>
         span xs' + sz' = span xs + sz \<and> span xs' \<le> span xs \<and>
         (\<forall>a. a < h' \<or> h' + sz' + 32 \<le> a \<longrightarrow> m' a = m a)"
proof (cases "xs = []")
  case True
  have "sub64 base 16 = base - 16" "\<not> base \<le> base - 16" using chain_span [OF ch] e base by simp_all
  then have "h' = base" "m' = m" using True res by (simp_all add: kh_merge_prev_def kh_sizes)
  with True abs ch show ?thesis by (simp add: absorb_prev_def)
next
  case False
  define ws where "ws = butlast xs"
  obtain psz pal where xs: "xs = ws @ [(psz, pal)]" using False by (metis append_butlast_last_id surj_pair ws_def)
  define p where "p = base + span ws"
  have b: "blk m p psz pal" "blk m (p + psz + 32) sz False" "16 dvd psz" "16 dvd sz"
    using ch xs by (simp_all add: chain_append p_def add.assoc)
  have bound: "p + psz + sz + 128 \<le> 2 ^ 64" "base \<le> p" using chain_span [OF ch] e xs by (simp_all add: p_def)
  have h: "base + span xs = p + psz + 32" using xs by (simp add: p_def)
  have ld: "h_flags m p = (if pal then 1 else 0)" "h_size m p = psz" "t_header m (p + psz + 16) = p"
    "h_flags m (p + psz + 32) = 0" "h_size m (p + psz + 32) = sz"
    using b(1,2) by (simp_all add: blk_def ac_simps)
  have tl: "sub64 (p + psz + 32) 16 = p + psz + 16" using bound by simp
  show ?thesis
  proof (cases pal)
    case True
    with res h ld tl have "h' = p + psz + 32" "m' = m" by (auto simp: kh_merge_prev_def kh_sizes Let_def)
    moreover have "xs' = xs" "sz' = sz" using abs xs True by (simp_all add: absorb_prev_def)
    ultimately show ?thesis using ch h by simp
  next
    case False
    have m': "h' = p" "m' = set_t_header (p + psz + 48 + sz) p (set_h_size p (psz + sz + 32) m)"
      using res h ld tl False bound
      by (auto simp: kh_merge_prev_def kh_sizes Let_def kh_loads kh_stores ac_simps)
    have xs': "xs' = ws" "sz' = psz + sz + 32" using abs xs False by (simp_all add: absorb_prev_def)
    have out: "m' a = m a" if "a < p \<or> p + psz + sz + 64 \<le> a" for a
      using m' that by (auto simp: kh_stores store_le_other)
    have "blk m' p (psz + sz + 32) False"
      using b(1,2) False bound unfolding m' by (simp add: blk_def kh_loads kh_stores ac_simps)
    then have new: "chain m' p [(psz + sz + 32, False)] (p + psz + sz + 64)" using b(3,4) by simp
    have "chain m' base (ws @ [(psz + sz + 32, False)] @ ys) e"
      by (rule chain_replace [of m base ws "[(psz, pal), (sz, False)]"])
         (use ch xs out new in \<open>simp_all add: p_def ac_simps\<close>)
    then show ?thesis using m' xs' xs out by (simp add: p_def ac_simps)
  qed
qed

lemma kh_merge_next_spec:
  assumes ch: "chain m base (xs @ (sz, False) # ys) e" and e: "e + 64 \<le> 2 ^ 64"
    and abs: "absorb_next sz ys = (sz', ys')" and m': "m' = kh_merge_next e (base + span xs) m"
  shows "chain m' base (xs @ (sz', False) # ys') e \<and> span ys' \<le> span ys \<and>
         (\<forall>a. a < base + span xs \<or> base + span xs + sz' + 32 \<le> a \<longrightarrow> m' a = m a)"
proof -
  define h where "h = base + span xs"
  have b: "blk m h sz False" "16 dvd sz" using ch by (simp_all add: chain_append h_def)
  have end_: "e = h + sz + 32 + span ys" using chain_span [OF ch] by (simp add: h_def)
  have ld: "h_size m h = sz" "h_flags m h = 0" using b(1) by (simp_all add: blk_def)
  have nx: "add64 (add64 h 32) sz = h + sz + 32" using end_ e by simp
  show ?thesis
  proof (cases ys)
    case Nil
    then have "m' = m" using m' ld nx end_ by (simp add: kh_merge_next_def kh_sizes h_def [symmetric])
    with Nil ch abs show ?thesis by (simp add: absorb_next_def)
  next
    case (Cons y zs)
    obtain nsz nal where y: "y = (nsz, nal)" by (cases y)
    have nb: "blk m (h + sz + 32) nsz nal" "16 dvd nsz" using ch Cons y by (simp_all add: chain_append h_def)
    have nld: "h_flags m (h + sz + 32) = (if nal then 1 else 0)" "h_size m (h + sz + 32) = nsz"
      using nb(1) by (simp_all add: blk_def)
    have bound: "h + sz + nsz + 128 \<le> 2 ^ 64" "h + sz + 32 < e" using end_ e Cons y by simp_all
    show ?thesis
    proof (cases nal)
      case True
      then have "m' = m" using m' ld nld nx bound by (simp add: kh_merge_next_def kh_sizes h_def [symmetric] Let_def)
      with Cons y True ch abs show ?thesis by (simp add: absorb_next_def)
    next
      case False
      have m1: "m' = set_t_header (h + sz + 48 + nsz) h (set_h_size h (sz + 32 + nsz) m)"
        unfolding m' using ld nld nx bound False
        by (simp add: kh_merge_next_def kh_sizes h_def [symmetric] Let_def kh_loads kh_stores ac_simps)
      have a1: "sz' = sz + 32 + nsz" "ys' = zs" using abs Cons y False by (simp_all add: absorb_next_def)
      have out: "m' a = m a" if "a < h \<or> h + sz + nsz + 64 \<le> a" for a
        using m1 that by (auto simp: kh_stores store_le_other)
      have "blk m' h (sz + 32 + nsz) False"
        using b(1) nb(1) False bound unfolding m1 by (simp add: blk_def kh_loads kh_stores ac_simps)
      then have new: "chain m' h [(sz + 32 + nsz, False)] (h + sz + nsz + 64)" using b(2) nb(2) by simp
      have "chain m' base (xs @ [(sz + 32 + nsz, False)] @ zs) e"
        by (rule chain_replace [of m base xs "[(sz, False), (nsz, nal)]"])
           (use ch Cons y out new in \<open>simp_all add: h_def ac_simps\<close>)
      then show ?thesis using a1 Cons y out by (simp add: h_def ac_simps)
    qed
  qed
qed

lemma abs_free_payload: "payload h (abs_free xs sz ys) = payload h xs \<union> payload (h + span xs + sz + 32) ys"
proof -
  have next_: "payload h (zs @ (sz2, False) # ys') = payload h zs \<union> payload (h + span zs + sz1 + 32) ys"
    if "absorb_next sz1 ys = (sz2, ys')" for zs sz1 sz2 ys'
    using that by (cases ys) (auto simp: absorb_next_def payload_append ac_simps split: if_splits)
  obtain xs' sz1 where p: "absorb_prev xs sz = (xs', sz1)" by (cases "absorb_prev xs sz")
  have "payload h xs' = payload h xs" "span xs' + sz1 = span xs + sz"
    using p by (cases xs rule: rev_cases; force simp: absorb_prev_def payload_append split: if_splits)+
  moreover from calculation(2) have eq: "h + span xs' + sz1 + 32 = h + span xs + sz + 32" by simp
  moreover obtain sz2 ys' where n: "absorb_next sz1 ys = (sz2, ys')" by (cases "absorb_next sz1 ys")
  moreover have "abs_free xs sz ys = xs' @ (sz2, False) # ys'" using p n by (simp add: abs_free_def)
  ultimately show ?thesis using next_ [OF n, of xs', unfolded eq] by simp
qed

lemma kh_free_refines:
  assumes inv: "heap_inv s (xs @ (sz, True) # ys)"
  shows "\<exists>m'. kh_free (kh_base_addr s + span xs + 16) s = Some (s\<lparr>hmem := m'\<rparr>) \<and>
     heap_inv (s\<lparr>hmem := m'\<rparr>) (abs_free xs sz ys) \<and>
     (\<forall>a \<in> payload (kh_base_addr s) (abs_free xs sz ys). m' a = hmem s a)"
proof -
  let ?b = "kh_base_addr s" and ?e = "kh_end_addr s" and ?bs = "xs @ (sz, True) # ys"
  define h where "h = ?b + span xs"
  have ch: "chain (hmem s) ?b ?bs ?e" and dvd: "16 dvd ?b" and base: "16 \<le> ?b"
    and e: "?e + 64 \<le> 2 ^ 64" and lock: "\<not> kh_lock s" using inv by (simp_all add: heap_inv_def)
  note hc = heap_inv_chain [OF inv, folded h_def]
  define m where "m = set_h_flags h 0 (hmem s)"
  have out1: "m a = hmem s a" if "a < h \<or> h + sz + 32 \<le> a" for a
    using that by (auto simp: m_def kh_stores store_le_other)
  have "blk m h sz False" using hc(1,3) by (simp add: m_def blk_def kh_loads kh_stores)
  then have new: "chain m h [(sz, False)] (h + sz + 32)" using hc(2) by simp
  have c1: "chain m ?b (xs @ (sz, False) # ys) ?e"
    using chain_replace [of "hmem s" ?b xs "[(sz, True)]" ys ?e m "[(sz, False)]"] ch out1 new
    by (simp add: h_def add.assoc)
  obtain xs' sz1 where ap: "absorb_prev xs sz = (xs', sz1)" by (cases "absorb_prev xs sz")
  obtain sz2 ys' where an: "absorb_next sz1 ys = (sz2, ys')" by (cases "absorb_next sz1 ys")
  obtain h' m1 where mp: "kh_merge_prev ?b (?b + span xs) m = (h', m1)" by (cases "kh_merge_prev ?b (?b + span xs) m")
  note p = kh_merge_prev_spec [OF c1 e base mp ap]
  then have h': "h' = ?b + span xs'" and c2: "chain m1 ?b (xs' @ (sz1, False) # ys) ?e" by blast+
  define m2 where "m2 = kh_merge_next ?e h' m1"
  have n: "chain m2 ?b (xs' @ (sz2, False) # ys') ?e \<and> span ys' \<le> span ys \<and>
      (\<forall>a. a < h' \<or> h' + sz2 + 32 \<le> a \<longrightarrow> m2 a = m1 a)"
    using kh_merge_next_spec [OF c2 e an, of m2] h' m2_def by simp
  have bs': "abs_free xs sz ys = xs' @ (sz2, False) # ys'" using ap an by (simp add: abs_free_def)
  have ptr: "sub64 (h + 16) 16 = h" "h_flags (hmem s) h = 1" "h_magic (hmem s) h = KH_HEADER_MAGIC"
    using hc(1,3) by (simp_all add: blk_def)
  have run: "kh_free (h + 16) s = Some (s\<lparr>hmem := m2\<rparr>)"
    using lock ptr mp [folded h_def, unfolded m_def] by (simp add: kh_free_def spinlock_acquire_def spinlock_release_def
        sizeof_kh_header_def m2_def)
  have sizes: "h' + sz1 = h + sz" "h' \<le> h" using p by (simp_all add: h_def)
  have "sz1 \<le> sz2" using an by (auto simp: absorb_next_def split: if_splits)
  have same: "m2 a = hmem s a" if "a < h' \<or> h' + sz2 + 32 \<le> a" for a
  proof -
    have "a < h' \<or> h' + sz1 + 32 \<le> a" "a < h \<or> h + sz + 32 \<le> a" using that sizes \<open>sz1 \<le> sz2\<close> by auto
    then show ?thesis using that p n out1 by auto
  qed
  have "\<forall>a \<in> payload ?b (abs_free xs sz ys). m2 a = hmem s a"
    using payload_free [of _ ?b xs' sz2 ys'] same h' bs' by auto
  moreover have "heap_inv (s\<lparr>hmem := m2\<rparr>) (abs_free xs sz ys)" using inv n bs' by (simp add: heap_inv_def)
  ultimately show ?thesis using run by (intro exI [of _ m2]) (simp add: h_def)
qed

lemma kh_init_refines:
  assumes "16 dvd base" "16 \<le> base" "16 dvd n" "32 \<le> n" "base + n + 64 \<le> 2 ^ 64" "\<not> kh_lock s"
  shows "heap_inv (kh_init base n s) [(n - 32, False)]"
proof -
  obtain r where r: "n = r + 32" using assms(4) by (metis add.commute le_Suc_ex)
  have "16 dvd r" using assms(3) r by presburger
  then show ?thesis using assms r
    by (simp add: heap_inv_def kh_init_def Let_def kh_sizes blk_def kh_loads kh_stores kh_consts ac_simps)
qed

lemma chain_payload_write:
  "chain m h bs e \<Longrightarrow> (\<And>a. h \<le> a \<Longrightarrow> a \<notin> payload h bs \<Longrightarrow> m' a = m a) \<Longrightarrow> chain m' h bs e"
proof (induction bs arbitrary: h)
  case (Cons b bs)
  obtain sz al where b: "b = (sz, al)" by (cases b)
  have rest: "a \<in> payload (h + sz + 32) bs \<Longrightarrow> h + sz + 32 \<le> a" for a
    using payload_range [of "h + sz + 32" bs] by auto
  have same: "m' a = m a" if "h \<le> a \<and> a < h + 16 \<or> h + 16 + sz \<le> a \<and> a < h + sz + 32" for a
  proof (rule Cons.prems(2))
    show "a \<notin> payload h (b # bs)" using that b rest [of a] by auto
  qed (use that in auto)
  have "load_le m' a k = load_le m a k" if "h \<le> a \<and> a + k \<le> h + 16 \<or> h + 16 + sz \<le> a \<and> a + k \<le> h + sz + 32" for a k
    by (rule load_le_cong) (use that same in auto)
  then have "blk m' h sz al" using Cons.prems(1) b by (simp add: blk_def kh_loads)
  moreover have "chain m' (h + sz + 32) bs e"
  proof (rule Cons.IH)
    show "chain m (h + sz + 32) bs e" using Cons.prems(1) b by simp
    show "m' a = m a" if "h + sz + 32 \<le> a" "a \<notin> payload (h + sz + 32) bs" for a
      by (rule Cons.prems(2)) (use that b in auto)
  qed
  ultimately show ?case using Cons.prems(1) b by simp
qed simp

definition block_at :: "block_list \<Rightarrow> nat \<Rightarrow> nat \<Rightarrow> bool" where
  "block_at bs off sz = (\<exists>xs ys. bs = xs @ (sz, True) # ys \<and> off = span xs)"

lemma append_mid_cases:
  assumes "xs @ x # ys = us @ u # vs"
  obtains "xs = us" "x = u" "ys = vs" | zs where "xs = us @ u # zs" "vs = zs @ x # ys"
    | zs where "us = xs @ x # zs" "ys = zs @ u # vs"
  using assms by (auto simp: append_eq_append_conv2 Cons_eq_append_conv append_eq_Cons_conv)

lemma block_at_apart:
  assumes "block_at bs off sz" "block_at bs off' sz'"
  shows "off = off' \<and> sz = sz' \<or> off + sz + 32 \<le> off' \<or> off' + sz' + 32 \<le> off"
proof -
  obtain xs ys us vs where d: "bs = xs @ (sz, True) # ys" "off = span xs"
      "bs = us @ (sz', True) # vs" "off' = span us" using assms unfolding block_at_def by blast
  then have "xs @ (sz, True) # ys = us @ (sz', True) # vs" by simp
  then show ?thesis by (cases rule: append_mid_cases) (use d in auto)
qed

lemma block_at_payload: "block_at bs off sz \<Longrightarrow> {h + off + 16..<h + off + 16 + sz} \<subseteq> payload h bs"
  by (auto simp: block_at_def payload_append)

lemma abs_alloc_keeps:
  assumes "abs_alloc n bs = Some (off, bs')" and "block_at bs k sz"
  shows "block_at bs' k sz \<and> k \<noteq> off"
proof -
  obtain us f vs where a: "bs = us @ (f, False) # vs" "off = span us" "bs' = us @ split_block n f @ vs" "n \<le> f"
    using abs_alloc_Some [OF assms(1)] by blast
  obtain xs ys where b: "bs = xs @ (sz, True) # ys" "k = span xs" using assms(2) by (auto simp: block_at_def)
  have sp: "span (split_block n f) = f + 32" using a(4) by auto
  have "xs @ (sz, True) # ys = us @ (f, False) # vs" using a b by simp
  then show ?thesis
  proof (cases rule: append_mid_cases)
    case (2 zs)
    then have "bs' = (us @ split_block n f @ zs) @ (sz, True) # ys" "k = span (us @ split_block n f @ zs)" "k \<noteq> off"
      using a b sp by simp_all
    then show ?thesis unfolding block_at_def by blast
  next
    case (3 zs)
    then have "bs' = xs @ (sz, True) # zs @ split_block n f @ vs" "k \<noteq> off" using a b by simp_all
    then show ?thesis unfolding block_at_def using b(2) by blast
  qed simp
qed

lemma abs_alloc_new:
  assumes "abs_alloc n bs = Some (off, bs')"
  shows "\<exists>sz. block_at bs' off sz \<and> n \<le> sz"
proof -
  obtain us f vs where a: "off = span us" "bs' = us @ split_block n f @ vs" "n \<le> f"
    using abs_alloc_Some [OF assms(1)] by blast
  then show ?thesis by (auto simp: block_at_def)
qed

lemma abs_free_keeps:
  assumes "block_at (xs @ (sz, True) # ys) off n" and "off \<noteq> span xs"
  shows "block_at (abs_free xs sz ys) off n"
proof -
  obtain xs' sz1 where p: "absorb_prev xs sz = (xs', sz1)" by (cases "absorb_prev xs sz")
  obtain sz2 ys' where nx: "absorb_next sz1 ys = (sz2, ys')" by (cases "absorb_next sz1 ys")
  have f: "abs_free xs sz ys = xs' @ (sz2, False) # ys'" using p nx by (simp add: abs_free_def)
  have sp: "span xs' + sz1 = span xs + sz"
    using p by (cases xs rule: rev_cases) (auto simp: absorb_prev_def split: if_splits)
  obtain us vs where d: "us @ (n, True) # vs = xs @ (sz, True) # ys" "off = span us"
    using assms(1) by (auto simp: block_at_def)
  from d(1) show ?thesis
  proof (cases rule: append_mid_cases)
    case 1
    with d assms(2) show ?thesis by simp
  next
    case (2 zs)
    have "\<exists>ws. ys' = ws @ (n, True) # vs \<and> span xs' + sz2 + 32 + span ws = span xs + sz + 32 + span zs"
    proof (cases zs)
      case Nil
      with 2 nx sp show ?thesis by (auto simp: absorb_next_def)
    next
      case (Cons z ws)
      with 2 nx sp show ?thesis
        by (cases z; cases "snd z") (auto simp: absorb_next_def split: if_splits)
    qed
    then obtain ws where "ys' = ws @ (n, True) # vs" "span xs' + sz2 + 32 + span ws = span xs + sz + 32 + span zs" by blast
    then show ?thesis unfolding block_at_def f using d(2) 2
      by (intro exI [of _ "xs' @ (sz2, False) # ws"] exI [of _ vs]) simp
  next
    case (3 zs)
    have "\<exists>ws. xs' = us @ (n, True) # ws"
      using 3 p by (cases zs rule: rev_cases) (auto simp: absorb_prev_def butlast_append split: if_splits)
    then obtain ws where "xs' = us @ (n, True) # ws" by blast
    then show ?thesis unfolding block_at_def f using d(2)
      by (intro exI [of _ us] exI [of _ "ws @ (sz2, False) # ys'"]) simp
  qed
qed

lemma kh_shrink_spec:
  assumes b: "blk m h sz True" and e: "h + sz + 96 \<le> 2 ^ 64" and n: "n \<le> sz"
    and dvd: "16 dvd n" "16 dvd sz" and m': "m' = kh_shrink n h m"
  shows "chain m' h (split_block n sz) (h + sz + 32) \<and>
         (\<forall>a. a < h \<or> h + sz + 32 \<le> a \<or> (h + 16 \<le> a \<and> a < h + 16 + n) \<longrightarrow> m' a = m a) \<and>
         (sz < n + 64 \<longrightarrow> m' = m)"
proof -
  have ld: "h_magic m h = KH_HEADER_MAGIC" "h_flags m h = 1" "h_size m h = sz"
    "t_magic m (h + 16 + sz) = KH_TAIL_MAGIC" "t_header m (h + 16 + sz) = h"
    using b by (simp_all add: blk_def)
  have s: "sub64 sz n = sz - n" using n e by simp
  show ?thesis
  proof (cases "n + 64 \<le> sz")
    case False
    then have "\<not> 64 \<le> sz - n" by simp
    then have "m' = m" using m' ld s by (simp add: kh_shrink_def kh_sizes)
    then show ?thesis using b dvd False by simp
  next
    case True
    then obtain r where r: "sz = n + 64 + r" using le_Suc_ex by blast
    have r16: "16 dvd r + 32" using dvd r by presburger
    have "m' = set_h_size h n (set_t_header (h + 16 + sz) (h + n + 32)
        (make_header (h + n + 32) 0 (r + 32) (make_tail (h + n + 16) h m)))"
      using m' e n ld r s by (simp add: kh_shrink_def kh_sizes Let_def kh_loads kh_stores ac_simps)
    then show ?thesis using ld e dvd True r r16
      by (simp add: blk_def kh_loads kh_stores store_le_other kh_consts ac_simps)
  qed
qed

lemma kh_grow_spec:
  assumes b: "blk m h sz True" "blk m (h + sz + 32) nsz False" and e: "h + sz + nsz + 128 \<le> 2 ^ 64"
    and n: "sz < n" "n \<le> sz + 32 + nsz"
    and dvd: "16 dvd n" "16 dvd sz" "16 dvd nsz" and m': "m' = kh_grow n h (h + sz + 32) m"
  shows "chain m' h (split_block n (sz + 32 + nsz)) (h + sz + nsz + 64) \<and>
         (\<forall>a. a < h \<or> h + sz + nsz + 64 \<le> a \<or> (h + 16 \<le> a \<and> a < h + 16 + sz) \<longrightarrow> m' a = m a)"
proof -
  have ld: "h_magic m h = KH_HEADER_MAGIC" "h_flags m h = 1" "h_size m h = sz"
    "h_size m (h + sz + 32) = nsz" "t_magic m (h + sz + 32 + 16 + nsz) = KH_TAIL_MAGIC"
    using b by (simp_all add: blk_def)
  have s: "sub64 n sz = n - sz" "sub64 (32 + nsz) (n - sz) = 32 + nsz - (n - sz)" using n e by simp_all
  show ?thesis
  proof (cases "n + 64 \<le> sz + 32 + nsz")
    case False
    then have "\<not> 64 \<le> 32 + nsz - (n - sz)" using n by simp
    then have "m' = set_h_size h (sz + 32 + nsz) (set_t_header (h + sz + 48 + nsz) h m)"
      using m' e ld s by (simp add: kh_grow_def kh_sizes Let_def kh_loads kh_stores ac_simps)
    then show ?thesis using ld e dvd False n
      by (simp add: blk_def kh_loads kh_stores store_le_other kh_consts ac_simps)
  next
    case True
    obtain k where k: "n = sz + k" using n(1) less_imp_add_positive by blast
    then obtain r where r: "nsz = k + 32 + r" using True by (auto dest!: le_Suc_ex)
    have r16: "16 dvd r + 32" using dvd k r by presburger
    have c: "sub64 n sz = k" "sub64 (k + 64 + r) k = 64 + r" using e k r by simp_all
    have "m' = set_t_header (h + sz + k + r + 80) (h + sz + k + 32) (set_h_size h (sz + k)
        (make_header (h + sz + k + 32) 0 (r + 32) (make_tail (h + sz + k + 16) h m)))"
      using m' e ld s k r c by (simp add: kh_grow_def kh_sizes Let_def kh_loads kh_stores ac_simps)
    then show ?thesis using ld e dvd True k r r16
      by (simp add: blk_def kh_loads kh_stores store_le_other kh_consts ac_simps)
  qed
qed

lemma block_at_Nil [simp]: "\<not> block_at [] k s"
  by (simp add: block_at_def)

lemma block_at_Cons [simp]:
  "block_at ((a, al) # bs) k s \<longleftrightarrow> (k = 0 \<and> al \<and> s = a) \<or> (a + 32 \<le> k \<and> block_at bs (k - a - 32) s)"
proof
  assume "block_at ((a, al) # bs) k s"
  then obtain xs ys where "(a, al) # bs = xs @ (s, True) # ys" "k = span xs" unfolding block_at_def by blast
  then show "(k = 0 \<and> al \<and> s = a) \<or> (a + 32 \<le> k \<and> block_at bs (k - a - 32) s)"
    by (cases xs) (auto simp: block_at_def)
next
  assume "(k = 0 \<and> al \<and> s = a) \<or> (a + 32 \<le> k \<and> block_at bs (k - a - 32) s)"
  then consider "k = 0" "al" "s = a"
    | xs ys where "a + 32 \<le> k" "bs = xs @ (s, True) # ys" "k - a - 32 = span xs"
    unfolding block_at_def by blast
  then show "block_at ((a, al) # bs) k s"
  proof cases
    case 1
    then show ?thesis unfolding block_at_def by (intro exI [of _ "[]"] exI [of _ bs]) simp
  next
    case 2
    then show ?thesis unfolding block_at_def by (intro exI [of _ "(a, al) # xs"] exI [of _ ys]) simp
  qed
qed

lemma block_at_append:
  "block_at (xs @ ys) k s \<longleftrightarrow> block_at xs k s \<or> (span xs \<le> k \<and> block_at ys (k - span xs) s)"
proof (induction xs arbitrary: k)
  case (Cons x xs)
  obtain a al where x: "x = (a, al)" by (cases x)
  have "k - a - 32 - span xs = k - (a + 32 + span xs)" by simp
  with Cons [of "k - a - 32"] x show ?case by auto
qed simp

lemma block_at_range: "block_at bs k s \<Longrightarrow> k + s + 32 \<le> span bs"
  by (auto simp: block_at_def)

text \<open>What a resize promises about its block and about every other block.\<close>

definition resize_ok :: "kheap \<Rightarrow> block_list \<Rightarrow> nat \<Rightarrow> nat \<Rightarrow> nat \<Rightarrow> nat \<Rightarrow> kheap \<Rightarrow> bool" where
  "resize_ok s bs off sz n p s' =
     (\<exists>bs' off' sz'. heap_inv s' bs' \<and> p = kh_base_addr s + off' + 16 \<and> block_at bs' off' sz' \<and> n \<le> sz' \<and>
        (\<forall>i < min sz sz'. hmem s' (p + i) = hmem s (kh_base_addr s + off + 16 + i)) \<and>
        (\<forall>k sz''. k \<noteq> off \<longrightarrow> block_at bs k sz'' \<longrightarrow> block_at bs' k sz'' \<and>
           (\<forall>i < sz''. hmem s' (kh_base_addr s + k + 16 + i) = hmem s (kh_base_addr s + k + 16 + i))))"

text \<open>Resizing in place: only the region of the block and of what follows it changes.\<close>

lemma resize_in_place:
  assumes inv: "heap_inv s (xs @ ys @ zs)" and ys: "ys = [(sz, True)] \<or> ys = [(sz, True), (nsz, False)]"
    and ch: "chain m' (kh_base_addr s + span xs) (split_block n tot) (kh_base_addr s + span xs + span ys)"
    and tot: "n \<le> tot" "tot + 32 = span ys"
    and out: "\<And>a. a < kh_base_addr s + span xs \<or> kh_base_addr s + span xs + span ys \<le> a \<or>
        (kh_base_addr s + span xs + 16 \<le> a \<and> a < kh_base_addr s + span xs + 16 + min sz n) \<Longrightarrow> m' a = hmem s a"
    and short: "tot < n + 64 \<Longrightarrow> (\<And>a. a \<ge> kh_base_addr s + span xs + 16 \<Longrightarrow>
        a < kh_base_addr s + span xs + 16 + sz \<Longrightarrow> m' a = hmem s a)"
  shows "resize_ok s (xs @ ys @ zs) (span xs) sz n (kh_base_addr s + span xs + 16) (s\<lparr>hmem := m'\<rparr>)"
proof -
  let ?b = "kh_base_addr s" and ?bs = "xs @ split_block n tot @ zs"
  let ?sz = "if n + 64 \<le> tot then n else tot"
  have sp: "span (split_block n tot) = span ys" using tot by auto
  have "chain m' ?b ?bs (kh_end_addr s)"
  proof (rule chain_replace [of "hmem s" ?b xs ys zs, OF _ _ ch])
    show "chain (hmem s) ?b (xs @ ys @ zs) (kh_end_addr s)" using inv by (simp add: heap_inv_def)
    show "m' a = hmem s a" if "a < ?b + span xs \<or> ?b + span xs + span ys \<le> a" for a
      by (rule out) (use that in blast)
  qed
  then have 1: "heap_inv (s\<lparr>hmem := m'\<rparr>) ?bs" using inv by (simp add: heap_inv_def)
  have 2: "block_at ?bs (span xs) ?sz" by (simp add: block_at_append)
  have 3: "\<forall>i < min sz ?sz. m' (?b + span xs + 16 + i) = hmem s (?b + span xs + 16 + i)"
    using out short by (auto split: if_splits)
  have 4: "block_at ?bs k s'' \<and> (\<forall>i < s''. m' (?b + k + 16 + i) = hmem s (?b + k + 16 + i))"
    if "k \<noteq> span xs" "block_at (xs @ ys @ zs) k s''" for k s''
  proof -
    have "block_at xs k s'' \<or> (span xs + span ys \<le> k \<and> block_at zs (k - span xs - span ys) s'')"
      using that ys by (auto simp: block_at_append)
    then show ?thesis
    proof
      assume "block_at xs k s''"
      with block_at_range [OF this] out show ?thesis by (auto simp: block_at_append)
    next
      assume h: "span xs + span ys \<le> k \<and> block_at zs (k - span xs - span ys) s''"
      then have "span ys \<le> k - span xs" by linarith
      with h have "block_at ?bs k s''" using sp by (simp add: block_at_append del: split_block.simps)
      with h out show ?thesis by auto
    qed
  qed
  show ?thesis unfolding resize_ok_def
    by (rule exI [of _ ?bs], rule exI [of _ "span xs"], rule exI [of _ ?sz])
       (use 1 2 3 4 tot in \<open>simp del: split_block.simps\<close>)
qed

lemma kh_realloc_move:
  assumes inv: "heap_inv s bs" and at: "block_at bs off sz" and n: "sz < align_up64 n 16" "n + 16 \<le> 2 ^ 64"
    and res: "abs_alloc (align_up64 n 16) bs = Some (noff, bs1)"
    and al: "kh_alloc_aligned n 16 s = Some (p, s1)"
  shows "\<exists>s2 s3. s2 = s1\<lparr>hmem := copy_bytes (hmem s1) p (kh_base_addr s + off + 16) sz\<rparr> \<and>
           kh_free (kh_base_addr s + off + 16) s2 = Some s3 \<and> p \<noteq> 0 \<and>
           h_size (hmem s1) (kh_base_addr s + off) = sz \<and>
           resize_ok s bs off sz (align_up64 n 16) p s3"
proof -
  let ?b = "kh_base_addr s" and ?n = "align_up64 n 16"
  have s1: "p = ?b + noff + 16" "heap_inv s1 bs1" "kh_base_addr s1 = ?b"
    "\<And>a. a \<in> payload ?b bs \<Longrightarrow> hmem s1 a = hmem s a"
    using kh_alloc_refines [OF inv, of n] res al by auto
  have keep: "block_at bs1 off sz" "off \<noteq> noff" using abs_alloc_keeps [OF res at] by simp_all
  obtain nsz where nsz: "block_at bs1 noff nsz" "?n \<le> nsz" using abs_alloc_new [OF res] by blast
  obtain xs ys where d: "bs1 = xs @ (sz, True) # ys" "off = span xs" using keep(1) unfolding block_at_def by blast
  have apart: "off + sz + 32 \<le> noff \<or> noff + nsz + 32 \<le> off"
    using block_at_apart [OF keep(1) nsz(1)] keep(2) by blast
  have hsz: "h_size (hmem s1) (?b + off) = sz"
    using heap_inv_chain(1) [OF s1(2) [unfolded d(1)]] s1(3) d(2) by (simp add: blk_def)
  define m2 where "m2 = copy_bytes (hmem s1) p (?b + off + 16) sz"
  have m2: "m2 x = (if p \<le> x \<and> x < p + sz then hmem s1 (x - p + (?b + off + 16)) else hmem s1 x)" for x
    unfolding m2_def by (rule copy_bytes_spec) (use apart s1(1) n(1) nsz(2) in linarith)
  define s2 where "s2 = s1\<lparr>hmem := m2\<rparr>"
  have "chain m2 ?b bs1 (kh_end_addr s1)"
  proof (rule chain_payload_write)
    show "chain (hmem s1) ?b bs1 (kh_end_addr s1)" using s1(2,3) by (simp add: heap_inv_def)
    show "m2 a = hmem s1 a" if "a \<notin> payload ?b bs1" for a
    proof -
      have "a \<notin> {?b + noff + 16..<?b + noff + 16 + nsz}" using that block_at_payload [OF nsz(1)] by blast
      then have "\<not> (p \<le> a \<and> a < p + sz)" using s1(1) n(1) nsz(2) by auto
      then show ?thesis using m2 [of a] by auto
    qed
  qed
  then have inv2: "heap_inv s2 (xs @ (sz, True) # ys)" using s1(2,3) d(1) by (simp add: heap_inv_def s2_def)
  have b2: "kh_base_addr s2 = ?b" using s1(3) by (simp add: s2_def)
  obtain s3 where s3: "kh_free (?b + off + 16) s2 = Some s3" "heap_inv s3 (abs_free xs sz ys)"
    "\<And>a. a \<in> payload ?b (abs_free xs sz ys) \<Longrightarrow> hmem s3 a = m2 a"
    using kh_free_refines [OF inv2] d(2) b2 by (force simp: s2_def)
  have fin: "block_at (abs_free xs sz ys) k s''" if "block_at bs1 k s''" "k \<noteq> off" for k s''
    using abs_free_keeps that d by simp
  have data: "hmem s3 (?b + k + 16 + i) = m2 (?b + k + 16 + i)" if "block_at bs1 k s''" "k \<noteq> off" "i < s''" for k s'' i
    using block_at_payload [OF fin [OF that(1,2)], of ?b] that(3) by (intro s3(3)) auto
  have 1: "hmem s3 (p + i) = hmem s (?b + off + 16 + i)" if "i < sz" for i
  proof -
    have "hmem s3 (p + i) = m2 (p + i)" using data [OF nsz(1), of i] keep(2) s1(1) that n(1) nsz(2) by simp
    also have "\<dots> = hmem s1 (?b + off + 16 + i)" using m2 that by (simp add: add.commute)
    also have "\<dots> = hmem s (?b + off + 16 + i)"
      using block_at_payload [OF at, of ?b] that by (intro s1(4)) auto
    finally show ?thesis .
  qed
  have 2: "block_at (abs_free xs sz ys) k s'' \<and> (\<forall>i < s''. hmem s3 (?b + k + 16 + i) = hmem s (?b + k + 16 + i))"
    if k: "k \<noteq> off" "block_at bs k s''" for k s''
  proof -
    have k1: "block_at bs1 k s''" "k \<noteq> noff" using abs_alloc_keeps [OF res k(2)] by simp_all
    have "hmem s3 (?b + k + 16 + i) = hmem s (?b + k + 16 + i)" if i: "i < s''" for i
    proof -
      have "k + s'' + 32 \<le> noff \<or> noff + nsz + 32 \<le> k" using block_at_apart [OF k1(1) nsz(1)] k1(2) by blast
      then have "\<not> (p \<le> ?b + k + 16 + i \<and> ?b + k + 16 + i < p + sz)" using s1(1) i n(1) nsz(2) by linarith
      then have "m2 (?b + k + 16 + i) = hmem s1 (?b + k + 16 + i)"
        unfolding m2 by (rule if_not_P)
      moreover have "hmem s1 (?b + k + 16 + i) = hmem s (?b + k + 16 + i)"
        using block_at_payload [OF k(2), of ?b] i by (intro s1(4)) auto
      ultimately show ?thesis using data [OF k1(1) k(1) i] by simp
    qed
    with fin [OF k1(1) k(1)] show ?thesis by blast
  qed
  have "resize_ok s bs off sz ?n p s3" unfolding resize_ok_def
    by (rule exI [of _ "abs_free xs sz ys"], rule exI [of _ noff], rule exI [of _ nsz])
       (use s3(2) s1(1) fin [OF nsz(1)] keep(2) nsz(2) 1 2 in auto)
  then show ?thesis using s3(1) hsz s1(1) by (simp add: s2_def m2_def)
qed

lemma align_up64_ge: "n + 16 \<le> 2 ^ 64 \<Longrightarrow> n \<le> align_up64 n 16 \<and> 16 dvd align_up64 n 16"
  by (simp add: align_up64_16)

lemma resize_ok_mono: "resize_ok s bs off sz n p s' \<Longrightarrow> n' \<le> n \<Longrightarrow> resize_ok s bs off sz n' p s'"
  unfolding resize_ok_def by (elim exE conjE, intro exI conjI) (assumption | simp)+

lemma kh_realloc_correct:
  assumes inv: "heap_inv s bs" and at: "block_at bs off sz" and n: "n + 16 \<le> 2 ^ 64"
  shows "\<exists>p s'. kh_realloc (kh_base_addr s + off + 16) n s = Some (p, s') \<and>
     (p = 0 \<and> s' = s\<lparr>kh_errno := Some ENOMEM\<rparr> \<or> resize_ok s bs off sz n p s')"
proof -
  let ?b = "kh_base_addr s" and ?n = "align_up64 n 16"
  obtain xs ys where d: "bs = xs @ (sz, True) # ys" "off = span xs" using at unfolding block_at_def by blast
  define h where "h = ?b + off"
  note hc = heap_inv_chain [OF inv [unfolded d(1)], folded d(2), folded h_def]
  have ld: "h_magic (hmem s) h = KH_HEADER_MAGIC" "h_flags (hmem s) h = 1" "h_size (hmem s) h = sz"
    using hc(1) by (simp_all add: blk_def)
  have ptr: "sub64 (h + 16) 16 = h" and lock: "\<not> kh_lock s" using hc(3) inv by (simp_all add: heap_inv_def)
  have nx: "add64 (add64 h 32) sz = h + sz + 32" using hc(3) by simp
  note ge = align_up64_ge [OF n]
  note unfold = kh_realloc_def spinlock_acquire_def spinlock_release_def kh_sizes Let_def flag_alloc_def KH_FLAG_ALLOC_def
  consider (shrink) "?n \<le> sz"
    | (grow) nsz zs where "sz < ?n" "ys = (nsz, False) # zs" "?n \<le> sz + 32 + nsz"
    | (move) "sz < ?n" "ys = [] \<or> snd (hd ys) \<or> sz + 32 + fst (hd ys) < ?n"
    by (cases ys) force+
  then show ?thesis
  proof cases
    case shrink
    then have run: "kh_realloc (h + 16) n s = Some (h + 16, s\<lparr>hmem := kh_shrink ?n h (hmem s)\<rparr>)"
      using ld ptr lock by (simp add: unfold)
    note sh = kh_shrink_spec [OF hc(1,3) shrink conjunct2 [OF ge] hc(2) refl]
    have "resize_ok s (xs @ [(sz, True)] @ ys) (span xs) sz ?n (?b + span xs + 16) (s\<lparr>hmem := kh_shrink ?n h (hmem s)\<rparr>)"
    proof (rule resize_in_place)
      show "chain (kh_shrink ?n h (hmem s)) (?b + span xs) (split_block ?n sz) (?b + span xs + span [(sz, True)])"
        using sh d(2) by (simp add: h_def add.assoc del: split_block.simps)
      show "kh_shrink ?n h (hmem s) a = hmem s a"
        if "a < ?b + span xs \<or> ?b + span xs + span [(sz, True)] \<le> a \<or>
            (?b + span xs + 16 \<le> a \<and> a < ?b + span xs + 16 + min sz ?n)" for a
        using that sh d(2) by (auto simp: h_def)
    qed (use inv d sh shrink in auto)
    then show ?thesis using run resize_ok_mono conjunct1 [OF ge] d by (auto simp: h_def)
  next
    case grow
    define nh where "nh = h + sz + 32"
    have nb: "blk (hmem s) nh nsz False" "16 dvd nsz" "h + sz + nsz + 128 \<le> 2 ^ 64" "nh < kh_end_addr s"
      using inv d grow(2) hc(4) by (auto simp: heap_inv_def chain_append h_def nh_def)
    have nld: "h_flags (hmem s) nh = 0" "h_size (hmem s) nh = nsz" using nb(1) by (simp_all add: blk_def)
    have sum: "add64 (add64 sz 32) nsz = sz + 32 + nsz" using nb(3) by simp
    have run: "kh_realloc (h + 16) n s = Some (h + 16, s\<lparr>hmem := kh_grow ?n h nh (hmem s)\<rparr>)"
      using ld ptr lock nx grow nld nb(4) sum by (simp add: unfold nh_def [symmetric])
    note gr = kh_grow_spec [OF hc(1) nb(1) [unfolded nh_def] nb(3) grow(1,3) conjunct2 [OF ge] hc(2) nb(2) refl, folded nh_def]
    have "resize_ok s (xs @ [(sz, True), (nsz, False)] @ zs) (span xs) sz ?n (?b + span xs + 16) (s\<lparr>hmem := kh_grow ?n h nh (hmem s)\<rparr>)"
    proof (rule resize_in_place)
      show "chain (kh_grow ?n h nh (hmem s)) (?b + span xs) (split_block ?n (sz + 32 + nsz))
          (?b + span xs + span [(sz, True), (nsz, False)])"
        using gr d(2) by (simp add: h_def ac_simps del: split_block.simps)
      show "kh_grow ?n h nh (hmem s) a = hmem s a"
        if "a < ?b + span xs \<or> ?b + span xs + span [(sz, True), (nsz, False)] \<le> a \<or>
            (?b + span xs + 16 \<le> a \<and> a < ?b + span xs + 16 + min sz ?n)" for a
        using that gr d(2) by (auto simp: h_def)
    qed (use inv d gr grow in \<open>auto simp: h_def\<close>)
    then show ?thesis using run resize_ok_mono conjunct1 [OF ge] d grow(2) by (auto simp: h_def)
  next
    case move
    define nh where "nh = h + sz + 32"
    have no: "\<not> (nh < kh_end_addr s \<and> \<not> flag_alloc (h_flags (hmem s) nh) \<and> ?n \<le> add64 (add64 sz 32) (h_size (hmem s) nh))"
    proof (cases ys)
      case Nil
      then show ?thesis using hc(4) by (simp add: nh_def)
    next
      case (Cons y zs)
      obtain nsz nal where y: "y = (nsz, nal)" by (cases y)
      have nb: "blk (hmem s) nh nsz nal" "h + sz + nsz + 128 \<le> 2 ^ 64"
        using inv d Cons y hc(4) by (auto simp: heap_inv_def chain_append h_def nh_def)
      then show ?thesis using move(2) Cons y by (auto simp: blk_def flag_alloc_def KH_FLAG_ALLOC_def)
    qed
    have run: "kh_realloc (h + 16) n s = (case kh_alloc_aligned ?n 16 s of None \<Rightarrow> None
      | Some (p, s1) \<Rightarrow> if p = 0 then Some (0, s1) else
          (case kh_free (h + 16) (s1\<lparr>hmem := copy_bytes (hmem s1) p (h + 16) (h_size (hmem s1) h)\<rparr>) of
             None \<Rightarrow> None | Some s3 \<Rightarrow> Some (p, s3)))"
    proof -
      have fl: "flag_alloc (h_flags (hmem s) h)" using ld(2) by (simp add: flag_alloc_def KH_FLAG_ALLOC_def)
      have sl: "s\<lparr>kh_lock := False\<rparr> = s" using lock by simp
      show ?thesis unfolding kh_realloc_def spinlock_acquire_def spinlock_release_def kh_sizes
        using move(1) by (simp add: ld(1,3) ptr lock nx no fl sl nh_def [symmetric] Let_def
          Option.bind_eq_Some_conv split: option.split prod.split)
    qed
    have nn: "?n + 16 \<le> 2 ^ 64" "align_up64 ?n 16 = ?n"
    proof -
      show n16: "?n + 16 \<le> 2 ^ 64" using n by (simp add: align_up64_16)
      show "align_up64 ?n 16 = ?n" by (rule align16_id [OF conjunct2 [OF ge] n16])
    qed
    note al = kh_alloc_refines [OF inv, of ?n, unfolded nn(2)]
    show ?thesis
    proof (cases "abs_alloc ?n bs")
      case None
      then show ?thesis using al run by (simp add: h_def)
    next
      case (Some r)
      obtain noff bs1 where r: "r = (noff, bs1)" by (cases r)
      with al Some obtain p s1 where al1: "kh_alloc_aligned ?n 16 s = Some (p, s1)" by auto
      have "abs_alloc (align_up64 ?n 16) bs = Some (noff, bs1)" "sz < align_up64 ?n 16"
        using Some r nn(2) move(1) by simp_all
      from kh_realloc_move [OF inv at this(2) nn(1) this(1) al1] nn(2) obtain s3 where
        "kh_free (h + 16) (s1\<lparr>hmem := copy_bytes (hmem s1) p (h + 16) (h_size (hmem s1) h)\<rparr>) = Some s3"
        "p \<noteq> 0" "resize_ok s bs off sz ?n p s3" by (auto simp: h_def)
      then show ?thesis using run al1 resize_ok_mono conjunct1 [OF ge] by (simp add: h_def)
    qed
  qed
qed

section \<open>The allocator interface\<close>

lemma chain_unique: "chain m h bs e \<Longrightarrow> chain m h bs' e \<Longrightarrow> bs = bs'"
proof (induction bs arbitrary: h bs')
  case Nil
  then show ?case using chain_span [of m h bs' e] by (cases bs') auto
next
  case (Cons b bs)
  obtain sz al where b: "b = (sz, al)" by (cases b)
  have h: "h_size m h = sz" "h_flags m h = (if al then 1 else 0)" "chain m (h + sz + 32) bs e"
    using Cons.prems(1) b by (simp_all add: blk_def)
  have "bs' \<noteq> []" using Cons.prems(2) chain_span [OF h(3)] by (cases bs') auto
  then obtain sz' al' cs where c: "bs' = (sz', al') # cs" by (cases bs') auto
  have h': "h_size m h = sz'" "h_flags m h = (if al' then 1 else 0)" "chain m (h + sz' + 32) cs e"
    using Cons.prems(2) c by (simp_all add: blk_def)
  have "sz' = sz" using h(1) h'(1) by (rule trans [OF sym, rotated])
  moreover have "al' = al" using trans [OF sym [OF h(2)] h'(2)] by (cases al; cases al') simp_all
  ultimately show ?case using Cons.IH [OF h(3)] h'(3) b c by simp
qed

fun alloc_many :: "(nat \<Rightarrow> 's \<Rightarrow> (nat \<times> 's) option) \<Rightarrow> nat list \<Rightarrow> 's \<Rightarrow> (nat list \<times> 's) option" where
  "alloc_many alloc [] s = Some ([], s)"
| "alloc_many alloc (n # ns) s =
     (case alloc n s of
        None \<Rightarrow> None
      | Some (p, s') \<Rightarrow>
          (case alloc_many alloc ns s' of None \<Rightarrow> None | Some (ps, s'') \<Rightarrow> Some (p # ps, s'')))"

locale allocator =
  fixes alloc :: "nat \<Rightarrow> 's \<Rightarrow> (nat \<times> 's) option"
    and release :: "nat \<Rightarrow> 's \<Rightarrow> 's option"
    and inv :: "'s \<Rightarrow> bool"
    and live :: "'s \<Rightarrow> nat \<Rightarrow> nat \<Rightarrow> bool"
    and byte :: "'s \<Rightarrow> nat \<Rightarrow> u8"
    and limit :: nat
  assumes alloc_ok: "inv s \<Longrightarrow> n \<le> limit \<Longrightarrow> \<exists>p s'. alloc n s = Some (p, s') \<and> inv s' \<and>
        (p \<noteq> 0 \<longrightarrow> (\<exists>sz. live s' p sz \<and> n \<le> sz) \<and> (\<forall>sz. \<not> live s p sz)) \<and>
        (\<forall>q sz. live s q sz \<longrightarrow> live s' q sz \<and> (\<forall>i < sz. byte s' (q + i) = byte s (q + i)))"
    and release_ok: "inv s \<Longrightarrow> live s p sz \<Longrightarrow> \<exists>s'. release p s = Some s' \<and> inv s' \<and>
        (\<forall>q sz'. q \<noteq> p \<longrightarrow> live s q sz' \<longrightarrow> live s' q sz' \<and> (\<forall>i < sz'. byte s' (q + i) = byte s (q + i)))"
    and apart: "inv s \<Longrightarrow> live s p a \<Longrightarrow> live s q b \<Longrightarrow> p \<noteq> q \<Longrightarrow> p + a \<le> q \<or> q + b \<le> p"
begin

lemma alloc_many_ok:
  "inv s \<Longrightarrow> \<forall>n \<in> set ns. n \<le> limit \<Longrightarrow> \<exists>ps s'. alloc_many alloc ns s = Some (ps, s') \<and> inv s' \<and>
     list_all2 (\<lambda>n p. p \<noteq> 0 \<longrightarrow> (\<exists>sz. live s' p sz \<and> n \<le> sz) \<and> (\<forall>sz. \<not> live s p sz)) ns ps \<and>
     distinct (filter (\<lambda>p. p \<noteq> 0) ps) \<and>
     (\<forall>q sz. live s q sz \<longrightarrow> live s' q sz \<and> (\<forall>i < sz. byte s' (q + i) = byte s (q + i)))"
proof (induction ns arbitrary: s)
  case (Cons n ns)
  obtain p s1 where s1: "alloc n s = Some (p, s1)" "inv s1"
      "p \<noteq> 0 \<Longrightarrow> (\<exists>sz. live s1 p sz \<and> n \<le> sz) \<and> (\<forall>sz. \<not> live s p sz)"
      "\<And>q sz. live s q sz \<Longrightarrow> live s1 q sz \<and> (\<forall>i < sz. byte s1 (q + i) = byte s (q + i))"
    using alloc_ok [OF Cons.prems(1), of n] Cons.prems(2) by auto
  obtain ps s' where s': "alloc_many alloc ns s1 = Some (ps, s')" "inv s'"
      "list_all2 (\<lambda>n p. p \<noteq> 0 \<longrightarrow> (\<exists>sz. live s' p sz \<and> n \<le> sz) \<and> (\<forall>sz. \<not> live s1 p sz)) ns ps"
      "distinct (filter (\<lambda>p. p \<noteq> 0) ps)"
      "\<And>q sz. live s1 q sz \<Longrightarrow> live s' q sz \<and> (\<forall>i < sz. byte s' (q + i) = byte s1 (q + i))"
    using Cons.IH [OF s1(2)] Cons.prems(2) by auto
  have 1: "list_all2 (\<lambda>n p. p \<noteq> 0 \<longrightarrow> (\<exists>sz. live s' p sz \<and> n \<le> sz) \<and> (\<forall>sz. \<not> live s p sz)) ns ps"
    by (rule list_all2_mono [OF s'(3)]) (use s1(4) in blast)
  have 2: "p \<notin> set ps" if "p \<noteq> 0"
  proof
    assume "p \<in> set ps"
    then obtain i where "i < length ps" "ps ! i = p" by (auto simp: in_set_conv_nth)
    then show False using list_all2_nthD2 [OF s'(3), of i] s1(3) that by auto
  qed
  have 3: "live s' q sz \<and> (\<forall>i < sz. byte s' (q + i) = byte s (q + i))" if "live s q sz" for q sz
    using s1(4) [OF that] s'(5) [of q sz] by auto
  have 4: "p \<noteq> 0 \<longrightarrow> (\<exists>sz. live s' p sz \<and> n \<le> sz) \<and> (\<forall>sz. \<not> live s p sz)"
    using s1(3) s'(5) by blast
  show ?case using s1(1) s'(1,2,4) 1 2 3 4 by auto
qed simp

lemma alloc_many_disjoint:
  assumes "inv s" and "\<forall>n \<in> set ns. n \<le> limit"
  shows "\<exists>ps s'. alloc_many alloc ns s = Some (ps, s') \<and> inv s' \<and> length ps = length ns \<and>
     (\<forall>i j. i < j \<longrightarrow> j < length ns \<longrightarrow> ps ! i \<noteq> 0 \<longrightarrow> ps ! j \<noteq> 0 \<longrightarrow>
        ps ! i + ns ! i \<le> ps ! j \<or> ps ! j + ns ! j \<le> ps ! i)"
proof -
  obtain ps s' where s': "alloc_many alloc ns s = Some (ps, s')" "inv s'"
      "list_all2 (\<lambda>n p. p \<noteq> 0 \<longrightarrow> (\<exists>sz. live s' p sz \<and> n \<le> sz) \<and> (\<forall>sz. \<not> live s p sz)) ns ps"
      "distinct (filter (\<lambda>p. p \<noteq> 0) ps)"
    using alloc_many_ok [OF assms] by blast
  have len: "length ps = length ns" using s'(3) by (simp add: list_all2_lengthD)
  have "ps ! i + ns ! i \<le> ps ! j \<or> ps ! j + ns ! j \<le> ps ! i"
    if ij: "i < j" "j < length ns" "ps ! i \<noteq> 0" "ps ! j \<noteq> 0" for i j
  proof -
    have "i < length ns" using ij by simp
    then obtain a b where a: "live s' (ps ! i) a" "ns ! i \<le> a" and b: "live s' (ps ! j) b" "ns ! j \<le> b"
      using list_all2_nthD [OF s'(3)] ij by blast
    have "ps ! i \<noteq> ps ! j"
    proof
      assume eq: "ps ! i = ps ! j"
      have "ps = take j ps @ ps ! j # drop (Suc j) ps" using ij len by (simp add: id_take_nth_drop)
      then have "distinct (filter (\<lambda>p. p \<noteq> 0) (take j ps @ ps ! j # drop (Suc j) ps))" using s'(4) by simp
      then have "ps ! j \<notin> set (take j ps)" using ij(4) by auto
      moreover have "ps ! i \<in> set (take j ps)" using ij len by (auto simp: in_set_conv_nth)
      ultimately show False using eq by simp
    qed
    then show ?thesis using apart [OF s'(2) a(1) b(1)] a(2) b(2) by linarith
  qed
  with s'(1,2) len show ?thesis by blast
qed

end

definition kh_inv :: "kheap \<Rightarrow> bool" where
  "kh_inv s = (\<exists>bs. heap_inv s bs)"

definition kh_live :: "kheap \<Rightarrow> nat \<Rightarrow> nat \<Rightarrow> bool" where
  "kh_live s p sz = (\<exists>bs off. heap_inv s bs \<and> block_at bs off sz \<and> p = kh_base_addr s + off + 16)"

lemma kh_live_unique: "heap_inv s bs \<Longrightarrow> kh_live s p sz \<Longrightarrow> \<exists>off. block_at bs off sz \<and> p = kh_base_addr s + off + 16"
  unfolding kh_live_def heap_inv_def using chain_unique by blast

interpretation kh: allocator malloc free kh_inv kh_live hmem "2 ^ 64 - 16"
proof unfold_locales
  fix s n
  assume "kh_inv s" and n: "n \<le> (2 ^ 64 - 16 :: nat)"
  then obtain bs where bs: "heap_inv s bs" unfolding kh_inv_def by blast
  note lv = kh_live_unique [OF bs]
  let ?n = "align_up64 n 16"
  have ge: "n \<le> ?n" using align_up64_ge [of n] n by simp
  note ref = kh_alloc_refines [OF bs, of n]
  show "\<exists>p s'. malloc n s = Some (p, s') \<and> kh_inv s' \<and>
        (p \<noteq> 0 \<longrightarrow> (\<exists>sz. kh_live s' p sz \<and> n \<le> sz) \<and> (\<forall>sz. \<not> kh_live s p sz)) \<and>
        (\<forall>q sz. kh_live s q sz \<longrightarrow> kh_live s' q sz \<and> (\<forall>i < sz. hmem s' (q + i) = hmem s (q + i)))"
  proof (cases "abs_alloc ?n bs")
    case None
    have e: "heap_inv (s\<lparr>kh_errno := e\<rparr>) bs = heap_inv s bs" for e bs by (simp add: heap_inv_def)
    then have "kh_live (s\<lparr>kh_errno := Some ENOMEM\<rparr>) q sz = kh_live s q sz" for q sz by (simp add: kh_live_def)
    then show ?thesis using ref None bs e by (auto simp: malloc_def KH_DEFAULT_ALIGN_def kh_inv_def)
  next
    case (Some r)
    obtain off bs' where r: "r = (off, bs')" by (cases r)
    then obtain m' where m': "kh_alloc_aligned n 16 s = Some (kh_base_addr s + off + 16, s\<lparr>hmem := m'\<rparr>)"
      "heap_inv (s\<lparr>hmem := m'\<rparr>) bs'" "\<And>a. a \<in> payload (kh_base_addr s) bs \<Longrightarrow> m' a = hmem s a"
      using ref Some by auto
    have ab: "abs_alloc ?n bs = Some (off, bs')" using Some r by simp
    have new: "\<exists>sz. kh_live (s\<lparr>hmem := m'\<rparr>) (kh_base_addr s + off + 16) sz \<and> n \<le> sz"
    proof -
      obtain sz where "block_at bs' off sz" "?n \<le> sz" using abs_alloc_new [OF ab] by blast
      with m'(2) ge show ?thesis unfolding kh_live_def by (intro exI [of _ sz]) auto
    qed
    have fresh: "\<not> kh_live s (kh_base_addr s + off + 16) sz" for sz
      using lv [of _ sz] abs_alloc_keeps [OF ab] by fastforce
    have old: "kh_live (s\<lparr>hmem := m'\<rparr>) q sz \<and> (\<forall>i < sz. m' (q + i) = hmem s (q + i))" if live: "kh_live s q sz" for q sz
    proof -
      obtain k where k: "block_at bs k sz" "q = kh_base_addr s + k + 16" using lv [OF live] by blast
      have "m' (q + i) = hmem s (q + i)" if "i < sz" for i
        using block_at_payload [OF k(1), of "kh_base_addr s"] k(2) that by (intro m'(3)) auto
      moreover have "block_at bs' k sz" using abs_alloc_keeps [OF ab k(1)] by blast
      ultimately show ?thesis using m'(2) k(2) unfolding kh_live_def by auto
    qed
    show ?thesis using m'(1,2) new fresh old by (auto simp: malloc_def KH_DEFAULT_ALIGN_def kh_inv_def)
  qed
next
  fix s p sz
  assume "kh_inv s" and live: "kh_live s p sz"
  then obtain bs off where bs: "heap_inv s bs" "block_at bs off sz" "p = kh_base_addr s + off + 16"
    unfolding kh_live_def by blast
  note lv = kh_live_unique [OF bs(1)]
  obtain xs ys where d: "bs = xs @ (sz, True) # ys" "off = span xs" using bs(2) unfolding block_at_def by blast
  obtain m' where m': "kh_free p s = Some (s\<lparr>hmem := m'\<rparr>)" "heap_inv (s\<lparr>hmem := m'\<rparr>) (abs_free xs sz ys)"
      "\<And>a. a \<in> payload (kh_base_addr s) (abs_free xs sz ys) \<Longrightarrow> m' a = hmem s a"
    using kh_free_refines [OF bs(1) [unfolded d(1)]] bs(3) d(2) by auto
  have "kh_live (s\<lparr>hmem := m'\<rparr>) q sz' \<and> (\<forall>i < sz'. m' (q + i) = hmem s (q + i))"
    if q: "q \<noteq> p" "kh_live s q sz'" for q sz'
  proof -
    obtain k where k: "block_at bs k sz'" "q = kh_base_addr s + k + 16" using lv [OF q(2)] by blast
    have keep: "block_at (abs_free xs sz ys) k sz'" using abs_free_keeps k q(1) bs(3) d by auto
    have "m' (q + i) = hmem s (q + i)" if "i < sz'" for i
      using block_at_payload [OF keep, of "kh_base_addr s"] k(2) that by (intro m'(3)) auto
    then show ?thesis using m'(2) keep k(2) unfolding kh_live_def by auto
  qed
  then show "\<exists>s'. free p s = Some s' \<and> kh_inv s' \<and>
        (\<forall>q sz'. q \<noteq> p \<longrightarrow> kh_live s q sz' \<longrightarrow> kh_live s' q sz' \<and> (\<forall>i < sz'. hmem s' (q + i) = hmem s (q + i)))"
    using m'(1,2) by (auto simp: free_def kh_inv_def)
next
  fix s p a q b
  assume h: "kh_inv s" "kh_live s p a" "kh_live s q b" "p \<noteq> q"
  then obtain bs where bs: "heap_inv s bs" unfolding kh_inv_def by blast
  obtain i j where "block_at bs i a" "p = kh_base_addr s + i + 16" "block_at bs j b" "q = kh_base_addr s + j + 16"
    using kh_live_unique [OF bs] h(2,3) by blast
  then show "p + a \<le> q \<or> q + b \<le> p" using block_at_apart [of bs i a j b] h(4) by auto
qed

section \<open>Properties of the heap\<close>

definition heap0 :: kheap where
  "heap0 = kh_init 4096 4096
     \<lparr>hmem = (\<lambda>_. 0), kh_base_addr = 0, kh_end_addr = 0, kh_lock = False, kh_errno = None\<rparr>"

lemma heap0_inv: "heap_inv heap0 [(4064, False)]"
  unfolding heap0_def
  using kh_init_refines [of 4096 4096 "\<lparr>hmem = (\<lambda>_. 0), kh_base_addr = 0, kh_end_addr = 0, kh_lock = False, kh_errno = None\<rparr>"]
  by simp

lemma heap0_base: "kh_base_addr heap0 = 4096"
  by (simp add: heap0_def kh_init_def Let_def)

text \<open>
  C1: malloc is first fit on the list of blocks that the headers and tails describe: it takes the
  first free block that is large enough, splits it when the rest makes a block, returns the
  address of its data, and leaves every byte of the allocated blocks alone; without such a
  block it returns NULL with ENOMEM and changes nothing else.
\<close>

theorem malloc_refines:
  assumes "heap_inv s bs"
  shows "case abs_alloc (align_up64 n 16) bs of
      None \<Rightarrow> malloc n s = Some (0, s\<lparr>kh_errno := Some ENOMEM\<rparr>)
    | Some (off, bs') \<Rightarrow>
        \<exists>m'. malloc n s = Some (kh_base_addr s + off + 16, s\<lparr>hmem := m'\<rparr>) \<and>
             heap_inv (s\<lparr>hmem := m'\<rparr>) bs' \<and>
             (\<forall>a \<in> payload (kh_base_addr s) bs. m' a = hmem s a)"
  unfolding malloc_def KH_DEFAULT_ALIGN_def by (rule kh_alloc_refines [OF assms])

theorem malloc_refines_witness:
  "\<exists>m'. malloc 100 heap0 = Some (4112, heap0\<lparr>hmem := m'\<rparr>) \<and>
        heap_inv (heap0\<lparr>hmem := m'\<rparr>) [(112, True), (3920, False)]"
proof -
  have "align_up64 100 16 = 112" by (simp add: align_up64_16)
  then show ?thesis using malloc_refines [OF heap0_inv, of 100] heap0_base by auto
qed

text \<open>
  C5: Any sequence of malloc calls on a well-formed heap returns, and the blocks handed out do
  not overlap.
\<close>

theorem malloc_disjoint:
  assumes "kh_inv s" and "\<forall>n \<in> set ns. n \<le> 2 ^ 64 - 16"
  shows "\<exists>ps s'. alloc_many malloc ns s = Some (ps, s') \<and> kh_inv s' \<and> length ps = length ns \<and>
     (\<forall>i j. i < j \<longrightarrow> j < length ns \<longrightarrow> ps ! i \<noteq> 0 \<longrightarrow> ps ! j \<noteq> 0 \<longrightarrow>
        ps ! i + ns ! i \<le> ps ! j \<or> ps ! j + ns ! j \<le> ps ! i)"
  by (rule kh.alloc_many_disjoint [OF assms])

theorem malloc_disjoint_witness:
  "kh_inv heap0 \<and> (\<exists>ps s'. alloc_many malloc [100, 16, 5000] heap0 = Some (ps, s') \<and> kh_inv s' \<and> length ps = 3)"
proof -
  have inv: "kh_inv heap0" using heap0_inv unfolding kh_inv_def by blast
  with malloc_disjoint [OF inv, of "[100, 16, 5000]"] show ?thesis by auto
qed

text \<open>
  C4: kh_free of an allocated block returns with the block free and joined with the free blocks
  before and after it, the heap well formed and the data of all other blocks unchanged.
\<close>

theorem kh_free_spec:
  assumes "heap_inv s (xs @ (sz, True) # ys)"
  shows "\<exists>m'. kh_free (kh_base_addr s + span xs + 16) s = Some (s\<lparr>hmem := m'\<rparr>) \<and>
     heap_inv (s\<lparr>hmem := m'\<rparr>) (abs_free xs sz ys) \<and>
     (\<forall>a \<in> payload (kh_base_addr s) xs \<union> payload (kh_base_addr s + span xs + sz + 32) ys.
        m' a = hmem s a)"
  using kh_free_refines [OF assms] by (simp add: abs_free_payload)

lemma heap0_malloc:
  "\<exists>m'. malloc 100 heap0 = Some (4112, heap0\<lparr>hmem := m'\<rparr>) \<and>
        heap_inv (heap0\<lparr>hmem := m'\<rparr>) [(112, True), (3920, False)]"
proof -
  have "align_up64 100 16 = 112" by (simp add: align_up64_16)
  then show ?thesis using kh_alloc_refines [OF heap0_inv, of 100] heap0_base
    by (auto simp: malloc_def KH_DEFAULT_ALIGN_def)
qed

theorem kh_free_spec_witness:
  "\<exists>m m'. malloc 100 heap0 = Some (4112, heap0\<lparr>hmem := m\<rparr>) \<and>
     kh_free 4112 (heap0\<lparr>hmem := m\<rparr>) = Some (heap0\<lparr>hmem := m'\<rparr>) \<and>
     heap_inv (heap0\<lparr>hmem := m'\<rparr>) [(4064, False)]"
proof -
  obtain m where m: "malloc 100 heap0 = Some (4112, heap0\<lparr>hmem := m\<rparr>)"
      "heap_inv (heap0\<lparr>hmem := m\<rparr>) ([] @ (112, True) # [(3920, False)])" using heap0_malloc by auto
  from kh_free_spec [OF m(2)] m(1) heap0_base show ?thesis
    by (auto simp: abs_free_def absorb_prev_def absorb_next_def)
qed

fun coalesced :: "block_list \<Rightarrow> bool" where
  "coalesced (a # b # bs) = ((snd a \<or> snd b) \<and> coalesced (b # bs))"
| "coalesced bs = True"

lemma coalesced_mid:
  "coalesced (xs @ (f, False) # ys) \<Longrightarrow> (xs = [] \<or> snd (last xs)) \<and> (ys = [] \<or> snd (hd ys))"
proof (induction xs)
  case Nil
  then show ?case by (cases ys) auto
next
  case (Cons a xs)
  then show ?case by (cases xs; cases ys) auto
qed

lemma abs_free_alloc:
  assumes "coalesced bs" and "abs_alloc n bs = Some (off, bs')"
  shows "\<exists>xs sz ys. bs' = xs @ (sz, True) # ys \<and> off = span xs \<and> abs_free xs sz ys = bs"
proof -
  obtain xs f ys where d: "bs = xs @ (f, False) # ys" "off = span xs" "bs' = xs @ split_block n f @ ys" "n \<le> f"
    using abs_alloc_Some [OF assms(2)] by blast
  have c: "xs = [] \<or> snd (last xs)" "ys = [] \<or> snd (hd ys)" using coalesced_mid assms(1) d(1) by auto
  show ?thesis
  proof (cases "n + 64 \<le> f")
    case True
    then have "bs' = xs @ (n, True) # (f - n - 32, False) # ys" using d by simp
    moreover have "abs_free xs n ((f - n - 32, False) # ys) = bs"
      using c(1) d True by (simp add: abs_free_def absorb_prev_def absorb_next_def)
    ultimately show ?thesis using d(2) by blast
  next
    case False
    then have "bs' = xs @ (f, True) # ys" using d by simp
    moreover have "abs_free xs f ys = bs" using c d(1) by (auto simp: abs_free_def absorb_prev_def absorb_next_def)
    ultimately show ?thesis using d(2) by blast
  qed
qed

text \<open>
  On a heap without adjacent free blocks, malloc followed by free gives back exactly the
  list of blocks from before.
\<close>

theorem malloc_free_roundtrip:
  assumes "heap_inv s bs" and "coalesced bs" and "malloc n s = Some (p, s1)" and "p \<noteq> 0"
  shows "\<exists>s2. free p s1 = Some s2 \<and> heap_inv s2 bs \<and>
     (\<forall>a \<in> payload (kh_base_addr s) bs. hmem s2 a = hmem s a)"
proof -
  let ?n = "align_up64 n 16" and ?b = "kh_base_addr s"
  have al: "kh_alloc_aligned n 16 s = Some (p, s1)" using assms(3) by (simp add: malloc_def KH_DEFAULT_ALIGN_def)
  note ref = kh_alloc_refines [OF assms(1), of n]
  obtain off bs' where ab: "abs_alloc ?n bs = Some (off, bs')"
    using ref al assms(4) by (cases "abs_alloc ?n bs") auto
  have s1: "p = ?b + off + 16" "heap_inv s1 bs'" "kh_base_addr s1 = ?b" "\<And>a. a \<in> payload ?b bs \<Longrightarrow> hmem s1 a = hmem s a"
    using ref ab al by auto
  obtain xs sz ys where d: "bs' = xs @ (sz, True) # ys" "off = span xs" "abs_free xs sz ys = bs"
    using abs_free_alloc [OF assms(2) ab] by blast
  from kh_free_refines [OF s1(2) [unfolded d(1)]] d(2,3) s1(1,3,4) show ?thesis
    by (auto simp: free_def)
qed

theorem malloc_free_roundtrip_witness:
  "\<exists>p s1 s2. malloc 100 heap0 = Some (p, s1) \<and> p \<noteq> 0 \<and> free p s1 = Some s2 \<and> heap_inv s2 [(4064, False)]"
proof -
  obtain m' where m': "malloc 100 heap0 = Some (4112, heap0\<lparr>hmem := m'\<rparr>)" using heap0_malloc by blast
  with malloc_free_roundtrip [OF heap0_inv _ m'] show ?thesis by fastforce
qed

text \<open>
  C2: kh_realloc of an allocated block either fails with ENOMEM and changes nothing, or returns a
  block of at least the requested size that holds the old contents up to the smaller of
  the two sizes; every other block stays where it is with its contents (shrinking,
  growing into the next block and moving are all covered).
\<close>

theorem kh_realloc_spec:
  assumes "heap_inv s bs" and "block_at bs off sz" and "n + 16 \<le> 2 ^ 64"
  shows "\<exists>p s'. kh_realloc (kh_base_addr s + off + 16) n s = Some (p, s') \<and>
     (p = 0 \<and> s' = s\<lparr>kh_errno := Some ENOMEM\<rparr> \<or> resize_ok s bs off sz n p s')"
  by (rule kh_realloc_correct [OF assms])

theorem kh_realloc_spec_witness:
  "\<exists>m' p s'. heap_inv (heap0\<lparr>hmem := m'\<rparr>) [(112, True), (3920, False)] \<and>
     kh_realloc 4112 1000 (heap0\<lparr>hmem := m'\<rparr>) = Some (p, s') \<and>
     (p = 0 \<and> s' = heap0\<lparr>hmem := m', kh_errno := Some ENOMEM\<rparr> \<or>
      resize_ok (heap0\<lparr>hmem := m'\<rparr>) [(112, True), (3920, False)] 0 112 1000 p s')"
proof -
  obtain m' where m': "heap_inv (heap0\<lparr>hmem := m'\<rparr>) [(112, True), (3920, False)]"
    using heap0_malloc by blast
  from kh_realloc_spec [OF m', of 0 112 1000] heap0_base m' show ?thesis by auto
qed

text \<open>
  A request of more than 2^64 - 16 bytes wraps around to a request of zero bytes, which
  succeeds: the caller gets a block of size zero.
\<close>

theorem malloc_huge_wraps:
  assumes "heap_inv s ((sz, False) # bs)" and "64 \<le> sz" and "2 ^ 64 - 16 < n" and "n < 2 ^ 64"
  shows "\<exists>s'. malloc n s = Some (kh_base_addr s + 16, s') \<and> heap_inv s' ((0, True) # (sz - 32, False) # bs)"
proof -
  have w: "unat (word_of_nat n :: u64) = n" using assms(4) by (simp add: unsigned_of_nat take_bit_eq_mod)
  have "(n + 2 ^ 4 - 1) div 2 ^ 4 = 2 ^ 60" using assms(3,4) by simp
  then have "align_up64 n 16 = 0"
    using unat_ALIGN_UP [of 4 "word_of_nat n", unfolded w] by (simp add: align_up64_def)
  with kh_alloc_refines [OF assms(1), of n] assms(2) show ?thesis
    by (auto simp: malloc_def KH_DEFAULT_ALIGN_def)
qed

theorem malloc_huge_wraps_witness:
  "\<exists>s'. malloc (2 ^ 64 - 1) heap0 = Some (4112, s') \<and> heap_inv s' [(0, True), (4032, False)]"
  using malloc_huge_wraps [OF heap0_inv, of "2 ^ 64 - 1"] heap0_base by simp

text \<open>
  What the clients of malloc that fill the new block rely on: any change of the block keeps the
  heap well formed and all other blocks as they were.
\<close>

lemma malloc_then_write:
  assumes "kh_inv s" and "n \<le> 2 ^ 64 - 16"
  obtains p s1 where "malloc n s = Some (p, s1)" and "kh_inv s1"
    and "\<And>q sz i. kh_live s q sz \<Longrightarrow> i < sz \<Longrightarrow> hmem s1 (q + i) = hmem s (q + i)"
    and "\<And>q sz. p \<noteq> 0 \<Longrightarrow> kh_live s q sz \<Longrightarrow> q + sz \<le> p \<or> p + n \<le> q"
    and "\<And>m. p \<noteq> 0 \<Longrightarrow> (\<And>x. \<not> (p \<le> x \<and> x < p + n) \<Longrightarrow> m x = hmem s1 x) \<Longrightarrow>
           kh_inv (s1\<lparr>hmem := m\<rparr>) \<and> (\<exists>sz. kh_live (s1\<lparr>hmem := m\<rparr>) p sz \<and> n \<le> sz)"
proof -
  obtain p s1 where s1: "malloc n s = Some (p, s1)" "kh_inv s1"
     "p \<noteq> 0 \<Longrightarrow> (\<exists>sz. kh_live s1 p sz \<and> n \<le> sz) \<and> (\<forall>sz. \<not> kh_live s p sz)"
     "\<And>q sz. kh_live s q sz \<Longrightarrow> kh_live s1 q sz \<and> (\<forall>i < sz. hmem s1 (q + i) = hmem s (q + i))"
    using kh.alloc_ok [OF assms] by blast
  show ?thesis
  proof (rule that [OF s1(1,2)])
    show "hmem s1 (q + i) = hmem s (q + i)" if "kh_live s q sz" "i < sz" for q sz i using s1(4) that by blast
    show "q + sz \<le> p \<or> p + n \<le> q" if p: "p \<noteq> 0" and q: "kh_live s q sz" for q sz
    proof -
      obtain sz' where sz': "kh_live s1 p sz'" "n \<le> sz'" "q \<noteq> p" using s1(3) [OF p] q by blast
      then show ?thesis using kh.apart [OF s1(2) _ sz'(1), of q sz] s1(4) [OF q] by auto
    qed
    fix m assume p: "p \<noteq> 0" and m: "\<And>x. \<not> (p \<le> x \<and> x < p + n) \<Longrightarrow> m x = hmem s1 x"
    obtain sz where sz: "kh_live s1 p sz" "n \<le> sz" using s1(3) [OF p] by blast
    obtain bs off where bs: "heap_inv s1 bs" "block_at bs off sz" "p = kh_base_addr s1 + off + 16"
      using sz(1) unfolding kh_live_def by blast
    have "chain m (kh_base_addr s1) bs (kh_end_addr s1)"
    proof (rule chain_payload_write)
      show "chain (hmem s1) (kh_base_addr s1) bs (kh_end_addr s1)" using bs(1) by (simp add: heap_inv_def)
      show "m a = hmem s1 a" if "a \<notin> payload (kh_base_addr s1) bs" for a
      proof -
        have "a \<notin> {p..<p + sz}" using that block_at_payload [OF bs(2), of "kh_base_addr s1"] bs(3) by auto
        then show ?thesis using sz(2) by (intro m) auto
      qed
    qed
    then have "heap_inv (s1\<lparr>hmem := m\<rparr>) bs" using bs(1) by (simp add: heap_inv_def)
    then show "kh_inv (s1\<lparr>hmem := m\<rparr>) \<and> (\<exists>sz. kh_live (s1\<lparr>hmem := m\<rparr>) p sz \<and> n \<le> sz)"
      using bs(2,3) sz(2) unfolding kh_live_def kh_inv_def by auto
  qed
qed

text \<open>
  calloc returns zeroed memory of the size requested and does not touch other blocks, as long
  as the product of its arguments does not wrap around.
\<close>

theorem calloc_zeroed:
  assumes "kh_inv s" and "k * n \<le> 2 ^ 64 - 16"
  shows "\<exists>p s'. calloc k n s = Some (p, s') \<and> kh_inv s' \<and>
     (p \<noteq> 0 \<longrightarrow> (\<exists>sz. kh_live s' p sz \<and> k * n \<le> sz) \<and> (\<forall>i < k * n. hmem s' (p + i) = 0)) \<and>
     (\<forall>q sz. kh_live s q sz \<longrightarrow> (\<forall>i < sz. hmem s' (q + i) = hmem s (q + i)))"
proof -
  obtain p s1 where s1: "malloc (k * n) s = Some (p, s1)" "kh_inv s1"
    "\<And>q sz i. kh_live s q sz \<Longrightarrow> i < sz \<Longrightarrow> hmem s1 (q + i) = hmem s (q + i)"
    "\<And>q sz. p \<noteq> 0 \<Longrightarrow> kh_live s q sz \<Longrightarrow> q + sz \<le> p \<or> p + k * n \<le> q"
    "\<And>m. p \<noteq> 0 \<Longrightarrow> (\<And>x. \<not> (p \<le> x \<and> x < p + k * n) \<Longrightarrow> m x = hmem s1 x) \<Longrightarrow>
       kh_inv (s1\<lparr>hmem := m\<rparr>) \<and> (\<exists>sz. kh_live (s1\<lparr>hmem := m\<rparr>) p sz \<and> k * n \<le> sz)"
    by (rule malloc_then_write [OF assms]) blast
  have md: "k * n mod 2 ^ 64 = k * n" using assms(2) by simp
  show ?thesis
  proof (cases "p = 0")
    case True
    then show ?thesis using s1(1,2,3) md by (simp add: calloc_def)
  next
    case False
    define m where "m = fill_bytes (hmem s1) p (k * n) 0"
    have m: "m x = (if p \<le> x \<and> x < p + k * n then 0 else hmem s1 x)" for x by (simp add: m_def fill_bytes_spec)
    have inv: "kh_inv (s1\<lparr>hmem := m\<rparr>) \<and> (\<exists>sz. kh_live (s1\<lparr>hmem := m\<rparr>) p sz \<and> k * n \<le> sz)"
      by (rule s1(5) [OF False]) (auto simp: m)
    have old: "m (q + i) = hmem s (q + i)" if q: "kh_live s q sz" "i < sz" for q sz i
    proof -
      have "\<not> (p \<le> q + i \<and> q + i < p + k * n)" using s1(4) [OF False q(1)] q(2) by linarith
      then show ?thesis using m [of "q + i"] s1(3) [OF q] by (simp only: if_False)
    qed
    have run: "calloc k n s = Some (p, s1\<lparr>hmem := m\<rparr>)" using s1(1) md False by (simp add: calloc_def m_def)
    show ?thesis using run inv old m by auto
  qed
qed

theorem calloc_zeroed_witness:
  "\<exists>p s'. calloc 4 10 heap0 = Some (p, s') \<and> kh_inv s' \<and>
     (p \<noteq> 0 \<longrightarrow> (\<forall>i < 40. hmem s' (p + i) = 0))"
proof -
  have "kh_inv heap0" using heap0_inv unfolding kh_inv_def by blast
  from calloc_zeroed [OF this, of 4 10] show ?thesis by auto
qed

lemma load_copy_below: "a + k \<le> dst \<Longrightarrow> dst + n \<le> src \<or> src + n \<le> dst \<Longrightarrow>
   load_le (copy_bytes m dst src n) a k = load_le m a k"
  by (rule load_le_cong) (auto simp: copy_bytes_spec)

text \<open>
  When the first block of a fresh heap has to be aligned to 32 bytes, kh_alloc_aligned
  returns a pointer to the tail of the empty block it makes in front: a caller that clears
  the first word of its block makes every later malloc fail with EUCLEAN.
\<close>

theorem kh_alloc_aligned_first_block_overlap:
  assumes "32 dvd base" and "32 \<le> base" and "16 dvd n" and "256 \<le> n" and "base + n + 64 \<le> 2 ^ 64"
    and "\<not> kh_lock s"
  shows "\<exists>s'. kh_alloc_aligned 16 32 (kh_init base n s) = Some (base + 32, s') \<and>
     t_magic (hmem s') (base + 32) = KH_TAIL_MAGIC \<and>
     malloc 1 (s'\<lparr>hmem := store_le (hmem s') (base + 32) 4 0\<rparr>) =
       Some (0, s'\<lparr>hmem := store_le (hmem s') (base + 32) 4 0, kh_errno := Some EUCLEAN\<rparr>)"
proof -
  obtain r where r: "n = r + 256" using assms(4) by (metis add.commute le_Suc_ex)
  obtain q where q: "base = 32 * q" using assms(1) by blast
  define m where "m = hmem (kh_init base n s)"
  have inv: "heap_inv (kh_init base n s) [(r + 224, False)]"
  proof -
    have "16 dvd base" "16 \<le> base" "32 \<le> n" using q r assms(2) by simp_all
    from kh_init_refines [OF this(1,2) assms(3) this(3) assms(5,6)] r show ?thesis by (simp add: add.commute)
  qed
  then have b: "blk m base (r + 224) False" and ke: "kh_end_addr (kh_init base n s) = base + r + 256"
    and kb: "kh_base_addr (kh_init base n s) = base" and lk: "\<not> kh_lock (kh_init base n s)"
    by (auto simp: heap_inv_def m_def kh_init_def Let_def)
  have up: "align_up64 (base + 16) 32 = base + 32"
    using align_up64_exact [of "base + 16" 5] assms(5) q r by simp
  define t where "t = base + r + 240"
  have search: "kh_search m (base + r + 256) 16 32 base = Some (Inr (base, t, base + 32))"
    using b up assms(5) r by (subst kh_search.simps)
      (simp add: blk_def kh_sizes Let_def t_def flag_alloc_def ac_simps)
  define ma where "ma = copy_bytes m (base + 48) base 16"
  define mb where "mb = set_h_size (base + 48) (sub64 (h_size ma (base + 48)) 48) ma"
  define mc where "mc = make_tail (base + 32) base (make_header base 0 16 mb)"
  define md where "md = set_t_header t (base + 48) mc"
  have carve: "kh_carve base 32 base t (base + 32) m = (base + 48, md)"
  proof -
    have 1: "sub64 (base + 32) 16 = base + 16" "sub64 (base + 16) base = 16" "add64 (base + 16) 32 = base + 48"
      "sub64 base 16 = base - 16" "base - 16 < base"
      using assms(2,5) r by simp_all
    have 2: "h_size (make_header base 0 16 mb) base = 16" by (simp add: kh_loads kh_stores)
    show ?thesis using 1 2 assms(5) r
      by (simp add: kh_carve_def kh_sizes Let_def ma_def [symmetric] mb_def [symmetric] mc_def md_def ac_simps)
  qed
  define me where "me = kh_split 16 (base + 48) t md"
  define mf where "mf = set_h_flags (base + 48) (h_flags me (base + 48) OR KH_FLAG_ALLOC) me"
  have up16: "align_up64 16 16 = 16" "align_up64 1 16 = 16" by (simp_all add: align_up64_16)
  have p2: "IS_P2 32" "IS_P2 16" using IS_P2_exp [of 5] IS_P2_exp [of 4] by simp_all
  have low: "load_le mf a k = load_le mc a k" if "a + k \<le> base + 48" for a k
    using that r assms(5)
    by (simp add: mf_def me_def md_def kh_split_def kh_sizes Let_def kh_stores t_def)
  define s' where "s' = (kh_init base n s)\<lparr>hmem := mf\<rparr>"
  have run: "kh_alloc_aligned 16 32 (kh_init base n s) = Some (base + 32, s')"
    using lk ke kb search carve p2 up16 unfolding m_def
    by (simp add: kh_alloc_aligned_def KH_DEFAULT_ALIGN_def spinlock_acquire_def spinlock_release_def Let_def
        s'_def mf_def me_def)
  have ld: "h_magic mf base = KH_HEADER_MAGIC" "h_size mf base = 16" "t_magic mf (base + 32) = KH_TAIL_MAGIC"
    unfolding kh_loads using low by (simp_all add: mc_def kh_stores kh_consts)
  define m' where "m' = store_le mf (base + 32) 4 0"
  have "h_magic m' base = KH_HEADER_MAGIC" "h_size m' base = 16" "t_magic m' (base + 32) = 0"
    using ld by (simp_all add: m'_def kh_loads)
  then have "kh_search m' (base + r + 256) 16 16 base = Some (Inl EUCLEAN)"
    using assms(5) r by (subst kh_search.simps) (simp add: kh_sizes Let_def KH_TAIL_MAGIC_def ac_simps)
  then have "malloc 1 (s'\<lparr>hmem := m'\<rparr>) = Some (0, s'\<lparr>hmem := m', kh_errno := Some EUCLEAN\<rparr>)"
    using lk ke kb p2 up16 by (simp add: malloc_def kh_alloc_aligned_def KH_DEFAULT_ALIGN_def
        spinlock_acquire_def spinlock_release_def s'_def)
  with run ld(3) show ?thesis by (simp add: s'_def m'_def)
qed

theorem kh_alloc_aligned_first_block_overlap_witness:
  "\<exists>s'. kh_alloc_aligned 16 32 heap0 = Some (4128, s') \<and> t_magic (hmem s') 4128 = KH_TAIL_MAGIC"
  unfolding heap0_def
  using kh_alloc_aligned_first_block_overlap [of 4096 4096
    "\<lparr>hmem = (\<lambda>_. 0), kh_base_addr = 0, kh_end_addr = 0, kh_lock = False, kh_errno = None\<rparr>"] by auto

end
