(* ===== verification/Pml_Pid.thy ===== *)
theory Pml_Pid
  imports Pml_Bitmap Pml_Map_Spec
begin

text \<open>
  kernel/pid.c, first part: the allocator of process and thread numbers (a growing bitmap
  with a search start) and the table from process numbers to process structures. The
  bitmap operations are used through the bitmap interface and the table through the
  interface of the integer hash maps.
\<close>

section \<open>State and operations\<close>

definition PID_BITMAP_INCREMENT :: nat where "PID_BITMAP_INCREMENT = 1024"
definition PID_BITMAP_SIZE_LIMIT :: nat where "PID_BITMAP_SIZE_LIMIT = 32768"

record pid_state =
  pid_bitmap :: "u8 list"
  next_pid :: nat
  pid_bitmap_size :: nat
  pid_bitmap_lock :: bool
  pid_errno :: "errno option"

definition pid_lock_acquire :: "pid_state \<Rightarrow> pid_state option" where
  "pid_lock_acquire s = (if pid_bitmap_lock s then None else Some (s\<lparr>pid_bitmap_lock := True\<rparr>))"

definition init_pid_allocator :: "pid_state option" where
  "init_pid_allocator =
     map_option (\<lambda>bm. \<lparr>pid_bitmap = bm, next_pid = 1, pid_bitmap_size = PID_BITMAP_INCREMENT,
                       pid_bitmap_lock = False, pid_errno = None\<rparr>)
       (set_bit_bm (replicate PID_BITMAP_INCREMENT 0) 0)"

text \<open>
  The inner search loop from index \<open>n\<close> over \<open>k\<close> bits: \<open>None\<close> for an access outside of the
  bitmap, \<open>Some None\<close> when all bits are set.
\<close>

fun pid_scan :: "u8 list \<Rightarrow> nat \<Rightarrow> nat \<Rightarrow> nat option option" where
  "pid_scan bm n 0 = Some None"
| "pid_scan bm n (Suc k) =
     (case test_bit_bm bm n of
        None \<Rightarrow> None
      | Some True \<Rightarrow> pid_scan bm (Suc n) k
      | Some False \<Rightarrow> Some (Some n))"

text \<open>
  \<open>grow_bitmap\<close> is the bitmap after realloc and memset: the old bytes, what the memory held
  between them and the cleared part (\<open>junk\<close>, nothing when the size recorded is that of the
  bitmap), and the cleared part.
\<close>

definition grow_bitmap :: "(nat \<Rightarrow> u8) \<Rightarrow> u8 list \<Rightarrow> nat \<Rightarrow> u8 list" where
  "grow_bitmap junk bm sz =
     bm @ map junk [length bm..<sz - PID_BITMAP_INCREMENT] @ replicate PID_BITMAP_INCREMENT 0"

function alloc_pid_loop ::
    "(nat \<Rightarrow> u8) \<Rightarrow> alloc_outcomes \<Rightarrow> pid_state
     \<Rightarrow> (int \<times> pid_state \<times> alloc_outcomes) option" where
  "alloc_pid_loop junk al s =
     (if pid_bitmap_size s < PID_BITMAP_SIZE_LIMIT
      then case pid_scan (pid_bitmap s) (next_pid s) (pid_bitmap_size s * 8 - next_pid s) of
             None \<Rightarrow> None
           | Some (Some pid) \<Rightarrow>
               map_option (\<lambda>bm. (int pid, s\<lparr>pid_bitmap := bm, next_pid := pid + 1,
                                            pid_bitmap_lock := False\<rparr>, al))
                 (set_bit_bm (pid_bitmap s) pid)
           | Some None \<Rightarrow>
               (let s = s\<lparr>next_pid := max (next_pid s) (pid_bitmap_size s * 8),
                          pid_bitmap_size := pid_bitmap_size s + PID_BITMAP_INCREMENT\<rparr>;
                    (ok, al) = take_alloc al
                in if \<not> ok then Some (-1, s\<lparr>pid_bitmap_lock := False\<rparr>, al)
                   else alloc_pid_loop junk al
                     (s\<lparr>pid_bitmap := grow_bitmap junk (pid_bitmap s) (pid_bitmap_size s)\<rparr>))
      else Some (-1, s\<lparr>pid_bitmap_lock := False, pid_errno := Some ENOMEM\<rparr>, al))"
  by pat_completeness auto
termination
  by (relation "measure (\<lambda>(junk, al, s). PID_BITMAP_SIZE_LIMIT - pid_bitmap_size s)")
     (auto simp: PID_BITMAP_INCREMENT_def PID_BITMAP_SIZE_LIMIT_def)

declare alloc_pid_loop.simps [simp del]

definition alloc_pid ::
    "(nat \<Rightarrow> u8) \<Rightarrow> alloc_outcomes \<Rightarrow> pid_state \<Rightarrow> (int \<times> pid_state \<times> alloc_outcomes) option" where
  "alloc_pid junk al s =
     (case pid_lock_acquire s of None \<Rightarrow> None | Some s \<Rightarrow> alloc_pid_loop junk al s)"

definition free_pid :: "int \<Rightarrow> pid_state \<Rightarrow> pid_state option" where
  "free_pid pid s =
     (if pid < 0 then Some s
      else case pid_lock_acquire s of
             None \<Rightarrow> None
           | Some s \<Rightarrow>
               (case clear_bit_bm (pid_bitmap s) (nat pid) of
                  None \<Rightarrow> None
                | Some bm \<Rightarrow>
                    Some (s\<lparr>pid_bitmap := bm,
                            next_pid := (if nat pid < next_pid s then nat pid else next_pid s),
                            pid_bitmap_lock := False\<rparr>)))"

text \<open>
  The table of processes: the map's key is the hash of the number, and the map hashes that
  key once more. \<open>None\<close> stands for a panic or a use of a freed entry.
\<close>

definition pid_key :: "int \<Rightarrow> u64" where
  "pid_key pid = siphash (uint_bytes (word_of_int pid)) 0"

definition map_pid_process ::
    "alloc_outcomes \<Rightarrow> 'p hashmap \<Rightarrow> int \<Rightarrow> 'p \<Rightarrow> ('p hashmap \<times> alloc_outcomes) option" where
  "map_pid_process al m pid p =
     (case hashmap_insert al m (pid_key pid) p of
        None \<Rightarrow> None
      | Some (r, m', al') \<Rightarrow> if r \<noteq> 0 then None else Some (m', al'))"

definition unmap_pid :: "'p hashmap \<Rightarrow> int \<Rightarrow> 'p hashmap option" where
  "unmap_pid m pid = map_option snd (hashmap_remove m (pid_key pid))"

definition lookup_pid :: "'p hashmap \<Rightarrow> int \<Rightarrow> 'p option option" where
  "lookup_pid m pid = hashmap_lookup m (pid_key pid)"

section \<open>The allocator hands out the least free number\<close>

definition pids :: "pid_state \<Rightarrow> nat set" where
  "pids s = bm_ones (pid_bitmap s)"

text \<open>Every number below the search start is in use, and the bitmap has the size recorded.\<close>

definition pid_inv :: "pid_state \<Rightarrow> bool" where
  "pid_inv s = (length (pid_bitmap s) = pid_bitmap_size s \<and> PID_BITMAP_INCREMENT dvd pid_bitmap_size s \<and>
     next_pid s \<le> 8 * pid_bitmap_size s \<and> {..<next_pid s} \<subseteq> pids s \<and> \<not> pid_bitmap_lock s)"

lemma pid_scan_first_clear:
  "n + k \<le> bm_cap bm \<Longrightarrow> pid_scan bm n k = Some (first_clear (bm_ones bm) n k)"
proof (induction k arbitrary: n)
  case (Suc k)
  then have "test_bit_bm bm n = Some (n \<in> bm_ones bm)" using bm.test_in [of n bm] by simp
  with Suc show ?case by auto
qed simp

lemma alloc_pid_loop_found:
  assumes "length (pid_bitmap s) = pid_bitmap_size s" "pid_bitmap_size s < PID_BITMAP_SIZE_LIMIT"
    and "first_clear (pids s) (next_pid s) (pid_bitmap_size s * 8 - next_pid s) = Some p"
    and "next_pid s \<le> 8 * pid_bitmap_size s"
  shows "\<exists>bm. set_bit_bm (pid_bitmap s) p = Some bm \<and>
     alloc_pid_loop junk al s = Some (int p, s\<lparr>pid_bitmap := bm, next_pid := p + 1, pid_bitmap_lock := False\<rparr>, al)"
proof -
  have "pid_scan (pid_bitmap s) (next_pid s) (pid_bitmap_size s * 8 - next_pid s) = Some (Some p)"
    using pid_scan_first_clear [of "next_pid s" _ "pid_bitmap s"] assms by (simp add: pids_def)
  moreover have "p < bm_cap (pid_bitmap s)" using assms first_clear_Some by (metis add_diff_inverse_nat linorder_not_less mult.commute)
  then obtain bm where "set_bit_bm (pid_bitmap s) p = Some bm" using bm.set_in by blast
  ultimately show ?thesis using assms(2) by (subst alloc_pid_loop.simps) simp
qed

lemma alloc_pid_loop_full:
  assumes "length (pid_bitmap s) = pid_bitmap_size s" "pid_bitmap_size s < PID_BITMAP_SIZE_LIMIT"
    and "{next_pid s..<8 * pid_bitmap_size s} \<subseteq> pids s" and "next_pid s \<le> 8 * pid_bitmap_size s"
  shows "alloc_pid_loop junk [] s = alloc_pid_loop junk []
     (s\<lparr>next_pid := 8 * pid_bitmap_size s, pid_bitmap_size := pid_bitmap_size s + PID_BITMAP_INCREMENT,
        pid_bitmap := pid_bitmap s @ replicate PID_BITMAP_INCREMENT 0\<rparr>)"
proof -
  have "first_clear (pids s) (next_pid s) (pid_bitmap_size s * 8 - next_pid s) = None"
    using assms by (simp add: first_clear_None mult.commute)
  then have "pid_scan (pid_bitmap s) (next_pid s) (pid_bitmap_size s * 8 - next_pid s) = Some None"
    using pid_scan_first_clear [of "next_pid s" _ "pid_bitmap s"] assms by (simp add: pids_def)
  moreover have "max (next_pid s) (pid_bitmap_size s * 8) = 8 * pid_bitmap_size s"
    using assms(4) by (simp add: max_def)
  ultimately show ?thesis using assms(1,2) by (subst alloc_pid_loop.simps) (simp add: grow_bitmap_def)
qed

lemma alloc_pid_loop_limit:
  "PID_BITMAP_SIZE_LIMIT \<le> pid_bitmap_size s \<Longrightarrow>
   alloc_pid_loop junk al s = Some (-1, s\<lparr>pid_bitmap_lock := False, pid_errno := Some ENOMEM\<rparr>, al)"
  by (subst alloc_pid_loop.simps) simp

lemma free_pid_ok:
  assumes inv: "pid_inv s" and p: "p < 8 * pid_bitmap_size s"
  shows "\<exists>s'. free_pid (int p) s = Some s' \<and> pids s' = pids s - {p} \<and> pid_inv s' \<and>
    pid_bitmap_size s' = pid_bitmap_size s"
proof -
  have len: "p < bm_cap (pid_bitmap s)" using inv p by (simp add: pid_inv_def)
  then obtain bm where bm: "clear_bit_bm (pid_bitmap s) p = Some bm" "bm_ones bm = pids s - {p}"
      "length bm = length (pid_bitmap s)" using bm.clear_in [of p "pid_bitmap s"] by (auto simp: pids_def)
  let ?n = "if p < next_pid s then p else next_pid s"
  let ?s = "s\<lparr>pid_bitmap := bm, next_pid := ?n, pid_bitmap_lock := False\<rparr>"
  have "free_pid (int p) s = Some ?s"
    using inv bm(1) by (simp add: free_pid_def pid_lock_acquire_def pid_inv_def)
  moreover have "{..<?n} \<subseteq> pids s - {p}" using inv by (auto simp: pid_inv_def subset_eq)
  then have "pid_inv ?s" using inv bm p by (auto simp: pid_inv_def pids_def)
  ultimately show ?thesis using bm(2) by (simp add: pids_def)
qed

lemma pid_init_ok: "\<exists>s. init_pid_allocator = Some s \<and> pid_inv s \<and> pids s = {0}"
proof -
  have "0 < bm_cap (replicate PID_BITMAP_INCREMENT 0)" by (simp add: PID_BITMAP_INCREMENT_def)
  then obtain bm where "set_bit_bm (replicate PID_BITMAP_INCREMENT 0) 0 = Some bm"
      "bm_ones bm = {0}" "length bm = PID_BITMAP_INCREMENT"
    using bm.set_in [of 0 "replicate PID_BITMAP_INCREMENT 0"] by (auto simp: bm_ones_zeros)
  then show ?thesis
    by (auto simp: init_pid_allocator_def pid_inv_def pids_def PID_BITMAP_INCREMENT_def)
qed

section \<open>Reachable states\<close>

text \<open>
  The states the allocator can get into from its initialization, by allocations with memory
  available and by freeing numbers inside the bitmap.
\<close>

inductive pid_reachable :: "pid_state \<Rightarrow> bool" where
  reach_init: "init_pid_allocator = Some s \<Longrightarrow> pid_reachable s"
| reach_alloc: "pid_reachable s \<Longrightarrow> alloc_pid junk [] s = Some (r, s', al) \<Longrightarrow> pid_reachable s'"
| reach_free: "pid_reachable s \<Longrightarrow> p < 8 * pid_bitmap_size s \<Longrightarrow> free_pid (int p) s = Some s' \<Longrightarrow>
    pid_reachable s'"

inductive_cases pid_reachable_elim: "pid_reachable s"

text \<open>The two outcomes of an allocation with memory available.\<close>

definition pid_outcome :: "pid_state \<Rightarrow> int \<Rightarrow> pid_state \<Rightarrow> bool" where
  "pid_outcome s r s' =
     (if r = -1 then pids s' = pids s \<and> PID_BITMAP_SIZE_LIMIT \<le> pid_bitmap_size s + PID_BITMAP_INCREMENT
      else 0 \<le> r \<and> nat r \<notin> pids s \<and> {..<nat r} \<subseteq> pids s \<and> pids s' = insert (nat r) (pids s))"

lemma alloc_pid_loop_takes:
  assumes t: "length (pid_bitmap t) = pid_bitmap_size t" "PID_BITMAP_INCREMENT dvd pid_bitmap_size t"
      "next_pid t \<le> 8 * pid_bitmap_size t" "{..<next_pid t} \<subseteq> pids t"
      "pid_bitmap_size t < PID_BITMAP_SIZE_LIMIT"
    and p: "first_clear (pids t) (next_pid t) (pid_bitmap_size t * 8 - next_pid t) = Some p"
  shows "\<exists>s'. alloc_pid_loop junk al t = Some (int p, s', al) \<and> pid_inv s' \<and> pid_outcome t (int p) s'"
proof -
  let ?n = "next_pid t"
  obtain bm where bm: "set_bit_bm (pid_bitmap t) p = Some bm"
    "alloc_pid_loop junk al t = Some (int p, t\<lparr>pid_bitmap := bm, next_pid := p + 1, pid_bitmap_lock := False\<rparr>, al)"
    using alloc_pid_loop_found [OF t(1,5) p t(3)] by blast
  have o: "p < bm_cap (pid_bitmap t)" "bm_ones bm = insert p (pids t)" "length bm = length (pid_bitmap t)"
    using bm.set_SomeD [OF bm(1)] by (simp_all add: pids_def)
  have fc: "?n \<le> p" "p \<notin> pids t" "{?n..<p} \<subseteq> pids t" using p by (simp_all add: first_clear_Some)
  have "{..<p} = {..<?n} \<union> {?n..<p}" using fc(1) by auto
  then have below: "{..<p} \<subseteq> pids t" using t(4) fc(3) by simp
  have "{..<p + 1} = insert p {..<p}" by auto
  then have "{..<p + 1} \<subseteq> insert p (pids t)" using below by blast
  then have "pid_inv (t\<lparr>pid_bitmap := bm, next_pid := p + 1, pid_bitmap_lock := False\<rparr>)"
    using o t(1,2) by (simp add: pid_inv_def pids_def)
  moreover have "pid_outcome t (int p) (t\<lparr>pid_bitmap := bm, next_pid := p + 1, pid_bitmap_lock := False\<rparr>)"
    using below fc(2) o(2) by (simp add: pid_outcome_def pids_def)
  ultimately show ?thesis using bm(2) by blast
qed

lemma alloc_pid_loop_ok:
  assumes t: "length (pid_bitmap t) = pid_bitmap_size t" "PID_BITMAP_INCREMENT dvd pid_bitmap_size t"
      "next_pid t \<le> 8 * pid_bitmap_size t" "{..<next_pid t} \<subseteq> pids t"
  shows "\<exists>r s' al'. alloc_pid_loop junk [] t = Some (r, s', al') \<and> pid_inv s' \<and> pid_outcome t r s'"
proof (cases "PID_BITMAP_SIZE_LIMIT \<le> pid_bitmap_size t")
  case True
  let ?s = "t\<lparr>pid_bitmap_lock := False, pid_errno := Some ENOMEM\<rparr>"
  have "pid_inv ?s" "pid_outcome t (-1) ?s" using t True by (simp_all add: pid_inv_def pid_outcome_def pids_def)
  then show ?thesis using alloc_pid_loop_limit [OF True] by blast
next
  case small: False
  let ?sz = "pid_bitmap_size t" and ?n = "next_pid t"
  show ?thesis
  proof (cases "first_clear (pids t) ?n (?sz * 8 - ?n)")
    case (Some p)
    with alloc_pid_loop_takes [OF t _ Some] small show ?thesis by force
  next
    case None
    then have full: "{?n..<8 * ?sz} \<subseteq> pids t" using t(3) by (simp add: first_clear_None mult.commute)
    let ?t = "t\<lparr>next_pid := 8 * ?sz, pid_bitmap_size := ?sz + PID_BITMAP_INCREMENT,
        pid_bitmap := pid_bitmap t @ replicate PID_BITMAP_INCREMENT 0\<rparr>"
    have run: "alloc_pid_loop junk [] t = alloc_pid_loop junk [] ?t"
      using alloc_pid_loop_full [OF t(1) _ full t(3)] small by simp
    have pt: "pids ?t = pids t" by (simp add: pids_def bm_ones_append_zeros)
    have "{..<8 * ?sz} = {..<?n} \<union> {?n..<8 * ?sz}" using t(3) by auto
    then have all: "{..<8 * ?sz} \<subseteq> pids t" using t(4) full by simp
    have new: "8 * ?sz \<notin> pids t" using bm.ones_bound [of "pid_bitmap t"] t(1) by (auto simp: pids_def)
    have t': "length (pid_bitmap ?t) = pid_bitmap_size ?t" "PID_BITMAP_INCREMENT dvd pid_bitmap_size ?t"
      "next_pid ?t \<le> 8 * pid_bitmap_size ?t" "{..<next_pid ?t} \<subseteq> pids ?t"
      using t(1,2) all pt by simp_all
    show ?thesis
    proof (cases "PID_BITMAP_SIZE_LIMIT \<le> pid_bitmap_size ?t")
      case True
      let ?s = "?t\<lparr>pid_bitmap_lock := False, pid_errno := Some ENOMEM\<rparr>"
      have "pids ?s = pids ?t" by (simp add: pids_def)
      then have "pid_inv ?s" "pid_outcome t (-1) ?s" using t' pt True by (simp_all add: pid_inv_def pid_outcome_def)
      then show ?thesis unfolding run using alloc_pid_loop_limit [OF True] by blast
    next
      case False
      have "first_clear (pids ?t) (next_pid ?t) (pid_bitmap_size ?t * 8 - next_pid ?t) = Some (8 * ?sz)"
        unfolding pt using new by (simp add: first_clear_Some PID_BITMAP_INCREMENT_def)
      moreover have "pid_bitmap_size ?t < PID_BITMAP_SIZE_LIMIT" using False by (rule not_le_imp_less)
      ultimately obtain s' where s': "alloc_pid_loop junk [] ?t = Some (int (8 * ?sz), s', [])" "pid_inv s'"
          "pid_outcome ?t (int (8 * ?sz)) s'"
        using alloc_pid_loop_takes [OF t', of "8 * ?sz" junk "[]"] by blast
      from s'(3) have "pid_outcome t (int (8 * ?sz)) s'" unfolding pid_outcome_def pt by simp
      with s' show ?thesis unfolding run by blast
    qed
  qed
qed

lemma alloc_pid_ok:
  assumes "pid_inv s"
  shows "\<exists>r s' al'. alloc_pid junk [] s = Some (r, s', al') \<and> pid_inv s' \<and> pid_outcome s r s'"
proof -
  let ?l = "s\<lparr>pid_bitmap_lock := True\<rparr>"
  have pl: "pids ?l = pids s" by (simp add: pids_def)
  have "alloc_pid junk [] s = alloc_pid_loop junk [] ?l"
    using assms by (simp add: alloc_pid_def pid_lock_acquire_def pid_inv_def)
  moreover have "\<exists>r s' al'. alloc_pid_loop junk [] ?l = Some (r, s', al') \<and> pid_inv s' \<and> pid_outcome ?l r s'"
    by (rule alloc_pid_loop_ok) (use assms pl in \<open>simp_all add: pid_inv_def\<close>)
  moreover have "pid_outcome ?l r s' = pid_outcome s r s'" for r s' by (simp add: pid_outcome_def pl)
  ultimately show ?thesis by simp
qed

lemma pid_reachable_inv: "pid_reachable s \<Longrightarrow> pid_inv s"
proof (induction rule: pid_reachable.induct)
  case (reach_init s)
  obtain s0 where "init_pid_allocator = Some s0" "pid_inv s0" using pid_init_ok by blast
  with reach_init show ?case by (metis option.inject)
next
  case (reach_alloc s junk r s' al)
  then show ?case using alloc_pid_ok [of s junk] by auto
next
  case (reach_free s p s')
  then show ?case using free_pid_ok [of s p] by auto
qed


section \<open>Properties of the process numbers\<close>

text \<open>
  C36: In every reachable state of the allocator an allocation with memory available returns
  either the least number not in use, which is then in use and the only change, or -1, and
  the latter only once the bitmap cannot grow any more.
\<close>

theorem alloc_pid_least:
  assumes "pid_reachable s"
  shows "\<exists>r s' al'. alloc_pid junk [] s = Some (r, s', al') \<and> pid_outcome s r s'"
  using alloc_pid_ok [OF pid_reachable_inv [OF assms]] by blast

theorem alloc_pid_least_witness:
  "\<exists>s r s' al'. init_pid_allocator = Some s \<and> alloc_pid (\<lambda>_. 0) [] s = Some (r, s', al') \<and> pid_outcome s r s'"
proof -
  obtain s where s: "init_pid_allocator = Some s" using pid_init_ok by blast
  then show ?thesis using alloc_pid_least [OF reach_init [OF s]] by blast
qed

text \<open>
  Freeing a number makes it available again and nothing else: the allocator stays well
  formed, and the next allocation returns a number that is not larger, as long as the
  bitmap has not reached its limit.
\<close>

theorem free_pid_reusable:
  assumes "pid_inv s" and "p < 8 * pid_bitmap_size s"
    and "pid_bitmap_size s + PID_BITMAP_INCREMENT < PID_BITMAP_SIZE_LIMIT"
  shows "\<exists>s1 r s2 al. free_pid (int p) s = Some s1 \<and> pids s1 = pids s - {p} \<and>
     alloc_pid junk [] s1 = Some (r, s2, al) \<and> 0 \<le> r \<and> r \<le> int p"
proof -
  obtain s1 where s1: "free_pid (int p) s = Some s1" "pids s1 = pids s - {p}" "pid_inv s1"
      "pid_bitmap_size s1 = pid_bitmap_size s" using free_pid_ok [OF assms(1,2)] by blast
  obtain r s2 al where r: "alloc_pid junk [] s1 = Some (r, s2, al)" "pid_outcome s1 r s2"
    using alloc_pid_ok [OF s1(3)] by blast
  have "r \<noteq> -1" using r(2) s1(4) assms(3) by (auto simp: pid_outcome_def)
  then have r0: "0 \<le> r" "{..<nat r} \<subseteq> pids s1" using r(2) by (simp_all add: pid_outcome_def)
  have "\<not> p < nat r" using r0(2) s1(2) by (auto simp: subset_eq)
  with r0(1) have "r \<le> int p" by linarith
  with s1 r r0 show ?thesis by blast
qed

definition pid_all_used :: "nat \<Rightarrow> pid_state" where
  "pid_all_used n = \<lparr>pid_bitmap = replicate n 255, next_pid = 0, pid_bitmap_size = n,
     pid_bitmap_lock = False, pid_errno = None\<rparr>"

lemma pids_all_used: "pids (pid_all_used n) = {..<8 * n}"
proof -
  have "bit (replicate n (255 :: u8) ! (i div 8)) (i mod 8)" if "i div 8 < n" for i
    unfolding nth_replicate [OF that] by (rule bit_255) simp
  then show ?thesis by (auto simp: pids_def pid_all_used_def bm_ones_def div8_less)
qed

lemma pid_all_used_inv: "1024 dvd n \<Longrightarrow> pid_inv (pid_all_used n)"
  by (simp add: pid_inv_def pid_all_used_def PID_BITMAP_INCREMENT_def)

theorem free_pid_reusable_witness:
  "\<exists>s1 r s2 al. free_pid 7 (pid_all_used 1024) = Some s1 \<and> pids s1 = {..<8192} - {7} \<and>
     alloc_pid (\<lambda>_. 0) [] s1 = Some (r, s2, al) \<and> 0 \<le> r \<and> r \<le> 7"
proof -
  have "pid_bitmap_size (pid_all_used 1024) = 1024" by (simp add: pid_all_used_def)
  then show ?thesis
    using free_pid_reusable [of "pid_all_used 1024" 7 "\<lambda>_. 0"] pid_all_used_inv [of 1024] pids_all_used [of 1024]
    by (simp add: PID_BITMAP_INCREMENT_def PID_BITMAP_SIZE_LIMIT_def)
qed

text \<open>
  Once the bitmap has reached its limit, allocation fails for ever: even directly after a
  number has been freed alloc_pid returns -1 with ENOMEM.
\<close>

theorem alloc_pid_exhausted:
  assumes "pid_inv s" and "PID_BITMAP_SIZE_LIMIT \<le> pid_bitmap_size s" and "p < 8 * pid_bitmap_size s"
  shows "\<exists>s1 s2. free_pid (int p) s = Some s1 \<and> p \<notin> pids s1 \<and>
     alloc_pid junk al s1 = Some (-1, s2, al) \<and> pid_errno s2 = Some ENOMEM"
proof -
  obtain s1 where s1: "free_pid (int p) s = Some s1" "pids s1 = pids s - {p}" "pid_inv s1"
      "pid_bitmap_size s1 = pid_bitmap_size s" using free_pid_ok [OF assms(1,3)] by blast
  have "alloc_pid junk al s1 = alloc_pid_loop junk al (s1\<lparr>pid_bitmap_lock := True\<rparr>)"
    using s1(3) by (simp add: alloc_pid_def pid_lock_acquire_def pid_inv_def)
  with s1 assms(2) alloc_pid_loop_limit [of "s1\<lparr>pid_bitmap_lock := True\<rparr>"] show ?thesis by auto
qed

theorem alloc_pid_exhausted_witness:
  "\<exists>s1 s2. free_pid 9 (pid_all_used 32768) = Some s1 \<and> 9 \<notin> pids s1 \<and>
     alloc_pid (\<lambda>_. 0) [] s1 = Some (-1, s2, []) \<and> pid_errno s2 = Some ENOMEM"
proof -
  have "pid_bitmap_size (pid_all_used 32768) = 32768" by (simp add: pid_all_used_def)
  then show ?thesis
    using alloc_pid_exhausted [of "pid_all_used 32768" 9 "\<lambda>_. 0" "[]"] pid_all_used_inv [of 32768]
    by (simp add: PID_BITMAP_SIZE_LIMIT_def)
qed

text \<open>
  When the bitmap is full and realloc fails, alloc_pid records the larger size all the
  same; the next allocation reads past the end of the bitmap.
\<close>

theorem alloc_pid_realloc_failure:
  assumes "pid_inv s" and "{..<8 * pid_bitmap_size s} \<subseteq> pids s"
    and "pid_bitmap_size s + PID_BITMAP_INCREMENT < PID_BITMAP_SIZE_LIMIT"
  shows "\<exists>s'. alloc_pid junk [False] s = Some (-1, s', []) \<and> alloc_pid junk al s' = None"
proof -
  let ?sz = "pid_bitmap_size s" and ?n = "next_pid s"
  let ?s = "s\<lparr>pid_bitmap_lock := False, next_pid := 8 * ?sz, pid_bitmap_size := ?sz + PID_BITMAP_INCREMENT\<rparr>"
  have inv: "length (pid_bitmap s) = ?sz" "?n \<le> 8 * ?sz" "\<not> pid_bitmap_lock s"
    using assms(1) by (simp_all add: pid_inv_def)
  have "first_clear (pids s) ?n (?sz * 8 - ?n) = None"
    using assms(2) inv(2) by (auto simp: first_clear_None subset_eq mult.commute)
  then have "pid_scan (pid_bitmap s) ?n (?sz * 8 - ?n) = Some None"
    using pid_scan_first_clear [of ?n _ "pid_bitmap s"] inv by (simp add: pids_def)
  moreover have "max ?n (?sz * 8) = 8 * ?sz" using inv(2) by (simp add: max_def)
  moreover have "?sz < PID_BITMAP_SIZE_LIMIT" using assms(3) by simp
  ultimately have run: "alloc_pid_loop junk [False] (s\<lparr>pid_bitmap_lock := True\<rparr>) = Some (-1, ?s, [])"
    by (subst alloc_pid_loop.simps) simp
  have "test_bit_bm (pid_bitmap s) (8 * ?sz) = None" using bm.test_out [of "pid_bitmap s" "8 * ?sz"] inv(1) by simp
  then have "pid_scan (pid_bitmap s) (8 * ?sz) (Suc k) = None" for k by simp
  moreover have "PID_BITMAP_INCREMENT * 8 = Suc 8191" by (simp add: PID_BITMAP_INCREMENT_def)
  ultimately have "pid_scan (pid_bitmap s) (8 * ?sz) (PID_BITMAP_INCREMENT * 8) = None" by (simp only:)
  then have "alloc_pid_loop junk al (?s\<lparr>pid_bitmap_lock := True\<rparr>) = None"
    using assms(3) by (subst alloc_pid_loop.simps) (simp add: add_mult_distrib mult.commute [of _ 8])
  then have "alloc_pid junk al ?s = None" by (simp add: alloc_pid_def pid_lock_acquire_def)
  moreover have "alloc_pid junk [False] s = Some (-1, ?s, [])"
    using run inv(3) by (simp add: alloc_pid_def pid_lock_acquire_def)
  ultimately show ?thesis by blast
qed

theorem alloc_pid_realloc_failure_witness:
  "\<exists>s'. alloc_pid (\<lambda>_. 0) [False] (pid_all_used 1024) = Some (-1, s', []) \<and> alloc_pid (\<lambda>_. 0) [] s' = None"
proof -
  have "pid_bitmap_size (pid_all_used 1024) = 1024" by (simp add: pid_all_used_def)
  then show ?thesis
    using alloc_pid_realloc_failure [of "pid_all_used 1024" "\<lambda>_. 0" "[]"] pid_all_used_inv [of 1024] pids_all_used [of 1024]
    by (simp add: PID_BITMAP_INCREMENT_def PID_BITMAP_SIZE_LIMIT_def)
qed

text \<open>
  The process table finds the process mapped last for a number; mapping and unmapping
  change the entry of another number only when the two numbers have the same hash.
\<close>

theorem lookup_pid_after_map:
  assumes "hashmap_inv m" and "map_pid_process al m pid p = Some (m1, al1)"
  shows "hashmap_inv m1 \<and>
     (\<forall>q. lookup_pid m1 q = (if pid_key q = pid_key pid then Some (Some p) else lookup_pid m q)) \<and>
     (\<exists>m2. unmap_pid m1 pid = Some m2 \<and>
       (\<forall>q. lookup_pid m2 q = (if pid_key q = pid_key pid then Some None else lookup_pid m q)))"
proof -
  have ins: "hashmap_insert al m (pid_key pid) p = Some (0, m1, al1)"
    using assms(2) by (auto simp: map_pid_process_def split: option.splits if_splits)
  have m1: "hashmap_inv m1" "hashmap_abs m1 = (hashmap_abs m)(pid_key pid \<mapsto> p)"
    using hm.ins_zero [OF assms(1) ins] by simp_all
  have look: "lookup_pid m1 q = (if pid_key q = pid_key pid then Some (Some p) else lookup_pid m q)" for q
    using hm.look_abs [OF m1(1)] hm.look_abs [OF assms(1)] m1(2) by (simp add: lookup_pid_def)
  obtain m2 where m2: "hashmap_remove m1 (pid_key pid) = Some (0, m2)" "hashmap_inv m2"
      "hashmap_abs m2 = (hashmap_abs m1)(pid_key pid := None)"
    using hm.del_present [OF m1(1), of "pid_key pid"] m1(2) by auto
  have "lookup_pid m2 q = (if pid_key q = pid_key pid then Some None else lookup_pid m q)" for q
    using hm.look_abs [OF m2(2)] hm.look_abs [OF assms(1)] m2(3) m1(2) by (simp add: lookup_pid_def)
  with m1(1) look m2(1) show ?thesis by (auto simp: unmap_pid_def)
qed

theorem lookup_pid_after_map_witness:
  "\<exists>m m1 al1. hashmap_create [] = (Some m, []) \<and> map_pid_process [] m 1 (42::nat) = Some (m1, al1) \<and>
     lookup_pid m1 1 = Some (Some 42)"
proof -
  obtain m :: "nat hashmap" where m: "hashmap_create [] = (Some m, [])" "hashmap_inv m"
    using hm.create_empty by blast
  obtain m1 al1 where ins: "hashmap_insert [] m (pid_key 1) 42 = Some (0, m1, al1)" "hashmap_inv m1"
    using hm.ins_update [OF m(2)] by blast
  then have mp: "map_pid_process [] m 1 42 = Some (m1, al1)" by (simp add: map_pid_process_def)
  then show ?thesis using lookup_pid_after_map [OF m(2) mp] m(1) by auto
qed

end
