(* ===== verification/Pml_Cred.thy ===== *)
theory Pml_Cred
  imports Pml_Pid
begin

text \<open>
  kernel/pid.c, second part: process groups, and the user and group numbers of a process
  with the system calls that change them. A call on the credentials of the running process
  is a function from its process structure to an error number or the changed structure
  (system calls return 0 there); the process-group calls also go through the process table.
\<close>

section \<open>State\<close>

definition NGROUPS_MAX :: nat where "NGROUPS_MAX = 16"

record process =
  p_pid :: int
  p_ppid :: int
  p_pgid :: int
  p_sid :: int
  p_uid :: u32
  p_euid :: u32
  p_suid :: u32
  p_gid :: u32
  p_egid :: u32
  p_sgid :: u32
  p_sup_gids :: "u32 list"
  p_nsup_gids :: nat

text \<open>Process structures are shared through pointers: a store, the table and \<open>THIS_PROCESS\<close>.\<close>

record proc_state =
  procs :: "nat \<Rightarrow> process"
  pid_hashmap :: "nat hashmap"
  this_process :: nat

section \<open>Process groups\<close>

definition sys_getpid :: "proc_state \<Rightarrow> int" where
  "sys_getpid s = p_pid (procs s (this_process s))"

definition sys_getppid :: "proc_state \<Rightarrow> int" where
  "sys_getppid s = p_ppid (procs s (this_process s))"

definition find_process :: "proc_state \<Rightarrow> int \<Rightarrow> nat option option" where
  "find_process s pid = (if pid \<noteq> 0 then lookup_pid (pid_hashmap s) pid else Some (Some (this_process s)))"

definition sys_getpgid :: "proc_state \<Rightarrow> int \<Rightarrow> (errno + int) option" where
  "sys_getpgid s pid =
     (case find_process s pid of
        None \<Rightarrow> None
      | Some None \<Rightarrow> Some (Inl ESRCH)
      | Some (Some p) \<Rightarrow> Some (Inr (p_pgid (procs s p))))"

definition sys_setpgid :: "int \<Rightarrow> int \<Rightarrow> proc_state \<Rightarrow> (errno + proc_state) option" where
  "sys_setpgid pid pgid s =
     (if pgid < 0 then Some (Inl EINVAL)
      else case find_process s pid of
             None \<Rightarrow> None
           | Some None \<Rightarrow> Some (Inl ESRCH)
           | Some (Some p) \<Rightarrow>
               (let pgid = (if pgid = 0 then p_pid (procs s p) else pgid) in
                if p_sid (procs s p) = pid then Some (Inl EPERM)
                else case lookup_pid (pid_hashmap s) pgid of
                       None \<Rightarrow> None
                     | Some None \<Rightarrow> Some (Inl ESRCH)
                     | Some (Some leader) \<Rightarrow>
                         if p_sid (procs s p) \<noteq> p_sid (procs s leader) then Some (Inl EPERM)
                         else Some (Inr (s\<lparr>procs := (procs s)(p := (procs s p)\<lparr>p_pgid := pgid\<rparr>)\<rparr>))))"

definition sys_getpgrp :: "proc_state \<Rightarrow> int" where
  "sys_getpgrp s = p_pgid (procs s (this_process s))"

definition sys_setpgrp :: "proc_state \<Rightarrow> (errno + proc_state) option" where
  "sys_setpgrp s = sys_setpgid 0 0 s"

section \<open>User numbers\<close>

definition sys_setuid :: "u32 \<Rightarrow> process \<Rightarrow> errno + process" where
  "sys_setuid uid p =
     (if p_euid p \<noteq> 0 \<and> p_uid p \<noteq> uid then Inl EPERM
      else Inr (p\<lparr>p_uid := uid, p_euid := uid, p_suid := uid\<rparr>))"

definition sys_setresuid :: "u32 \<Rightarrow> u32 \<Rightarrow> u32 \<Rightarrow> process \<Rightarrow> errno + process" where
  "sys_setresuid ruid euid suid p =
     (let known = (\<lambda>x. x = p_uid p \<or> x = p_euid p \<or> x = p_suid p) in
      if p_euid p \<noteq> 0 \<and> ruid \<noteq> -1 \<and> \<not> known ruid then Inl EPERM
      else if p_euid p \<noteq> 0 \<and> euid \<noteq> -1 \<and> \<not> known euid then Inl EPERM
      else if p_euid p \<noteq> 0 \<and> suid \<noteq> -1 \<and> \<not> known suid then Inl EPERM
      else let p = (if ruid \<noteq> -1 then p\<lparr>p_uid := ruid\<rparr> else p);
               p = (if euid \<noteq> -1 then p\<lparr>p_euid := euid\<rparr> else p);
               p = (if suid \<noteq> -1 then p\<lparr>p_suid := suid\<rparr> else p)
           in Inr p)"

definition sys_seteuid :: "u32 \<Rightarrow> process \<Rightarrow> errno + process" where
  "sys_seteuid euid p = sys_setresuid (-1) euid (-1) p"

definition sys_setreuid :: "u32 \<Rightarrow> u32 \<Rightarrow> process \<Rightarrow> errno + process" where
  "sys_setreuid ruid euid p =
     (if p_euid p \<noteq> 0 \<and> ruid \<noteq> -1 \<and> ruid \<noteq> p_uid p \<and> ruid \<noteq> p_euid p then Inl EPERM
      else if p_euid p \<noteq> 0 \<and> euid \<noteq> -1 \<and> euid \<noteq> p_uid p \<and> euid \<noteq> p_euid p \<and> euid \<noteq> p_suid p
      then Inl EPERM
      else let p = (if euid \<noteq> -1
                    then (if p_uid p \<noteq> euid then p\<lparr>p_suid := euid\<rparr> else p)\<lparr>p_euid := euid\<rparr>
                    else p);
               p = (if ruid \<noteq> -1 then p\<lparr>p_uid := ruid, p_suid := p_euid p\<rparr> else p)
           in Inr p)"

definition sys_getresuid :: "process \<Rightarrow> u32 \<times> u32 \<times> u32" where
  "sys_getresuid p = (p_uid p, p_euid p, p_suid p)"

section \<open>Group numbers\<close>

definition sys_setgid :: "u32 \<Rightarrow> process \<Rightarrow> errno + process" where
  "sys_setgid gid p =
     (if p_euid p \<noteq> 0 \<and> p_gid p \<noteq> gid then Inl EPERM
      else Inr (p\<lparr>p_gid := gid, p_egid := gid, p_sgid := gid\<rparr>))"

definition sys_setresgid :: "u32 \<Rightarrow> u32 \<Rightarrow> u32 \<Rightarrow> process \<Rightarrow> errno + process" where
  "sys_setresgid rgid egid sgid p =
     (let known = (\<lambda>x. x = p_gid p \<or> x = p_egid p \<or> x = p_sgid p) in
      if p_euid p \<noteq> 0 \<and> rgid \<noteq> -1 \<and> \<not> known rgid then Inl EPERM
      else if p_euid p \<noteq> 0 \<and> egid \<noteq> -1 \<and> \<not> known egid then Inl EPERM
      else if p_euid p \<noteq> 0 \<and> sgid \<noteq> -1 \<and> \<not> known sgid then Inl EPERM
      else let p = (if rgid \<noteq> -1 then p\<lparr>p_gid := rgid\<rparr> else p);
               p = (if egid \<noteq> -1 then p\<lparr>p_egid := egid\<rparr> else p);
               p = (if sgid \<noteq> -1 then p\<lparr>p_sgid := sgid\<rparr> else p)
           in Inr p)"

definition sys_setegid :: "u32 \<Rightarrow> process \<Rightarrow> errno + process" where
  "sys_setegid egid p = sys_setresgid (-1) egid (-1) p"

definition sys_setregid :: "u32 \<Rightarrow> u32 \<Rightarrow> process \<Rightarrow> errno + process" where
  "sys_setregid rgid egid p =
     (if p_euid p \<noteq> 0 \<and> rgid \<noteq> -1 \<and> rgid \<noteq> p_gid p \<and> rgid \<noteq> p_egid p then Inl EPERM
      else if p_euid p \<noteq> 0 \<and> egid \<noteq> -1 \<and> egid \<noteq> p_gid p \<and> egid \<noteq> p_egid p \<and> egid \<noteq> p_sgid p
      then Inl EPERM
      else let p = (if egid \<noteq> -1
                    then (if p_gid p \<noteq> egid then p\<lparr>p_sgid := egid\<rparr> else p)\<lparr>p_egid := egid\<rparr>
                    else p);
               p = (if rgid \<noteq> -1 then p\<lparr>p_gid := rgid, p_sgid := p_egid p\<rparr> else p)
           in Inr p)"

definition sys_getresgid :: "process \<Rightarrow> u32 \<times> u32 \<times> u32" where
  "sys_getresgid p = (p_gid p, p_egid p, p_sgid p)"

text \<open>The copied groups are the second component of the result of sys_getgroups.\<close>

definition sys_getgroups :: "int \<Rightarrow> process \<Rightarrow> errno + int \<times> u32 list" where
  "sys_getgroups sz p =
     (if sz = 0 then Inr (int (p_nsup_gids p), [])
      else if p_nsup_gids p > nat (sz mod 2 ^ 64) then Inl EINVAL
      else Inr (0, take (p_nsup_gids p) (p_sup_gids p)))"

definition sys_setgroups :: "nat \<Rightarrow> u32 list \<Rightarrow> process \<Rightarrow> errno + process" where
  "sys_setgroups sz gids p =
     (if p_euid p \<noteq> 0 then Inl EPERM
      else if sz > NGROUPS_MAX then Inl EINVAL
      else Inr (p\<lparr>p_sup_gids := take sz gids @ drop sz (p_sup_gids p), p_nsup_gids := sz\<rparr>))"

section \<open>Sequences of calls\<close>

datatype cred_call =
    Setuid u32 | Seteuid u32 | Setreuid u32 u32 | Setresuid u32 u32 u32
  | Setgid u32 | Setegid u32 | Setregid u32 u32 | Setresgid u32 u32 u32
  | Setgroups nat "u32 list"

fun cred_call_result :: "cred_call \<Rightarrow> process \<Rightarrow> errno + process" where
  "cred_call_result (Setuid u) p = sys_setuid u p"
| "cred_call_result (Seteuid e) p = sys_seteuid e p"
| "cred_call_result (Setreuid r e) p = sys_setreuid r e p"
| "cred_call_result (Setresuid r e s) p = sys_setresuid r e s p"
| "cred_call_result (Setgid g) p = sys_setgid g p"
| "cred_call_result (Setegid e) p = sys_setegid e p"
| "cred_call_result (Setregid r e) p = sys_setregid r e p"
| "cred_call_result (Setresgid r e s) p = sys_setresgid r e s p"
| "cred_call_result (Setgroups n gs) p = sys_setgroups n gs p"

definition cred_step :: "cred_call \<Rightarrow> process \<Rightarrow> process" where
  "cred_step c p = (case cred_call_result c p of Inl e \<Rightarrow> p | Inr p' \<Rightarrow> p')"

definition uids :: "process \<Rightarrow> u32 set" where
  "uids p = {p_uid p, p_euid p, p_suid p}"

definition gids :: "process \<Rightarrow> u32 set" where
  "gids p = {p_gid p, p_egid p, p_sgid p}"

definition groups :: "process \<Rightarrow> nat \<times> u32 list" where
  "groups p = (p_nsup_gids p, p_sup_gids p)"

lemmas cred_calls = sys_setuid_def sys_seteuid_def sys_setreuid_def sys_setresuid_def
  sys_setgid_def sys_setegid_def sys_setregid_def sys_setresgid_def sys_setgroups_def

lemma cred_step_unprivileged:
  assumes "p_euid p \<noteq> 0"
  shows "uids (cred_step c p) \<subseteq> uids p \<and> gids (cred_step c p) \<subseteq> gids p \<and> groups (cred_step c p) = groups p"
  using assms
  by (cases c) (auto simp: cred_step_def cred_calls uids_def gids_def groups_def Let_def split: if_splits sum.splits)

lemma cred_steps_unprivileged:
  "0 \<notin> uids p \<Longrightarrow>
   uids (fold cred_step cs p) \<subseteq> uids p \<and> gids (fold cred_step cs p) \<subseteq> gids p \<and>
   groups (fold cred_step cs p) = groups p"
proof (induction cs arbitrary: p)
  case (Cons c cs)
  have "p_euid p \<noteq> 0" using Cons.prems by (auto simp: uids_def)
  note step = cred_step_unprivileged [OF this, of c]
  then have "0 \<notin> uids (cred_step c p)" using Cons.prems by blast
  from Cons.IH [OF this] step show ?case by auto
qed simp

section \<open>Properties of the credentials\<close>

text \<open>
  C37: A process none of whose user numbers is 0 cannot gain anything by any sequence of
  setuid, seteuid, setreuid, setresuid, their group counterparts and setgroups: its user
  and group numbers stay among those it started with and its supplementary groups
  stay the same.
\<close>

theorem no_privilege_escalation:
  assumes "0 \<notin> uids p"
  shows "uids (fold cred_step cs p) \<subseteq> uids p \<and> gids (fold cred_step cs p) \<subseteq> gids p \<and>
     groups (fold cred_step cs p) = groups p"
  by (rule cred_steps_unprivileged [OF assms])

definition user_process :: process where
  "user_process = \<lparr>p_pid = 5, p_ppid = 1, p_pgid = 5, p_sid = 5, p_uid = 1000, p_euid = 1001, p_suid = 1002,
     p_gid = 100, p_egid = 100, p_sgid = 100, p_sup_gids = replicate 16 0, p_nsup_gids = 0\<rparr>"

theorem no_privilege_escalation_witness:
  "uids (fold cred_step [Setreuid 1001 1000, Setuid 0, Setgroups 1 [0]] user_process) \<subseteq> {1000, 1001, 1002}"
  using no_privilege_escalation [of user_process "[Setreuid 1001 1000, Setuid 0, Setgroups 1 [0]]"]
  by (simp add: uids_def user_process_def)

text \<open>
  A privileged process (effective user 0) may set its three user numbers to anything,
  where the value -1 leaves a number as it is; an unprivileged one is refused with EPERM
  exactly when one of the values given is not among its current numbers.
\<close>

theorem setresuid_spec:
  "sys_setresuid r e s p =
     (if p_euid p \<noteq> 0 \<and> \<not> {r, e, s} - {-1} \<subseteq> uids p then Inl EPERM
      else Inr (p\<lparr>p_uid := (if r = -1 then p_uid p else r), p_euid := (if e = -1 then p_euid p else e),
                  p_suid := (if s = -1 then p_suid p else s)\<rparr>))"
  by (auto simp: sys_setresuid_def uids_def Let_def)

text \<open>
  The check that keeps a session leader from changing its process group compares the
  session with the argument and not with the number of the process: a leader is refused
  when it names itself, and gets through when it passes 0.
\<close>

theorem setpgid_zero_skips_leader_check:
  assumes "p_sid (procs s (this_process s)) = p_pid (procs s (this_process s))"
    and "p_pid (procs s (this_process s)) \<noteq> 0" and "0 < pgid"
    and "lookup_pid (pid_hashmap s) (p_pid (procs s (this_process s))) = Some (Some (this_process s))"
    and "lookup_pid (pid_hashmap s) pgid = Some (Some l)"
    and "p_sid (procs s l) = p_sid (procs s (this_process s))"
  shows "sys_setpgid (p_pid (procs s (this_process s))) pgid s = Some (Inl EPERM) \<and>
     (\<exists>s'. sys_setpgid 0 pgid s = Some (Inr s') \<and> sys_getpgrp s' = pgid)"
  using assms by (simp add: sys_setpgid_def find_process_def sys_getpgrp_def)

definition one_process :: "nat hashmap \<Rightarrow> proc_state" where
  "one_process m = \<lparr>procs = (\<lambda>_. user_process), pid_hashmap = m, this_process = 42\<rparr>"

theorem setpgid_zero_skips_leader_check_witness:
  "\<exists>m s'. sys_setpgid 5 5 (one_process m) = Some (Inl EPERM) \<and>
     sys_setpgid 0 5 (one_process m) = Some (Inr s') \<and> sys_getpgrp s' = 5"
proof -
  obtain m0 :: "nat hashmap" where m0: "hashmap_inv m0" using hm.create_empty by blast
  obtain m al where "hashmap_insert [] m0 (pid_key 5) 42 = Some (0, m, al)" "hashmap_inv m"
      "hashmap_abs m = (hashmap_abs m0)(pid_key 5 \<mapsto> 42)"
    using hm.ins_update [OF m0] by blast
  then have "lookup_pid m 5 = Some (Some 42)" using hm.look_abs [of m "pid_key 5"] by (simp add: lookup_pid_def)
  then show ?thesis
    using setpgid_zero_skips_leader_check [of "one_process m" 5 42]
    by (auto simp: one_process_def user_process_def)
qed

end
