(* ===== verification/Pml_Fd.thy ===== *)
theory Pml_Fd
  imports Pml_Bitmap Pml_Map "HOL-Library.Multiset"
begin

text \<open>
  kernel/fd.c: the system file table, an array of reference-counted open files, and the
  descriptor tables of the processes, arrays of pointers into it. A pointer into the system
  table is its index, \<open>None\<close> the null pointer. An operation has the result \<open>None\<close> when it
  spins on the lock or accesses memory outside of an array.
\<close>

section \<open>State\<close>

definition SYSTEM_FD_TABLE_SIZE :: nat where "SYSTEM_FD_TABLE_SIZE = 65536"
definition O_ACCMODE :: u32 where "O_ACCMODE = 3"
definition O_NONBLOCK :: u32 where "O_NONBLOCK = 128"

record open_file =
  f_vnode :: "nat option"
  f_offset :: int
  f_flags :: u32
  f_count :: nat

definition file_zero :: open_file where
  "file_zero = \<lparr>f_vnode = None, f_offset = 0, f_flags = 0, f_count = 0\<rparr>"

record fd_table =
  ft_table :: "nat option list"
  ft_curr :: nat
  ft_size :: nat
  ft_max_size :: nat

record fd_state =
  system_fd_table :: "open_file list"
  fd_table_start :: nat
  fd_lock :: bool
  proc_fds :: "nat \<Rightarrow> fd_table"
  fd_this :: nat
  vnode_refs :: "nat \<Rightarrow> u32"
  vnodes_freed :: "nat list"
  fd_errno :: "errno option"

section \<open>Reference-counted objects\<close>

definition UNREF_OBJECT :: "nat option \<Rightarrow> fd_state \<Rightarrow> fd_state" where
  "UNREF_OBJECT v s =
     (case v of
        None \<Rightarrow> s
      | Some v \<Rightarrow>
          (let n = vnode_refs s v - 1;
               s = s\<lparr>vnode_refs := (vnode_refs s)(v := n)\<rparr>
           in if n = 0 then s\<lparr>vnodes_freed := v # vnodes_freed s\<rparr> else s))"

section \<open>Operations\<close>

definition fd_lock_acquire :: "fd_state \<Rightarrow> fd_state option" where
  "fd_lock_acquire s = (if fd_lock s then None else Some (s\<lparr>fd_lock := True\<rparr>))"

definition this_fds :: "fd_state \<Rightarrow> fd_table" where
  "this_fds s = proc_fds s (fd_this s)"

definition set_this_fds :: "fd_table \<Rightarrow> fd_state \<Rightarrow> fd_state" where
  "set_this_fds t s = s\<lparr>proc_fds := (proc_fds s)(fd_this s := t)\<rparr>"

definition file_fd :: "int \<Rightarrow> fd_state \<Rightarrow> (nat option \<times> fd_state) option" where
  "file_fd fd s =
     (let fds = this_fds s in
      if fd < 0 \<or> nat fd \<ge> ft_size fds then Some (None, s\<lparr>fd_errno := Some EBADF\<rparr>)
      else if nat fd \<ge> length (ft_table fds) then None
      else if ft_table fds ! nat fd = None then Some (None, s\<lparr>fd_errno := Some EBADF\<rparr>)
      else Some (ft_table fds ! nat fd, s))"

text \<open>
  The search of dupfd and alloc_procfd for a null entry among \<open>k\<close> entries from \<open>i\<close>;
  \<open>None\<close> is an access outside of the table.
\<close>

fun fd_scan :: "nat option list \<Rightarrow> nat \<Rightarrow> nat \<Rightarrow> nat option option" where
  "fd_scan t i 0 = Some None"
| "fd_scan t i (Suc k) =
     (if i \<ge> length t then None
      else if t ! i = None then Some (Some i)
      else fd_scan t (Suc i) k)"

text \<open>
  realloc of a table followed by the memset of the new entries; the memset of a table
  that shrinks is given a length that has wrapped around.
\<close>

definition resize_table :: "nat \<Rightarrow> fd_table \<Rightarrow> fd_table option" where
  "resize_table new_size t =
     (if new_size < ft_size t then None
      else Some (t\<lparr>ft_table := ft_table t @ replicate (new_size - ft_size t) None,
                   ft_size := new_size\<rparr>))"

text \<open>The code from the label \<open>found\<close> on.\<close>

definition dupfd_store :: "nat \<Rightarrow> nat \<Rightarrow> fd_state \<Rightarrow> (int \<times> fd_state) option" where
  "dupfd_store i f s =
     (let fds = this_fds s in
      if i \<ge> length (ft_table fds) \<or> f \<ge> length (system_fd_table s) then None
      else let s = set_this_fds (fds\<lparr>ft_table := (ft_table fds)[i := Some f]\<rparr>) s;
               e = system_fd_table s ! f
           in Some (0, s\<lparr>system_fd_table := (system_fd_table s)[f := e\<lparr>f_count := f_count e + 1\<rparr>]\<rparr>))"

definition dupfd :: "alloc_outcomes \<Rightarrow> int \<Rightarrow> int \<Rightarrow> fd_state \<Rightarrow> (int \<times> fd_state \<times> alloc_outcomes) option" where
  "dupfd al fd fd2 s =
     (case file_fd fd s of
        None \<Rightarrow> None
      | Some (None, s) \<Rightarrow> Some (-1, s, al)
      | Some (Some f, s) \<Rightarrow>
          (let fds = this_fds s; i = nat (fd2 mod 2 ^ 64) in
           case fd_scan (ft_table fds) i (ft_size fds - i) of
             None \<Rightarrow> None
           | Some (Some j) \<Rightarrow> map_option (\<lambda>(r, s). (r, s, al)) (dupfd_store j f s)
           | Some None \<Rightarrow>
               if ft_size fds < ft_max_size fds
               then let new_size = unat (next64_p2 (word_of_int (fd2 + 1)));
                        new_size = (if new_size > ft_max_size fds then ft_max_size fds else new_size);
                        (ok, al) = take_alloc al
                    in if \<not> ok then Some (-1, s, al)
                       else case resize_table new_size fds of
                              None \<Rightarrow> None
                            | Some t \<Rightarrow> map_option (\<lambda>(r, s). (r, s, al)) (dupfd_store i f (set_this_fds t s))
               else Some (-1, s\<lparr>fd_errno := Some EMFILE\<rparr>, al)))"

definition alloc_procfd :: "alloc_outcomes \<Rightarrow> fd_state \<Rightarrow> (int \<times> fd_state \<times> alloc_outcomes) option" where
  "alloc_procfd al s =
     (case fd_lock_acquire s of
        None \<Rightarrow> None
      | Some s \<Rightarrow>
          (let fds = this_fds s in
           case fd_scan (ft_table fds) (ft_curr fds) (ft_size fds - ft_curr fds) of
             None \<Rightarrow> None
           | Some (Some i) \<Rightarrow>
               Some (int i, set_this_fds (fds\<lparr>ft_curr := i + 1\<rparr>) (s\<lparr>fd_lock := False\<rparr>), al)
           | Some None \<Rightarrow>
               (let fds = fds\<lparr>ft_curr := max (ft_curr fds) (ft_size fds)\<rparr>; s = set_this_fds fds s in
                if ft_size fds < ft_max_size fds
                then let new_size = (if ft_size fds * 2 < ft_max_size fds then ft_size fds * 2
                                     else ft_max_size fds);
                         (ok, al) = take_alloc al
                     in if \<not> ok then Some (-1, s\<lparr>fd_lock := False\<rparr>, al)
                        else case resize_table new_size fds of
                               None \<Rightarrow> None
                             | Some t \<Rightarrow>
                                 if ft_curr t \<ge> ft_size t
                                 then Some (-1, (set_this_fds t s)\<lparr>fd_lock := False, fd_errno := Some EMFILE\<rparr>, al)
                                 else Some (int (ft_curr t),
                                            set_this_fds (t\<lparr>ft_curr := ft_curr t + 1\<rparr>) (s\<lparr>fd_lock := False\<rparr>), al)
                else Some (-1, s\<lparr>fd_lock := False, fd_errno := Some EMFILE\<rparr>, al))))"

fun sysfd_scan :: "open_file list \<Rightarrow> nat \<Rightarrow> nat \<Rightarrow> nat option option" where
  "sysfd_scan t i 0 = Some None"
| "sysfd_scan t i (Suc k) =
     (if i \<ge> length t then None
      else if f_count (t ! i) = 0 then Some (Some i)
      else sysfd_scan t (Suc i) k)"

definition alloc_fd :: "fd_state \<Rightarrow> (int \<times> fd_state) option" where
  "alloc_fd s =
     (case fd_lock_acquire s of
        None \<Rightarrow> None
      | Some s \<Rightarrow>
          (case sysfd_scan (system_fd_table s) (fd_table_start s)
                  (SYSTEM_FD_TABLE_SIZE - fd_table_start s) of
             None \<Rightarrow> None
           | Some (Some i) \<Rightarrow>
               (let e = system_fd_table s ! i in
                Some (int i, s\<lparr>system_fd_table := (system_fd_table s)[i := e\<lparr>f_count := f_count e + 1\<rparr>],
                               fd_table_start := i + 1, fd_lock := False\<rparr>))
           | Some None \<Rightarrow>
               Some (-1, s\<lparr>fd_table_start := max (fd_table_start s) SYSTEM_FD_TABLE_SIZE, fd_lock := False\<rparr>)))"

text \<open>
  Dropping a reference to an open file, the part that free_fd and free_altprocfd share; the
  count is a \<open>size_t\<close>.
\<close>

definition drop_file :: "nat \<Rightarrow> fd_state \<Rightarrow> fd_state option" where
  "drop_file i s =
     (if i \<ge> length (system_fd_table s) then None
      else let e = system_fd_table s ! i;
               n = (if f_count e = 0 then 2 ^ 64 - 1 else f_count e - 1);
               s = s\<lparr>system_fd_table := (system_fd_table s)[i := e\<lparr>f_count := n\<rparr>]\<rparr>
           in if n = 0
              then let s = UNREF_OBJECT (f_vnode e) s
                   in Some (s\<lparr>system_fd_table := (system_fd_table s)[i := file_zero],
                              fd_table_start := (if i < fd_table_start s then i else fd_table_start s)\<rparr>)
              else Some s)"

definition free_fd :: "nat \<Rightarrow> fd_state \<Rightarrow> fd_state option" where
  "free_fd fd s =
     (case fd_lock_acquire s of
        None \<Rightarrow> None
      | Some s \<Rightarrow> map_option (\<lambda>s. s\<lparr>fd_lock := False\<rparr>) (drop_file fd s))"

definition free_altprocfd :: "nat \<Rightarrow> nat \<Rightarrow> fd_state \<Rightarrow> fd_state option" where
  "free_altprocfd p fd s =
     (let fds = proc_fds s p in
      if fd \<ge> length (ft_table fds) then None
      else case ft_table fds ! fd of
             None \<Rightarrow> Some s
           | Some sysfd \<Rightarrow>
               (case fd_lock_acquire s of
                  None \<Rightarrow> None
                | Some s \<Rightarrow>
                    map_option (\<lambda>s. s\<lparr>fd_lock := False\<rparr>)
                      (drop_file sysfd
                        (s\<lparr>proc_fds := (proc_fds s)(p := fds\<lparr>ft_table := (ft_table fds)[fd := None]\<rparr>)\<rparr>))))"

definition free_procfd :: "nat \<Rightarrow> fd_state \<Rightarrow> fd_state option" where
  "free_procfd fd s = free_altprocfd (fd_this s) fd s"

definition fill_fd :: "nat \<Rightarrow> nat \<Rightarrow> nat option \<Rightarrow> u32 \<Rightarrow> fd_state \<Rightarrow> fd_state option" where
  "fill_fd fd sysfd vp flags s =
     (let fds = this_fds s in
      if sysfd \<ge> length (system_fd_table s) \<or> fd \<ge> length (ft_table fds) then None
      else let e = system_fd_table s ! sysfd;
               s = s\<lparr>system_fd_table := (system_fd_table s)[sysfd :=
                       e\<lparr>f_vnode := vp, f_flags := flags AND (O_ACCMODE OR O_NONBLOCK)\<rparr>]\<rparr>
           in Some (set_this_fds (fds\<lparr>ft_table := (ft_table fds)[fd := Some sysfd]\<rparr>) s))"

datatype fcntl_cmd = F_DUPFD int | F_GETFD | F_GETFL | F_SETFD u32 | F_SETFL u32 | F_SETLK | F_SETLKW | F_GETLK | F_OTHER

definition set_file_flags :: "nat \<Rightarrow> u32 \<Rightarrow> fd_state \<Rightarrow> fd_state" where
  "set_file_flags f v s =
     (let e = system_fd_table s ! f in
      s\<lparr>system_fd_table := (system_fd_table s)[f :=
          e\<lparr>f_flags := (f_flags e AND O_ACCMODE) OR (v AND NOT O_ACCMODE)\<rparr>]\<rparr>)"

definition sys_fcntl :: "alloc_outcomes \<Rightarrow> int \<Rightarrow> fcntl_cmd \<Rightarrow> fd_state \<Rightarrow> (int \<times> fd_state \<times> alloc_outcomes) option" where
  "sys_fcntl al fd cmd s =
     (case file_fd fd s of
        None \<Rightarrow> None
      | Some (None, s) \<Rightarrow> Some (-1, s\<lparr>fd_errno := Some EBADF\<rparr>, al)
      | Some (Some f, s) \<Rightarrow>
          (if f \<ge> length (system_fd_table s) then None
           else case cmd of
             F_DUPFD fd2 \<Rightarrow>
               map_option (\<lambda>(r, s, al). (if r \<noteq> 0 then -1 else 0, s, al)) (dupfd al fd fd2 s)
           | F_GETFD \<Rightarrow> Some (sint (f_flags (system_fd_table s ! f)), s, al)
           | F_GETFL \<Rightarrow> Some (sint (f_flags (system_fd_table s ! f)), s, al)
           | F_SETFD v \<Rightarrow> Some (0, set_file_flags f v s, al)
           | F_SETFL v \<Rightarrow> Some (0, set_file_flags f v s, al)
           | F_SETLK \<Rightarrow> Some (-1, s\<lparr>fd_errno := Some ENOSYS\<rparr>, al)
           | F_SETLKW \<Rightarrow> Some (-1, s\<lparr>fd_errno := Some ENOSYS\<rparr>, al)
           | F_GETLK \<Rightarrow> Some (-1, s\<lparr>fd_errno := Some ENOSYS\<rparr>, al)
           | F_OTHER \<Rightarrow> Some (-1, s\<lparr>fd_errno := Some EINVAL\<rparr>, al)))"


section \<open>The system table\<close>

definition files_used :: "fd_state \<Rightarrow> nat set" where
  "files_used s = {i. i < length (system_fd_table s) \<and> f_count (system_fd_table s ! i) \<noteq> 0}"

definition fdt_inv :: "fd_state \<Rightarrow> bool" where
  "fdt_inv s = (length (system_fd_table s) = SYSTEM_FD_TABLE_SIZE \<and> fd_table_start s \<le> SYSTEM_FD_TABLE_SIZE \<and>
     {..<fd_table_start s} \<subseteq> files_used s \<and> \<not> fd_lock s)"

lemma sysfd_scan_first_clear:
  "i + k \<le> length t \<Longrightarrow>
   sysfd_scan t i k = Some (first_clear {j. j < length t \<and> f_count (t ! j) \<noteq> 0} i k)"
  by (induction k arbitrary: i) auto

lemma fd_scan_first_clear:
  "i + k \<le> length t \<Longrightarrow> fd_scan t i k = Some (first_clear {j. j < length t \<and> t ! j \<noteq> None} i k)"
  by (induction k arbitrary: i) auto

lemma alloc_fd_ok:
  assumes inv: "fdt_inv s"
  shows "\<exists>r s'. alloc_fd s = Some (r, s') \<and> fdt_inv s' \<and>
     (if r = -1 then files_used s = {..<SYSTEM_FD_TABLE_SIZE} \<and> system_fd_table s' = system_fd_table s
      else 0 \<le> r \<and> nat r \<notin> files_used s \<and> {..<nat r} \<subseteq> files_used s \<and> files_used s' = insert (nat r) (files_used s))"
proof -
  let ?t = "system_fd_table s" and ?n = "fd_table_start s"
  have len: "length ?t = SYSTEM_FD_TABLE_SIZE" "?n \<le> SYSTEM_FD_TABLE_SIZE" "{..<?n} \<subseteq> files_used s" "\<not> fd_lock s"
    using inv by (simp_all add: fdt_inv_def)
  have scan: "sysfd_scan ?t ?n (SYSTEM_FD_TABLE_SIZE - ?n) = Some (first_clear (files_used s) ?n (SYSTEM_FD_TABLE_SIZE - ?n))"
    using sysfd_scan_first_clear [of ?n "SYSTEM_FD_TABLE_SIZE - ?n" ?t] len by (simp add: files_used_def)
  show ?thesis
  proof (cases "first_clear (files_used s) ?n (SYSTEM_FD_TABLE_SIZE - ?n)")
    case None
    then have "{?n..<SYSTEM_FD_TABLE_SIZE} \<subseteq> files_used s" using len(2) by (simp add: first_clear_None)
    moreover have "{..<SYSTEM_FD_TABLE_SIZE} = {..<?n} \<union> {?n..<SYSTEM_FD_TABLE_SIZE}" using len(2) by auto
    ultimately have full: "{..<SYSTEM_FD_TABLE_SIZE} \<subseteq> files_used s" using len(3) by simp
    then have eq: "files_used s = {..<SYSTEM_FD_TABLE_SIZE}" using len(1) by (auto simp: files_used_def)
    have "alloc_fd s = Some (-1, s\<lparr>fd_lock := False, fd_table_start := SYSTEM_FD_TABLE_SIZE\<rparr>)"
      using scan None len(2,4) by (simp add: alloc_fd_def fd_lock_acquire_def max_def)
    then show ?thesis using eq full len(1) by (auto simp: fdt_inv_def files_used_def)
  next
    case (Some i)
    then have i: "?n \<le> i" "i < SYSTEM_FD_TABLE_SIZE" "i \<notin> files_used s" "{?n..<i} \<subseteq> files_used s"
      using len(2) by (simp_all add: first_clear_Some)
    have "{..<i} = {..<?n} \<union> {?n..<i}" using i(1) by auto
    then have below: "{..<i} \<subseteq> files_used s" using len(3) i(4) by simp
    let ?s = "s\<lparr>fd_lock := False, system_fd_table := ?t[i := (?t ! i)\<lparr>f_count := f_count (?t ! i) + 1\<rparr>],
        fd_table_start := i + 1\<rparr>"
    have run: "alloc_fd s = Some (int i, ?s)"
      using scan Some len(4) by (simp add: alloc_fd_def fd_lock_acquire_def Let_def)
    have used: "files_used ?s = insert i (files_used s)"
      using i(2) len(1) by (auto simp: files_used_def nth_list_update)
    have "{..<Suc i} = insert i {..<i}" by auto
    then have "fdt_inv ?s" using used below i(2) len(1) by (auto simp: fdt_inv_def)
    with run used below i(3) show ?thesis by (intro exI [of _ "int i"] exI [of _ ?s]) simp
  qed
qed

section \<open>Reference counts\<close>

text \<open>
  References to an open file from the descriptor tables of a set of processes; \<open>pend\<close> counts
  the references of entries that have been allocated and not yet filled in.
\<close>

definition table_refs :: "nat set \<Rightarrow> fd_state \<Rightarrow> nat \<Rightarrow> nat" where
  "table_refs P s i = (\<Sum>p \<in> P. count (mset (ft_table (proc_fds s p))) (Some i))"

definition refs_ok :: "nat set \<Rightarrow> (nat \<Rightarrow> nat) \<Rightarrow> fd_state \<Rightarrow> bool" where
  "refs_ok P pend s = (finite P \<and> length (system_fd_table s) = SYSTEM_FD_TABLE_SIZE \<and>
     (\<forall>i < SYSTEM_FD_TABLE_SIZE. f_count (system_fd_table s ! i) = table_refs P s i + pend i) \<and>
     (\<forall>p \<in> P. ft_size (proc_fds s p) = length (ft_table (proc_fds s p)) \<and>
        set (ft_table (proc_fds s p)) \<subseteq> insert None (Some ` {..<SYSTEM_FD_TABLE_SIZE})))"

lemma count_mset_update:
  "i < length xs \<Longrightarrow> xs ! i \<noteq> y \<Longrightarrow>
   count (mset (xs[i := v])) y = count (mset xs) y + (if v = y then 1 else 0)"
  by (auto simp: mset_update)

lemma count_mset_remove:
  "i < length xs \<Longrightarrow> v \<noteq> y \<Longrightarrow>
   count (mset (xs[i := v])) y + (if xs ! i = y then 1 else 0) = count (mset xs) y"
  using nth_mem [of i xs] count_greater_zero_iff [of "mset xs" y] by (auto simp: mset_update)

lemma table_refs_update:
  assumes "finite P" "p \<in> P"
  shows "table_refs P (s\<lparr>proc_fds := (proc_fds s)(p := t)\<rparr>) i + count (mset (ft_table (proc_fds s p))) (Some i)
       = table_refs P s i + count (mset (ft_table t)) (Some i)"
proof -
  let ?c = "\<lambda>q. count (mset (ft_table (proc_fds s q))) (Some i)"
  have a: "table_refs P s i = ?c p + sum ?c (P - {p})" unfolding table_refs_def by (rule sum.remove [OF assms])
  let ?d = "\<lambda>q. count (mset (ft_table (((proc_fds s)(p := t)) q))) (Some i)"
  have "table_refs P (s\<lparr>proc_fds := (proc_fds s)(p := t)\<rparr>) i = sum ?d P" by (simp add: table_refs_def)
  also have "\<dots> = ?d p + sum ?d (P - {p})" by (rule sum.remove [OF assms])
  also have "sum ?d (P - {p}) = sum ?c (P - {p})" by (rule sum.cong) auto
  also have "?d p = count (mset (ft_table t)) (Some i)" by simp
  finally show ?thesis using a by linarith
qed

lemma UNREF_OBJECT_frame [simp]:
  "system_fd_table (UNREF_OBJECT v s) = system_fd_table s" "proc_fds (UNREF_OBJECT v s) = proc_fds s"
  "fd_lock (UNREF_OBJECT v s) = fd_lock s" "fd_table_start (UNREF_OBJECT v s) = fd_table_start s"
  "fd_this (UNREF_OBJECT v s) = fd_this s"
  by (simp_all add: UNREF_OBJECT_def Let_def split: option.splits)

lemma drop_file_ok:
  assumes "i < length (system_fd_table s)" and "0 < f_count (system_fd_table s ! i)"
  shows "\<exists>s'. drop_file i s = Some s' \<and> proc_fds s' = proc_fds s \<and>
     length (system_fd_table s') = length (system_fd_table s) \<and> fd_this s' = fd_this s \<and>
     (\<forall>j. f_count (system_fd_table s' ! j) =
        (if j = i then f_count (system_fd_table s ! i) - 1 else f_count (system_fd_table s ! j))) \<and>
     (if f_count (system_fd_table s ! i) = 1
      then system_fd_table s' ! i = file_zero \<and> vnode_refs s' = vnode_refs (UNREF_OBJECT (f_vnode (system_fd_table s ! i)) s)
      else vnode_refs s' = vnode_refs s)"
  using assms
  by (auto simp: drop_file_def Let_def nth_list_update file_zero_def UNREF_OBJECT_def split: option.splits)

lemma free_altprocfd_ok:
  assumes ok: "refs_ok P pend s" and p: "p \<in> P" "fd < ft_size (proc_fds s p)" "ft_table (proc_fds s p) ! fd = Some i"
    and lock: "\<not> fd_lock s"
  shows "\<exists>s'. free_altprocfd p fd s = Some s' \<and> refs_ok P pend s' \<and> fd_this s' = fd_this s \<and> \<not> fd_lock s' \<and>
     proc_fds s' = (proc_fds s)(p := (proc_fds s p)\<lparr>ft_table := (ft_table (proc_fds s p))[fd := None]\<rparr>) \<and>
     (if table_refs P s i + pend i = 1
      then system_fd_table s' ! i = file_zero \<and> vnode_refs s' = vnode_refs (UNREF_OBJECT (f_vnode (system_fd_table s ! i)) s)
      else vnode_refs s' = vnode_refs s)"
proof -
  let ?t = "ft_table (proc_fds s p)" and ?N = SYSTEM_FD_TABLE_SIZE
  let ?f = "(proc_fds s p)\<lparr>ft_table := ?t[fd := None]\<rparr>"
  let ?s = "s\<lparr>fd_lock := True, proc_fds := (proc_fds s)(p := ?f)\<rparr>"
  have fin: "finite P" and len: "length (system_fd_table s) = ?N" and fd: "fd < length ?t"
    and cnt: "\<And>j. j < ?N \<Longrightarrow> f_count (system_fd_table s ! j) = table_refs P s j + pend j"
    and sub: "set ?t \<subseteq> insert None (Some ` {..<?N})"
    using ok p by (auto simp: refs_ok_def)
  have "Some i \<in> set ?t" using p(3) fd by (metis nth_mem)
  with sub have i: "i < ?N" by auto
  have refs: "table_refs P ?s j + (if j = i then 1 else 0) = table_refs P s j" for j
  proof -
    have "count (mset (?t[fd := None])) (Some j) + (if j = i then 1 else 0) = count (mset ?t) (Some j)"
      using count_mset_remove [OF fd, of None "Some j"] p(3) by auto
    moreover have "table_refs P ?s j = table_refs P (s\<lparr>proc_fds := (proc_fds s)(p := ?f)\<rparr>) j"
      by (simp add: table_refs_def)
    ultimately show ?thesis using table_refs_update [OF fin p(1), of s ?f j] by simp
  qed
  have pos: "0 < f_count (system_fd_table s ! i)" using cnt [OF i] refs [of i] by simp
  obtain s' where s': "drop_file i ?s = Some s'" "proc_fds s' = proc_fds ?s" "length (system_fd_table s') = ?N" "fd_this s' = fd_this s"
     "\<And>j. f_count (system_fd_table s' ! j) =
        (if j = i then f_count (system_fd_table s ! i) - 1 else f_count (system_fd_table s ! j))"
     "if f_count (system_fd_table s ! i) = 1
      then system_fd_table s' ! i = file_zero \<and> vnode_refs s' = vnode_refs (UNREF_OBJECT (f_vnode (system_fd_table s ! i)) ?s)
      else vnode_refs s' = vnode_refs s"
    using drop_file_ok [of i ?s] i len pos by auto
  have un: "vnode_refs (UNREF_OBJECT v ?s) = vnode_refs (UNREF_OBJECT v s)" for v
    by (simp add: UNREF_OBJECT_def Let_def split: option.splits)
  let ?r = "s'\<lparr>fd_lock := False\<rparr>"
  have run: "free_altprocfd p fd s = Some ?r"
    using s'(1) fd p(3) lock by (simp add: free_altprocfd_def fd_lock_acquire_def Let_def)
  have tr: "table_refs P ?r j = table_refs P ?s j" for j using s'(2) by (simp add: table_refs_def)
  have "f_count (system_fd_table ?r ! j) = table_refs P ?r j + pend j" if "j < ?N" for j
    using s'(5) [of j] cnt [OF that] refs [of j] tr [of j] by auto
  moreover have "ft_size (proc_fds ?r q) = length (ft_table (proc_fds ?r q)) \<and>
      set (ft_table (proc_fds ?r q)) \<subseteq> insert None (Some ` {..<?N})" if "q \<in> P" for q
  proof -
    have "set (?t[fd := None]) \<subseteq> insert None (Some ` {..<?N})"
      using set_update_subset_insert [of ?t fd None] sub by blast
    moreover have "ft_size (proc_fds s q) = length (ft_table (proc_fds s q)) \<and>
      set (ft_table (proc_fds s q)) \<subseteq> insert None (Some ` {..<?N})" using ok that by (simp add: refs_ok_def)
    ultimately show ?thesis using s'(2) by (cases "q = p") auto
  qed
  ultimately have "refs_ok P pend ?r" using fin s'(3) by (simp add: refs_ok_def)
  with run s'(2,4,6) un cnt [OF i] show ?thesis by (auto split: if_splits)
qed


lemma dupfd_store_ok:
  assumes ok: "refs_ok P pend s" and th: "fd_this s \<in> P" "i < ft_size (this_fds s)" "ft_table (this_fds s) ! i = None"
    and f: "f < SYSTEM_FD_TABLE_SIZE"
  shows "\<exists>s'. dupfd_store i f s = Some (0, s') \<and> refs_ok P pend s' \<and>
     ft_table (this_fds s') = (ft_table (this_fds s))[i := Some f]"
proof -
  let ?p = "fd_this s" and ?N = SYSTEM_FD_TABLE_SIZE
  let ?t = "ft_table (proc_fds s ?p)"
  let ?f = "(proc_fds s ?p)\<lparr>ft_table := ?t[i := Some f]\<rparr>"
  let ?e = "system_fd_table s ! f"
  let ?s = "s\<lparr>proc_fds := (proc_fds s)(?p := ?f), system_fd_table := (system_fd_table s)[f := ?e\<lparr>f_count := f_count ?e + 1\<rparr>]\<rparr>"
  have fin: "finite P" and len: "length (system_fd_table s) = ?N" and i: "i < length ?t"
    and cnt: "\<And>j. j < ?N \<Longrightarrow> f_count (system_fd_table s ! j) = table_refs P s j + pend j"
    and sub: "set ?t \<subseteq> insert None (Some ` {..<?N})"
    using ok th by (auto simp: refs_ok_def this_fds_def)
  have run: "dupfd_store i f s = Some (0, ?s)"
    using i f len by (simp add: dupfd_store_def this_fds_def set_this_fds_def Let_def)
  have refs: "table_refs P ?s j = table_refs P s j + (if j = f then 1 else 0)" for j
  proof -
    have "count (mset (?t[i := Some f])) (Some j) = count (mset ?t) (Some j) + (if j = f then 1 else 0)"
      using count_mset_update [OF i, of "Some j" "Some f"] th(3) by (auto simp: this_fds_def)
    moreover have "table_refs P ?s j = table_refs P (s\<lparr>proc_fds := (proc_fds s)(?p := ?f)\<rparr>) j"
      by (simp add: table_refs_def)
    ultimately show ?thesis using table_refs_update [OF fin th(1), of s ?f j] by simp
  qed
  have "f_count (system_fd_table ?s ! j) = table_refs P ?s j + pend j" if "j < ?N" for j
    using refs [of j] cnt [OF that] len f by (auto simp: nth_list_update)
  moreover have "ft_size (proc_fds ?s q) = length (ft_table (proc_fds ?s q)) \<and>
      set (ft_table (proc_fds ?s q)) \<subseteq> insert None (Some ` {..<?N})" if "q \<in> P" for q
  proof -
    have "set (?t[i := Some f]) \<subseteq> insert None (Some ` {..<?N})"
      using set_update_subset_insert [of ?t i "Some f"] sub f by blast
    moreover have "ft_size (proc_fds s q) = length (ft_table (proc_fds s q)) \<and>
      set (ft_table (proc_fds s q)) \<subseteq> insert None (Some ` {..<?N})" using ok that by (simp add: refs_ok_def)
    ultimately show ?thesis by (cases "q = ?p") auto
  qed
  ultimately have "refs_ok P pend ?s" using fin len by (simp add: refs_ok_def)
  moreover have "ft_table (this_fds ?s) = (ft_table (this_fds s))[i := Some f]" by (simp add: this_fds_def)
  ultimately show ?thesis using run by blast
qed

section \<open>Properties of the descriptor tables\<close>

text \<open>
  alloc_fd returns the first entry of the system table that is not in use, marks exactly
  that entry as used and keeps the search start correct; it returns -1 only when all
  entries are in use.
\<close>

theorem alloc_fd_least:
  assumes "fdt_inv s"
  shows "\<exists>r s'. alloc_fd s = Some (r, s') \<and> fdt_inv s' \<and>
     (if r = -1 then files_used s = {..<SYSTEM_FD_TABLE_SIZE} \<and> system_fd_table s' = system_fd_table s
      else 0 \<le> r \<and> nat r \<notin> files_used s \<and> {..<nat r} \<subseteq> files_used s \<and>
           files_used s' = insert (nat r) (files_used s))"
  by (rule alloc_fd_ok [OF assms])

definition fd_empty :: "nat \<Rightarrow> nat \<Rightarrow> nat \<Rightarrow> nat option list \<Rightarrow> nat \<Rightarrow> fd_state" where
  "fd_empty start sz mx t used = \<lparr>system_fd_table =
       replicate used (file_zero\<lparr>f_count := 1, f_vnode := Some 7\<rparr>) @ replicate (SYSTEM_FD_TABLE_SIZE - used) file_zero,
     fd_table_start = 0, fd_lock = False,
     proc_fds = (\<lambda>_. \<lparr>ft_table = t, ft_curr = start, ft_size = sz, ft_max_size = mx\<rparr>), fd_this = 0,
     vnode_refs = (\<lambda>_. 1), vnodes_freed = [], fd_errno = None\<rparr>"

theorem alloc_fd_least_witness:
  "fdt_inv (fd_empty 0 0 0 [] 3) \<and> (\<exists>r s'. alloc_fd (fd_empty 0 0 0 [] 3) = Some (r, s') \<and> fdt_inv s')"
proof -
  have inv: "fdt_inv (fd_empty 0 0 0 [] 3)" by (simp add: fdt_inv_def fd_empty_def SYSTEM_FD_TABLE_SIZE_def)
  then show ?thesis using alloc_fd_least [OF inv] by blast
qed

text \<open>
  C38: Closing a descriptor keeps all reference counts right: the count of every open file is
  again the number of table entries that refer to it; when the last one is closed the
  entry of the system table is cleared and the vnode loses one reference, and otherwise
  no vnode is touched.
\<close>

theorem free_altprocfd_refcount:
  assumes "refs_ok P pend s" and "p \<in> P" and "fd < ft_size (proc_fds s p)"
    and "ft_table (proc_fds s p) ! fd = Some i" and "\<not> fd_lock s"
  shows "\<exists>s'. free_altprocfd p fd s = Some s' \<and> refs_ok P pend s' \<and>
     proc_fds s' = (proc_fds s)(p := (proc_fds s p)\<lparr>ft_table := (ft_table (proc_fds s p))[fd := None]\<rparr>) \<and>
     (if table_refs P s i + pend i = 1
      then system_fd_table s' ! i = file_zero \<and>
           vnode_refs s' = vnode_refs (UNREF_OBJECT (f_vnode (system_fd_table s ! i)) s)
      else vnode_refs s' = vnode_refs s)"
  using free_altprocfd_ok [OF assms] by blast

lemma fd_empty_refs: "refs_ok {0} (\<lambda>_. 0) (fd_empty 1 2 2 [Some 0, None] 1)"
  unfolding refs_ok_def by (auto simp: fd_empty_def table_refs_def SYSTEM_FD_TABLE_SIZE_def nth_Cons file_zero_def split: nat.split)

theorem free_altprocfd_refcount_witness:
  "\<exists>s'. free_altprocfd 0 0 (fd_empty 1 2 2 [Some 0, None] 1) = Some s' \<and> refs_ok {0} (\<lambda>_. 0) s' \<and>
     system_fd_table s' ! 0 = file_zero"
proof -
  have r: "table_refs {0} (fd_empty 1 2 2 [Some 0, None] 1) 0 = 1" by (simp add: fd_empty_def table_refs_def)
  from free_altprocfd_refcount [OF fd_empty_refs, of 0 0 0] r show ?thesis
    by (auto simp: fd_empty_def)
qed

text \<open>
  When there is a free slot at or after fd2, duplicating a descriptor stores the same file
  in the first such slot and keeps all reference counts right.
\<close>

theorem dupfd_shares_file:
  assumes "refs_ok P pend s" and "fd_this s \<in> P" and "fd < ft_size (this_fds s)"
    and "ft_table (this_fds s) ! fd = Some f" and "fd2 < 2 ^ 63"
    and "first_clear {j. ft_table (this_fds s) ! j \<noteq> None} fd2 (ft_size (this_fds s) - fd2) = Some j"
  shows "\<exists>s'. dupfd al (int fd) (int fd2) s = Some (0, s', al) \<and> refs_ok P pend s' \<and>
     ft_table (this_fds s') = (ft_table (this_fds s))[j := Some f]"
proof -
  let ?t = "ft_table (this_fds s)"
  have len: "ft_size (this_fds s) = length ?t" and sub: "set ?t \<subseteq> insert None (Some ` {..<SYSTEM_FD_TABLE_SIZE})"
    using assms(1,2) by (simp_all add: refs_ok_def this_fds_def)
  have j: "fd2 \<le> j" "j < length ?t" "?t ! j = None" "\<And>k. fd2 \<le> k \<Longrightarrow> k < j \<Longrightarrow> ?t ! k \<noteq> None"
    using assms(6) len by (auto simp: first_clear_Some subset_eq)
  have "first_clear {k. k < length ?t \<and> ?t ! k \<noteq> None} fd2 (length ?t - fd2) = Some j"
    using j by (auto simp: first_clear_Some subset_eq)
  then have scan: "fd_scan ?t fd2 (length ?t - fd2) = Some (Some j)"
    using fd_scan_first_clear [of fd2 "length ?t - fd2" ?t] j by simp
  have "Some f \<in> set ?t" using assms(3,4) len by (metis nth_mem)
  then have f: "f < SYSTEM_FD_TABLE_SIZE" using sub by auto
  have ff: "file_fd (int fd) s = Some (Some f, s)" using assms(3,4) len by (simp add: file_fd_def Let_def)
  have idx: "nat (int fd2 mod 2 ^ 64) = fd2" using assms(5) by simp
  obtain s' where s': "dupfd_store j f s = Some (0, s')" "refs_ok P pend s'" "ft_table (this_fds s') = ?t[j := Some f]"
    using dupfd_store_ok [OF assms(1,2) _ j(3) f] j(2) len by auto
  have "dupfd al (int fd) (int fd2) s = Some (0, s', al)"
    unfolding dupfd_def ff using scan len s'(1) idx by (simp add: Let_def)
  with s'(2,3) show ?thesis by blast
qed

theorem dupfd_shares_file_witness:
  "\<exists>s'. dupfd [] 0 0 (fd_empty 1 2 2 [Some 0, None] 1) = Some (0, s', []) \<and> refs_ok {0} (\<lambda>_. 0) s'"
  using dupfd_shares_file [OF fd_empty_refs, of 0 0 0 1 "[]"]
  by (auto simp: fd_empty_def this_fds_def numeral_2_eq_2)

text \<open>
  Closing a descriptor does not make its slot available to alloc_procfd again: the search
  start is never lowered, so once it has reached the limit every allocation fails with
  EMFILE even though the table has free slots.
\<close>

theorem closed_descriptor_not_reused:
  assumes "refs_ok P pend s" and "fd_this s \<in> P" and "fd < ft_size (this_fds s)"
    and "ft_table (this_fds s) ! fd = Some i" and "\<not> fd_lock s"
    and "ft_size (this_fds s) = ft_max_size (this_fds s)" and "ft_curr (this_fds s) = ft_size (this_fds s)"
  shows "\<exists>s1 s2. free_procfd fd s = Some s1 \<and> ft_table (this_fds s1) ! fd = None \<and>
     alloc_procfd al s1 = Some (-1, s2, al) \<and> fd_errno s2 = Some EMFILE"
proof -
  obtain s1 where s1: "free_procfd fd s = Some s1" "refs_ok P pend s1" and same: "fd_this s1 = fd_this s" "\<not> fd_lock s1"
    and s1':
     "proc_fds s1 = (proc_fds s)(fd_this s := (this_fds s)\<lparr>ft_table := (ft_table (this_fds s))[fd := None]\<rparr>)"
    using free_altprocfd_ok [OF assms(1,2) _ _ assms(5), of fd i] assms(3,4) by (auto simp: free_procfd_def this_fds_def)
  have len: "fd < length (ft_table (this_fds s))" using assms(1-3) by (simp add: refs_ok_def this_fds_def)
  have t1: "this_fds s1 = (this_fds s)\<lparr>ft_table := (ft_table (this_fds s))[fd := None]\<rparr>"
    using s1' same(1) by (simp add: this_fds_def)
  have "this_fds (s1\<lparr>fd_lock := True\<rparr>) = this_fds s1" by (simp add: this_fds_def)
  then have "\<exists>s2. alloc_procfd al s1 = Some (-1, s2, al) \<and> fd_errno s2 = Some EMFILE"
    using t1 assms(6,7) same(2) by (simp add: alloc_procfd_def fd_lock_acquire_def Let_def)
  with s1(1) t1 len show ?thesis by auto
qed

theorem closed_descriptor_not_reused_witness:
  "\<exists>s1 s2. free_procfd 0 (fd_empty 2 2 2 [Some 0, None] 1) = Some s1 \<and> ft_table (this_fds s1) ! 0 = None \<and>
     alloc_procfd [] s1 = Some (-1, s2, []) \<and> fd_errno s2 = Some EMFILE"
proof -
  have "refs_ok {0} (\<lambda>_. 0) (fd_empty 2 2 2 [Some 0, None] 1)"
    using fd_empty_refs by (simp add: refs_ok_def fd_empty_def table_refs_def)
  from closed_descriptor_not_reused [OF this, of 0 0 "[]"] show ?thesis
    by (simp add: fd_empty_def this_fds_def)
qed

text \<open>
  dupfd writes outside of the descriptor table when fd2 is at or above the limit on
  descriptors and the table may still grow.
\<close>

theorem dupfd_writes_out_of_bounds:
  assumes "ft_size (this_fds s) = length (ft_table (this_fds s))" and "fd < ft_size (this_fds s)"
    and "ft_table (this_fds s) ! fd = Some f"
    and "ft_size (this_fds s) < ft_max_size (this_fds s)" and "ft_max_size (this_fds s) \<le> fd2" and "fd2 < 2 ^ 31 - 1"
  shows "dupfd [] (int fd) (int fd2) s = None"
proof -
  let ?t = "this_fds s"
  have ff: "file_fd (int fd) s = Some (Some f, s)" using assms(1-3) by (simp add: file_fd_def Let_def)
  have idx: "nat (int fd2 mod 2 ^ 64) = fd2" using assms(6) by simp
  have w: "unat (word_of_int (int fd2 + 1) :: u64) = fd2 + 1"
  proof -
    have "word_of_int (int fd2 + 1) = (word_of_nat (fd2 + 1) :: u64)" by simp
    then show ?thesis using assms(6) by (simp add: unsigned_of_nat take_bit_eq_mod del: of_nat_Suc of_nat_add)
  qed
  have "0 < (word_of_int (int fd2 + 1) :: u64)" "(word_of_int (int fd2 + 1) :: u64) \<le> 2 ^ 63"
    using w assms(6) by (simp_all add: word_less_nat_alt word_le_nat_alt)
  then obtain k where k: "k < 64" "next64_p2 (word_of_int (int fd2 + 1)) = exp64 k" "fd2 + 1 \<le> 2 ^ k"
    using next64_p2_spec [of "word_of_int (int fd2 + 1)"] w by auto
  then have big: "ft_max_size ?t < unat (next64_p2 (word_of_int (int fd2 + 1)))"
    using assms(5) unat_exp64 [of k] by simp
  have out: "dupfd_store fd2 f (set_this_fds (?t\<lparr>ft_table := ft_table ?t @ replicate (ft_max_size ?t - ft_size ?t) None,
      ft_size := ft_max_size ?t\<rparr>) s) = None"
    using assms(1,4,5) by (simp add: dupfd_store_def this_fds_def set_this_fds_def Let_def)
  have "fd_scan (ft_table ?t) fd2 (ft_size ?t - fd2) = Some None" using assms(4,5) by simp
  then show ?thesis unfolding dupfd_def ff using idx big assms(4) out by (simp add: Let_def resize_table_def)
qed

theorem dupfd_writes_out_of_bounds_witness: "dupfd [] 0 1000 (fd_empty 1 2 256 [Some 0, None] 1) = None"
  using dupfd_writes_out_of_bounds [of "fd_empty 1 2 256 [Some 0, None] 1" 0 0 1000]
  by (simp add: fd_empty_def this_fds_def)

end
