(* ===== verification/Pml_Signal.thy ===== *)
theory Pml_Signal
  imports Pml_Cred
begin

text \<open>
  kernel/signal.c: signal sets, sending a signal to a thread or a process, picking the next
  signal to handle, deciding what to do with it, and the signal system calls. Threads are
  part of their process, processes are reached through pointers as in the process table.
  The loops that wait for a signal (sys_pause, sys_sigsuspend, sys_nanosleep) are left out.

  \<open>None\<close> stands for an access outside of an array or to memory that was never written.
\<close>

section \<open>Signal numbers and sets\<close>

definition NSIG :: nat where "NSIG = 64"
definition SIGRTMIN :: nat where "SIGRTMIN = 32"
definition SIGKILL :: nat where "SIGKILL = 9"
definition SIGCHLD :: nat where "SIGCHLD = 17"
definition SIGSTOP :: nat where "SIGSTOP = 19"
definition SA_SIGINFO :: u64 where "SA_SIGINFO = 4"
definition SA_NODEFER :: u64 where "SA_NODEFER = 32"
definition SIG_DFL :: u64 where "SIG_DFL = 0"
definition SIG_IGN :: u64 where "SIG_IGN = 1"

text \<open>A shift count is reduced modulo 64, as the processor does for the count 64.\<close>

definition sigbit :: "nat \<Rightarrow> u64" where
  "sigbit sig = push_bit ((NSIG - sig) mod 64) 1"

definition sigemptyset :: u64 where
  "sigemptyset = 0"

definition sigfillset :: u64 where
  "sigfillset = 0xffffffffffffffff"

definition sigaddset :: "u64 \<Rightarrow> nat \<Rightarrow> u64" where
  "sigaddset s sig = s OR sigbit sig"

definition sigdelset :: "u64 \<Rightarrow> nat \<Rightarrow> u64" where
  "sigdelset s sig = s AND NOT (sigbit sig)"

definition sigismember :: "u64 \<Rightarrow> nat \<Rightarrow> bool" where
  "sigismember s sig = (s AND sigbit sig \<noteq> 0)"

section \<open>State\<close>

datatype thread_state = THREAD_STATE_RUNNING | THREAD_STATE_BLOCKED | THREAD_STATE_IO

record siginfo =
  si_signo :: nat
  si_code :: nat
  si_errno :: int
  si_pid :: int
  si_uid :: u32
  si_status :: int
  si_utime :: int
  si_stime :: int

text \<open>The entries of a queue that realloc has made and nobody has written yet are \<open>None\<close>.\<close>

record rtsig_queue =
  rq_queue :: "siginfo option list"
  rq_len :: nat

record thread =
  t_state :: thread_state
  t_sig :: int
  t_sigblocked :: u64
  t_sigpending :: u64
  t_sigready :: u64
  t_siginfo :: "siginfo option list"
  t_rtqueue :: "rtsig_queue list"
  t_handler :: u64
  t_hflags :: u64
  t_hsig :: nat
  t_hmask :: u64
  t_slow_syscall :: bool

record sigaction =
  sa_handler :: u64
  sa_sigaction :: u64
  sa_flags :: u64
  sa_mask :: u64

record sig_process = process +
  sp_threads :: "thread list"
  sp_front :: nat
  sp_utime :: "int \<times> int"
  sp_stime :: "int \<times> int"
  sp_sighandlers :: "sigaction list"

record sig_state =
  s_procs :: "nat \<Rightarrow> sig_process"
  s_pids :: "nat hashmap"
  s_queue :: "nat list"
  s_front :: nat

section \<open>Sending\<close>

definition realloc_queue :: "nat \<Rightarrow> siginfo option list \<Rightarrow> siginfo option list" where
  "realloc_queue n q = take n q @ replicate (n - length q) None"

definition send_signal_thread ::
    "alloc_outcomes \<Rightarrow> thread \<Rightarrow> nat \<Rightarrow> siginfo \<Rightarrow> (thread \<times> alloc_outcomes) option" where
  "send_signal_thread al t sig info =
     (if sigismember (t_sigready t) sig \<and> sig < SIGRTMIN then Some (t, al)
      else let t = (if sigismember (t_sigblocked t) sig
                    then t\<lparr>t_sigpending := sigaddset (t_sigpending t) sig\<rparr> else t);
               t = t\<lparr>t_sigready := sigaddset (t_sigready t) sig\<rparr>
           in if sig < SIGRTMIN
              then if sig - 1 \<ge> length (t_siginfo t) then None
                   else Some (t\<lparr>t_siginfo := (t_siginfo t)[sig - 1 := Some info], t_sig := t_sig t + 1\<rparr>, al)
              else if sig - SIGRTMIN \<ge> length (t_rtqueue t) then None
              else let q = t_rtqueue t ! (sig - SIGRTMIN);
                       q = q\<lparr>rq_len := rq_len q + 1\<rparr>;
                       t = t\<lparr>t_rtqueue := (t_rtqueue t)[sig - SIGRTMIN := q]\<rparr>;
                       (ok, al) = take_alloc al
                   in if \<not> ok then Some (t, al)
                      else let buf = realloc_queue (rq_len q) (rq_queue q);
                               q = q\<lparr>rq_queue := buf[rq_len q - 1 := Some info]\<rparr>
                           in Some (t\<lparr>t_rtqueue := (t_rtqueue t)[sig - SIGRTMIN := q], t_sig := t_sig t + 1\<rparr>, al))"

text \<open>The four searches of send_signal for a thread, in order.\<close>

fun find_index_from :: "(thread \<Rightarrow> bool) \<Rightarrow> nat \<Rightarrow> thread list \<Rightarrow> nat option" where
  "find_index_from P i [] = None"
| "find_index_from P i (t # ts) = (if P t then Some i else find_index_from P (Suc i) ts)"

definition send_signal_target :: "sig_process \<Rightarrow> nat \<Rightarrow> nat" where
  "send_signal_target p sig =
     (let ts = sp_threads p;
          running = (\<lambda>t. t_state t = THREAD_STATE_RUNNING);
          unpending = (\<lambda>t. \<not> sigismember (t_sigpending t) sig);
          blocked = (\<lambda>t. sigismember (t_sigblocked t) sig)
      in case find_index_from (\<lambda>t. running t \<and> unpending t \<and> blocked t) 0 ts of
           Some i \<Rightarrow> i
         | None \<Rightarrow>
             (case find_index_from (\<lambda>t. running t \<and> unpending t) 0 ts of
                Some i \<Rightarrow> i
              | None \<Rightarrow> (case find_index_from running 0 ts of Some i \<Rightarrow> i | None \<Rightarrow> 0)))"

definition send_signal ::
    "alloc_outcomes \<Rightarrow> sig_process \<Rightarrow> nat \<Rightarrow> siginfo \<Rightarrow> (sig_process \<times> alloc_outcomes) option" where
  "send_signal al p sig info =
     (let i = send_signal_target p sig in
      if i \<ge> length (sp_threads p) then None
      else map_option (\<lambda>(t, al). (p\<lparr>sp_threads := (sp_threads p)[i := t]\<rparr>, al))
             (send_signal_thread al (sp_threads p ! i) sig info))"

section \<open>Receiving\<close>

text \<open>The pending signal that poll_signal takes: the loop body for the signal \<open>i\<close>.\<close>

definition take_signal :: "thread \<Rightarrow> nat \<Rightarrow> (siginfo \<times> thread) option" where
  "take_signal t i =
     (if i < SIGRTMIN
      then if i - 1 \<ge> length (t_siginfo t) then None
           else map_option (\<lambda>info. (info, t\<lparr>t_sigready := sigdelset (t_sigready t) i, t_sig := t_sig t - 1\<rparr>))
                  (t_siginfo t ! (i - 1))
      else if i - SIGRTMIN \<ge> length (t_rtqueue t) then None
      else let q = t_rtqueue t ! (i - SIGRTMIN); n = rq_len q - 1 in
           if rq_queue q = [] \<or> length (rq_queue q) < rq_len q then None
           else map_option (\<lambda>info.
                  (info, t\<lparr>t_sigready := (if n = 0 then sigdelset (t_sigready t) i else t_sigready t),
                           t_rtqueue := (t_rtqueue t)[i - SIGRTMIN :=
                             q\<lparr>rq_queue := take n (tl (rq_queue q)) @ drop n (rq_queue q), rq_len := n\<rparr>],
                           t_sig := t_sig t - 1\<rparr>))
                  (hd (rq_queue q)))"

fun poll_signal_from :: "thread \<Rightarrow> nat list \<Rightarrow> (nat \<times> siginfo option \<times> thread) option" where
  "poll_signal_from t [] = Some (0, None, t)"
| "poll_signal_from t (i # is) =
     (if sigismember (t_sigready t) i \<and> \<not> sigismember (t_sigblocked t) i
      then map_option (\<lambda>(info, t). (i, Some info, t)) (take_signal t i)
      else poll_signal_from t is)"

text \<open>The signal found, 0 for none, with the info that is copied to the process.\<close>

definition poll_signal :: "thread \<Rightarrow> (nat \<times> siginfo option \<times> thread) option" where
  "poll_signal t =
     (if t_sig t = 0 then Some (0, None, t) else poll_signal_from t [1..<NSIG + 1])"

definition signal_handler :: "thread \<Rightarrow> u64" where
  "signal_handler t = t_handler t"

definition poll_signal_handler :: "thread \<Rightarrow> u64 \<times> nat \<times> u64 \<times> thread" where
  "poll_signal_handler t =
     (let addr = t_handler t; sig = t_hsig t; old = t_sigblocked t;
          t = t\<lparr>t_sigblocked := t_sigblocked t OR t_hmask t\<rparr>;
          t = (if t_hflags t AND SA_NODEFER = 0
               then t\<lparr>t_sigblocked := sigaddset (t_sigblocked t) (t_hsig t)\<rparr> else t);
          t = t\<lparr>t_sigready := sigdelset (t_sigready t) (nat (t_sig t)), t_sig := 0, t_handler := 0,
                t_hflags := 0, t_hsig := 0, t_hmask := sigemptyset\<rparr>
      in (addr, sig, old, t))"

definition slow_syscall :: "thread \<Rightarrow> bool" where
  "slow_syscall t = t_slow_syscall t"

definition slow_syscall_end :: "thread \<Rightarrow> thread" where
  "slow_syscall_end t = t\<lparr>t_slow_syscall := False\<rparr>"

definition update_signal_mask :: "u64 \<Rightarrow> thread \<Rightarrow> thread" where
  "update_signal_mask m t = t\<lparr>t_sigblocked := m\<rparr>"

section \<open>Acting on a signal\<close>

definition convert_time :: "int \<times> int \<Rightarrow> int" where
  "convert_time t = fst t * 1000000 + snd t"

datatype handle_outcome = Signal_ignored | Process_killed nat | Stop_requested | Handler_loaded

text \<open>The signals of the two groups of cases of the switch in handle_signal.\<close>

definition term_signals :: "nat list" where
  "term_signals = [6, 14, 7, 8, 1, 4, 2, 29, 13, 27, 30, 3, 11, 16, 31, 15, 5, 10, 12, 26, 24, 25]"

definition stop_signals :: "nat list" where
  "stop_signals = [20, 21, 22]"

definition CLD_KILLED :: nat where "CLD_KILLED = 0x701"
definition SI_USER :: nat where "SI_USER = 0x100"

definition this_proc :: "sig_state \<Rightarrow> nat" where
  "this_proc s = s_queue s ! s_front s"

definition handle_signal ::
    "alloc_outcomes \<Rightarrow> nat \<Rightarrow> sig_state \<Rightarrow> (handle_outcome \<times> sig_state \<times> alloc_outcomes) option" where
  "handle_signal al sig s =
     (let me = this_proc s; p = s_procs s me in
      if sig - 1 \<ge> length (sp_sighandlers p) \<or> sp_front p \<ge> length (sp_threads p) then None
      else let h = sp_sighandlers p ! (sig - 1);
               info = (sa_flags h AND SA_SIGINFO \<noteq> 0);
               dfl = (\<not> info \<and> sa_handler h = SIG_DFL);
               kill = (sig = SIGKILL);
               stop = (sig = SIGSTOP)
           in if \<not> kill \<and> \<not> info \<and> sa_handler h = SIG_IGN then Some (Signal_ignored, s, al)
              else let kill = (kill \<or> sig \<in> set term_signals \<and> dfl);
                       stop = (stop \<or> sig \<in> set stop_signals \<and> dfl)
                   in if kill
                      then (case (if p_ppid p = 0 then Some None else lookup_pid (s_pids s) (p_ppid p)) of
                              None \<Rightarrow> None
                            | Some None \<Rightarrow> Some (Process_killed sig, s, al)
                            | Some (Some parent) \<Rightarrow>
                                (let cinfo = \<lparr>si_signo = SIGCHLD, si_code = CLD_KILLED, si_errno = 0,
                                              si_pid = p_pid p, si_uid = p_uid p, si_status = int sig,
                                              si_utime = convert_time (sp_utime p),
                                              si_stime = convert_time (sp_stime p)\<rparr>
                                 in case send_signal al (s_procs s parent) SIGCHLD cinfo of
                                      None \<Rightarrow> None
                                    | Some (pp, al) \<Rightarrow>
                                        Some (Process_killed sig, s\<lparr>s_procs := (s_procs s)(parent := pp)\<rparr>, al)))
                      else if stop then Some (Stop_requested, s, al)
                      else let t = (sp_threads p ! sp_front p)
                                     \<lparr>t_handler := (if info then sa_sigaction h else sa_handler h),
                                      t_hflags := sa_flags h, t_hsig := sig, t_hmask := sa_mask h\<rparr>;
                               p = p\<lparr>sp_threads := (sp_threads p)[sp_front p := t]\<rparr>
                           in Some (Handler_loaded, s\<lparr>s_procs := (s_procs s)(me := p)\<rparr>, al))"

section \<open>System calls\<close>

definition sig_settable :: "int \<Rightarrow> bool" where
  "sig_settable sig = (\<not> (sig \<le> 0 \<or> sig > int NSIG \<or> sig = int SIGKILL \<or> sig = int SIGSTOP))"

definition sys_sigaction ::
    "int \<Rightarrow> sigaction option \<Rightarrow> sig_process \<Rightarrow> (errno + sigaction \<times> sig_process) option" where
  "sys_sigaction sig act p =
     (if \<not> sig_settable sig then Some (Inl EINVAL)
      else let i = nat sig - 1 in
           if i \<ge> length (sp_sighandlers p) then None
           else Some (Inr (sp_sighandlers p ! i,
                  case act of None \<Rightarrow> p | Some a \<Rightarrow> p\<lparr>sp_sighandlers := (sp_sighandlers p)[i := a]\<rparr>)))"

definition sys_signal :: "int \<Rightarrow> u64 \<Rightarrow> sig_process \<Rightarrow> (errno + u64 \<times> sig_process) option" where
  "sys_signal sig handler p =
     (if \<not> sig_settable sig then Some (Inl EINVAL)
      else case sys_sigaction sig (Some \<lparr>sa_handler = handler, sa_sigaction = 0, sa_flags = 0, sa_mask = 0\<rparr>) p of
             None \<Rightarrow> None
           | Some (Inl e) \<Rightarrow> Some (Inl e)
           | Some (Inr (old, p)) \<Rightarrow> Some (Inr (sa_handler old, p)))"

datatype sigmask_how = SIG_BLOCK | SIG_UNBLOCK | SIG_SETMASK | SIG_HOW_OTHER

definition sys_sigprocmask :: "sigmask_how \<Rightarrow> u64 option \<Rightarrow> thread \<Rightarrow> errno + u64 \<times> thread" where
  "sys_sigprocmask how sset t =
     (let old = t_sigblocked t in
      case sset of
        None \<Rightarrow> Inr (old, t)
      | Some m \<Rightarrow>
          (case how of
             SIG_BLOCK \<Rightarrow> Inr (old, t\<lparr>t_sigblocked := t_sigblocked t OR m\<rparr>)
           | SIG_UNBLOCK \<Rightarrow> Inr (old, t\<lparr>t_sigblocked := t_sigblocked t AND NOT m\<rparr>)
           | SIG_SETMASK \<Rightarrow> Inr (old, t\<lparr>t_sigblocked := m\<rparr>)
           | SIG_HOW_OTHER \<Rightarrow> Inl EINVAL))"

text \<open>sys_kill for a positive process number and a signal from 1 to NSIG.\<close>

definition kill_one ::
    "alloc_outcomes \<Rightarrow> int \<Rightarrow> nat \<Rightarrow> sig_state \<Rightarrow> (errno option \<times> sig_state \<times> alloc_outcomes) option" where
  "kill_one al pid sig s =
     (let me = s_procs s (this_proc s) in
      case lookup_pid (s_pids s) pid of
        None \<Rightarrow> None
      | Some None \<Rightarrow> Some (Some ESRCH, s, al)
      | Some (Some q) \<Rightarrow>
          (if p_euid me \<noteq> 0 \<and> p_euid me \<noteq> p_euid (s_procs s q) then Some (Some EPERM, s, al)
           else let info = \<lparr>si_signo = sig, si_code = SI_USER, si_errno = 0, si_pid = p_pid me,
                            si_uid = p_uid me, si_status = 0, si_utime = 0, si_stime = 0\<rparr>
                in case send_signal al (s_procs s q) sig info of
                     None \<Rightarrow> None
                   | Some (p, al) \<Rightarrow> Some (None, s\<lparr>s_procs := (s_procs s)(q := p)\<rparr>, al)))"

text \<open>sys_kill for a positive process number.\<close>

definition kill_positive ::
    "alloc_outcomes \<Rightarrow> int \<Rightarrow> int \<Rightarrow> sig_state \<Rightarrow> (errno option \<times> sig_state \<times> alloc_outcomes) option" where
  "kill_positive al pid sig s =
     (if sig < 0 \<or> sig > int NSIG then Some (Some EINVAL, s, al)
      else if sig = 0
      then case lookup_pid (s_pids s) pid of
             None \<Rightarrow> None
           | Some None \<Rightarrow> Some (Some ESRCH, s, al)
           | Some (Some q) \<Rightarrow> Some (None, s, al)
      else kill_one al pid (nat sig) s)"

text \<open>
  The loops over the process queue from index 1; processes there have positive numbers, so
  the recursive call of sys_kill is kill_positive (\<open>None\<close> otherwise).
\<close>

fun kill_loop ::
    "(sig_state \<Rightarrow> nat \<Rightarrow> bool) \<Rightarrow> int \<Rightarrow> alloc_outcomes \<Rightarrow> nat list \<Rightarrow> sig_state
     \<Rightarrow> (errno option \<times> sig_state \<times> alloc_outcomes) option" where
  "kill_loop sel sig al [] s = Some (None, s, al)"
| "kill_loop sel sig al (q # qs) s =
     (if sel s q
      then if p_pid (s_procs s q) \<le> 0 then None
           else case kill_positive al (p_pid (s_procs s q)) sig s of
                  None \<Rightarrow> None
                | Some (None, s, al) \<Rightarrow> kill_loop sel sig al qs s
                | Some (Some e, s, al) \<Rightarrow> Some (Some e, s, al)
      else kill_loop sel sig al qs s)"

definition sys_killpg ::
    "alloc_outcomes \<Rightarrow> int \<Rightarrow> int \<Rightarrow> sig_state \<Rightarrow> (errno option \<times> sig_state \<times> alloc_outcomes) option" where
  "sys_killpg al pgrp sig s =
     kill_loop (\<lambda>s q. p_pgid (s_procs s q) = pgrp \<and> p_pid (s_procs s q) > 1) sig al (drop 1 (s_queue s)) s"

definition sys_kill ::
    "alloc_outcomes \<Rightarrow> int \<Rightarrow> int \<Rightarrow> sig_state \<Rightarrow> (errno option \<times> sig_state \<times> alloc_outcomes) option" where
  "sys_kill al pid sig s =
     (if sig < 0 \<or> sig > int NSIG then Some (Some EINVAL, s, al)
      else if sig = 0
      then case lookup_pid (s_pids s) pid of
             None \<Rightarrow> None
           | Some None \<Rightarrow> Some (Some ESRCH, s, al)
           | Some (Some q) \<Rightarrow> Some (None, s, al)
      else if pid = -1
      then kill_loop (\<lambda>s q. p_euid (s_procs s q) \<noteq> 0 \<and> q \<noteq> this_proc s) sig al (drop 1 (s_queue s)) s
      else if pid = 0 then sys_killpg al (p_pgid (s_procs s (this_proc s))) sig s
      else if pid < 0 then sys_killpg al (- pid) sig s
      else kill_positive al pid sig s)"

section \<open>Signal sets\<close>

lemma sigbit_eq: "1 \<le> sig \<Longrightarrow> sig \<le> 64 \<Longrightarrow> sigbit sig = push_bit (64 - sig) 1"
  by (simp add: sigbit_def NSIG_def)

lemma sigismember_bit: "1 \<le> sig \<Longrightarrow> sig \<le> 64 \<Longrightarrow> sigismember s sig \<longleftrightarrow> bit s (64 - sig)"
  unfolding sigismember_def by (subst sigbit_eq) (simp_all add: and_push_bit_1_iff del: push_bit_of_1)

lemma bit_sigbit: "1 \<le> a \<Longrightarrow> a \<le> 64 \<Longrightarrow> bit (sigbit a) n \<longleftrightarrow> n = 64 - a"
  by (subst sigbit_eq) (auto simp: bit_simps)

text \<open>The laws of sets for the mask operations, for every signal from 1 to 64.\<close>

lemma sigset_laws:
  assumes "1 \<le> a" "a \<le> 64" "1 \<le> b" "b \<le> 64"
  shows "sigismember (sigaddset s a) b \<longleftrightarrow> b = a \<or> sigismember s b"
    and "sigismember (sigdelset s a) b \<longleftrightarrow> b \<noteq> a \<and> sigismember s b"
    and "\<not> sigismember sigemptyset b" and "sigismember sigfillset b"
proof -
  have e: "64 - b = 64 - a \<longleftrightarrow> b = a" using assms by auto
  have lt: "64 - b < 64" using assms by simp
  have add: "bit (sigaddset s a) n \<longleftrightarrow> bit s n \<or> n = 64 - a" for n
    unfolding sigaddset_def bit_or_iff using bit_sigbit [OF assms(1,2)] by simp
  have del: "n < 64 \<Longrightarrow> bit (sigdelset s a) n \<longleftrightarrow> bit s n \<and> n \<noteq> 64 - a" for n
    unfolding sigdelset_def bit_and_iff bit_not_iff using bit_sigbit [OF assms(1,2)] by (simp add: exp_eq_zero_iff)
  show "sigismember (sigaddset s a) b \<longleftrightarrow> b = a \<or> sigismember s b"
    unfolding sigismember_bit [OF assms(3,4)] add e by auto
  show "sigismember (sigdelset s a) b \<longleftrightarrow> b \<noteq> a \<and> sigismember s b"
    unfolding sigismember_bit [OF assms(3,4)] del [OF lt] e by auto
  show "\<not> sigismember sigemptyset b" by (simp add: sigismember_def sigemptyset_def)
  have fill: "sigfillset = (-1 :: u64)" by (simp add: sigfillset_def)
  show "sigismember sigfillset b"
    unfolding sigismember_bit [OF assms(3,4)] fill using lt by simp
qed

lemma sigset_union:
  assumes "1 \<le> a" "a \<le> 64"
  shows "sigismember (s OR m) a \<longleftrightarrow> sigismember s a \<or> sigismember m a"
    and "sigismember (s AND NOT m) a \<longleftrightarrow> sigismember s a \<and> \<not> sigismember m a"
  using sigismember_bit [OF assms] assms by (auto simp: bit_or_iff bit_and_iff bit_not_iff exp_eq_zero_iff)

section \<open>Finding the next signal\<close>

definition deliverable :: "thread \<Rightarrow> nat \<Rightarrow> bool" where
  "deliverable t i = (sigismember (t_sigready t) i \<and> \<not> sigismember (t_sigblocked t) i)"

lemma poll_signal_from_first:
  "poll_signal_from t (xs @ i # ys) = map_option (\<lambda>(info, t). (i, Some info, t)) (take_signal t i)"
  if "deliverable t i" and "\<forall>j \<in> set xs. \<not> deliverable t j"
  using that by (induction xs) (auto simp: deliverable_def)

lemma poll_signal_from_none: "\<forall>j \<in> set xs. \<not> deliverable t j \<Longrightarrow> poll_signal_from t xs = Some (0, None, t)"
  by (induction xs) (auto simp: deliverable_def)

lemma poll_signal_least:
  assumes "t_sig t \<noteq> 0" and "1 \<le> i" "i \<le> 64" "deliverable t i" "\<forall>j. 1 \<le> j \<and> j < i \<longrightarrow> \<not> deliverable t j"
  shows "poll_signal t = map_option (\<lambda>(info, t). (i, Some info, t)) (take_signal t i)"
proof -
  have "[1..<65] = [1..<i] @ i # [Suc i..<65]"
    using assms(2,3) upt_add_eq_append [of 1 i "65 - i"] by (simp add: upt_conv_Cons)
  then show ?thesis using poll_signal_from_first [OF assms(4), of "[1..<i]" "[Suc i..<65]"] assms(1,5)
    by (simp add: poll_signal_def NSIG_def)
qed


section \<open>Queues of real-time signals\<close>

text \<open>The infos queued for a real-time signal, oldest first.\<close>

definition queued :: "thread \<Rightarrow> nat \<Rightarrow> siginfo option list" where
  "queued t sig = (let q = t_rtqueue t ! (sig - SIGRTMIN) in take (rq_len q) (rq_queue q))"

definition thread_ok :: "thread \<Rightarrow> bool" where
  "thread_ok t = (length (t_siginfo t) = SIGRTMIN \<and> length (t_rtqueue t) = NSIG - SIGRTMIN \<and>
     (\<forall>i < NSIG - SIGRTMIN. let q = t_rtqueue t ! i in
        rq_len q \<le> length (rq_queue q) \<and> None \<notin> set (take (rq_len q) (rq_queue q)) \<and>
        (sigismember (t_sigready t) (i + SIGRTMIN) \<longleftrightarrow> 0 < rq_len q)))"

lemma send_rt:
  assumes ok: "thread_ok t" and sig: "SIGRTMIN \<le> sig" "sig < NSIG"
  shows "\<exists>t'. send_signal_thread [] t sig info = Some (t', []) \<and> queued t' sig = queued t sig @ [Some info] \<and>
     t_sig t' = t_sig t + 1 \<and> t_sigready t' = sigaddset (t_sigready t) sig \<and> t_sigblocked t' = t_sigblocked t \<and>
     length (t_rtqueue t') = NSIG - SIGRTMIN \<and>
     (\<forall>i < NSIG - SIGRTMIN. i \<noteq> sig - SIGRTMIN \<longrightarrow> t_rtqueue t' ! i = t_rtqueue t ! i) \<and>
     rq_len (t_rtqueue t' ! (sig - SIGRTMIN)) = rq_len (t_rtqueue t ! (sig - SIGRTMIN)) + 1 \<and>
     length (rq_queue (t_rtqueue t' ! (sig - SIGRTMIN))) = rq_len (t_rtqueue t ! (sig - SIGRTMIN)) + 1"
proof -
  let ?i = "sig - SIGRTMIN"
  let ?q = "t_rtqueue t ! ?i"
  have i: "?i < NSIG - SIGRTMIN" using sig by simp
  then have len: "rq_len ?q \<le> length (rq_queue ?q)" "length (t_rtqueue t) = NSIG - SIGRTMIN"
    using ok by (auto simp: thread_ok_def Let_def)
  let ?buf = "(realloc_queue (rq_len ?q + 1) (rq_queue ?q))[rq_len ?q := Some info]"
  have buf: "?buf = take (rq_len ?q) (rq_queue ?q) @ [Some info]"
  proof (cases "length (rq_queue ?q) = rq_len ?q")
    case True
    then show ?thesis by (simp add: realloc_queue_def list_update_append)
  next
    case False
    then have "rq_len ?q < length (rq_queue ?q)" using len(1) by simp
    then show ?thesis by (simp add: realloc_queue_def take_Suc_conv_app_nth list_update_append)
  qed
  have "length (realloc_queue n q) = n" for n q by (simp add: realloc_queue_def)
  then show ?thesis
    using i len sig buf
    by (auto simp: send_signal_thread_def Let_def queued_def nth_list_update)
qed

lemma take_rt:
  assumes ok: "thread_ok t" and sig: "SIGRTMIN \<le> sig" "sig < NSIG" and ne: "queued t sig \<noteq> []"
  shows "\<exists>t'. take_signal t sig = Some (the (hd (queued t sig)), t') \<and> queued t' sig = tl (queued t sig)"
proof -
  let ?i = "sig - SIGRTMIN"
  let ?q = "t_rtqueue t ! ?i"
  have i: "?i < NSIG - SIGRTMIN" using sig by simp
  then have len: "rq_len ?q \<le> length (rq_queue ?q)" "length (t_rtqueue t) = NSIG - SIGRTMIN"
     "None \<notin> set (take (rq_len ?q) (rq_queue ?q))" using ok by (auto simp: thread_ok_def Let_def)
  obtain a q where q: "rq_queue ?q = a # q" "0 < rq_len ?q" using ne by (cases "rq_queue ?q") (auto simp: queued_def Let_def)
  then obtain n where n: "rq_len ?q = Suc n" by (cases "rq_len ?q") auto
  obtain info where a: "a = Some info" using len(3) q n by (cases a) auto
  have "take n (take n q @ drop n (a # q)) = take n q" using len(1) q n by simp
  then show ?thesis using i len q n a sig by (auto simp: take_signal_def queued_def Let_def)
qed

section \<open>Permissions\<close>

lemma send_signal_cred: "send_signal al p sig info = Some (p', al') \<Longrightarrow> p_euid p' = p_euid p"
  by (auto simp: send_signal_def Let_def split: if_splits)

definition foreign_kept :: "u32 \<Rightarrow> sig_state \<Rightarrow> sig_state \<Rightarrow> bool" where
  "foreign_kept u s s' = (this_proc s' = this_proc s \<and> s_pids s' = s_pids s \<and>
     (\<forall>q. p_euid (s_procs s' q) = p_euid (s_procs s q) \<and>
          (p_euid (s_procs s q) \<noteq> u \<longrightarrow> s_procs s' q = s_procs s q)))"

lemma foreign_kept_refl: "foreign_kept u s s"
  by (simp add: foreign_kept_def)

lemma foreign_kept_trans: "foreign_kept u s s1 \<Longrightarrow> foreign_kept u s1 s2 \<Longrightarrow> foreign_kept u s s2"
  by (simp add: foreign_kept_def)

lemma kill_one_foreign:
  assumes "p_euid (s_procs s (this_proc s)) = u" "u \<noteq> 0" and "kill_one al pid sig s = Some (r, s', al')"
  shows "foreign_kept u s s'"
proof -
  consider "s' = s"
    | q p' info where "s' = s\<lparr>s_procs := (s_procs s)(q := p')\<rparr>" "send_signal al (s_procs s q) sig info = Some (p', al')"
        "p_euid (s_procs s q) = u"
    using assms by (auto simp: kill_one_def Let_def split: option.splits if_splits)
  then show ?thesis
  proof cases
    case 2
    then show ?thesis using send_signal_cred [OF 2(2)] by (auto simp: foreign_kept_def this_proc_def)
  qed (simp add: foreign_kept_refl)
qed

lemma kill_positive_foreign:
  assumes "p_euid (s_procs s (this_proc s)) = u" "u \<noteq> 0" and "kill_positive al pid sig s = Some (r, s', al')"
  shows "foreign_kept u s s'"
  using assms kill_one_foreign [OF assms(1,2)] foreign_kept_refl
  by (auto simp: kill_positive_def split: if_splits option.splits)

lemma kill_loop_foreign:
  "p_euid (s_procs s (this_proc s)) = u \<Longrightarrow> u \<noteq> 0 \<Longrightarrow> kill_loop sel sig al qs s = Some (r, s', al') \<Longrightarrow>
   foreign_kept u s s'"
proof (induction qs arbitrary: s al)
  case (Cons q qs)
  show ?case
  proof (cases "sel s q")
    case True
    with Cons.prems(3) obtain r1 s1 al1 where one: "kill_positive al (p_pid (s_procs s q)) sig s = Some (r1, s1, al1)"
      by (auto split: if_splits option.splits)
    note k = kill_positive_foreign [OF Cons.prems(1,2) one]
    show ?thesis
    proof (cases r1)
      case None
      then have "kill_loop sel sig al1 qs s1 = Some (r, s', al')" using Cons.prems(3) True one by (auto split: if_splits)
      moreover have "p_euid (s_procs s1 (this_proc s1)) = u" using k Cons.prems(1) by (simp add: foreign_kept_def)
      ultimately show ?thesis using Cons.IH [of s1 al1] Cons.prems(2) foreign_kept_trans [OF k] by blast
    next
      case (Some e)
      then have "s' = s1" using Cons.prems(3) True one by (auto split: if_splits)
      then show ?thesis using k by simp
    qed
  next
    case False
    then show ?thesis using Cons by simp
  qed
qed (simp add: foreign_kept_refl)


section \<open>Properties of signals\<close>

text \<open>
  The mask operations behave as set operations for every signal from 1 to 64: adding,
  deleting and testing one signal never affects another.
\<close>

theorem sigset_operations:
  assumes "1 \<le> a" "a \<le> 64" "1 \<le> b" "b \<le> 64"
  shows "(sigismember (sigaddset s a) b \<longleftrightarrow> b = a \<or> sigismember s b) \<and>
     (sigismember (sigdelset s a) b \<longleftrightarrow> b \<noteq> a \<and> sigismember s b) \<and>
     \<not> sigismember sigemptyset b \<and> sigismember sigfillset b"
  using sigset_laws(1,2) [OF assms, of s] sigset_laws(3,4) [OF assms] by simp

theorem sigset_operations_witness:
  "(sigismember (sigaddset 6 64) 1 \<longleftrightarrow> (1::nat) = 64 \<or> sigismember 6 1) \<and>
   (sigismember (sigdelset 6 64) 1 \<longleftrightarrow> (1::nat) \<noteq> 64 \<and> sigismember 6 1)"
  using sigset_operations [of 64 1 6] by simp

text \<open>
  Real-time signals of one number are queued in order: sending appends the info to the
  queue of the signal, and taking the signal returns the oldest info and removes it.
\<close>

theorem rt_signal_fifo:
  assumes "thread_ok t" and "SIGRTMIN \<le> sig" and "sig < NSIG"
  shows "(\<exists>t'. send_signal_thread [] t sig info = Some (t', []) \<and> queued t' sig = queued t sig @ [Some info]) \<and>
     (queued t sig \<noteq> [] \<longrightarrow>
       (\<exists>t'. take_signal t sig = Some (the (hd (queued t sig)), t') \<and> queued t' sig = tl (queued t sig)))"
  using send_rt [OF assms, of info] take_rt [OF assms] by blast

definition idle_thread :: thread where
  "idle_thread = \<lparr>t_state = THREAD_STATE_RUNNING, t_sig = 0, t_sigblocked = 0, t_sigpending = 0, t_sigready = 0,
     t_siginfo = replicate 32 None, t_rtqueue = replicate 32 \<lparr>rq_queue = [], rq_len = 0\<rparr>, t_handler = 0,
     t_hflags = 0, t_hsig = 0, t_hmask = 0, t_slow_syscall = False\<rparr>"

definition user_info :: "nat \<Rightarrow> siginfo" where
  "user_info sig = \<lparr>si_signo = sig, si_code = SI_USER, si_errno = 0, si_pid = 5, si_uid = 1000, si_status = 0,
     si_utime = 0, si_stime = 0\<rparr>"

lemma idle_thread_ok: "thread_ok idle_thread"
  by (simp add: thread_ok_def idle_thread_def SIGRTMIN_def NSIG_def sigismember_def)

theorem rt_signal_fifo_witness:
  "\<exists>t'. send_signal_thread [] idle_thread 40 (user_info 40) = Some (t', []) \<and>
        queued t' 40 = queued idle_thread 40 @ [Some (user_info 40)]"
  using rt_signal_fifo [OF idle_thread_ok, of 40 "user_info 40"] by (simp add: SIGRTMIN_def NSIG_def)

text \<open>
  A signal that is not blocked and has nothing deliverable before it is the one that
  poll_signal reports after it was sent, with the info it was sent with.
\<close>

theorem send_then_poll:
  assumes "thread_ok t" and "0 \<le> t_sig t" and "1 \<le> sig" and "sig < NSIG"
    and "\<not> sigismember (t_sigready t) sig" and "\<not> sigismember (t_sigblocked t) sig"
    and "\<forall>j. 1 \<le> j \<and> j < sig \<longrightarrow> \<not> deliverable t j"
  shows "\<exists>t1 t2. send_signal_thread [] t sig info = Some (t1, []) \<and> poll_signal t1 = Some (sig, Some info, t2)"
proof -
  have s64: "sig \<le> 64" "sig < 64" using assms(4) by (simp_all add: NSIG_def)
  have main: "poll_signal t1 = map_option (\<lambda>(info, t). (sig, Some info, t)) (take_signal t1 sig)"
    if t1: "t_sig t1 = t_sig t + 1" "t_sigready t1 = sigaddset (t_sigready t) sig" "t_sigblocked t1 = t_sigblocked t" for t1
  proof (rule poll_signal_least)
    show "deliverable t1 sig" using sigset_laws(1) [OF assms(3) s64(1) assms(3) s64(1)] assms(6) t1 by (simp add: deliverable_def)
    show "\<forall>j. 1 \<le> j \<and> j < sig \<longrightarrow> \<not> deliverable t1 j"
    proof (intro allI impI)
      fix j assume j: "1 \<le> j \<and> j < sig"
      then have "sigismember (t_sigready t1) j = sigismember (t_sigready t) j"
        using sigset_laws(1) [OF assms(3) s64(1), where b = j and s = "t_sigready t"] s64 t1(2) by simp
      then show "\<not> deliverable t1 j" using j assms(7) t1(3) by (simp add: deliverable_def)
    qed
  qed (use assms(2,3) s64 t1 in auto)
  show ?thesis
  proof (cases "sig < SIGRTMIN")
    case True
    let ?t = "t\<lparr>t_sigready := sigaddset (t_sigready t) sig, t_siginfo := (t_siginfo t)[sig - 1 := Some info], t_sig := t_sig t + 1\<rparr>"
    have len: "sig - 1 < length (t_siginfo t)" using assms(1,3) True by (simp add: thread_ok_def)
    have send: "send_signal_thread [] t sig info = Some (?t, [])"
      using True len assms(5,6) by (simp add: send_signal_thread_def)
    have "take_signal ?t sig = Some (info, ?t\<lparr>t_sigready := sigdelset (t_sigready ?t) sig, t_sig := t_sig ?t - 1\<rparr>)"
      using True len by (simp add: take_signal_def)
    then show ?thesis using send main [of ?t] by simp
  next
    case False
    then have rt: "SIGRTMIN \<le> sig" by simp
    let ?i = "sig - SIGRTMIN"
    obtain t' where t': "send_signal_thread [] t sig info = Some (t', [])" "queued t' sig = queued t sig @ [Some info]"
        "t_sig t' = t_sig t + 1" "t_sigready t' = sigaddset (t_sigready t) sig" "t_sigblocked t' = t_sigblocked t"
        "length (t_rtqueue t') = NSIG - SIGRTMIN"
        "rq_len (t_rtqueue t' ! ?i) = rq_len (t_rtqueue t ! ?i) + 1"
        "length (rq_queue (t_rtqueue t' ! ?i)) = rq_len (t_rtqueue t ! ?i) + 1"
      using send_rt [OF assms(1) rt assms(4), of info] by blast
    have i: "?i < NSIG - SIGRTMIN" using rt assms(4) by simp
    have "rq_len (t_rtqueue t ! ?i) = 0" using assms(1,5) i rt by (auto simp: thread_ok_def Let_def)
    with t' have q: "rq_len (t_rtqueue t' ! ?i) = 1" "rq_queue (t_rtqueue t' ! ?i) = [Some info]"
      by (auto simp: queued_def Let_def length_Suc_conv)
    then have "\<exists>t2. take_signal t' sig = Some (info, t2)"
      using rt i t'(6) by (simp add: take_signal_def Let_def)
    then show ?thesis using t'(1) main [OF t'(3,4,5)] by auto
  qed
qed

theorem send_then_poll_witness:
  "\<exists>t1 t2. send_signal_thread [] idle_thread 15 (user_info 15) = Some (t1, []) \<and>
     poll_signal t1 = Some (15, Some (user_info 15), t2)"
proof -
  have z: "\<not> sigismember 0 j" for j by (simp add: sigismember_def)
  show ?thesis using send_then_poll [OF idle_thread_ok, of 15 "user_info 15"] z
    by (simp add: idle_thread_def NSIG_def deliverable_def)
qed

text \<open>
  C39: A process whose effective user is not 0 cannot affect processes of other users with
  sys_kill, neither by number nor by group nor with the broadcast number -1.
\<close>

theorem kill_respects_users:
  assumes "p_euid (s_procs s (this_proc s)) = u" and "u \<noteq> 0" and "sys_kill al pid sig s = Some (r, s', al')"
    and "p_euid (s_procs s q) \<noteq> u"
  shows "s_procs s' q = s_procs s q"
proof -
  have "foreign_kept u s s'"
    using assms(3) kill_loop_foreign [OF assms(1,2)] kill_positive_foreign [OF assms(1,2)] foreign_kept_refl
    by (auto simp: sys_kill_def sys_killpg_def split: if_splits option.splits)
  then show ?thesis using assms(4) by (simp add: foreign_kept_def)
qed

definition two_users :: "nat hashmap \<Rightarrow> sig_state" where
  "two_users m = \<lparr>s_procs = (\<lambda>q. \<lparr>p_pid = int q + 4, p_ppid = 1, p_pgid = 5, p_sid = 5,
       p_uid = 1000, p_euid = (if q = 1 then 1000 else 2000), p_suid = 1000, p_gid = 100, p_egid = 100, p_sgid = 100,
       p_sup_gids = replicate 16 0, p_nsup_gids = 0, sp_threads = [idle_thread], sp_front = 0, sp_utime = (0, 0),
       sp_stime = (0, 0), sp_sighandlers = replicate 64 \<lparr>sa_handler = 1, sa_sigaction = 0, sa_flags = 0, sa_mask = 0\<rparr>\<rparr>),
     s_pids = m, s_queue = [0, 1, 2], s_front = 1\<rparr>"

theorem kill_respects_users_witness:
  "\<exists>m r s' al'. sys_kill [] 6 9 (two_users m) = Some (r, s', al') \<and> s_procs s' 2 = s_procs (two_users m) 2"
proof -
  obtain m0 :: "nat hashmap" where m0: "hashmap_inv m0" using hm.create_empty by blast
  obtain m al where "hashmap_inv m" "hashmap_abs m = (hashmap_abs m0)(pid_key 6 \<mapsto> 2)"
    using hm.ins_update [OF m0] by blast
  then have "lookup_pid m 6 = Some (Some 2)" using hm.look_abs [of m "pid_key 6"] by (simp add: lookup_pid_def)
  then have run: "sys_kill [] 6 9 (two_users m) = Some (Some EPERM, two_users m, [])"
    by (simp add: sys_kill_def kill_positive_def kill_one_def two_users_def this_proc_def NSIG_def)
  have "s_procs (two_users m) 2 = s_procs (two_users m) 2"
    by (rule kill_respects_users [OF _ _ run, of 1000]) (simp_all add: two_users_def this_proc_def)
  with run show ?thesis by blast
qed

text \<open>
  SIGKILL and SIGSTOP cannot be given a handler, and SIGKILL terminates the process
  whatever handlers are set.
\<close>

theorem sigkill_not_catchable:
  assumes "handle_signal al SIGKILL s = Some (out, s', al')"
  shows "out = Process_killed SIGKILL \<and>
     sys_sigaction 9 act p = Some (Inl EINVAL) \<and> sys_sigaction 19 act p = Some (Inl EINVAL)"
proof
  show "out = Process_killed SIGKILL"
    using assms by (auto simp: handle_signal_def Let_def split: if_splits option.splits)
qed (simp add: sys_sigaction_def sig_settable_def SIGKILL_def SIGSTOP_def NSIG_def)

theorem sigkill_not_catchable_witness:
  "\<exists>m out s' al'. handle_signal [] SIGKILL (two_users m) = Some (out, s', al') \<and> out = Process_killed SIGKILL"
proof -
  obtain m :: "nat hashmap" where m: "hashmap_inv m" "hashmap_abs m = Map.empty" using hm.create_empty by blast
  then have "lookup_pid m 1 = Some None" using hm.look_abs [of m "pid_key 1"] by (simp add: lookup_pid_def)
  then have "handle_signal [] SIGKILL (two_users m) = Some (Process_killed SIGKILL, two_users m, [])"
    by (simp add: handle_signal_def two_users_def this_proc_def SIGKILL_def Let_def)
  then show ?thesis using sigkill_not_catchable by blast
qed

text \<open>
  send_signal prefers a thread that blocks the signal: with a running thread that blocks
  it and another that does not, the blocking one gets the signal and the thread that
  could handle it at once is left alone.
\<close>

theorem send_signal_prefers_blocked:
  assumes "sp_threads p = [a, b]" and "t_state a = THREAD_STATE_RUNNING" and "t_state b = THREAD_STATE_RUNNING"
    and "\<not> sigismember (t_sigblocked a) sig" and "sigismember (t_sigblocked b) sig"
    and "\<not> sigismember (t_sigpending a) sig" and "\<not> sigismember (t_sigpending b) sig"
    and "send_signal al p sig info = Some (p', al')"
  shows "sp_threads p' ! 0 = a \<and> send_signal_thread al b sig info = Some (sp_threads p' ! 1, al')"
proof -
  have "send_signal_target p sig = 1" using assms(1-7) by (simp add: send_signal_target_def)
  then show ?thesis using assms(1,8) by (auto simp: send_signal_def)
qed

theorem send_signal_prefers_blocked_witness:
  "\<exists>p p'. sp_threads p = [idle_thread, idle_thread\<lparr>t_sigblocked := sigfillset\<rparr>] \<and>
     send_signal [] p 15 (user_info 15) = Some (p', []) \<and> sp_threads p' ! 0 = idle_thread"
proof -
  let ?b = "idle_thread\<lparr>t_sigblocked := sigfillset\<rparr>"
  let ?p = "(s_procs (two_users undefined) 1)\<lparr>sp_threads := [idle_thread, ?b]\<rparr>"
  have z: "\<not> sigismember 0 j" for j by (simp add: sigismember_def)
  have f: "sigismember sigfillset 15" using sigset_laws(4) [of 1 15] by simp
  have tgt: "send_signal_target ?p 15 = 1" using z f by (simp add: send_signal_target_def idle_thread_def)
  have sent: "\<exists>t. send_signal_thread [] ?b 15 (user_info 15) = Some (t, [])"
    using z by (simp add: send_signal_thread_def idle_thread_def SIGRTMIN_def Let_def)
  then obtain p' where run: "send_signal [] ?p 15 (user_info 15) = Some (p', [])"
    using tgt by (auto simp: send_signal_def)
  have "sp_threads p' ! 0 = idle_thread"
    using send_signal_prefers_blocked [OF _ _ _ _ _ _ _ run, of idle_thread ?b] z f by (simp add: idle_thread_def)
  with run show ?thesis by (intro exI [of _ ?p] exI [of _ p']) simp
qed

text \<open>
  Signal 64 is accepted by sys_kill but has no queue: sending it to a thread accesses the
  array of queues past its end.
\<close>

theorem signal_64_out_of_bounds:
  assumes "thread_ok t"
  shows "send_signal_thread al t NSIG info = None"
  using assms by (auto simp: send_signal_thread_def thread_ok_def NSIG_def SIGRTMIN_def Let_def)

theorem signal_64_out_of_bounds_witness: "send_signal_thread [] idle_thread NSIG (user_info 64) = None"
  by (rule signal_64_out_of_bounds [OF idle_thread_ok])

text \<open>
  Loading a handler forgets the signals queued behind it: after poll_signal_handler the
  next poll_signal reports no signal, even if other signals are ready and not blocked.
\<close>

theorem handler_drops_queued_signals:
  assumes "poll_signal_handler t = (addr, sig, m, t')"
  shows "poll_signal t' = Some (0, None, t')"
  using assms by (auto simp: poll_signal_handler_def poll_signal_def Let_def split: if_splits)

theorem handler_drops_queued_signals_witness:
  "\<exists>addr sig m t'. poll_signal_handler (idle_thread\<lparr>t_sig := 2, t_hsig := 15, t_sigready := sigaddset 0 10\<rparr>) =
     (addr, sig, m, t') \<and> deliverable t' 10 \<and> poll_signal t' = Some (0, None, t')"
proof -
  let ?t = "idle_thread\<lparr>t_sig := 2, t_hsig := 15, t_sigready := sigaddset 0 10\<rparr>"
  obtain addr sig m t' where r: "poll_signal_handler ?t = (addr, sig, m, t')" by (cases "poll_signal_handler ?t")
  have "t_sigready t' = sigdelset (sigaddset 0 10) 2" "t_sigblocked t' = sigaddset 0 15"
    using r by (auto simp: poll_signal_handler_def idle_thread_def SA_NODEFER_def)
  moreover have "\<not> sigismember 0 j" for j by (simp add: sigismember_def)
  ultimately have "deliverable t' 10" using sigset_laws(1,2) by (simp add: deliverable_def)
  then show ?thesis using r handler_drops_queued_signals [OF r] by blast
qed

end
