(* ===== verification/Pml_Bitarray.thy ===== *)
theory Pml_Bitarray
  imports Pml_Bitmap Pml_Memory Pml_Map
begin

text \<open>
  drivers/fs/ext2/bitarray.c: the bit-array implementation of ext2 block and inode bitmaps.
  The two search functions first test single bits up to a byte boundary, then bytes up to
  an aligned address, then 64-bit words, bytes and finally bits. They are the same code
  for the two values of a bit, so each phase is defined once with the value searched for
  as a parameter (\<open>want\<close>). Accesses outside of the array have the result \<open>None\<close>.
\<close>

section \<open>State\<close>

record ext2_bitmap64 =
  b_start :: nat
  b_end :: nat
  b_real_end :: nat
  b_bitarray :: "u8 list"
  b_addr :: nat

text \<open>The bytes a fresh array holds come from the memory allocator; new_bmap clears them.\<close>

definition ext2_bitarray_alloc_private ::
    "alloc_outcomes \<Rightarrow> (nat \<Rightarrow> u8) \<Rightarrow> ext2_bitmap64 \<Rightarrow> (errno + ext2_bitmap64) \<times> alloc_outcomes" where
  "ext2_bitarray_alloc_private al junk b =
     (let sz = sub64 (b_real_end b) (b_start b) div 8 + 1;
          (ok1, al) = take_alloc al
      in if \<not> ok1 then (Inl ENOMEM, al)
         else let (ok2, al) = take_alloc al in
              if \<not> ok2 then (Inl ENOMEM, al) else (Inr (b\<lparr>b_bitarray := map junk [0..<sz]\<rparr>), al))"

definition ext2_bitarray_new_bmap ::
    "alloc_outcomes \<Rightarrow> (nat \<Rightarrow> u8) \<Rightarrow> ext2_bitmap64 \<Rightarrow> (errno + ext2_bitmap64) \<times> alloc_outcomes" where
  "ext2_bitarray_new_bmap al junk b =
     (case ext2_bitarray_alloc_private al junk b of
        (Inl e, al) \<Rightarrow> (Inl e, al)
      | (Inr b, al) \<Rightarrow>
          (Inr (b\<lparr>b_bitarray := replicate (sub64 (b_real_end b) (b_start b) div 8 + 1) 0\<rparr>), al))"

section \<open>Single bits, extents and ranges\<close>

definition with_bits :: "(u8 list \<Rightarrow> u8 list option) \<Rightarrow> ext2_bitmap64 \<Rightarrow> ext2_bitmap64 option" where
  "with_bits f b = map_option (\<lambda>ba. b\<lparr>b_bitarray := ba\<rparr>) (f (b_bitarray b))"

definition ext2_bitarray_mark_bmap :: "ext2_bitmap64 \<Rightarrow> nat \<Rightarrow> ext2_bitmap64 option" where
  "ext2_bitarray_mark_bmap b arg = with_bits (\<lambda>ba. set_bit_bm ba (sub64 arg (b_start b))) b"

definition ext2_bitarray_unmark_bmap :: "ext2_bitmap64 \<Rightarrow> nat \<Rightarrow> ext2_bitmap64 option" where
  "ext2_bitarray_unmark_bmap b arg = with_bits (\<lambda>ba. clear_bit_bm ba (sub64 arg (b_start b))) b"

definition ext2_bitarray_test_bmap :: "ext2_bitmap64 \<Rightarrow> nat \<Rightarrow> bool option" where
  "ext2_bitarray_test_bmap b arg = test_bit_bm (b_bitarray b) (sub64 arg (b_start b))"

definition ext2_bitarray_mark_bmap_extent :: "ext2_bitmap64 \<Rightarrow> nat \<Rightarrow> nat \<Rightarrow> ext2_bitmap64 option" where
  "ext2_bitarray_mark_bmap_extent b arg num =
     with_bits (\<lambda>ba. iter_range (\<lambda>ba i. set_bit_bm ba (sub64 i (b_start b))) ba arg num) b"

definition ext2_bitarray_unmark_bmap_extent :: "ext2_bitmap64 \<Rightarrow> nat \<Rightarrow> nat \<Rightarrow> ext2_bitmap64 option" where
  "ext2_bitarray_unmark_bmap_extent b arg num =
     with_bits (\<lambda>ba. iter_range (\<lambda>ba i. clear_bit_bm ba (sub64 i (b_start b))) ba arg num) b"

definition ext2_bitarray_set_bmap_range :: "ext2_bitmap64 \<Rightarrow> nat \<Rightarrow> nat \<Rightarrow> u8 list \<Rightarrow> ext2_bitmap64 option" where
  "ext2_bitarray_set_bmap_range b start num data =
     (let off = start div 8; n = (num + 7) div 8 in
      if off + n > length (b_bitarray b) \<or> n > length data then None
      else Some (b\<lparr>b_bitarray := take off (b_bitarray b) @ take n data @ drop (off + n) (b_bitarray b)\<rparr>))"

definition ext2_bitarray_get_bmap_range :: "ext2_bitmap64 \<Rightarrow> nat \<Rightarrow> nat \<Rightarrow> u8 list option" where
  "ext2_bitarray_get_bmap_range b start num =
     (let off = start div 8; n = (num + 7) div 8 in
      if off + n > length (b_bitarray b) then None else Some (take n (drop off (b_bitarray b))))"

section \<open>Searches\<close>

text \<open>The bits before the first byte boundary: \<open>Inl\<close> a hit, \<open>Inr\<close> the position and count left.\<close>

function head_bits :: "bool \<Rightarrow> u8 list \<Rightarrow> nat \<Rightarrow> nat \<Rightarrow> (nat + nat \<times> nat) option" where
  "head_bits want ba bitpos count =
     (if bitpos mod 8 \<noteq> 0 \<and> count > 0
      then case test_bit_bm ba bitpos of
             None \<Rightarrow> None
           | Some t \<Rightarrow> if t = want then Some (Inl bitpos) else head_bits want ba (bitpos + 1) (count - 1)
      else Some (Inr (bitpos, count)))"
  by pat_completeness auto
termination by (relation "measure (\<lambda>(w, ba, p, c). c)") auto

declare head_bits.simps [simp del]

text \<open>A byte without any bit of the value searched for.\<close>

definition skip_byte :: "bool \<Rightarrow> u8" where
  "skip_byte want = (if want then 0 else 0xff)"

text \<open>Bytes up to an address divisible by 8; the flag says that a byte to look at was found.\<close>

function align_bytes :: "bool \<Rightarrow> nat \<Rightarrow> u8 list \<Rightarrow> nat \<Rightarrow> nat \<Rightarrow> (bool \<times> nat \<times> nat) option" where
  "align_bytes want addr ba bitpos count =
     (if count \<ge> 8 \<and> (addr + bitpos div 8) mod 8 \<noteq> 0
      then if bitpos div 8 \<ge> length ba then None
           else if ba ! (bitpos div 8) \<noteq> skip_byte want then Some (True, bitpos, count)
           else align_bytes want addr ba (bitpos + 8) (count - 8)
      else Some (False, bitpos, count))"
  by pat_completeness auto
termination by (relation "measure (\<lambda>(w, a, ba, p, c). c)") auto

declare align_bytes.simps [simp del]

text \<open>The loops over 64-bit words and over bytes from byte \<open>pos\<close>; the result is the count left.\<close>

fun skip_words :: "bool \<Rightarrow> u8 list \<Rightarrow> nat \<Rightarrow> nat \<Rightarrow> nat option" where
  "skip_words want ba pos 0 = Some 0"
| "skip_words want ba pos (Suc i) =
     (if pos + 8 > length ba then None
      else if take 8 (drop pos ba) \<noteq> replicate 8 (skip_byte want) then Some (Suc i)
      else skip_words want ba (pos + 8) i)"

fun skip_bytes :: "bool \<Rightarrow> u8 list \<Rightarrow> nat \<Rightarrow> nat \<Rightarrow> nat option" where
  "skip_bytes want ba pos 0 = Some 0"
| "skip_bytes want ba pos (Suc i) =
     (if pos \<ge> length ba then None
      else if ba ! pos \<noteq> skip_byte want then Some (Suc i)
      else skip_bytes want ba (pos + 1) i)"

fun tail_bits :: "bool \<Rightarrow> u8 list \<Rightarrow> nat \<Rightarrow> nat \<Rightarrow> nat option option" where
  "tail_bits want ba bitpos 0 = Some None"
| "tail_bits want ba bitpos (Suc count) =
     (case test_bit_bm ba bitpos of
        None \<Rightarrow> None
      | Some t \<Rightarrow> if t = want then Some (Some bitpos) else tail_bits want ba (bitpos + 1) count)"

text \<open>The part of the search under \<open>if (!found)\<close>.\<close>

definition skip_aligned :: "bool \<Rightarrow> u8 list \<Rightarrow> nat \<Rightarrow> nat \<Rightarrow> (nat \<times> nat) option" where
  "skip_aligned want ba bitpos count =
     (let max_loop = count div 64 in
      case skip_words want ba (bitpos div 8) max_loop of
        None \<Rightarrow> None
      | Some i \<Rightarrow>
          (let count = count - 64 * (max_loop - i);
               bitpos = bitpos + 64 * (max_loop - i);
               max_loop = count div 8
           in case skip_bytes want ba (bitpos div 8) max_loop of
                None \<Rightarrow> None
              | Some i \<Rightarrow> Some (bitpos + 8 * (max_loop - i), count - 8 * (max_loop - i))))"

definition bitarray_find :: "bool \<Rightarrow> nat \<Rightarrow> u8 list \<Rightarrow> nat \<Rightarrow> nat \<Rightarrow> nat option option" where
  "bitarray_find want addr ba bitpos count =
     (case head_bits want ba bitpos count of
        None \<Rightarrow> None
      | Some (Inl p) \<Rightarrow> Some (Some p)
      | Some (Inr (bitpos, count)) \<Rightarrow>
          (if count = 0 then Some None
           else case align_bytes want addr ba bitpos count of
                  None \<Rightarrow> None
                | Some (found, bitpos, count) \<Rightarrow>
                    (case (if found then Some (bitpos, count) else skip_aligned want ba bitpos count) of
                       None \<Rightarrow> None
                     | Some (bitpos, count) \<Rightarrow> tail_bits want ba bitpos count)))"

definition find_result :: "ext2_bitmap64 \<Rightarrow> nat option option \<Rightarrow> (errno + nat) option" where
  "find_result b r =
     (case r of
        None \<Rightarrow> None
      | Some None \<Rightarrow> Some (Inl ENOENT)
      | Some (Some p) \<Rightarrow> Some (Inr (add64 p (b_start b))))"

definition ext2_bitarray_find_first_zero :: "ext2_bitmap64 \<Rightarrow> nat \<Rightarrow> nat \<Rightarrow> (errno + nat) option" where
  "ext2_bitarray_find_first_zero b start fin =
     find_result b (bitarray_find False (b_addr b) (b_bitarray b) (sub64 start (b_start b)) (add64 (sub64 fin start) 1))"

definition ext2_bitarray_find_first_set :: "ext2_bitmap64 \<Rightarrow> nat \<Rightarrow> nat \<Rightarrow> (errno + nat) option" where
  "ext2_bitarray_find_first_set b start fin =
     find_result b (bitarray_find True (b_addr b) (b_bitarray b) (sub64 start (b_start b)) (add64 (sub64 fin start) 1))"

section \<open>The searches find the first bit\<close>

definition misses :: "bool \<Rightarrow> u8 list \<Rightarrow> nat set" where
  "misses want ba = {i. (i \<in> bm_ones ba) \<noteq> want}"

text \<open>A phase that skips \<open>k\<close> misses does not change the first hit.\<close>

lemma first_clear_skip:
  "{a..<a + k} \<subseteq> S \<Longrightarrow> k \<le> n \<Longrightarrow> first_clear S a n = first_clear S (a + k) (n - k)"
proof (induction k arbitrary: a n)
  case (Suc k)
  then obtain m where n: "n = Suc m" by (cases n) auto
  have "a \<in> S" "{Suc a..<Suc a + k} \<subseteq> S" using Suc.prems(1) by auto
  with Suc.IH [of "Suc a" m] Suc.prems(2) n show ?case by simp
qed simp

lemma tail_bits_first:
  "bitpos + count \<le> bm_cap ba \<Longrightarrow> tail_bits want ba bitpos count = Some (first_clear (misses want ba) bitpos count)"
proof (induction count arbitrary: bitpos)
  case (Suc n)
  then have "test_bit_bm ba bitpos = Some (bitpos \<in> bm_ones ba)" using bm.test_in [of bitpos ba] by simp
  with Suc show ?case by (auto simp: misses_def)
qed simp

lemma head_bits_first:
  "bitpos + count \<le> bm_cap ba \<Longrightarrow>
   (\<exists>p. head_bits want ba bitpos count = Some (Inl p) \<and> first_clear (misses want ba) bitpos count = Some p) \<or>
   (\<exists>k \<le> count. head_bits want ba bitpos count = Some (Inr (bitpos + k, count - k)) \<and>
      {bitpos..<bitpos + k} \<subseteq> misses want ba \<and> (count - k = 0 \<or> (bitpos + k) mod 8 = 0))"
proof (induction count arbitrary: bitpos)
  case 0
  then show ?case by (subst (1 2) head_bits.simps) simp
next
  case (Suc n)
  show ?case
  proof (cases "bitpos mod 8 = 0")
    case True
    then show ?thesis by (subst (1 2) head_bits.simps) simp
  next
    case False
    have t: "test_bit_bm ba bitpos = Some (bitpos \<in> bm_ones ba)" using bm.test_in [of bitpos ba] Suc.prems by simp
    have step: "head_bits want ba bitpos (Suc n) =
        (if bitpos \<notin> misses want ba then Some (Inl bitpos) else head_bits want ba (Suc bitpos) n)"
      using False t by (subst head_bits.simps) (simp add: misses_def)
    show ?thesis
    proof (cases "bitpos \<in> misses want ba")
      case miss: True
      consider p where "head_bits want ba (Suc bitpos) n = Some (Inl p)"
            "first_clear (misses want ba) (Suc bitpos) n = Some p"
        | k where "k \<le> n" "head_bits want ba (Suc bitpos) n = Some (Inr (Suc bitpos + k, n - k))"
            "{Suc bitpos..<Suc bitpos + k} \<subseteq> misses want ba" "n - k = 0 \<or> (Suc bitpos + k) mod 8 = 0"
        using Suc.IH [of "Suc bitpos"] Suc.prems by auto
      then show ?thesis
      proof cases
        case 1
        then show ?thesis using step miss by simp
      next
        case 2
        have "{bitpos..<bitpos + Suc k} = insert bitpos {Suc bitpos..<Suc bitpos + k}" by auto
        then have "{bitpos..<bitpos + Suc k} \<subseteq> misses want ba" using 2(3) miss by simp
        then show ?thesis using 2 step miss by (intro disjI2 exI [of _ "Suc k"]) simp
      qed
    qed (simp add: step)
  qed
qed

lemma skip_byte_misses:
  assumes "bitpos mod 8 = 0" "bitpos div 8 < length ba" "ba ! (bitpos div 8) = skip_byte want"
  shows "{bitpos..<bitpos + 8} \<subseteq> misses want ba"
proof
  fix i assume i: "i \<in> {bitpos..<bitpos + 8}"
  have d: "i div 8 = bitpos div 8" using i assms(1) by auto
  have "i mod 8 < 8" by simp
  then have "bit (skip_byte want) (i mod 8) \<longleftrightarrow> \<not> want"
    using bit_255 [of "i mod 8"] by (cases want) (simp_all add: skip_byte_def)
  then show "i \<in> misses want ba" using d assms by (auto simp: misses_def bm_ones_def div8_less)
qed


lemma align_bytes_misses:
  "bitpos + count \<le> bm_cap ba \<Longrightarrow> bitpos mod 8 = 0 \<Longrightarrow>
   \<exists>k found. k \<le> count \<and> align_bytes want addr ba bitpos count = Some (found, bitpos + k, count - k) \<and>
     {bitpos..<bitpos + k} \<subseteq> misses want ba \<and> (bitpos + k) mod 8 = 0"
proof (induction count arbitrary: bitpos rule: less_induct)
  case (less count)
  show ?case
  proof (cases "count \<ge> 8 \<and> (addr + bitpos div 8) mod 8 \<noteq> 0 \<and> ba ! (bitpos div 8) = skip_byte want")
    case False
    have "count \<ge> 8 \<Longrightarrow> bitpos div 8 < length ba" using less.prems by auto
    with False less.prems show ?thesis by (subst align_bytes.simps) (auto intro!: exI [of _ 0])
  next
    case True
    have len: "bitpos div 8 < length ba" using True less.prems by auto
    have b: "{bitpos..<bitpos + 8} \<subseteq> misses want ba" using skip_byte_misses [OF less.prems(2) len] True by blast
    have "bitpos + 8 + (count - 8) \<le> bm_cap ba" "(bitpos + 8) mod 8 = 0" "count - 8 < count"
      using True less.prems by auto
    from less.IH [OF this(3) this(1,2)] obtain k found where k: "k \<le> count - 8"
        "align_bytes want addr ba (bitpos + 8) (count - 8) = Some (found, bitpos + 8 + k, count - 8 - k)"
        "{bitpos + 8..<bitpos + 8 + k} \<subseteq> misses want ba" "(bitpos + 8 + k) mod 8 = 0"
      by (elim exE conjE)
    have "{bitpos..<bitpos + (8 + k)} = {bitpos..<bitpos + 8} \<union> {bitpos + 8..<bitpos + 8 + k}" by auto
    then have "{bitpos..<bitpos + (8 + k)} \<subseteq> misses want ba" using b k(3) by simp
    moreover have "align_bytes want addr ba bitpos count = Some (found, bitpos + (8 + k), count - (8 + k))"
      using True len k(2) by (subst align_bytes.simps) (simp add: add.assoc)
    moreover have "8 + k \<le> count" using k(1) True by linarith
    ultimately show ?thesis using k(4) by (intro exI [of _ "8 + k"] exI [of _ found]) (simp add: add.assoc)
  qed
qed

lemma skip_bytes_misses:
  "pos + i \<le> length ba \<Longrightarrow>
   \<exists>j \<le> i. skip_bytes want ba pos i = Some (i - j) \<and> {8 * pos..<8 * (pos + j)} \<subseteq> misses want ba"
proof (induction i arbitrary: pos)
  case (Suc i)
  show ?case
  proof (cases "ba ! pos = skip_byte want")
    case True
    obtain j where j: "j \<le> i" "skip_bytes want ba (pos + 1) i = Some (i - j)"
        "{8 * (pos + 1)..<8 * (pos + 1 + j)} \<subseteq> misses want ba" using Suc.IH [of "pos + 1"] Suc.prems by auto
    have "{8 * pos..<8 * pos + 8} \<subseteq> misses want ba" using skip_byte_misses [of "8 * pos" ba want] True Suc.prems by simp
    moreover have "{8 * pos..<8 * (pos + Suc j)} = {8 * pos..<8 * pos + 8} \<union> {8 * (pos + 1)..<8 * (pos + 1 + j)}" by auto
    ultimately have "{8 * pos..<8 * (pos + Suc j)} \<subseteq> misses want ba" using j(3) by simp
    then show ?thesis using j(1,2) True Suc.prems by (intro exI [of _ "Suc j"]) simp
  next
    case False
    then show ?thesis using Suc.prems by (intro exI [of _ 0]) simp
  qed
qed simp

lemma skip_words_misses:
  "pos + 8 * i \<le> length ba \<Longrightarrow>
   \<exists>j \<le> i. skip_words want ba pos i = Some (i - j) \<and> {8 * pos..<8 * (pos + 8 * j)} \<subseteq> misses want ba"
proof (induction i arbitrary: pos)
  case (Suc i)
  show ?case
  proof (cases "take 8 (drop pos ba) = replicate 8 (skip_byte want)")
    case True
    obtain j where j: "j \<le> i" "skip_words want ba (pos + 8) i = Some (i - j)"
        "{8 * (pos + 8)..<8 * (pos + 8 + 8 * j)} \<subseteq> misses want ba" using Suc.IH [of "pos + 8"] Suc.prems by auto
    have byte: "ba ! (pos + n) = skip_byte want" if "n < 8" for n
    proof -
      have "take 8 (drop pos ba) ! n = skip_byte want" using True that by simp
      then show ?thesis using that Suc.prems by simp
    qed
    have each: "{8 * (pos + n)..<8 * (pos + n) + 8} \<subseteq> misses want ba" if "n < 8" for n
      using skip_byte_misses [of "8 * (pos + n)" ba want] byte [OF that] that Suc.prems by simp
    have "m \<in> misses want ba" if "8 * pos \<le> m" "m < 8 * (pos + 8)" for m
    proof -
      define n where "n = m div 8 - pos"
      have "n < 8" "m \<in> {8 * (pos + n)..<8 * (pos + n) + 8}" using that by (auto simp: n_def)
      then show ?thesis using each by blast
    qed
    then have "{8 * pos..<8 * (pos + 8)} \<subseteq> misses want ba" by auto
    moreover have "{8 * pos..<8 * (pos + 8 * Suc j)} = {8 * pos..<8 * (pos + 8)} \<union> {8 * (pos + 8)..<8 * (pos + 8 + 8 * j)}" by auto
    ultimately have "{8 * pos..<8 * (pos + 8 * Suc j)} \<subseteq> misses want ba" using j(3) by simp
    then show ?thesis using j(1,2) True Suc.prems by (intro exI [of _ "Suc j"]) simp
  next
    case False
    then show ?thesis using Suc.prems by (intro exI [of _ 0]) simp
  qed
qed simp


lemma skip_aligned_misses:
  assumes cap: "bitpos + count \<le> bm_cap ba" and pos: "bitpos mod 8 = 0"
  shows "\<exists>k \<le> count. skip_aligned want ba bitpos count = Some (bitpos + k, count - k) \<and>
     {bitpos..<bitpos + k} \<subseteq> misses want ba"
proof -
  obtain p where p: "bitpos = 8 * p" using pos by auto
  have "p + 8 * (count div 64) \<le> length ba" using cap p by auto
  then obtain j where j: "j \<le> count div 64" "skip_words want ba p (count div 64) = Some (count div 64 - j)"
      "{8 * p..<8 * (p + 8 * j)} \<subseteq> misses want ba" using skip_words_misses by blast
  define c where "c = count - 64 * j"
  have c: "64 * j \<le> count" "count = 64 * j + c" using j(1) by (auto simp: c_def)
  have "p + 8 * j + c div 8 \<le> length ba" using cap p c by auto
  then obtain i where i: "i \<le> c div 8" "skip_bytes want ba (p + 8 * j) (c div 8) = Some (c div 8 - i)"
      "{8 * (p + 8 * j)..<8 * (p + 8 * j + i)} \<subseteq> misses want ba" using skip_bytes_misses by blast
  have run: "skip_aligned want ba bitpos count = Some (bitpos + 64 * j + 8 * i, c - 8 * i)"
    using j(1,2) i(1,2) p by (simp add: skip_aligned_def Let_def c_def mult.assoc [symmetric] add.assoc [symmetric])
  have "{bitpos..<bitpos + (64 * j + 8 * i)} = {8 * p..<8 * (p + 8 * j)} \<union> {8 * (p + 8 * j)..<8 * (p + 8 * j + i)}"
    using p by auto
  then have "{bitpos..<bitpos + (64 * j + 8 * i)} \<subseteq> misses want ba" using j(3) i(3) by simp
  moreover have "64 * j + 8 * i \<le> count" "c - 8 * i = count - (64 * j + 8 * i)" using i(1) c by auto
  ultimately show ?thesis using run by (intro exI [of _ "64 * j + 8 * i"]) (simp add: add.assoc)
qed

lemma bitarray_find_first:
  assumes "bitpos + count \<le> bm_cap ba"
  shows "bitarray_find want addr ba bitpos count = Some (first_clear (misses want ba) bitpos count)"
proof -
  let ?S = "misses want ba"
  from head_bits_first [OF assms, of want] consider
      p where "head_bits want ba bitpos count = Some (Inl p)" "first_clear ?S bitpos count = Some p"
    | k where "k \<le> count" "head_bits want ba bitpos count = Some (Inr (bitpos + k, count - k))"
        "{bitpos..<bitpos + k} \<subseteq> ?S" "count - k = 0 \<or> (bitpos + k) mod 8 = 0" by metis
  then show ?thesis
  proof cases
    case 1
    then show ?thesis by (simp add: bitarray_find_def)
  next
    case 2
    define b c where "b = bitpos + k" and "c = count - k"
    have cap: "b + c \<le> bm_cap ba" and skip: "first_clear ?S bitpos count = first_clear ?S b c"
      using assms 2(1) first_clear_skip [OF 2(3,1)] by (simp_all add: b_def c_def)
    show ?thesis
    proof (cases "c = 0")
      case True
      then show ?thesis using 2(2) skip by (simp add: bitarray_find_def b_def [symmetric] c_def [symmetric])
    next
      case False
      then have b8: "b mod 8 = 0" using 2(4) by (simp add: b_def c_def)
      obtain k1 found where a: "k1 \<le> c" "align_bytes want addr ba b c = Some (found, b + k1, c - k1)"
          "{b..<b + k1} \<subseteq> ?S" "(b + k1) mod 8 = 0"
        using align_bytes_misses [OF cap b8, of want addr] by (elim exE conjE)
      have cap1: "b + k1 + (c - k1) \<le> bm_cap ba" using cap a(1) by simp
      obtain k2 where s2: "k2 \<le> c - k1" "{b + k1..<b + k1 + k2} \<subseteq> ?S"
          "(if found then Some (b + k1, c - k1) else skip_aligned want ba (b + k1) (c - k1)) = Some (b + k1 + k2, c - k1 - k2)"
      proof (cases found)
        case True
        then show ?thesis using that [of 0] by simp
      next
        case False
        then show ?thesis using that skip_aligned_misses [OF cap1 a(4), of want] by auto
      qed
      have cap2: "b + k1 + k2 + (c - k1 - k2) \<le> bm_cap ba" using cap1 s2(1) by simp
      have "first_clear ?S b c = first_clear ?S (b + k1 + k2) (c - k1 - k2)"
        using first_clear_skip [OF a(3,1)] first_clear_skip [OF s2(2,1)] by simp
      then show ?thesis using 2(2) False a(2) s2(3) skip tail_bits_first [OF cap2, of want]
        by (simp add: bitarray_find_def b_def [symmetric] c_def [symmetric])
    qed
  qed
qed

section \<open>Properties of the bit arrays\<close>

text \<open>
  The word-at-a-time search for a clear bit gives the same answer as looking at every
  bit from start to end: the first clear one, or ENOENT when all are set, for every
  alignment of the array in memory.
\<close>

theorem find_first_zero_correct:
  assumes "b_start b \<le> start" and "start \<le> fin" and "fin < 2 ^ 64 - 1"
    and "fin - b_start b < bm_cap (b_bitarray b)"
  shows "ext2_bitarray_find_first_zero b start fin =
     Some (case first_clear (bm_ones (b_bitarray b)) (start - b_start b) (fin - start + 1) of
             None \<Rightarrow> Inl ENOENT | Some p \<Rightarrow> Inr (p + b_start b))"
proof -
  let ?S = "bm_ones (b_bitarray b)"
  have s: "sub64 start (b_start b) = start - b_start b" "add64 (sub64 fin start) 1 = fin - start + 1"
    using assms by simp_all
  have "bitarray_find False (b_addr b) (b_bitarray b) (start - b_start b) (fin - start + 1) =
      Some (first_clear ?S (start - b_start b) (fin - start + 1))"
    using bitarray_find_first [of "start - b_start b" "fin - start + 1" "b_bitarray b" False "b_addr b"] assms
    by (simp add: misses_def)
  moreover have "add64 p (b_start b) = p + b_start b"
    if "first_clear ?S (start - b_start b) (fin - start + 1) = Some p" for p
  proof -
    have "p < start - b_start b + (fin - start + 1)" using that by (simp only: first_clear_Some)
    then show ?thesis using assms by simp
  qed
  ultimately show ?thesis unfolding ext2_bitarray_find_first_zero_def s find_result_def
    by (auto split: option.splits)
qed

theorem find_first_zero_correct_witness:
  "ext2_bitarray_find_first_zero
     \<lparr>b_start = 1, b_end = 80, b_real_end = 80, b_bitarray = replicate 9 255 @ [247], b_addr = 4099\<rparr> 4 80
   = Some (Inr 76)"
proof -
  let ?b = "\<lparr>b_start = 1, b_end = 80, b_real_end = 80, b_bitarray = replicate 9 255 @ [247], b_addr = 4099\<rparr>"
  have ones: "75 \<notin> bm_ones (replicate 9 255 @ [247])" by (simp add: bm_ones_def nth_append bit_numeral_rec)
  have "{3..<75} \<subseteq> bm_ones (replicate 9 255 @ [247])"
  proof
    fix i :: nat assume i: "i \<in> {3..<75}"
    show "i \<in> bm_ones (replicate 9 255 @ [247])"
    proof (cases "i div 8 < 9")
      case True
      then show ?thesis using bit_255 [of "i mod 8"] i by (simp add: bm_ones_def nth_append)
    next
      case False
      with i have "i = 72 \<or> i = 73 \<or> i = 74" by auto
      then show ?thesis by (auto simp: bm_ones_def nth_append bit_numeral_rec)
    qed
  qed
  then have "first_clear (bm_ones (replicate 9 255 @ [247])) 3 77 = Some 75" using ones by (simp add: first_clear_Some)
  then show ?thesis using find_first_zero_correct [of ?b 4 80] by simp
qed

text \<open>
  The word-at-a-time search for a set bit finds the first one from start to end, or
  reports ENOENT when there is none.
\<close>

theorem find_first_set_correct:
  assumes "b_start b \<le> start" and "start \<le> fin" and "fin < 2 ^ 64 - 1"
    and "fin - b_start b < bm_cap (b_bitarray b)"
  shows "ext2_bitarray_find_first_set b start fin =
     Some (case first_clear (- bm_ones (b_bitarray b)) (start - b_start b) (fin - start + 1) of
             None \<Rightarrow> Inl ENOENT | Some p \<Rightarrow> Inr (p + b_start b))"
proof -
  let ?S = "- bm_ones (b_bitarray b)"
  have s: "sub64 start (b_start b) = start - b_start b" "add64 (sub64 fin start) 1 = fin - start + 1"
    using assms by simp_all
  have "misses True (b_bitarray b) = ?S" by (auto simp: misses_def)
  then have "bitarray_find True (b_addr b) (b_bitarray b) (start - b_start b) (fin - start + 1) =
      Some (first_clear ?S (start - b_start b) (fin - start + 1))"
    using bitarray_find_first [of "start - b_start b" "fin - start + 1" "b_bitarray b" True "b_addr b"] assms by simp
  moreover have "add64 p (b_start b) = p + b_start b"
    if "first_clear ?S (start - b_start b) (fin - start + 1) = Some p" for p
  proof -
    have "p < start - b_start b + (fin - start + 1)" using that by (simp only: first_clear_Some)
    then show ?thesis using assms by simp
  qed
  ultimately show ?thesis unfolding ext2_bitarray_find_first_set_def s find_result_def
    by (auto split: option.splits)
qed

theorem find_first_set_correct_witness:
  "ext2_bitarray_find_first_set
     \<lparr>b_start = 0, b_end = 15, b_real_end = 15, b_bitarray = [0, 0], b_addr = 4099\<rparr> 3 15 = Some (Inl ENOENT)"
proof -
  have "bm_ones [0, 0] = {}" using bm_ones_zeros [of 2] by (simp add: numeral_2_eq_2)
  then have "first_clear (- bm_ones [0, 0]) 3 13 = None" by (simp add: first_clear_None)
  then show ?thesis
    using find_first_set_correct [of "\<lparr>b_start = 0, b_end = 15, b_real_end = 15, b_bitarray = [0, 0], b_addr = 4099\<rparr>" 3 15]
    by simp
qed

end
