(* ===== verification/Pml_Perm.thy ===== *)
theory Pml_Perm
  imports Pml_Cred
begin

text \<open>
  drivers/fs/perm.c: the permission checks of the file system for the running process. A
  check passes with \<open>Inr ()\<close> and fails with the error number stored in errno.
\<close>

section \<open>Modes\<close>

definition S_IFMT :: u32 where "S_IFMT = 0xf000"
definition S_IFIFO :: u32 where "S_IFIFO = 0x1000"
definition S_IFCHR :: u32 where "S_IFCHR = 0x2000"
definition S_IFDIR :: u32 where "S_IFDIR = 0x4000"
definition S_IFSOCK :: u32 where "S_IFSOCK = 0xc000"
definition S_IRUSR :: u32 where "S_IRUSR = 0x100"
definition S_IWUSR :: u32 where "S_IWUSR = 0x80"
definition S_IXUSR :: u32 where "S_IXUSR = 0x40"
definition S_IRGRP :: u32 where "S_IRGRP = 0x20"
definition S_IWGRP :: u32 where "S_IWGRP = 0x10"
definition S_IXGRP :: u32 where "S_IXGRP = 0x8"
definition S_IROTH :: u32 where "S_IROTH = 0x4"
definition S_IWOTH :: u32 where "S_IWOTH = 0x2"
definition S_IXOTH :: u32 where "S_IXOTH = 0x1"

definition S_IFREG :: u32 where "S_IFREG = 0x8000"
definition S_IFLNK :: u32 where "S_IFLNK = 0xa000"
definition S_ISUID :: u32 where "S_ISUID = 0x800"
definition S_ISGID :: u32 where "S_ISGID = 0x400"

definition S_ISREG :: "u32 \<Rightarrow> bool" where "S_ISREG m = (m AND S_IFMT = S_IFREG)"
definition S_ISLNK :: "u32 \<Rightarrow> bool" where "S_ISLNK m = (m AND S_IFMT = S_IFLNK)"
definition S_ISDIR :: "u32 \<Rightarrow> bool" where "S_ISDIR m = (m AND S_IFMT = S_IFDIR)"
definition S_ISFIFO :: "u32 \<Rightarrow> bool" where "S_ISFIFO m = (m AND S_IFMT = S_IFIFO)"
definition S_ISSOCK :: "u32 \<Rightarrow> bool" where "S_ISSOCK m = (m AND S_IFMT = S_IFSOCK)"
definition S_ISCHR :: "u32 \<Rightarrow> bool" where "S_ISCHR m = (m AND S_IFMT = S_IFCHR)"

record vnode =
  v_uid :: u32
  v_gid :: u32
  v_mode :: u32

section \<open>Checks\<close>

definition vfs_can_read :: "'a vnode_scheme \<Rightarrow> bool \<Rightarrow> process \<Rightarrow> errno + unit" where
  "vfs_can_read vp real p =
     (let uid = (if real then p_uid p else p_euid p); gid = (if real then p_gid p else p_egid p) in
      if uid = 0 then Inr ()
      else if v_uid vp = uid
      then if v_mode vp AND S_IRUSR = 0 then Inl EACCES
           else if S_ISDIR (v_mode vp) \<and> v_mode vp AND S_IXUSR = 0 then Inl EACCES else Inr ()
      else if v_gid vp = gid
      then if v_mode vp AND S_IRGRP = 0 then Inl EACCES
           else if S_ISDIR (v_mode vp) \<and> v_mode vp AND S_IXGRP = 0 then Inl EACCES else Inr ()
      else if v_mode vp AND S_IROTH = 0 then Inl EACCES
      else if S_ISDIR (v_mode vp) \<and> v_mode vp AND S_IXOTH = 0 then Inl EACCES
      else Inr ())"

definition vfs_can_write :: "'a vnode_scheme \<Rightarrow> bool \<Rightarrow> process \<Rightarrow> errno + unit" where
  "vfs_can_write vp real p =
     (let uid = (if real then p_uid p else p_euid p); gid = (if real then p_gid p else p_egid p) in
      if uid = 0 then Inr ()
      else if v_uid vp = uid
      then if v_mode vp AND S_IWUSR = 0 then Inl EACCES
           else if S_ISDIR (v_mode vp) \<and> v_mode vp AND S_IXUSR = 0 then Inl EACCES else Inr ()
      else if v_gid vp = gid
      then if v_mode vp AND S_IWGRP = 0 then Inl EACCES
           else if S_ISDIR (v_mode vp) \<and> v_mode vp AND S_IXGRP = 0 then Inl EACCES else Inr ()
      else if v_mode vp AND S_IWOTH = 0 then Inl EACCES
      else if S_ISDIR (v_mode vp) \<and> v_mode vp AND S_IXOTH = 0 then Inl EACCES
      else Inr ())"

definition vfs_can_exec :: "'a vnode_scheme \<Rightarrow> bool \<Rightarrow> process \<Rightarrow> errno + unit" where
  "vfs_can_exec vp real p =
     (let uid = (if real then p_uid p else p_euid p); gid = (if real then p_gid p else p_egid p) in
      if uid = 0
      then if v_mode vp AND (S_IXUSR OR S_IXGRP OR S_IXOTH) \<noteq> 0 then Inr () else Inl EACCES
      else if v_uid vp = uid then if v_mode vp AND S_IXUSR = 0 then Inl EACCES else Inr ()
      else if v_gid vp = gid then if v_mode vp AND S_IXGRP = 0 then Inl EACCES else Inr ()
      else if v_mode vp AND S_IXOTH = 0 then Inl EACCES
      else Inr ())"

definition vfs_can_seek :: "'a vnode_scheme \<Rightarrow> errno + unit" where
  "vfs_can_seek vp =
     (if S_ISFIFO (v_mode vp) \<or> S_ISSOCK (v_mode vp) \<or> S_ISCHR (v_mode vp) then Inl ESPIPE else Inr ())"

section \<open>The permission triple that applies\<close>

text \<open>
  The position of the permission triple for a process: the owner's if it owns the file,
  else the group's if its group is that of the file, else that of the others; and the bit
  for reading (2), writing (1) or executing (0) in that triple.
\<close>

definition perm_uid :: "bool \<Rightarrow> process \<Rightarrow> u32" where
  "perm_uid real p = (if real then p_uid p else p_euid p)"

definition perm_class :: "'a vnode_scheme \<Rightarrow> bool \<Rightarrow> process \<Rightarrow> nat" where
  "perm_class vp real p =
     (if v_uid vp = perm_uid real p then 6
      else if v_gid vp = (if real then p_gid p else p_egid p) then 3 else 0)"

definition perm_bit :: "'a vnode_scheme \<Rightarrow> bool \<Rightarrow> process \<Rightarrow> nat \<Rightarrow> bool" where
  "perm_bit vp real p n = bit (v_mode vp) (perm_class vp real p + n)"

lemma mode_bits:
  "m AND S_IRUSR = 0 \<longleftrightarrow> \<not> bit m 8" "m AND S_IWUSR = 0 \<longleftrightarrow> \<not> bit m 7" "m AND S_IXUSR = 0 \<longleftrightarrow> \<not> bit m 6"
  "m AND S_IRGRP = 0 \<longleftrightarrow> \<not> bit m 5" "m AND S_IWGRP = 0 \<longleftrightarrow> \<not> bit m 4" "m AND S_IXGRP = 0 \<longleftrightarrow> \<not> bit m 3"
  "m AND S_IROTH = 0 \<longleftrightarrow> \<not> bit m 2" "m AND S_IWOTH = 0 \<longleftrightarrow> \<not> bit m 1" "m AND S_IXOTH = 0 \<longleftrightarrow> \<not> bit m 0"
  using and_exp_eq_0_iff [of 8 m] and_exp_eq_0_iff [of 7 m] and_exp_eq_0_iff [of 6 m] and_exp_eq_0_iff [of 5 m]
    and_exp_eq_0_iff [of 4 m] and_exp_eq_0_iff [of 3 m] and_exp_eq_0_iff [of 2 m] and_exp_eq_0_iff [of 1 m]
    and_exp_eq_0_iff [of 0 m]
  by (simp_all add: S_IRUSR_def S_IWUSR_def S_IXUSR_def S_IRGRP_def S_IWGRP_def S_IXGRP_def
      S_IROTH_def S_IWOTH_def S_IXOTH_def)

lemma can_read_iff:
  "vfs_can_read vp real p = Inr () \<longleftrightarrow> perm_uid real p = 0 \<or>
     perm_bit vp real p 2 \<and> (S_ISDIR (v_mode vp) \<longrightarrow> perm_bit vp real p 0)"
  by (simp add: vfs_can_read_def perm_bit_def perm_class_def perm_uid_def mode_bits Let_def del: add_2_eq_Suc')

lemma can_write_iff:
  "vfs_can_write vp real p = Inr () \<longleftrightarrow> perm_uid real p = 0 \<or>
     perm_bit vp real p 1 \<and> (S_ISDIR (v_mode vp) \<longrightarrow> perm_bit vp real p 0)"
  by (simp add: vfs_can_write_def perm_bit_def perm_class_def perm_uid_def mode_bits Let_def)

lemma exec_mask: "m AND (S_IXUSR OR S_IXGRP OR S_IXOTH) = 0 \<longleftrightarrow> \<not> bit m 6 \<and> \<not> bit m 3 \<and> \<not> bit m 0"
  by (simp add: or_eq_0_iff bit.conj_disj_distrib mode_bits)

lemma can_exec_iff:
  "vfs_can_exec vp real p = Inr () \<longleftrightarrow>
     (if perm_uid real p = 0 then \<exists>c \<in> {0, 3, 6}. bit (v_mode vp) c else perm_bit vp real p 0)"
  by (auto simp: vfs_can_exec_def perm_bit_def perm_class_def perm_uid_def mode_bits exec_mask Let_def)

section \<open>Properties of the permission checks\<close>

text \<open>
  The checks decide by exactly one permission triple, that of the owner, the group or the
  others in this order: reading and writing need the bit of the triple and for directories
  the execute bit of the same triple, executing needs the execute bit. The super-user may
  always read and write, and execute when any execute bit is set.
\<close>

theorem permission_checks_use_one_class:
  "(vfs_can_read vp real p = Inr () \<longleftrightarrow> perm_uid real p = 0 \<or>
      perm_bit vp real p 2 \<and> (S_ISDIR (v_mode vp) \<longrightarrow> perm_bit vp real p 0)) \<and>
   (vfs_can_write vp real p = Inr () \<longleftrightarrow> perm_uid real p = 0 \<or>
      perm_bit vp real p 1 \<and> (S_ISDIR (v_mode vp) \<longrightarrow> perm_bit vp real p 0)) \<and>
   (vfs_can_exec vp real p = Inr () \<longleftrightarrow>
      (if perm_uid real p = 0 then \<exists>c \<in> {0, 3, 6}. bit (v_mode vp) c else perm_bit vp real p 0))"
  by (intro conjI can_read_iff can_write_iff can_exec_iff)

theorem permission_checks_use_one_class_witness:
  "vfs_can_read \<lparr>v_uid = 1001, v_gid = 100, v_mode = 0x8024\<rparr> False user_process \<noteq> Inr ()"
  using permission_checks_use_one_class [of "\<lparr>v_uid = 1001, v_gid = 100, v_mode = 0x8024\<rparr>" False user_process]
  by (simp add: user_process_def perm_bit_def perm_class_def perm_uid_def bit_numeral_rec)

end
