(* ===== verification/Pml_Pipe.thy ===== *)
theory Pml_Pipe
  imports Pml_Prelude
begin

text \<open>
  drivers/fs/pipe.c: reading, writing and closing of pipes. The state is struct pipe with its
  buffer. An operation that waits in a loop for the other end has the result \<open>Pipe_wait\<close>
  with the state unchanged; after the other end has run, it goes on with its part from the
  loop on (\<open>pipe_read_ready\<close>, \<open>pipe_write_ready\<close>). sys_pipe, which also maps the pages of the buffer, is not part of the model.
\<close>

section \<open>State and operations\<close>

definition PIPE_SIZE :: nat where "PIPE_SIZE = 8 * 4096"

record pipe =
  pi_buffer :: "u8 list"
  pi_start :: nat
  pi_end :: nat
  pi_widowed :: bool

datatype pipe_result = Pipe_wait | Pipe_data "u8 list" | Pipe_written nat | Pipe_error errno | Pipe_sigpipe

definition pipe_read_ready :: "nat \<Rightarrow> pipe \<Rightarrow> pipe_result \<times> pipe" where
  "pipe_read_ready len p =
     (if pi_start p = pi_end p then (Pipe_wait, p)
      else let real_len = pi_end p - pi_start p;
               out = take (if len > real_len then real_len else len) (drop (pi_start p) (pi_buffer p))
           in (Pipe_data out, if real_len \<le> len then p\<lparr>pi_start := 0, pi_end := 0\<rparr> else p))"

definition pipe_read :: "nat \<Rightarrow> pipe \<Rightarrow> pipe_result \<times> pipe" where
  "pipe_read len p = (if pi_widowed p then (Pipe_data [], p) else pipe_read_ready len p)"

definition pipe_append :: "u8 list \<Rightarrow> pipe \<Rightarrow> pipe_result \<times> pipe" where
  "pipe_append data p =
     (Pipe_written (length data),
      p\<lparr>pi_buffer := take (pi_end p) (pi_buffer p) @ data @ drop (pi_end p + length data) (pi_buffer p),
        pi_end := pi_end p + length data\<rparr>)"

definition pipe_write_ready :: "u8 list \<Rightarrow> pipe \<Rightarrow> pipe_result \<times> pipe" where
  "pipe_write_ready data p =
     (if PIPE_SIZE - pi_end p + pi_start p < length data then (Pipe_wait, p)
      else pipe_append data
        (p\<lparr>pi_buffer := take (pi_end p - pi_start p) (drop (pi_start p) (pi_buffer p))
                        @ drop (pi_end p - pi_start p) (pi_buffer p),
           pi_end := pi_end p - pi_start p, pi_start := 0\<rparr>))"

text \<open>\<open>Pipe_sigpipe\<close>: SIGPIPE is sent to the caller, and the call fails with EPIPE.\<close>

definition pipe_write :: "u8 list \<Rightarrow> pipe \<Rightarrow> pipe_result \<times> pipe" where
  "pipe_write data p =
     (if pi_widowed p then (Pipe_sigpipe, p)
      else if length data > PIPE_SIZE then (Pipe_error ENOSPC, p)
      else if PIPE_SIZE - pi_end p < length data then pipe_write_ready data p
      else pipe_append data p)"

text \<open>Closing one end; \<open>None\<close> when this was the second end and the pipe is freed.\<close>

definition pipe_dealloc :: "pipe \<Rightarrow> pipe option" where
  "pipe_dealloc p = (if pi_widowed p then None else Some (p\<lparr>pi_widowed := True\<rparr>))"

section \<open>The bytes in a pipe\<close>

definition pipe_contents :: "pipe \<Rightarrow> u8 list" where
  "pipe_contents p = take (pi_end p - pi_start p) (drop (pi_start p) (pi_buffer p))"

definition pipe_inv :: "pipe \<Rightarrow> bool" where
  "pipe_inv p = (length (pi_buffer p) = PIPE_SIZE \<and> pi_start p \<le> pi_end p \<and> pi_end p \<le> PIPE_SIZE)"

lemma pipe_contents_length: "pipe_inv p \<Longrightarrow> length (pipe_contents p) = pi_end p - pi_start p"
  by (auto simp: pipe_inv_def pipe_contents_def)

lemma pipe_append_ok:
  assumes inv: "pipe_inv p" and room: "pi_end p + length data \<le> PIPE_SIZE" and w: "pipe_append data p = (r, p')"
  shows "r = Pipe_written (length data) \<and> pipe_inv p' \<and> pipe_contents p' = pipe_contents p @ data
     \<and> pi_widowed p' = pi_widowed p"
proof -
  have q: "length (pi_buffer p) = PIPE_SIZE" "pi_start p \<le> pi_end p" "pi_end p \<le> PIPE_SIZE"
    using inv by (simp_all add: pipe_inv_def)
  have "take (pi_end p + length data - pi_start p) (drop (pi_start p)
        (take (pi_end p) (pi_buffer p) @ data @ drop (pi_end p + length data) (pi_buffer p)))
      = take (pi_end p - pi_start p) (drop (pi_start p) (pi_buffer p)) @ data"
    using q by (simp add: drop_take)
  then show ?thesis using w q room by (auto simp: pipe_append_def pipe_contents_def pipe_inv_def)
qed

lemma pipe_compact_ok:
  assumes "pipe_inv p"
  defines "q \<equiv> p\<lparr>pi_buffer := take (pi_end p - pi_start p) (drop (pi_start p) (pi_buffer p))
       @ drop (pi_end p - pi_start p) (pi_buffer p), pi_end := pi_end p - pi_start p, pi_start := 0\<rparr>"
  shows "pipe_inv q \<and> pipe_contents q = pipe_contents p \<and> pi_widowed q = pi_widowed p"
proof -
  have l: "length (take (pi_end p - pi_start p) (drop (pi_start p) (pi_buffer p))) = pi_end p - pi_start p"
    using pipe_contents_length [OF assms(1)] by (simp add: pipe_contents_def)
  have "length (pi_buffer p) = PIPE_SIZE" "pi_end p \<le> PIPE_SIZE" using assms(1) by (simp_all add: pipe_inv_def)
  with l show ?thesis by (simp add: q_def pipe_inv_def pipe_contents_def)
qed

lemma pipe_write_ready_ok:
  assumes inv: "pipe_inv p" and w: "pipe_write_ready data p = (Pipe_written n, p')"
  shows "pipe_inv p' \<and> n = length data \<and> pipe_contents p' = pipe_contents p @ data \<and> pi_widowed p' = pi_widowed p"
proof -
  let ?q = "p\<lparr>pi_buffer := take (pi_end p - pi_start p) (drop (pi_start p) (pi_buffer p))
       @ drop (pi_end p - pi_start p) (pi_buffer p), pi_end := pi_end p - pi_start p, pi_start := 0\<rparr>"
  have room: "\<not> PIPE_SIZE - pi_end p + pi_start p < length data" and a: "pipe_append data ?q = (Pipe_written n, p')"
    using w by (simp_all add: pipe_write_ready_def split: if_splits)
  have "pi_end ?q + length data \<le> PIPE_SIZE" using room inv by (auto simp: pipe_inv_def)
  then show ?thesis using pipe_append_ok [OF _ _ a] pipe_compact_ok [OF inv] by simp
qed

lemma pipe_write_ok:
  assumes inv: "pipe_inv p" and w: "pipe_write data p = (Pipe_written n, p')"
  shows "pipe_inv p' \<and> n = length data \<and> pipe_contents p' = pipe_contents p @ data \<and> pi_widowed p' = pi_widowed p"
proof (cases "PIPE_SIZE - pi_end p < length data")
  case True
  then show ?thesis using w pipe_write_ready_ok [OF inv] by (simp add: pipe_write_def split: if_splits)
next
  case False
  then have a: "pipe_append data p = (Pipe_written n, p')" using w by (simp add: pipe_write_def split: if_splits)
  have "pi_end p + length data \<le> PIPE_SIZE" using False inv by (auto simp: pipe_inv_def)
  then show ?thesis using pipe_append_ok [OF inv _ a] by simp
qed

lemma pipe_read_all:
  assumes inv: "pipe_inv p" and len: "length (pipe_contents p) \<le> len" and ne: "pipe_contents p \<noteq> []" and open_: "\<not> pi_widowed p"
  shows "\<exists>p'. pipe_read len p = (Pipe_data (pipe_contents p), p') \<and> pipe_inv p' \<and> pipe_contents p' = []"
proof -
  have l: "length (pipe_contents p) = pi_end p - pi_start p" by (rule pipe_contents_length [OF inv])
  then have "pi_start p \<noteq> pi_end p" using ne by auto
  moreover have "pi_end p - pi_start p \<le> len" using l len by simp
  ultimately show ?thesis using open_ inv
    by (auto simp: pipe_read_def pipe_read_ready_def Let_def pipe_contents_def pipe_inv_def)
qed

section \<open>Sequences of operations\<close>

datatype pipe_operation = Pwrite "u8 list" | Pread nat

primrec pipe_op :: "pipe_operation \<Rightarrow> pipe \<Rightarrow> pipe_result \<times> pipe" where
  "pipe_op (Pwrite data) p = pipe_write data p"
| "pipe_op (Pread len) p = pipe_read len p"

text \<open>What a pipe is to its users: a buffer of at most \<open>PIPE_SIZE\<close> bytes. Only a read that asks for all bytes takes them.\<close>

primrec buf_op :: "pipe_operation \<Rightarrow> u8 list \<Rightarrow> pipe_result \<times> u8 list" where
  "buf_op (Pwrite data) c =
     (if length data > PIPE_SIZE then (Pipe_error ENOSPC, c)
      else if length c + length data > PIPE_SIZE then (Pipe_wait, c)
      else (Pipe_written (length data), c @ data))"
| "buf_op (Pread len) c = (if c = [] then (Pipe_wait, c) else (Pipe_data (take len c), if length c \<le> len then [] else c))"

primrec run_ops :: "(pipe_operation \<Rightarrow> 's \<Rightarrow> pipe_result \<times> 's) \<Rightarrow> pipe_operation list \<Rightarrow> 's \<Rightarrow> pipe_result list \<times> 's" where
  "run_ops f [] s = ([], s)"
| "run_ops f (x # xs) s = (let (r, s) = f x s; (rs, s) = run_ops f xs s in (r # rs, s))"

lemma pipe_write_refines:
  assumes inv: "pipe_inv p" and "\<not> pi_widowed p"
  shows "\<exists>p'. pipe_write data p = (fst (buf_op (Pwrite data) (pipe_contents p)), p') \<and> pipe_inv p' \<and> \<not> pi_widowed p' \<and>
    pipe_contents p' = snd (buf_op (Pwrite data) (pipe_contents p))"
proof -
  have len: "length (pipe_contents p) = pi_end p - pi_start p" "pi_start p \<le> pi_end p" "pi_end p \<le> PIPE_SIZE"
    using pipe_contents_length [OF inv] inv by (auto simp: pipe_inv_def)
  obtain r p' where w: "pipe_write data p = (r, p')" by (cases "pipe_write data p")
  show ?thesis
  proof (cases "length data > PIPE_SIZE \<or> length (pipe_contents p) + length data > PIPE_SIZE")
    case True
    then show ?thesis using assms len by (auto simp: pipe_write_def pipe_write_ready_def)
  next
    case False
    then have "r = Pipe_written (length data)" using w assms(2) len by (auto simp: pipe_write_def pipe_write_ready_def pipe_append_def split: if_splits)
    then show ?thesis using pipe_write_ok [OF inv, of data "length data" p'] w False assms(2) by auto
  qed
qed

lemma pipe_read_refines:
  assumes inv: "pipe_inv p" and "\<not> pi_widowed p"
  shows "\<exists>p'. pipe_read len p = (fst (buf_op (Pread len) (pipe_contents p)), p') \<and> pipe_inv p' \<and> \<not> pi_widowed p' \<and>
    pipe_contents p' = snd (buf_op (Pread len) (pipe_contents p))"
proof -
  have l: "length (pipe_contents p) = pi_end p - pi_start p" "pi_start p \<le> pi_end p" using pipe_contents_length [OF inv] inv by (auto simp: pipe_inv_def)
  then have e: "pipe_contents p = [] \<longleftrightarrow> pi_start p = pi_end p" by auto
  show ?thesis
  proof (cases "pi_start p = pi_end p")
    case True
    then show ?thesis using e assms by (simp add: pipe_read_def pipe_read_ready_def)
  next
    case False
    then show ?thesis using e l assms
      by (auto simp: pipe_read_def pipe_read_ready_def Let_def pipe_contents_def pipe_inv_def min_def)
  qed
qed

text \<open>
  C40: A pipe whose ends are both open is a bounded buffer: in any sequence of reads and writes a write that fits appends its bytes,
  one that does not fit waits or is refused and changes nothing, and a read returns the bytes at the front of what
  has been written. The bytes leave the pipe only with a read that asks for all of them: a shorter
  read returns the first bytes and the next read returns them again.\<close>

theorem pipe_refines_buffer:
  assumes "pipe_inv p" and "\<not> pi_widowed p"
  shows "\<exists>p'. run_ops pipe_op ops p = (fst (run_ops buf_op ops (pipe_contents p)), p') \<and> pipe_inv p' \<and>
    pipe_contents p' = snd (run_ops buf_op ops (pipe_contents p))"
  using assms
proof (induction ops arbitrary: p)
  case (Cons x xs)
  obtain p1 where p1: "pipe_op x p = (fst (buf_op x (pipe_contents p)), p1)" "pipe_inv p1" "\<not> pi_widowed p1"
      "pipe_contents p1 = snd (buf_op x (pipe_contents p))"
    using pipe_write_refines [OF Cons.prems] pipe_read_refines [OF Cons.prems] by (cases x) (simp_all del: buf_op.simps, blast+)
  obtain p' where "run_ops pipe_op xs p1 = (fst (run_ops buf_op xs (pipe_contents p1)), p')" "pipe_inv p'"
      "pipe_contents p' = snd (run_ops buf_op xs (pipe_contents p1))"
    using Cons.IH [OF p1(2,3)] by blast
  then show ?case using p1 by (simp add: split_beta)
qed simp

definition empty_pipe :: pipe where
  "empty_pipe = \<lparr>pi_buffer = replicate PIPE_SIZE 0, pi_start = 0, pi_end = 0, pi_widowed = False\<rparr>"

lemma empty_pipe_inv: "pipe_inv empty_pipe"
  by (simp add: pipe_inv_def empty_pipe_def)

theorem pipe_refines_buffer_witness:
  "\<exists>p'. run_ops pipe_op [Pwrite [1, 2, 3], Pread 2, Pread 2, Pwrite [4], Pread 9] empty_pipe =
     ([Pipe_written 3, Pipe_data [1, 2], Pipe_data [1, 2], Pipe_written 1, Pipe_data [1, 2, 3, 4]], p') \<and> pipe_contents p' = []"
proof -
  let ?ops = "[Pwrite [1, 2, 3], Pread 2, Pread 2, Pwrite [4], Pread 9]"
  have "pipe_contents empty_pipe = []" and "\<not> pi_widowed empty_pipe" by (simp_all add: pipe_contents_def empty_pipe_def)
  moreover have "run_ops buf_op ?ops [] = ([Pipe_written 3, Pipe_data [1, 2], Pipe_data [1, 2], Pipe_written 1, Pipe_data [1, 2, 3, 4]], [])"
    by (simp add: PIPE_SIZE_def)
  ultimately show ?thesis using pipe_refines_buffer [OF empty_pipe_inv, of ?ops] by (simp only: fst_conv snd_conv) blast
qed

text \<open>
  A read that asks for less than what is in the pipe returns the first bytes but leaves
  them there: the next read of the same size returns the same bytes again.
\<close>

theorem pipe_partial_read_repeats:
  assumes "pipe_inv p" and "\<not> pi_widowed p" and "0 < len" and "len < length (pipe_contents p)"
  shows "pipe_read len p = (Pipe_data (take len (pipe_contents p)), p)"
proof -
  have "length (pipe_contents p) = pi_end p - pi_start p" by (rule pipe_contents_length [OF assms(1)])
  then have l: "len < pi_end p - pi_start p" "pi_start p \<noteq> pi_end p" using assms(4) by auto
  then show ?thesis using assms(2) by (simp add: pipe_read_def pipe_read_ready_def Let_def pipe_contents_def)
qed

theorem pipe_partial_read_repeats_witness:
  "\<exists>p1. pipe_write [1, 2, 3] empty_pipe = (Pipe_written 3, p1) \<and> pipe_read 2 p1 = (Pipe_data [1, 2], p1)"
proof -
  obtain p1 where w: "pipe_write [1, 2, 3] empty_pipe = (Pipe_written 3, p1)"
    by (auto simp: pipe_write_def pipe_append_def empty_pipe_def PIPE_SIZE_def Let_def)
  have "pipe_contents empty_pipe = []" "\<not> pi_widowed empty_pipe" by (simp_all add: pipe_contents_def empty_pipe_def)
  with pipe_write_ok [OF empty_pipe_inv w] have p1: "pipe_inv p1" "pipe_contents p1 = [1, 2, 3]" "\<not> pi_widowed p1" by simp_all
  then show ?thesis using w pipe_partial_read_repeats [OF p1(1,3), of 2] by auto
qed

end
