(* ===== verification/Pml_Page.thy ===== *)
theory Pml_Page
  imports Pml_Stdlib
begin

text \<open>
  The page frame allocator of arch/x86_64/mm.c: reference counts of the page frames, the
  search pointer that runs over the memory map of the boot loader, and the operations that
  take, share and give back frames. A frame number beyond the table of counts and an empty
  memory map have no behaviour in C; the result \<open>None\<close> is that access.
\<close>

section \<open>State\<close>

definition PAGE_SIZE :: u64 where "PAGE_SIZE = 0x1000"
definition LOW_PHYSICAL_BASE_VMA :: u64 where "LOW_PHYSICAL_BASE_VMA = 0xfffffe0000000000"
definition KERNEL_VMA :: u64 where "KERNEL_VMA = 0xfffffe0000000000"

definition PHYS_REL :: "u64 \<Rightarrow> u64" where
  "PHYS_REL x = x + LOW_PHYSICAL_BASE_VMA"

record mem_region =
  rg_base :: u64
  rg_len :: u64

record page_alloc =
  phys_alloc_table :: "u32 list"
  next_phys_addr :: u64
  mem_avail :: bool
  mm_regions :: "mem_region list"
  mm_curr :: nat

section \<open>Operations\<close>

text \<open>
  The loop of vm_next_page over the regions: the index where it stops, and the base of the
  next region when the address lies in the hole before it.
\<close>

function next_region :: "mem_region list \<Rightarrow> nat \<Rightarrow> u64 \<Rightarrow> nat \<times> u64 option" where
  "next_region rs c a =
     (if c < length rs - 1
      then if rg_base (rs ! c) + rg_len (rs ! c) \<le> a \<and> a < rg_base (rs ! Suc c)
           then (c, Some (rg_base (rs ! Suc c)))
           else next_region rs (Suc c) a
      else (c, None))"
  by pat_completeness auto
termination by (relation "measure (\<lambda>(rs, c, a). length rs - c)") auto

declare next_region.simps [simp del]

definition vm_next_page :: "page_alloc \<Rightarrow> page_alloc option" where
  "vm_next_page s =
     (if mm_regions s = [] then None
      else Some (case next_region (mm_regions s) (mm_curr s) (next_phys_addr s) of
          (c, Some b) \<Rightarrow> s\<lparr>mm_curr := c, next_phys_addr := b\<rparr>
        | (c, None) \<Rightarrow>
            (let r = mm_regions s ! (length (mm_regions s) - 1) in
             if next_phys_addr s < rg_base r + rg_len r
             then s\<lparr>mm_curr := length (mm_regions s) - 1, next_phys_addr := next_phys_addr s + PAGE_SIZE\<rparr>
             else s\<lparr>mm_curr := c, mem_avail := False\<rparr>)))"

definition frame :: "u64 \<Rightarrow> nat" where
  "frame a = unat a div 4096"

partial_function (option) alloc_page :: "page_alloc \<Rightarrow> (u64 \<times> page_alloc) option" where
  "alloc_page s =
     (if \<not> mem_avail s then Some (0, s)
      else if length (phys_alloc_table s) \<le> frame (next_phys_addr s) then None
      else if phys_alloc_table s ! frame (next_phys_addr s) = 0
      then map_option (Pair (next_phys_addr s))
             (vm_next_page (s\<lparr>phys_alloc_table := (phys_alloc_table s)[frame (next_phys_addr s) := 1]\<rparr>))
      else Option.bind (vm_next_page s) alloc_page)"

definition ref_page :: "u64 \<Rightarrow> page_alloc \<Rightarrow> page_alloc option" where
  "ref_page addr s =
     (if addr = 0 then Some s
      else if length (phys_alloc_table s) \<le> frame addr then None
      else let n = phys_alloc_table s ! frame addr in
           Some (if n \<noteq> 0 then s\<lparr>phys_alloc_table := (phys_alloc_table s)[frame addr := n + 1]\<rparr> else s))"

primrec region_back :: "mem_region list \<Rightarrow> nat \<Rightarrow> u64 \<Rightarrow> nat" where
  "region_back rs 0 a = 0"
| "region_back rs (Suc c) a = (if a < rg_base (rs ! Suc c) then region_back rs c a else Suc c)"

definition free_page :: "u64 \<Rightarrow> page_alloc \<Rightarrow> page_alloc option" where
  "free_page addr s =
     (if addr = 0 then Some s
      else let a = ALIGN_DOWN addr PAGE_SIZE in
        if length (phys_alloc_table s) \<le> frame a then None
        else let n = phys_alloc_table s ! frame a; n' = (if n \<noteq> 0 then n - 1 else n);
                 s1 = s\<lparr>phys_alloc_table := (phys_alloc_table s)[frame a := n']\<rparr>
             in Some (if n' = 0 \<and> a < next_phys_addr s1
                      then s1\<lparr>next_phys_addr := a, mm_curr := region_back (mm_regions s1) (mm_curr s1) a\<rparr>
                      else s1))"

text \<open>The null pointer of alloc_virtual_page is the address 0.\<close>

definition alloc_virtual_page :: "page_alloc \<Rightarrow> (u64 \<times> page_alloc) option" where
  "alloc_virtual_page s =
     map_option (\<lambda>(addr, s'). (if addr = 0 then 0 else PHYS_REL addr, s')) (alloc_page s)"

definition free_virtual_page :: "u64 \<Rightarrow> page_alloc \<Rightarrow> page_alloc option" where
  "free_virtual_page ptr s = (if ptr = 0 then Some s else free_page (ptr - KERNEL_VMA) s)"

section \<open>Invariant\<close>

text \<open>
  The memory map is not empty, its regions start on page boundaries, and the table of counts
  reaches one frame beyond the end of every region.
\<close>

definition page_aligned :: "u64 \<Rightarrow> bool" where
  "page_aligned a \<longleftrightarrow> 4096 dvd unat a"

definition region_ok :: "nat \<Rightarrow> mem_region \<Rightarrow> bool" where
  "region_ok n r \<longleftrightarrow> page_aligned (rg_base r) \<and> unat (rg_base r) + unat (rg_len r) + 4096 \<le> 4096 * n"

definition pa_inv :: "page_alloc \<Rightarrow> bool" where
  "pa_inv s \<longleftrightarrow>
     mm_regions s \<noteq> [] \<and> mm_curr s < length (mm_regions s) \<and>
     list_all (region_ok (length (phys_alloc_table s))) (mm_regions s) \<and>
     4096 * length (phys_alloc_table s) \<le> 2 ^ 64 \<and>
     page_aligned (next_phys_addr s) \<and> frame (next_phys_addr s) < length (phys_alloc_table s)"

lemma unat_page_down: "unat (ALIGN_DOWN a PAGE_SIZE) = unat a div 4096 * 4096"
  using unat_ALIGN_DOWN [of a 12] by (simp add: PAGE_SIZE_def)

lemma page_aligned_frame: "page_aligned a \<Longrightarrow> unat a = 4096 * frame a"
  by (auto simp: page_aligned_def frame_def)

lemma align_down_aligned [simp]: "page_aligned (ALIGN_DOWN a PAGE_SIZE)"
  by (simp add: page_aligned_def unat_page_down)

lemma frame_align_down [simp]: "frame (ALIGN_DOWN a PAGE_SIZE) = frame a"
  by (simp add: frame_def unat_page_down)

lemma frame_less_mono: "page_aligned a \<Longrightarrow> page_aligned b \<Longrightarrow> a < b \<Longrightarrow> frame a < frame b"
  by (drule page_aligned_frame)+ (simp add: word_less_nat_alt)

lemma next_region_result:
  "c < length rs \<Longrightarrow> next_region rs c a = (c', b) \<Longrightarrow>
     c' < length rs \<and> (case b of None \<Rightarrow> True | Some x \<Rightarrow> a < x \<and> (\<exists>r \<in> set rs. x = rg_base r))"
proof (induction rs c a rule: next_region.induct)
  case (1 rs c a)
  show ?case
  proof (cases "c < length rs - 1 \<and> rg_base (rs ! c) + rg_len (rs ! c) \<le> a \<and> a < rg_base (rs ! Suc c)")
    case True
    then have "rs ! Suc c \<in> set rs" "a < rg_base (rs ! Suc c)" by auto
    moreover have "next_region rs c a = (c, Some (rg_base (rs ! Suc c)))" using True by (subst next_region.simps) simp
    ultimately show ?thesis using 1 by auto
  next
    case no: False
    show ?thesis
    proof (cases "c < length rs - 1")
      case True
      then have "next_region rs c a = next_region rs (Suc c) a" using no by (subst next_region.simps) auto
      then show ?thesis using 1 no True by simp
    next
      case False
      then have "next_region rs c a = (c, None)" by (subst next_region.simps) simp
      then show ?thesis using 1 by simp
    qed
  qed
qed

text \<open>
  \<open>frames_left\<close> bounds the steps the search pointer can still make; every step of it keeps the
  invariant and the counts and lowers the bound.
\<close>

definition frames_left :: "page_alloc \<Rightarrow> nat" where
  "frames_left s = (if mem_avail s then length (phys_alloc_table s) - frame (next_phys_addr s) else 0)"

lemma vm_next_page_step:
  assumes inv: "pa_inv s" and avail: "mem_avail s"
  shows "\<exists>s'. vm_next_page s = Some s' \<and> pa_inv s' \<and> phys_alloc_table s' = phys_alloc_table s \<and>
     mm_regions s' = mm_regions s \<and> frames_left s' < frames_left s"
proof -
  let ?rs = "mm_regions s" and ?a = "next_phys_addr s" and ?n = "length (phys_alloc_table s)"
  let ?last = "?rs ! (length ?rs - 1)"
  obtain c b where nr: "next_region ?rs (mm_curr s) ?a = (c, b)" by fastforce
  have rs: "?rs \<noteq> []" "list_all (region_ok ?n) ?rs" and lim: "4096 * ?n \<le> 2 ^ 64"
    and a: "page_aligned ?a" "frame ?a < ?n" using inv by (simp_all add: pa_inv_def)
  have c: "c < length ?rs" and b: "\<And>x. b = Some x \<Longrightarrow> ?a < x \<and> (\<exists>r \<in> set ?rs. x = rg_base r)"
    using next_region_result [OF _ nr] inv by (auto simp: pa_inv_def)
  show ?thesis
  proof (cases b)
    case (Some x)
    then obtain r where r: "r \<in> set ?rs" "x = rg_base r" and lt: "?a < x" using b by auto
    then have ok: "region_ok ?n r" using rs(2) by (simp add: list_all_iff)
    then have x: "page_aligned x" "frame x < ?n" using r(2) by (auto simp: region_ok_def frame_def)
    then have "frame ?a < frame x" using frame_less_mono a(1) lt by blast
    then show ?thesis using Some nr rs lim c x avail a(2)
      by (auto simp: vm_next_page_def pa_inv_def frames_left_def)
  next
    case None
    show ?thesis
    proof (cases "?a < rg_base ?last + rg_len ?last")
      case True
      have "region_ok ?n ?last" using rs by (simp add: list_all_iff)
      then have fits: "unat (rg_base ?last) + unat (rg_len ?last) + 4096 \<le> 4096 * ?n" by (simp add: region_ok_def)
      then have "unat (rg_base ?last + rg_len ?last) = unat (rg_base ?last) + unat (rg_len ?last)"
        using lim by (intro unat_plus64) simp
      then have lt: "unat ?a + 4096 < 4096 * ?n" using True fits by (simp add: word_less_nat_alt)
      then have "unat (?a + PAGE_SIZE) = unat ?a + 4096" using lim by (simp add: unat_plus64 PAGE_SIZE_def)
      then have "frame (?a + PAGE_SIZE) = Suc (frame ?a)" "page_aligned (?a + PAGE_SIZE)"
        using a(1) by (simp_all add: frame_def page_aligned_def)
      moreover have "Suc (frame ?a) < ?n" using lt page_aligned_frame [OF a(1)] by simp
      ultimately show ?thesis using None nr rs lim avail True
        by (auto simp: vm_next_page_def pa_inv_def frames_left_def Let_def)
    next
      case False
      then show ?thesis using None nr rs lim avail c a
        by (auto simp: vm_next_page_def pa_inv_def frames_left_def Let_def)
    qed
  qed
qed

text \<open>
  The result of alloc_page on a state: the frame at the address returned was free and now has
  one reference, or the memory is exhausted and nothing but the search pointer has changed.
\<close>

definition alloc_result :: "page_alloc \<Rightarrow> u64 \<Rightarrow> page_alloc \<Rightarrow> bool" where
  "alloc_result s a s' \<longleftrightarrow> pa_inv s' \<and> mm_regions s' = mm_regions s \<and>
     (page_aligned a \<and> frame a < length (phys_alloc_table s) \<and> phys_alloc_table s ! frame a = 0 \<and>
        phys_alloc_table s' = (phys_alloc_table s)[frame a := 1] \<or>
      a = 0 \<and> phys_alloc_table s' = phys_alloc_table s \<and> \<not> mem_avail s')"

lemma alloc_page_returns:
  "pa_inv s \<Longrightarrow> \<exists>a s'. alloc_page s = Some (a, s') \<and> alloc_result s a s'"
proof (induction "frames_left s" arbitrary: s rule: less_induct)
  case less
  note inv = \<open>pa_inv s\<close>
  let ?i = "frame (next_phys_addr s)"
  have i: "?i < length (phys_alloc_table s)" "page_aligned (next_phys_addr s)" using inv by (simp_all add: pa_inv_def)
  consider "\<not> mem_avail s" | "mem_avail s" "phys_alloc_table s ! ?i = 0" | "mem_avail s" "phys_alloc_table s ! ?i \<noteq> 0"
    by blast
  then show ?case
  proof cases
    case 1
    then show ?thesis using inv by (subst alloc_page.simps) (simp add: alloc_result_def)
  next
    case 2
    define t where "t = s\<lparr>phys_alloc_table := (phys_alloc_table s)[?i := 1]\<rparr>"
    have "pa_inv t" "mem_avail t" using inv 2 by (simp_all add: pa_inv_def t_def)
    then obtain s' where s': "vm_next_page t = Some s'" "pa_inv s'" "phys_alloc_table s' = phys_alloc_table t"
        "mm_regions s' = mm_regions t" using vm_next_page_step by blast
    then have "alloc_page s = Some (next_phys_addr s, s')" using 2 i by (subst alloc_page.simps) (simp add: t_def)
    moreover have "alloc_result s (next_phys_addr s) s'" using s' i 2 by (simp add: alloc_result_def t_def)
    ultimately show ?thesis by blast
  next
    case 3
    obtain t where t: "vm_next_page s = Some t" "pa_inv t" "phys_alloc_table t = phys_alloc_table s"
        "mm_regions t = mm_regions s" "frames_left t < frames_left s"
      using vm_next_page_step [OF inv 3(1)] by blast
    obtain a s' where "alloc_page t = Some (a, s')" "alloc_result t a s'" using less.hyps [OF t(5,2)] by blast
    moreover have "alloc_page s = alloc_page t" using 3 i t(1) by (subst alloc_page.simps) simp
    ultimately show ?thesis using t by (auto simp: alloc_result_def)
  qed
qed

lemma region_back_le: "region_back rs c a \<le> c"
  by (induction c) auto

lemma free_page_ok:
  assumes "pa_inv s" and "addr \<noteq> 0" and "frame addr < length (phys_alloc_table s)"
  shows "\<exists>s'. free_page addr s = Some s' \<and> pa_inv s' \<and> mm_regions s' = mm_regions s \<and> mem_avail s' = mem_avail s \<and>
     phys_alloc_table s' = (phys_alloc_table s)[frame addr := phys_alloc_table s ! frame addr
        - (if phys_alloc_table s ! frame addr = 0 then 0 else 1)]"
  using assms le_less_trans [OF region_back_le]
  by (auto simp: free_page_def Let_def pa_inv_def)

lemma ref_page_ok:
  assumes "pa_inv s" and "addr \<noteq> 0" and "frame addr < length (phys_alloc_table s)" and "phys_alloc_table s ! frame addr \<noteq> 0"
  shows "\<exists>s'. ref_page addr s = Some s' \<and> pa_inv s' \<and> mm_regions s' = mm_regions s \<and> mem_avail s' = mem_avail s \<and>
     phys_alloc_table s' = (phys_alloc_table s)[frame addr := phys_alloc_table s ! frame addr + 1]"
  using assms by (auto simp: ref_page_def Let_def pa_inv_def)

section \<open>Use of frames\<close>

text \<open>
  A run of the allocator by clients that release only what they hold: \<open>held i\<close> is the number of
  references to frame \<open>i\<close> in the hands of clients (for the frames in use at the start, their
  count). References stay below the range of the counter, and frame 0, which is in use from the
  start, is never released.
\<close>

inductive frame_run :: "page_alloc \<Rightarrow> page_alloc \<Rightarrow> (nat \<Rightarrow> nat) \<Rightarrow> bool" for s0 where
  start: "frame_run s0 s0 (\<lambda>i. if i < length (phys_alloc_table s0) then unat (phys_alloc_table s0 ! i) else 0)"
| alloc: "frame_run s0 s held \<Longrightarrow> alloc_page s = Some (a, s') \<Longrightarrow> a \<noteq> 0 \<Longrightarrow>
     frame_run s0 s' (held(frame a := Suc (held (frame a))))"
| fail: "frame_run s0 s held \<Longrightarrow> alloc_page s = Some (0, s') \<Longrightarrow> frame_run s0 s' held"
| share: "frame_run s0 s held \<Longrightarrow> 0 < held (frame a) \<Longrightarrow> Suc (held (frame a)) < 2 ^ 32 \<Longrightarrow> frame a \<noteq> 0 \<Longrightarrow>
     ref_page a s = Some s' \<Longrightarrow> frame_run s0 s' (held(frame a := Suc (held (frame a))))"
| release: "frame_run s0 s held \<Longrightarrow> 0 < held (frame a) \<Longrightarrow> frame a \<noteq> 0 \<Longrightarrow>
     free_page a s = Some s' \<Longrightarrow> frame_run s0 s' (held(frame a := held (frame a) - 1))"

definition counts_held :: "page_alloc \<Rightarrow> (nat \<Rightarrow> nat) \<Rightarrow> bool" where
  "counts_held s held \<longleftrightarrow>
     (\<forall>i. held i = (if i < length (phys_alloc_table s) then unat (phys_alloc_table s ! i) else 0))"

lemma counts_held_less: "counts_held s held \<Longrightarrow> 0 < held i \<Longrightarrow> i < length (phys_alloc_table s)"
  by (auto simp: counts_held_def split: if_splits)

lemma counts_held_update:
  assumes "counts_held s held" and "i < length (phys_alloc_table s)"
    and "phys_alloc_table s' = (phys_alloc_table s)[i := n]" and "k = unat n"
  shows "counts_held s' (held(i := k))"
  using assms by (auto simp: counts_held_def nth_list_update)

lemma frame_nonzero: "frame a \<noteq> 0 \<Longrightarrow> a \<noteq> 0"
  by (auto simp: frame_def)

lemma frame_run_inv:
  "frame_run s0 s held \<Longrightarrow> pa_inv s0 \<Longrightarrow> phys_alloc_table s0 ! 0 \<noteq> 0 \<Longrightarrow> pa_inv s \<and> counts_held s held \<and> 0 < held 0"
proof (induction rule: frame_run.induct)
  case start
  then show ?case by (auto simp: counts_held_def pa_inv_def unat_gt_0)
next
  case (alloc s held a s')
  then have inv: "pa_inv s" and h: "counts_held s held" "0 < held 0" by simp_all
  have "alloc_result s a s'" using alloc_page_returns [OF inv] alloc by auto
  then have r: "pa_inv s'" "frame a < length (phys_alloc_table s)" "phys_alloc_table s ! frame a = 0"
    "phys_alloc_table s' = (phys_alloc_table s)[frame a := 1]" using alloc(3) by (auto simp: alloc_result_def)
  moreover have "held (frame a) = 0" using h r(2,3) by (simp add: counts_held_def)
  ultimately show ?case using counts_held_update [OF h(1) r(2,4), of "Suc (held (frame a))"] h(2) by (simp add: fun_upd_def)
next
  case (fail s held s')
  then have inv: "pa_inv s" and h: "counts_held s held" "0 < held 0" by simp_all
  have "alloc_result s 0 s'" using alloc_page_returns [OF inv] fail by auto
  moreover have "phys_alloc_table s ! frame 0 \<noteq> 0"
    using h counts_held_less [OF h] by (auto simp: counts_held_def frame_def)
  ultimately show ?case using h by (auto simp: alloc_result_def counts_held_def)
next
  case (share s held a s')
  then have inv: "pa_inv s" and h: "counts_held s held" "0 < held 0" by simp_all
  let ?n = "phys_alloc_table s ! frame a"
  have i: "frame a < length (phys_alloc_table s)" using counts_held_less h(1) share(2) by blast
  have n: "held (frame a) = unat ?n" using h(1) i by (simp add: counts_held_def)
  then have "?n \<noteq> 0" using share(2) by auto
  then obtain s1 where s1: "ref_page a s = Some s1" "pa_inv s1" "phys_alloc_table s1 = (phys_alloc_table s)[frame a := ?n + 1]"
    using ref_page_ok [OF inv _ i] frame_nonzero share(4) by blast
  have "unat (?n + 1) = Suc (unat ?n)" using n share(3) by (simp add: unat_word_ariths)
  then show ?case using s1 share(5) counts_held_update [OF h(1) i s1(3)] n h(2) by (auto simp: fun_upd_def)
next
  case (release s held a s')
  then have inv: "pa_inv s" and h: "counts_held s held" "0 < held 0" by simp_all
  let ?n = "phys_alloc_table s ! frame a"
  have i: "frame a < length (phys_alloc_table s)" using counts_held_less h(1) release(2) by blast
  have n: "held (frame a) = unat ?n" using h(1) i by (simp add: counts_held_def)
  then have nz: "?n \<noteq> 0" using release(2) by auto
  then obtain s1 where s1: "free_page a s = Some s1" "pa_inv s1" "phys_alloc_table s1 = (phys_alloc_table s)[frame a := ?n - 1]"
    using free_page_ok [OF inv _ i] frame_nonzero release(3) by auto
  have "unat (?n - 1) = unat ?n - 1" using nz by (simp add: unat_minus_one)
  then show ?case using s1 release(3,4) counts_held_update [OF h(1) i s1(3)] n h(2) by (auto simp: fun_upd_def)
qed

section \<open>The interface of a frame allocator\<close>

text \<open>
  What the users of frames rely on: an allocation returns, a frame it hands out was not in use
  and now is, and no allocation takes a frame out of use.
\<close>

primrec alloc_many :: "('s \<Rightarrow> (u64 \<times> 's) option) \<Rightarrow> nat \<Rightarrow> 's \<Rightarrow> (u64 list \<times> 's) option" where
  "alloc_many alloc 0 s = Some ([], s)"
| "alloc_many alloc (Suc n) s =
     Option.bind (alloc s) (\<lambda>(a, s). map_option (\<lambda>(as, s). (a # as, s)) (alloc_many alloc n s))"

locale frame_source =
  fixes alloc :: "'s \<Rightarrow> (u64 \<times> 's) option"
    and used :: "'s \<Rightarrow> nat set"
    and ok :: "'s \<Rightarrow> bool"
  assumes alloc_returns: "ok s \<Longrightarrow> \<exists>a s'. alloc s = Some (a, s') \<and> ok s' \<and> used s \<subseteq> used s' \<and>
      (a \<noteq> 0 \<longrightarrow> frame a \<notin> used s \<and> frame a \<in> used s')"
begin

lemma alloc_many_fresh:
  "ok s \<Longrightarrow> \<exists>as s'. alloc_many alloc n s = Some (as, s') \<and> ok s' \<and> used s \<subseteq> used s' \<and> length as = n \<and>
     distinct (map frame (filter (\<lambda>a. a \<noteq> 0) as)) \<and> (\<forall>a \<in> set as. a \<noteq> 0 \<longrightarrow> frame a \<in> used s' - used s)"
proof (induction n arbitrary: s)
  case (Suc n)
  obtain a s1 where a: "alloc s = Some (a, s1)" "ok s1" "used s \<subseteq> used s1" "a \<noteq> 0 \<Longrightarrow> frame a \<notin> used s \<and> frame a \<in> used s1"
    using alloc_returns [OF Suc.prems] by blast
  obtain as s2 where as: "alloc_many alloc n s1 = Some (as, s2)" "ok s2" "used s1 \<subseteq> used s2" "length as = n"
      "distinct (map frame (filter (\<lambda>a. a \<noteq> 0) as))" "\<forall>a \<in> set as. a \<noteq> 0 \<longrightarrow> frame a \<in> used s2 - used s1"
    using Suc.IH [OF a(2)] by blast
  then show ?case using a by auto
qed auto

end

definition frames_used :: "page_alloc \<Rightarrow> nat set" where
  "frames_used s = {i. i < length (phys_alloc_table s) \<and> phys_alloc_table s ! i \<noteq> 0}"

lemma frames_used_alloc:
  assumes "alloc_result s a s'"
  shows "frames_used s \<subseteq> frames_used s'" and "a \<noteq> 0 \<Longrightarrow> frame a \<notin> frames_used s \<and> frame a \<in> frames_used s'"
  using assms by (auto simp: alloc_result_def frames_used_def nth_list_update split: if_splits)

interpretation pages: frame_source alloc_page frames_used pa_inv
proof
  fix s assume "pa_inv s"
  then obtain a s' where "alloc_page s = Some (a, s')" "alloc_result s a s'" using alloc_page_returns by blast
  then show "\<exists>a s'. alloc_page s = Some (a, s') \<and> pa_inv s' \<and> frames_used s \<subseteq> frames_used s' \<and>
      (a \<noteq> 0 \<longrightarrow> frame a \<notin> frames_used s \<and> frame a \<in> frames_used s')"
    using frames_used_alloc [of s a s'] by (intro exI [of _ a] exI [of _ s']) (auto simp: alloc_result_def)
qed

section \<open>Properties of the frame allocator\<close>

text \<open>
  C14: In every run of the allocator in which clients release only references they hold,
  alloc_page returns, and unless it reports that no memory is left the frame it returns was
  held by nobody and now has exactly one reference, while all other counts are unchanged.
\<close>

theorem alloc_page_fresh:
  assumes "pa_inv s0" and "phys_alloc_table s0 ! 0 \<noteq> 0" and "frame_run s0 s held"
  shows "\<exists>a s'. alloc_page s = Some (a, s') \<and>
     (if a = 0 then phys_alloc_table s' = phys_alloc_table s \<and> \<not> mem_avail s'
      else held (frame a) = 0 \<and> page_aligned a \<and> phys_alloc_table s' = (phys_alloc_table s)[frame a := 1])"
proof -
  have inv: "pa_inv s" "counts_held s held" "0 < held 0" using frame_run_inv [OF assms(3,1,2)] by simp_all
  then have z: "phys_alloc_table s ! frame 0 \<noteq> 0" 
    using counts_held_less [OF inv(2,3)] by (auto simp: counts_held_def frame_def)
  obtain a s' where "alloc_page s = Some (a, s')" "alloc_result s a s'" using alloc_page_returns [OF inv(1)] by blast
  then show ?thesis using z inv(2) by (intro exI [of _ a] exI [of _ s']) (auto simp: alloc_result_def counts_held_def)
qed

definition small_memory :: page_alloc where
  "small_memory = \<lparr>phys_alloc_table = [1, 1, 0, 0, 0], next_phys_addr = 0x2000, mem_avail = True,
     mm_regions = [\<lparr>rg_base = 0, rg_len = 0x4000\<rparr>], mm_curr = 0\<rparr>"

lemma small_memory_inv: "pa_inv small_memory"
  by (simp add: pa_inv_def small_memory_def region_ok_def page_aligned_def frame_def)

theorem alloc_page_fresh_witness:
  "\<exists>a s'. alloc_page small_memory = Some (a, s') \<and> a = 0x2000"
proof -
  have run: "frame_run small_memory small_memory
     (\<lambda>i. if i < length (phys_alloc_table small_memory) then unat (phys_alloc_table small_memory ! i) else 0)"
    by (rule frame_run.start)
  have "alloc_page small_memory = Some (0x2000, s') \<Longrightarrow> ?thesis" for s' by simp
  moreover have "\<exists>s'. alloc_page small_memory = Some (0x2000, s')"
    by (subst alloc_page.simps) (simp add: small_memory_def frame_def vm_next_page_def next_region.simps Let_def)
  ultimately show ?thesis using alloc_page_fresh [OF small_memory_inv _ run] by (auto simp: small_memory_def)
qed

text \<open>
  A frame that loses its last reference is the next one to be allocated when it lies below
  the search pointer: freeing and allocating give the same frame back, as long as memory has
  not run out before.
\<close>

theorem free_page_reused:
  assumes "pa_inv s" and "mem_avail s" and "page_aligned a" and "a \<noteq> 0" and "a < next_phys_addr s"
    and "phys_alloc_table s ! frame a = 1"
  shows "\<exists>s1 s2. free_page a s = Some s1 \<and> alloc_page s1 = Some (a, s2) \<and> phys_alloc_table s2 = phys_alloc_table s"
proof -
  have "frame a < frame (next_phys_addr s)" using frame_less_mono assms(1,3,5) by (auto simp: pa_inv_def)
  then have i: "frame a < length (phys_alloc_table s)" using assms(1) by (simp add: pa_inv_def)
  obtain s1 where s1: "free_page a s = Some s1" "pa_inv s1" "mem_avail s1"
      "phys_alloc_table s1 = (phys_alloc_table s)[frame a := 0]"
    using free_page_ok [OF assms(1,4) i] assms(2,6) by auto
  have down: "ALIGN_DOWN a PAGE_SIZE = a"
    using page_aligned_frame [OF assms(3)] by (intro word_eq_by_unat) (simp add: unat_page_down)
  then have n: "next_phys_addr s1 = a" using s1(1) assms(4-6) i by (auto simp: free_page_def Let_def)
  define t where "t = s1\<lparr>phys_alloc_table := (phys_alloc_table s1)[frame a := 1]\<rparr>"
  have "pa_inv t" "mem_avail t" using s1 by (simp_all add: pa_inv_def t_def)
  then obtain s2 where s2: "vm_next_page t = Some s2" "phys_alloc_table s2 = phys_alloc_table t"
    using vm_next_page_step by blast
  have "alloc_page s1 = Some (a, s2)" using s1 n i s2(1) by (subst alloc_page.simps) (simp add: t_def)
  then show ?thesis using s1 s2(2) assms(6) i
    by (auto simp: t_def intro!: exI [of _ s1] exI [of _ s2] nth_equalityI simp: nth_list_update)
qed

theorem free_page_reused_witness:
  "\<exists>s1 s2. free_page 0x1000 small_memory = Some s1 \<and> alloc_page s1 = Some (0x1000, s2)"
  using free_page_reused [OF small_memory_inv, of "0x1000"]
  by (auto simp: small_memory_def page_aligned_def frame_def)

text \<open>
  alloc_page also hands out the frame that follows the end of the last memory region, and
  once it has found no memory it never succeeds again, whatever is freed in between.
\<close>

theorem alloc_page_past_end:
  assumes "pa_inv s" and "mem_avail s" and "next_phys_addr s = rg_base r + rg_len r" and "mm_regions s = [r]"
    and "phys_alloc_table s ! frame (next_phys_addr s) = 0"
  shows "\<exists>s1. alloc_page s = Some (rg_base r + rg_len r, s1) \<and>
     (\<forall>a s2. free_page a s1 = Some s2 \<longrightarrow> alloc_page s2 = Some (0, s2))"
proof -
  have i: "frame (next_phys_addr s) < length (phys_alloc_table s)" using assms(1) by (simp add: pa_inv_def)
  define s1 where "s1 = s\<lparr>phys_alloc_table := (phys_alloc_table s)[frame (next_phys_addr s) := 1],
     mm_curr := mm_curr s, mem_avail := False\<rparr>"
  have "vm_next_page (s\<lparr>phys_alloc_table := (phys_alloc_table s)[frame (next_phys_addr s) := 1]\<rparr>) = Some s1"
    using assms(3,4) by (simp add: vm_next_page_def next_region.simps Let_def s1_def)
  then have "alloc_page s = Some (rg_base r + rg_len r, s1)" using assms i by (subst alloc_page.simps) simp
  moreover have "\<not> mem_avail s2" if "free_page a s1 = Some s2" for a s2
    using that by (auto simp: free_page_def Let_def s1_def split: if_splits)
  then have "alloc_page s2 = Some (0, s2)" if "free_page a s1 = Some s2" for a s2
    using that by (subst alloc_page.simps) simp
  ultimately show ?thesis by blast
qed

theorem alloc_page_past_end_witness:
  "\<exists>s1. alloc_page (small_memory\<lparr>next_phys_addr := 0x4000\<rparr>) = Some (0x4000, s1)"
proof -
  have "pa_inv (small_memory\<lparr>next_phys_addr := 0x4000\<rparr>)"
    by (simp add: pa_inv_def small_memory_def region_ok_def page_aligned_def frame_def)
  then show ?thesis
    using alloc_page_past_end [of "small_memory\<lparr>next_phys_addr := 0x4000\<rparr>" "\<lparr>rg_base = 0, rg_len = 0x4000\<rparr>"]
    by (auto simp: small_memory_def frame_def)
qed

text \<open>
  The search pointer does not skip the hole between two memory regions: after the last
  frame of the first region the next allocation returns a frame inside the hole.
\<close>

theorem alloc_page_enters_hole:
  assumes inv: "pa_inv s" and avail: "mem_avail s" and rs: "mm_regions s = [r0, r1]" and curr: "mm_curr s = 0"
    and last: "next_phys_addr s + PAGE_SIZE = rg_base r0 + rg_len r0" "next_phys_addr s < rg_base r0 + rg_len r0"
    and hole: "rg_base r0 + rg_len r0 < rg_base r1"
    and free: "phys_alloc_table s ! frame (next_phys_addr s) = 0"
       "phys_alloc_table s ! frame (rg_base r0 + rg_len r0) = 0"
  shows "\<exists>s1 s2. alloc_page s = Some (next_phys_addr s, s1) \<and> alloc_page s1 = Some (rg_base r0 + rg_len r0, s2)"
proof -
  let ?a = "next_phys_addr s" and ?e = "rg_base r0 + rg_len r0"
  let ?t = "s\<lparr>phys_alloc_table := (phys_alloc_table s)[frame ?a := 1]\<rparr>"
  define s1 where "s1 = ?t\<lparr>mm_curr := 1, next_phys_addr := ?e\<rparr>"
  have i: "frame ?a < length (phys_alloc_table s)" using inv by (simp add: pa_inv_def)
  have t: "pa_inv ?t" "mem_avail ?t" using inv avail by (simp_all add: pa_inv_def)
  have "region_ok (length (phys_alloc_table s)) r1" "4096 * length (phys_alloc_table s) \<le> 2 ^ 64"
    using inv rs by (simp_all add: pa_inv_def)
  then have "unat (rg_base r1 + rg_len r1) = unat (rg_base r1) + unat (rg_len r1)"
    by (intro unat_plus64) (simp add: region_ok_def)
  then have "?a < rg_base r1 + rg_len r1" using last(2) hole by (simp add: word_less_nat_alt)
  moreover have "\<not> ?e \<le> ?a" using last(2) by (simp add: not_le)
  ultimately have n: "vm_next_page ?t = Some s1" using rs curr last(1)
    by (simp add: vm_next_page_def next_region.simps Let_def s1_def)
  then have inv1: "pa_inv s1" using vm_next_page_step [OF t] by auto
  have "frame ?a < frame ?e"
    using frame_less_mono [of ?a ?e] inv inv1 last(2) by (simp add: pa_inv_def s1_def)
  then have "phys_alloc_table s1 ! frame ?e = 0" using free(2) by (simp add: s1_def)
  moreover have "frame ?e < length (phys_alloc_table s1)" using inv1 by (simp add: pa_inv_def s1_def)
  moreover have "\<exists>s2. vm_next_page (s1\<lparr>phys_alloc_table := (phys_alloc_table s1)[frame ?e := 1]\<rparr>) = Some s2"
    using rs by (simp add: vm_next_page_def s1_def)
  ultimately have "\<exists>s2. alloc_page s1 = Some (?e, s2)" using avail by (subst alloc_page.simps) (auto simp: s1_def)
  moreover have "alloc_page s = Some (?a, s1)" using n free(1) i avail by (subst alloc_page.simps) simp
  ultimately show ?thesis by blast
qed

definition split_memory :: page_alloc where
  "split_memory = \<lparr>phys_alloc_table = [1, 0, 0, 0, 0, 0], next_phys_addr = 0x1000, mem_avail = True,
     mm_regions = [\<lparr>rg_base = 0, rg_len = 0x2000\<rparr>, \<lparr>rg_base = 0x3000, rg_len = 0x2000\<rparr>], mm_curr = 0\<rparr>"

theorem alloc_page_enters_hole_witness:
  "\<exists>s1 s2. alloc_page split_memory = Some (0x1000, s1) \<and> alloc_page s1 = Some (0x2000, s2)"
proof -
  have "pa_inv split_memory"
    by (simp add: pa_inv_def split_memory_def region_ok_def page_aligned_def frame_def)
  then show ?thesis using alloc_page_enters_hole [of split_memory "\<lparr>rg_base = 0, rg_len = 0x2000\<rparr>" "\<lparr>rg_base = 0x3000, rg_len = 0x2000\<rparr>"]
    by (simp add: split_memory_def frame_def PAGE_SIZE_def)
qed

text \<open>
  Any number of allocations in a row return, and the frames they hand out are pairwise
  different and none of them was in use before.
\<close>

theorem alloc_pages_distinct:
  assumes "pa_inv s"
  shows "\<exists>as s'. alloc_many alloc_page n s = Some (as, s') \<and> length as = n \<and>
     distinct (map frame (filter (\<lambda>a. a \<noteq> 0) as)) \<and>
     (\<forall>a \<in> set as. a \<noteq> 0 \<longrightarrow> frame a \<notin> frames_used s \<and> frame a \<in> frames_used s')"
  using pages.alloc_many_fresh [OF assms, of n] by (elim exE) (intro exI, auto)

theorem alloc_pages_distinct_witness:
  "\<exists>as s'. alloc_many alloc_page 2 small_memory = Some (as, s') \<and> length as = 2 \<and> distinct (map frame (filter (\<lambda>a. a \<noteq> 0) as))"
  using alloc_pages_distinct [OF small_memory_inv, of 2] by blast

end
