(* ===== verification/Pml_Vm.thy ===== *)
theory Pml_Vm
  imports Pml_Page
begin

text \<open>
  The page tables of arch/x86_64/mm.c. The 64-bit entries of all page structures are cells at
  their virtual addresses, so that two structures that share a page share its cells. The
  structures themselves are reached at \<open>PHYS_REL\<close> of their physical addresses, as in the code.
\<close>

section \<open>Constants\<close>

definition PAGE_FLAG_PRESENT :: u64 where "PAGE_FLAG_PRESENT = 1"
definition PAGE_FLAG_RW :: u64 where "PAGE_FLAG_RW = 2"
definition PAGE_FLAG_USER :: u64 where "PAGE_FLAG_USER = 4"
definition PAGE_FLAG_SIZE :: u64 where "PAGE_FLAG_SIZE = 0x80"
definition PAGE_STRUCT_SIZE :: u64 where "PAGE_STRUCT_SIZE = 4096"
definition PAGE_STRUCT_ENTRIES :: nat where "PAGE_STRUCT_ENTRIES = 512"
definition LARGE_PAGE_SIZE :: u64 where "LARGE_PAGE_SIZE = 0x200000"
definition HUGE_PAGE_SIZE :: u64 where "HUGE_PAGE_SIZE = 0x40000000"

definition PML4T_INDEX :: "u64 \<Rightarrow> u64" where "PML4T_INDEX v = drop_bit 39 v AND 0x1ff"
definition PDPT_INDEX :: "u64 \<Rightarrow> u64" where "PDPT_INDEX v = drop_bit 30 v AND 0x1ff"
definition PDT_INDEX :: "u64 \<Rightarrow> u64" where "PDT_INDEX v = drop_bit 21 v AND 0x1ff"
definition PT_INDEX :: "u64 \<Rightarrow> u64" where "PT_INDEX v = drop_bit 12 v AND 0x1ff"

section \<open>State\<close>

record vm_state =
  vm_pages :: page_alloc
  vm_cells :: "u64 \<Rightarrow> u64"

definition entry :: "vm_state \<Rightarrow> u64 \<Rightarrow> u64 \<Rightarrow> u64" where
  "entry s t i = vm_cells s (t + 8 * i)"

definition set_entry :: "u64 \<Rightarrow> u64 \<Rightarrow> u64 \<Rightarrow> vm_state \<Rightarrow> vm_state" where
  "set_entry t i x s = s\<lparr>vm_cells := (vm_cells s)(t + 8 * i := x)\<rparr>"

definition clear_struct :: "u64 \<Rightarrow> vm_state \<Rightarrow> vm_state" where
  "clear_struct t s = s\<lparr>vm_cells := (\<lambda>a. if a - t < PAGE_STRUCT_SIZE then 0 else vm_cells s a)\<rparr>"

definition present :: "u64 \<Rightarrow> bool" where "present e \<longleftrightarrow> e AND PAGE_FLAG_PRESENT \<noteq> 0"
definition large :: "u64 \<Rightarrow> bool" where "large e \<longleftrightarrow> e AND PAGE_FLAG_SIZE \<noteq> 0"
definition table_at :: "u64 \<Rightarrow> u64" where "table_at e = PHYS_REL (ALIGN_DOWN e PAGE_SIZE)"

definition canonical :: "u64 \<Rightarrow> bool" where
  "canonical v \<longleftrightarrow> drop_bit 48 v = (if PML4T_INDEX v AND 0x100 \<noteq> 0 then 0xffff else 0)"

section \<open>Operations\<close>

definition vm_phys_addr :: "u64 \<Rightarrow> u64 \<Rightarrow> vm_state \<Rightarrow> u64" where
  "vm_phys_addr pml4t v s =
     (let e4 = entry s pml4t (PML4T_INDEX v) in
      if \<not> canonical v then 0
      else if \<not> present e4 then 0
      else let e3 = entry s (table_at e4) (PDPT_INDEX v) in
        if \<not> present e3 then 0
        else if large e3 then ALIGN_DOWN e3 HUGE_PAGE_SIZE OR (v AND (HUGE_PAGE_SIZE - 1))
        else let e2 = entry s (table_at e3) (PDT_INDEX v) in
          if \<not> present e2 then 0
          else if large e2 then ALIGN_DOWN e2 LARGE_PAGE_SIZE OR (v AND (LARGE_PAGE_SIZE - 1))
          else let e1 = entry s (table_at e2) (PT_INDEX v) in
            if \<not> present e1 then 0 else ALIGN_DOWN e1 PAGE_SIZE OR (v AND (PAGE_SIZE - 1)))"

text \<open>
  The block of vm_map_page that makes sure an entry leads to a page structure; \<open>False\<close> when
  no memory is left. The entry is read again after each store, as the code does.
\<close>

definition ensure_table :: "u64 \<Rightarrow> u64 \<Rightarrow> u64 \<Rightarrow> vm_state \<Rightarrow> (bool \<times> vm_state) option" where
  "ensure_table t i flags s =
     (if present (entry s t i) then Some (True, s)
      else case alloc_page (vm_pages s) of
          None \<Rightarrow> None
        | Some (a, p) \<Rightarrow>
            (let s1 = set_entry t i a (s\<lparr>vm_pages := p\<rparr>) in
             if a = 0 then Some (False, s1)
             else let s2 = clear_struct (PHYS_REL (entry s1 t i)) s1 in
               Some (True, set_entry t i (entry s2 t i OR PAGE_FLAG_PRESENT OR PAGE_FLAG_RW OR PAGE_FLAG_USER OR flags) s2)))"

text \<open>
  \<open>Map_nomem\<close> is a failure that does not set errno; \<open>Map_error\<close> names the error number.
\<close>

datatype map_result = Map_ok | Map_nomem | Map_error errno

definition vm_map_page :: "u64 \<Rightarrow> u64 \<Rightarrow> u64 \<Rightarrow> u32 \<Rightarrow> vm_state \<Rightarrow> (map_result \<times> vm_state) option" where
  "vm_map_page pml4t phys_addr v flags s =
     (let fl = ucast flags; pml4e = PML4T_INDEX v; pdpe = PDPT_INDEX v; pde = PDT_INDEX v; pte = PT_INDEX v in
      if \<not> canonical v then Some (Map_error EFAULT, s)
      else case ensure_table pml4t pml4e fl s of
        None \<Rightarrow> None
      | Some (ok, s) \<Rightarrow>
        if \<not> ok then Some (Map_nomem, s)
        else let pdpt = table_at (entry s pml4t pml4e) in
        case ensure_table pdpt pdpe fl s of
          None \<Rightarrow> None
        | Some (ok, s) \<Rightarrow>
          if \<not> ok then Some (Map_nomem, s)
          else if large (entry s pdpt pdpe) then Some (Map_error EINVAL, s)
          else let pdt = table_at (entry s pdpt pdpe) in
          case ensure_table pdt pde fl s of
            None \<Rightarrow> None
          | Some (ok, s) \<Rightarrow>
            if \<not> ok then Some (Map_nomem, s)
            else if large (entry s pdt pde) then Some (Map_error EINVAL, s)
            else let pt = table_at (entry s pdt pde) in
              Some (Map_ok, set_entry pt pte (ALIGN_DOWN phys_addr PAGE_SIZE OR PAGE_FLAG_PRESENT OR fl) s))"

definition vm_unmap_page :: "u64 \<Rightarrow> u64 \<Rightarrow> vm_state \<Rightarrow> errno + vm_state" where
  "vm_unmap_page pml4t v s =
     (let e4 = entry s pml4t (PML4T_INDEX v) in
      if \<not> canonical v then Inl EFAULT
      else if \<not> present e4 then Inr s
      else let pdpt = table_at e4; e3 = entry s pdpt (PDPT_INDEX v) in
        if \<not> present e3 then Inr s
        else if large e3 then Inr (set_entry pdpt (PDPT_INDEX v) 0 s)
        else let pdt = table_at e3; e2 = entry s pdt (PDT_INDEX v) in
          if \<not> present e2 then Inr s
          else if large e2 then Inr (set_entry pdt (PDT_INDEX v) 0 s)
          else Inr (set_entry (table_at e2) (PT_INDEX v) 0 s))"

section \<open>Paths through the page structures\<close>

text \<open>
  A path is the list of indexes from the last level back to the first. \<open>tbl\<close> is the page
  structure at a path, and \<open>ent\<close> the entry at a path, which is 0 when a structure on the way
  is missing.
\<close>

definition no_table :: "u64 list \<Rightarrow> u64 \<Rightarrow> bool" where
  "no_table q e \<longleftrightarrow> \<not> present e \<or> q \<noteq> [] \<and> large e"

fun tbl :: "vm_state \<Rightarrow> u64 \<Rightarrow> u64 list \<Rightarrow> u64 option" where
  "tbl s p [] = Some p"
| "tbl s p (i # q) =
     (case tbl s p q of
        None \<Rightarrow> None
      | Some t \<Rightarrow> if no_table q (entry s t i) then None else Some (table_at (entry s t i)))"

fun ent :: "vm_state \<Rightarrow> u64 \<Rightarrow> u64 list \<Rightarrow> u64" where
  "ent s p [] = 0"
| "ent s p (i # q) = (case tbl s p q of None \<Rightarrow> 0 | Some t \<Rightarrow> entry s t i)"

lemma tbl_pages: "tbl (s\<lparr>vm_pages := pg\<rparr>) p r = tbl s p r"
  by (induction r) (simp_all add: entry_def split: option.splits)

lemma ent_pages: "ent (s\<lparr>vm_pages := pg\<rparr>) p r = ent s p r"
  using tbl_pages by (cases r) (simp_all add: entry_def split: option.splits)

definition path :: "nat \<Rightarrow> u64 list \<Rightarrow> bool" where
  "path n q \<longleftrightarrow> length q \<le> n \<and> (\<forall>i \<in> set q. i < 512)"

definition vpath :: "u64 \<Rightarrow> u64 list" where
  "vpath v = [PT_INDEX v, PDT_INDEX v, PDPT_INDEX v, PML4T_INDEX v]"

lemma path_simps [simp]:
  "path n []" "path (Suc n) (i # q) \<longleftrightarrow> i < 512 \<and> path n q" "\<not> path 0 (i # q)"
  by (auto simp: path_def)

lemma path_mono: "path m q \<Longrightarrow> m \<le> n \<Longrightarrow> path n q"
  by (auto simp: path_def)

lemma present_bit: "present e \<longleftrightarrow> bit e 0"
  using and_exp_eq_0_iff [of 0 e] by (simp add: present_def PAGE_FLAG_PRESENT_def)

lemma large_bit: "large e \<longleftrightarrow> bit e 7"
  using and_exp_eq_0_iff [of 7 e] by (simp add: large_def PAGE_FLAG_SIZE_def)

lemma not_present_0 [simp]: "\<not> present 0" by (simp add: present_def)

lemma no_table_0 [simp]: "no_table q 0" by (simp add: no_table_def)

lemma index_less [simp]: "PML4T_INDEX v < 512" "PDPT_INDEX v < 512" "PDT_INDEX v < 512" "PT_INDEX v < 512"
proof -
  have m: "x AND 0x1ff < 512" for x :: u64
  proof -
    have "x AND 0x1ff \<le> 0x1ff" by (rule word_and_le1)
    then show ?thesis by (simp add: word_le_nat_alt word_less_nat_alt)
  qed
  show "PML4T_INDEX v < 512" "PDPT_INDEX v < 512" "PDT_INDEX v < 512" "PT_INDEX v < 512"
    by (simp_all add: PML4T_INDEX_def PDPT_INDEX_def PDT_INDEX_def PT_INDEX_def m)
qed

lemma tbl_ent: "tbl s p (i # q) = (if no_table q (ent s p (i # q)) then None else Some (table_at (ent s p (i # q))))"
  by (simp split: option.splits)

lemma ent_below: "\<not> present (ent s p (i # q)) \<Longrightarrow> ent s p (j # i # q) = 0"
proof -
  assume "\<not> present (ent s p (i # q))"
  then have "tbl s p (i # q) = None" by (simp only: tbl_ent no_table_def) simp
  then show ?thesis by (simp only: ent.simps option.case)
qed

lemma vm_phys_addr_ent:
  "vm_phys_addr p v s =
     (let e = ent s p; i4 = PML4T_INDEX v; i3 = PDPT_INDEX v; i2 = PDT_INDEX v; i1 = PT_INDEX v in
      if \<not> canonical v \<or> \<not> present (e [i4]) \<or> \<not> present (e [i3, i4]) then 0
      else if large (e [i3, i4]) then ALIGN_DOWN (e [i3, i4]) HUGE_PAGE_SIZE OR (v AND (HUGE_PAGE_SIZE - 1))
      else if \<not> present (e [i2, i3, i4]) then 0
      else if large (e [i2, i3, i4]) then ALIGN_DOWN (e [i2, i3, i4]) LARGE_PAGE_SIZE OR (v AND (LARGE_PAGE_SIZE - 1))
      else if \<not> present (e [i1, i2, i3, i4]) then 0
      else ALIGN_DOWN (e [i1, i2, i3, i4]) PAGE_SIZE OR (v AND (PAGE_SIZE - 1)))"
  by (simp add: vm_phys_addr_def Let_def no_table_def)

lemma vm_phys_addr_pages: "vm_phys_addr p v (s\<lparr>vm_pages := pg\<rparr>) = vm_phys_addr p v s"
  by (simp only: vm_phys_addr_ent Let_def ent_pages)

section \<open>Invariant of an address space\<close>

text \<open>
  The page structures reached from a PML4T are in frames that are in use, and no two paths
  lead to the same structure.
\<close>

definition table_frame :: "vm_state \<Rightarrow> u64 \<Rightarrow> bool" where
  "table_frame s t \<longleftrightarrow> (\<exists>a. t = PHYS_REL a \<and> page_aligned a \<and> frame a < length (phys_alloc_table (vm_pages s)) \<and>
     phys_alloc_table (vm_pages s) ! frame a \<noteq> 0)"

definition vm_inv :: "u64 \<Rightarrow> vm_state \<Rightarrow> bool" where
  "vm_inv p s \<longleftrightarrow> pa_inv (vm_pages s) \<and>
     (\<forall>q t. path 3 q \<longrightarrow> tbl s p q = Some t \<longrightarrow> table_frame s t) \<and>
     (\<forall>q r t. path 3 q \<longrightarrow> path 3 r \<longrightarrow> tbl s p q = Some t \<longrightarrow> tbl s p r = Some t \<longrightarrow> q = r)"

lemma vm_invD:
  assumes "vm_inv p s"
  shows "pa_inv (vm_pages s)"
    and "path 3 q \<Longrightarrow> tbl s p q = Some t \<Longrightarrow> table_frame s t"
    and "path 3 q \<Longrightarrow> path 3 r \<Longrightarrow> tbl s p q = Some t \<Longrightarrow> tbl s p r = Some t \<Longrightarrow> q = r"
  using assms unfolding vm_inv_def by blast+

text \<open>Cells of page-aligned structures.\<close>

lemma unat_8_mult: "i < (512 :: u64) \<Longrightarrow> unat (8 * i) = 8 * unat i \<and> unat i < 512"
  by (simp add: unat_word_ariths word_less_nat_alt)

lemma page_aligned_top: "page_aligned a \<Longrightarrow> unat a + 4096 \<le> 2 ^ 64"
proof -
  assume "page_aligned a"
  then obtain k where k: "unat a = 4096 * k" by (auto simp: page_aligned_def)
  moreover have "unat a < 18446744073709551616" by simp
  ultimately have "k < 4503599627370496" by linarith
  with k show ?thesis by simp
qed

lemma unat_cell: "page_aligned a \<Longrightarrow> i < 512 \<Longrightarrow> unat (a + 8 * i) = unat a + 8 * unat i"
  using page_aligned_top [of a] unat_8_mult [of i] by (subst unat_plus64) auto

lemma page_offset_unique: "4096 * x + m = 4096 * y + n \<Longrightarrow> m < 4096 \<Longrightarrow> n < 4096 \<Longrightarrow> x = y \<and> m = (n :: nat)"
proof -
  assume eq: "4096 * x + m = 4096 * y + n" and less: "m < 4096" "n < 4096"
  have "(4096 * x + m) div 4096 = x" "(4096 * y + n) div 4096 = y" using less by simp_all
  with eq show ?thesis by simp
qed

lemma cell_eq_iff:
  assumes "page_aligned a" and "page_aligned b" and "i < 512" and "j < 512"
  shows "PHYS_REL a + 8 * i = PHYS_REL b + 8 * j \<longleftrightarrow> a = b \<and> i = j"
proof
  assume "PHYS_REL a + 8 * i = PHYS_REL b + 8 * j"
  then have "a + 8 * i = b + 8 * j" by (simp add: PHYS_REL_def algebra_simps)
  then have "unat a + 8 * unat i = unat b + 8 * unat j" using unat_cell assms by metis
  moreover have "unat i < 512" "unat j < 512" using unat_8_mult assms(3,4) by auto
  moreover have "unat a = 4096 * frame a" "unat b = 4096 * frame b" using page_aligned_frame assms(1,2) by auto
  ultimately have "frame a = frame b" "unat i = unat j"
    using page_offset_unique [of "frame a" "8 * unat i" "frame b" "8 * unat j"] by simp_all
  then show "a = b \<and> i = j" using page_aligned_frame assms(1,2) by (simp add: word_eq_by_unat)
qed simp

lemma cell_in_struct_iff:
  assumes "page_aligned a" and "page_aligned b" and "j < 512"
  shows "PHYS_REL b + 8 * j - PHYS_REL a < PAGE_STRUCT_SIZE \<longleftrightarrow> a = b"
proof -
  have j: "8 * unat j < 4096" using unat_8_mult [OF assms(3)] by simp
  have eq: "PHYS_REL b + 8 * j - PHYS_REL a = (b + 8 * j) - a" by (simp add: PHYS_REL_def)
  show ?thesis
  proof (cases "a \<le> b")
    case True
    then have ab: "unat a \<le> unat b" by (simp add: word_le_nat_alt)
    have "a \<le> b + 8 * j" using unat_cell [OF assms(2,3)] ab by (simp add: word_le_nat_alt)
    then have "unat (b + 8 * j - a) = unat b + 8 * unat j - unat a"
      using unat_cell [OF assms(2,3)] by (simp add: unat_minus64)
    moreover have "unat a = 4096 * frame a" "unat b = 4096 * frame b" using page_aligned_frame assms(1,2) by auto
    ultimately have "b + 8 * j - a < 4096 \<longleftrightarrow> frame a = frame b"
      using j ab by (simp add: word_less_nat_alt) linarith
    moreover have "frame a = frame b \<longleftrightarrow> a = b"
      using page_aligned_frame assms(1,2) by (auto intro: word_eq_by_unat)
    ultimately show ?thesis by (simp only: eq PAGE_STRUCT_SIZE_def)
  next
    case False
    then have "unat b < unat a" by (simp add: word_le_nat_alt)
    then have "unat b + 4096 \<le> unat a" using page_aligned_frame assms(1,2) by auto
    then have lt: "unat (b + 8 * j) < unat a" using unat_cell [OF assms(2,3)] j by simp
    have "unat (b + 8 * j - a) = 2 ^ 64 + unat (b + 8 * j) - unat a"
      using lt by (simp add: unat_sub_if' word_le_nat_alt)
    moreover have "unat a + 4096 \<le> 2 ^ 64" using page_aligned_top assms(1) by blast
    ultimately have "\<not> b + 8 * j - a < 4096" by (simp add: word_less_nat_alt)
    then show ?thesis using False by (simp only: eq PAGE_STRUCT_SIZE_def) auto
  qed
qed

text \<open>
  The effect on the entries of a change that gives the entry at one path a new value, keeps the
  cells of all other structures, and either puts no structure there or an empty one.
\<close>

lemma ent_update:
  assumes t: "tbl s p q = Some t" and none: "length q < 3 \<Longrightarrow> tbl s p (i # q) = None"
    and x: "entry s' t i = x"
    and keep: "\<And>r u j. path 3 r \<Longrightarrow> j < 512 \<Longrightarrow> tbl s p r = Some u \<Longrightarrow> (r, j) \<noteq> (q, i) \<Longrightarrow> entry s' u j = entry s u j"
    and empty: "length q < 3 \<Longrightarrow> no_table q x \<or> (\<forall>j < 512. entry s' (table_at x) j = 0)"
  shows "path 4 r \<Longrightarrow> r \<noteq> [] \<Longrightarrow> ent s' p r = (if r = i # q then x else ent s p r)"
proof (induction r)
  case (Cons j r)
  note IH = Cons.IH
  have r: "path 3 r" and j: "j < 512" using Cons.prems by (simp_all add: numeral_eq_Suc)
  have r4: "path 4 r" using r by (rule path_mono) simp
  show ?case
  proof (cases "r = i # q")
    case True
    then have len: "length q < 3" using r by (simp add: path_def)
    have "ent s p (j # r) = 0" using none [OF len] True by simp
    moreover have "ent s' p r = x" using IH r4 True by simp
    then have "ent s' p (j # r) = 0" using empty [OF len] j True tbl_ent [of s' p i q] by auto
    ultimately show ?thesis using True by auto
  next
    case False
    have same: "tbl s' p r = tbl s p r"
    proof (cases r)
      case (Cons k r1)
      then have "r \<noteq> []" by simp
      then have "ent s' p r = ent s p r" using IH [OF r4] False by simp
      then have "ent s' p (k # r1) = ent s p (k # r1)" by (simp only: Cons)
      then show ?thesis by (simp only: Cons tbl_ent)
    qed simp
    show ?thesis
    proof (cases "tbl s p r")
      case None
      then show ?thesis using same t by auto
    next
      case (Some u)
      show ?thesis using Some same x t keep [OF r j Some] by (cases "(r, j) = (q, i)") auto
    qed
  qed
qed simp

section \<open>Effects on the entries\<close>

text \<open>
  \<open>page_flags\<close> are flags below the address bits of an entry, without the flag for large pages.
\<close>

definition page_flags :: "u64 \<Rightarrow> bool" where
  "page_flags fl \<longleftrightarrow> fl < 4096 \<and> \<not> bit fl 7"

lemma page_flags_bit: "page_flags fl \<Longrightarrow> bit fl n \<Longrightarrow> n < 12 \<and> n \<noteq> 7"
proof -
  assume fl: "page_flags fl" and n: "bit fl n"
  then have "unat fl < 2 ^ 12" by (simp add: page_flags_def word_less_nat_alt)
  then have "take_bit 12 (unat fl) = unat fl" by (rule take_bit_nat_eq_self)
  moreover have "bit (unat fl) n" using n by (simp add: bit_unsigned_iff)
  ultimately have "bit (take_bit 12 (unat fl)) n" by simp
  then have "n < 12" by (simp add: bit_take_bit_iff)
  then show ?thesis using fl n by (auto simp: page_flags_def)
qed

lemma page_aligned_bit: "page_aligned a \<Longrightarrow> n < 12 \<Longrightarrow> \<not> bit a n"
proof -
  assume "page_aligned a" and n: "n < 12"
  then have "take_bit 12 (unat a) = 0" by (simp add: page_aligned_def take_bit_eq_mod)
  then have "\<not> bit (take_bit 12 (unat a)) n" by simp
  then show ?thesis using n by (simp add: bit_take_bit_iff bit_unsigned_iff)
qed

lemma align_down_bit: "bit (ALIGN_DOWN a PAGE_SIZE) n \<longleftrightarrow> bit a n \<and> 12 \<le> n"
proof -
  have "PAGE_SIZE - 1 = mask 12" by (simp add: PAGE_SIZE_def mask_eq_exp_minus_1)
  then show ?thesis by (auto simp: ALIGN_DOWN_def bit_simps dest: bit_imp_le_length)
qed

lemma align_down_id: "page_aligned a \<Longrightarrow> ALIGN_DOWN a PAGE_SIZE = a"
  by (rule bit_word_eqI) (auto simp: align_down_bit page_aligned_bit not_less [symmetric])

text \<open>The flags a new entry gets in addition to those of the caller.\<close>

lemma bit_small [word_facts]: "bit (1 :: u64) n \<longleftrightarrow> n = 0" "bit (2 :: u64) n \<longleftrightarrow> n = 1" "bit (4 :: u64) n \<longleftrightarrow> n = 2"
  using bit_exp_iff [of 0 n, where ?'a = "64 word"] bit_exp_iff [of 1 n, where ?'a = "64 word"]
    bit_exp_iff [of 2 n, where ?'a = "64 word"]
  by (auto simp: exp_eq_zero_iff)

lemma page_flags_or: "page_flags fl \<Longrightarrow> page_flags (PAGE_FLAG_PRESENT OR PAGE_FLAG_RW OR PAGE_FLAG_USER OR fl)"
proof -
  assume fl: "page_flags fl"
  let ?x = "PAGE_FLAG_PRESENT OR PAGE_FLAG_RW OR PAGE_FLAG_USER OR fl"
  have b: "bit ?x n \<Longrightarrow> n < 12 \<and> n \<noteq> 7" for n
    using page_flags_bit [OF fl, of n]
    unfolding bit_or_iff bit_small PAGE_FLAG_PRESENT_def PAGE_FLAG_RW_def PAGE_FLAG_USER_def by auto
  have "take_bit 12 (unat ?x) = unat ?x"
    by (rule bit_eqI) (use b in \<open>auto simp only: bit_take_bit_iff bit_unsigned_iff\<close>)
  then have "unat ?x < 2 ^ 12" by (simp only: take_bit_nat_eq_self_iff)
  then have "?x < 4096" by (simp add: word_less_nat_alt)
  then show ?thesis using b [of 7] by (auto simp: page_flags_def)
qed

lemma entry_address:
  assumes "page_aligned a" and "page_flags fl"
  shows "ALIGN_DOWN (a OR fl) PAGE_SIZE = a"
  by (rule bit_word_eqI)
    (use page_aligned_bit [OF assms(1)] page_flags_bit [OF assms(2)] in \<open>auto simp: align_down_bit bit_or_iff not_less [symmetric]\<close>)

lemma leaf_entry:
  assumes "page_flags fl"
  shows "present (ALIGN_DOWN a PAGE_SIZE OR (PAGE_FLAG_PRESENT OR fl))"
    and "ALIGN_DOWN (ALIGN_DOWN a PAGE_SIZE OR (PAGE_FLAG_PRESENT OR fl)) PAGE_SIZE = ALIGN_DOWN a PAGE_SIZE"
proof -
  show "present (ALIGN_DOWN a PAGE_SIZE OR (PAGE_FLAG_PRESENT OR fl))"
    by (simp add: present_bit bit_or_iff PAGE_FLAG_PRESENT_def)
  have "\<not> bit (PAGE_FLAG_PRESENT OR fl) n" if "12 \<le> n" for n
    using page_flags_bit [OF assms, of n] that unfolding bit_or_iff bit_small PAGE_FLAG_PRESENT_def by auto
  then show "ALIGN_DOWN (ALIGN_DOWN a PAGE_SIZE OR (PAGE_FLAG_PRESENT OR fl)) PAGE_SIZE = ALIGN_DOWN a PAGE_SIZE"
    by (intro bit_word_eqI) (auto simp: align_down_bit bit_or_iff)
qed

lemma entry_flags:
  assumes "page_aligned a" and "page_flags fl"
  shows "present (a OR fl) \<longleftrightarrow> bit fl 0" and "\<not> large (a OR fl)"
  using page_aligned_bit [OF assms(1)] page_flags_bit [OF assms(2), of 7]
  by (auto simp: present_bit large_bit bit_or_iff)

text \<open>
  \<open>ent_upd p q x s s'\<close>: the entries of \<open>s'\<close> are those of \<open>s\<close> but for the value \<open>x\<close> at the
  path \<open>q\<close>.
\<close>

definition ent_upd :: "u64 \<Rightarrow> u64 list \<Rightarrow> u64 \<Rightarrow> vm_state \<Rightarrow> vm_state \<Rightarrow> bool" where
  "ent_upd p q x s s' \<longleftrightarrow> (\<forall>r. path 4 r \<longrightarrow> r \<noteq> [] \<longrightarrow> ent s' p r = (if r = q then x else ent s p r))"

lemma ent_updD: "ent_upd p q x s s' \<Longrightarrow> path 4 r \<Longrightarrow> r \<noteq> [] \<Longrightarrow> ent s' p r = (if r = q then x else ent s p r)"
  unfolding ent_upd_def by blast

lemma tbl_update:
  assumes "ent_upd p (i # q) x s s'" and "path 3 r"
  shows "tbl s' p r = (if r = i # q then if no_table q x then None else Some (table_at x) else tbl s p r)"
proof (cases r)
  case (Cons k r1)
  have "path 4 r" using assms(2) by (rule path_mono) simp
  then have e: "ent s' p (k # r1) = (if k # r1 = i # q then x else ent s p (k # r1))"
    using ent_updD [OF assms(1), of "k # r1"] Cons by blast
  show ?thesis by (simp only: Cons tbl_ent e split: if_splits) auto
qed simp

lemma vm_inv_update:
  assumes inv: "vm_inv p s" and pa: "pa_inv (vm_pages s')" and upd: "ent_upd p (i # q) x s s'"
    and mono: "\<And>t. table_frame s t \<Longrightarrow> table_frame s' t"
    and new: "length q < 3 \<Longrightarrow> no_table q x \<or>
       table_frame s' (table_at x) \<and> (\<forall>r. path 3 r \<longrightarrow> tbl s p r \<noteq> Some (table_at x))"
  shows "vm_inv p s'"
  unfolding vm_inv_def
proof (intro conjI allI impI)
  show "pa_inv (vm_pages s')" by (rule pa)
next
  fix r t assume r: "path 3 r" and t: "tbl s' p r = Some t"
  show "table_frame s' t"
  proof (cases "r = i # q")
    case True
    then show ?thesis using t r new tbl_update [OF upd r] by (auto simp: path_def split: if_splits)
  next
    case False
    then show ?thesis using t mono vm_invD(2) [OF inv r] tbl_update [OF upd r] by simp
  qed
next
  fix r1 r2 t assume r: "path 3 r1" "path 3 r2" and t: "tbl s' p r1 = Some t" "tbl s' p r2 = Some t"
  show "r1 = r2"
  proof (cases "r1 = i # q \<or> r2 = i # q")
    case True
    then have "length q < 3" using r by (auto simp: path_def)
    then show ?thesis using True t r new tbl_update [OF upd r(1)] tbl_update [OF upd r(2)]
      by (auto split: if_splits)
  next
    case False
    then show ?thesis using t vm_invD(3) [OF inv r] tbl_update [OF upd r(1)] tbl_update [OF upd r(2)] by simp
  qed
qed

text \<open>The part of the invariant that concerns the entries only.\<close>

definition struct_at :: "u64 \<Rightarrow> bool" where
  "struct_at t \<longleftrightarrow> (\<exists>a. t = PHYS_REL a \<and> page_aligned a)"

definition tbl_inv :: "u64 \<Rightarrow> vm_state \<Rightarrow> bool" where
  "tbl_inv p s \<longleftrightarrow> (\<forall>q t. path 3 q \<longrightarrow> tbl s p q = Some t \<longrightarrow> struct_at t) \<and>
     (\<forall>q r t. path 3 q \<longrightarrow> path 3 r \<longrightarrow> tbl s p q = Some t \<longrightarrow> tbl s p r = Some t \<longrightarrow> q = r)"

lemma tbl_invD:
  assumes "tbl_inv p s"
  shows "path 3 q \<Longrightarrow> tbl s p q = Some t \<Longrightarrow> struct_at t"
    and "path 3 q \<Longrightarrow> path 3 r \<Longrightarrow> tbl s p q = Some t \<Longrightarrow> tbl s p r = Some t \<Longrightarrow> q = r"
  using assms unfolding tbl_inv_def by blast+

lemma table_frame_struct: "table_frame s t \<Longrightarrow> struct_at t"
  by (auto simp: table_frame_def struct_at_def)

lemma vm_inv_tbl_inv: "vm_inv p s \<Longrightarrow> tbl_inv p s"
  unfolding vm_inv_def tbl_inv_def using table_frame_struct by blast

lemma entry_set_entry:
  assumes "struct_at t" and "struct_at u" and "i < 512" and "j < 512"
  shows "entry (set_entry t i x s') u j = (if u = t \<and> j = i then x else entry s' u j)"
proof -
  obtain a b where "t = PHYS_REL a" "u = PHYS_REL b" "page_aligned a" "page_aligned b"
    using assms(1,2) by (auto simp: struct_at_def)
  then show ?thesis using cell_eq_iff [of b a j i] assms(3,4)
    by (auto simp: entry_def set_entry_def PHYS_REL_def)
qed

lemma entry_clear_struct:
  assumes "page_aligned a" and "page_aligned b" and "j < 512"
  shows "entry (clear_struct (PHYS_REL a) s) (PHYS_REL b) j = (if b = a then 0 else entry s (PHYS_REL b) j)"
  using cell_in_struct_iff [OF assms] by (auto simp: entry_def clear_struct_def)

lemma table_frame_set_entry [simp]: "table_frame (set_entry t i x s) u = table_frame s u"
  by (simp add: table_frame_def set_entry_def)

text \<open>Storing an entry that leads to no structure.\<close>

lemma set_entry_ent:
  assumes inv: "vm_inv p s" and q: "path 3 q" "i < 512" and t: "tbl s p q = Some t"
    and none: "length q < 3 \<Longrightarrow> tbl s p (i # q) = None \<and> no_table q x"
  shows "ent_upd p (i # q) x s (set_entry t i x s) \<and> vm_inv p (set_entry t i x s)"
proof -
  have tf: "struct_at t" using vm_invD(2) [OF inv q(1) t] by (rule table_frame_struct)
  have "entry (set_entry t i x s) u j = entry s u j"
    if r: "path 3 r" "j < 512" "tbl s p r = Some u" "(r, j) \<noteq> (q, i)" for r u j
  proof -
    have "struct_at u" using vm_invD(2) [OF inv] r table_frame_struct by blast
    moreover have "u = t \<Longrightarrow> r = q" using vm_invD(3) [OF inv r(1) q(1)] r(3) t by blast
    ultimately show ?thesis using entry_set_entry [OF tf _ q(2) r(2)] r(4) by auto
  qed
  then have upd: "ent_upd p (i # q) x s (set_entry t i x s)"
    unfolding ent_upd_def using ent_update [OF t, of i "set_entry t i x s" x] none entry_set_entry [OF tf tf q(2,2)] by auto
  moreover have "vm_inv p (set_entry t i x s)"
    using vm_inv_update [OF inv _ upd] vm_invD(1) [OF inv] none by (auto simp: set_entry_def table_frame_def)
  ultimately show ?thesis ..
qed

text \<open>An entry that is not present may become an entry of an empty structure: no address changes.\<close>

lemma xlat_link:
  assumes upd: "ent_upd p (i # q) x s s'" and q: "path 2 q" and none: "\<not> present (ent s p (i # q))"
    and x: "q \<noteq> [] \<Longrightarrow> \<not> large x \<or> \<not> present x"
  shows "vm_phys_addr p v s' = vm_phys_addr p v s"
proof -
  have t: "tbl s p (i # q) = None" using none by (simp only: tbl_ent no_table_def) simp
  then have z: "ent s p (j # i # q) = 0" for j by simp
  have e: "ent s' p r = (if r = i # q then x else ent s p r)"
    if "r \<in> {[PML4T_INDEX v], [PDPT_INDEX v, PML4T_INDEX v], [PDT_INDEX v, PDPT_INDEX v, PML4T_INDEX v], vpath v}" for r
  proof -
    have "path 4 r" "r \<noteq> []" using that by (auto simp: vpath_def numeral_eq_Suc)
    then show ?thesis by (rule ent_updD [OF upd])
  qed
  consider "q = []" | j where "q = [j]" | j k where "q = [j, k]"
    using q by (cases q rule: remdups_adj.cases) (auto simp: path_def)
  then show ?thesis
  proof cases
    case 1
    then show ?thesis using e z none by (auto simp: vm_phys_addr_ent Let_def vpath_def simp del: ent.simps)
  next
    case 2
    then show ?thesis using e z none x by (auto simp: vm_phys_addr_ent Let_def vpath_def simp del: ent.simps)
  next
    case 3
    then show ?thesis using e z none x by (auto simp: vm_phys_addr_ent Let_def vpath_def simp del: ent.simps)
  qed
qed

text \<open>
  What a step of vm_map_page promises: the invariant, all translations and the structures on the
  path are kept.
\<close>

definition vm_step :: "u64 \<Rightarrow> u64 list \<Rightarrow> vm_state \<Rightarrow> vm_state \<Rightarrow> bool" where
  "vm_step p r s s' \<longleftrightarrow> vm_inv p s' \<and> (\<forall>v. vm_phys_addr p v s' = vm_phys_addr p v s) \<and>
     (\<forall>q. path 4 q \<longrightarrow> q \<noteq> [] \<longrightarrow> q \<noteq> r \<longrightarrow> ent s' p q = ent s p q)"

lemma vm_step_tbl: "vm_step p (i # q) s s' \<Longrightarrow> path 3 q \<Longrightarrow> tbl s' p q = tbl s p q"
proof (cases q)
  case (Cons k r)
  assume st: "vm_step p (i # q) s s'" and q: "path 3 q"
  have "path 4 q" using q by (rule path_mono) simp
  moreover have "q \<noteq> i # q" "q \<noteq> []" using Cons by auto
  ultimately have "ent s' p (k # r) = ent s p (k # r)" using st unfolding vm_step_def Cons by blast
  then show ?thesis by (simp only: Cons tbl_ent)
qed simp

lemma table_frame_mono:
  assumes "table_frame s u"
    and "length (phys_alloc_table (vm_pages s')) = length (phys_alloc_table (vm_pages s))"
    and "\<And>k. k < length (phys_alloc_table (vm_pages s)) \<Longrightarrow> phys_alloc_table (vm_pages s) ! k \<noteq> 0 \<Longrightarrow>
       phys_alloc_table (vm_pages s') ! k \<noteq> 0"
  shows "table_frame s' u"
  using assms by (auto simp: table_frame_def)

lemma new_structure_ok:
  assumes inv: "vm_inv p s" and q: "path 2 q" "i < 512" and t: "tbl s p q = Some t"
    and np: "\<not> present (entry s t i)" and fl: "page_flags fl" "bit fl 0"
    and al: "alloc_result (vm_pages s) a pg" "a \<noteq> 0"
  defines "s' \<equiv> set_entry t i (a OR fl) (clear_struct (PHYS_REL a) (set_entry t i a (s\<lparr>vm_pages := pg\<rparr>)))"
  shows "ent_upd p (i # q) (a OR fl) s s' \<and> vm_inv p s'"
proof -
  have q3: "path 3 q" using q(1) by (rule path_mono) simp
  have a: "page_aligned a" "frame a < length (phys_alloc_table (vm_pages s))"
      "phys_alloc_table (vm_pages s) ! frame a = 0" "phys_alloc_table pg = (phys_alloc_table (vm_pages s))[frame a := 1]"
    and pg: "pa_inv pg" using al by (auto simp: alloc_result_def)
  have tf: "table_frame s u" if "path 3 r" "tbl s p r = Some u" for r u using vm_invD(2) [OF inv that] .
  have fresh: "u \<noteq> PHYS_REL a" if "table_frame s u" for u using that a(3) by (auto simp: table_frame_def PHYS_REL_def)
  have cells: "entry s' u j = (if u = t \<and> j = i then a OR fl else entry s u j)" if u: "table_frame s u" "j < 512" for u j
  proof -
    obtain b where b: "u = PHYS_REL b" "page_aligned b" using u(1) by (auto simp: table_frame_def)
    have "b \<noteq> a" using fresh [OF u(1)] b(1) by auto
    then show ?thesis unfolding s'_def using entry_clear_struct [OF a(1) b(2) u(2)] b(1)
        entry_set_entry [OF table_frame_struct [OF tf [OF q3 t]] table_frame_struct [OF u(1)] q(2) u(2)] by (simp add: entry_def)
  qed
  have z: "entry s' (PHYS_REL a) j = 0" if "j < 512" for j
  proof -
    obtain c where c: "t = PHYS_REL c" "page_aligned c" "c \<noteq> a"
      using tf [OF q3 t] fresh [OF tf [OF q3 t]] by (auto simp: table_frame_def)
    then have "PHYS_REL a + 8 * j \<noteq> t + 8 * i" using cell_eq_iff [OF a(1) c(2) that q(2)] by simp
    then show ?thesis unfolding s'_def using entry_clear_struct [OF a(1) a(1) that] by (simp add: entry_def set_entry_def)
  qed
  have at: "table_at (a OR fl) = PHYS_REL a" using entry_address [OF a(1) fl(1)] by (simp add: table_at_def)
  have none: "tbl s p (i # q) = None" using t np by (simp add: no_table_def)
  have keep: "entry s' u j = entry s u j" if "path 3 r" "j < 512" "tbl s p r = Some u" "(r, j) \<noteq> (q, i)" for r u j
    using cells [OF tf [OF that(1,3)] that(2)] vm_invD(3) [OF inv that(1) q3] that(3,4) t by auto
  have upd: "ent_upd p (i # q) (a OR fl) s s'"
    unfolding ent_upd_def using ent_update [OF t none cells [OF tf [OF q3 t] q(2), simplified] keep] z at by auto
  have mono: "table_frame s' u" if "table_frame s u" for u
    using that a(2,4) by (intro table_frame_mono [OF that]) (auto simp: s'_def set_entry_def clear_struct_def nth_list_update)
  have "table_frame s' (PHYS_REL a)" using a by (auto simp: table_frame_def s'_def set_entry_def clear_struct_def)
  moreover have "pa_inv (vm_pages s')" using pg by (simp add: s'_def set_entry_def clear_struct_def)
  moreover have "\<forall>r. path 3 r \<longrightarrow> tbl s p r \<noteq> Some (PHYS_REL a)" using tf fresh by blast
  ultimately have "vm_inv p s'" by (intro vm_inv_update [OF inv _ upd] mono) (simp_all add: at)
  then show ?thesis using upd by blast
qed

lemma vm_inv_alloc:
  assumes "vm_inv p s" and "alloc_result (vm_pages s) a pg"
  shows "vm_inv p (s\<lparr>vm_pages := pg\<rparr>)"
proof -
  have "table_frame s u \<Longrightarrow> table_frame (s\<lparr>vm_pages := pg\<rparr>) u" for u
    using assms(2) by (elim table_frame_mono) (auto simp: alloc_result_def nth_list_update split: if_splits)
  then show ?thesis using assms unfolding vm_inv_def tbl_pages by (auto simp: alloc_result_def)
qed

lemma ensure_table_ok:
  assumes inv: "vm_inv p s" and q: "path 2 q" "i < 512" and t: "tbl s p q = Some t" and fl: "page_flags fl"
  shows "\<exists>ok s'. ensure_table t i fl s = Some (ok, s') \<and> vm_step p (i # q) s s' \<and> (ok \<longrightarrow> present (entry s' t i))"
proof (cases "present (entry s t i)")
  case True
  then show ?thesis using inv by (intro exI [of _ True] exI [of _ s]) (simp add: ensure_table_def vm_step_def)
next
  case False
  have q3: "path 3 q" using q(1) by (rule path_mono) simp
  have e: "ent s p (i # q) = entry s t i" and none: "tbl s p (i # q) = None" using t False by (simp_all add: no_table_def)
  obtain a pg where al: "alloc_page (vm_pages s) = Some (a, pg)" "alloc_result (vm_pages s) a pg"
    using alloc_page_returns vm_invD(1) [OF inv] by blast
  let ?s0 = "s\<lparr>vm_pages := pg\<rparr>"
  show ?thesis
  proof (cases "a = 0")
    case True
    have inv0: "vm_inv p ?s0" using vm_inv_alloc [OF inv al(2)] .
    have u0: "ent_upd p (i # q) 0 ?s0 (set_entry t i 0 ?s0) \<and> vm_inv p (set_entry t i 0 ?s0)"
      by (rule set_entry_ent [OF inv0 q3 q(2)]) (simp_all only: tbl_pages t none no_table_0 simp_thms)
    then have upd: "ent_upd p (i # q) 0 s (set_entry t i 0 ?s0)" by (simp add: ent_upd_def ent_pages)
    have "vm_phys_addr p v (set_entry t i 0 ?s0) = vm_phys_addr p v s" for v
      using xlat_link [OF upd q(1)] False e by (simp only: not_present_0) auto
    then have "vm_step p (i # q) s (set_entry t i 0 ?s0)" using u0 upd by (simp add: vm_step_def ent_upd_def)
    then show ?thesis using al(1) True False
      by (intro exI [of _ False] exI [of _ "set_entry t i 0 ?s0"]) (simp add: ensure_table_def Let_def)
  next
    case nz: False
    let ?fl = "PAGE_FLAG_PRESENT OR PAGE_FLAG_RW OR PAGE_FLAG_USER OR fl"
    let ?s2 = "clear_struct (PHYS_REL a) (set_entry t i a ?s0)"
    let ?s' = "set_entry t i (a OR ?fl) ?s2"
    have fl': "page_flags ?fl" "bit ?fl 0" using page_flags_or [OF fl] by (simp_all add: bit_or_iff PAGE_FLAG_PRESENT_def)
    have new: "ent_upd p (i # q) (a OR ?fl) s ?s' \<and> vm_inv p ?s'"
      using new_structure_ok [OF inv q t False fl' al(2) nz] .
    have a: "page_aligned a" "phys_alloc_table (vm_pages s) ! frame a = 0" using al(2) nz by (auto simp: alloc_result_def)
    obtain c where c: "t = PHYS_REL c" "page_aligned c" "c \<noteq> a"
      using vm_invD(2) [OF inv q3 t] a(2) by (auto simp: table_frame_def)
    have r1: "entry (set_entry t i a ?s0) t i = a" by (simp add: entry_def set_entry_def)
    have r2: "entry ?s2 t i = a" using entry_clear_struct [OF a(1) c(2) q(2)] c(1,3) r1 by simp
    have "ensure_table t i fl s = Some (True, ?s')"
      using al(1) False nz by (simp add: ensure_table_def Let_def r1 r2)
    moreover have "vm_phys_addr p v ?s' = vm_phys_addr p v s" for v
      using xlat_link [OF conjunct1 [OF new] q(1)] False e entry_flags(2) [OF a(1) fl'(1)] by metis
    then have "vm_step p (i # q) s ?s'" using new by (simp add: vm_step_def ent_upd_def)
    moreover have "present (entry ?s' t i)"
      using entry_flags(1) [OF a(1) fl'(1)] fl'(2) by (simp add: entry_def set_entry_def)
    ultimately show ?thesis by blast
  qed
qed

lemma vm_step_trans_tbl:
  assumes "vm_step p (i # q) s s'" and "path 2 q" and "i < 512" and "tbl s p q = Some t"
    and "present (entry s' t i)" and "q \<noteq> [] \<Longrightarrow> \<not> large (entry s' t i)"
  shows "tbl s' p (i # q) = Some (table_at (entry s' t i))"
proof -
  have "path 3 q" using assms(2) by (rule path_mono) simp
  then have "tbl s' p q = Some t" using vm_step_tbl [OF assms(1)] assms(4) by simp
  then show ?thesis using assms(5,6) by (auto simp: no_table_def)
qed

text \<open>The indexes of an address are determined by its page, and for canonical addresses determine it.\<close>

lemma index_bits:
  "bit (PT_INDEX v) n \<longleftrightarrow> n < 9 \<and> bit v (12 + n)" "bit (PDT_INDEX v) n \<longleftrightarrow> n < 9 \<and> bit v (21 + n)"
  "bit (PDPT_INDEX v) n \<longleftrightarrow> n < 9 \<and> bit v (30 + n)" "bit (PML4T_INDEX v) n \<longleftrightarrow> n < 9 \<and> bit v (39 + n)"
proof -
  have m: "(0x1ff :: u64) = mask 9" by (simp add: mask_eq_exp_minus_1)
  show "bit (PT_INDEX v) n \<longleftrightarrow> n < 9 \<and> bit v (12 + n)" "bit (PDT_INDEX v) n \<longleftrightarrow> n < 9 \<and> bit v (21 + n)"
    "bit (PDPT_INDEX v) n \<longleftrightarrow> n < 9 \<and> bit v (30 + n)" "bit (PML4T_INDEX v) n \<longleftrightarrow> n < 9 \<and> bit v (39 + n)"
    unfolding PT_INDEX_def PDT_INDEX_def PDPT_INDEX_def PML4T_INDEX_def m
    by (auto simp: bit_simps add.commute dest: bit_imp_le_length)
qed

lemma canonical_bit: "canonical v \<Longrightarrow> 48 \<le> n \<Longrightarrow> n < 64 \<Longrightarrow> bit v n \<longleftrightarrow> bit v 47"
proof -
  assume c: "canonical v" and n: "48 \<le> n" "n < 64"
  have "PML4T_INDEX v AND 0x100 \<noteq> 0 \<longleftrightarrow> bit v 47"
    using and_exp_eq_0_iff [of 8 "PML4T_INDEX v"] index_bits(4) [of v 8] by simp
  moreover have "(0xffff :: u64) = mask 16" by (simp add: mask_eq_exp_minus_1)
  ultimately have "drop_bit 48 v = (if bit v 47 then mask 16 else 0)" using c by (simp add: canonical_def)
  then have "bit (drop_bit 48 v) (n - 48) \<longleftrightarrow> bit v 47" using n by (auto simp: bit_mask_iff)
  then show ?thesis using n by (simp add: bit_drop_bit_eq)
qed

lemma index_eq_iff:
  "PT_INDEX v = PT_INDEX w \<longleftrightarrow> (\<forall>n. 12 \<le> n \<and> n < 21 \<longrightarrow> bit v n = bit w n)"
  "PDT_INDEX v = PDT_INDEX w \<longleftrightarrow> (\<forall>n. 21 \<le> n \<and> n < 30 \<longrightarrow> bit v n = bit w n)"
  "PDPT_INDEX v = PDPT_INDEX w \<longleftrightarrow> (\<forall>n. 30 \<le> n \<and> n < 39 \<longrightarrow> bit v n = bit w n)"
  "PML4T_INDEX v = PML4T_INDEX w \<longleftrightarrow> (\<forall>n. 39 \<le> n \<and> n < 48 \<longrightarrow> bit v n = bit w n)"
proof -
  have shift: "x = y \<longleftrightarrow> (\<forall>n. d \<le> n \<and> n < d + 9 \<longrightarrow> bit v n = bit w n)"
    if x: "\<And>n. bit x n \<longleftrightarrow> n < 9 \<and> bit v (d + n)" and y: "\<And>n. bit y n \<longleftrightarrow> n < 9 \<and> bit w (d + n)" for d and x y :: u64
  proof
    assume "x = y"
    then have "n < 9 \<Longrightarrow> bit v (d + n) = bit w (d + n)" for n using x y by metis
    then show "\<forall>n. d \<le> n \<and> n < d + 9 \<longrightarrow> bit v n = bit w n" by (metis add_less_cancel_left le_Suc_ex)
  next
    assume "\<forall>n. d \<le> n \<and> n < d + 9 \<longrightarrow> bit v n = bit w n"
    then show "x = y" by (intro bit_word_eqI) (auto simp: x y)
  qed
  show "PT_INDEX v = PT_INDEX w \<longleftrightarrow> (\<forall>n. 12 \<le> n \<and> n < 21 \<longrightarrow> bit v n = bit w n)"
    using shift [of "PT_INDEX v" 12 "PT_INDEX w", OF index_bits(1) index_bits(1)] by simp
  show "PDT_INDEX v = PDT_INDEX w \<longleftrightarrow> (\<forall>n. 21 \<le> n \<and> n < 30 \<longrightarrow> bit v n = bit w n)"
    using shift [of "PDT_INDEX v" 21 "PDT_INDEX w", OF index_bits(2) index_bits(2)] by simp
  show "PDPT_INDEX v = PDPT_INDEX w \<longleftrightarrow> (\<forall>n. 30 \<le> n \<and> n < 39 \<longrightarrow> bit v n = bit w n)"
    using shift [of "PDPT_INDEX v" 30 "PDPT_INDEX w", OF index_bits(3) index_bits(3)] by simp
  show "PML4T_INDEX v = PML4T_INDEX w \<longleftrightarrow> (\<forall>n. 39 \<le> n \<and> n < 48 \<longrightarrow> bit v n = bit w n)"
    using shift [of "PML4T_INDEX v" 39 "PML4T_INDEX w", OF index_bits(4) index_bits(4)] by simp
qed

lemma align_down_eq_iff: "ALIGN_DOWN v (exp64 k) = ALIGN_DOWN w (exp64 k) \<longleftrightarrow> (\<forall>n. k \<le> n \<longrightarrow> bit v n = bit w n)"
proof -
  have "bit (ALIGN_DOWN a (exp64 k)) n \<longleftrightarrow> bit a n \<and> k \<le> n" for a n
    unfolding ALIGN_DOWN_def exp64_minus_1 by (auto simp: bit_simps dest: bit_imp_le_length)
  then have "ALIGN_DOWN v (exp64 k) = ALIGN_DOWN w (exp64 k) \<longleftrightarrow> (\<forall>n < 64. k \<le> n \<longrightarrow> bit v n = bit w n)"
    by (auto simp: bit_eq_iff)
  moreover have "\<not> bit a n" if "64 \<le> n" for n and a :: u64 using that bit_imp_le_length [of a n] by auto
  ultimately show ?thesis by (meson not_le)
qed

lemma canonical_eq_bits:
  assumes "canonical v" and "canonical w" and "k \<le> 47" and "\<And>n. k \<le> n \<Longrightarrow> n < 48 \<Longrightarrow> bit v n = bit w n"
  shows "ALIGN_DOWN v (exp64 k) = ALIGN_DOWN w (exp64 k)"
  unfolding align_down_eq_iff
proof (intro allI impI)
  fix n assume n: "k \<le> n"
  consider "n < 48" | "48 \<le> n" "n < 64" | "64 \<le> n" by linarith
  then show "bit v n = bit w n"
  proof cases
    case 2
    then show ?thesis using canonical_bit [OF assms(1)] canonical_bit [OF assms(2)] assms(4) [of 47] assms(3) by simp
  next
    case 3
    then show ?thesis by (auto dest: bit_imp_le_length)
  qed (use assms(4) n in blast)
qed

lemma canonical_page:
  assumes "ALIGN_DOWN v (exp64 k) = ALIGN_DOWN w (exp64 k)" and "k \<le> 39"
  shows "canonical v = canonical w" and "PML4T_INDEX v = PML4T_INDEX w"
    and "k \<le> 30 \<Longrightarrow> PDPT_INDEX v = PDPT_INDEX w" and "k \<le> 21 \<Longrightarrow> PDT_INDEX v = PDT_INDEX w"
    and "k \<le> 12 \<Longrightarrow> PT_INDEX v = PT_INDEX w"
proof -
  have b: "k \<le> n \<Longrightarrow> bit v n = bit w n" for n using assms(1) by (simp add: align_down_eq_iff)
  show i: "PML4T_INDEX v = PML4T_INDEX w" using b assms(2) by (simp add: index_eq_iff)
  have "drop_bit 48 v = drop_bit 48 w" using b assms(2) by (intro bit_word_eqI) (simp add: bit_drop_bit_eq)
  then show "canonical v = canonical w" using i by (simp add: canonical_def)
  show "k \<le> 30 \<Longrightarrow> PDPT_INDEX v = PDPT_INDEX w" "k \<le> 21 \<Longrightarrow> PDT_INDEX v = PDT_INDEX w"
    "k \<le> 12 \<Longrightarrow> PT_INDEX v = PT_INDEX w" using b by (simp_all add: index_eq_iff)
qed

lemma page_size_exps: "PAGE_SIZE = exp64 12" "LARGE_PAGE_SIZE = exp64 21" "HUGE_PAGE_SIZE = exp64 30"
  by (simp_all add: PAGE_SIZE_def LARGE_PAGE_SIZE_def HUGE_PAGE_SIZE_def)

lemma same_page:
  assumes "canonical v"
  shows "ALIGN_DOWN w PAGE_SIZE = ALIGN_DOWN v PAGE_SIZE \<longleftrightarrow> canonical w \<and> vpath w = vpath v"
    and "ALIGN_DOWN w LARGE_PAGE_SIZE = ALIGN_DOWN v LARGE_PAGE_SIZE \<longleftrightarrow> canonical w \<and> tl (vpath w) = tl (vpath v)"
    and "ALIGN_DOWN w HUGE_PAGE_SIZE = ALIGN_DOWN v HUGE_PAGE_SIZE \<longleftrightarrow> canonical w \<and> tl (tl (vpath w)) = tl (tl (vpath v))"
proof -
  show "ALIGN_DOWN w PAGE_SIZE = ALIGN_DOWN v PAGE_SIZE \<longleftrightarrow> canonical w \<and> vpath w = vpath v"
  proof
    assume "canonical w \<and> vpath w = vpath v"
    moreover from this have "bit w n = bit v n" if "12 \<le> n" "n < 48" for n
      using that by (simp add: vpath_def index_eq_iff) (meson not_le)
    ultimately show "ALIGN_DOWN w PAGE_SIZE = ALIGN_DOWN v PAGE_SIZE"
      using canonical_eq_bits [of w v 12] assms by (simp add: page_size_exps)
  qed (use canonical_page [of w 12 v] assms in \<open>simp add: page_size_exps vpath_def\<close>)
  show "ALIGN_DOWN w LARGE_PAGE_SIZE = ALIGN_DOWN v LARGE_PAGE_SIZE \<longleftrightarrow> canonical w \<and> tl (vpath w) = tl (vpath v)"
  proof
    assume "canonical w \<and> tl (vpath w) = tl (vpath v)"
    moreover from this have "bit w n = bit v n" if "21 \<le> n" "n < 48" for n
      using that by (simp add: vpath_def index_eq_iff) (meson not_le)
    ultimately show "ALIGN_DOWN w LARGE_PAGE_SIZE = ALIGN_DOWN v LARGE_PAGE_SIZE"
      using canonical_eq_bits [of w v 21] assms by (simp add: page_size_exps)
  qed (use canonical_page [of w 21 v] assms in \<open>simp add: page_size_exps vpath_def\<close>)
  show "ALIGN_DOWN w HUGE_PAGE_SIZE = ALIGN_DOWN v HUGE_PAGE_SIZE \<longleftrightarrow> canonical w \<and> tl (tl (vpath w)) = tl (tl (vpath v))"
  proof
    assume "canonical w \<and> tl (tl (vpath w)) = tl (tl (vpath v))"
    moreover from this have "bit w n = bit v n" if "30 \<le> n" "n < 48" for n
      using that by (simp add: vpath_def index_eq_iff) (meson not_le)
    ultimately show "ALIGN_DOWN w HUGE_PAGE_SIZE = ALIGN_DOWN v HUGE_PAGE_SIZE"
      using canonical_eq_bits [of w v 30] assms by (simp add: page_size_exps)
  qed (use canonical_page [of w 30 v] assms in \<open>simp add: page_size_exps vpath_def\<close>)
qed

text \<open>The last store of vm_map_page.\<close>

lemma leaf_store:
  fixes x :: u64
  assumes inv: "vm_inv p s" and v: "canonical v" and q: "q = [PDT_INDEX v, PDPT_INDEX v, PML4T_INDEX v]"
    and t: "tbl s p q = Some t"
  defines "s' \<equiv> set_entry t (PT_INDEX v) x s"
  shows "vm_inv p s' \<and> (\<forall>w. vm_phys_addr p w s' =
    (if ALIGN_DOWN w PAGE_SIZE = ALIGN_DOWN v PAGE_SIZE
     then if present x then ALIGN_DOWN x PAGE_SIZE OR (w AND (PAGE_SIZE - 1)) else 0 else vm_phys_addr p w s))"
proof -
  have "path 3 q" using q by (simp add: numeral_eq_Suc)
  then have upd: "ent_upd p (vpath v) x s s'" "vm_inv p s'"
    using set_entry_ent [OF inv _ _ t, of "PT_INDEX v" x] q by (simp_all add: s'_def vpath_def)
  have e: "ent s' p r = (if r = vpath v then x else ent s p r)"
    if "r \<in> {[PML4T_INDEX w], [PDPT_INDEX w, PML4T_INDEX w], [PDT_INDEX w, PDPT_INDEX w, PML4T_INDEX w], vpath w}" for r w
  proof -
    have "path 4 r" "r \<noteq> []" using that by (auto simp: vpath_def numeral_eq_Suc)
    then show ?thesis by (rule ent_updD [OF upd(1)])
  qed
  have pres: "present (ent s p [PML4T_INDEX v])" "present (ent s p [PDPT_INDEX v, PML4T_INDEX v])"
    "\<not> large (ent s p [PDPT_INDEX v, PML4T_INDEX v])" "present (ent s p q)" "\<not> large (ent s p q)"
    using t q by (auto simp: no_table_def split: if_splits)
  have "vm_phys_addr p w s' = (if ALIGN_DOWN w PAGE_SIZE = ALIGN_DOWN v PAGE_SIZE
     then if present x then ALIGN_DOWN x PAGE_SIZE OR (w AND (PAGE_SIZE - 1)) else 0 else vm_phys_addr p w s)" for w
  proof (cases "ALIGN_DOWN w PAGE_SIZE = ALIGN_DOWN v PAGE_SIZE")
    case True
    then have "vpath w = vpath v" "canonical w" using same_page(1) [OF v] by blast+
    then show ?thesis using e [of _ w] pres True q by (simp add: vm_phys_addr_ent Let_def vpath_def del: ent.simps)
  next
    case False
    then have "\<not> canonical w \<or> vpath w \<noteq> vpath v" using same_page(1) [OF v] by blast
    then show ?thesis using e [of _ w] False
      by (auto simp: vm_phys_addr_ent Let_def vpath_def simp del: ent.simps)
  qed
  then show ?thesis using upd(2) by blast
qed

lemma large_unmap:
  assumes inv: "vm_inv p s" and q: "path 2 q" "i < 512" "q \<noteq> []" and t: "tbl s p q = Some t"
    and e: "present (entry s t i)" "large (entry s t i)"
  shows "ent_upd p (i # q) 0 s (set_entry t i 0 s) \<and> vm_inv p (set_entry t i 0 s)"
proof -
  have "path 3 q" using q(1) by (rule path_mono) simp
  then show ?thesis using set_entry_ent [OF inv _ q(2) t, of 0] t e q(3) by (simp add: no_table_def)
qed

lemma ent_upd_vpath:
  assumes "ent_upd p q x s s'"
    and "r \<in> {[PML4T_INDEX w], [PDPT_INDEX w, PML4T_INDEX w], [PDT_INDEX w, PDPT_INDEX w, PML4T_INDEX w], vpath w}"
  shows "ent s' p r = (if r = q then x else ent s p r)"
proof -
  have "path 4 r" "r \<noteq> []" using assms(2) by (auto simp: vpath_def numeral_eq_Suc)
  then show ?thesis by (rule ent_updD [OF assms(1)])
qed

lemma xlat_cong:
  assumes "ent_upd p q x s s'" and "canonical w \<Longrightarrow>
      q \<notin> {[PML4T_INDEX w], [PDPT_INDEX w, PML4T_INDEX w], [PDT_INDEX w, PDPT_INDEX w, PML4T_INDEX w], vpath w}"
  shows "vm_phys_addr p w s' = vm_phys_addr p w s"
proof (cases "canonical w")
  case True
  have "ent s' p r = ent s p r"
    if "r \<in> {[PML4T_INDEX w], [PDPT_INDEX w, PML4T_INDEX w], [PDT_INDEX w, PDPT_INDEX w, PML4T_INDEX w], vpath w}" for r
    using that ent_upd_vpath [OF assms(1) that] assms(2) [OF True] by (metis (lifting))
  then show ?thesis by (simp add: vm_phys_addr_ent Let_def vpath_def del: ent.simps)
qed (simp add: vm_phys_addr_def)

text \<open>The size of the page that covers an address, as vm_unmap_page determines it.\<close>

definition page_span :: "u64 \<Rightarrow> u64 \<Rightarrow> vm_state \<Rightarrow> u64" where
  "page_span p v s =
     (let e = ent s p; i4 = PML4T_INDEX v; i3 = PDPT_INDEX v; i2 = PDT_INDEX v in
      if present (e [i3, i4]) \<and> large (e [i3, i4]) then HUGE_PAGE_SIZE
      else if present (e [i2, i3, i4]) \<and> large (e [i2, i3, i4]) then LARGE_PAGE_SIZE
      else PAGE_SIZE)"

lemma vm_map_page_ok:
  assumes inv: "vm_inv p s" and fl: "page_flags (ucast flags)"
  shows "\<exists>r s'. vm_map_page p phys v flags s = Some (r, s') \<and> vm_inv p s' \<and>
    (\<forall>w. vm_phys_addr p w s' =
       (if r = Map_ok \<and> ALIGN_DOWN w PAGE_SIZE = ALIGN_DOWN v PAGE_SIZE
        then ALIGN_DOWN phys PAGE_SIZE OR (w AND (PAGE_SIZE - 1)) else vm_phys_addr p w s)) \<and>
    (r = Map_error EFAULT \<longleftrightarrow> \<not> canonical v)"
proof (cases "canonical v")
  case False
  then show ?thesis using inv by (simp add: vm_map_page_def Let_def)
next
  case v: True
  let ?i4 = "PML4T_INDEX v" and ?i3 = "PDPT_INDEX v" and ?i2 = "PDT_INDEX v" and ?fl = "ucast flags :: u64"
  obtain ok1 s1 where s1: "ensure_table p ?i4 ?fl s = Some (ok1, s1)" "vm_step p [?i4] s s1" "ok1 \<longrightarrow> present (entry s1 p ?i4)"
    using ensure_table_ok [OF inv _ _ _ fl, of "[]" ?i4 p] by auto
  show ?thesis
  proof (cases ok1)
    case False
    then show ?thesis using s1 v by (simp add: vm_map_page_def Let_def vm_step_def)
  next
    case ok1: True
    let ?pdpt = "table_at (entry s1 p ?i4)"
    have inv1: "vm_inv p s1" and x1: "\<And>w. vm_phys_addr p w s1 = vm_phys_addr p w s" using s1(2) by (simp_all add: vm_step_def)
    have t1: "tbl s1 p [?i4] = Some ?pdpt" using vm_step_trans_tbl [OF s1(2)] s1(3) ok1 by simp
    obtain ok2 s2 where s2: "ensure_table ?pdpt ?i3 ?fl s1 = Some (ok2, s2)" "vm_step p [?i3, ?i4] s1 s2"
        "ok2 \<longrightarrow> present (entry s2 ?pdpt ?i3)"
      using ensure_table_ok [OF inv1 _ _ t1 fl, of ?i3] by (auto simp: numeral_eq_Suc)
    have inv2: "vm_inv p s2" and x2: "\<And>w. vm_phys_addr p w s2 = vm_phys_addr p w s" using s2(2) x1 by (simp_all add: vm_step_def)
    show ?thesis
    proof (cases "ok2 \<and> \<not> large (entry s2 ?pdpt ?i3)")
      case False
      then show ?thesis using s1(1) s2(1) ok1 v inv2 x2 by (auto simp: vm_map_page_def Let_def)
    next
      case ok2: True
      let ?pdt = "table_at (entry s2 ?pdpt ?i3)"
      have t2: "tbl s2 p [?i3, ?i4] = Some ?pdt"
        using vm_step_trans_tbl [OF s2(2) _ _ t1] s2(3) ok2 by (simp add: numeral_eq_Suc)
      obtain ok3 s3 where s3: "ensure_table ?pdt ?i2 ?fl s2 = Some (ok3, s3)" "vm_step p [?i2, ?i3, ?i4] s2 s3"
          "ok3 \<longrightarrow> present (entry s3 ?pdt ?i2)"
        using ensure_table_ok [OF inv2 _ _ t2 fl, of ?i2] by (auto simp: numeral_eq_Suc)
      have inv3: "vm_inv p s3" and x3: "\<And>w. vm_phys_addr p w s3 = vm_phys_addr p w s" using s3(2) x2 by (simp_all add: vm_step_def)
      show ?thesis
      proof (cases "ok3 \<and> \<not> large (entry s3 ?pdt ?i2)")
        case False
        then show ?thesis using s1(1) s2(1) s3(1) ok1 ok2 v inv3 x3 by (auto simp: vm_map_page_def Let_def)
      next
        case ok3: True
        let ?x = "ALIGN_DOWN phys PAGE_SIZE OR PAGE_FLAG_PRESENT OR ?fl"
        have t3: "tbl s3 p [?i2, ?i3, ?i4] = Some (table_at (entry s3 ?pdt ?i2))"
          using vm_step_trans_tbl [OF s3(2) _ _ t2] s3(3) ok3 by (simp add: numeral_eq_Suc)
        have x: "present ?x" "ALIGN_DOWN ?x PAGE_SIZE = ALIGN_DOWN phys PAGE_SIZE"
          using leaf_entry [OF fl] by (simp_all add: or.assoc)
        show ?thesis using leaf_store [OF inv3 v refl t3, of ?x] x s1(1) s2(1) s3(1) ok1 ok2 ok3 v x3
          by (auto simp: vm_map_page_def Let_def)
      qed
    qed
  qed
qed

lemma vm_unmap_page_ok:
  assumes inv: "vm_inv p s" and v: "canonical v"
  shows "\<exists>s'. vm_unmap_page p v s = Inr s' \<and> vm_inv p s' \<and>
    (\<forall>w. vm_phys_addr p w s' = (if ALIGN_DOWN w (page_span p v s) = ALIGN_DOWN v (page_span p v s) then 0
       else vm_phys_addr p w s))"
proof -
  let ?i4 = "PML4T_INDEX v" and ?i3 = "PDPT_INDEX v" and ?i2 = "PDT_INDEX v" and ?i1 = "PT_INDEX v"
  let ?e4 = "ent s p [?i4]" and ?e3 = "ent s p [?i3, ?i4]" and ?e2 = "ent s p [?i2, ?i3, ?i4]"
  have un: "vm_unmap_page p v s =
     (if \<not> present ?e4 then Inr s
      else if \<not> present ?e3 then Inr s
      else if large ?e3 then Inr (set_entry (table_at ?e4) ?i3 0 s)
      else if \<not> present ?e2 then Inr s
      else if large ?e2 then Inr (set_entry (table_at ?e3) ?i2 0 s)
      else Inr (set_entry (table_at ?e2) ?i1 0 s))"
    using v by (simp add: vm_unmap_page_def Let_def no_table_def)
  note xl = vm_phys_addr_ent Let_def vpath_def page_span_def
  consider "\<not> present ?e4 \<or> \<not> present ?e3 \<or> \<not> large ?e3 \<and> \<not> present ?e2"
    | "present ?e4" "present ?e3" "large ?e3"
    | "present ?e4" "present ?e3" "\<not> large ?e3" "present ?e2" "large ?e2"
    | "present ?e4" "present ?e3" "\<not> large ?e3" "present ?e2" "\<not> large ?e2" by blast
  then show ?thesis
  proof cases
    case 1
    have e3: "\<not> present ?e4 \<Longrightarrow> ?e3 = 0" and e2: "\<not> present ?e3 \<Longrightarrow> ?e2 = 0" by (erule ent_below)+
    have "page_span p v s = PAGE_SIZE" using 1 e3 e2 by (auto simp: page_span_def Let_def simp del: ent.simps)
    moreover have "vm_phys_addr p w s = 0" if "ALIGN_DOWN w PAGE_SIZE = ALIGN_DOWN v PAGE_SIZE" for w
      using that 1 same_page(1) [OF v, of w] by (auto simp: xl simp del: ent.simps)
    moreover have "vm_unmap_page p v s = Inr s" using 1 e3 un by (auto simp del: ent.simps)
    ultimately show ?thesis using inv by auto
  next
    case 2
    then have t: "tbl s p [?i4] = Some (table_at ?e4)" by (simp only: tbl_ent no_table_def) simp
    let ?s' = "set_entry (table_at ?e4) ?i3 0 s"
    have u: "ent_upd p [?i3, ?i4] 0 s ?s'" "vm_inv p ?s'"
      using large_unmap [OF inv _ _ _ t, of ?i3] 2 t by (auto simp: numeral_eq_Suc)
    have "page_span p v s = HUGE_PAGE_SIZE" using 2 by (simp add: page_span_def Let_def del: ent.simps)
    moreover have "vm_phys_addr p w ?s' = (if ALIGN_DOWN w HUGE_PAGE_SIZE = ALIGN_DOWN v HUGE_PAGE_SIZE then 0
        else vm_phys_addr p w s)" for w
      using ent_upd_vpath [OF u(1), of _ w] same_page(3) [OF v, of w] by (auto simp: xl simp del: ent.simps)
    ultimately show ?thesis using u(2) un 2 by auto
  next
    case 3
    then have t: "tbl s p [?i3, ?i4] = Some (table_at ?e3)" by (simp only: tbl_ent no_table_def) simp
    let ?s' = "set_entry (table_at ?e3) ?i2 0 s"
    have u: "ent_upd p [?i2, ?i3, ?i4] 0 s ?s'" "vm_inv p ?s'"
      using large_unmap [OF inv _ _ _ t, of ?i2] 3 t by (auto simp: numeral_eq_Suc)
    have "page_span p v s = LARGE_PAGE_SIZE" using 3 by (simp add: page_span_def Let_def del: ent.simps)
    moreover have "vm_phys_addr p w ?s' = (if ALIGN_DOWN w LARGE_PAGE_SIZE = ALIGN_DOWN v LARGE_PAGE_SIZE then 0
        else vm_phys_addr p w s)" for w
    proof (cases "canonical w \<and> tl (vpath w) = tl (vpath v)")
      case True
      then have i: "PML4T_INDEX w = ?i4" "PDPT_INDEX w = ?i3" "PDT_INDEX w = ?i2" by (simp_all add: vpath_def)
      have "ent ?s' p [?i2, ?i3, ?i4] = 0" using ent_upd_vpath [OF u(1), of "[?i2, ?i3, ?i4]" v] by simp
      moreover have "ent ?s' p [?i3, ?i4] = ?e3" using ent_upd_vpath [OF u(1), of "[?i3, ?i4]" v] by simp
      ultimately have "vm_phys_addr p w ?s' = 0" using 3 by (simp add: vm_phys_addr_ent Let_def i del: ent.simps)
      then show ?thesis using True same_page(2) [OF v, of w] by simp
    next
      case False
      then have "vm_phys_addr p w ?s' = vm_phys_addr p w s"
        by (intro xlat_cong [OF u(1)]) (auto simp: vpath_def)
      then show ?thesis using False same_page(2) [OF v, of w] by (simp del: ent.simps) blast
    qed
    ultimately show ?thesis using u(2) un 3 by auto
  next
    case 4
    then have t: "tbl s p [?i2, ?i3, ?i4] = Some (table_at ?e2)" by (simp only: tbl_ent no_table_def) simp
    have "page_span p v s = PAGE_SIZE" using 4 by (simp add: page_span_def Let_def del: ent.simps)
    then show ?thesis using leaf_store [OF inv v refl t, of 0] un 4 by auto
  qed
qed

section \<open>Properties of the page tables\<close>

text \<open>
  C12: vm_map_page always returns, keeps the page structures well formed, and on success the page
  of the virtual address translates to the frame of the physical address, while every other
  address translates as before. When it fails, for a non-canonical address, a large page in
  the way or lack of memory, no translation has changed.
\<close>

theorem vm_map_page_spec:
  assumes inv: "vm_inv p s" and fl: "page_flags (ucast flags)"
  shows "\<exists>r s'. vm_map_page p phys v flags s = Some (r, s') \<and> vm_inv p s' \<and>
    (\<forall>w. vm_phys_addr p w s' =
       (if r = Map_ok \<and> ALIGN_DOWN w PAGE_SIZE = ALIGN_DOWN v PAGE_SIZE
        then ALIGN_DOWN phys PAGE_SIZE OR (w AND (PAGE_SIZE - 1)) else vm_phys_addr p w s)) \<and>
    (r = Map_error EFAULT \<longleftrightarrow> \<not> canonical v)"
  by (rule vm_map_page_ok [OF assms])

definition empty_space :: vm_state where
  "empty_space = \<lparr>vm_pages = \<lparr>phys_alloc_table = [1, 1, 0, 0, 0, 0, 0], next_phys_addr = 0x2000, mem_avail = True,
     mm_regions = [\<lparr>rg_base = 0, rg_len = 0x6000\<rparr>], mm_curr = 0\<rparr>, vm_cells = (\<lambda>_. 0)\<rparr>"

abbreviation empty_pml4t :: u64 where
  "empty_pml4t \<equiv> PHYS_REL 0x1000"

lemma empty_space_inv: "vm_inv empty_pml4t empty_space"
proof -
  have z: "entry empty_space t i = 0" for t i by (simp add: entry_def empty_space_def)
  have t: "tbl empty_space empty_pml4t q = (if q = [] then Some empty_pml4t else None)" for q
    by (induction q) (simp_all add: z)
  have "pa_inv (vm_pages empty_space)"
    by (simp add: pa_inv_def empty_space_def region_ok_def page_aligned_def frame_def)
  moreover have "table_frame empty_space empty_pml4t"
    unfolding table_frame_def by (rule exI [of _ "0x1000"]) (simp add: empty_space_def page_aligned_def frame_def)
  ultimately show ?thesis by (auto simp: vm_inv_def t split: if_splits)
qed

text \<open>A mapped page in the empty address space.\<close>

definition pages_at :: "u32 list \<Rightarrow> u64 \<Rightarrow> page_alloc" where
  "pages_at xs a = \<lparr>phys_alloc_table = xs, next_phys_addr = a, mem_avail = True,
     mm_regions = [\<lparr>rg_base = 0, rg_len = 0x6000\<rparr>], mm_curr = 0\<rparr>"

lemma pages_at_alloc:
  "alloc_page (pages_at [1, 1, 0, 0, 0, 0, 0] 0x2000) = Some (0x2000, pages_at [1, 1, 1, 0, 0, 0, 0] 0x3000)"
  "alloc_page (pages_at [1, 1, 1, 0, 0, 0, 0] 0x3000) = Some (0x3000, pages_at [1, 1, 1, 1, 0, 0, 0] 0x4000)"
  "alloc_page (pages_at [1, 1, 1, 1, 0, 0, 0] 0x4000) = Some (0x4000, pages_at [1, 1, 1, 1, 1, 0, 0] 0x5000)"
  by (subst alloc_page.simps, simp add: pages_at_def frame_def vm_next_page_def next_region.simps Let_def PAGE_SIZE_def)+

lemma page_mapped:
  "\<exists>s'. vm_map_page empty_pml4t 0x5000 0x400000 6 empty_space = Some (Map_ok, s') \<and>
     vm_pages s' = pages_at [1, 1, 1, 1, 1, 0, 0] 0x5000 \<and> page_span empty_pml4t 0x400000 s' = PAGE_SIZE"
proof -
  have e: "empty_space = \<lparr>vm_pages = pages_at [1, 1, 0, 0, 0, 0, 0] 0x2000, vm_cells = (\<lambda>_. 0)\<rparr>"
    by (simp add: empty_space_def pages_at_def)
  show ?thesis
    by (simp add: e vm_map_page_def ensure_table_def pages_at_alloc Let_def canonical_def PML4T_INDEX_def PDPT_INDEX_def PDT_INDEX_def
        PT_INDEX_def entry_def set_entry_def clear_struct_def present_def large_def table_at_def PHYS_REL_def page_span_def no_table_def
        LOW_PHYSICAL_BASE_VMA_def PAGE_STRUCT_SIZE_def PAGE_FLAG_PRESENT_def PAGE_FLAG_RW_def PAGE_FLAG_USER_def PAGE_FLAG_SIZE_def
        ALIGN_DOWN_def PAGE_SIZE_def drop_bit_eq_div)
qed

theorem vm_map_page_spec_witness:
  "\<exists>s'. vm_map_page empty_pml4t 0x5000 0x400000 6 empty_space = Some (Map_ok, s') \<and>
     vm_phys_addr empty_pml4t 0x400123 s' = 0x5123 \<and> vm_phys_addr empty_pml4t 0x401000 s' = 0"
proof -
  have "page_flags (ucast (6 :: u32))" by (simp add: page_flags_def bit_numeral_rec)
  moreover have "vm_phys_addr empty_pml4t w empty_space = 0" for w
    by (simp add: vm_phys_addr_def Let_def entry_def empty_space_def)
  ultimately show ?thesis using vm_map_page_spec [OF empty_space_inv, of 6 "0x5000" "0x400000"] page_mapped
    by (auto simp: ALIGN_DOWN_def PAGE_SIZE_def)
qed

text \<open>
  C13: vm_unmap_page removes exactly the page, large page or huge page that covers the address:
  addresses in it translate to 0 afterwards and all others as before. Only a non-canonical
  address is an error.
\<close>

theorem vm_unmap_page_spec:
  assumes inv: "vm_inv p s" and v: "canonical v"
  shows "\<exists>s'. vm_unmap_page p v s = Inr s' \<and> vm_inv p s' \<and>
    (\<forall>w. vm_phys_addr p w s' = (if ALIGN_DOWN w (page_span p v s) = ALIGN_DOWN v (page_span p v s) then 0
       else vm_phys_addr p w s))"
  by (rule vm_unmap_page_ok [OF assms])

theorem vm_unmap_page_spec_witness:
  "\<exists>s'. vm_unmap_page empty_pml4t 0x400000 empty_space = Inr s' \<and> vm_phys_addr empty_pml4t 0x400123 s' = 0"
proof -
  have z: "vm_phys_addr empty_pml4t w empty_space = 0" for w
    by (simp add: vm_phys_addr_def Let_def entry_def empty_space_def)
  have "canonical 0x400000" by (simp add: canonical_def PML4T_INDEX_def drop_bit_eq_div)
  then show ?thesis using vm_unmap_page_spec [OF empty_space_inv, of "0x400000"] z by auto
qed

end
