(* ===== verification/Pml_Space.thy ===== *)
theory Pml_Space
  imports Pml_Vm
begin

text \<open>
  Whole address spaces in arch/x86_64/mm.c: sharing and freeing all frames below a page
  structure, releasing user memory, the initial kernel address space, and the program break.
  Counts of frames and entries of page structures are separate parts of the state, so the loops
  that only change counts are written over the entries they read.
\<close>

section \<open>Sharing and freeing page structures\<close>

definition entries :: "vm_state \<Rightarrow> u64 \<Rightarrow> nat \<Rightarrow> u64 list" where
  "entries s t n = map (\<lambda>i. entry s t (word_of_nat i)) [0..<n]"

fun each_entry :: "(u64 \<Rightarrow> page_alloc \<Rightarrow> page_alloc option) \<Rightarrow> u64 list \<Rightarrow> page_alloc \<Rightarrow> page_alloc option" where
  "each_entry f [] pg = Some pg"
| "each_entry f (e # es) pg = Option.bind (f e pg) (each_entry f es)"

definition ref_pt :: "vm_state \<Rightarrow> u64 \<Rightarrow> page_alloc \<Rightarrow> page_alloc option" where
  "ref_pt s pt = each_entry (\<lambda>e pg. if present e then ref_page e pg else Some pg) (entries s pt PAGE_STRUCT_ENTRIES)"

definition ref_pdt :: "vm_state \<Rightarrow> u64 \<Rightarrow> page_alloc \<Rightarrow> page_alloc option" where
  "ref_pdt s pdt = each_entry
     (\<lambda>e pg. if present e \<and> \<not> large e then Option.bind (ref_page e pg) (ref_pt s (table_at e)) else Some pg)
     (entries s pdt PAGE_STRUCT_ENTRIES)"

definition ref_pdpt :: "vm_state \<Rightarrow> u64 \<Rightarrow> page_alloc \<Rightarrow> page_alloc option" where
  "ref_pdpt s pdpt = each_entry
     (\<lambda>e pg. if present e \<and> \<not> large e then Option.bind (ref_page e pg) (ref_pdt s (table_at e)) else Some pg)
     (entries s pdpt PAGE_STRUCT_ENTRIES)"

definition free_pt :: "vm_state \<Rightarrow> u64 \<Rightarrow> page_alloc \<Rightarrow> page_alloc option" where
  "free_pt s pt = each_entry (\<lambda>e pg. if present e then free_page e pg else Some pg) (entries s pt PAGE_STRUCT_ENTRIES)"

definition free_pdt :: "vm_state \<Rightarrow> u64 \<Rightarrow> page_alloc \<Rightarrow> page_alloc option" where
  "free_pdt s pdt = each_entry
     (\<lambda>e pg. if present e \<and> \<not> large e
             then Option.bind (free_pt s (table_at e) pg) (free_page (ALIGN_DOWN e PAGE_SIZE)) else Some pg)
     (entries s pdt PAGE_STRUCT_ENTRIES)"

definition free_pdpt :: "vm_state \<Rightarrow> u64 \<Rightarrow> page_alloc \<Rightarrow> page_alloc option" where
  "free_pdpt s pdpt = each_entry
     (\<lambda>e pg. if present e \<and> \<not> large e
             then Option.bind (free_pdt s (table_at e) pg) (free_page (ALIGN_DOWN e PAGE_SIZE)) else Some pg)
     (entries s pdpt PAGE_STRUCT_ENTRIES)"

text \<open>One step of vm_unmap_user_mem, and its loop over the lower half of the PML4T.\<close>

definition unmap_user_entry :: "u64 \<Rightarrow> u64 \<Rightarrow> vm_state \<Rightarrow> vm_state option" where
  "unmap_user_entry pml4t i s =
     (let e = entry s pml4t i; pdpt = ALIGN_DOWN e PAGE_SIZE in
      if present e
      then map_option (\<lambda>pg. set_entry pml4t i 0 (s\<lparr>vm_pages := pg\<rparr>))
             (Option.bind (free_pdpt s (PHYS_REL pdpt) (vm_pages s)) (free_page pdpt))
      else Some s)"

primrec unmap_user_loop :: "u64 \<Rightarrow> u64 list \<Rightarrow> vm_state \<Rightarrow> vm_state option" where
  "unmap_user_loop pml4t [] s = Some s"
| "unmap_user_loop pml4t (i # is) s = Option.bind (unmap_user_entry pml4t i s) (unmap_user_loop pml4t is)"

definition vm_unmap_user_mem :: "u64 \<Rightarrow> vm_state \<Rightarrow> vm_state option" where
  "vm_unmap_user_mem pml4t = unmap_user_loop pml4t (map word_of_nat [0..<PAGE_STRUCT_ENTRIES div 2])"

section \<open>The program break\<close>

record brk =
  brk_base :: u64
  brk_curr :: u64
  brk_max :: u64

text \<open>The loops may run for ever only if the address wraps around; \<open>None\<close> also stands for that.\<close>

partial_function (option) brk_shrink_loop :: "u64 \<Rightarrow> u64 \<Rightarrow> u64 \<Rightarrow> u64 \<Rightarrow> vm_state \<Rightarrow> vm_state option" where
  "brk_shrink_loop pml4t addr top_addr i s =
     (if i < top_addr
      then Option.bind
             (let phys_addr = vm_phys_addr pml4t addr s in
              if phys_addr \<noteq> 0 then map_option (\<lambda>pg. s\<lparr>vm_pages := pg\<rparr>) (free_page phys_addr (vm_pages s)) else Some s)
             (\<lambda>s. brk_shrink_loop pml4t addr top_addr (i + PAGE_SIZE)
                (case vm_unmap_page pml4t addr s of Inl _ \<Rightarrow> s | Inr s' \<Rightarrow> s'))
      else Some s)"

partial_function (option) brk_grow_loop :: "u64 \<Rightarrow> u64 \<Rightarrow> u64 \<Rightarrow> vm_state \<Rightarrow> (bool \<times> vm_state) option" where
  "brk_grow_loop pml4t top_addr i s =
     (if i < top_addr
      then Option.bind (alloc_page (vm_pages s)) (\<lambda>(phys_addr, pg).
             if phys_addr = 0 then Some (False, s\<lparr>vm_pages := pg\<rparr>)
             else Option.bind (vm_map_page pml4t phys_addr i 6 (s\<lparr>vm_pages := pg\<rparr>)) (\<lambda>(r, s).
               if r \<noteq> Map_ok then Some (False, s) else brk_grow_loop pml4t top_addr (i + PAGE_SIZE) s))
      else Some (True, s))"

definition sys_brk :: "u64 \<Rightarrow> u64 \<Rightarrow> brk \<Rightarrow> vm_state \<Rightarrow> ((errno + unit) \<times> brk \<times> vm_state) option" where
  "sys_brk pml4t addr b s =
     (if addr < brk_base b then Some (Inl ENOMEM, b, s)
      else if brk_base b + brk_max b < addr then Some (Inl ENOMEM, b, s)
      else if addr < brk_curr b
      then map_option (\<lambda>s. (Inr (), b\<lparr>brk_curr := ALIGN_UP addr PAGE_SIZE\<rparr>, s))
             (brk_shrink_loop pml4t addr (brk_curr b) (ALIGN_UP addr PAGE_SIZE) s)
      else map_option (\<lambda>(ok, s). if ok then (Inr (), b\<lparr>brk_curr := ALIGN_UP addr PAGE_SIZE\<rparr>, s) else (Inl ENOMEM, b, s))
             (brk_grow_loop pml4t (ALIGN_UP addr PAGE_SIZE) (brk_curr b) s))"

definition sys_sbrk :: "u64 \<Rightarrow> u64 \<Rightarrow> brk \<Rightarrow> vm_state \<Rightarrow> ((errno + u64) \<times> brk \<times> vm_state) option" where
  "sys_sbrk pml4t incr b s =
     map_option (\<lambda>(r, b', s'). (case r of Inl e \<Rightarrow> Inl e | Inr _ \<Rightarrow> Inr (brk_curr b), b', s'))
       (sys_brk pml4t (brk_curr b + incr) b s)"

section \<open>Start-up\<close>

text \<open>
  The addresses the linker gives to the page structures of the kernel, and the entries vm_init
  stores. The order of the stores is that of the code.
\<close>

record kernel_syms =
  ks_pml4t :: u64
  ks_alloc_space_pdpt :: u64
  ks_phys_map_pdpt :: u64
  ks_thread_local_pdpt :: u64
  ks_stack_pdt :: u64
  ks_stack_pt :: u64
  ks_boot_stack :: u64
  ks_kernel_end :: u64

definition PAGE_FLAG_GLOBAL :: u64 where "PAGE_FLAG_GLOBAL = 0x100"
definition THREAD_LOCAL_BASE_VMA :: u64 where "THREAD_LOCAL_BASE_VMA = 0xfffffd0000000000"

primrec set_entries :: "u64 \<Rightarrow> (nat \<Rightarrow> u64) \<Rightarrow> (nat \<Rightarrow> u64) \<Rightarrow> nat \<Rightarrow> vm_state \<Rightarrow> vm_state" where
  "set_entries t ix f 0 s = s"
| "set_entries t ix f (Suc n) s = set_entry t (ix n) (f n) (set_entries t ix f n s)"

definition vm_init_tables :: "kernel_syms \<Rightarrow> vm_state \<Rightarrow> vm_state" where
  "vm_init_tables k s =
     (let s = set_entry (ks_pml4t k) 507
                ((ks_alloc_space_pdpt k - KERNEL_VMA) OR PAGE_FLAG_PRESENT OR PAGE_FLAG_RW OR PAGE_FLAG_GLOBAL) s;
          s = set_entries (ks_pml4t k) (\<lambda>i. word_of_nat (i + 508))
                (\<lambda>i. (ks_phys_map_pdpt k + 8 * word_of_nat (i * PAGE_STRUCT_ENTRIES) - KERNEL_VMA)
                       OR PAGE_FLAG_PRESENT OR PAGE_FLAG_RW OR PAGE_FLAG_GLOBAL) 4 s;
          s = set_entries (ks_phys_map_pdpt k) word_of_nat
                (\<lambda>i. (word_of_nat i * HUGE_PAGE_SIZE) OR PAGE_FLAG_PRESENT OR PAGE_FLAG_RW OR PAGE_FLAG_SIZE OR PAGE_FLAG_GLOBAL)
                (PAGE_STRUCT_ENTRIES * 4) s;
          s = set_entry (ks_pml4t k) (PML4T_INDEX THREAD_LOCAL_BASE_VMA)
                ((ks_thread_local_pdpt k - KERNEL_VMA) OR PAGE_FLAG_PRESENT OR PAGE_FLAG_RW OR PAGE_FLAG_USER) s;
          s = set_entry (ks_thread_local_pdpt k) 511
                ((ks_stack_pdt k - KERNEL_VMA) OR PAGE_FLAG_PRESENT OR PAGE_FLAG_RW OR PAGE_FLAG_USER) s;
          s = set_entry (ks_stack_pdt k) 511
                ((ks_stack_pt k - KERNEL_VMA) OR PAGE_FLAG_PRESENT OR PAGE_FLAG_RW OR PAGE_FLAG_USER) s
      in set_entries (ks_stack_pt k) (\<lambda>i. word_of_nat (i + 256))
           (\<lambda>i. (ks_boot_stack k + word_of_nat i * PAGE_SIZE - KERNEL_VMA) OR PAGE_FLAG_PRESENT OR PAGE_FLAG_RW OR PAGE_FLAG_USER)
           256 s)"

text \<open>
  The rest of vm_init: the table of counts follows the kernel image, and the search starts
  behind it. The table itself is \<open>counts\<close>, what memory holds there.
\<close>

definition vm_init :: "kernel_syms \<Rightarrow> u64 \<Rightarrow> u32 list \<Rightarrow> vm_state \<Rightarrow> vm_state" where
  "vm_init k total_phys_mem counts s =
     (let s = vm_init_tables k s;
          nxt = ALIGN_UP (ks_kernel_end k) PAGE_SIZE - KERNEL_VMA + total_phys_mem div PAGE_SIZE * 4
      in s\<lparr>vm_pages := (vm_pages s)\<lparr>next_phys_addr := ALIGN_UP nxt PAGE_SIZE, mem_avail := True, phys_alloc_table := counts\<rparr>\<rparr>)"

text \<open>Clearing \<open>n\<close> bytes of a table of 32-bit counts in the byte order of the machine.\<close>

definition clear_bytes :: "nat \<Rightarrow> u32 list \<Rightarrow> u32 list" where
  "clear_bytes n xs = map (\<lambda>i. if 4 * Suc i \<le> n then 0 else if 4 * i < n then xs ! i AND NOT (mask (8 * (n mod 4))) else xs ! i)
     [0..<length xs]"

definition mark_resv_mem_alloc :: "u64 \<Rightarrow> page_alloc \<Rightarrow> page_alloc option" where
  "mark_resv_mem_alloc total_phys_mem pg =
     (let n = unat (next_phys_addr pg div PAGE_SIZE); k = unat ((total_phys_mem - next_phys_addr pg) div PAGE_SIZE) in
      if length (phys_alloc_table pg) < n \<or> 4 * length (phys_alloc_table pg) < 4 * n + k then None
      else Some (pg\<lparr>phys_alloc_table := replicate n 1 @ clear_bytes k (drop n (phys_alloc_table pg))\<rparr>))"

section \<open>Counting references\<close>

definition refs :: "u64 list \<Rightarrow> nat \<Rightarrow> nat" where
  "refs es k = length (filter (\<lambda>e. present e \<and> frame e = k) es)"

lemma refs_simps [simp]:
  "refs [] k = 0" "refs (e # es) k = (if present e \<and> frame e = k then Suc (refs es k) else refs es k)"
  by (simp_all add: refs_def)

lemma present_nonzero: "present e \<Longrightarrow> e \<noteq> 0"
  by auto

text \<open>
  \<open>counts_shift f pg pg'\<close>: the allocator states differ in the counts only (and in the search
  pointer), and the counts are those given by \<open>f\<close>.
\<close>

definition counts_shift :: "(nat \<Rightarrow> u32 \<Rightarrow> u32) \<Rightarrow> page_alloc \<Rightarrow> page_alloc \<Rightarrow> bool" where
  "counts_shift f pg pg' \<longleftrightarrow> pa_inv pg' \<and> length (phys_alloc_table pg') = length (phys_alloc_table pg) \<and>
     (\<forall>k < length (phys_alloc_table pg). phys_alloc_table pg' ! k = f k (phys_alloc_table pg ! k))"

lemma each_ref:
  assumes "pa_inv pg" and "\<And>e. e \<in> set es \<Longrightarrow> present e \<Longrightarrow> frame e < length (phys_alloc_table pg) \<and>
      0 < unat (phys_alloc_table pg ! frame e) \<and> unat (phys_alloc_table pg ! frame e) + length es < 2 ^ 32"
  shows "\<exists>pg'. each_entry (\<lambda>e pg. if present e then ref_page e pg else Some pg) es pg = Some pg' \<and>
     counts_shift (\<lambda>k n. n + word_of_nat (refs es k)) pg pg'"
  using assms
proof (induction es arbitrary: pg)
  case Nil
  then show ?case by (simp add: counts_shift_def)
next
  case (Cons e es)
  show ?case
  proof (cases "present e")
    case True
    let ?n = "phys_alloc_table pg ! frame e"
    have e: "frame e < length (phys_alloc_table pg)" "0 < unat ?n" "unat ?n + length (e # es) < 2 ^ 32" using Cons.prems(2) [of e] True by auto
    have "?n \<noteq> 0" using e(2) by auto
    then obtain p1 where p1: "ref_page e pg = Some p1" "pa_inv p1" "phys_alloc_table p1 = (phys_alloc_table pg)[frame e := ?n + 1]"
      using ref_page_ok [OF Cons.prems(1) present_nonzero [OF True] e(1)] by blast
    have n1: "unat (?n + 1) = Suc (unat ?n)" using e(3) by (simp add: unat_word_ariths)
    have "frame d < length (phys_alloc_table p1) \<and> 0 < unat (phys_alloc_table p1 ! frame d) \<and>
        unat (phys_alloc_table p1 ! frame d) + length es < 2 ^ 32" if "d \<in> set es" "present d" for d
      using Cons.prems(2) [of d] that p1(3) n1 e by (auto simp: nth_list_update)
    then obtain p2 where "each_entry (\<lambda>e pg. if present e then ref_page e pg else Some pg) es p1 = Some p2"
      "counts_shift (\<lambda>k n. n + word_of_nat (refs es k)) p1 p2" using Cons.IH [OF p1(2)] by blast
    then show ?thesis using p1 True e(1) by (auto simp: counts_shift_def nth_list_update algebra_simps)
  next
    case False
    have "\<exists>pg'. each_entry (\<lambda>e pg. if present e then ref_page e pg else Some pg) es pg = Some pg' \<and>
       counts_shift (\<lambda>k n. n + word_of_nat (refs es k)) pg pg'"
      using Cons.IH [OF Cons.prems(1)] Cons.prems(2) by fastforce
    then show ?thesis using False by simp
  qed
qed

lemma each_free:
  assumes "pa_inv pg" and "\<And>e. e \<in> set es \<Longrightarrow> present e \<Longrightarrow> frame e < length (phys_alloc_table pg) \<and>
      refs es (frame e) < unat (phys_alloc_table pg ! frame e)"
  shows "\<exists>pg'. each_entry (\<lambda>e pg. if present e then free_page e pg else Some pg) es pg = Some pg' \<and>
     counts_shift (\<lambda>k n. n - word_of_nat (refs es k)) pg pg'"
  using assms
proof (induction es arbitrary: pg)
  case Nil
  then show ?case by (simp add: counts_shift_def)
next
  case (Cons e es)
  show ?case
  proof (cases "present e")
    case True
    let ?n = "phys_alloc_table pg ! frame e"
    have e: "frame e < length (phys_alloc_table pg)" "Suc (refs es (frame e)) < unat ?n" using Cons.prems(2) [of e] True by auto
    then have nz: "?n \<noteq> 0" by auto
    then obtain p1 where p1: "free_page e pg = Some p1" "pa_inv p1" "phys_alloc_table p1 = (phys_alloc_table pg)[frame e := ?n - 1]"
      using free_page_ok [OF Cons.prems(1) present_nonzero [OF True] e(1)] by auto
    have n1: "unat (?n - 1) = unat ?n - 1" using nz by (simp add: unat_minus_one)
    have "frame d < length (phys_alloc_table p1) \<and> refs es (frame d) < unat (phys_alloc_table p1 ! frame d)"
      if "d \<in> set es" "present d" for d
      using Cons.prems(2) [of d] that p1(3) n1 e by (auto simp: nth_list_update split: if_splits)
    then obtain p2 where "each_entry (\<lambda>e pg. if present e then free_page e pg else Some pg) es p1 = Some p2"
      "counts_shift (\<lambda>k n. n - word_of_nat (refs es k)) p1 p2" using Cons.IH [OF p1(2)] by blast
    then show ?thesis using p1 True e(1) by (auto simp: counts_shift_def nth_list_update algebra_simps)
  next
    case False
    have "\<exists>pg'. each_entry (\<lambda>e pg. if present e then free_page e pg else Some pg) es pg = Some pg' \<and>
       counts_shift (\<lambda>k n. n - word_of_nat (refs es k)) pg pg'"
      using Cons.IH [OF Cons.prems(1)] Cons.prems(2) False by simp
    then show ?thesis using False by simp
  qed
qed

section \<open>Releasing user memory\<close>

text \<open>The structures of an address space are page frames, and the PML4T is not at the same time one of those below it.\<close>

definition root_inv :: "u64 \<Rightarrow> vm_state \<Rightarrow> bool" where
  "root_inv p s \<longleftrightarrow> (\<forall>q t. path 3 q \<longrightarrow> tbl s p q = Some t \<longrightarrow> struct_at t) \<and> (\<forall>q. path 3 q \<longrightarrow> tbl s p q = Some p \<longrightarrow> q = [])"

lemma root_invD:
  assumes "root_inv p s" "path 3 q"
  shows "tbl s p q = Some t \<Longrightarrow> struct_at t" "tbl s p q = Some p \<Longrightarrow> q = []"
  using assms unfolding root_inv_def by blast+

lemma tbl_inv_root: "tbl_inv p s \<Longrightarrow> root_inv p s"
  unfolding root_inv_def using tbl_invD(1) [of p s] tbl_invD(2) [of p s _ "[]" p] by auto

text \<open>Clearing an entry of the PML4T cuts off every path through it and no other.\<close>

lemma clear_pml4e:
  assumes inv: "root_inv p s" and i: "i < 512"
  shows "path 4 r \<Longrightarrow> r \<noteq> [] \<Longrightarrow> ent (set_entry p i 0 s) p r = (if last r = i then 0 else ent s p r)"
proof (induction r)
  case (Cons j r)
  let ?s = "set_entry p i 0 s"
  have p: "struct_at p" using root_invD(1) [OF inv, of "[]" p] by simp
  have j: "j < 512" and r: "path 3 r" using Cons.prems by (simp_all add: numeral_eq_Suc)
  have r4: "path 4 r" using r by (rule path_mono) simp
  show ?case
  proof (cases r)
    case Nil
    then show ?thesis using entry_set_entry [OF p p i j] by simp
  next
    case (Cons k q)
    then have e: "ent ?s p (k # q) = (if last r = i then 0 else ent s p (k # q))" using Cons.IH r4 by simp
    show ?thesis
    proof (cases "last r = i")
      case True
      then have "\<not> present (ent ?s p (k # q))" using e by simp
      then show ?thesis using True Cons ent_below by simp
    next
      case False
      then have t: "tbl ?s p r = tbl s p r" using e unfolding Cons tbl_ent by simp
      have "entry ?s u j = entry s u j" if "tbl s p r = Some u" for u
        using entry_set_entry [OF p root_invD(1) [OF inv r that] i j] root_invD(2) [OF inv r] that Cons by auto
      then show ?thesis using False Cons t by (auto split: option.splits)
    qed
  qed
qed simp

lemma clear_pml4e_tbl:
  assumes inv: "root_inv p s" and i: "i < 512" and r: "path 3 r"
  shows "tbl (set_entry p i 0 s) p r = (if r \<noteq> [] \<and> last r = i then None else tbl s p r)"
proof (cases r)
  case (Cons k q)
  have "path 4 r" using r by (rule path_mono) simp
  then have "ent (set_entry p i 0 s) p (k # q) = (if last r = i then 0 else ent s p (k # q))"
    using clear_pml4e [OF inv i, of "k # q"] Cons by simp
  then show ?thesis unfolding Cons tbl_ent by simp
qed simp

lemma clear_pml4e_inv: "root_inv p s \<Longrightarrow> i < 512 \<Longrightarrow> root_inv p (set_entry p i 0 s)"
  unfolding root_inv_def [of p "set_entry p i 0 s"]
proof (intro conjI allI impI)
  assume inv: "root_inv p s" "i < 512"
  show "struct_at t" if "path 3 q" "tbl (set_entry p i 0 s) p q = Some t" for q t
    using that clear_pml4e_tbl [OF inv that(1)] root_invD(1) [OF inv(1) that(1)] by (auto split: if_splits)
  show "q = []" if "path 3 q" "tbl (set_entry p i 0 s) p q = Some p" for q
    using that clear_pml4e_tbl [OF inv that(1)] root_invD(2) [OF inv(1) that(1)] by (auto split: if_splits)
qed

text \<open>
  Freeing returns as long as every entry of the lower half names a frame of the table of counts. The upper half may map
  memory that is not counted, as the kernel does with all of physical memory.\<close>

definition alloc_ok :: "nat \<Rightarrow> page_alloc \<Rightarrow> bool" where
  "alloc_ok n pg \<longleftrightarrow> pa_inv pg \<and> length (phys_alloc_table pg) = n"

definition frames_ok :: "u64 \<Rightarrow> nat \<Rightarrow> vm_state \<Rightarrow> bool" where
  "frames_ok p n s \<longleftrightarrow> (\<forall>r. path 4 r \<longrightarrow> r \<noteq> [] \<longrightarrow> last r < 256 \<longrightarrow> present (ent s p r) \<longrightarrow> frame (ent s p r) < n)"

lemma frames_okD: "frames_ok p n s \<Longrightarrow> path 4 (i # q) \<Longrightarrow> q \<noteq> [] \<Longrightarrow> last q < 256 \<Longrightarrow> present (ent s p (i # q)) \<Longrightarrow> frame (ent s p (i # q)) < n"
  unfolding frames_ok_def by (metis last_ConsR list.distinct(1))

lemma free_page_total: "alloc_ok n pg \<Longrightarrow> frame e < n \<Longrightarrow> \<exists>pg'. free_page e pg = Some pg' \<and> alloc_ok n pg'"
  using free_page_ok [of pg e] by (cases "e = 0") (auto simp: alloc_ok_def free_page_def)

lemma each_entry_total:
  assumes "alloc_ok n pg"
    and "\<And>e pg. e \<in> set es \<Longrightarrow> alloc_ok n pg \<Longrightarrow> \<exists>pg'. f e pg = Some pg' \<and> alloc_ok n pg'"
  shows "\<exists>pg'. each_entry f es pg = Some pg' \<and> alloc_ok n pg'"
  using assms
proof (induction es arbitrary: pg)
  case (Cons e es)
  obtain p1 where p1: "f e pg = Some p1" "alloc_ok n p1" using Cons.prems(2) [of e pg] Cons.prems(1) by auto
  then have "\<exists>pg'. each_entry f es p1 = Some pg' \<and> alloc_ok n pg'" using Cons.IH Cons.prems(2) by simp
  then show ?case using p1 by simp
qed simp

lemma entries_path:
  assumes "tbl s p q = Some t" and "path 3 q" and "e \<in> set (entries s t PAGE_STRUCT_ENTRIES)"
  obtains i where "i < 512" "e = ent s p (i # q)" "path 4 (i # q)"
proof -
  obtain k where k: "k < 512" "e = entry s t (word_of_nat k)" using assms(3) by (auto simp: entries_def PAGE_STRUCT_ENTRIES_def)
  have "(word_of_nat k :: u64) < 512" using k(1) by (simp add: word_less_nat_alt unat_of_nat)
  then show ?thesis using that [of "word_of_nat k"] k assms by (simp add: numeral_eq_Suc)
qed

lemma free_pt_total:
  assumes "frames_ok p n s" and "path 3 q" and "tbl s p q = Some t" and "alloc_ok n pg" and user: "q \<noteq> []" "last q < 256"
  shows "\<exists>pg'. free_pt s t pg = Some pg' \<and> alloc_ok n pg'"
  unfolding free_pt_def
proof (rule each_entry_total [OF assms(4)])
  fix e pg assume e: "e \<in> set (entries s t PAGE_STRUCT_ENTRIES)" and ok: "alloc_ok n pg"
  then have "present e \<Longrightarrow> frame e < n" using entries_path [OF assms(3,2) e] frames_okD [OF assms(1) _ user] by metis
  then show "\<exists>pg'. (if present e then free_page e pg else Some pg) = Some pg' \<and> alloc_ok n pg'"
    using ok free_page_total by auto
qed

lemma free_table_step:
  assumes fo: "frames_ok p n s" and q: "path 2 q" and t: "tbl s p q = Some t" and user: "q \<noteq> []" "last q < 256"
    and e: "e \<in> set (entries s t PAGE_STRUCT_ENTRIES)" "present e" "\<not> large e"
  obtains i where "i < 512" "tbl s p (i # q) = Some (table_at e)" "path 3 (i # q)" "frame (ALIGN_DOWN e PAGE_SIZE) < n" "last (i # q) < 256"
proof -
  have q3: "path 3 q" using q by (rule path_mono) simp
  obtain i where i: "i < 512" "e = ent s p (i # q)" "path 4 (i # q)" using entries_path [OF t q3 e(1)] by blast
  then have "frame e < n" using frames_okD [OF fo _ user] e(2) by metis
  moreover have "tbl s p (i # q) = Some (table_at e)" using e(2,3) i(2) by (simp only: tbl_ent no_table_def) simp
  moreover have "path 3 (i # q)" using i(1) q by (simp add: numeral_eq_Suc)
  ultimately show ?thesis using that i(1) user by simp
qed

lemma free_pdt_total:
  assumes "frames_ok p n s" and "path 2 q" and "q \<noteq> []" and "tbl s p q = Some t" and "alloc_ok n pg" and user: "last q < 256"
  shows "\<exists>pg'. free_pdt s t pg = Some pg' \<and> alloc_ok n pg'"
  unfolding free_pdt_def
proof (rule each_entry_total [OF assms(5)])
  fix e pg assume e: "e \<in> set (entries s t PAGE_STRUCT_ENTRIES)" and ok: "alloc_ok n pg"
  show "\<exists>pg'. (if present e \<and> \<not> large e then Option.bind (free_pt s (table_at e) pg) (free_page (ALIGN_DOWN e PAGE_SIZE))
       else Some pg) = Some pg' \<and> alloc_ok n pg'"
  proof (cases "present e \<and> \<not> large e")
    case True
    obtain i where i: "tbl s p (i # q) = Some (table_at e)" "path 3 (i # q)" "frame (ALIGN_DOWN e PAGE_SIZE) < n" "last (i # q) < 256"
      using free_table_step [OF assms(1,2,4,3) user e] True by blast
    obtain p1 where "free_pt s (table_at e) pg = Some p1" "alloc_ok n p1" using free_pt_total [OF assms(1) i(2,1) ok _ i(4)] by blast
    then show ?thesis using True free_page_total [OF _ i(3)] by auto
  qed (use ok in auto)
qed

lemma free_pdpt_total:
  assumes "frames_ok p n s" and "path 1 q" and "q \<noteq> []" and "tbl s p q = Some t" and "alloc_ok n pg" and user: "last q < 256"
  shows "\<exists>pg'. free_pdpt s t pg = Some pg' \<and> alloc_ok n pg'"
  unfolding free_pdpt_def
proof (rule each_entry_total [OF assms(5)])
  fix e pg assume e: "e \<in> set (entries s t PAGE_STRUCT_ENTRIES)" and ok: "alloc_ok n pg"
  have q2: "path 2 q" using assms(2) by (rule path_mono) simp
  show "\<exists>pg'. (if present e \<and> \<not> large e then Option.bind (free_pdt s (table_at e) pg) (free_page (ALIGN_DOWN e PAGE_SIZE))
       else Some pg) = Some pg' \<and> alloc_ok n pg'"
  proof (cases "present e \<and> \<not> large e")
    case True
    obtain i where i: "i < 512" "tbl s p (i # q) = Some (table_at e)" "frame (ALIGN_DOWN e PAGE_SIZE) < n" "last (i # q) < 256"
      using free_table_step [OF assms(1) q2 assms(4,3) user e] True by blast
    have "path 2 (i # q)" using i(1) assms(2) by (simp add: numeral_eq_Suc)
    then obtain p1 where "free_pdt s (table_at e) pg = Some p1" "alloc_ok n p1"
      using free_pdt_total [OF assms(1) _ _ i(2) ok i(4)] by blast
    then show ?thesis using True free_page_total [OF _ i(3)] by auto
  qed (use ok in auto)
qed

text \<open>\<open>cut_off p is s s'\<close>: the entries of \<open>s'\<close> are those of \<open>s\<close> but for the paths through \<open>is\<close>, which are cut off.\<close>

definition cut_off :: "u64 \<Rightarrow> u64 set \<Rightarrow> vm_state \<Rightarrow> vm_state \<Rightarrow> bool" where
  "cut_off p is s s' \<longleftrightarrow>
     (\<forall>r. path 4 r \<longrightarrow> r \<noteq> [] \<longrightarrow> ent s' p r = ent s p r \<or> ent s' p r = 0) \<and>
     (\<forall>r. path 4 r \<longrightarrow> r \<noteq> [] \<longrightarrow> last r \<notin> is \<longrightarrow> ent s' p r = ent s p r) \<and>
     (\<forall>i \<in> is. \<not> present (ent s' p [i]))"

definition space_ok :: "u64 \<Rightarrow> nat \<Rightarrow> vm_state \<Rightarrow> bool" where
  "space_ok p n s \<longleftrightarrow> root_inv p s \<and> frames_ok p n s \<and> alloc_ok n (vm_pages s)"

lemma root_inv_pages: "root_inv p (s\<lparr>vm_pages := pg\<rparr>) = root_inv p s"
  by (simp add: root_inv_def tbl_pages)

lemma unmap_user_entry_ok:
  assumes ok: "space_ok p n s" and user: "i < 256"
  shows "\<exists>s'. unmap_user_entry p i s = Some s' \<and> space_ok p n s' \<and> cut_off p {i} s s'"
proof (cases "present (entry s p i)")
  case False
  then show ?thesis using ok by (simp add: unmap_user_entry_def cut_off_def)
next
  case True
  let ?e = "entry s p i"
  have i: "i < 512" using user by (simp add: word_less_nat_alt)
  have s: "root_inv p s" "frames_ok p n s" "alloc_ok n (vm_pages s)" using ok by (simp_all add: space_ok_def)
  have t: "tbl s p [i] = Some (table_at ?e)" using True by (simp add: no_table_def)
  have "path 4 [i]" "path 1 [i]" using i by (simp_all add: numeral_eq_Suc)
  then have f: "frame (ALIGN_DOWN ?e PAGE_SIZE) < n" using s(2) True user by (auto simp: frames_ok_def)
  obtain p1 where p1: "free_pdpt s (table_at ?e) (vm_pages s) = Some p1" "alloc_ok n p1"
    using free_pdpt_total [OF s(2) \<open>path 1 [i]\<close> _ t s(3)] user by auto
  obtain p2 where p2: "free_page (ALIGN_DOWN ?e PAGE_SIZE) p1 = Some p2" "alloc_ok n p2" using free_page_total [OF p1(2) f] by blast
  let ?s' = "set_entry p i 0 (s\<lparr>vm_pages := p2\<rparr>)"
  have inv': "root_inv p (s\<lparr>vm_pages := p2\<rparr>)" using s(1) by (simp add: root_inv_pages)
  have e: "ent ?s' p r = (if last r = i then 0 else ent s p r)" if "path 4 r" "r \<noteq> []" for r
    using clear_pml4e [OF inv' i that] by (simp add: ent_pages del: ent.simps)
  have "cut_off p {i} s ?s'" unfolding cut_off_def using e [OF \<open>path 4 [i]\<close>] e by (auto simp del: ent.simps)
  moreover have "frames_ok p n ?s'" using s(2) e by (auto simp: frames_ok_def simp del: ent.simps split: if_splits)
  ultimately have "space_ok p n ?s' \<and> cut_off p {i} s ?s'"
    using clear_pml4e_inv [OF inv' i] p2(2) by (simp add: space_ok_def set_entry_def)
  moreover have "unmap_user_entry p i s = Some ?s'" using True p1(1) p2(1) by (simp add: unmap_user_entry_def Let_def table_at_def)
  ultimately show ?thesis by blast
qed

lemma unmap_user_loop_ok:
  "space_ok p n s \<Longrightarrow> \<forall>i \<in> set is. i < 256 \<Longrightarrow>
   \<exists>s'. unmap_user_loop p is s = Some s' \<and> space_ok p n s' \<and> cut_off p (set is) s s'"
proof (induction "is" arbitrary: s)
  case Nil
  then show ?case by (simp add: cut_off_def)
next
  case (Cons i "is")
  obtain s1 where s1: "unmap_user_entry p i s = Some s1" "space_ok p n s1" "cut_off p {i} s s1"
    using unmap_user_entry_ok [OF Cons.prems(1), of i] Cons.prems(2) by auto
  obtain s2 where s2: "unmap_user_loop p is s1 = Some s2" "space_ok p n s2" "cut_off p (set is) s1 s2"
    using Cons.IH [OF s1(2)] Cons.prems by auto
  have "i < 512" using Cons.prems by (simp add: word_less_nat_alt)
  then have "path 4 [i]" by (simp add: numeral_eq_Suc)
  then have "ent s2 p [i] = ent s1 p [i] \<or> ent s2 p [i] = 0" using s2(3) unfolding cut_off_def by blast
  then have "\<not> present (ent s2 p [i])" using s1(3) unfolding cut_off_def by auto
  then have "cut_off p (set (i # is)) s s2" using s1(3) s2(3) unfolding cut_off_def by (auto simp del: ent.simps) metis+
  then show ?case using s1(1) s2 by simp
qed

section \<open>Moving the program break\<close>

lemma page_range:
  assumes "page_aligned i"
  shows "ALIGN_DOWN w PAGE_SIZE = ALIGN_DOWN i PAGE_SIZE \<longleftrightarrow> i \<le> w \<and> unat w < unat i + 4096"
proof -
  have "ALIGN_DOWN w PAGE_SIZE = ALIGN_DOWN i PAGE_SIZE \<longleftrightarrow> unat (ALIGN_DOWN w PAGE_SIZE) = unat (ALIGN_DOWN i PAGE_SIZE)"
    using word_eq_by_unat by metis
  also have "\<dots> \<longleftrightarrow> frame w = frame i" by (simp add: unat_page_down frame_def)
  also have "\<dots> \<longleftrightarrow> unat i \<le> unat w \<and> unat w < unat i + 4096"
  proof -
    have "unat w = 4096 * frame w + unat w mod 4096" "unat w mod 4096 < 4096" by (simp_all add: frame_def)
    then show ?thesis using page_aligned_frame [OF assms] by linarith
  qed
  finally show ?thesis by (simp add: word_le_nat_alt)
qed

lemma brk_flags: "page_flags (ucast (6 :: u32))"
  by (simp add: page_flags_def bit_numeral_rec)

lemma brk_grow_ok:
  "vm_inv p s \<Longrightarrow> page_aligned i \<Longrightarrow> page_aligned e \<Longrightarrow>
   \<exists>ok s'. brk_grow_loop p e i s = Some (ok, s') \<and> vm_inv p s' \<and>
     (\<forall>w. \<not> (i \<le> w \<and> w < e) \<longrightarrow> vm_phys_addr p w s' = vm_phys_addr p w s) \<and>
     (ok \<longrightarrow> (\<forall>w. i \<le> w \<and> w < e \<longrightarrow> vm_phys_addr p w s' \<noteq> 0))"
proof (induction "unat e - unat i" arbitrary: i s rule: less_induct)
  case less
  note inv = less.prems(1) and al = less.prems(2,3)
  show ?case
  proof (cases "i < e")
    case False
    then have "brk_grow_loop p e i s = Some (True, s)" by (subst brk_grow_loop.simps) simp
    moreover have "\<not> (i \<le> w \<and> w < e)" for w using False by (auto dest: le_less_trans)
    ultimately show ?thesis using inv by (intro exI [of _ True] exI [of _ s]) blast
  next
    case True
    then have "frame i < frame e" using frame_less_mono al by blast
    then have le: "unat i + 4096 \<le> unat e" using page_aligned_frame al by simp
    then have ui: "unat (i + PAGE_SIZE) = unat i + 4096"
      using page_aligned_top [OF al(2)] by (simp add: unat_plus64 PAGE_SIZE_def)
    have ai: "page_aligned (i + PAGE_SIZE)" using al(1) ui by (simp add: page_aligned_def)
    obtain a pg where a: "alloc_page (vm_pages s) = Some (a, pg)" "alloc_result (vm_pages s) a pg"
      using alloc_page_returns vm_invD(1) [OF inv] by blast
    let ?s1 = "s\<lparr>vm_pages := pg\<rparr>"
    have inv1: "vm_inv p ?s1" using vm_inv_alloc [OF inv a(2)] .
    have x1: "vm_phys_addr p w ?s1 = vm_phys_addr p w s" for w by (rule vm_phys_addr_pages)
    obtain r s2 where m: "vm_map_page p a i 6 ?s1 = Some (r, s2)" "vm_inv p s2"
      "\<And>w. vm_phys_addr p w s2 = (if r = Map_ok \<and> ALIGN_DOWN w PAGE_SIZE = ALIGN_DOWN i PAGE_SIZE
         then ALIGN_DOWN a PAGE_SIZE OR (w AND (PAGE_SIZE - 1)) else vm_phys_addr p w ?s1)"
      using vm_map_page_ok [OF inv1 brk_flags, of a i] by auto
    show ?thesis
    proof (cases "a = 0 \<or> r \<noteq> Map_ok")
      case False
      then have ok: "a \<noteq> 0" "r = Map_ok" by simp_all
      have step: "brk_grow_loop p e i s = brk_grow_loop p e (i + PAGE_SIZE) s2"
        using a(1) m(1) ok True by (subst brk_grow_loop.simps) simp
      have dec: "unat e - unat (i + PAGE_SIZE) < unat e - unat i" using ui le by simp
      obtain ok s' where s': "brk_grow_loop p e (i + PAGE_SIZE) s2 = Some (ok, s')" "vm_inv p s'"
        "\<And>w. \<not> (i + PAGE_SIZE \<le> w \<and> w < e) \<Longrightarrow> vm_phys_addr p w s' = vm_phys_addr p w s2"
        "\<And>w. ok \<Longrightarrow> i + PAGE_SIZE \<le> w \<and> w < e \<Longrightarrow> vm_phys_addr p w s' \<noteq> 0"
        using less.hyps [OF dec m(2) ai al(2)] by blast
      have split: "i \<le> w \<longleftrightarrow> ALIGN_DOWN w PAGE_SIZE = ALIGN_DOWN i PAGE_SIZE \<or> i + PAGE_SIZE \<le> w" for w
        using page_range [OF al(1), of w] ui by (auto simp: word_le_nat_alt)
      have excl: "ALIGN_DOWN w PAGE_SIZE = ALIGN_DOWN i PAGE_SIZE \<Longrightarrow> \<not> i + PAGE_SIZE \<le> w" for w
        using page_range [OF al(1), of w] ui by (auto simp: word_le_nat_alt)
      have sub: "i + PAGE_SIZE \<le> w \<Longrightarrow> i \<le> w" for w using ui by (simp add: word_le_nat_alt)
      have "page_aligned a" using a(2) False by (auto simp: alloc_result_def)
      then have nz: "ALIGN_DOWN a PAGE_SIZE OR x \<noteq> 0" for x using align_down_id False by (simp add: or_eq_0_iff)
      have in_e: "ALIGN_DOWN w PAGE_SIZE = ALIGN_DOWN i PAGE_SIZE \<Longrightarrow> w < e" for w
        using page_range [OF al(1), of w] le by (simp add: word_less_nat_alt)
      have out: "vm_phys_addr p w s' = vm_phys_addr p w s" if "\<not> (i \<le> w \<and> w < e)" for w
      proof -
        have "ALIGN_DOWN w PAGE_SIZE \<noteq> ALIGN_DOWN i PAGE_SIZE" using that split in_e by blast
        moreover have "\<not> (i + PAGE_SIZE \<le> w \<and> w < e)" using that sub by blast
        ultimately show ?thesis using s'(3) m(3) [of w] x1 by simp
      qed
      have "vm_phys_addr p w s' \<noteq> 0" if w: "i \<le> w" "w < e" "ok" for w
      proof (cases "i + PAGE_SIZE \<le> w")
        case False
        then have "ALIGN_DOWN w PAGE_SIZE = ALIGN_DOWN i PAGE_SIZE" using split w(1) by blast
        then show ?thesis using s'(3) m(3) [of w] False nz \<open>r = Map_ok\<close> by simp
      qed (use s'(4) w in blast)
      then show ?thesis using step s'(1,2) out by (intro exI [of _ ok] exI [of _ s']) auto
    next
      case fail: True
      then have "brk_grow_loop p e i s = Some (False, if a = 0 then ?s1 else s2)"
        using a(1) m(1) True by (subst brk_grow_loop.simps) auto
      moreover have "a \<noteq> 0 \<Longrightarrow> vm_phys_addr p w s2 = vm_phys_addr p w s" for w using m(3) [of w] fail x1 by simp
      ultimately show ?thesis using inv1 m(2) x1 by (intro exI [of _ False] exI [of _ "if a = 0 then ?s1 else s2"]) simp
    qed
  qed
qed

text \<open>Unmapping a page of the standard size.\<close>

lemma unmap_small:
  assumes inv: "vm_inv p s" and v: "canonical v" and span: "page_span p v s = PAGE_SIZE"
  obtains s' where "vm_unmap_page p v s = Inr s'" "vm_inv p s'" "vm_pages s' = vm_pages s" "page_span p v s' = PAGE_SIZE"
    "\<And>w. vm_phys_addr p w s' = (if ALIGN_DOWN w PAGE_SIZE = ALIGN_DOWN v PAGE_SIZE then 0 else vm_phys_addr p w s)"
proof -
  obtain s' where s': "vm_unmap_page p v s = Inr s'" "vm_inv p s'"
    "\<And>w. vm_phys_addr p w s' = (if ALIGN_DOWN w PAGE_SIZE = ALIGN_DOWN v PAGE_SIZE then 0 else vm_phys_addr p w s)"
    using vm_unmap_page_ok [OF inv v] span by auto
  have d: "PAGE_SIZE \<noteq> HUGE_PAGE_SIZE" "PAGE_SIZE \<noteq> LARGE_PAGE_SIZE"
    by (simp_all add: PAGE_SIZE_def HUGE_PAGE_SIZE_def LARGE_PAGE_SIZE_def)
  have nl: "\<not> (present (ent s p [PDPT_INDEX v, PML4T_INDEX v]) \<and> large (ent s p [PDPT_INDEX v, PML4T_INDEX v]))"
    "\<not> (present (ent s p [PDT_INDEX v, PDPT_INDEX v, PML4T_INDEX v]) \<and> large (ent s p [PDT_INDEX v, PDPT_INDEX v, PML4T_INDEX v]))"
    using span d by (auto simp: page_span_def Let_def simp del: ent.simps split: if_splits)
  have "s' = s \<or> (\<exists>t. tbl s p [PDT_INDEX v, PDPT_INDEX v, PML4T_INDEX v] = Some t \<and> s' = set_entry t (PT_INDEX v) 0 s)"
    using s'(1) v nl by (auto simp: vm_unmap_page_def Let_def no_table_def split: if_splits)
  then have "vm_pages s' = vm_pages s \<and> page_span p v s' = PAGE_SIZE"
  proof
    assume "\<exists>t. tbl s p [PDT_INDEX v, PDPT_INDEX v, PML4T_INDEX v] = Some t \<and> s' = set_entry t (PT_INDEX v) 0 s"
    then obtain t where t: "tbl s p [PDT_INDEX v, PDPT_INDEX v, PML4T_INDEX v] = Some t" "s' = set_entry t (PT_INDEX v) 0 s" by blast
    have "path 3 [PDT_INDEX v, PDPT_INDEX v, PML4T_INDEX v]" by (simp add: numeral_eq_Suc)
    then have u: "ent_upd p (vpath v) 0 s s'" using set_entry_ent [OF inv _ _ t(1), of "PT_INDEX v" 0] t(2) by (simp add: vpath_def)
    have "ent s' p [PDPT_INDEX v, PML4T_INDEX v] = ent s p [PDPT_INDEX v, PML4T_INDEX v]"
      "ent s' p [PDT_INDEX v, PDPT_INDEX v, PML4T_INDEX v] = ent s p [PDT_INDEX v, PDPT_INDEX v, PML4T_INDEX v]"
      using ent_upd_vpath [OF u, of _ v] by (auto simp: vpath_def simp del: ent.simps)
    then have "page_span p v s' = PAGE_SIZE" using nl unfolding page_span_def Let_def by presburger
    then show ?thesis using t(2) by (simp add: set_entry_def)
  qed (use span in simp)
  then show ?thesis using that s' by blast
qed

text \<open>
  The loop of sys_brk that gives memory back: it works on the page of the new break only, once
  for every page above it.
\<close>

lemma brk_shrink_idle:
  "vm_inv p s \<Longrightarrow> canonical a \<Longrightarrow> page_span p a s = PAGE_SIZE \<Longrightarrow>
   (\<And>w. ALIGN_DOWN w PAGE_SIZE = ALIGN_DOWN a PAGE_SIZE \<Longrightarrow> vm_phys_addr p w s = 0) \<Longrightarrow> unat e + 4096 \<le> 2 ^ 64 \<Longrightarrow>
   \<exists>s'. brk_shrink_loop p a e i s = Some s' \<and> vm_pages s' = vm_pages s \<and> (\<forall>w. vm_phys_addr p w s' = vm_phys_addr p w s)"
proof (induction "unat e - unat i" arbitrary: i s rule: less_induct)
  case less
  show ?case
  proof (cases "i < e")
    case False
    then have "brk_shrink_loop p a e i s = Some s" by (subst brk_shrink_loop.simps) simp
    then show ?thesis by simp
  next
    case True
    obtain s1 where s1: "vm_unmap_page p a s = Inr s1" "vm_inv p s1" "vm_pages s1 = vm_pages s" "page_span p a s1 = PAGE_SIZE"
      "\<And>w. vm_phys_addr p w s1 = (if ALIGN_DOWN w PAGE_SIZE = ALIGN_DOWN a PAGE_SIZE then 0 else vm_phys_addr p w s)"
      using unmap_small [OF less.prems(1-3)] by blast
    have ui: "unat (i + PAGE_SIZE) = unat i + 4096"
      using True less.prems(5) by (subst unat_plus64) (simp_all add: PAGE_SIZE_def word_less_nat_alt)
    have "brk_shrink_loop p a e i s = brk_shrink_loop p a e (i + PAGE_SIZE) s1"
      using True s1(1) less.prems(4) [of a] by (subst brk_shrink_loop.simps) simp
    moreover have "unat e - unat (i + PAGE_SIZE) < unat e - unat i" using ui True by (simp add: word_less_nat_alt)
    then have "\<exists>s'. brk_shrink_loop p a e (i + PAGE_SIZE) s1 = Some s' \<and> vm_pages s' = vm_pages s1 \<and>
       (\<forall>w. vm_phys_addr p w s' = vm_phys_addr p w s1)"
      using less.hyps [OF _ s1(2) less.prems(2) s1(4) _ less.prems(5)] s1(5) by simp
    moreover have "vm_phys_addr p w s1 = vm_phys_addr p w s" for w using s1(5) [of w] less.prems(4) [of w] by auto
    ultimately show ?thesis using s1(3) by auto
  qed
qed

lemma vm_inv_free:
  assumes inv: "vm_inv p s" and x: "x \<noteq> 0" "frame x < length (phys_alloc_table (vm_pages s))"
    and data: "\<And>q t. path 3 q \<Longrightarrow> tbl s p q = Some t \<Longrightarrow> t \<noteq> PHYS_REL (ALIGN_DOWN x PAGE_SIZE)"
  shows "\<exists>pg. free_page x (vm_pages s) = Some pg \<and> vm_inv p (s\<lparr>vm_pages := pg\<rparr>)"
proof -
  obtain pg c where pg: "free_page x (vm_pages s) = Some pg" "pa_inv pg"
      "phys_alloc_table pg = (phys_alloc_table (vm_pages s))[frame x := c]"
    using free_page_ok [OF vm_invD(1) [OF inv] x] by blast
  have "table_frame (s\<lparr>vm_pages := pg\<rparr>) t" if q: "path 3 q" "tbl s p q = Some t" for q t
  proof -
    obtain b where b: "t = PHYS_REL b" "page_aligned b" "frame b < length (phys_alloc_table (vm_pages s))"
      "phys_alloc_table (vm_pages s) ! frame b \<noteq> 0" using vm_invD(2) [OF inv q] by (auto simp: table_frame_def)
    have "frame b \<noteq> frame x"
    proof
      assume "frame b = frame x"
      then have "unat b = unat (ALIGN_DOWN x PAGE_SIZE)" using page_aligned_frame [OF b(2)] by (simp add: unat_page_down flip: frame_def)
      then have "b = ALIGN_DOWN x PAGE_SIZE" by (rule word_eq_by_unat)
      then show False using data [OF q] b(1) by simp
    qed
    then show ?thesis using b pg(3) by (auto simp: table_frame_def intro!: exI [of _ b])
  qed
  then have "vm_inv p (s\<lparr>vm_pages := pg\<rparr>)"
    unfolding vm_inv_def tbl_pages
  proof (intro conjI allI impI)
    show "pa_inv (vm_pages (s\<lparr>vm_pages := pg\<rparr>))" using pg(2) by simp
    show "q = r" if "path 3 q" "path 3 r" "tbl s p q = Some t" "tbl s p r = Some t" for q r t
      using vm_invD(3) [OF inv that] .
  qed
  then show ?thesis using pg(1) by blast
qed

section \<open>Properties\<close>

text \<open>
  C18: Sharing a page table and freeing it again restores every reference count: ref_pt and then
  free_pt return, and leave the counts as they were.
\<close>

theorem ref_pt_free_pt:
  assumes "pa_inv pg" and "\<And>i. i < 512 \<Longrightarrow> present (entry s pt i) \<Longrightarrow>
      frame (entry s pt i) < length (phys_alloc_table pg) \<and> 0 < unat (phys_alloc_table pg ! frame (entry s pt i)) \<and>
      unat (phys_alloc_table pg ! frame (entry s pt i)) + 512 < 2 ^ 32"
  shows "\<exists>pg1 pg2. ref_pt s pt pg = Some pg1 \<and> free_pt s pt pg1 = Some pg2 \<and> phys_alloc_table pg2 = phys_alloc_table pg"
proof -
  let ?es = "entries s pt PAGE_STRUCT_ENTRIES"
  have es: "\<exists>i < 512. e = entry s pt i" if "e \<in> set ?es" for e
  proof -
    obtain k where k: "k < 512" "e = entry s pt (word_of_nat k)" using \<open>e \<in> set ?es\<close> by (auto simp: entries_def PAGE_STRUCT_ENTRIES_def)
    moreover have "(word_of_nat k :: u64) < 512" using k(1) by (simp add: word_less_nat_alt unat_of_nat)
    ultimately show ?thesis by blast
  qed
  have len: "length ?es = 512" by (simp add: entries_def PAGE_STRUCT_ENTRIES_def)
  obtain pg1 where pg1: "ref_pt s pt pg = Some pg1" "counts_shift (\<lambda>k n. n + word_of_nat (refs ?es k)) pg pg1"
    using each_ref [OF assms(1), of ?es] es assms(2) len unfolding ref_pt_def by fastforce
  have "frame e < length (phys_alloc_table pg1) \<and> refs ?es (frame e) < unat (phys_alloc_table pg1 ! frame e)"
    if e: "e \<in> set ?es" "present e" for e
  proof -
    let ?n = "phys_alloc_table pg ! frame e"
    have n: "frame e < length (phys_alloc_table pg)" "0 < unat ?n" "unat ?n + 512 < 2 ^ 32" using es [OF e(1)] assms(2) e(2) by auto
    have r: "refs ?es (frame e) \<le> 512" using len unfolding refs_def by (metis length_filter_le)
    then have "unat (word_of_nat (refs ?es (frame e)) :: u32) = refs ?es (frame e)" by (simp add: unat_of_nat)
    then have "unat (?n + word_of_nat (refs ?es (frame e))) = unat ?n + refs ?es (frame e)"
      using n(3) r by (simp add: unat_word_ariths)
    then show ?thesis using pg1(2) n by (simp add: counts_shift_def)
  qed
  then obtain pg2 where pg2: "free_pt s pt pg1 = Some pg2" "counts_shift (\<lambda>k n. n - word_of_nat (refs ?es k)) pg1 pg2"
    using each_free [of pg1 ?es] pg1(2) unfolding free_pt_def by (auto simp: counts_shift_def)
  have "phys_alloc_table pg2 = phys_alloc_table pg"
    using pg1(2) pg2(2) by (intro nth_equalityI) (simp_all add: counts_shift_def)
  then show ?thesis using pg1(1) pg2(1) by blast
qed

text \<open>
  C17: vm_unmap_user_mem returns, after which no address of the lower half translates to
  anything, and every other address translates as before. Only the entries of the lower half have to name
  frames that are counted; the upper half may hold the map of all physical memory.
\<close>

theorem vm_unmap_user_mem_spec:
  assumes "space_ok p n s"
  shows "\<exists>s'. vm_unmap_user_mem p s = Some s' \<and> space_ok p n s' \<and>
     (\<forall>v. vm_phys_addr p v s' = (if PML4T_INDEX v < 256 then 0 else vm_phys_addr p v s))"
proof -
  let ?is = "map word_of_nat [0..<PAGE_STRUCT_ENTRIES div 2] :: u64 list"
  have "set ?is = {i. i < 256}"
  proof
    show "{i. i < 256} \<subseteq> set ?is"
    proof
      fix i :: u64 assume "i \<in> {i. i < 256}"
      then have "unat i < 256" "i = word_of_nat (unat i)" by (simp_all add: word_less_nat_alt)
      then show "i \<in> set ?is" by (auto simp: PAGE_STRUCT_ENTRIES_def intro: image_eqI [of _ _ "unat i"])
    qed
  qed (auto simp: PAGE_STRUCT_ENTRIES_def word_less_nat_alt unat_of_nat)
  then obtain s' where s': "vm_unmap_user_mem p s = Some s'" "space_ok p n s'" "cut_off p {i. i < 256} s s'"
    using unmap_user_loop_ok [OF assms, of ?is] by (auto simp: vm_unmap_user_mem_def)
  have "vm_phys_addr p v s' = (if PML4T_INDEX v < 256 then 0 else vm_phys_addr p v s)" for v
  proof (cases "PML4T_INDEX v < 256")
    case True
    then have "\<not> present (ent s' p [PML4T_INDEX v])" using s'(3) unfolding cut_off_def by blast
    then show ?thesis using True by (simp add: vm_phys_addr_ent Let_def del: ent.simps)
  next
    case False
    then have "path 4 r \<Longrightarrow> r \<noteq> [] \<Longrightarrow> last r = PML4T_INDEX v \<Longrightarrow> ent s' p r = ent s p r" for r
      using s'(3) unfolding cut_off_def by auto
    then show ?thesis using False by (simp add: vm_phys_addr_ent Let_def numeral_eq_Suc del: ent.simps)
  qed
  then show ?thesis using s' by blast
qed

definition shared_page :: vm_state where
  "shared_page = \<lparr>vm_pages = small_memory, vm_cells = (\<lambda>_. 0x1003)\<rparr>"

theorem ref_pt_free_pt_witness:
  "\<exists>pg1 pg2. ref_pt shared_page 0 small_memory = Some pg1 \<and> free_pt shared_page 0 pg1 = Some pg2 \<and>
     phys_alloc_table pg2 = [1, 1, 0, 0, 0]"
  using ref_pt_free_pt [OF small_memory_inv, of shared_page 0]
  by (simp add: shared_page_def entry_def frame_def small_memory_def)

lemma empty_space_ents: "ent empty_space empty_pml4t q = 0"
  by (cases q) (simp_all add: entry_def empty_space_def split: option.splits)

text \<open>An address space with the page 0x400000 and a part of the map of physical memory that lies outside of the table of counts.\<close>

definition user_space :: vm_state where
  "user_space = set_entry (PHYS_REL 0x1000) 0 0x2007 (set_entry (PHYS_REL 0x2000) 0 0x3007 (set_entry (PHYS_REL 0x3000) 2 0x4007
     (set_entry (PHYS_REL 0x4000) 0 0x5007 (set_entry (PHYS_REL 0x1000) 508 0x6003 (set_entry (PHYS_REL 0x6000) 511 0x7fc0000083
       \<lparr>vm_pages = \<lparr>phys_alloc_table = [1, 1, 1, 1, 1, 1, 1, 0, 0], next_phys_addr = 0x7000, mem_avail = True,
          mm_regions = [\<lparr>rg_base = 0, rg_len = 0x8000\<rparr>], mm_curr = 0\<rparr>, vm_cells = (\<lambda>_. 0)\<rparr>)))))"

lemma user_space_entry:
  assumes "a \<in> {0x1000, 0x2000, 0x3000, 0x4000, 0x5000, 0x6000}" "i < 512"
  shows "entry user_space (PHYS_REL a) i =
    (if a = 0x1000 \<and> i = 0 then 0x2007 else if a = 0x2000 \<and> i = 0 then 0x3007 else if a = 0x3000 \<and> i = 2 then 0x4007
     else if a = 0x4000 \<and> i = 0 then 0x5007 else if a = 0x1000 \<and> i = 508 then 0x6003 else if a = 0x6000 \<and> i = 511 then 0x7fc0000083 else 0)"
proof -
  have st: "struct_at (PHYS_REL b)" if "b \<in> {0x1000, 0x2000, 0x3000, 0x4000, 0x5000, 0x6000}" for b
    using that by (auto simp: struct_at_def page_aligned_def)
  have z: "entry \<lparr>vm_pages = pg, vm_cells = (\<lambda>_. 0)\<rparr> t k = 0" for pg t k by (simp add: entry_def)
  have inj: "PHYS_REL b = PHYS_REL c \<longleftrightarrow> b = c" for b c by (simp add: PHYS_REL_def)
  show ?thesis unfolding user_space_def
    using assms(2) st [OF assms(1)] by (simp add: entry_set_entry st z inj)
qed

text \<open>The tables and the frames below an entry of the lower half.\<close>

lemma user_space_below:
  assumes "a \<in> {0x2000, 0x3000, 0x4000, 0x5000}" "i < 512" "present (entry user_space (PHYS_REL a) i)"
  shows "\<exists>b \<in> {0x2000, 0x3000, 0x4000, 0x5000}. table_at (entry user_space (PHYS_REL a) i) = PHYS_REL b"
    "frame (entry user_space (PHYS_REL a) i) < 9"
proof -
  have "entry user_space (PHYS_REL a) i \<in> {0x3007, 0x4007, 0x5007}"
    using assms user_space_entry [of a i] by (auto split: if_splits)
  moreover have "table_at 0x3007 = PHYS_REL 0x3000" "table_at 0x4007 = PHYS_REL 0x4000" "table_at 0x5007 = PHYS_REL 0x5000"
    "frame 0x3007 = 3" "frame 0x4007 = 4" "frame 0x5007 = 5"
    by (simp_all add: table_at_def frame_def ALIGN_DOWN_def PAGE_SIZE_def)
  ultimately show "\<exists>b \<in> {0x2000, 0x3000, 0x4000, 0x5000}. table_at (entry user_space (PHYS_REL a) i) = PHYS_REL b"
    "frame (entry user_space (PHYS_REL a) i) < 9" by auto
qed

definition user_tbl :: "u64 list \<Rightarrow> u64 option \<Rightarrow> bool" where
  "user_tbl q t \<longleftrightarrow> t = None \<or> (\<exists>a \<in> {0x2000, 0x3000, 0x4000, 0x5000}. t = Some (PHYS_REL a)) \<or> last q = 508 \<and> t = Some (PHYS_REL 0x6000)"

lemma user_space_tbl: "path 3 q \<Longrightarrow> q \<noteq> [] \<Longrightarrow> user_tbl q (tbl user_space (PHYS_REL 0x1000) q)"
proof (induction q)
  case (Cons i q)
  have i: "i < 512" and q: "path 3 q" using Cons.prems by (auto simp: path_def)
  show ?case
  proof (cases "q = []")
    case True
    have "entry user_space (PHYS_REL 0x1000) i = (if i = 0 then 0x2007 else if i = 508 then 0x6003 else 0)"
      using user_space_entry [of "0x1000" i] i by simp
    moreover have "table_at 0x2007 = PHYS_REL 0x2000" "table_at 0x6003 = PHYS_REL 0x6000" by (simp_all add: table_at_def ALIGN_DOWN_def PAGE_SIZE_def)
    ultimately show ?thesis using True by (auto simp: user_tbl_def no_table_def)
  next
    case False
    let ?t = "tbl user_space (PHYS_REL 0x1000) q"
    consider "?t = None" | a where "a \<in> {0x2000, 0x3000, 0x4000, 0x5000}" "?t = Some (PHYS_REL a)" | "?t = Some (PHYS_REL 0x6000)"
      using Cons.IH [OF q False] by (auto simp: user_tbl_def)
    then show ?thesis
    proof cases
      case (2 a)
      then show ?thesis using user_space_below(1) [OF 2(1) i] by (auto simp: user_tbl_def no_table_def)
    next
      case 3
      have "entry user_space (PHYS_REL 0x6000) i = 0 \<or> entry user_space (PHYS_REL 0x6000) i = 0x7fc0000083"
        using user_space_entry [of "0x6000" i] i by simp
      moreover have "large 0x7fc0000083" by (simp add: large_def PAGE_FLAG_SIZE_def)
      ultimately show ?thesis using 3 False by (auto simp: user_tbl_def no_table_def)
    qed (simp add: user_tbl_def)
  qed
qed simp

lemma user_space_ok: "space_ok (PHYS_REL 0x1000) 9 user_space"
proof -
  have inj: "PHYS_REL b = PHYS_REL c \<longleftrightarrow> b = c" for b c by (simp add: PHYS_REL_def)
  have "root_inv (PHYS_REL 0x1000) user_space" unfolding root_inv_def
  proof (intro conjI allI impI)
    show "struct_at t" if "path 3 q" "tbl user_space (PHYS_REL 0x1000) q = Some t" for q t
      using that user_space_tbl [OF that(1)] by (cases "q = []") (auto simp: user_tbl_def struct_at_def page_aligned_def)
    show "q = []" if "path 3 q" "tbl user_space (PHYS_REL 0x1000) q = Some (PHYS_REL 0x1000)" for q
      using that user_space_tbl [OF that(1)] by (auto simp: user_tbl_def inj)
  qed
  moreover have "frames_ok (PHYS_REL 0x1000) 9 user_space" unfolding frames_ok_def
  proof (intro allI impI)
    fix r assume r: "path 4 r" "r \<noteq> []" "last r < 256" "present (ent user_space (PHYS_REL 0x1000) r)"
    then obtain i q where iq: "r = i # q" by (cases r) auto
    have i: "i < 512" and q: "path 3 q" using r(1) iq by (auto simp: path_def)
    show "frame (ent user_space (PHYS_REL 0x1000) r) < 9"
    proof (cases "q = []")
      case True
      then have "i < 256" using r(3) iq by simp
      then have "i \<noteq> 508" by (auto simp: word_less_nat_alt)
      then show ?thesis using True iq r(4) user_space_entry [of "0x1000" i] i by (auto simp: frame_def split: if_splits)
    next
      case False
      then have "last q \<noteq> 508" using r(3) iq by (auto simp: word_less_nat_alt)
      then show ?thesis using user_space_tbl [OF q False] user_space_below(2) [OF _ i] r(4) iq
        by (auto simp: user_tbl_def frame_def split: option.splits)
    qed
  qed
  moreover have "alloc_ok 9 (vm_pages user_space)"
    by (simp add: alloc_ok_def user_space_def set_entry_def pa_inv_def region_ok_def page_aligned_def frame_def)
  ultimately show ?thesis by (simp add: space_ok_def)
qed

theorem vm_unmap_user_mem_spec_witness:
  "vm_phys_addr (PHYS_REL 0x1000) 0x400123 user_space = 0x5123 \<and>
   (\<exists>s'. vm_unmap_user_mem (PHYS_REL 0x1000) user_space = Some s' \<and> vm_phys_addr (PHYS_REL 0x1000) 0x400123 s' = 0 \<and>
      vm_phys_addr (PHYS_REL 0x1000) 0xfffffe7fc0000000 s' = 0x7fc0000000)"
proof -
  have t: "table_at 0x2007 = PHYS_REL 0x2000" "table_at 0x3007 = PHYS_REL 0x3000" "table_at 0x4007 = PHYS_REL 0x4000" "table_at 0x6003 = PHYS_REL 0x6000"
    by (simp_all add: table_at_def ALIGN_DOWN_def PAGE_SIZE_def)
  have ix: "PML4T_INDEX 0x400123 = 0" "PDPT_INDEX 0x400123 = 0" "PDT_INDEX 0x400123 = 2" "PT_INDEX 0x400123 = 0"
    "PML4T_INDEX 0xfffffe7fc0000000 = 508" "PDPT_INDEX 0xfffffe7fc0000000 = 511" "canonical 0x400123" "canonical 0xfffffe7fc0000000"
    by (simp_all add: PML4T_INDEX_def PDPT_INDEX_def PDT_INDEX_def PT_INDEX_def canonical_def)
  have "vm_phys_addr (PHYS_REL 0x1000) 0x400123 user_space = 0x5123"
    "vm_phys_addr (PHYS_REL 0x1000) 0xfffffe7fc0000000 user_space = 0x7fc0000000"
    by (simp_all add: vm_phys_addr_def Let_def ix t user_space_entry large_def present_def PAGE_FLAG_SIZE_def PAGE_FLAG_PRESENT_def ALIGN_DOWN_def PAGE_SIZE_def HUGE_PAGE_SIZE_def)
  then show ?thesis using vm_unmap_user_mem_spec [OF user_space_ok] ix by fastforce
qed

text \<open>
  C16: Raising the program break within its limits returns: either every address between the old
  and the new break is mapped and the break has moved, or ENOMEM is reported and the break has
  not moved. Addresses outside of that range translate as before in both cases.
\<close>

theorem sys_brk_grow:
  assumes inv: "vm_inv p s" and al: "page_aligned (brk_curr b)"
    and range: "brk_base b \<le> addr" "addr \<le> brk_base b + brk_max b" "brk_curr b \<le> addr"
  shows "\<exists>r b' s'. sys_brk p addr b s = Some (r, b', s') \<and> vm_inv p s' \<and>
     (r = Inr () \<and> brk_curr b' = ALIGN_UP addr PAGE_SIZE \<and>
        (\<forall>w. brk_curr b \<le> w \<and> w < ALIGN_UP addr PAGE_SIZE \<longrightarrow> vm_phys_addr p w s' \<noteq> 0) \<or>
      r = Inl ENOMEM \<and> b' = b) \<and>
     (\<forall>w. \<not> (brk_curr b \<le> w \<and> w < ALIGN_UP addr PAGE_SIZE) \<longrightarrow> vm_phys_addr p w s' = vm_phys_addr p w s)"
proof -
  have up: "page_aligned (ALIGN_UP addr PAGE_SIZE)"
  proof -
    have "(4096 :: nat) dvd 2 ^ 64" by simp
    then show ?thesis using unat_ALIGN_UP [of 12 addr]
      by (simp add: page_aligned_def PAGE_SIZE_def dvd_mod)
  qed
  obtain ok s' where g: "brk_grow_loop p (ALIGN_UP addr PAGE_SIZE) (brk_curr b) s = Some (ok, s')" "vm_inv p s'"
    "\<And>w. \<not> (brk_curr b \<le> w \<and> w < ALIGN_UP addr PAGE_SIZE) \<Longrightarrow> vm_phys_addr p w s' = vm_phys_addr p w s"
    "\<And>w. ok \<Longrightarrow> brk_curr b \<le> w \<and> w < ALIGN_UP addr PAGE_SIZE \<Longrightarrow> vm_phys_addr p w s' \<noteq> 0"
    using brk_grow_ok [OF inv al up] by blast
  have "\<not> addr < brk_base b" "\<not> brk_base b + brk_max b < addr" "\<not> addr < brk_curr b" using range by (simp_all add: not_less)
  then have "sys_brk p addr b s = Some (if ok then (Inr (), b\<lparr>brk_curr := ALIGN_UP addr PAGE_SIZE\<rparr>, s') else (Inl ENOMEM, b, s'))"
    using g(1) by (simp add: sys_brk_def)
  then show ?thesis using g(2-4) by (cases ok) auto
qed

definition small_brk :: brk where
  "small_brk = \<lparr>brk_base = 0x400000, brk_curr = 0x400000, brk_max = 0x100000\<rparr>"

theorem sys_brk_grow_witness:
  "\<exists>r b' s'. sys_brk empty_pml4t 0x400800 small_brk empty_space = Some (r, b', s') \<and>
     (r = Inr () \<longrightarrow> vm_phys_addr empty_pml4t 0x400000 s' \<noteq> 0) \<and> vm_phys_addr empty_pml4t 0x401000 s' = 0"
proof -
  have z: "vm_phys_addr empty_pml4t w empty_space = 0" for w
    by (simp add: vm_phys_addr_ent Let_def empty_space_ents del: ent.simps)
  have "page_aligned (brk_curr small_brk)" by (simp add: small_brk_def page_aligned_def)
  then show ?thesis using sys_brk_grow [OF empty_space_inv, of small_brk "0x400800"] z
    by (auto simp: small_brk_def ALIGN_UP_def PAGE_SIZE_def)
qed

text \<open>
  Lowering the program break does not release the memory above it: the loop frees and unmaps
  the page that holds the new break itself, which is still in use when the break is not on a
  page boundary, and every other page stays mapped.
\<close>

theorem sys_brk_shrink_wrong_page:
  assumes inv: "vm_inv p s" and c: "canonical addr" and span: "page_span p addr s = PAGE_SIZE"
    and mapped: "vm_phys_addr p addr s \<noteq> 0" "frame (vm_phys_addr p addr s) < length (phys_alloc_table (vm_pages s))"
    and data: "\<And>q t. path 3 q \<Longrightarrow> tbl s p q = Some t \<Longrightarrow> t \<noteq> PHYS_REL (ALIGN_DOWN (vm_phys_addr p addr s) PAGE_SIZE)"
    and range: "brk_base b \<le> addr" "addr \<le> brk_base b + brk_max b" "addr < brk_curr b"
      "ALIGN_UP addr PAGE_SIZE < brk_curr b" "unat (brk_curr b) + 4096 \<le> 2 ^ 64"
  shows "\<exists>s'. sys_brk p addr b s = Some (Inr (), b\<lparr>brk_curr := ALIGN_UP addr PAGE_SIZE\<rparr>, s') \<and>
     (\<forall>w. vm_phys_addr p w s' = (if ALIGN_DOWN w PAGE_SIZE = ALIGN_DOWN addr PAGE_SIZE then 0 else vm_phys_addr p w s))"
proof -
  obtain pg where pg: "free_page (vm_phys_addr p addr s) (vm_pages s) = Some pg" "vm_inv p (s\<lparr>vm_pages := pg\<rparr>)"
    using vm_inv_free [OF inv mapped] data by blast
  let ?s1 = "s\<lparr>vm_pages := pg\<rparr>" and ?i = "ALIGN_UP addr PAGE_SIZE"
  have x1: "vm_phys_addr p w ?s1 = vm_phys_addr p w s" for w by (rule vm_phys_addr_pages)
  have "page_span p addr ?s1 = PAGE_SIZE" using span by (simp only: page_span_def Let_def ent_pages)
  then obtain s2 where s2: "vm_unmap_page p addr ?s1 = Inr s2" "vm_inv p s2" "page_span p addr s2 = PAGE_SIZE"
    "\<And>w. vm_phys_addr p w s2 = (if ALIGN_DOWN w PAGE_SIZE = ALIGN_DOWN addr PAGE_SIZE then 0 else vm_phys_addr p w ?s1)"
    using unmap_small [OF pg(2) c] by blast
  have "brk_shrink_loop p addr (brk_curr b) ?i s = brk_shrink_loop p addr (brk_curr b) (?i + PAGE_SIZE) s2"
    using range(4) mapped(1) pg(1) s2(1) by (subst brk_shrink_loop.simps) simp
  moreover obtain s3 where "brk_shrink_loop p addr (brk_curr b) (?i + PAGE_SIZE) s2 = Some s3"
    "\<And>w. vm_phys_addr p w s3 = vm_phys_addr p w s2"
    using brk_shrink_idle [OF s2(2) c s2(3) _ range(5), of "?i + PAGE_SIZE"] s2(4) by auto
  ultimately show ?thesis using range(1-3) s2(4) x1 by (auto simp: sys_brk_def not_less [symmetric])
qed

theorem sys_brk_shrink_wrong_page_witness:
  "\<exists>s s'. vm_phys_addr empty_pml4t 0x400000 s = 0x5000 \<and>
     sys_brk empty_pml4t 0x400800 \<lparr>brk_base = 0x400000, brk_curr = 0x402000, brk_max = 0x100000\<rparr> s =
       Some (Inr (), \<lparr>brk_base = 0x400000, brk_curr = 0x401000, brk_max = 0x100000\<rparr>, s') \<and>
     vm_phys_addr empty_pml4t 0x400000 s' = 0"
proof -
  obtain s where s: "vm_map_page empty_pml4t 0x5000 0x400000 6 empty_space = Some (Map_ok, s)"
    "vm_pages s = pages_at [1, 1, 1, 1, 1, 0, 0] 0x5000" "page_span empty_pml4t 0x400000 s = PAGE_SIZE" using page_mapped by blast
  have inv: "vm_inv empty_pml4t s" and x: "vm_phys_addr empty_pml4t w s = (if ALIGN_DOWN w PAGE_SIZE = ALIGN_DOWN 0x400000 PAGE_SIZE
      then ALIGN_DOWN 0x5000 PAGE_SIZE OR (w AND (PAGE_SIZE - 1)) else vm_phys_addr empty_pml4t w empty_space)" for w
    using vm_map_page_ok [OF empty_space_inv brk_flags, of "0x5000" "0x400000"] s(1) by simp_all
  have span: "page_span empty_pml4t 0x400800 s = PAGE_SIZE"
    using s(3) by (simp add: page_span_def PML4T_INDEX_def PDPT_INDEX_def PDT_INDEX_def drop_bit_eq_div del: ent.simps)
  have phys: "vm_phys_addr empty_pml4t 0x400800 s = 0x5800" by (simp add: x ALIGN_DOWN_def PAGE_SIZE_def)
  have "t \<noteq> PHYS_REL 0x5000" if "path 3 q" "tbl s empty_pml4t q = Some t" for q t
    using vm_invD(2) [OF inv that] s(2) by (auto simp: table_frame_def pages_at_def PHYS_REL_def frame_def)
  then have "\<exists>s'. sys_brk empty_pml4t 0x400800 \<lparr>brk_base = 0x400000, brk_curr = 0x402000, brk_max = 0x100000\<rparr> s =
       Some (Inr (), \<lparr>brk_base = 0x400000, brk_curr = 0x402000, brk_max = 0x100000\<rparr>\<lparr>brk_curr := ALIGN_UP 0x400800 PAGE_SIZE\<rparr>, s') \<and>
     (\<forall>w. vm_phys_addr empty_pml4t w s' = (if ALIGN_DOWN w PAGE_SIZE = ALIGN_DOWN 0x400800 PAGE_SIZE then 0 else vm_phys_addr empty_pml4t w s))"
    by (intro sys_brk_shrink_wrong_page [OF inv _ span])
      (simp_all add: phys s(2) pages_at_def frame_def canonical_def PML4T_INDEX_def drop_bit_eq_div ALIGN_DOWN_def ALIGN_UP_def PAGE_SIZE_def)
  moreover have "vm_phys_addr empty_pml4t 0x400000 s = 0x5000" by (simp add: x ALIGN_DOWN_def PAGE_SIZE_def)
  moreover have "ALIGN_DOWN 0x400000 PAGE_SIZE = ALIGN_DOWN 0x400800 PAGE_SIZE" "ALIGN_UP 0x400800 PAGE_SIZE = 0x401000"
    by (simp_all add: ALIGN_DOWN_def ALIGN_UP_def PAGE_SIZE_def)
  ultimately show ?thesis by auto
qed

section \<open>The map of physical memory\<close>

text \<open>The page structures vm_init writes are separate pages of the kernel image.\<close>

definition kernel_structs :: "kernel_syms \<Rightarrow> u64 list" where
  "kernel_structs k = [ks_pml4t k, ks_phys_map_pdpt k, ks_phys_map_pdpt k + 0x1000, ks_phys_map_pdpt k + 0x2000,
     ks_phys_map_pdpt k + 0x3000, ks_thread_local_pdpt k, ks_stack_pdt k, ks_stack_pt k]"

definition kernel_syms_ok :: "kernel_syms \<Rightarrow> bool" where
  "kernel_syms_ok k \<longleftrightarrow> list_all (\<lambda>t. page_aligned (t - KERNEL_VMA)) (kernel_structs k) \<and> distinct (kernel_structs k)"

lemma struct_at_kernel: "page_aligned (t - KERNEL_VMA) \<Longrightarrow> struct_at t"
  unfolding struct_at_def by (rule exI [of _ "t - KERNEL_VMA"]) (simp add: PHYS_REL_def KERNEL_VMA_def LOW_PHYSICAL_BASE_VMA_def)

lemma struct_cells:
  assumes "struct_at t" and "struct_at u" and "i < 512" and "j < 512"
  shows "t + 8 * i = u + 8 * j \<longleftrightarrow> t = u \<and> i = j"
proof -
  obtain a b where "t = PHYS_REL a" "u = PHYS_REL b" "page_aligned a" "page_aligned b" using assms(1,2) by (auto simp: struct_at_def)
  then show ?thesis using cell_eq_iff [of a b i j] assms(3,4) by (auto simp: PHYS_REL_def)
qed

lemma set_entries_miss:
  "(\<And>i. i < n \<Longrightarrow> c \<noteq> t + 8 * ix i) \<Longrightarrow> vm_cells (set_entries t ix f n s) c = vm_cells s c"
  by (induction n) (simp_all add: set_entry_def)

lemma set_entries_hit:
  "(\<And>i j. i < n \<Longrightarrow> j < n \<Longrightarrow> t + 8 * ix i = t + 8 * ix j \<Longrightarrow> i = j) \<Longrightarrow> i < n \<Longrightarrow>
   vm_cells (set_entries t ix f n s) (t + 8 * ix i) = f i"
proof (induction n)
  case (Suc n)
  show ?case
  proof (cases "i = n")
    case False
    then have "t + 8 * ix i \<noteq> t + 8 * ix n" using Suc.prems(1) [of i n] Suc.prems(2) by auto
    moreover have "vm_cells (set_entries t ix f n s) (t + 8 * ix i) = f i" using Suc.IH Suc.prems False by simp
    ultimately show ?thesis by (simp add: set_entry_def)
  qed (simp add: set_entry_def)
qed simp

text \<open>The cell of entry \<open>n\<close> of the four pages of huge page entries.\<close>

lemma phys_map_cell:
  assumes "n < 2048"
  shows "ks_phys_map_pdpt k + 8 * word_of_nat n = (ks_phys_map_pdpt k + 0x1000 * word_of_nat (n div 512)) + 8 * word_of_nat (n mod 512)"
    and "ks_phys_map_pdpt k + 0x1000 * word_of_nat (n div 512) \<in> set (kernel_structs k)"
    and "(word_of_nat (n mod 512) :: u64) < 512"
proof -
  have "word_of_nat n = (word_of_nat (512 * (n div 512) + n mod 512) :: u64)" by simp
  then have "word_of_nat n = (512 * word_of_nat (n div 512) + word_of_nat (n mod 512) :: u64)" by (simp only: of_nat_add of_nat_mult) simp
  then show "ks_phys_map_pdpt k + 8 * word_of_nat n = (ks_phys_map_pdpt k + 0x1000 * word_of_nat (n div 512)) + 8 * word_of_nat (n mod 512)"
    by (simp add: algebra_simps)
  have "n div 512 = 0 \<or> n div 512 = 1 \<or> n div 512 = 2 \<or> n div 512 = 3" using assms by auto
  then show "ks_phys_map_pdpt k + 0x1000 * word_of_nat (n div 512) \<in> set (kernel_structs k)"
    by (auto simp: kernel_structs_def)
  show "(word_of_nat (n mod 512) :: u64) < 512" by (simp add: word_less_nat_alt unat_of_nat)
qed

lemma word_of_nat_less512: "i < 512 \<Longrightarrow> (word_of_nat i :: u64) < 512"
  by (simp add: word_less_nat_alt unat_of_nat)

lemma word_of_nat_inj: "i < 4096 \<Longrightarrow> j < 4096 \<Longrightarrow> 8 * word_of_nat i = (8 * word_of_nat j :: u64) \<Longrightarrow> i = j"
proof -
  assume ij: "i < 4096" "j < 4096" and "8 * word_of_nat i = (8 * word_of_nat j :: u64)"
  then have "unat (word_of_nat (8 * i) :: u64) = unat (word_of_nat (8 * j) :: u64)" by simp
  then show "i = j" using ij by (simp only: unat_of_nat) simp
qed

lemma vm_init_entries:
  fixes s :: vm_state
  assumes ok: "kernel_syms_ok k" and n: "n < 2048"
  defines "s' \<equiv> vm_init_tables k s"
  shows "entry s' (ks_pml4t k) (508 + word_of_nat (n div 512)) =
      (ks_phys_map_pdpt k + 0x1000 * word_of_nat (n div 512) - KERNEL_VMA) OR PAGE_FLAG_PRESENT OR PAGE_FLAG_RW OR PAGE_FLAG_GLOBAL"
    and "entry s' (ks_phys_map_pdpt k + 0x1000 * word_of_nat (n div 512)) (word_of_nat (n mod 512)) =
      (word_of_nat n * HUGE_PAGE_SIZE) OR PAGE_FLAG_PRESENT OR PAGE_FLAG_RW OR PAGE_FLAG_SIZE OR PAGE_FLAG_GLOBAL"
proof -
  let ?p = "ks_pml4t k" and ?m = "ks_phys_map_pdpt k" and ?u = "ks_phys_map_pdpt k + 0x1000 * word_of_nat (n div 512)"
  have st: "struct_at t" if "t \<in> set (kernel_structs k)" for t
    using ok that struct_at_kernel by (auto simp: kernel_syms_ok_def list_all_iff)
  have ne: "t + 8 * i \<noteq> u + 8 * j" if "t \<in> set (kernel_structs k)" "u \<in> set (kernel_structs k)" "i < 512" "j < 512" "t \<noteq> u \<or> i \<noteq> j" for t u i j
    using struct_cells [OF st st] that by blast
  have d: "distinct (kernel_structs k)" using ok by (simp add: kernel_syms_ok_def)
  have h: "n div 512 < 4" using n by (simp add: less_mult_imp_div_less)
  have hc: "n div 512 = 0 \<or> n div 512 = 1 \<or> n div 512 = 2 \<or> n div 512 = 3" using h by linarith
  have i4: "(508 + word_of_nat (n div 512) :: u64) < 512" "508 + word_of_nat (n div 512) \<noteq> (506 :: u64)"
    using hc by auto
  have mem: "?p \<in> set (kernel_structs k)" "ks_thread_local_pdpt k \<in> set (kernel_structs k)"
    "ks_stack_pdt k \<in> set (kernel_structs k)" "ks_stack_pt k \<in> set (kernel_structs k)" by (simp_all add: kernel_structs_def)
  have umem: "?u \<in> set (kernel_structs k)" using phys_map_cell(2) [OF n] .
  define s1 where "s1 = set_entries ?p (\<lambda>i. word_of_nat (i + 508))
      (\<lambda>i. (?m + 8 * word_of_nat (i * PAGE_STRUCT_ENTRIES) - KERNEL_VMA) OR PAGE_FLAG_PRESENT OR PAGE_FLAG_RW OR PAGE_FLAG_GLOBAL) 4
      (set_entry ?p 507 ((ks_alloc_space_pdpt k - KERNEL_VMA) OR PAGE_FLAG_PRESENT OR PAGE_FLAG_RW OR PAGE_FLAG_GLOBAL) s)"
  define s2 where "s2 = set_entries ?m word_of_nat
      (\<lambda>i. (word_of_nat i * HUGE_PAGE_SIZE) OR PAGE_FLAG_PRESENT OR PAGE_FLAG_RW OR PAGE_FLAG_SIZE OR PAGE_FLAG_GLOBAL)
      (PAGE_STRUCT_ENTRIES * 4) s1"
  have tail: "vm_cells s' (t + 8 * i) = vm_cells s2 (t + 8 * i)"
    if t: "t \<in> set (kernel_structs k)" "t \<notin> {ks_thread_local_pdpt k, ks_stack_pdt k, ks_stack_pt k}" "i < 512" "t \<noteq> ?p \<or> i \<noteq> 506" for t i
  proof -
    have pt: "t + 8 * i \<noteq> ks_stack_pt k + 8 * word_of_nat (j + 256)" if "j < 256" for j
      using ne [OF t(1) mem(4) t(3), of "word_of_nat (j + 256)"] t(2) that word_of_nat_less512 [of "j + 256"] by auto
    moreover have "PML4T_INDEX THREAD_LOCAL_BASE_VMA = 506"
      by (simp add: PML4T_INDEX_def THREAD_LOCAL_BASE_VMA_def drop_bit_eq_div)
    moreover have "t + 8 * i \<noteq> ?p + 8 * 506" "t + 8 * i \<noteq> ks_thread_local_pdpt k + 8 * 511" "t + 8 * i \<noteq> ks_stack_pdt k + 8 * 511"
      using ne [OF t(1) mem(1) t(3), of 506] ne [OF t(1) mem(2) t(3), of 511] ne [OF t(1) mem(3) t(3), of 511] t(2,4) by auto
    ultimately show ?thesis unfolding s'_def vm_init_tables_def Let_def s2_def [unfolded s1_def, symmetric]
      by (subst set_entries_miss) (simp_all add: set_entry_def)
  qed
  have up: "?u \<noteq> ?p" "?u \<notin> {ks_thread_local_pdpt k, ks_stack_pdt k, ks_stack_pt k}"
    and pp: "?p \<notin> {ks_thread_local_pdpt k, ks_stack_pdt k, ks_stack_pt k}"
    using d hc by (auto simp: kernel_structs_def)
  show "entry s' ?p (508 + word_of_nat (n div 512)) =
      (?u - KERNEL_VMA) OR PAGE_FLAG_PRESENT OR PAGE_FLAG_RW OR PAGE_FLAG_GLOBAL"
  proof -
    have "vm_cells s2 (?p + 8 * (508 + word_of_nat (n div 512))) = vm_cells s1 (?p + 8 * (508 + word_of_nat (n div 512)))"
      unfolding s2_def
    proof (rule set_entries_miss)
      fix i assume "i < PAGE_STRUCT_ENTRIES * 4"
      then have i: "i < 2048" by (simp add: PAGE_STRUCT_ENTRIES_def)
      have "?m + 0x1000 * word_of_nat (i div 512) \<noteq> ?p"
      proof -
        have "i div 512 = 0 \<or> i div 512 = 1 \<or> i div 512 = 2 \<or> i div 512 = 3" using i by linarith
        then show ?thesis using d by (auto simp: kernel_structs_def)
      qed
      then show "?p + 8 * (508 + word_of_nat (n div 512)) \<noteq> ?m + 8 * word_of_nat i"
        using ne [OF mem(1) phys_map_cell(2) [OF i] i4(1) phys_map_cell(3) [OF i]] phys_map_cell(1) [OF i] by metis
    qed
    also have "\<dots> = vm_cells s1 (?p + 8 * word_of_nat (n div 512 + 508))" by (simp add: algebra_simps)
    also have "\<dots> = (?m + 8 * word_of_nat (n div 512 * PAGE_STRUCT_ENTRIES) - KERNEL_VMA) OR PAGE_FLAG_PRESENT OR PAGE_FLAG_RW OR PAGE_FLAG_GLOBAL"
      unfolding s1_def
    proof (rule set_entries_hit [OF _ h])
      fix i j :: nat assume "i < 4" "j < 4" "?p + 8 * word_of_nat (i + 508) = ?p + 8 * word_of_nat (j + 508)"
      then show "i = j" using word_of_nat_inj [of "i + 508" "j + 508"] by simp
    qed
    also have "?m + 8 * word_of_nat (n div 512 * PAGE_STRUCT_ENTRIES) = ?u" by (simp add: PAGE_STRUCT_ENTRIES_def)
    finally show ?thesis using tail [OF mem(1) pp i4(1)] i4(2) by (simp add: entry_def)
  qed
  show "entry s' ?u (word_of_nat (n mod 512)) =
      (word_of_nat n * HUGE_PAGE_SIZE) OR PAGE_FLAG_PRESENT OR PAGE_FLAG_RW OR PAGE_FLAG_SIZE OR PAGE_FLAG_GLOBAL"
  proof -
    have "vm_cells s' (?u + 8 * word_of_nat (n mod 512)) = vm_cells s2 (?u + 8 * word_of_nat (n mod 512))"
      using tail [OF umem up(2) phys_map_cell(3) [OF n]] up(1) by blast
    also have "\<dots> = vm_cells s2 (?m + 8 * word_of_nat n)" by (simp only: phys_map_cell(1) [OF n])
    also have "\<dots> = (word_of_nat n * HUGE_PAGE_SIZE) OR PAGE_FLAG_PRESENT OR PAGE_FLAG_RW OR PAGE_FLAG_SIZE OR PAGE_FLAG_GLOBAL"
      unfolding s2_def
    proof (rule set_entries_hit)
      show "n < PAGE_STRUCT_ENTRIES * 4" using n by (simp add: PAGE_STRUCT_ENTRIES_def)
      fix i j assume "i < PAGE_STRUCT_ENTRIES * 4" "j < PAGE_STRUCT_ENTRIES * 4" "?m + 8 * word_of_nat i = ?m + 8 * word_of_nat j"
      then show "i = j" using word_of_nat_inj [of i j] by (simp add: PAGE_STRUCT_ENTRIES_def)
    qed
    finally show ?thesis by (simp add: entry_def)
  qed
qed

text \<open>The indexes of an address in the map of physical memory.\<close>

lemma unat_phys_rel: "a < 0x20000000000 \<Longrightarrow> unat (PHYS_REL a) = unat a + 0xfffffe0000000000"
  unfolding PHYS_REL_def LOW_PHYSICAL_BASE_VMA_def by (subst unat_plus64) (simp_all add: word_less_nat_alt)

lemma unat_and_511: "unat (x AND 0x1ff :: u64) = unat x mod 512"
proof -
  have "x AND 0x1ff = take_bit 9 x" by (simp add: take_bit_eq_mask mask_eq_exp_minus_1)
  then show ?thesis using unat_take [of 9 x] by simp
qed

lemma phys_map_index:
  assumes "a < 0x20000000000"
  shows "PML4T_INDEX (PHYS_REL a) = 508 + word_of_nat (unat a div 2 ^ 30 div 512)"
    and "PDPT_INDEX (PHYS_REL a) = word_of_nat (unat a div 2 ^ 30 mod 512)"
    and "canonical (PHYS_REL a)" and "unat a div 2 ^ 30 < 2048"
proof -
  have a: "unat a < 2 ^ 41" using assms by (simp add: word_less_nat_alt)
  then show n: "unat a div 2 ^ 30 < 2048" by (simp add: div_less_iff_less_mult)
  define h where "h = unat a div 2 ^ 39"
  have h: "h < 4" using a by (simp add: h_def div_less_iff_less_mult)
  have hn: "unat a div 2 ^ 30 div 512 = h" by (simp add: h_def flip: div_mult2_eq)
  have v: "unat (PHYS_REL a) = unat a + 0xfffffe0000000000" using unat_phys_rel [OF assms] .
  have d39: "unat (PHYS_REL a) div 2 ^ 39 = h + 33554428"
  proof -
    have "unat (PHYS_REL a) = unat a + 2 ^ 39 * 33554428" using v by simp
    then show ?thesis unfolding h_def by simp
  qed
  have "unat (PML4T_INDEX (PHYS_REL a)) = (h + 33554428) mod 512"
    using d39 by (simp add: PML4T_INDEX_def unat_and_511 unat_drop)
  also have "\<dots> = 508 + h"
  proof -
    have "h + 33554428 = (508 + h) + 512 * 65535" by simp
    then have "(h + 33554428) mod 512 = (508 + h) mod 512" by (simp only: mod_mult_self2)
    then show ?thesis using h by simp
  qed
  finally have u4: "unat (PML4T_INDEX (PHYS_REL a)) = 508 + h" .
  moreover have "unat (508 + word_of_nat h :: u64) = 508 + h" using h by (simp add: unat_word_ariths unat_of_nat)
  ultimately show i4: "PML4T_INDEX (PHYS_REL a) = 508 + word_of_nat (unat a div 2 ^ 30 div 512)"
    unfolding hn by (intro word_eq_by_unat) simp
  have "unat (PHYS_REL a) div 2 ^ 30 = unat a div 2 ^ 30 + 17179867136"
  proof -
    have "unat (PHYS_REL a) = unat a + 2 ^ 30 * 17179867136" using v by simp
    then show ?thesis by simp
  qed
  then have "unat (PDPT_INDEX (PHYS_REL a)) = (unat a div 2 ^ 30 + 512 * 33554428) mod 512"
    by (simp add: PDPT_INDEX_def unat_and_511 unat_drop)
  then have "unat (PDPT_INDEX (PHYS_REL a)) = unat a div 2 ^ 30 mod 512" by (simp only: mod_mult_self2)
  then show "PDPT_INDEX (PHYS_REL a) = word_of_nat (unat a div 2 ^ 30 mod 512)"
    by (intro word_eq_by_unat) (simp add: unat_of_nat)
  have "unat (drop_bit 48 (PHYS_REL a)) = 65535"
  proof -
    have "unat (PHYS_REL a) div 2 ^ 48 = unat (PHYS_REL a) div 2 ^ 39 div 512" by (simp flip: div_mult2_eq)
    then show ?thesis using d39 h by (auto simp: unat_drop)
  qed
  then have "drop_bit 48 (PHYS_REL a) = 0xffff" by (intro word_eq_by_unat) simp
  moreover have "PML4T_INDEX (PHYS_REL a) AND 0x100 \<noteq> 0"
  proof -
    have "h = 0 \<or> h = 1 \<or> h = 2 \<or> h = 3" using h by linarith
    then show ?thesis using i4 hn by auto
  qed
  ultimately show "canonical (PHYS_REL a)" by (simp add: canonical_def)
qed

lemma huge_entry:
  assumes "n < 2048"
  defines "x \<equiv> (word_of_nat n * HUGE_PAGE_SIZE :: u64) OR PAGE_FLAG_PRESENT OR PAGE_FLAG_RW OR PAGE_FLAG_SIZE OR PAGE_FLAG_GLOBAL"
  shows "present x" and "large x" and "bit (ALIGN_DOWN x HUGE_PAGE_SIZE) i \<longleftrightarrow> 30 \<le> i \<and> i < 64 \<and> bit n (i - 30)"
proof -
  have p: "word_of_nat n * HUGE_PAGE_SIZE = push_bit 30 (word_of_nat n :: u64)"
    by (simp add: HUGE_PAGE_SIZE_def push_bit_eq_mult)
  have fl: "PAGE_FLAG_PRESENT OR PAGE_FLAG_RW OR PAGE_FLAG_SIZE OR PAGE_FLAG_GLOBAL = (0x183 :: u64)"
    by (simp add: PAGE_FLAG_PRESENT_def PAGE_FLAG_RW_def PAGE_FLAG_SIZE_def PAGE_FLAG_GLOBAL_def)
  have small: "bit (0x183 :: u64) i \<Longrightarrow> i < 30" for i
  proof -
    assume "bit (0x183 :: u64) i"
    then have "bit (unat (0x183 :: u64)) i" by (simp only: bit_unsigned_iff) simp
    moreover have "take_bit 30 (unat (0x183 :: u64)) = unat (0x183 :: u64)" by (simp add: take_bit_eq_mod)
    ultimately have "bit (take_bit 30 (unat (0x183 :: u64))) i" by (simp only:)
    then show "i < 30" by (simp only: bit_take_bit_iff)
  qed
  have x: "x = push_bit 30 (word_of_nat n) OR 0x183" by (simp only: x_def p fl)
  show "present x" "large x" by (simp_all add: x present_bit large_bit bit_or_iff bit_numeral_rec)
  have m: "HUGE_PAGE_SIZE - 1 = mask 30" by (simp add: HUGE_PAGE_SIZE_def mask_eq_exp_minus_1)
  show "bit (ALIGN_DOWN x HUGE_PAGE_SIZE) i \<longleftrightarrow> 30 \<le> i \<and> i < 64 \<and> bit n (i - 30)"
    unfolding ALIGN_DOWN_def m x bit_and_iff bit_or_iff bit_not_iff bit_mask_iff bit_push_bit_iff bit_of_nat_iff
    using small [of i] by (auto simp: not_less)
qed

text \<open>
  C15: After vm_init the physical memory below 2 TiB is mapped at the offset that PHYS_REL adds:
  the kernel page tables translate PHYS_REL of every such address back to the address.
\<close>

theorem vm_init_physical_map:
  assumes "kernel_syms_ok k" and "a < 0x20000000000"
  shows "vm_phys_addr (ks_pml4t k) (PHYS_REL a) (vm_init k mem_size counts s) = a"
proof -
  let ?n = "unat a div 2 ^ 30" and ?s = "vm_init_tables k s" and ?p = "ks_pml4t k"
  let ?u = "ks_phys_map_pdpt k + 0x1000 * word_of_nat (?n div 512)"
  note ix = phys_map_index [OF assms(2)]
  note en = vm_init_entries [OF assms(1) ix(4), of s]
  have al: "page_aligned (?u - KERNEL_VMA)"
    using assms(1) phys_map_cell(2) [OF ix(4), of k] by (simp add: kernel_syms_ok_def list_all_iff)
  have fl: "page_flags (PAGE_FLAG_PRESENT OR PAGE_FLAG_RW OR PAGE_FLAG_GLOBAL)" "bit (PAGE_FLAG_PRESENT OR PAGE_FLAG_RW OR PAGE_FLAG_GLOBAL) 0"
    by (simp_all add: PAGE_FLAG_PRESENT_def PAGE_FLAG_RW_def PAGE_FLAG_GLOBAL_def page_flags_def bit_numeral_rec)
  let ?e4 = "(?u - KERNEL_VMA) OR PAGE_FLAG_PRESENT OR PAGE_FLAG_RW OR PAGE_FLAG_GLOBAL"
  have e4: "present ?e4" "table_at ?e4 = ?u"
    using entry_flags(1) [OF al fl(1)] fl(2) entry_address [OF al fl(1)]
    by (simp_all add: table_at_def PHYS_REL_def LOW_PHYSICAL_BASE_VMA_def KERNEL_VMA_def or.assoc)
  let ?x = "(word_of_nat ?n * HUGE_PAGE_SIZE :: u64) OR PAGE_FLAG_PRESENT OR PAGE_FLAG_RW OR PAGE_FLAG_SIZE OR PAGE_FLAG_GLOBAL"
  note hu = huge_entry [OF ix(4)]
  have "vm_phys_addr ?p (PHYS_REL a) ?s = ALIGN_DOWN ?x HUGE_PAGE_SIZE OR (PHYS_REL a AND (HUGE_PAGE_SIZE - 1))"
    unfolding vm_phys_addr_def Let_def ix(1,2) en(1) e4(2) en(2) using ix(3) e4(1) hu(1,2) by simp
  also have "\<dots> = a"
  proof (rule bit_word_eqI)
    fix i assume "i < LENGTH(64)"
    then have i: "i < 64" by simp
    have m: "HUGE_PAGE_SIZE - 1 = mask 30" by (simp add: HUGE_PAGE_SIZE_def mask_eq_exp_minus_1)
    have low: "take_bit 30 (PHYS_REL a) = take_bit 30 a"
    proof (rule word_eq_by_unat)
      have "unat (PHYS_REL a) mod 2 ^ 30 = (unat a + 2 ^ 30 * 17179867136) mod 2 ^ 30" using unat_phys_rel [OF assms(2)] by simp
      also have "\<dots> = unat a mod 2 ^ 30" by (rule mod_mult_self2)
      finally show "unat (take_bit 30 (PHYS_REL a)) = unat (take_bit 30 a)" by (simp add: unat_take)
    qed
    have "bit (PHYS_REL a AND (HUGE_PAGE_SIZE - 1)) i \<longleftrightarrow> i < 30 \<and> bit a i"
      unfolding m using low by (simp add: bit_take_bit_iff flip: take_bit_eq_mask)
    moreover have "30 \<le> i \<Longrightarrow> bit ?n (i - 30) \<longleftrightarrow> bit a i"
    proof -
      assume "30 \<le> i"
      then have "bit (drop_bit 30 (unat a)) (i - 30) \<longleftrightarrow> bit (unat a) i" by (simp add: bit_drop_bit_eq)
      then show ?thesis using i by (simp add: drop_bit_eq_div bit_unsigned_iff)
    qed
    ultimately show "bit (ALIGN_DOWN ?x HUGE_PAGE_SIZE OR (PHYS_REL a AND (HUGE_PAGE_SIZE - 1))) i \<longleftrightarrow> bit a i"
      using i hu(3) [of i] by (auto simp: bit_or_iff not_less)
  qed
  finally show ?thesis by (simp only: vm_init_def Let_def vm_phys_addr_pages)
qed

definition sample_syms :: kernel_syms where
  "sample_syms = \<lparr>ks_pml4t = PHYS_REL 0x100000, ks_alloc_space_pdpt = PHYS_REL 0x101000, ks_phys_map_pdpt = PHYS_REL 0x102000,
     ks_thread_local_pdpt = PHYS_REL 0x106000, ks_stack_pdt = PHYS_REL 0x107000, ks_stack_pt = PHYS_REL 0x108000,
     ks_boot_stack = PHYS_REL 0x109000, ks_kernel_end = PHYS_REL 0x300000\<rparr>"

theorem vm_init_physical_map_witness:
  "vm_phys_addr (PHYS_REL 0x100000) (PHYS_REL 0x123456789) (vm_init sample_syms 0x40000000 [] empty_space) = 0x123456789"
proof -
  have "kernel_syms_ok sample_syms"
    by (simp add: kernel_syms_ok_def kernel_structs_def sample_syms_def PHYS_REL_def LOW_PHYSICAL_BASE_VMA_def KERNEL_VMA_def page_aligned_def)
  then show ?thesis using vm_init_physical_map [of sample_syms "0x123456789"] by (simp add: sample_syms_def)
qed

text \<open>
  mark_resv_mem_alloc clears as many bytes as there are frames, not as many counts: three
  quarters of the counts behind the reserved frames keep what memory held before.
\<close>

theorem mark_resv_mem_alloc_short:
  assumes "mark_resv_mem_alloc mem_size pg = Some pg'" and "n = unat (next_phys_addr pg div PAGE_SIZE)"
    and "k = unat ((mem_size - next_phys_addr pg) div PAGE_SIZE)" and "n + (k + 3) div 4 \<le> i" and "i < length (phys_alloc_table pg)"
  shows "phys_alloc_table pg' ! i = phys_alloc_table pg ! i"
proof -
  have t: "phys_alloc_table pg' = replicate n 1 @ clear_bytes k (drop n (phys_alloc_table pg))"
    using assms(1-3) by (auto simp: mark_resv_mem_alloc_def Let_def split: if_splits)
  have "n \<le> i" "k \<le> 4 * (i - n)" using assms(4) by linarith+
  moreover have "i - n < length (drop n (phys_alloc_table pg))" using assms(4,5) by simp
  ultimately show ?thesis unfolding t by (simp add: nth_append clear_bytes_def)
qed

end
