(* ===== verification/Pml_String.thy ===== *)
theory Pml_String
  imports Pml_Memory
begin

text \<open>
  The string functions of util/ on byte memory: strlen.c, memchr.c, strchr.c, memcmp.c,
  strcmp.c, memmove.c, strcpy.c, strcat.c, strdup.c and strstr.c. Pointers are addresses in
  \<open>memory\<close> below \<open>2 ^ 64\<close>; the null pointer a function returns is \<open>None\<close> inside the result.
  Loops that run until a byte is found have the value \<open>None\<close> when there is none.

  The macro call \<open>ALIGNED (p, long)\<close> of strlen.c, memcmp.c, memmove.c and strcmp.c expands to a
  test against the mask \<open>(long) -1\<close>, which only the null pointer passes; it is
  \<open>ALIGNED p 0\<close> here. The calls with \<open>sizeof (long)\<close> test for a multiple of 8.
\<close>

section \<open>Loops\<close>

definition load64 :: "memory \<Rightarrow> nat \<Rightarrow> u64" where
  "load64 m a = word_of_nat (load_le m a 8)"

definition aligned_to :: "u64 \<Rightarrow> nat \<Rightarrow> bool" where
  "aligned_to s p \<longleftrightarrow> ALIGNED (word_of_nat p) s"

text \<open>Byte by byte and word by word up to a condition, and byte by byte up to an aligned address.\<close>

partial_function (option) byte_loop :: "(u8 \<Rightarrow> bool) \<Rightarrow> memory \<Rightarrow> nat \<Rightarrow> nat option" where
  "byte_loop P m p = (if P (m p) then Some p else byte_loop P m (Suc p))"

partial_function (option) word_loop :: "(u64 \<Rightarrow> bool) \<Rightarrow> memory \<Rightarrow> nat \<Rightarrow> nat option" where
  "word_loop Q m p = (if Q (load64 m p) then Some p else word_loop Q m (p + 8))"

partial_function (option) head_loop :: "u64 \<Rightarrow> (u8 \<Rightarrow> bool) \<Rightarrow> memory \<Rightarrow> nat \<Rightarrow> (nat + nat) option" where
  "head_loop al P m p =
     (if aligned_to al p then Some (Inr p)
      else if P (m p) then Some (Inl p)
      else head_loop al P m (Suc p))"

section \<open>Lengths and searches\<close>

definition strlen :: "memory \<Rightarrow> nat \<Rightarrow> nat option" where
  "strlen m str =
     Option.bind (head_loop 0 (\<lambda>c. c = 0) m str) (\<lambda>r. case r of
         Inl p \<Rightarrow> Some (p - str)
       | Inr p \<Rightarrow> Option.bind (word_loop (\<lambda>w. LONG_NULL w \<noteq> 0) m p) (\<lambda>p.
           map_option (\<lambda>p. p - str) (byte_loop (\<lambda>c. c = 0) m p)))"

fun strnlen_loop :: "memory \<Rightarrow> nat \<Rightarrow> nat \<Rightarrow> nat" where
  "strnlen_loop m p 0 = p"
| "strnlen_loop m p (Suc len) = (if m p \<noteq> 0 then strnlen_loop m (Suc p) len else p)"

definition strnlen :: "memory \<Rightarrow> nat \<Rightarrow> nat \<Rightarrow> nat" where
  "strnlen m str len = strnlen_loop m str len - str"

text \<open>The masks with the character in every byte: memchr.c doubles 16 and 32 bits, strchr.c 8, 16 and 32.\<close>

definition memchr_mask :: "u8 \<Rightarrow> u64" where
  "memchr_mask ch =
     (let m = push_bit 8 (ucast ch) OR ucast ch; m = push_bit 16 m OR m in push_bit 32 m OR m)"

definition strchr_mask :: "u8 \<Rightarrow> u64" where
  "strchr_mask ch =
     (let m = ucast ch; m = push_bit 8 m OR m; m = push_bit 16 m OR m in push_bit 32 m OR m)"

text \<open>The loops of memchr: up to an aligned address, over words, over bytes.\<close>

fun memchr_head :: "memory \<Rightarrow> u8 \<Rightarrow> nat \<Rightarrow> nat \<Rightarrow> nat option + nat \<times> nat" where
  "memchr_head m ch s len =
     (if aligned_to 8 s then Inr (s, len)
      else case len of
          0 \<Rightarrow> Inl None
        | Suc len \<Rightarrow> if m s = ch then Inl (Some s) else memchr_head m ch (Suc s) len)"

fun memchr_words :: "memory \<Rightarrow> u64 \<Rightarrow> nat \<Rightarrow> nat \<Rightarrow> nat \<times> nat" where
  "memchr_words m w p len =
     (if 8 \<le> len then if LONG_CHAR (load64 m p) w \<noteq> 0 then (p, len) else memchr_words m w (p + 8) (len - 8)
      else (p, len))"

declare memchr_head.simps [simp del] memchr_words.simps [simp del]

fun memchr_bytes :: "memory \<Rightarrow> u8 \<Rightarrow> nat \<Rightarrow> nat \<Rightarrow> nat option" where
  "memchr_bytes m ch s 0 = None"
| "memchr_bytes m ch s (Suc len) = (if m s = ch then Some s else memchr_bytes m ch (Suc s) len)"

definition memchr :: "memory \<Rightarrow> nat \<Rightarrow> int \<Rightarrow> nat \<Rightarrow> nat option" where
  "memchr m ptr c len =
     (let ch = word_of_int c in
      case memchr_head m ch ptr len of
        Inl r \<Rightarrow> r
      | Inr (s, len) \<Rightarrow>
          if 8 \<le> len then case memchr_words m (memchr_mask ch) s len of (s, len) \<Rightarrow> memchr_bytes m ch s len
          else memchr_bytes m ch s len)"

definition strchr :: "memory \<Rightarrow> nat \<Rightarrow> int \<Rightarrow> nat option option" where
  "strchr m str c =
     (let ch = word_of_int c in
      if ch = 0
      then Option.bind (head_loop 8 (\<lambda>c. c = 0) m str) (\<lambda>r. case r of
             Inl s \<Rightarrow> Some (Some s)
           | Inr s \<Rightarrow> Option.bind (word_loop (\<lambda>w. LONG_NULL w \<noteq> 0) m s) (\<lambda>s.
               map_option Some (byte_loop (\<lambda>c. c = 0) m s)))
      else Option.bind (head_loop 8 (\<lambda>c. c = 0 \<or> c = ch) m str) (\<lambda>r. case r of
             Inl s \<Rightarrow> Some (if m s = 0 then None else Some s)
           | Inr s \<Rightarrow> Option.bind (word_loop (\<lambda>w. LONG_NULL w \<noteq> 0 \<or> LONG_CHAR w (strchr_mask ch) \<noteq> 0) m s) (\<lambda>s.
               map_option (\<lambda>s. if m s = ch then Some s else None) (byte_loop (\<lambda>c. c = 0 \<or> c = ch) m s))))"

text \<open>The loop of strrchr from \<open>str\<close> with the last occurrence so far.\<close>

partial_function (option) strrchr_loop :: "memory \<Rightarrow> int \<Rightarrow> nat \<Rightarrow> nat option \<Rightarrow> nat option option" where
  "strrchr_loop m c str r =
     Option.bind (strchr m str c) (\<lambda>q. case q of None \<Rightarrow> Some r | Some p \<Rightarrow> strrchr_loop m c (Suc p) (Some p))"

definition strrchr :: "memory \<Rightarrow> nat \<Rightarrow> int \<Rightarrow> nat option option" where
  "strrchr m str c = (if c \<noteq> 0 then strrchr_loop m c str None else strchr m str c)"

section \<open>Comparisons\<close>

fun memcmp_words :: "memory \<Rightarrow> nat \<Rightarrow> nat \<Rightarrow> nat \<Rightarrow> nat \<times> nat \<times> nat" where
  "memcmp_words m a b len =
     (if 8 \<le> len then if load64 m a \<noteq> load64 m b then (a, b, len) else memcmp_words m (a + 8) (b + 8) (len - 8)
      else (a, b, len))"

declare memcmp_words.simps [simp del]

fun memcmp_bytes :: "memory \<Rightarrow> nat \<Rightarrow> nat \<Rightarrow> nat \<Rightarrow> int" where
  "memcmp_bytes m a b 0 = 0"
| "memcmp_bytes m a b (Suc len) =
     (if m a < m b then -1 else if m a > m b then 1 else memcmp_bytes m (Suc a) (Suc b) len)"

definition memcmp :: "memory \<Rightarrow> nat \<Rightarrow> nat \<Rightarrow> nat \<Rightarrow> int" where
  "memcmp m a b len =
     (if 8 \<le> len \<and> aligned_to 0 a \<and> aligned_to 0 b
      then case memcmp_words m a b len of (a, b, len) \<Rightarrow> memcmp_bytes m a b len
      else memcmp_bytes m a b len)"

text \<open>The word loop of strcmp stops with the result 0 (\<open>None\<close>) or at two words that differ.\<close>

partial_function (option) strcmp_words :: "memory \<Rightarrow> nat \<Rightarrow> nat \<Rightarrow> (nat \<times> nat) option option" where
  "strcmp_words m a b =
     (if load64 m a = load64 m b
      then if LONG_NULL (load64 m a) \<noteq> 0 then Some None else strcmp_words m (a + 8) (b + 8)
      else Some (Some (a, b)))"

partial_function (option) strcmp_bytes :: "memory \<Rightarrow> nat \<Rightarrow> nat \<Rightarrow> (nat \<times> nat) option" where
  "strcmp_bytes m a b = (if m a \<noteq> 0 \<and> m a = m b then strcmp_bytes m (Suc a) (Suc b) else Some (a, b))"

definition cmp_result :: "memory \<Rightarrow> nat \<Rightarrow> nat \<Rightarrow> int" where
  "cmp_result m a b = (if m a > m b then 1 else if m a < m b then -1 else 0)"

definition strcmp :: "memory \<Rightarrow> nat \<Rightarrow> nat \<Rightarrow> int option" where
  "strcmp m a b =
     (let tail = (\<lambda>(a, b). map_option (\<lambda>(a, b). cmp_result m a b) (strcmp_bytes m a b)) in
      if aligned_to 0 a \<and> aligned_to 0 b
      then Option.bind (strcmp_words m a b) (\<lambda>r. case r of None \<Rightarrow> Some 0 | Some q \<Rightarrow> tail q)
      else tail (a, b))"

fun strncmp_words :: "memory \<Rightarrow> nat \<Rightarrow> nat \<Rightarrow> nat \<Rightarrow> (nat \<times> nat \<times> nat) option" where
  "strncmp_words m a b len =
     (if 8 \<le> len \<and> load64 m a = load64 m b
      then if len - 8 = 0 \<or> LONG_NULL (load64 m a) \<noteq> 0 then None else strncmp_words m (a + 8) (b + 8) (len - 8)
      else Some (a, b, len))"

declare strncmp_words.simps [simp del]

fun strncmp_bytes :: "memory \<Rightarrow> nat \<Rightarrow> nat \<Rightarrow> nat \<Rightarrow> int" where
  "strncmp_bytes m a b 0 = cmp_result m a b"
| "strncmp_bytes m a b (Suc len) =
     (if m a = m b then if len = 0 \<or> m a = 0 then 0 else strncmp_bytes m (Suc a) (Suc b) len
      else cmp_result m a b)"

definition strncmp :: "memory \<Rightarrow> nat \<Rightarrow> nat \<Rightarrow> nat \<Rightarrow> int" where
  "strncmp m a b len =
     (if len = 0 then 0
      else if aligned_to 0 a \<and> aligned_to 0 b
      then case strncmp_words m a b len of None \<Rightarrow> 0 | Some (a, b, len) \<Rightarrow> strncmp_bytes m a b len
      else strncmp_bytes m a b len)"

section \<open>Copies\<close>

fun copy_down :: "memory \<Rightarrow> nat \<Rightarrow> nat \<Rightarrow> nat \<Rightarrow> memory" where
  "copy_down m d s 0 = m"
| "copy_down m d s (Suc len) = copy_down (m(d - 1 := m (s - 1))) (d - 1) (s - 1) len"

definition copy_word :: "memory \<Rightarrow> nat \<Rightarrow> nat \<Rightarrow> memory" where
  "copy_word m d s = store_le m d 8 (load_le m s 8)"

fun copy_words4 :: "memory \<Rightarrow> nat \<Rightarrow> nat \<Rightarrow> nat \<Rightarrow> memory \<times> nat \<times> nat \<times> nat" where
  "copy_words4 m d s len =
     (if 32 \<le> len
      then let m = copy_word m d s; m = copy_word m (d + 8) (s + 8); m = copy_word m (d + 16) (s + 16);
               m = copy_word m (d + 24) (s + 24)
           in copy_words4 m (d + 32) (s + 32) (len - 32)
      else (m, d, s, len))"

fun copy_words :: "memory \<Rightarrow> nat \<Rightarrow> nat \<Rightarrow> nat \<Rightarrow> memory \<times> nat \<times> nat \<times> nat" where
  "copy_words m d s len = (if 8 < len then copy_words (copy_word m d s) (d + 8) (s + 8) (len - 8) else (m, d, s, len))"

declare copy_words4.simps [simp del] copy_words.simps [simp del]

definition memmove :: "memory \<Rightarrow> nat \<Rightarrow> nat \<Rightarrow> nat \<Rightarrow> memory" where
  "memmove m dest src len =
     (if src < dest \<and> dest < src + len then copy_down m (dest + len) (src + len) len
      else if 32 \<le> len \<and> aligned_to 0 src \<and> aligned_to 0 dest
      then case copy_words4 m dest src len of
          (m, d, s, len) \<Rightarrow> (case copy_words m d s len of (m, d, s, len) \<Rightarrow> copy_bytes m d s len)
      else copy_bytes m dest src len)"

partial_function (option) strcpy_words :: "memory \<Rightarrow> nat \<Rightarrow> nat \<Rightarrow> (memory \<times> nat \<times> nat) option" where
  "strcpy_words m d s =
     (if LONG_NULL (load64 m s) = 0 then strcpy_words (copy_word m d s) (d + 8) (s + 8) else Some (m, d, s))"

partial_function (option) strcpy_bytes :: "memory \<Rightarrow> nat \<Rightarrow> nat \<Rightarrow> memory option" where
  "strcpy_bytes m d s = (let m' = m(d := m s) in if m s \<noteq> 0 then strcpy_bytes m' (Suc d) (Suc s) else Some m')"

definition strcpy :: "memory \<Rightarrow> nat \<Rightarrow> nat \<Rightarrow> memory option" where
  "strcpy m dest src =
     (if aligned_to 8 src \<and> aligned_to 8 dest
      then Option.bind (strcpy_words m dest src) (\<lambda>(m, d, s). strcpy_bytes m d s)
      else strcpy_bytes m dest src)"

fun strncpy_words :: "memory \<Rightarrow> nat \<Rightarrow> nat \<Rightarrow> nat \<Rightarrow> memory \<times> nat \<times> nat \<times> nat" where
  "strncpy_words m d s len =
     (if 8 \<le> len \<and> LONG_NULL (load64 m s) = 0 then strncpy_words (copy_word m d s) (d + 8) (s + 8) (len - 8)
      else (m, d, s, len))"

declare strncpy_words.simps [simp del]

fun strncpy_bytes :: "memory \<Rightarrow> nat \<Rightarrow> nat \<Rightarrow> nat \<Rightarrow> memory" where
  "strncpy_bytes m d s 0 = m"
| "strncpy_bytes m d s (Suc len) =
     (let m' = m(d := m s) in if m s = 0 then fill_bytes m' (Suc d) len 0 else strncpy_bytes m' (Suc d) (Suc s) len)"

definition strncpy :: "memory \<Rightarrow> nat \<Rightarrow> nat \<Rightarrow> nat \<Rightarrow> memory" where
  "strncpy m dest src len =
     (if aligned_to 8 src \<and> aligned_to 8 dest
      then case strncpy_words m dest src len of (m, d, s, len) \<Rightarrow> strncpy_bytes m d s len
      else strncpy_bytes m dest src len)"

text \<open>The end of the destination string, as strcat and strncat look for it.\<close>

definition strcat_end :: "memory \<Rightarrow> nat \<Rightarrow> nat option" where
  "strcat_end m dest =
     Option.bind (if aligned_to 8 dest then word_loop (\<lambda>w. LONG_NULL w \<noteq> 0) m dest else Some dest) (byte_loop (\<lambda>c. c = 0) m)"

definition strcat :: "memory \<Rightarrow> nat \<Rightarrow> nat \<Rightarrow> memory option" where
  "strcat m dest src = Option.bind (strcat_end m dest) (\<lambda>d. strcpy m d src)"

fun strncat_bytes :: "memory \<Rightarrow> nat \<Rightarrow> nat \<Rightarrow> nat \<Rightarrow> memory" where
  "strncat_bytes m d s 0 = m"
| "strncat_bytes m d s (Suc len) =
     (let m' = m(d := m s) in
      if m s = 0 then m' else strncat_bytes (if len = 0 then m'(Suc d := 0) else m') (Suc d) (Suc s) len)"

definition strncat :: "memory \<Rightarrow> nat \<Rightarrow> nat \<Rightarrow> nat \<Rightarrow> memory option" where
  "strncat m dest src len = map_option (\<lambda>d. strncat_bytes m d src len) (strcat_end m dest)"

section \<open>strstr\<close>

partial_function (option) strstr_loop :: "memory \<Rightarrow> nat \<Rightarrow> nat \<Rightarrow> nat \<Rightarrow> nat option option" where
  "strstr_loop m needle len h =
     (if m h = 0 then Some None
      else if memcmp m h needle len = 0 then Some (Some h)
      else strstr_loop m needle len (Suc h))"

definition strstr :: "memory \<Rightarrow> nat \<Rightarrow> nat \<Rightarrow> nat option option" where
  "strstr m haystack needle = Option.bind (strlen m needle) (\<lambda>len. strstr_loop m needle len haystack)"

end
