(* ===== verification/Pml_String_Spec.thy ===== *)
theory Pml_String_Spec
  imports Pml_String "HOL-Library.Sublist"
begin

text \<open>
  Correctness of the string functions: each optimised routine computes what a definition on
  lists of bytes says, whether or not it takes its path over whole words.
\<close>

section \<open>Words in memory\<close>

lemma load_le_byte: "i < n \<Longrightarrow> load_le m a n div 256 ^ i mod 256 = unat (m (a + i))"
proof (induction n arbitrary: a i)
  case (Suc n)
  show ?case
  proof (cases i)
    case (Suc j)
    have "load_le m a (Suc n) div 256 = load_le m (Suc a) n" by simp
    then have "load_le m a (Suc n) div 256 ^ i = load_le m (Suc a) n div 256 ^ j"
      using Suc by (simp only: power_Suc div_mult2_eq)
    then show ?thesis using Suc.IH [of j "Suc a"] Suc.prems Suc by simp
  qed simp
qed simp

lemma unat_load64: "unat (load64 m a) = load_le m a 8"
proof -
  have "load_le m a 8 < 2 ^ 64" using load_le_less [of m a 8] by simp
  then show ?thesis unfolding load64_def by (simp only: unat_of_nat) simp
qed

lemma load64_byte: "i < 8 \<Longrightarrow> take_bit 8 (drop_bit (8 * i) (load64 m a)) = ucast (m (a + i))"
proof (rule word_eq_by_unat)
  assume i: "i < 8"
  have "unat (take_bit 8 (drop_bit (8 * i) (load64 m a))) = unat (load64 m a) div 2 ^ (8 * i) mod 256"
    by (simp add: unat_take unat_drop)
  also have "\<dots> = load_le m a 8 div 256 ^ i mod 256" by (simp add: unat_load64 power_mult)
  also have "\<dots> = unat (m (a + i))" using load_le_byte [OF i] .
  finally show "unat (take_bit 8 (drop_bit (8 * i) (load64 m a))) = unat (ucast (m (a + i)) :: u64)"
    by simp
qed

lemma LONG_NULL_load: "LONG_NULL (load64 m a) \<noteq> 0 \<longleftrightarrow> (\<exists>i < 8. m (a + i) = 0)"
proof -
  have "ucast (m (a + i)) = (0 :: u64) \<longleftrightarrow> m (a + i) = 0" for i using ucast8_eq_iff [of "m (a + i)" 0] by simp
  then show ?thesis unfolding LONG_NULL_iff using load64_byte by auto
qed

text \<open>\<open>every_byte w ch\<close>: all bytes of the word are the character.\<close>

definition every_byte :: "u64 \<Rightarrow> u8 \<Rightarrow> bool" where
  "every_byte w ch \<longleftrightarrow> (\<forall>i < 8. take_bit 8 (drop_bit (8 * i) w) = ucast ch)"

lemma LONG_CHAR_load:
  assumes "every_byte w ch"
  shows "LONG_CHAR (load64 m a) w \<noteq> 0 \<longleftrightarrow> (\<exists>i < 8. m (a + i) = ch)"
proof -
  have "take_bit 8 (drop_bit (8 * i) (load64 m a XOR w)) = 0 \<longleftrightarrow> m (a + i) = ch" if "i < 8" for i
  proof -
    have "take_bit 8 (drop_bit (8 * i) (load64 m a XOR w)) = ucast (m (a + i)) XOR ucast ch"
      using load64_byte [OF that] assms that by (simp only: drop_bit_xor take_bit_xor every_byte_def)
    then show ?thesis by (simp only: xor_eq_0_iff ucast8_eq_iff)
  qed
  then show ?thesis unfolding LONG_CHAR_def LONG_NULL_iff by auto
qed

lemma bit_rep:
  fixes w :: u64
  assumes "\<And>n. bit w n \<longleftrightarrow> n < 64 \<and> bit ch (n mod 8)"
  shows "every_byte w ch"
  unfolding every_byte_def
proof (intro allI impI)
  fix i :: nat assume i: "i < 8"
  show "take_bit 8 (drop_bit (8 * i) w) = ucast ch"
  proof (rule bit_word_eqI)
    fix n
    have "n < 8 \<Longrightarrow> (8 * i + n) mod 8 = n" "n < 8 \<Longrightarrow> 8 * i + n < 64" using i by auto
    moreover have "bit ch n \<Longrightarrow> n < 8" using bit_imp_le_length [of ch n] by simp
    ultimately show "bit (take_bit 8 (drop_bit (8 * i) w)) n = bit (ucast ch :: u64) n"
      by (auto simp: bit_take_bit_iff bit_drop_bit_eq assms bit_ucast_iff add.commute)
  qed
qed

lemma bit_doubled:
  fixes w :: u64
  assumes "\<And>n. bit w n \<longleftrightarrow> n < 8 * k \<and> bit ch (n mod 8)" and "k \<le> 4"
  shows "bit (push_bit (8 * k) w OR w) n \<longleftrightarrow> n < 8 * (2 * k) \<and> bit ch (n mod 8)"
proof -
  have "8 * k \<le> n \<Longrightarrow> (n - 8 * k) mod 8 = n mod 8"
    by (metis le_add_diff_inverse mod_mult_self2 add.commute)
  then show ?thesis using assms(2)
    by (auto simp: bit_or_iff bit_push_bit_iff assms(1) not_less)
qed

lemma bit_ucast8: "bit (ucast (ch :: u8) :: u64) n \<longleftrightarrow> n < 8 * 1 \<and> bit ch (n mod 8)"
  using bit_imp_le_length [of ch n] by (auto simp: bit_ucast_iff)

lemma strchr_mask_bytes: "every_byte (strchr_mask ch) ch"
proof -
  have 1: "bit (push_bit 8 (ucast ch) OR ucast ch :: u64) n \<longleftrightarrow> n < 8 * 2 \<and> bit ch (n mod 8)" for n
    using bit_doubled [OF bit_ucast8, where ch = ch and n = n] by simp
  have 2: "bit (let m = push_bit 8 (ucast ch) OR ucast ch in push_bit 16 m OR m :: u64) n
        \<longleftrightarrow> n < 8 * 4 \<and> bit ch (n mod 8)" for n
    using bit_doubled [OF 1, where n = n] by (simp add: Let_def)
  have 3: "bit (strchr_mask ch) n \<longleftrightarrow> n < 64 \<and> bit ch (n mod 8)" for n
    using bit_doubled [OF 2, where n = n] by (simp add: Let_def strchr_mask_def)
  show ?thesis by (rule bit_rep) (rule 3)
qed

lemma memchr_mask_bytes: "every_byte (memchr_mask ch) ch"
  using strchr_mask_bytes [of ch] by (simp add: memchr_mask_def strchr_mask_def Let_def)

section \<open>Searches end at the first hit\<close>

text \<open>\<open>first_hit P m p n\<close>: the first byte from \<open>p\<close> that satisfies \<open>P\<close> is at \<open>p + n\<close>.\<close>

definition first_hit :: "(u8 \<Rightarrow> bool) \<Rightarrow> memory \<Rightarrow> nat \<Rightarrow> nat \<Rightarrow> bool" where
  "first_hit P m p n \<longleftrightarrow> P (m (p + n)) \<and> (\<forall>i < n. \<not> P (m (p + i)))"

lemma first_hit_advance: "first_hit P m p n \<Longrightarrow> k \<le> n \<Longrightarrow> first_hit P m (p + k) (n - k)"
  by (auto simp: first_hit_def add.assoc)

lemma byte_loop_hit: "first_hit P m p n \<Longrightarrow> byte_loop P m p = Some (p + n)"
proof (induction n arbitrary: p)
  case 0
  then show ?case by (subst byte_loop.simps) (simp add: first_hit_def)
next
  case (Suc n)
  have "byte_loop P m (Suc p) = Some (Suc p + n)"
    using Suc.IH [of "Suc p"] first_hit_advance [OF Suc.prems, of 1] by simp
  moreover have "\<not> P (m p)" using Suc.prems by (auto simp: first_hit_def)
  ultimately show ?case by (subst byte_loop.simps) simp
qed

lemma head_loop_hit:
  "first_hit P m p n \<Longrightarrow>
   head_loop al P m p = Some (Inl (p + n)) \<or> (\<exists>k \<le> n. head_loop al P m p = Some (Inr (p + k)))"
proof (induction n arbitrary: p)
  case 0
  then show ?case by (subst (1 2) head_loop.simps) (simp add: first_hit_def)
next
  case (Suc n)
  have "head_loop al P m (Suc p) = Some (Inl (Suc p + n)) \<or>
      (\<exists>k \<le> n. head_loop al P m (Suc p) = Some (Inr (Suc p + k)))"
    using Suc.IH [of "Suc p"] first_hit_advance [OF Suc.prems, of 1] by simp
  moreover have "\<not> P (m p)" using Suc.prems by (auto simp: first_hit_def)
  moreover have "aligned_to al p \<Longrightarrow> head_loop al P m p = Some (Inr (p + 0))" by (subst head_loop.simps) simp
  moreover have "\<not> aligned_to al p \<Longrightarrow> \<not> P (m p) \<Longrightarrow> head_loop al P m p = head_loop al P m (Suc p)"
    by (subst head_loop.simps) simp
  ultimately show ?case by (metis add_Suc_shift add_Suc Suc_le_mono le0)
qed

lemma word_loop_hit:
  assumes word: "\<And>a. Q (load64 m a) \<longleftrightarrow> (\<exists>i < 8. P (m (a + i)))"
  shows "first_hit P m p n \<Longrightarrow> \<exists>k \<le> n. word_loop Q m p = Some (p + k)"
proof (induction n arbitrary: p rule: less_induct)
  case (less n)
  show ?case
  proof (cases "n < 8")
    case True
    then have "Q (load64 m p)" using less.prems word by (auto simp: first_hit_def)
    then show ?thesis by (subst word_loop.simps) (auto intro: exI [of _ 0])
  next
    case False
    then have "\<not> Q (load64 m p)" using less.prems unfolding first_hit_def word by auto
    then have "word_loop Q m p = word_loop Q m (p + 8)" by (subst word_loop.simps) simp
    moreover obtain k where "k \<le> n - 8" "word_loop Q m (p + 8) = Some (p + 8 + k)"
      using less.IH [of "n - 8" "p + 8"] first_hit_advance [OF less.prems, of 8] False by auto
    ultimately show ?thesis using False by (intro exI [of _ "8 + k"]) auto
  qed
qed

text \<open>The three loops one after the other, as strlen and strchr run them.\<close>

lemma search_hit:
  assumes word: "\<And>a. Q (load64 m a) \<longleftrightarrow> (\<exists>i < 8. P (m (a + i)))"
    and hit: "first_hit P m p n" and inl: "f (p + n) = Some r" and tail: "g (p + n) = r"
  shows "Option.bind (head_loop al P m p) (\<lambda>h. case h of
             Inl s \<Rightarrow> f s
           | Inr s \<Rightarrow> Option.bind (word_loop Q m s) (\<lambda>s. map_option g (byte_loop P m s))) = Some r"
  using head_loop_hit [OF hit, of al]
proof (elim disjE exE conjE)
  assume "head_loop al P m p = Some (Inl (p + n))"
  then show ?thesis using inl by simp
next
  fix k assume k: "k \<le> n" "head_loop al P m p = Some (Inr (p + k))"
  have h: "first_hit P m (p + k) (n - k)" by (rule first_hit_advance [OF hit k(1)])
  obtain j where j: "j \<le> n - k" "word_loop Q m (p + k) = Some (p + k + j)"
    using word_loop_hit [OF word h] by auto
  have "byte_loop P m (p + k + j) = Some (p + k + j + (n - k - j))"
    by (rule byte_loop_hit) (rule first_hit_advance [OF h j(1)])
  then show ?thesis using k j tail by simp
qed

section \<open>Strings\<close>

text \<open>\<open>cstr m p s\<close>: the bytes at \<open>p\<close> are the string \<open>s\<close> and its terminator.\<close>

definition cstr :: "memory \<Rightarrow> nat \<Rightarrow> u8 list \<Rightarrow> bool" where
  "cstr m p s \<longleftrightarrow> (\<forall>i < length s. m (p + i) = s ! i) \<and> m (p + length s) = 0 \<and> 0 \<notin> set s"

lemma cstr_first_zero: "cstr m p s \<Longrightarrow> first_hit (\<lambda>c. c = 0) m p (length s)"
  unfolding cstr_def first_hit_def by (metis nth_mem)

lemma cstr_nth: "cstr m p s \<Longrightarrow> i < length s \<Longrightarrow> m (p + i) = s ! i \<and> s ! i \<noteq> 0"
  unfolding cstr_def by (metis nth_mem)

lemma cstr_Cons: "cstr m p (c # s) \<longleftrightarrow> m p = c \<and> c \<noteq> 0 \<and> cstr m (Suc p) s"
  by (auto simp: cstr_def nth_Cons less_Suc_eq_0_disj split: nat.splits)

lemma cstr_Nil: "cstr m p [] \<longleftrightarrow> m p = 0"
  by (simp add: cstr_def)

text \<open>
  On a terminated string \<open>strlen\<close> returns, and returns its length, whatever the alignment
  of the string.\<close>

theorem strlen_correct: "cstr m p s \<Longrightarrow> strlen m p = Some (length s)"
  unfolding strlen_def
  by (rule search_hit [where P = "\<lambda>c. c = 0" and n = "length s"]) (simp_all add: LONG_NULL_load cstr_first_zero)

text \<open>The string "hi" at address 3 of an otherwise zero memory.\<close>

definition hi_mem :: memory where
  "hi_mem = (\<lambda>_. 0)(3 := 104, 4 := 105)"

lemma hi_mem_cstr: "cstr hi_mem 3 [104, 105]"
  by (simp add: cstr_Cons cstr_Nil hi_mem_def)

theorem strlen_witness: "strlen hi_mem 3 = Some 2"
  using strlen_correct [OF hi_mem_cstr] by simp

text \<open>The position of a character in a string, its length when it does not occur.\<close>

definition index_of :: "u8 \<Rightarrow> u8 list \<Rightarrow> nat" where
  "index_of ch s = length (takeWhile (\<lambda>c. c \<noteq> ch) s)"

lemma index_of_le: "index_of ch s \<le> length s"
  by (simp add: index_of_def length_takeWhile_le)

lemma nth_index_of: "index_of ch s < length s \<Longrightarrow> s ! index_of ch s = ch"
  using nth_length_takeWhile [of "\<lambda>c. c \<noteq> ch" s] by (simp add: index_of_def)

lemma nth_before_index_of: "i < index_of ch s \<Longrightarrow> s ! i \<noteq> ch"
proof -
  assume i: "i < index_of ch s"
  then have "takeWhile (\<lambda>c. c \<noteq> ch) s ! i \<in> set (takeWhile (\<lambda>c. c \<noteq> ch) s)"
    by (simp add: index_of_def)
  then have "takeWhile (\<lambda>c. c \<noteq> ch) s ! i \<noteq> ch" by (auto dest: set_takeWhileD)
  then show ?thesis using i by (simp add: index_of_def takeWhile_nth)
qed

lemma index_of_less: "index_of ch s < length s \<longleftrightarrow> ch \<in> set s"
  by (induction s) (auto simp: index_of_def)

lemma cstr_first_char:
  assumes "cstr m p s"
  shows "first_hit (\<lambda>c. c = 0 \<or> c = ch) m p (index_of ch s)"
proof -
  have "m (p + index_of ch s) = 0 \<or> m (p + index_of ch s) = ch"
  proof (cases "index_of ch s < length s")
    case True
    then show ?thesis using cstr_nth [OF assms True] nth_index_of [OF True] by simp
  next
    case False
    then have "index_of ch s = length s" using index_of_le [of ch s] by simp
    then show ?thesis using assms by (simp add: cstr_def)
  qed
  moreover have "m (p + i) \<noteq> 0 \<and> m (p + i) \<noteq> ch" if "i < index_of ch s" for i
    using cstr_nth [OF assms, of i] nth_before_index_of [OF that] that index_of_le [of ch s] by simp
  ultimately show ?thesis by (auto simp: first_hit_def)
qed

lemma LONG_NULL_CHAR_load:
  "LONG_NULL (load64 m a) \<noteq> 0 \<or> LONG_CHAR (load64 m a) (strchr_mask ch) \<noteq> 0
   \<longleftrightarrow> (\<exists>i < 8. m (a + i) = 0 \<or> m (a + i) = ch)"
  unfolding LONG_NULL_load LONG_CHAR_load [OF strchr_mask_bytes] by auto

text \<open>
  \<open>strchr\<close> on a terminated string returns the first position of the character, the
  position of the terminator for the character 0, and the null pointer when the string does
  not have the character.\<close>

theorem strchr_correct:
  assumes "cstr m p s"
  shows "strchr m p c =
    Some (if word_of_int c = (0 :: u8) then Some (p + length s)
          else if word_of_int c \<in> set s then Some (p + index_of (word_of_int c) s) else None)"
proof (cases "word_of_int c = (0 :: u8)")
  case True
  then show ?thesis unfolding strchr_def Let_def if_P [OF True]
    by (intro search_hit [where P = "\<lambda>c. c = 0" and n = "length s"])
      (simp_all add: LONG_NULL_load cstr_first_zero [OF assms])
next
  case False
  define ch :: u8 where "ch = word_of_int c"
  have nz: "ch \<noteq> 0" using False by (simp add: ch_def)
  have "ch \<in> set s \<longleftrightarrow> index_of ch s < length s"
    by (simp add: index_of_less)
  moreover have "index_of ch s < length s \<Longrightarrow> m (p + index_of ch s) = ch"
    using cstr_nth [OF assms] nth_index_of by simp
  moreover have "\<not> index_of ch s < length s \<Longrightarrow> m (p + index_of ch s) = 0"
    using index_of_le [of ch s] assms by (simp add: cstr_def)
  ultimately show ?thesis using nz
    unfolding strchr_def Let_def ch_def [symmetric] if_not_P [OF nz]
    by (intro search_hit [where P = "\<lambda>c. c = 0 \<or> c = ch" and n = "index_of ch s"])
      (rule LONG_NULL_CHAR_load, rule cstr_first_char [OF assms], auto)
qed

theorem strchr_witness: "strchr hi_mem 3 105 = Some (Some 4)"
  using strchr_correct [OF hi_mem_cstr, of 105] by (simp add: index_of_def)

section \<open>Searches in a block\<close>

lemma memchr_bytes_skip:
  "\<forall>i < k. m (p + i) \<noteq> ch \<Longrightarrow> k \<le> len \<Longrightarrow> memchr_bytes m ch p len = memchr_bytes m ch (p + k) (len - k)"
proof (induction k arbitrary: p len)
  case (Suc k)
  then obtain l where l: "len = Suc l" by (cases len) auto
  have "memchr_bytes m ch (Suc p) l = memchr_bytes m ch (Suc p + k) (l - k)"
    using Suc.prems l by (intro Suc.IH) auto
  moreover have "m p \<noteq> ch" using Suc.prems(1) by (metis add_0_right zero_less_Suc)
  ultimately show ?case using l by simp
qed simp

lemma memchr_head_spec:
  "memchr_bytes m ch s len =
     (case memchr_head m ch s len of Inl r \<Rightarrow> r | Inr (s, len) \<Rightarrow> memchr_bytes m ch s len)"
  by (induction len arbitrary: s) (subst memchr_head.simps, simp)+

lemma memchr_words_spec:
  assumes "every_byte w ch"
  shows "(case memchr_words m w p len of (p, len) \<Rightarrow> memchr_bytes m ch p len) = memchr_bytes m ch p len"
proof (induction len arbitrary: p rule: less_induct)
  case (less len)
  show ?case
  proof (cases "8 \<le> len \<and> LONG_CHAR (load64 m p) w = 0")
    case True
    then have "\<forall>i < 8. m (p + i) \<noteq> ch" using LONG_CHAR_load [OF assms, of m p] by auto
    then have "memchr_bytes m ch p len = memchr_bytes m ch (p + 8) (len - 8)"
      using True by (intro memchr_bytes_skip) auto
    moreover have "memchr_words m w p len = memchr_words m w (p + 8) (len - 8)"
      using True by (subst memchr_words.simps) simp
    ultimately show ?thesis using less.IH [of "len - 8" "p + 8"] True by simp
  next
    case False
    then have "memchr_words m w p len = (p, len)" by (subst memchr_words.simps) auto
    then show ?thesis by simp
  qed
qed

text \<open>
  \<open>memchr\<close>, which compares whole words from the first aligned address on, returns what the
  loop over single bytes returns, on every block and for every length.\<close>

theorem memchr_bytewise: "memchr m p c len = memchr_bytes m (word_of_int c) p len"
  unfolding memchr_def Let_def
  unfolding memchr_words_spec [OF memchr_mask_bytes] if_cancel by (rule memchr_head_spec [symmetric])

section \<open>Comparisons\<close>

text \<open>The lexicographic comparison of two byte strings as -1, 0 or 1.\<close>

fun lex_cmp :: "u8 list \<Rightarrow> u8 list \<Rightarrow> int" where
  "lex_cmp [] [] = 0"
| "lex_cmp [] (y # ys) = -1"
| "lex_cmp (x # xs) [] = 1"
| "lex_cmp (x # xs) (y # ys) = (if x < y then -1 else if y < x then 1 else lex_cmp xs ys)"

definition bytes_at :: "memory \<Rightarrow> nat \<Rightarrow> nat \<Rightarrow> u8 list" where
  "bytes_at m p len = map (\<lambda>i. m (p + i)) [0..<len]"

lemma bytes_at_0 [simp]: "bytes_at m p 0 = []"
  by (simp add: bytes_at_def)

lemma bytes_at_Suc [simp]: "bytes_at m p (Suc n) = m p # bytes_at m (Suc p) n"
  unfolding bytes_at_def by (simp add: upt_conv_Cons map_Suc_upt [symmetric] del: upt_Suc)

lemma load64_eq_iff: "load64 m a = load64 m b \<longleftrightarrow> (\<forall>i < 8. m (a + i) = m (b + i))"
proof
  assume "load64 m a = load64 m b"
  then show "\<forall>i < 8. m (a + i) = m (b + i)" using load64_byte [of _ m a] load64_byte [of _ m b] by simp
next
  assume *: "\<forall>i < 8. m (a + i) = m (b + i)"
  have "(\<forall>i < n. m (a + i) = m (b + i)) \<Longrightarrow> load_le m a n = load_le m b n" for n
  proof (induction n arbitrary: a b)
    case (Suc n)
    have "m (Suc a + i) = m (Suc b + i)" if "i < n" for i using Suc.prems that by (metis Suc_less_eq add_Suc_shift)
    then have "load_le m (Suc a) n = load_le m (Suc b) n" by (intro Suc.IH) simp
    moreover have "m a = m b" using Suc.prems by (metis add_0_right zero_less_Suc)
    ultimately show ?case by simp
  qed simp
  then show "load64 m a = load64 m b" using * by (simp add: load64_def)
qed

lemma memcmp_bytes_lex: "memcmp_bytes m a b len = lex_cmp (bytes_at m a len) (bytes_at m b len)"
  by (induction len arbitrary: a b) auto

lemma memcmp_bytes_skip:
  "\<forall>i < k. m (a + i) = m (b + i) \<Longrightarrow> k \<le> len \<Longrightarrow> memcmp_bytes m a b len = memcmp_bytes m (a + k) (b + k) (len - k)"
proof (induction k arbitrary: a b len)
  case (Suc k)
  then obtain l where l: "len = Suc l" by (cases len) auto
  have "memcmp_bytes m (Suc a) (Suc b) l = memcmp_bytes m (Suc a + k) (Suc b + k) (l - k)"
    using Suc.prems l by (intro Suc.IH) auto
  moreover have "m a = m b" using Suc.prems(1) by (metis add_0_right zero_less_Suc)
  ultimately show ?case using l by simp
qed simp

lemma memcmp_words_spec:
  "(case memcmp_words m a b len of (a, b, len) \<Rightarrow> memcmp_bytes m a b len) = memcmp_bytes m a b len"
proof (induction len arbitrary: a b rule: less_induct)
  case (less len)
  show ?case
  proof (cases "8 \<le> len \<and> load64 m a = load64 m b")
    case True
    then have "memcmp_bytes m a b len = memcmp_bytes m (a + 8) (b + 8) (len - 8)"
      by (intro memcmp_bytes_skip) (auto simp: load64_eq_iff)
    moreover have "memcmp_words m a b len = memcmp_words m (a + 8) (b + 8) (len - 8)"
      using True by (subst memcmp_words.simps) simp
    ultimately show ?thesis using less.IH [of "len - 8" "a + 8" "b + 8"] True by simp
  next
    case False
    then have "memcmp_words m a b len = (a, b, len)" by (subst memcmp_words.simps) auto
    then show ?thesis by simp
  qed
qed

text \<open>
  \<open>memcmp\<close> is the lexicographic comparison of the two blocks, on the path over words and on
  the path over bytes.\<close>

theorem memcmp_lexicographic: "memcmp m a b len = lex_cmp (bytes_at m a len) (bytes_at m b len)"
  unfolding memcmp_def memcmp_bytes_lex [symmetric] by (simp add: memcmp_words_spec)

text \<open>The loop of strcmp over bytes on two strings.\<close>

lemma cstr_same_byte:
  "cstr m a (x # s) \<Longrightarrow> cstr m b (y # t) \<Longrightarrow> m a = x \<and> m b = y \<and> x \<noteq> 0 \<and> y \<noteq> 0"
  by (simp add: cstr_Cons)

lemma strcmp_bytes_lex:
  "cstr m a s \<Longrightarrow> cstr m b t \<Longrightarrow>
   map_option (\<lambda>(a, b). cmp_result m a b) (strcmp_bytes m a b) = Some (lex_cmp s t)"
proof (induction s t arbitrary: a b rule: lex_cmp.induct)
  case (4 x xs y ys)
  show ?case
  proof (cases "x = y")
    case True
    then show ?thesis using 4 by (subst strcmp_bytes.simps) (auto simp: cstr_Cons)
  next
    case False
    then show ?thesis using "4.prems" by (subst strcmp_bytes.simps) (auto simp: cstr_Cons cmp_result_def)
  qed
next
  case (2 y ys)
  then show ?case using strcmp_bytes.simps [of m a b] by (simp add: cstr_Nil cstr_Cons cmp_result_def word_neq_0_conv)
next
  case (3 x xs)
  then show ?case using strcmp_bytes.simps [of m a b] by (auto simp add: cstr_Nil cstr_Cons cmp_result_def word_neq_0_conv)
next
  case 1
  then show ?case using strcmp_bytes.simps [of m a b] by (simp add: cstr_Nil cmp_result_def)
qed

text \<open>Words that are equal: both strings end in them, or both go on after them.\<close>

lemma cstr_drop: "cstr m p s \<Longrightarrow> k \<le> length s \<Longrightarrow> cstr m (p + k) (drop k s)"
proof (induction k arbitrary: p s)
  case (Suc k)
  then obtain c s' where s: "s = c # s'" by (cases s) auto
  then have "cstr m (Suc p + k) (drop k s')" using Suc by (intro Suc.IH) (auto simp: cstr_Cons)
  then show ?case using s by simp
qed simp

lemma cstr_long:
  assumes "cstr m p s" and "\<forall>i < k. m (p + i) \<noteq> 0"
  shows "k \<le> length s"
  using assms unfolding cstr_def by (meson not_le_imp_less)

lemma cstr_short:
  assumes "cstr m p s" and "i < k" and "m (p + i) = 0"
  shows "length s < k"
  using cstr_nth [OF assms(1), of i] assms(2,3) by (metis leI less_le_trans order_less_trans)

lemma lex_cmp_skip: "take k s = take k t \<Longrightarrow> lex_cmp s t = lex_cmp (drop k s) (drop k t)"
proof (induction s t arbitrary: k rule: lex_cmp.induct)
  case (4 x xs y ys)
  then show ?case by (cases k) auto
qed (case_tac k; simp)+

lemma cstr_take_eq:
  assumes "cstr m a s" "cstr m b t" and eq: "\<forall>i < k. m (a + i) = m (b + i)"
  shows "take k s = take k t"
  using assms
proof (induction k arbitrary: a b s t)
  case (Suc k)
  have "m (Suc a + i) = m (Suc b + i)" if "i < k" for i
    using Suc.prems(3) that by (metis Suc_less_eq add_Suc_shift)
  moreover have "m a = m b" using Suc.prems(3) by (metis add_0_right zero_less_Suc)
  ultimately show ?case using Suc.prems(1,2) Suc.IH [of "Suc a" _ "Suc b"]
    by (cases s; cases t) (auto simp: cstr_Cons cstr_Nil)
qed simp

lemma strcmp_words_spec:
  "cstr m a s \<Longrightarrow> cstr m b t \<Longrightarrow>
   strcmp_words m a b = Some None \<and> lex_cmp s t = 0 \<or>
   (\<exists>k. strcmp_words m a b = Some (Some (a + k, b + k)) \<and> k \<le> length s \<and> k \<le> length t \<and> take k s = take k t)"
proof (induction "length s" arbitrary: a b s t rule: less_induct)
  case less
  show ?case
  proof (cases "load64 m a = load64 m b")
    case False
    then have "strcmp_words m a b = Some (Some (a + 0, b + 0))" by (subst strcmp_words.simps) simp
    then show ?thesis by (intro disjI2 exI [of _ 0]) simp
  next
    case True
    then have eq: "\<forall>i < 8. m (a + i) = m (b + i)" by (simp add: load64_eq_iff)
    have tk: "take 8 s = take 8 t" by (rule cstr_take_eq [OF less.prems eq])
    show ?thesis
    proof (cases "LONG_NULL (load64 m a) \<noteq> 0")
      case True
      then obtain i where i: "i < 8" "m (a + i) = 0" unfolding LONG_NULL_load by auto
      then have "length s < 8" "length t < 8"
        using cstr_short [OF less.prems(1), of i 8] cstr_short [OF less.prems(2), of i 8] eq by auto
      then have "s = t" using tk by simp
      moreover have "strcmp_words m a b = Some None" using \<open>load64 m a = load64 m b\<close> True
        by (subst strcmp_words.simps) simp
      moreover have "lex_cmp s s = 0" using lex_cmp_skip [of "length s" s s] by simp
      ultimately show ?thesis by simp
    next
      case False
      then have nz: "\<forall>i < 8. m (a + i) \<noteq> 0" using LONG_NULL_load [of m a] by auto
      have l: "8 \<le> length s" "8 \<le> length t"
        using cstr_long [OF less.prems(1) nz] cstr_long [OF less.prems(2), of 8] nz eq by auto
      have step: "strcmp_words m a b = strcmp_words m (a + 8) (b + 8)"
        using True False by (subst strcmp_words.simps) simp
      have "strcmp_words m (a + 8) (b + 8) = Some None \<and> lex_cmp (drop 8 s) (drop 8 t) = 0 \<or>
        (\<exists>k. strcmp_words m (a + 8) (b + 8) = Some (Some (a + 8 + k, b + 8 + k)) \<and>
           k \<le> length (drop 8 s) \<and> k \<le> length (drop 8 t) \<and> take k (drop 8 s) = take k (drop 8 t))"
        using l cstr_drop [OF less.prems(1)] cstr_drop [OF less.prems(2)] by (intro less.hyps) auto
      then show ?thesis
      proof (elim disjE exE conjE)
        fix k assume k: "strcmp_words m (a + 8) (b + 8) = Some (Some (a + 8 + k, b + 8 + k))"
          "k \<le> length (drop 8 s)" "k \<le> length (drop 8 t)" "take k (drop 8 s) = take k (drop 8 t)"
        then have "take (8 + k) s = take (8 + k) t" using tk by (simp add: take_add)
        then show ?thesis using k l step by (intro disjI2 exI [of _ "8 + k"]) (auto simp: add.assoc)
      qed (use step lex_cmp_skip [OF tk] in simp)
    qed
  qed
qed

text \<open>
  C21: \<open>strcmp\<close> on terminated strings returns, and its result is the lexicographic comparison
  of the strings as unsigned bytes.\<close>

theorem strcmp_lexicographic:
  assumes "cstr m a s" and "cstr m b t"
  shows "strcmp m a b = Some (lex_cmp s t)"
proof (cases "aligned_to 0 a \<and> aligned_to 0 b")
  case False
  then show ?thesis using strcmp_bytes_lex [OF assms] unfolding strcmp_def Let_def if_not_P [OF False] prod.case by blast
next
  case True
  then show ?thesis using strcmp_words_spec [OF assms]
    by (auto simp: strcmp_def strcmp_bytes_lex [OF cstr_drop [OF assms(1)] cstr_drop [OF assms(2)]]
      lex_cmp_skip [symmetric] split del: if_split)
qed

theorem strcmp_witness: "strcmp hi_mem 3 4 = Some (-1)"
proof -
  have "cstr hi_mem 4 [105]" by (simp add: cstr_Cons cstr_Nil hi_mem_def)
  from strcmp_lexicographic [OF hi_mem_cstr this] show ?thesis by simp
qed

lemma strncmp_bytes_lex:
  "cstr m a s \<Longrightarrow> cstr m b t \<Longrightarrow> 0 < len \<Longrightarrow> strncmp_bytes m a b len = lex_cmp (take len s) (take len t)"
proof (induction s t arbitrary: a b len rule: lex_cmp.induct)
  case (4 x xs y ys)
  then obtain l where l: "len = Suc l" by (cases len) auto
  show ?case
  proof (cases "x = y")
    case True
    then show ?thesis using 4 l by (auto simp: cstr_Cons)
  next
    case False
    then show ?thesis using "4.prems" l by (auto simp: cstr_Cons cmp_result_def)
  qed
qed (case_tac len; auto simp: cstr_Nil cstr_Cons cmp_result_def word_neq_0_conv)+

lemma strncmp_words_spec:
  "cstr m a s \<Longrightarrow> cstr m b t \<Longrightarrow> 0 < len \<Longrightarrow>
   (case strncmp_words m a b len of None \<Rightarrow> 0 | Some (a, b, len) \<Rightarrow> strncmp_bytes m a b len)
   = lex_cmp (take len s) (take len t)"
proof (induction len arbitrary: a b s t rule: less_induct)
  case (less len)
  show ?case
  proof (cases "8 \<le> len \<and> load64 m a = load64 m b")
    case False
    then have "strncmp_words m a b len = Some (a, b, len)" by (subst strncmp_words.simps) auto
    then show ?thesis using strncmp_bytes_lex [OF less.prems] by simp
  next
    case word: True
    then have eq: "\<forall>i < 8. m (a + i) = m (b + i)" by (simp add: load64_eq_iff)
    have tk: "take 8 s = take 8 t" by (rule cstr_take_eq [OF less.prems(1,2) eq])
    have refl: "lex_cmp u u = 0" for u using lex_cmp_skip [of "length u" u u] by simp
    show ?thesis
    proof (cases "len - 8 = 0 \<or> LONG_NULL (load64 m a) \<noteq> 0")
      case True
      have "take len s = take len t"
      proof (cases "len = 8")
        case False
        then obtain i where i: "i < 8" "m (a + i) = 0" using True word LONG_NULL_load [of m a] by auto
        then have "length s < 8" "length t < 8"
          using cstr_short [OF less.prems(1), of i 8] cstr_short [OF less.prems(2), of i 8] eq by auto
        then show ?thesis using tk by simp
      qed (use tk in simp)
      moreover have "strncmp_words m a b len = None" using word True by (subst strncmp_words.simps) simp
      ultimately show ?thesis by (simp add: refl)
    next
      case False
      then have nz: "\<forall>i < 8. m (a + i) \<noteq> 0" using LONG_NULL_load [of m a] by auto
      have "8 \<le> length s" "8 \<le> length t"
        using cstr_long [OF less.prems(1) nz] cstr_long [OF less.prems(2), of 8] nz eq by auto
      then have "(case strncmp_words m (a + 8) (b + 8) (len - 8) of None \<Rightarrow> 0 | Some (a, b, len) \<Rightarrow> strncmp_bytes m a b len)
          = lex_cmp (take (len - 8) (drop 8 s)) (take (len - 8) (drop 8 t))"
        using False word cstr_drop [OF less.prems(1)] cstr_drop [OF less.prems(2)] by (intro less.IH) auto
      moreover have "lex_cmp (take len s) (take len t) = lex_cmp (drop 8 (take len s)) (drop 8 (take len t))"
        using tk word by (intro lex_cmp_skip) (simp add: min_absorb1)
      moreover have "strncmp_words m a b len = strncmp_words m (a + 8) (b + 8) (len - 8)"
        using word False by (subst strncmp_words.simps) simp
      ultimately show ?thesis by (simp add: drop_take)
    qed
  qed
qed

text \<open>
  \<open>strncmp\<close> compares at most the first \<open>len\<close> characters: its result is the lexicographic
  comparison of the two strings cut at \<open>len\<close>, and 0 for the length 0.\<close>

theorem strncmp_lexicographic:
  assumes "cstr m a s" and "cstr m b t"
  shows "strncmp m a b len = lex_cmp (take len s) (take len t)"
  using strncmp_words_spec [OF assms, of len] strncmp_bytes_lex [OF assms, of len]
  by (simp add: strncmp_def)

theorem strncmp_witness: "strncmp hi_mem 3 3 1 = 0"
  using strncmp_lexicographic [OF hi_mem_cstr hi_mem_cstr, of 1] by simp

section \<open>Copies\<close>

text \<open>\<open>copied m d s n\<close>: the memory after \<open>n\<close> bytes from \<open>s\<close> have been written to \<open>d\<close> at once.\<close>

definition copied :: "memory \<Rightarrow> nat \<Rightarrow> nat \<Rightarrow> nat \<Rightarrow> memory" where
  "copied m d s n = (\<lambda>x. if d \<le> x \<and> x < d + n then m (x - d + s) else m x)"

lemma copied_0 [simp]: "copied m d s 0 = m"
  by (rule ext) (auto simp: copied_def)

lemma copied_1: "copied m d s (Suc 0) = m(d := m s)"
  by (auto simp: copied_def fun_eq_iff)

text \<open>A copy in ascending pieces is right when the destination does not start inside the source.\<close>

lemma copied_append:
  assumes "d \<le> s \<or> s + (j + k) \<le> d"
  shows "copied (copied m d s j) (d + j) (s + j) k = copied m d s (j + k)"
proof
  fix x
  show "copied (copied m d s j) (d + j) (s + j) k x = copied m d s (j + k) x"
  proof (cases "d + j \<le> x \<and> x < d + j + k")
    case True
    define i where "i = x - (d + j)"
    have x: "x = d + j + i" "i < k" using True by (auto simp: i_def)
    then have "\<not> (d \<le> i + (s + j) \<and> i + (s + j) < d + j)" using assms by linarith
    then have "copied m d s j (i + (s + j)) = m (i + (s + j))" by (auto simp: copied_def)
    then show ?thesis using x
      by (simp add: copied_def [of "copied m d s j"] copied_def [of m d s "j + k"] ac_simps)
  next
    case False
    then show ?thesis by (auto simp: copied_def)
  qed
qed

lemma copy_bytes_copied: "d \<le> s \<or> s + n \<le> d \<Longrightarrow> copy_bytes m d s n = copied m d s n"
proof (induction n arbitrary: m d s)
  case (Suc n)
  have "copy_bytes m d s (Suc n) = copied (copied m d s 1) (d + 1) (s + 1) n"
    using Suc by (auto simp: copied_1 [unfolded fun_upd_def] fun_upd_def)
  then show ?case using copied_append [of d s 1 n m] Suc.prems by simp
qed simp

lemma store_le_byte: "i < n \<Longrightarrow> store_le m a n v (a + i) = word_of_nat (v div 256 ^ i)"
proof (induction n arbitrary: m a v i)
  case (Suc n)
  show ?case
  proof (cases i)
    case 0
    then show ?thesis by (simp add: store_le_other)
  next
    case (Suc j)
    then show ?thesis using Suc.IH [of j _ "Suc a" "v div 256"] Suc.prems by (simp add: div_mult2_eq)
  qed
qed simp

lemma word8_of_nat_mod: "(word_of_nat v :: u8) = word_of_nat (v mod 256)"
  by (rule word_eq_by_unat) (simp add: unat_word_of_nat8)

lemma copy_word_copied: "copy_word m d s = copied m d s 8"
proof
  fix x
  show "copy_word m d s x = copied m d s 8 x"
  proof (cases "d \<le> x \<and> x < d + 8")
    case False
    then show ?thesis by (auto simp: copy_word_def copied_def store_le_other)
  next
    case True
    define i where "i = x - d"
    have i: "x = d + i" "i < 8" using True by (auto simp: i_def)
    have "word_of_nat (load_le m s 8 div 256 ^ i) = m (s + i)"
      by (subst word8_of_nat_mod) (simp add: load_le_byte [OF i(2)])
    then show ?thesis using i by (simp add: copy_word_def store_le_byte copied_def add.commute)
  qed
qed

lemma copy_down_copied: "s < d \<Longrightarrow> copy_down m (d + n) (s + n) n = copied m d s n"
proof (induction n arbitrary: m)
  case (Suc n)
  have "copy_down m (d + Suc n) (s + Suc n) (Suc n) = copied (m(d + n := m (s + n))) d s n"
    using Suc by simp
  also have "\<dots> = copied m d s (Suc n)" using Suc.prems by (auto simp: copied_def fun_eq_iff add.commute)
  finally show ?case .
qed simp

text \<open>Both word loops copy a prefix and leave the rest to the byte loop.\<close>

lemma copy_words_spec:
  "d \<le> s \<or> s + len \<le> d \<Longrightarrow> \<exists>k \<le> len. copy_words m d s len = (copied m d s k, d + k, s + k, len - k)"
proof (induction len arbitrary: m d s rule: less_induct)
  case (less len)
  show ?case
  proof (cases "8 < len")
    case True
    obtain k where k: "k \<le> len - 8" "copy_words (copied m d s 8) (d + 8) (s + 8) (len - 8) =
        (copied (copied m d s 8) (d + 8) (s + 8) k, d + 8 + k, s + 8 + k, len - 8 - k)"
      using less.IH [of "len - 8" "d + 8" "s + 8" "copied m d s 8"] less.prems True by auto
    have "copied (copied m d s 8) (d + 8) (s + 8) k = copied m d s (8 + k)"
      using less.prems k(1) True by (intro copied_append) auto
    then show ?thesis using k True
      by (intro exI [of _ "8 + k"]) (subst copy_words.simps, auto simp: copy_word_copied)
  next
    case False
    then show ?thesis by (intro exI [of _ 0]) (subst copy_words.simps, simp)
  qed
qed

lemma copy_words4_step:
  assumes "d \<le> s \<or> s + len \<le> d" and "32 \<le> len"
  shows "copy_words4 m d s len = copy_words4 (copied m d s 32) (d + 32) (s + 32) (len - 32)"
proof -
  have c: "copied (copied m d s j) (d + j) (s + j) 8 = copied m d s (j + 8)" if "j \<le> 24" for j
    using assms that by (intro copied_append) auto
  have "copied (copied (copied (copied m d s 8) (d + 8) (s + 8) 8) (d + 16) (s + 16) 8) (d + 24) (s + 24) 8
      = copied m d s 32"
    using c [of 8] c [of 16] c [of 24] by simp
  then show ?thesis using assms(2) by (subst copy_words4.simps) (simp add: copy_word_copied Let_def)
qed

lemma copy_words4_spec:
  "d \<le> s \<or> s + len \<le> d \<Longrightarrow> \<exists>k \<le> len. copy_words4 m d s len = (copied m d s k, d + k, s + k, len - k)"
proof (induction len arbitrary: m d s rule: less_induct)
  case (less len)
  show ?case
  proof (cases "32 \<le> len")
    case True
    obtain k where k: "k \<le> len - 32" "copy_words4 (copied m d s 32) (d + 32) (s + 32) (len - 32) =
        (copied (copied m d s 32) (d + 32) (s + 32) k, d + 32 + k, s + 32 + k, len - 32 - k)"
      using less.IH [of "len - 32" "d + 32" "s + 32" "copied m d s 32"] less.prems True by auto
    have "copied (copied m d s 32) (d + 32) (s + 32) k = copied m d s (32 + k)"
      using less.prems k(1) True by (intro copied_append) auto
    then show ?thesis using k True copy_words4_step [OF less.prems True, of m]
      by (intro exI [of _ "32 + k"]) auto
  next
    case False
    then show ?thesis by (intro exI [of _ 0]) (subst copy_words4.simps, simp)
  qed
qed

text \<open>
  C20: \<open>memmove\<close> gives every byte of the destination the value the source byte had before the
  call and changes no other byte, also when the blocks overlap in either direction and on the
  paths that copy one and four words at a time.\<close>

theorem memmove_correct:
  "memmove m d s len x = (if d \<le> x \<and> x < d + len then m (x - d + s) else m x)"
proof (cases "s < d \<and> d < s + len")
  case True
  then show ?thesis using copy_down_copied [of s d m len] by (simp add: memmove_def copied_def)
next
  case False
  then have ok: "d \<le> s \<or> s + len \<le> d" by auto
  obtain k where k: "k \<le> len" "copy_words4 m d s len = (copied m d s k, d + k, s + k, len - k)"
    using copy_words4_spec [OF ok] by blast
  obtain j where j: "j \<le> len - k" "copy_words (copied m d s k) (d + k) (s + k) (len - k) =
      (copied (copied m d s k) (d + k) (s + k) j, d + k + j, s + k + j, len - k - j)"
    using copy_words_spec [of "d + k" "s + k" "len - k"] ok k(1) by force
  have "copied (copied m d s k) (d + k) (s + k) j = copied m d s (k + j)"
    using ok k(1) j(1) by (intro copied_append) auto
  moreover have "copy_bytes (copied m d s (k + j)) (d + k + j) (s + k + j) (len - k - j) = copied m d s len"
    using ok k(1) j(1) copied_append [of d s "k + j" "len - k - j" m]
      copy_bytes_copied [of "d + k + j" "s + k + j" "len - k - j"] by (auto simp: add.assoc)
  ultimately have "memmove m d s len = copied m d s len"
    using False k j copy_bytes_copied [OF ok] by (auto simp: memmove_def)
  then show ?thesis by (simp add: copied_def)
qed

text \<open>The string read through a copy that does not touch it.\<close>

lemma cstr_copied_ahead:
  assumes "cstr m s str" and "d \<le> s \<or> s + length str < d" and "k \<le> length str"
  shows "cstr (copied m d s k) (s + k) (drop k str)"
proof -
  have "copied m d s k (s + k + i) = m (s + k + i)" if "i \<le> length str - k" for i
    using assms(2,3) that by (auto simp: copied_def)
  then show ?thesis using cstr_drop [OF assms(1,3)] by (simp add: cstr_def)
qed

lemma strcpy_bytes_copied:
  "cstr m s str \<Longrightarrow> d \<le> s \<or> s + length str < d \<Longrightarrow> strcpy_bytes m d s = Some (copied m d s (Suc (length str)))"
proof (induction str arbitrary: m d s)
  case Nil
  then show ?case by (subst strcpy_bytes.simps) (simp add: cstr_Nil copied_1 Let_def)
next
  case (Cons c str)
  have "cstr (copied m d s 1) (s + 1) str" using cstr_copied_ahead [OF Cons.prems, of 1] by simp
  then have "strcpy_bytes (copied m d s 1) (d + 1) (s + 1) = Some (copied (copied m d s 1) (d + 1) (s + 1) (Suc (length str)))"
    using Cons.prems(2) Cons.IH [of "copied m d s 1" "s + 1" "d + 1"] by auto
  also have "copied (copied m d s 1) (d + 1) (s + 1) (Suc (length str)) = copied m d s (Suc (length (c # str)))"
    using Cons.prems(2) copied_append [of d s 1 "Suc (length str)" m] by auto
  finally show ?case using Cons.prems(1) strcpy_bytes.simps [of m d s, folded copied_1] by (simp add: cstr_Cons Let_def)
qed

lemma strcpy_words_copied:
  "cstr m s str \<Longrightarrow> d \<le> s \<or> s + length str < d \<Longrightarrow>
   \<exists>k \<le> length str. strcpy_words m d s = Some (copied m d s k, d + k, s + k)"
proof (induction "length str" arbitrary: m d s str rule: less_induct)
  case less
  show ?case
  proof (cases "LONG_NULL (load64 m s) = 0")
    case True
    then have 8: "8 \<le> length str" using cstr_long [OF less.prems(1), of 8] LONG_NULL_load [of m s] by auto
    have "cstr (copied m d s 8) (s + 8) (drop 8 str)" by (rule cstr_copied_ahead [OF less.prems 8])
    then obtain k where k: "k \<le> length (drop 8 str)" "strcpy_words (copied m d s 8) (d + 8) (s + 8) =
        Some (copied (copied m d s 8) (d + 8) (s + 8) k, d + 8 + k, s + 8 + k)"
      using less.hyps [of "drop 8 str" "copied m d s 8" "s + 8" "d + 8"] less.prems(2) 8 by force
    have "copied (copied m d s 8) (d + 8) (s + 8) k = copied m d s (8 + k)"
      using less.prems(2) k(1) 8 by (intro copied_append) auto
    then show ?thesis using k 8 True
      by (intro exI [of _ "8 + k"]) (subst strcpy_words.simps, auto simp: copy_word_copied)
  next
    case False
    then show ?thesis by (intro exI [of _ 0]) (subst strcpy_words.simps, simp)
  qed
qed

lemma strcpy_copied:
  assumes "cstr m s str" and "d \<le> s \<or> s + length str < d"
  shows "strcpy m d s = Some (copied m d s (Suc (length str)))"
proof -
  obtain k where k: "k \<le> length str" "strcpy_words m d s = Some (copied m d s k, d + k, s + k)"
    using strcpy_words_copied [OF assms] by blast
  have "strcpy_bytes (copied m d s k) (d + k) (s + k) =
      Some (copied (copied m d s k) (d + k) (s + k) (Suc (length (drop k str))))"
    using assms(2) k(1) by (intro strcpy_bytes_copied cstr_copied_ahead [OF assms k(1)]) auto
  also have "copied (copied m d s k) (d + k) (s + k) (Suc (length (drop k str))) = copied m d s (Suc (length str))"
    using assms(2) k(1) copied_append [of d s k "Suc (length str - k)" m] by auto
  finally show ?thesis using k(2) strcpy_bytes_copied [OF assms] by (simp add: strcpy_def)
qed

text \<open>The end of a string is found on both paths.\<close>

lemma strcat_end_correct:
  assumes "cstr m d str"
  shows "strcat_end m d = Some (d + length str)"
proof (cases "aligned_to 8 d")
  case False
  then show ?thesis using byte_loop_hit [OF cstr_first_zero [OF assms]] by (simp add: strcat_end_def)
next
  case True
  obtain k where k: "k \<le> length str" "word_loop (\<lambda>w. LONG_NULL w \<noteq> 0) m d = Some (d + k)"
    using word_loop_hit [where P = "\<lambda>c. c = 0" and Q = "\<lambda>w. LONG_NULL w \<noteq> 0", OF LONG_NULL_load cstr_first_zero [OF assms]]
    by (elim exE conjE)
  then show ?thesis using True byte_loop_hit [OF first_hit_advance [OF cstr_first_zero [OF assms] k(1)]]
    by (simp add: strcat_end_def)
qed

lemma cstr_copied:
  assumes "cstr m s str"
  shows "cstr (copied m d s (Suc (length str))) d str"
proof -
  have "copied m d s (Suc (length str)) (d + i) = m (s + i)" if "i \<le> length str" for i
    using that by (simp add: copied_def add.commute)
  then show ?thesis using assms by (simp add: cstr_def)
qed

lemma cstr_append:
  assumes "\<forall>i < length t. m (d + i) = t ! i" and "0 \<notin> set t" and "cstr m (d + length t) str"
  shows "cstr m d (t @ str)"
  using assms
proof (induction t arbitrary: d)
  case (Cons c t)
  have "m (Suc d + i) = t ! i" if "i < length t" for i using Cons.prems(1) [rule_format, of "Suc i"] that by simp
  then show ?case using Cons.prems(1) [rule_format, of 0] Cons.prems(2,3) Cons.IH [of "Suc d"] by (simp add: cstr_Cons)
qed simp

text \<open>
  \<open>strcat\<close> on two terminated strings that do not overlap the space written returns, leaves
  the concatenation at the destination and changes only the bytes after the old string.\<close>

theorem strcat_correct:
  assumes "cstr m d t" and "cstr m s str" and "d + length t \<le> s \<or> s + length str < d + length t"
  shows "\<exists>m'. strcat m d s = Some m' \<and> cstr m' d (t @ str) \<and>
    (\<forall>x. x < d + length t \<or> d + length t + length str < x \<longrightarrow> m' x = m x)"
proof (intro exI conjI)
  let ?m = "copied m (d + length t) s (Suc (length str))"
  show "strcat m d s = Some ?m"
    using strcat_end_correct [OF assms(1)] strcpy_copied [OF assms(2,3)] by (simp add: strcat_def)
  show "cstr ?m d (t @ str)"
    using cstr_nth [OF assms(1)] assms(1)
    by (intro cstr_append cstr_copied [OF assms(2)]) (auto simp: copied_def cstr_def)
  show "\<forall>x. x < d + length t \<or> d + length t + length str < x \<longrightarrow> ?m x = m x"
    by (auto simp: copied_def)
qed

theorem strcat_witness:
  "\<exists>m'. strcat (hi_mem(0 := 33)) 0 3 = Some m' \<and> cstr m' 0 [33, 104, 105]"
proof -
  have "cstr (hi_mem(0 := 33)) 0 [33]" "cstr (hi_mem(0 := 33)) 3 [104, 105]"
    by (simp_all add: cstr_Cons cstr_Nil hi_mem_def)
  from strcat_correct [OF this] show ?thesis by auto
qed

text \<open>The loops of strncpy: a copy of at most \<open>len\<close> bytes and a fill of the rest.\<close>

lemma strncpy_bytes_spec:
  "cstr m s str \<Longrightarrow> d \<le> s \<or> s + length str < d \<Longrightarrow>
   strncpy_bytes m d s len =
     fill_bytes (copied m d s (min len (Suc (length str)))) (d + min len (Suc (length str))) (len - Suc (length str)) 0"
proof (induction str arbitrary: m d s len)
  case Nil
  then have "m(d := 0) = copied m d s (Suc 0)" using copied_1 [of m d s] by (simp add: cstr_Nil)
  then show ?case using Nil by (cases len) (auto simp: cstr_Nil Let_def)
next
  case (Cons c str)
  show ?case
  proof (cases len)
    case (Suc l)
    let ?n = "min l (Suc (length str))"
    have "cstr (copied m d s 1) (s + 1) str" using cstr_copied_ahead [OF Cons.prems, of 1] by simp
    then have "strncpy_bytes (copied m d s 1) (d + 1) (s + 1) l =
        fill_bytes (copied (copied m d s 1) (d + 1) (s + 1) ?n) (d + 1 + ?n) (l - Suc (length str)) 0"
      using Cons.prems(2) by (intro Cons.IH) auto
    moreover have "copied (copied m d s 1) (d + 1) (s + 1) ?n = copied m d s (1 + ?n)"
      using Cons.prems(2) by (intro copied_append) auto
    moreover have "strncpy_bytes m d s len = strncpy_bytes (copied m d s 1) (d + 1) (s + 1) l"
      using Cons.prems(1) Suc by (simp add: cstr_Cons Let_def copied_1)
    ultimately show ?thesis using Suc by simp
  qed simp
qed

lemma strncpy_words_copied:
  "cstr m s str \<Longrightarrow> d \<le> s \<or> s + length str < d \<Longrightarrow>
   \<exists>k \<le> length str. k \<le> len \<and> strncpy_words m d s len = (copied m d s k, d + k, s + k, len - k)"
proof (induction len arbitrary: m d s str rule: less_induct)
  case (less len)
  show ?case
  proof (cases "8 \<le> len \<and> LONG_NULL (load64 m s) = 0")
    case True
    then have 8: "8 \<le> length str" using cstr_long [OF less.prems(1), of 8] LONG_NULL_load [of m s] by auto
    have "cstr (copied m d s 8) (s + 8) (drop 8 str)" by (rule cstr_copied_ahead [OF less.prems 8])
    then obtain k where k: "k \<le> length (drop 8 str)" "k \<le> len - 8"
        "strncpy_words (copied m d s 8) (d + 8) (s + 8) (len - 8) =
        (copied (copied m d s 8) (d + 8) (s + 8) k, d + 8 + k, s + 8 + k, len - 8 - k)"
      using less.IH [of "len - 8" "copied m d s 8" "s + 8" "drop 8 str" "d + 8"] less.prems(2) 8 True by force
    have "copied (copied m d s 8) (d + 8) (s + 8) k = copied m d s (8 + k)"
      using less.prems(2) k(1) 8 by (intro copied_append) auto
    then show ?thesis using k 8 True
      by (intro exI [of _ "8 + k"]) (subst strncpy_words.simps, auto simp: copy_word_copied)
  next
    case False
    then show ?thesis by (intro exI [of _ 0]) (subst strncpy_words.simps, auto)
  qed
qed

text \<open>
  \<open>strncpy\<close> writes exactly \<open>len\<close> bytes: the characters of the source as far as they go,
  then zeros. No terminator is written when the source has \<open>len\<close> characters or more.\<close>

theorem strncpy_correct:
  assumes "cstr m s str" and "d \<le> s \<or> s + length str < d"
  shows "strncpy m d s len x =
    (if d \<le> x \<and> x < d + len then if x - d < length str then str ! (x - d) else 0 else m x)"
proof -
  let ?L = "Suc (length str)"
  let ?r = "fill_bytes (copied m d s (min len ?L)) (d + min len ?L) (len - ?L) 0"
  obtain k where k: "k \<le> length str" "k \<le> len" "strncpy_words m d s len = (copied m d s k, d + k, s + k, len - k)"
    using strncpy_words_copied [OF assms, of len] by blast
  have l: "Suc (length (drop k str)) = ?L - k" using k(1) by (simp add: Suc_diff_le)
  have "strncpy_bytes (copied m d s k) (d + k) (s + k) (len - k) =
      fill_bytes (copied (copied m d s k) (d + k) (s + k) (min (len - k) (?L - k)))
        (d + k + min (len - k) (?L - k)) (len - k - (?L - k)) 0"
    using assms(2) k(1) strncpy_bytes_spec [OF cstr_copied_ahead [OF assms k(1)], of "d + k" "len - k"] l by force
  also have "copied (copied m d s k) (d + k) (s + k) (min (len - k) (?L - k)) = copied m d s (k + min (len - k) (?L - k))"
    using assms(2) k(1) by (intro copied_append) auto
  also have "k + min (len - k) (?L - k) = min len ?L" using k(1,2) by simp
  also have "d + k + min (len - k) (?L - k) = d + min len ?L" using k(1,2) by simp
  also have "len - k - (?L - k) = len - ?L" using k(1) by simp
  finally have "strncpy m d s len = ?r"
    using k(3) strncpy_bytes_spec [OF assms, of len] by (simp add: strncpy_def)
  moreover have "?r x = (if d \<le> x \<and> x < d + len then if x - d < length str then str ! (x - d) else 0 else m x)"
  proof (cases "d \<le> x")
    case True
    then obtain i where x: "x = d + i" using le_Suc_ex by blast
    have "i < length str \<Longrightarrow> m (i + s) = str ! i" "m (length str + s) = 0"
      using cstr_nth [OF assms(1), of i] assms(1) by (simp_all add: cstr_def add.commute)
    then show ?thesis using x by (auto simp: fill_bytes_spec copied_def less_Suc_eq)
  qed (auto simp: fill_bytes_spec copied_def)
  ultimately show ?thesis by simp
qed

theorem strncpy_witness: "strncpy hi_mem 8 3 4 9 = 105"
  using strncpy_correct [OF hi_mem_cstr, of 8 4 9] by simp

section \<open>strstr\<close>

lemma lex_cmp_0_iff: "lex_cmp s t = 0 \<longleftrightarrow> s = t"
  by (induction s t rule: lex_cmp.induct) auto

lemma cstr_bytes_at: "cstr m p s \<Longrightarrow> bytes_at m p (length s) = s"
  by (induction s arbitrary: p) (auto simp: cstr_Cons)

lemma bytes_at_prefix:
  "cstr m p s \<Longrightarrow> 0 \<notin> set t \<Longrightarrow> bytes_at m p (length t) = t \<longleftrightarrow> prefix t s"
proof (induction t arbitrary: p s)
  case (Cons c t)
  then show ?case by (cases s) (auto simp: cstr_Cons cstr_Nil)
qed simp

lemma memcmp_prefix:
  assumes "cstr m h s" and "cstr m needle t"
  shows "memcmp m h needle (length t) = 0 \<longleftrightarrow> prefix t s"
proof -
  have "0 \<notin> set t" using assms(2) by (simp add: cstr_def)
  then show ?thesis using bytes_at_prefix [OF assms(1)] cstr_bytes_at [OF assms(2)]
    by (simp only: memcmp_lexicographic lex_cmp_0_iff)
qed

lemma strstr_loop_spec:
  assumes "cstr m needle ns"
  shows "cstr m h hs \<Longrightarrow>
    (\<exists>k < length hs. strstr_loop m needle (length ns) h = Some (Some (h + k)) \<and> prefix ns (drop k hs) \<and>
       (\<forall>j < k. \<not> prefix ns (drop j hs))) \<or>
    strstr_loop m needle (length ns) h = Some None \<and> (\<forall>k < length hs. \<not> prefix ns (drop k hs))"
proof (induction hs arbitrary: h)
  case Nil
  then show ?case by (subst (1 2) strstr_loop.simps) (simp add: cstr_Nil)
next
  case (Cons c hs)
  note mem = memcmp_prefix [OF Cons.prems assms]
  have c: "m h \<noteq> 0" "cstr m (Suc h) hs" using Cons.prems by (auto simp: cstr_Cons)
  show ?case
  proof (cases "prefix ns (c # hs)")
    case True
    then have "strstr_loop m needle (length ns) h = Some (Some (h + 0))"
      using c mem by (subst strstr_loop.simps) simp
    then show ?thesis using True by (intro disjI1 exI [of _ 0]) simp
  next
    case False
    then have step: "strstr_loop m needle (length ns) h = strstr_loop m needle (length ns) (Suc h)"
      using c mem by (subst strstr_loop.simps) simp
    have ge: "(\<forall>j < Suc k. \<not> prefix ns (drop j (c # hs))) \<longleftrightarrow> (\<forall>j < k. \<not> prefix ns (drop j hs))" for k
      using False by (auto simp: less_Suc_eq_0_disj)
    from Cons.IH [OF c(2)] show ?thesis
    proof (elim disjE exE conjE)
      fix k assume "k < length hs" "strstr_loop m needle (length ns) (Suc h) = Some (Some (Suc h + k))"
        "prefix ns (drop k hs)" "\<forall>j < k. \<not> prefix ns (drop j hs)"
      then show ?thesis using step ge [of k] by (intro disjI1 exI [of _ "Suc k"]) simp
    qed (use step ge [of "length hs"] in simp)
  qed
qed

text \<open>
  \<open>strstr\<close> on terminated strings returns: the first position at which the needle is a prefix
  of the rest of the haystack, or the null pointer when there is none, reading nothing past
  the terminator into account.\<close>

theorem strstr_correct:
  assumes "cstr m h hs" and "cstr m needle ns"
  shows "(\<exists>k < length hs. strstr m h needle = Some (Some (h + k)) \<and> prefix ns (drop k hs) \<and>
       (\<forall>j < k. \<not> prefix ns (drop j hs))) \<or>
    strstr m h needle = Some None \<and> (\<forall>k < length hs. \<not> prefix ns (drop k hs))"
  using strstr_loop_spec [OF assms(2,1)] strlen_correct [OF assms(2)] by (simp add: strstr_def)

theorem strstr_witness: "\<exists>k < 2. strstr hi_mem 3 4 = Some (Some (3 + k))"
proof -
  have "cstr hi_mem 4 [105]" by (simp add: cstr_Cons cstr_Nil hi_mem_def)
  from strstr_correct [OF hi_mem_cstr this] show ?thesis by (auto simp: less_Suc_eq_0_disj numeral_2_eq_2)
qed

end
