(* ===== verification/Pml_Strdup.thy ===== *)
theory Pml_Strdup
  imports Pml_Kheap_Spec Pml_String_Spec
begin

text \<open>
  Copies of strings on the kernel heap (util/strdup.c), and what they promise when the string
  lies in a block of the same heap: the two components meet in the memory of the heap.
\<close>

definition strdup :: "nat \<Rightarrow> kheap \<Rightarrow> (nat \<times> kheap) option" where
  "strdup str s =
     do {
       n \<leftarrow> strlen (hmem s) str;
       let len = (n + 1) mod 2 ^ 64;
       (ptr, s) \<leftarrow> malloc len s;
       (if ptr \<noteq> 0 then Some (ptr, s\<lparr>hmem := copy_bytes (hmem s) ptr str len\<rparr>) else Some (ptr, s))
     }"

definition strndup :: "nat \<Rightarrow> nat \<Rightarrow> kheap \<Rightarrow> (nat \<times> kheap) option" where
  "strndup str len s =
     do {
       str_len \<leftarrow> strlen (hmem s) str;
       let len = (if str_len < len then str_len else len);
       (ptr, s) \<leftarrow> malloc ((len + 1) mod 2 ^ 64) s;
       (if ptr \<noteq> 0
        then Some (ptr, s\<lparr>hmem := (copy_bytes (hmem s) ptr str len)(ptr + len := 0)\<rparr>)
        else Some (ptr, s))
     }"

text \<open>\<open>heap_cstr s q str\<close>: the string lies, with its terminator, in a block in use.\<close>

definition heap_cstr :: "kheap \<Rightarrow> nat \<Rightarrow> u8 list \<Rightarrow> bool" where
  "heap_cstr s q str \<longleftrightarrow> cstr (hmem s) q str \<and> (\<exists>sz. kh_live s q sz \<and> length str < sz)"

text \<open>A copy of the first \<open>n\<close> characters and a terminator, written into a new block.\<close>

lemma malloc_then_copy:
  assumes "kh_inv s" and "heap_cstr s q str" and "length str < 2 ^ 64 - 16" and "n \<le> length str"
  obtains p s1 where "malloc (Suc n) s = Some (p, s1)" and "kh_inv s1"
    and "\<And>b sz i. kh_live s b sz \<Longrightarrow> i < sz \<Longrightarrow> hmem s1 (b + i) = hmem s (b + i)"
    and "\<And>m. p \<noteq> 0 \<Longrightarrow> m = (copy_bytes (hmem s1) p q n)(p + n := 0) \<Longrightarrow>
      kh_inv (s1\<lparr>hmem := m\<rparr>) \<and> heap_cstr (s1\<lparr>hmem := m\<rparr>) p (take n str) \<and>
      (\<forall>b sz. kh_live s b sz \<longrightarrow> (\<forall>i < sz. m (b + i) = hmem s (b + i)))"
    and "p \<noteq> 0 \<Longrightarrow> p + Suc n \<le> q \<or> q + Suc n \<le> p"
proof -
  obtain sz where c: "cstr (hmem s) q str" and q: "kh_live s q sz" "length str < sz"
    using assms(2) by (auto simp: heap_cstr_def)
  obtain p s1 where s1: "malloc (Suc n) s = Some (p, s1)" "kh_inv s1"
    "\<And>q sz i. kh_live s q sz \<Longrightarrow> i < sz \<Longrightarrow> hmem s1 (q + i) = hmem s (q + i)"
    "\<And>q sz. p \<noteq> 0 \<Longrightarrow> kh_live s q sz \<Longrightarrow> q + sz \<le> p \<or> p + Suc n \<le> q"
    "\<And>m. p \<noteq> 0 \<Longrightarrow> (\<And>x. \<not> (p \<le> x \<and> x < p + Suc n) \<Longrightarrow> m x = hmem s1 x) \<Longrightarrow>
       kh_inv (s1\<lparr>hmem := m\<rparr>) \<and> (\<exists>sz. kh_live (s1\<lparr>hmem := m\<rparr>) p sz \<and> Suc n \<le> sz)"
    by (rule malloc_then_write [OF assms(1), of "Suc n"]) (use assms(3,4) in auto)
  show ?thesis
  proof (rule that [OF s1(1,2,3)])
    fix m assume p: "p \<noteq> 0" and m_eq: "m = (copy_bytes (hmem s1) p q n)(p + n := 0)"
    have apart: "p + n \<le> q \<or> q + n \<le> p" using s1(4) [OF p q(1)] q(2) assms(4) by linarith
    have m: "m x = (if p \<le> x \<and> x < p + Suc n then if x = p + n then 0 else hmem s1 (x - p + q) else hmem s1 x)" for x
      by (auto simp: m_eq copy_bytes_spec [OF apart])
    have inv: "kh_inv (s1\<lparr>hmem := m\<rparr>) \<and> (\<exists>sz. kh_live (s1\<lparr>hmem := m\<rparr>) p sz \<and> Suc n \<le> sz)"
      by (rule s1(5) [OF p]) (auto simp: m)
    have old: "m (b + i) = hmem s (b + i)" if b: "kh_live s b sz" "i < sz" for b sz i
    proof -
      have "\<not> (p \<le> b + i \<and> b + i < p + Suc n)" using s1(4) [OF p b(1)] b(2) by linarith
      then show ?thesis using m [of "b + i"] s1(3) [OF b] by (simp only: if_False)
    qed
    have "m (p + i) = str ! i" if "i < n" for i
      using that assms(4) m [of "p + i"] s1(3) [OF q(1), of i] q(2) cstr_nth [OF c, of i] by (simp add: add.commute)
    moreover have "0 \<notin> set (take n str)" using c by (auto simp: cstr_def dest: in_set_takeD)
    ultimately have "cstr m p (take n str)" using assms(4) m [of "p + n"] by (simp add: cstr_def)
    then show "kh_inv (s1\<lparr>hmem := m\<rparr>) \<and> heap_cstr (s1\<lparr>hmem := m\<rparr>) p (take n str) \<and>
        (\<forall>b sz. kh_live s b sz \<longrightarrow> (\<forall>i < sz. m (b + i) = hmem s (b + i)))"
      using inv old assms(4) by (auto simp: heap_cstr_def)
  next
    show "p + Suc n \<le> q \<or> q + Suc n \<le> p" if "p \<noteq> 0" using s1(4) [OF that q(1)] q(2) assms(4) by linarith
  qed
qed

text \<open>
  \<open>strdup\<close> of a string in the heap returns, with a copy of the string in a block of its own,
  or with the null pointer when there is no memory; every block that was in use, the string among
  them, is unchanged and the heap stays well formed.\<close>

theorem strdup_correct:
  assumes "kh_inv s" and "heap_cstr s q str" and "length str < 2 ^ 64 - 16"
  shows "\<exists>p s'. strdup q s = Some (p, s') \<and> kh_inv s' \<and> (p \<noteq> 0 \<longrightarrow> heap_cstr s' p str) \<and>
     (\<forall>b sz. kh_live s b sz \<longrightarrow> (\<forall>i < sz. hmem s' (b + i) = hmem s (b + i)))"
proof -
  let ?n = "length str"
  obtain sz where c: "cstr (hmem s) q str" and q: "kh_live s q sz" "?n < sz"
    using assms(2) by (auto simp: heap_cstr_def)
  obtain p s1 where s1: "malloc (Suc ?n) s = Some (p, s1)" "kh_inv s1"
    "\<And>b sz i. kh_live s b sz \<Longrightarrow> i < sz \<Longrightarrow> hmem s1 (b + i) = hmem s (b + i)"
    "\<And>m. p \<noteq> 0 \<Longrightarrow> m = (copy_bytes (hmem s1) p q ?n)(p + ?n := 0) \<Longrightarrow>
      kh_inv (s1\<lparr>hmem := m\<rparr>) \<and> heap_cstr (s1\<lparr>hmem := m\<rparr>) p (take ?n str) \<and>
      (\<forall>b sz. kh_live s b sz \<longrightarrow> (\<forall>i < sz. m (b + i) = hmem s (b + i)))"
    "p \<noteq> 0 \<Longrightarrow> p + Suc ?n \<le> q \<or> q + Suc ?n \<le> p"
    by (rule malloc_then_copy [OF assms order_refl]) blast
  have z: "hmem s1 (q + ?n) = 0" using s1(3) [OF q] c by (simp add: cstr_def)
  define m where "m = copy_bytes (hmem s1) p q (Suc ?n)"
  have m: "m = (copy_bytes (hmem s1) p q ?n)(p + ?n := 0)" if "p \<noteq> 0"
    using s1(5) [OF that] z unfolding m_def
    by (auto simp: fun_eq_iff copy_bytes_spec add.commute less_Suc_eq simp del: copy_bytes.simps)
  have "strdup q s = Some (p, if p \<noteq> 0 then s1\<lparr>hmem := m\<rparr> else s1)"
    using s1(1) assms(3) strlen_correct [OF c] by (simp add: strdup_def m_def Let_def del: copy_bytes.simps)
  then show ?thesis using s1(2,3) s1(4) [OF _ m] by (cases "p = 0") auto
qed

text \<open>A heap with the string "hi" in a block of its own.\<close>

lemma hi_heap: "\<exists>s q. kh_inv s \<and> heap_cstr s q [104, 105]"
proof -
  have inv: "kh_inv heap0" using heap0_inv unfolding kh_inv_def by blast
  obtain p s1 where s1: "malloc 100 heap0 = Some (p, s1)"
    "\<And>m. p \<noteq> 0 \<Longrightarrow> (\<And>x. \<not> (p \<le> x \<and> x < p + 100) \<Longrightarrow> m x = hmem s1 x) \<Longrightarrow>
       kh_inv (s1\<lparr>hmem := m\<rparr>) \<and> (\<exists>sz. kh_live (s1\<lparr>hmem := m\<rparr>) p sz \<and> 100 \<le> sz)"
    by (rule malloc_then_write [OF inv, of 100]) auto
  have "align_up64 100 16 = 112" by (simp add: align_up64_16)
  then have p: "p \<noteq> 0" using s1(1) kh_alloc_refines [OF heap0_inv, of 100] by (auto simp: malloc_def KH_DEFAULT_ALIGN_def)
  define m where "m = (hmem s1)(p := 104, p + 1 := 105, p + 2 := 0)"
  have "kh_inv (s1\<lparr>hmem := m\<rparr>) \<and> (\<exists>sz. kh_live (s1\<lparr>hmem := m\<rparr>) p sz \<and> 100 \<le> sz)"
    by (rule s1(2) [OF p]) (auto simp: m_def)
  moreover have "cstr m p [104, 105]" by (simp add: cstr_Cons cstr_Nil m_def)
  ultimately show ?thesis unfolding heap_cstr_def by fastforce
qed

theorem strdup_witness:
  "\<exists>s q p s'. heap_cstr s q [104, 105] \<and> strdup q s = Some (p, s') \<and> kh_inv s' \<and> (p \<noteq> 0 \<longrightarrow> heap_cstr s' p [104, 105])"
proof -
  obtain s q where s: "kh_inv s" "heap_cstr s q [104, 105]" using hi_heap by blast
  from strdup_correct [OF s] s(2) show ?thesis by fastforce
qed

text \<open>
  \<open>strndup\<close> copies at most \<open>len\<close> characters, terminated, under the same conditions.\<close>

theorem strndup_correct:
  assumes "kh_inv s" and "heap_cstr s q str" and "length str < 2 ^ 64 - 16"
  shows "\<exists>p s'. strndup q len s = Some (p, s') \<and> kh_inv s' \<and> (p \<noteq> 0 \<longrightarrow> heap_cstr s' p (take len str)) \<and>
     (\<forall>b sz. kh_live s b sz \<longrightarrow> (\<forall>i < sz. hmem s' (b + i) = hmem s (b + i)))"
proof -
  define n where "n = min len (length str)"
  have n: "n \<le> length str" "(n + 1) mod 2 ^ 64 = Suc n"
    "(if length str < len then length str else len) = n" "take n str = take len str"
    using assms(3) by (auto simp: n_def min_def)
  have c: "cstr (hmem s) q str" using assms(2) by (auto simp: heap_cstr_def)
  obtain p s1 where s1: "malloc (Suc n) s = Some (p, s1)" "kh_inv s1"
    "\<And>b sz i. kh_live s b sz \<Longrightarrow> i < sz \<Longrightarrow> hmem s1 (b + i) = hmem s (b + i)"
    "\<And>m. p \<noteq> 0 \<Longrightarrow> m = (copy_bytes (hmem s1) p q n)(p + n := 0) \<Longrightarrow>
      kh_inv (s1\<lparr>hmem := m\<rparr>) \<and> heap_cstr (s1\<lparr>hmem := m\<rparr>) p (take n str) \<and>
      (\<forall>b sz. kh_live s b sz \<longrightarrow> (\<forall>i < sz. m (b + i) = hmem s (b + i)))"
    by (rule malloc_then_copy [OF assms n(1)]) blast
  have "strndup q len s =
      Some (p, if p \<noteq> 0 then s1\<lparr>hmem := (copy_bytes (hmem s1) p q n)(p + n := 0)\<rparr> else s1)"
    using s1(1) n(2,3) strlen_correct [OF c] by (simp add: strndup_def Let_def)
  then show ?thesis using s1(2,3) s1(4) [OF _ refl] n(4) by (cases "p = 0") auto
qed

theorem strndup_witness:
  "\<exists>s q p s'. heap_cstr s q [104, 105] \<and> strndup q 1 s = Some (p, s') \<and> kh_inv s' \<and> (p \<noteq> 0 \<longrightarrow> heap_cstr s' p [104])"
proof -
  obtain s q where s: "kh_inv s" "heap_cstr s q [104, 105]" using hi_heap by blast
  from strndup_correct [OF s, of 1] s(2) show ?thesis by fastforce
qed

end
