(* ===== verification/Pml_Hash.thy ===== *)
theory Pml_Hash
  imports Pml_Stdlib
begin

text \<open>
  The hash function of util/sha256.c. The streaming interface of SHA-256 keeps a
  partly filled chunk; the second half of the theory states FIPS 180-4 and shows that any
  sequence of writes followed by the close computes it.
\<close>

section \<open>The compression loop\<close>

definition sha256_k :: "u32 list" where
  "sha256_k =
     [0x428a2f98, 0x71374491, 0xb5c0fbcf, 0xe9b5dba5, 0x3956c25b, 0x59f111f1] @
     [0x923f82a4, 0xab1c5ed5, 0xd807aa98, 0x12835b01, 0x243185be, 0x550c7dc3] @
     [0x72be5d74, 0x80deb1fe, 0x9bdc06a7, 0xc19bf174, 0xe49b69c1, 0xefbe4786] @
     [0x0fc19dc6, 0x240ca1cc, 0x2de92c6f, 0x4a7484aa, 0x5cb0a9dc, 0x76f988da] @
     [0x983e5152, 0xa831c66d, 0xb00327c8, 0xbf597fc7, 0xc6e00bf3, 0xd5a79147] @
     [0x06ca6351, 0x14292967, 0x27b70a85, 0x2e1b2138, 0x4d2c6dfc, 0x53380d13] @
     [0x650a7354, 0x766a0abb, 0x81c2c92e, 0x92722c85, 0xa2bfe8a1, 0xa81a664b] @
     [0xc24b8b70, 0xc76c51a3, 0xd192e819, 0xd6990624, 0xf40e3585, 0x106aa070] @
     [0x19a4c116, 0x1e376c08, 0x2748774c, 0x34b0bcb5, 0x391c0cb3, 0x4ed8aa4a] @
     [0x5b9cca4f, 0x682e6ff3, 0x748f82ee, 0x78a5636f, 0x84c87814, 0x8cc70208] @
     [0x90befffa, 0xa4506ceb, 0xbef9a3f7, 0xc67178f2]"

text \<open>One pass of the inner loop, with \<open>ptr\<close> the chunk: \<open>w[j]\<close>, then the eight variables.\<close>

definition chunk_word :: "u8 list \<Rightarrow> nat \<Rightarrow> u32" where
  "chunk_word ptr j =
     push_bit 24 (ucast (ptr ! (4 * j))) OR push_bit 16 (ucast (ptr ! (4 * j + 1))) OR
     push_bit 8 (ucast (ptr ! (4 * j + 2))) OR ucast (ptr ! (4 * j + 3))"

definition expand_word :: "u32 list \<Rightarrow> nat \<Rightarrow> u32" where
  "expand_word w j =
     (let x = w ! ((j + 1) mod 16); y = w ! ((j + 14) mod 16);
          s0 = rorl x 7 XOR rorl x 18 XOR drop_bit 3 x;
          s1 = rorl y 17 XOR rorl y 19 XOR drop_bit 10 y
      in w ! j + (s0 + w ! ((j + 9) mod 16) + s1))"

definition mix_round :: "u32 list \<Rightarrow> u32 \<Rightarrow> u32 \<Rightarrow> u32 list" where
  "mix_round ah k wj =
     (let s1 = rorl (ah ! 4) 6 XOR rorl (ah ! 4) 11 XOR rorl (ah ! 4) 25;
          ch = (ah ! 4 AND ah ! 5) XOR (NOT (ah ! 4) AND ah ! 6);
          t1 = ah ! 7 + s1 + ch + k + wj;
          s0 = rorl (ah ! 0) 2 XOR rorl (ah ! 0) 13 XOR rorl (ah ! 0) 22;
          maj = (ah ! 0 AND ah ! 1) XOR (ah ! 0 AND ah ! 2) XOR (ah ! 1 AND ah ! 2);
          t2 = s0 + maj;
          ah = ah[7 := ah ! 6]; ah = ah[6 := ah ! 5]; ah = ah[5 := ah ! 4]; ah = ah[4 := ah ! 3 + t1];
          ah = ah[3 := ah ! 2]; ah = ah[2 := ah ! 1]; ah = ah[1 := ah ! 0]
      in ah[0 := t1 + t2])"

definition chunk_step :: "u8 list \<Rightarrow> nat \<Rightarrow> u32 list \<times> u32 list \<Rightarrow> nat \<Rightarrow> u32 list \<times> u32 list" where
  "chunk_step ptr i s j =
     (case s of (ah, w) \<Rightarrow>
        let wj = (if i = 0 then chunk_word ptr j else expand_word w j)
        in (mix_round ah (sha256_k ! (16 * i + j)) wj, w[j := wj]))"

text \<open>The array \<open>w\<close> is not initialised in the code; its words are all written before they are read.\<close>

definition sha256_consume_chunk :: "u32 list \<Rightarrow> u8 list \<Rightarrow> u32 list" where
  "sha256_consume_chunk h ptr =
     map2 (+) h (fst (foldl (\<lambda>s i. foldl (chunk_step ptr i) s [0..<16]) (h, replicate 16 0) [0..<4]))"

section \<open>The streaming interface\<close>

abbreviation SHA256_CHUNK_SIZE :: nat where
  "SHA256_CHUNK_SIZE \<equiv> 64"

text \<open>The pointer into the chunk is an index.\<close>

record sha256_ctx =
  sha_chunk :: "u8 list"
  sha_ptr :: nat
  sha_rem :: nat
  sha_len :: u64
  sha_h :: "u32 list"

definition sha256_iv :: "u32 list" where
  "sha256_iv =
     [0x6a09e667, 0xbb67ae85, 0x3c6ef372, 0xa54ff53a] @
     [0x510e527f, 0x9b05688c, 0x1f83d9ab, 0x5be0cd19]"

text \<open>The chunk is not initialised: its contents are those of the structure before the call.\<close>

definition sha256_init :: "u8 list \<Rightarrow> sha256_ctx" where
  "sha256_init chunk =
     \<lparr>sha_chunk = chunk, sha_ptr = 0, sha_rem = SHA256_CHUNK_SIZE, sha_len = 0, sha_h = sha256_iv\<rparr>"

definition put_bytes :: "u8 list \<Rightarrow> nat \<Rightarrow> u8 list \<Rightarrow> u8 list" where
  "put_bytes a i b = take i a @ b @ drop (i + length b) a"

definition write_part :: "sha256_ctx \<Rightarrow> u8 list \<Rightarrow> sha256_ctx" where
  "write_part c part =
     (let c = c\<lparr>sha_chunk := put_bytes (sha_chunk c) (sha_ptr c) part, sha_rem := sha_rem c - length part\<rparr>
      in if sha_rem c = 0
         then c\<lparr>sha_h := sha256_consume_chunk (sha_h c) (sha_chunk c), sha_ptr := 0, sha_rem := SHA256_CHUNK_SIZE\<rparr>
         else c\<lparr>sha_ptr := sha_ptr c + length part\<rparr>)"

function write_loop :: "sha256_ctx \<Rightarrow> u8 list \<Rightarrow> sha256_ctx" where
  "write_loop c data =
     (if data = [] then c
      else if sha_rem c = SHA256_CHUNK_SIZE \<and> SHA256_CHUNK_SIZE \<le> length data
      then write_loop (c\<lparr>sha_h := sha256_consume_chunk (sha_h c) (take SHA256_CHUNK_SIZE data)\<rparr>)
             (drop SHA256_CHUNK_SIZE data)
      else let consumed = (if length data < sha_rem c then length data else sha_rem c)
           in write_loop (write_part c (take consumed data)) (drop consumed data))"
  by pat_completeness auto

termination write_loop
  by (relation "measure (\<lambda>(c, data). 2 * length data + (if sha_rem c = 0 then 1 else 0))")
    (auto simp: write_part_def Let_def)

declare write_loop.simps [simp del]

definition sha256_write :: "sha256_ctx \<Rightarrow> u8 list \<Rightarrow> sha256_ctx" where
  "sha256_write c data = write_loop (c\<lparr>sha_len := sha_len c + word_of_nat (length data)\<rparr>) data"

text \<open>The eight bytes of the length in bits, written from the last one back.\<close>

fun len_bytes :: "nat \<Rightarrow> u64 \<Rightarrow> u8 list \<Rightarrow> u8 list" where
  "len_bytes 0 len acc = acc"
| "len_bytes (Suc n) len acc = len_bytes n (drop_bit 8 len) (ucast len # acc)"

definition digest_bytes :: "u32 list \<Rightarrow> u8 list" where
  "digest_bytes h = concat (map (\<lambda>x. [ucast (drop_bit 24 x), ucast (drop_bit 16 x), ucast (drop_bit 8 x), ucast x]) h)"

definition sha256_close :: "sha256_ctx \<Rightarrow> u8 list" where
  "sha256_close c =
     (let chunk = put_bytes (sha_chunk c) (sha_ptr c) [0x80]; pos = sha_ptr c + 1; rem = sha_rem c - 1;
          (h, chunk, pos, rem) =
            (if rem < 8
             then let chunk = put_bytes chunk pos (replicate rem 0)
                  in (sha256_consume_chunk (sha_h c) chunk, chunk, 0, SHA256_CHUNK_SIZE)
             else (sha_h c, chunk, pos, rem));
          rem = rem - 8; chunk = put_bytes chunk pos (replicate rem 0); pos = pos + rem;
          chunk = put_bytes chunk pos (len_bytes 7 (drop_bit 5 (sha_len c)) [ucast (push_bit 3 (sha_len c))])
      in digest_bytes (sha256_consume_chunk h chunk))"

definition sha256_data :: "u8 list \<Rightarrow> u8 list \<Rightarrow> u8 list" where
  "sha256_data chunk data = sha256_close (sha256_write (sha256_init chunk) data)"

section \<open>The standard\<close>

text \<open>The functions of FIPS 180-4, section 4.1.2.\<close>

definition Ch :: "u32 \<Rightarrow> u32 \<Rightarrow> u32 \<Rightarrow> u32" where
  "Ch x y z = (x AND y) XOR (NOT x AND z)"

definition Maj :: "u32 \<Rightarrow> u32 \<Rightarrow> u32 \<Rightarrow> u32" where
  "Maj x y z = (x AND y) XOR (x AND z) XOR (y AND z)"

definition Sigma0 :: "u32 \<Rightarrow> u32" where
  "Sigma0 x = word_rotr 2 x XOR word_rotr 13 x XOR word_rotr 22 x"

definition Sigma1 :: "u32 \<Rightarrow> u32" where
  "Sigma1 x = word_rotr 6 x XOR word_rotr 11 x XOR word_rotr 25 x"

definition sigma0 :: "u32 \<Rightarrow> u32" where
  "sigma0 x = word_rotr 7 x XOR word_rotr 18 x XOR drop_bit 3 x"

definition sigma1 :: "u32 \<Rightarrow> u32" where
  "sigma1 x = word_rotr 17 x XOR word_rotr 19 x XOR drop_bit 10 x"

text \<open>The message schedule and the rounds (section 6.2.2) on a block of 64 bytes.\<close>

fun schedule :: "u8 list \<Rightarrow> nat \<Rightarrow> u32" where
  "schedule b t =
     (if t < 16 then chunk_word b t
      else sigma1 (schedule b (t - 2)) + schedule b (t - 7) + sigma0 (schedule b (t - 15)) + schedule b (t - 16))"

declare schedule.simps [simp del]

fun fips_round :: "u32 \<Rightarrow> u32 \<Rightarrow> u32 list \<Rightarrow> u32 list" where
  "fips_round k w [a, b, c, d, e, f, g, h] =
     (let T1 = h + Sigma1 e + Ch e f g + k + w; T2 = Sigma0 a + Maj a b c
      in [T1 + T2, a, b, c, d + T1, e, f, g])"
| "fips_round k w s = s"

definition compress :: "u32 list \<Rightarrow> u8 list \<Rightarrow> u32 list" where
  "compress h b = map2 (+) h (foldl (\<lambda>s t. fips_round (sha256_k ! t) (schedule b t) s) h [0..<64])"

text \<open>Padding (section 5.1.1) and the hash of a whole message.\<close>

definition be64 :: "u64 \<Rightarrow> u8 list" where
  "be64 v = map (\<lambda>i. ucast (drop_bit (56 - 8 * i) v)) [0..<8]"

definition pad :: "u8 list \<Rightarrow> u8 list" where
  "pad msg = msg @ [0x80] @ replicate ((119 - length msg mod 64) mod 64) 0 @ be64 (8 * word_of_nat (length msg))"

function absorb :: "(u32 list \<Rightarrow> u8 list \<Rightarrow> u32 list) \<Rightarrow> u32 list \<Rightarrow> u8 list \<Rightarrow> u32 list \<times> u8 list" where
  "absorb f h msg = (if length msg < 64 then (h, msg) else absorb f (f h (take 64 msg)) (drop 64 msg))"
  by pat_completeness auto

termination absorb
  by (relation "measure (\<lambda>(f, h, msg). length msg)") auto

declare absorb.simps [simp del]

definition fips_sha256 :: "u8 list \<Rightarrow> u8 list" where
  "fips_sha256 msg = digest_bytes (fst (absorb compress sha256_iv (pad msg)))"

text \<open>
  The constants are the first 32 bits of the fractional parts of the cube roots of the first 64
  primes, and of the square roots of the first 8.
\<close>

definition frac_root :: "nat \<Rightarrow> nat \<Rightarrow> u32 \<Rightarrow> bool" where
  "frac_root n p k \<longleftrightarrow>
     (\<exists>c. (c * 2 ^ 32 + unat k) ^ n \<le> p * 2 ^ (32 * n) \<and> p * 2 ^ (32 * n) < (c * 2 ^ 32 + unat k + 1) ^ n)"

definition first_primes :: "nat list" where
  "first_primes = [2, 3, 5, 7, 11, 13, 17, 19, 23, 29, 31, 37, 41, 43, 47, 53, 59, 61, 67, 71, 73, 79, 83, 89, 97, 101, 103, 107, 109, 113, 127, 131, 137, 139, 149, 151, 157, 163, 167, 173, 179, 181, 191, 193, 197, 199, 211, 223, 227, 229, 233, 239, 241, 251, 257, 263, 269, 271, 277, 281, 283, 293, 307, 311]"

definition cbrt :: "nat \<Rightarrow> nat" where
  "cbrt p = (if p < 8 then 1 else if p < 27 then 2 else if p < 64 then 3 else if p < 125 then 4 else if p < 216 then 5 else 6)"

section \<open>The compression loop is the standard's\<close>

lemma rorl_rotr: 
  assumes "0 < n" "n < 32" shows "rorl x n = word_rotr n x"
proof (rule bit_word_eqI)
  fix i :: nat assume "i < LENGTH(32)"
  then have i: "i < 32" by simp
  have "i + n < 32 \<Longrightarrow> (i + n) mod 32 = i + n" "\<not> i + n < 32 \<Longrightarrow> (i + n) mod 32 = i + n - 32"
    using i assms by (simp_all add: mod_if)
  moreover have "bit x (i + n) \<Longrightarrow> i + n < 32" using bit_imp_le_length [of x "i + n"] by simp
  ultimately show "bit (rorl x n) i = bit (word_rotr n x) i" using i assms
    by (cases "i + n < 32") (auto simp: rorl_def bit_word_rotr_iff bit_or_iff bit_drop_bit_eq bit_push_bit_iff add.commute)
qed

lemma frac_rootI:
  "(c * 2 ^ 32 + unat k) ^ n \<le> p * 2 ^ (32 * n) \<Longrightarrow> p * 2 ^ (32 * n) < (c * 2 ^ 32 + unat k + 1) ^ n \<Longrightarrow> frac_root n p k"
  unfolding frac_root_def by blast

lemma frac_root3I:
  "(cbrt p * 2 ^ 32 + unat k) ^ 3 \<le> p * 2 ^ 96 \<Longrightarrow> p * 2 ^ 96 < (cbrt p * 2 ^ 32 + unat k + 1) ^ 3 \<Longrightarrow> frac_root 3 p k"
  using frac_rootI [of "cbrt p" k 3 p] by simp

lemma sha256_k_cube_roots: "list_all2 (frac_root 3) first_primes sha256_k"
  unfolding first_primes_def sha256_k_def append.simps list_all2_Cons list_all2_Nil by (intro conjI refl; rule frac_root3I; simp add: cbrt_def)

lemma sha256_iv_square_roots: "list_all2 (frac_root 2) (take 8 first_primes) sha256_iv"
proof -
  have "list_all2 (\<lambda>p k. frac_root 2 p k) [2, 3, 5, 7, 11, 13, 17, 19] sha256_iv"
    unfolding sha256_iv_def append.simps list_all2_Cons list_all2_Nil
    by (intro conjI refl)
      (rule frac_rootI [of 1], simp, simp, rule frac_rootI [of 1], simp, simp, rule frac_rootI [of 2], simp, simp,
       rule frac_rootI [of 2], simp, simp, rule frac_rootI [of 3], simp, simp, rule frac_rootI [of 3], simp, simp,
       rule frac_rootI [of 4], simp, simp, rule frac_rootI [of 4], simp, simp)
  then show ?thesis by (simp add: first_primes_def)
qed

lemma list_of_8:
  assumes "length xs = 8"
  obtains a b c d e f g h where "xs = [a, b, c, d, e, f, g, h]"
proof -
  have "length xs = Suc (Suc (Suc (Suc (Suc (Suc (Suc (Suc 0)))))))" using assms by simp
  then show ?thesis using that by (auto simp: length_Suc_conv)
qed

lemma mix_round_fips: "length ah = 8 \<Longrightarrow> mix_round ah k w = fips_round k w ah"
  by (erule list_of_8)
    (simp add: mix_round_def Let_def rorl_rotr Ch_def Maj_def Sigma0_def Sigma1_def ac_simps)

lemma length_fips_round [simp]: "length (fips_round k w s) = length s"
  by (induction k w s rule: fips_round.induct) (simp_all add: Let_def)

definition fips_rounds :: "u32 list \<Rightarrow> u8 list \<Rightarrow> nat \<Rightarrow> u32 list" where
  "fips_rounds h b n = foldl (\<lambda>s t. fips_round (sha256_k ! t) (schedule b t) s) h [0..<n]"

lemma length_fips_rounds [simp]: "length (fips_rounds h b n) = length h"
  by (induction n) (simp_all add: fips_rounds_def)

lemma nested_foldl:
  "foldl (\<lambda>s i. foldl (g i) s [0..<16]) s [0..<n] = foldl (\<lambda>s t. g (t div 16) s (t mod 16)) s [0..<16 * n]"
proof (induction n)
  case (Suc n)
  have "[0..<16 * Suc n] = [0..<16 * n] @ map (\<lambda>j. j + 16 * n) [0..<16]"
    using upt_add_eq_append [of 0 "16 * n" 16] by (simp add: map_add_upt add.commute)
  moreover have "foldl (\<lambda>s t. g (t div 16) s (t mod 16)) s' (map (\<lambda>j. j + 16 * n) [0..<16]) = foldl (g n) s' [0..<16]" for s'
    unfolding foldl_map by (rule foldl_cong) auto
  ultimately show ?case using Suc.IH by (simp add: upt_Suc_append del: upt_Suc)
qed simp

text \<open>\<open>window w b t\<close>: the circular array has the last 16 words of the schedule before \<open>t\<close>.\<close>

definition window :: "u32 list \<Rightarrow> u8 list \<Rightarrow> nat \<Rightarrow> bool" where
  "window w b t \<longleftrightarrow> length w = 16 \<and> (\<forall>s < t. t \<le> s + 16 \<longrightarrow> w ! (s mod 16) = schedule b s)"

lemma window_back:
  assumes "window w b t" and "0 < k" and "k \<le> 16" and "16 \<le> t"
  shows "w ! ((t mod 16 + (16 - k)) mod 16) = schedule b (t - k)"
proof -
  have "(t mod 16 + (16 - k)) mod 16 = (t + (16 - k)) mod 16" by (rule mod_add_left_eq)
  also have "t + (16 - k) = t - k + 16" using assms(3,4) by simp
  finally have "(t mod 16 + (16 - k)) mod 16 = (t - k) mod 16" by simp
  then show ?thesis using assms by (simp add: window_def)
qed

lemma window_word:
  assumes "window w b t"
  shows "(if t div 16 = 0 then chunk_word b (t mod 16) else expand_word w (t mod 16)) = schedule b t"
proof (cases "t < 16")
  case True
  then show ?thesis by (subst schedule.simps) simp
next
  case False
  then have "t div 16 \<noteq> 0" by (simp add: div_eq_0_iff)
  then show ?thesis using False
    using window_back [OF assms, of 15] window_back [OF assms, of 2] window_back [OF assms, of 7] window_back [OF assms, of 16]
    by (subst schedule.simps) (simp add: expand_word_def Let_def rorl_rotr sigma0_def sigma1_def ac_simps del: div_eq_0_iff)
qed

lemma window_Suc:
  assumes "window w b t"
  shows "window (w[t mod 16 := schedule b t]) b (Suc t)"
  unfolding window_def
proof (intro conjI allI impI)
  show "length (w[t mod 16 := schedule b t]) = 16" using assms by (simp add: window_def)
  fix s assume s: "s < Suc t" "Suc t \<le> s + 16"
  show "w[t mod 16 := schedule b t] ! (s mod 16) = schedule b s"
  proof (cases "s = t")
    case True
    then show ?thesis using assms by (simp add: window_def)
  next
    case False
    then have "(t - s) mod 16 \<noteq> 0" using s by simp
    then have "s mod 16 \<noteq> t mod 16" using s by (metis less_Suc_eq_le mod_eq_dvd_iff_nat mod_0_imp_dvd dvd_imp_mod_0)
    then show ?thesis using assms s False by (simp add: window_def)
  qed
qed

lemma chunk_steps:
  assumes "length h = 8"
  shows "\<exists>w. foldl (\<lambda>s t. chunk_step b (t div 16) s (t mod 16)) (h, replicate 16 0) [0..<t] = (fips_rounds h b t, w)
    \<and> window w b t"
proof (induction t)
  case 0
  then show ?case by (simp add: fips_rounds_def window_def)
next
  case (Suc t)
  then obtain w where w: "foldl (\<lambda>s t. chunk_step b (t div 16) s (t mod 16)) (h, replicate 16 0) [0..<t] = (fips_rounds h b t, w)"
    "window w b t" by blast
  have "chunk_step b (t div 16) (fips_rounds h b t, w) (t mod 16) = (fips_rounds h b (Suc t), w[t mod 16 := schedule b t])"
    unfolding chunk_step_def Let_def prod.case window_word [OF w(2)]
    using assms by (simp add: mix_round_fips) (simp add: fips_rounds_def)
  then show ?case using w window_Suc by auto
qed

lemma consume_chunk_compress: "length h = 8 \<Longrightarrow> sha256_consume_chunk h b = compress h b"
  using chunk_steps [of h b 64]
  by (auto simp: sha256_consume_chunk_def nested_foldl compress_def fips_rounds_def)

section \<open>Absorbing a message in pieces\<close>

lemma absorb_short: "length msg < 64 \<Longrightarrow> absorb f h msg = (h, msg)"
  by (subst absorb.simps) simp

lemma absorb_block: "64 \<le> length msg \<Longrightarrow> absorb f h msg = absorb f (f h (take 64 msg)) (drop 64 msg)"
  by (subst absorb.simps) simp

lemma absorb_one: "length msg = 64 \<Longrightarrow> absorb f h msg = (f h msg, [])"
  by (simp add: absorb_block absorb_short)

lemma absorb_append: "absorb f h (a @ b) = (case absorb f h a of (h', r) \<Rightarrow> absorb f h' (r @ b))"
proof (induction f h a rule: absorb.induct)
  case (1 f h a)
  show ?case
  proof (cases "length a < 64")
    case True
    then show ?thesis by (simp add: absorb_short)
  next
    case False
    then have "absorb f h (a @ b) = absorb f (f h (take 64 a)) (drop 64 a @ b)"
      by (subst absorb_block) simp_all
    then show ?thesis using 1 [OF False] False by (simp add: absorb_block [of a])
  qed
qed

lemma length_absorb: "length (snd (absorb f h a)) = length a mod 64"
proof (induction f h a rule: absorb.induct)
  case (1 f h a)
  then show ?case by (cases "length a < 64") (auto simp: absorb_short absorb_block le_mod_geq)
qed

lemma length_compress [simp]: "length (compress h b) = length h"
  using length_fips_rounds [of h b 64] by (simp add: compress_def fips_rounds_def)

lemma absorb_compress: "length h = 8 \<Longrightarrow> absorb sha256_consume_chunk h msg = absorb compress h msg"
proof (induction "length msg" arbitrary: h msg rule: less_induct)
  case less
  then show ?case
    by (cases "length msg < 64") (simp_all add: absorb_short absorb_block consume_chunk_compress)
qed

lemma length_put_bytes [simp]: "i + length b \<le> length a \<Longrightarrow> length (put_bytes a i b) = length a"
  by (simp add: put_bytes_def)

lemma take_put_bytes: "i + length b \<le> length a \<Longrightarrow> take (i + length b) (put_bytes a i b) = take i a @ b"
  by (simp add: put_bytes_def)

text \<open>\<open>holds c msg\<close>: the context has absorbed the full blocks of the message and buffers the rest.\<close>

definition holds :: "sha256_ctx \<Rightarrow> u8 list \<Rightarrow> bool" where
  "holds c msg \<longleftrightarrow>
     length (sha_chunk c) = 64 \<and> 0 < sha_rem c \<and> sha_ptr c + sha_rem c = 64 \<and>
     absorb sha256_consume_chunk sha256_iv msg = (sha_h c, take (sha_ptr c) (sha_chunk c))"

lemma holds_init: "length chunk = 64 \<Longrightarrow> holds (sha256_init chunk) []"
  by (simp add: holds_def sha256_init_def absorb_short)

lemma holds_absorb:
  "holds c msg \<Longrightarrow> absorb sha256_consume_chunk sha256_iv (msg @ d) =
     absorb sha256_consume_chunk (sha_h c) (take (sha_ptr c) (sha_chunk c) @ d)"
  by (subst absorb_append) (simp add: holds_def)

lemma holds_block:
  assumes "holds c msg" and "sha_rem c = 64" and "length b = 64"
  shows "holds (c\<lparr>sha_h := sha256_consume_chunk (sha_h c) b\<rparr>) (msg @ b)"
  using assms holds_absorb [OF assms(1), of b] by (simp add: holds_def absorb_one)

lemma holds_part:
  assumes "holds c msg" and "length part \<le> sha_rem c"
  shows "holds (write_part c part) (msg @ part)"
proof -
  let ?chunk = "put_bytes (sha_chunk c) (sha_ptr c) part"
  have len: "length (sha_chunk c) = 64" "sha_ptr c + sha_rem c = 64" using assms by (auto simp: holds_def)
  have chunk: "length ?chunk = 64" "take (sha_ptr c + length part) ?chunk = take (sha_ptr c) (sha_chunk c) @ part"
    using len assms(2) by (simp_all add: take_put_bytes)
  show ?thesis
  proof (cases "length part = sha_rem c")
    case True
    then have "?chunk = take (sha_ptr c) (sha_chunk c) @ part" using chunk len by simp
    then have "absorb sha256_consume_chunk sha256_iv (msg @ part) = (sha256_consume_chunk (sha_h c) ?chunk, [])"
      using holds_absorb [OF assms(1), of part] chunk(1) by (simp add: absorb_one)
    then show ?thesis using True chunk(1) by (simp add: holds_def write_part_def)
  next
    case False
    then have "absorb sha256_consume_chunk sha256_iv (msg @ part) = (sha_h c, take (sha_ptr c) (sha_chunk c) @ part)"
      using holds_absorb [OF assms(1), of part] assms(2) len by (simp add: absorb_short)
    then show ?thesis using False chunk len assms(2) by (simp add: holds_def write_part_def)
  qed
qed

lemma write_part_len [simp]: "sha_len (write_part c part) = sha_len c"
  by (simp add: write_part_def Let_def)

lemma write_loop_holds: "holds c msg \<Longrightarrow> holds (write_loop c data) (msg @ data) \<and> sha_len (write_loop c data) = sha_len c"
proof (induction c data arbitrary: msg rule: write_loop.induct)
  case (1 c data)
  show ?case
  proof (cases "data = []")
    case True
    then show ?thesis using 1(3) by (subst (1 2) write_loop.simps) simp
  next
    case ne: False
    show ?thesis
    proof (cases "sha_rem c = 64 \<and> 64 \<le> length data")
      case True
      have "holds (c\<lparr>sha_h := sha256_consume_chunk (sha_h c) (take 64 data)\<rparr>) (msg @ take 64 data)"
        using 1(3) True by (intro holds_block) auto
      from "1"(1) [OF ne True this] show ?thesis using ne True by (subst (1 2) write_loop.simps) simp
    next
      case False
      let ?n = "if length data < sha_rem c then length data else sha_rem c"
      have "holds (write_part c (take ?n data)) (msg @ take ?n data)" using 1(3) by (intro holds_part) auto
      from "1"(2) [OF ne False refl this] show ?thesis using ne False
        by (subst (1 2) write_loop.simps) (simp only: Let_def if_False append_assoc append_take_drop_id write_part_len simp_thms)
    qed
  qed
qed

definition represents :: "sha256_ctx \<Rightarrow> u8 list \<Rightarrow> bool" where
  "represents c msg \<longleftrightarrow> holds c msg \<and> sha_len c = word_of_nat (length msg)"

lemma write_represents: "represents c msg \<Longrightarrow> represents (sha256_write c data) (msg @ data)"
  using write_loop_holds [of "c\<lparr>sha_len := sha_len c + word_of_nat (length data)\<rparr>" msg data]
  by (simp add: represents_def sha256_write_def holds_def)

section \<open>Padding\<close>

lemma ucast_drop_shift:
  fixes v :: u64
  assumes "k \<le> 6"
  shows "(ucast (drop_bit (5 + 8 * k) v) :: u8) = ucast (drop_bit (8 + 8 * k) (push_bit 3 v))"
proof (rule bit_word_eqI)
  fix n assume "n < LENGTH(8)"
  then have n: "n < 8" "8 + 8 * k + n < 64" "8 + 8 * k + n - 3 = 5 + 8 * k + n" using assms by simp_all
  then show "bit (ucast (drop_bit (5 + 8 * k) v) :: u8) n = bit (ucast (drop_bit (8 + 8 * k) (push_bit 3 v)) :: u8) n"
    by (simp add: bit_ucast_iff bit_drop_bit_eq bit_push_bit_iff add.assoc)
qed

lemma len_bytes_be64: "len_bytes 7 (drop_bit 5 len) [ucast (push_bit 3 len)] = be64 (8 * len)"
proof -
  have "push_bit 3 len = 8 * len" by (simp add: push_bit_eq_mult)
  then show ?thesis
    using ucast_drop_shift [of 0 len] ucast_drop_shift [of 1 len] ucast_drop_shift [of 2 len] ucast_drop_shift [of 3 len]
      ucast_drop_shift [of 4 len] ucast_drop_shift [of 5 len] ucast_drop_shift [of 6 len]
    by (simp add: eval_nat_numeral be64_def)
qed

lemma length_be64 [simp]: "length (be64 v) = 8"
  by (simp add: be64_def)

text \<open>A buffer whose first \<open>i\<close> bytes are \<open>r\<close>, after a write at \<open>i\<close>.\<close>

lemma put_bytes_full:
  assumes "take i a = r" and "i \<le> length a" and "i + length b = length a"
  shows "put_bytes a i b = r @ b"
  using assms by (simp add: put_bytes_def)

lemma close_one_chunk:
  assumes "holds c msg" and "sha_ptr c < 56"
  shows "sha256_close c = digest_bytes (sha256_consume_chunk (sha_h c)
    (take (sha_ptr c) (sha_chunk c) @ [0x80] @ replicate (55 - sha_ptr c) 0 @ be64 (8 * sha_len c)))"
proof -
  let ?p = "sha_ptr c"
  have len: "length (sha_chunk c) = 64" "sha_rem c = 64 - ?p" using assms by (auto simp: holds_def)
  define a where "a = put_bytes (sha_chunk c) ?p [0x80]"
  define b where "b = put_bytes a (?p + 1) (replicate (55 - ?p) 0)"
  have a: "length a = 64" "take (?p + 1) a = take ?p (sha_chunk c) @ [0x80]"
    unfolding a_def using len assms(2) take_put_bytes [of ?p "[0x80]" "sha_chunk c"] by simp_all
  have b: "length b = 64" "take 56 b = take (?p + 1) a @ replicate (55 - ?p) 0"
    unfolding b_def using a(1) assms(2) take_put_bytes [of "?p + 1" "replicate (55 - ?p) 0" a] by simp_all
  have "put_bytes b 56 (be64 (8 * sha_len c)) = take 56 b @ be64 (8 * sha_len c)"
    using b(1) by (intro put_bytes_full) simp_all
  moreover have "\<not> 63 - ?p < 8" "63 - ?p - 8 = 55 - ?p" "Suc ?p + (55 - ?p) = 56" using assms(2) by simp_all
  moreover have "put_bytes a (Suc ?p) (replicate (55 - ?p) 0) = b" by (simp add: b_def)
  ultimately show ?thesis using len(2) a(2) b(2)
    by (simp add: sha256_close_def len_bytes_be64 a_def [symmetric] Let_def del: len_bytes.simps)
qed

lemma close_two_chunks:
  assumes "holds c msg" and "56 \<le> sha_ptr c"
  shows "sha256_close c = digest_bytes (sha256_consume_chunk
    (sha256_consume_chunk (sha_h c) (take (sha_ptr c) (sha_chunk c) @ [0x80] @ replicate (63 - sha_ptr c) 0))
    (replicate 56 0 @ be64 (8 * sha_len c)))"
proof -
  let ?p = "sha_ptr c"
  have len: "length (sha_chunk c) = 64" "sha_rem c = 64 - ?p" "?p < 64" using assms by (auto simp: holds_def)
  define a where "a = put_bytes (sha_chunk c) ?p [0x80]"
  define b where "b = put_bytes a (?p + 1) (replicate (63 - ?p) 0)"
  define d where "d = put_bytes b 0 (replicate 56 0)"
  have a: "length a = 64" "take (?p + 1) a = take ?p (sha_chunk c) @ [0x80]"
    unfolding a_def using len take_put_bytes [of ?p "[0x80]" "sha_chunk c"] by simp_all
  have b: "b = take (?p + 1) a @ replicate (63 - ?p) 0"
    unfolding b_def using a(1) len(3) by (intro put_bytes_full) simp_all
  have d: "length d = 64" "take 56 d = replicate 56 0"
    unfolding d_def using b a(1) len(3) take_put_bytes [of 0 "replicate 56 0" b] by simp_all
  have "put_bytes d 56 (be64 (8 * sha_len c)) = take 56 d @ be64 (8 * sha_len c)"
    using d(1) by (intro put_bytes_full) simp_all
  moreover have "63 - ?p < 8" using assms(2) by simp
  moreover have "put_bytes a (Suc ?p) (replicate (63 - ?p) 0) = b" by (simp add: b_def)
  moreover have "b = take ?p (sha_chunk c) @ [0x80] @ replicate (63 - ?p) 0" using a(2) b by simp
  moreover have "put_bytes b 0 (replicate 56 0) = d" by (simp add: d_def)
  ultimately show ?thesis using len(2) d(2)
    by (simp add: sha256_close_def len_bytes_be64 a_def [symmetric] Let_def del: len_bytes.simps)
qed

lemma close_correct:
  assumes "represents c msg"
  shows "sha256_close c = fips_sha256 msg"
proof -
  let ?r = "take (sha_ptr c) (sha_chunk c)" and ?p = "sha_ptr c" and ?L = "be64 (8 * sha_len c)"
  have h: "holds c msg" and len: "sha_len c = word_of_nat (length msg)" using assms by (auto simp: represents_def)
  have r: "length ?r = ?p" "?p < 64" using h by (auto simp: holds_def)
  have p: "length msg mod 64 = ?p"
    using length_absorb [of sha256_consume_chunk sha256_iv msg] h r by (simp add: holds_def)
  have pad: "absorb compress sha256_iv (pad msg) =
      absorb sha256_consume_chunk (sha_h c) (?r @ [0x80] @ replicate ((119 - ?p) mod 64) 0 @ ?L)"
    using absorb_compress [of sha256_iv "pad msg"] holds_absorb [OF h] unfolding pad_def p len by (simp add: sha256_iv_def)
  show ?thesis
  proof (cases "?p < 56")
    case True
    have "(119 - ?p) mod 64 = (64 + (55 - ?p)) mod 64" using True by simp
    also have "\<dots> = 55 - ?p" by (subst mod_add_self1) simp
    finally have "(119 - ?p) mod 64 = 55 - ?p" .
    then show ?thesis using close_one_chunk [OF h True] pad True r
      by (simp add: fips_sha256_def absorb_one)
  next
    case False
    then have z: "(119 - ?p) mod 64 = (63 - ?p) + 56" using r by simp
    let ?a = "?r @ [0x80] @ replicate (63 - ?p) 0" and ?b = "replicate 56 0 @ ?L"
    have "?r @ [0x80] @ replicate ((119 - ?p) mod 64) 0 @ ?L = ?a @ ?b" unfolding z by (simp add: replicate_add)
    moreover have "length ?a = 64" "length ?b = 64" using r False by simp_all
    ultimately have "absorb compress sha256_iv (pad msg) = (sha256_consume_chunk (sha256_consume_chunk (sha_h c) ?a) ?b, [])"
      using pad absorb_append [of sha256_consume_chunk "sha_h c" ?a ?b] by (simp add: absorb_one)
    then show ?thesis using close_two_chunks [OF h] False by (simp add: fips_sha256_def)
  qed
qed

text \<open>
  C19: SHA-256 of a message does not depend on how it is cut into pieces: a fresh context, any
  sequence of \<open>sha256_write\<close> calls and \<open>sha256_close\<close> give the hash of FIPS 180-4 of the pieces
  joined, whatever the buffer of the context held before.\<close>

theorem sha256_streaming:
  assumes "length chunk = 64"
  shows "sha256_close (foldl sha256_write (sha256_init chunk) pieces) = fips_sha256 (concat pieces)"
proof -
  have "represents (foldl sha256_write (sha256_init chunk) pieces) (concat pieces)"
  proof (induction pieces rule: rev_induct)
    case Nil
    then show ?case using holds_init [OF assms] by (simp add: represents_def sha256_init_def)
  next
    case (snoc d ds)
    then show ?case using write_represents by simp
  qed
  then show ?thesis by (rule close_correct)
qed

theorem sha256_streaming_witness:
  "sha256_close (foldl sha256_write (sha256_init (replicate 64 255)) [[97], [98, 99]]) = fips_sha256 [97, 98, 99]"
  using sha256_streaming [of "replicate 64 255" "[[97], [98, 99]]"] by simp

end
