(* ===== verification/Pml_Vfs.thy ===== *)
theory Pml_Vfs
  imports Pml_Perm Pml_Fd
begin

text \<open>
  The virtual file system: the vnodes with their life time (drivers/fs/vnode.c), and the layer
  of checked operations on them (drivers/fs/vnops.c). A file system driver is a table of
  optional functions, the operation vector of its vnodes; the vectors are a parameter of the
  operations, indexed by the pointer that a vnode has.

  An operation runs on the state of the file system and ends with an error number or a result;
  its value is \<open>None\<close> when it dereferences a null or dangling pointer. Vnodes and mounts are
  referred to by number.
\<close>

section \<open>Operations that can fail\<close>

type_synonym ('s, 'r) vop = "'s \<Rightarrow> ((errno + 'r) \<times> 's) option"

definition ok :: "'r \<Rightarrow> ('s, 'r) vop" where
  "ok x s = Some (Inr x, s)"

definition fail :: "errno \<Rightarrow> ('s, 'r) vop" where
  "fail e s = Some (Inl e, s)"

text \<open>One operation after the other; \<open>attempt\<close> goes on after a failure too.\<close>

definition attempt :: "('s, 'a) vop \<Rightarrow> (errno + 'a \<Rightarrow> ('s, 'b) vop) \<Rightarrow> ('s, 'b) vop" where
  "attempt m f s = (case m s of None \<Rightarrow> None | Some (r, s) \<Rightarrow> f r s)"

definition and_then :: "('s, 'a) vop \<Rightarrow> ('a \<Rightarrow> ('s, 'b) vop) \<Rightarrow> ('s, 'b) vop" where
  "and_then m f = attempt m (\<lambda>r. case r of Inl e \<Rightarrow> fail e | Inr x \<Rightarrow> f x)"

definition require :: "bool \<Rightarrow> errno \<Rightarrow> ('s, 'a) vop \<Rightarrow> ('s, 'a) vop" where
  "require c e m = (if c then m else fail e)"

definition permit :: "errno + unit \<Rightarrow> ('s, 'a) vop \<Rightarrow> ('s, 'a) vop" where
  "permit c m = (case c of Inl e \<Rightarrow> fail e | Inr _ \<Rightarrow> m)"

text \<open>The call of an operation of the vector, which may be missing.\<close>

definition supported :: "'f option \<Rightarrow> ('f \<Rightarrow> ('s, 'a) vop) \<Rightarrow> ('s, 'a) vop" where
  "supported f m = (case f of None \<Rightarrow> fail ENOTSUP | Some f \<Rightarrow> m f)"

section \<open>Data\<close>

type_synonym timespec = "int \<times> int"

record vfs_vnode = vnode +
  v_ino :: u64
  v_nlink :: u64
  v_rdev :: u64
  v_atime :: timespec
  v_mtime :: timespec
  v_ctime :: timespec
  v_size :: u64
  v_blocks :: u64
  v_blksize :: u64
  v_ops :: "nat option"
  v_flags :: u32
  v_children :: "u64 strmap option"
  v_parent :: "nat option"
  v_mount :: "nat option"

record stat =
  st_mode :: u32
  st_nlink :: u64
  st_ino :: u64
  st_uid :: u32
  st_gid :: u32
  st_dev :: u64
  st_rdev :: u64
  st_atim :: timespec
  st_mtim :: timespec
  st_ctim :: timespec
  st_size :: u64
  st_blocks :: u64
  st_blksize :: u64

record dirent =
  d_ino :: u64
  d_reclen :: u16
  d_namlen :: u16
  d_type :: u8
  d_name :: "u8 list"

record mount =
  mt_root_vnode :: "nat option"
  mt_parent :: "nat option"
  mt_root_name :: "u8 list option"
  mt_vcache :: "nat hashmap"
  mt_flags :: u32
  mt_device :: u64

text \<open>
  The vnodes that exist, the mounts, the part of \<open>THIS_PROCESS\<close> the file system uses, the
  descriptor tables with the reference counts of the vnodes, and the private data of the drivers.
  \<open>vs_errno\<close> is errno as left by calls whose failure is not passed on.
\<close>

record 'b vfs =
  vs_vnodes :: "nat \<Rightarrow> vfs_vnode option"
  vs_next_vnode :: nat
  vs_mounts :: "nat \<Rightarrow> mount"
  mount_table :: "nat list"
  root_vnode :: nat
  vs_proc :: process
  vs_cwd :: nat
  vs_umask :: u32
  vs_fds :: fd_state
  vs_alloc :: alloc_outcomes
  vs_errno :: errno
  vs_time :: int
  vs_priv :: 'b

record 's vnode_ops =
  op_lookup :: "(nat \<Rightarrow> u8 list \<Rightarrow> ('s, nat) vop) option"
  op_getattr :: "(stat \<Rightarrow> nat \<Rightarrow> ('s, stat) vop) option"
  op_read :: "(nat \<Rightarrow> u64 \<Rightarrow> int \<Rightarrow> ('s, u8 list) vop) option"
  op_write :: "(nat \<Rightarrow> u8 list \<Rightarrow> int \<Rightarrow> ('s, nat) vop) option"
  op_sync :: "(nat \<Rightarrow> ('s, unit) vop) option"
  op_chmod :: "(nat \<Rightarrow> u32 \<Rightarrow> ('s, unit) vop) option"
  op_chown :: "(nat \<Rightarrow> u32 \<Rightarrow> u32 \<Rightarrow> ('s, unit) vop) option"
  op_create :: "(bool \<Rightarrow> nat \<Rightarrow> u8 list \<Rightarrow> u32 \<Rightarrow> u64 \<Rightarrow> ('s, nat option) vop) option"
  op_mkdir :: "(bool \<Rightarrow> nat \<Rightarrow> u8 list \<Rightarrow> u32 \<Rightarrow> ('s, nat option) vop) option"
  op_rename :: "(nat \<Rightarrow> u8 list \<Rightarrow> nat \<Rightarrow> u8 list \<Rightarrow> ('s, unit) vop) option"
  op_link :: "(nat \<Rightarrow> nat \<Rightarrow> u8 list \<Rightarrow> ('s, unit) vop) option"
  op_unlink :: "(nat \<Rightarrow> u8 list \<Rightarrow> ('s, unit) vop) option"
  op_symlink :: "(nat \<Rightarrow> u8 list \<Rightarrow> u8 list \<Rightarrow> ('s, unit) vop) option"
  op_readdir :: "(nat \<Rightarrow> dirent \<Rightarrow> int \<Rightarrow> ('s, dirent \<times> int) vop) option"
  op_readlink :: "(nat \<Rightarrow> nat \<Rightarrow> ('s, u8 list) vop) option"
  op_truncate :: "(nat \<Rightarrow> int \<Rightarrow> ('s, unit) vop) option"
  op_utime :: "(nat \<Rightarrow> timespec option \<Rightarrow> timespec option \<Rightarrow> ('s, unit) vop) option"
  op_fill :: "(nat \<Rightarrow> ('s, unit) vop) option"
  op_dealloc :: "(nat \<Rightarrow> 's \<Rightarrow> 's option) option"

type_synonym 'b op_vectors = "nat \<Rightarrow> 'b vfs vnode_ops"

text \<open>A vnode pointer and the operation vector of its vnode are dereferenced.\<close>

definition at_vnode :: "nat \<Rightarrow> (vfs_vnode \<Rightarrow> ('b vfs, 'a) vop) \<Rightarrow> ('b vfs, 'a) vop" where
  "at_vnode v f s = (case vs_vnodes s v of None \<Rightarrow> None | Some vp \<Rightarrow> f vp s)"

definition with_ops :: "'b op_vectors \<Rightarrow> vfs_vnode \<Rightarrow> ('b vfs vnode_ops \<Rightarrow> ('b vfs, 'a) vop) \<Rightarrow> ('b vfs, 'a) vop" where
  "with_ops ov vp f s = (case v_ops vp of None \<Rightarrow> None | Some i \<Rightarrow> f (ov i) s)"

definition this_proc :: "(process \<Rightarrow> ('b vfs, 'a) vop) \<Rightarrow> ('b vfs, 'a) vop" where
  "this_proc f s = f (vs_proc s) s"

definition set_vnode :: "nat \<Rightarrow> vfs_vnode \<Rightarrow> 'b vfs \<Rightarrow> 'b vfs" where
  "set_vnode v vp s = s\<lparr>vs_vnodes := (vs_vnodes s)(v \<mapsto> vp)\<rparr>"

section \<open>Life time of vnodes\<close>

definition vn_refs :: "'b vfs \<Rightarrow> nat \<Rightarrow> u32" where
  "vn_refs s v = vnode_refs (vs_fds s) v"

definition set_refs :: "nat \<Rightarrow> u32 \<Rightarrow> 'b vfs \<Rightarrow> 'b vfs" where
  "set_refs v n s = s\<lparr>vs_fds := (vs_fds s)\<lparr>vnode_refs := (vnode_refs (vs_fds s))(v := n)\<rparr>\<rparr>"

definition ref_obj :: "nat \<Rightarrow> ('b vfs, unit) vop" where
  "ref_obj v = at_vnode v (\<lambda>_ s. ok () (set_refs v (vn_refs s v + 1) s))"

definition vnode_alloc :: "'b vfs \<Rightarrow> (nat option \<times> 'b vfs) option" where
  "vnode_alloc s =
     (let (ok, al) = take_alloc (vs_alloc s); s = s\<lparr>vs_alloc := al\<rparr> in
      if \<not> ok then Some (None, s)
      else let (c, al) = strmap_create (vs_alloc s); s = s\<lparr>vs_alloc := al\<rparr> in
        case c of
          None \<Rightarrow> None
        | Some c \<Rightarrow>
            let v = vs_next_vnode s;
                vp = \<lparr>v_uid = 0, v_gid = 0, v_mode = 0, v_ino = 0, v_nlink = 0, v_rdev = 0, v_atime = (0, 0),
                      v_mtime = (0, 0), v_ctime = (0, 0), v_size = 0, v_blocks = 0, v_blksize = 0, v_ops = None,
                      v_flags = 0, v_children = Some c, v_parent = None, v_mount = None\<rparr>
            in Some (Some v, set_refs v 1 (set_vnode v vp (s\<lparr>vs_next_vnode := v + 1\<rparr>))))"

definition vnode_place_cache :: "nat \<Rightarrow> 'b vfs \<Rightarrow> 'b vfs option" where
  "vnode_place_cache v s =
     (case vs_vnodes s v of
        None \<Rightarrow> None
      | Some vp \<Rightarrow>
          (case v_mount vp of
             None \<Rightarrow> None
           | Some m \<Rightarrow>
               let mt = vs_mounts s m in
               map_option (\<lambda>(r, c, al). s\<lparr>vs_mounts := (vs_mounts s)(m := mt\<lparr>mt_vcache := c\<rparr>), vs_alloc := al,
                                          vs_errno := (if r \<noteq> 0 then ENOMEM else vs_errno s)\<rparr>)
                 (hashmap_insert (vs_alloc s) (mt_vcache mt) (v_ino vp) v)))"

definition vnode_lookup_cache :: "nat option \<Rightarrow> u64 \<Rightarrow> 'b vfs \<Rightarrow> nat option option" where
  "vnode_lookup_cache m ino s =
     (case m of None \<Rightarrow> None | Some m \<Rightarrow> hashmap_lookup (mt_vcache (vs_mounts s m)) ino)"

definition vnode_remove_cache :: "nat \<Rightarrow> u64 \<Rightarrow> 'b vfs \<Rightarrow> 'b vfs option" where
  "vnode_remove_cache m ino s =
     (let mt = vs_mounts s m in
      map_option (\<lambda>(r, c). s\<lparr>vs_mounts := (vs_mounts s)(m := mt\<lparr>mt_vcache := c\<rparr>)\<rparr>)
        (hashmap_remove (mt_vcache mt) ino))"

text \<open>
  \<open>vfs_dealloc\<close> after the reference to the parent has been dropped. Freeing the map of children
  passes its values, which are inode numbers, to \<open>vnode_unref\<close> as vnode pointers: it goes
  wrong unless the map is empty.
\<close>

definition no_children :: "vfs_vnode \<Rightarrow> bool" where
  "no_children vp \<longleftrightarrow> (case v_children vp of None \<Rightarrow> True | Some c \<Rightarrow> strmap_free c = Some [])"

definition dealloc_rest :: "'b op_vectors \<Rightarrow> nat \<Rightarrow> vfs_vnode \<Rightarrow> 'b vfs \<Rightarrow> 'b vfs option" where
  "dealloc_rest ov v vp s =
     Option.bind (case v_mount vp of None \<Rightarrow> Some s | Some m \<Rightarrow> vnode_remove_cache m (v_ino vp) s) (\<lambda>s.
       case v_ops vp of
         None \<Rightarrow> None
       | Some i \<Rightarrow>
           map_option (\<lambda>s. s\<lparr>vs_vnodes := (vs_vnodes s)(v := None)\<rparr>)
             (case op_dealloc (ov i) of None \<Rightarrow> Some s | Some f \<Rightarrow> f v s))"

text \<open>\<open>UNREF_OBJECT\<close> of a vnode; \<open>vfs_dealloc\<close> is called with the last reference.\<close>

partial_function (option) vn_unref :: "'b op_vectors \<Rightarrow> nat option \<Rightarrow> 'b vfs \<Rightarrow> 'b vfs option" where
  "vn_unref ov v s =
     (case v of
        None \<Rightarrow> Some s
      | Some v \<Rightarrow>
          (let n = vn_refs s v - 1; s = set_refs v n s in
           if n \<noteq> 0 then Some s
           else case vs_vnodes s v of
               None \<Rightarrow> None
             | Some vp \<Rightarrow>
                 if no_children vp
                 then Option.bind (vn_unref ov (v_parent vp) s) (dealloc_rest ov v vp)
                 else None))"

definition vfs_dealloc :: "'b op_vectors \<Rightarrow> nat \<Rightarrow> 'b vfs \<Rightarrow> 'b vfs option" where
  "vfs_dealloc ov v s =
     (case vs_vnodes s v of
        None \<Rightarrow> None
      | Some vp \<Rightarrow>
          if no_children vp then Option.bind (vn_unref ov (v_parent vp) s) (dealloc_rest ov v vp) else None)"

section \<open>Checked operations\<close>

definition vfs_lookup :: "'b op_vectors \<Rightarrow> nat \<Rightarrow> u8 list \<Rightarrow> ('b vfs, nat) vop" where
  "vfs_lookup ov dir name =
     at_vnode dir (\<lambda>d. this_proc (\<lambda>p. permit (vfs_can_read d False p)
       (require (S_ISDIR (v_mode d)) ENOTDIR
         (with_ops ov d (\<lambda>v. supported (op_lookup v) (\<lambda>f. f dir name))))))"

definition fill_stat :: "stat \<Rightarrow> vfs_vnode \<Rightarrow> 'b vfs \<Rightarrow> stat" where
  "fill_stat st vp s =
     st\<lparr>st_mode := v_mode vp, st_nlink := v_nlink vp, st_ino := v_ino vp, st_uid := v_uid vp, st_gid := v_gid vp,
        st_dev := (case v_mount vp of None \<Rightarrow> st_dev st | Some m \<Rightarrow> mt_device (vs_mounts s m)),
        st_rdev := v_rdev vp, st_atim := v_atime vp, st_mtim := v_mtime vp, st_ctim := v_ctime vp,
        st_size := v_size vp, st_blocks := v_blocks vp, st_blksize := v_blksize vp\<rparr>"

definition vfs_getattr :: "'b op_vectors \<Rightarrow> stat \<Rightarrow> nat \<Rightarrow> ('b vfs, stat) vop" where
  "vfs_getattr ov st v =
     at_vnode v (\<lambda>vp. this_proc (\<lambda>p. permit (vfs_can_read vp False p)
       (\<lambda>s. with_ops ov vp (\<lambda>ops. case op_getattr ops of
            None \<Rightarrow> ok (fill_stat st vp s)
          | Some f \<Rightarrow> f (fill_stat st vp s) v) s)))"

definition vfs_read :: "'b op_vectors \<Rightarrow> nat \<Rightarrow> u64 \<Rightarrow> int \<Rightarrow> ('b vfs, u8 list) vop" where
  "vfs_read ov v len offset =
     at_vnode v (\<lambda>vp. this_proc (\<lambda>p. permit (vfs_can_read vp False p)
       (require (\<not> S_ISDIR (v_mode vp)) EISDIR
         (if len = 0 then ok []
          else with_ops ov vp (\<lambda>ops. supported (op_read ops) (\<lambda>f. f v len offset))))))"

definition vfs_write :: "'b op_vectors \<Rightarrow> nat \<Rightarrow> u8 list \<Rightarrow> int \<Rightarrow> ('b vfs, nat) vop" where
  "vfs_write ov v data offset =
     at_vnode v (\<lambda>vp. this_proc (\<lambda>p. permit (vfs_can_read vp False p)
       (require (\<not> S_ISDIR (v_mode vp)) EISDIR
         (if data = [] then ok 0
          else with_ops ov vp (\<lambda>ops. supported (op_write ops) (\<lambda>f. f v data offset))))))"

definition vfs_sync :: "'b op_vectors \<Rightarrow> nat \<Rightarrow> ('b vfs, unit) vop" where
  "vfs_sync ov v =
     at_vnode v (\<lambda>vp. this_proc (\<lambda>p. permit (vfs_can_write vp False p)
       (with_ops ov vp (\<lambda>ops. supported (op_sync ops) (\<lambda>f. f v)))))"

definition sup_group :: "process \<Rightarrow> u32 \<Rightarrow> bool" where
  "sup_group p g \<longleftrightarrow> g \<in> set (take (p_nsup_gids p) (p_sup_gids p))"

definition vfs_chmod :: "'b op_vectors \<Rightarrow> nat \<Rightarrow> u32 \<Rightarrow> ('b vfs, unit) vop" where
  "vfs_chmod ov v mode =
     at_vnode v (\<lambda>vp. this_proc (\<lambda>p.
       require (p_euid p = 0 \<or> p_euid p = v_uid vp) EPERM
         (let mode = mode AND 0xfff;
              mode = (if p_egid p = v_gid vp \<or> sup_group p (v_gid vp) then mode else mode AND NOT S_ISGID)
          in with_ops ov vp (\<lambda>ops. supported (op_chmod ops) (\<lambda>f. f v mode)))))"

definition set_mode :: "nat \<Rightarrow> u32 \<Rightarrow> ('b vfs, unit) vop" where
  "set_mode v mode = at_vnode v (\<lambda>vp s. ok () (set_vnode v (vp\<lparr>v_mode := mode\<rparr>) s))"

definition vfs_chown :: "'b op_vectors \<Rightarrow> nat \<Rightarrow> u32 \<Rightarrow> u32 \<Rightarrow> ('b vfs, unit) vop" where
  "vfs_chown ov v uid gid =
     at_vnode v (\<lambda>vp. this_proc (\<lambda>p.
       require (uid = -1 \<or> p_euid p = 0 \<or> p_euid p = uid) EPERM
         (require (gid = -1 \<or> p_euid p = 0 \<or> sup_group p gid) EPERM
           (with_ops ov vp (\<lambda>ops. supported (op_chown ops) (\<lambda>f.
              and_then (set_mode v (v_mode vp AND NOT (S_ISUID OR S_ISGID))) (\<lambda>_.
              attempt (f v uid gid) (\<lambda>r. case r of
                  Inr _ \<Rightarrow> ok ()
                | Inl e \<Rightarrow> and_then (set_mode v (v_mode vp)) (\<lambda>_. fail e)))))))))"

definition in_directory :: "nat \<Rightarrow> (vfs_vnode \<Rightarrow> ('b vfs, 'a) vop) \<Rightarrow> ('b vfs, 'a) vop" where
  "in_directory dir f =
     at_vnode dir (\<lambda>d. this_proc (\<lambda>p. permit (vfs_can_write d False p)
       (require (S_ISDIR (v_mode d)) ENOTDIR (f d))))"

text \<open>\<open>want\<close> tells whether the caller passes a place for the new vnode or a null pointer.\<close>

definition vfs_create :: "'b op_vectors \<Rightarrow> bool \<Rightarrow> nat \<Rightarrow> u8 list \<Rightarrow> u32 \<Rightarrow> u64 \<Rightarrow> ('b vfs, nat option) vop" where
  "vfs_create ov want dir name mode rdev =
     in_directory dir (\<lambda>d. with_ops ov d (\<lambda>ops. supported (op_create ops) (\<lambda>f. f want dir name mode rdev)))"

definition vfs_mkdir :: "'b op_vectors \<Rightarrow> bool \<Rightarrow> nat \<Rightarrow> u8 list \<Rightarrow> u32 \<Rightarrow> ('b vfs, nat option) vop" where
  "vfs_mkdir ov want dir name mode =
     in_directory dir (\<lambda>d. with_ops ov d (\<lambda>ops. supported (op_mkdir ops) (\<lambda>f. f want dir name mode)))"

definition vfs_link :: "'b op_vectors \<Rightarrow> nat \<Rightarrow> nat \<Rightarrow> u8 list \<Rightarrow> ('b vfs, unit) vop" where
  "vfs_link ov dir v name =
     in_directory dir (\<lambda>d. with_ops ov d (\<lambda>ops. supported (op_link ops) (\<lambda>f. f dir v name)))"

definition vfs_symlink :: "'b op_vectors \<Rightarrow> nat \<Rightarrow> u8 list \<Rightarrow> u8 list \<Rightarrow> ('b vfs, unit) vop" where
  "vfs_symlink ov dir name target =
     in_directory dir (\<lambda>d. with_ops ov d (\<lambda>ops. supported (op_symlink ops) (\<lambda>f. f dir name target)))"

definition vfs_unlink :: "'b op_vectors \<Rightarrow> nat \<Rightarrow> u8 list \<Rightarrow> ('b vfs, unit) vop" where
  "vfs_unlink ov dir name =
     at_vnode dir (\<lambda>d. this_proc (\<lambda>p. permit (vfs_can_write d False p)
       (with_ops ov d (\<lambda>ops. supported (op_unlink ops) (\<lambda>f. f dir name)))))"

definition vfs_rename :: "'b op_vectors \<Rightarrow> nat \<Rightarrow> u8 list \<Rightarrow> nat \<Rightarrow> u8 list \<Rightarrow> ('b vfs, unit) vop" where
  "vfs_rename ov olddir oldname newdir newname =
     at_vnode olddir (\<lambda>od. at_vnode newdir (\<lambda>nd. this_proc (\<lambda>p.
       require (S_ISDIR (v_mode od) \<and> S_ISDIR (v_mode nd)) ENOTDIR
         (permit (vfs_can_write od False p) (permit (vfs_can_write nd False p)
           (with_ops ov od (\<lambda>ops. supported (op_rename ops) (\<lambda>f. f olddir oldname newdir newname))))))))"

text \<open>The name of a directory entry begins 13 bytes into the structure.\<close>

definition vfs_readdir :: "'b op_vectors \<Rightarrow> nat \<Rightarrow> dirent \<Rightarrow> int \<Rightarrow> ('b vfs, dirent \<times> int) vop" where
  "vfs_readdir ov dir de offset =
     at_vnode dir (\<lambda>d. this_proc (\<lambda>p. permit (vfs_can_read d False p)
       (require (S_ISDIR (v_mode d)) ENOTDIR
         (with_ops ov d (\<lambda>ops. supported (op_readdir ops) (\<lambda>f.
            and_then (f dir de offset) (\<lambda>(de, ret). ok (de\<lparr>d_reclen := 13 + d_namlen de + 1\<rparr>, ret))))))))"

definition vfs_readlink :: "'b op_vectors \<Rightarrow> nat \<Rightarrow> nat \<Rightarrow> ('b vfs, u8 list) vop" where
  "vfs_readlink ov v len =
     at_vnode v (\<lambda>vp. this_proc (\<lambda>p. permit (vfs_can_read vp False p)
       (require (S_ISLNK (v_mode vp)) EINVAL
         (with_ops ov vp (\<lambda>ops. supported (op_readlink ops) (\<lambda>f. f v len))))))"

definition vfs_truncate :: "'b op_vectors \<Rightarrow> nat \<Rightarrow> int \<Rightarrow> ('b vfs, unit) vop" where
  "vfs_truncate ov v len =
     at_vnode v (\<lambda>vp. this_proc (\<lambda>p. permit (vfs_can_write vp False p)
       (require (S_ISREG (v_mode vp)) EINVAL
         (with_ops ov vp (\<lambda>ops. supported (op_truncate ops) (\<lambda>f. f v len))))))"

definition UTIME_NOW :: int where "UTIME_NOW = 1000000000"
definition UTIME_OMIT :: int where "UTIME_OMIT = 1000000001"

definition resolve_time :: "int \<Rightarrow> timespec \<Rightarrow> timespec option" where
  "resolve_time now t = (if snd t = UTIME_NOW then Some (now, 0) else if snd t = UTIME_OMIT then None else Some t)"

text \<open>The two times are null pointers together: the callers pass the elements of one array.\<close>

definition vfs_utime :: "'b op_vectors \<Rightarrow> nat \<Rightarrow> (timespec \<times> timespec) option \<Rightarrow> ('b vfs, unit) vop" where
  "vfs_utime ov v ts =
     at_vnode v (\<lambda>vp. this_proc (\<lambda>p s.
       let now = vs_time s;
           both_now = (case ts of None \<Rightarrow> True | Some (a, m) \<Rightarrow> snd a = UTIME_NOW \<and> snd m = UTIME_NOW);
           (access, modify) = (case ts of None \<Rightarrow> ((now, 0), (now, 0)) | Some (a, m) \<Rightarrow> if both_now then ((now, 0), (now, 0)) else (a, m))
       in (if both_now
           then require (vfs_can_write vp False p = Inr () \<or> p_euid p = 0 \<or> p_euid p = v_uid vp) EACCES
           else if snd access \<noteq> UTIME_OMIT \<and> snd modify \<noteq> UTIME_OMIT
           then require (p_euid p = 0 \<or> p_euid p = v_uid vp) EPERM
           else id)
           (with_ops ov vp (\<lambda>ops. supported (op_utime ops) (\<lambda>f. f v (resolve_time now access) (resolve_time now modify)))) s))"

definition vfs_fill :: "'b op_vectors \<Rightarrow> nat \<Rightarrow> ('b vfs, unit) vop" where
  "vfs_fill ov v = at_vnode v (\<lambda>vp. with_ops ov vp (\<lambda>ops. supported (op_fill ops) (\<lambda>f. f v)))"

section \<open>Access to the drivers\<close>

lemmas vop_defs = ok_def fail_def attempt_def and_then_def require_def permit_def supported_def at_vnode_def
  with_ops_def this_proc_def

text \<open>
  C29: What the permission bits protect, whatever the drivers are. A process that may not read a vnode
  cannot look up names in it, read its data, entries, attributes or link text, nor write to
  it. One that may not write to a vnode cannot create, link or remove entries of it, rename entries from it
  or into it, truncate it or synchronise it, nor set its times to the present unless it is the owner or the
  super-user. In all these cases the state is unchanged and no driver function runs. The exception is \<open>vfs_write\<close>:
  it tests the read permission only, so that the driver's write function runs for a process
  that may not write to the file.\<close>

theorem vfs_denied_without_effect:
  assumes "vs_vnodes s v = Some vp" and "vs_vnodes s w = Some wp"
  shows "(vfs_can_read vp False (vs_proc s) = Inl e \<longrightarrow>
      vfs_lookup ov v name s = Some (Inl e, s) \<and> vfs_getattr ov st v s = Some (Inl e, s) \<and>
      vfs_read ov v len off s = Some (Inl e, s) \<and> vfs_readdir ov v de off s = Some (Inl e, s) \<and>
      vfs_readlink ov v n s = Some (Inl e, s) \<and> vfs_write ov v data off s = Some (Inl e, s)) \<and>
    (vfs_can_write vp False (vs_proc s) = Inl e \<longrightarrow>
      vfs_create ov want v name mode rdev s = Some (Inl e, s) \<and> vfs_mkdir ov want v name mode s = Some (Inl e, s) \<and>
      vfs_link ov v w name s = Some (Inl e, s) \<and> vfs_symlink ov v name target s = Some (Inl e, s) \<and>
      vfs_unlink ov v name s = Some (Inl e, s) \<and> vfs_truncate ov v sz s = Some (Inl e, s) \<and>
      vfs_sync ov v s = Some (Inl e, s) \<and>
      (\<exists>e'. vfs_rename ov v name w target s = Some (Inl e', s)) \<and> (\<exists>e'. vfs_rename ov w name v target s = Some (Inl e', s)) \<and>
      (p_euid (vs_proc s) \<noteq> 0 \<longrightarrow> p_euid (vs_proc s) \<noteq> v_uid vp \<longrightarrow> vfs_utime ov v None s = Some (Inl EACCES, s))) \<and>
    (vfs_can_read vp False (vs_proc s) = Inr () \<longrightarrow> \<not> S_ISDIR (v_mode vp) \<longrightarrow> data \<noteq> [] \<longrightarrow> v_ops vp = Some i \<longrightarrow>
      op_write (ov i) = Some f \<longrightarrow> vfs_write ov v data off s = f v data off s)"
  using assms
  by (auto simp add: vop_defs vfs_lookup_def vfs_getattr_def vfs_read_def vfs_readdir_def vfs_readlink_def vfs_write_def
      in_directory_def vfs_create_def vfs_mkdir_def vfs_link_def vfs_symlink_def vfs_unlink_def vfs_truncate_def
      vfs_sync_def vfs_rename_def vfs_utime_def split: sum.splits)

text \<open>A file of the super-user that nobody else may use, and a process of user 1000 looking at it.\<close>

definition vnode_zero :: vfs_vnode where
  "vnode_zero = \<lparr>v_uid = 0, v_gid = 0, v_mode = 0, v_ino = 0, v_nlink = 0, v_rdev = 0, v_atime = (0, 0),
     v_mtime = (0, 0), v_ctime = (0, 0), v_size = 0, v_blocks = 0, v_blksize = 0, v_ops = Some 0,
     v_flags = 0, v_children = None, v_parent = None, v_mount = None\<rparr>"

definition user_proc :: process where
  "user_proc = \<lparr>p_pid = 2, p_ppid = 1, p_pgid = 2, p_sid = 2, p_uid = 1000, p_euid = 1000, p_suid = 1000,
     p_gid = 1000, p_egid = 1000, p_sgid = 1000, p_sup_gids = [], p_nsup_gids = 0\<rparr>"

definition fds_zero :: fd_state where
  "fds_zero = \<lparr>system_fd_table = [], fd_table_start = 0, fd_lock = False,
     proc_fds = (\<lambda>_. \<lparr>ft_table = [], ft_curr = 0, ft_size = 0, ft_max_size = 0\<rparr>), fd_this = 0,
     vnode_refs = (\<lambda>_. 0), vnodes_freed = [], fd_errno = None\<rparr>"

definition mount_zero :: mount where
  "mount_zero = \<lparr>mt_root_vnode = None, mt_parent = None, mt_root_name = None,
     mt_vcache = \<lparr>buckets = [], bucket_count = 0, object_count = 0\<rparr>, mt_flags = 0, mt_device = 0\<rparr>"

definition root_only :: "unit vfs" where
  "root_only = \<lparr>vs_vnodes = [0 \<mapsto> vnode_zero\<lparr>v_mode := S_IFREG OR S_IRUSR OR S_IWUSR\<rparr>], vs_next_vnode = 1,
     vs_mounts = (\<lambda>_. mount_zero), mount_table = [], root_vnode = 0, vs_proc = user_proc, vs_cwd = 0, vs_umask = 0,
     vs_fds = fds_zero, vs_alloc = [], vs_errno = ENOENT, vs_time = 0, vs_priv = ()\<rparr>"

text \<open>A driver that only changes the owner and the mode.\<close>

definition store_mode :: "nat \<Rightarrow> u32 \<Rightarrow> ('b vfs, unit) vop" where
  "store_mode v mode = at_vnode v (\<lambda>vp s. ok () (set_vnode v (vp\<lparr>v_mode := v_mode vp AND S_IFMT OR mode\<rparr>) s))"

definition store_owner :: "nat \<Rightarrow> u32 \<Rightarrow> u32 \<Rightarrow> ('b vfs, unit) vop" where
  "store_owner v uid gid = at_vnode v (\<lambda>vp s. ok () (set_vnode v (vp\<lparr>v_uid := uid\<rparr>) s))"

definition owner_ops :: "'b vfs vnode_ops" where
  "owner_ops = \<lparr>op_lookup = None, op_getattr = None, op_read = None, op_write = None, op_sync = None,
     op_chmod = Some store_mode, op_chown = Some store_owner,
     op_create = None, op_mkdir = None, op_rename = None, op_link = None, op_unlink = None, op_symlink = None,
     op_readdir = None, op_readlink = None, op_truncate = None, op_utime = None, op_fill = None, op_dealloc = None\<rparr>"

theorem vfs_denied_without_effect_witness:
  "vfs_read (\<lambda>_. owner_ops) 0 10 0 root_only = Some (Inl EACCES, root_only) \<and>
   vfs_truncate (\<lambda>_. owner_ops) 0 0 root_only = Some (Inl EACCES, root_only) \<and>
   (\<exists>e. vfs_rename (\<lambda>_. owner_ops) 0 [97] 0 [98] root_only = Some (Inl e, root_only))"
proof -
  let ?vp = "vnode_zero\<lparr>v_mode := S_IFREG OR S_IRUSR OR S_IWUSR\<rparr>"
  have "vs_vnodes root_only 0 = Some ?vp" by (simp add: root_only_def)
  moreover have "vfs_can_read ?vp False (vs_proc root_only) = Inl EACCES" "vfs_can_write ?vp False (vs_proc root_only) = Inl EACCES"
    by (simp_all add: vfs_can_read_def vfs_can_write_def root_only_def user_proc_def vnode_zero_def S_IFREG_def
        S_IRUSR_def S_IWUSR_def S_IROTH_def S_IWOTH_def)
  ultimately show ?thesis
    using vfs_denied_without_effect [where s = root_only and v = 0 and w = 0 and e = EACCES and ov = "\<lambda>_. owner_ops" and len = 10
        and off = 0 and sz = 0 and name = "[97]" and target = "[98]"] by simp
qed

text \<open>
  Any process can take any file: \<open>vfs_chown\<close> compares the effective user with the new owner
  and not with the present one, so a process may make itself the owner of a file of another user,
  and may then give itself all permissions with \<open>vfs_chmod\<close>. The drivers are only assumed to
  store the owner and the mode they are given.\<close>

theorem vfs_chown_takeover:
  assumes "vs_vnodes s v = Some vp" and "v_ops vp = Some i" and "op_chown (ov i) = Some f" and "op_chmod (ov i) = Some g"
    and chown: "\<And>s vp uid. vs_vnodes s v = Some vp \<Longrightarrow> f v uid (-1) s = Some (Inr (), set_vnode v (vp\<lparr>v_uid := uid\<rparr>) s)"
    and chmod: "\<And>s vp mode. vs_vnodes s v = Some vp \<Longrightarrow>
      g v mode s = Some (Inr (), set_vnode v (vp\<lparr>v_mode := v_mode vp AND S_IFMT OR mode\<rparr>) s)"
  shows "\<exists>s1 s2 vp'. vfs_chown ov v (p_euid (vs_proc s)) (-1) s = Some (Inr (), s1) \<and>
    vfs_chmod ov v (S_IRUSR OR S_IWUSR OR S_IXUSR) s1 = Some (Inr (), s2) \<and> vs_vnodes s2 v = Some vp' \<and>
    vfs_can_read vp' False (vs_proc s2) = Inr () \<and> vfs_can_write vp' False (vs_proc s2) = Inr ()"
proof -
  let ?u = "p_euid (vs_proc s)" and ?m = "v_mode vp AND NOT (S_ISUID OR S_ISGID)" and ?rwx = "S_IRUSR OR S_IWUSR OR S_IXUSR"
  let ?vp1 = "vp\<lparr>v_mode := ?m, v_uid := ?u\<rparr>"
  let ?s1 = "set_vnode v ?vp1 (set_vnode v (vp\<lparr>v_mode := ?m\<rparr>) s)"
  let ?vp2 = "?vp1\<lparr>v_mode := ?m AND S_IFMT OR ?rwx\<rparr>"
  have 1: "vfs_chown ov v ?u (-1) s = Some (Inr (), ?s1)"
    using assms(1-3) chown [of "set_vnode v (vp\<lparr>v_mode := ?m\<rparr>) s" "vp\<lparr>v_mode := ?m\<rparr>" ?u]
    by (simp add: vfs_chown_def set_mode_def vop_defs set_vnode_def)
  have rwx: "?rwx AND 0xfff = ?rwx" "?rwx AND NOT S_ISGID = ?rwx"
    by (simp_all add: S_IRUSR_def S_IWUSR_def S_IXUSR_def S_ISGID_def)
  have 2: "vfs_chmod ov v ?rwx ?s1 = Some (Inr (), set_vnode v ?vp2 ?s1)"
    using assms(2,4) rwx chmod [of ?s1 ?vp1 ?rwx]
    by (simp add: vfs_chmod_def vop_defs set_vnode_def Let_def)
  have bits: "bit (x OR ?rwx) 8" "bit (x OR ?rwx) 7" "bit (x OR ?rwx) 6" for x
    using mode_bits(1) [of S_IRUSR] mode_bits(2) [of S_IWUSR] mode_bits(3) [of S_IXUSR]
    by (simp_all add: bit_or_iff S_IRUSR_def S_IWUSR_def S_IXUSR_def)
  have "vfs_can_read ?vp2 False (vs_proc s) = Inr ()" "vfs_can_write ?vp2 False (vs_proc s) = Inr ()"
    unfolding can_read_iff can_write_iff perm_bit_def perm_class_def perm_uid_def using bits by simp_all
  then show ?thesis using 1 2 by (intro exI [of _ ?s1] exI [of _ "set_vnode v ?vp2 ?s1"] exI [of _ ?vp2]) (simp add: set_vnode_def)
qed

theorem vfs_chown_takeover_witness:
  "vfs_read (\<lambda>_. owner_ops) 0 10 0 root_only = Some (Inl EACCES, root_only) \<and>
   (\<exists>s1 s2 vp. vfs_chown (\<lambda>_. owner_ops) 0 1000 (-1) root_only = Some (Inr (), s1) \<and>
     vfs_chmod (\<lambda>_. owner_ops) 0 (S_IRUSR OR S_IWUSR OR S_IXUSR) s1 = Some (Inr (), s2) \<and>
     vs_vnodes s2 0 = Some vp \<and> vfs_can_read vp False (vs_proc s2) = Inr ())"
proof
  show "vfs_read (\<lambda>_. owner_ops) 0 10 0 root_only = Some (Inl EACCES, root_only)"
    by (simp add: vfs_read_def vop_defs vfs_can_read_def root_only_def user_proc_def vnode_zero_def S_IFREG_def
        S_IRUSR_def S_IWUSR_def S_IROTH_def S_IWOTH_def)
  have "\<exists>s1 s2 vp'. vfs_chown (\<lambda>_. owner_ops) 0 (p_euid (vs_proc root_only)) (-1) root_only = Some (Inr (), s1) \<and>
     vfs_chmod (\<lambda>_. owner_ops) 0 (S_IRUSR OR S_IWUSR OR S_IXUSR) s1 = Some (Inr (), s2) \<and> vs_vnodes s2 0 = Some vp' \<and>
     vfs_can_read vp' False (vs_proc s2) = Inr () \<and> vfs_can_write vp' False (vs_proc s2) = Inr ()"
    by (rule vfs_chown_takeover [where i = 0 and f = store_owner and g = store_mode
          and vp = "vnode_zero\<lparr>v_mode := S_IFREG OR S_IRUSR OR S_IWUSR\<rparr>"])
      (simp_all add: root_only_def vnode_zero_def owner_ops_def store_owner_def store_mode_def vop_defs)
  moreover have "p_euid (vs_proc root_only) = 1000" by (simp add: root_only_def user_proc_def)
  ultimately show "\<exists>s1 s2 vp. vfs_chown (\<lambda>_. owner_ops) 0 1000 (-1) root_only = Some (Inr (), s1) \<and>
     vfs_chmod (\<lambda>_. owner_ops) 0 (S_IRUSR OR S_IWUSR OR S_IXUSR) s1 = Some (Inr (), s2) \<and>
     vs_vnodes s2 0 = Some vp \<and> vfs_can_read vp False (vs_proc s2) = Inr ()"
    by auto
qed

text \<open>\<open>vfs_write\<close> checks the permission to read: a file that is only readable can be written.\<close>

theorem vfs_write_checks_read:
  assumes "vs_vnodes s v = Some vp" and "vfs_can_read vp False (vs_proc s) = Inr ()" and "\<not> S_ISDIR (v_mode vp)"
    and "data \<noteq> []" and "v_ops vp = Some i" and "op_write (ov i) = Some f"
  shows "vfs_write ov v data off s = f v data off s"
  using assms by (simp add: vfs_write_def vop_defs)

end
