(* ===== verification/Pml_Namei.thy ===== *)
theory Pml_Namei
  imports Pml_Vfs
begin

text \<open>
  The tree of vnodes: mount points (drivers/fs/mount.c), children, and the resolution of path
  names (drivers/fs/vtree.c). A path is the list of its bytes without the terminator. The copy
  of the path that \<open>vnode_namei\<close> works on is not tracked as a heap block; its allocation may fail.
\<close>

section \<open>Mount points\<close>

fun find_mount :: "nat list \<Rightarrow> nat \<Rightarrow> u8 list \<Rightarrow> 'b vfs \<Rightarrow> nat option" where
  "find_mount [] vp name s = None"
| "find_mount (m # ms) vp name s =
     (if mt_parent (vs_mounts s m) = Some vp \<and> mt_root_name (vs_mounts s m) = Some name then Some m
      else find_mount ms vp name s)"

text \<open>\<open>None\<close> as the result: no mount point of that name.\<close>

definition vnode_find_mount_point :: "nat \<Rightarrow> u8 list \<Rightarrow> ('b vfs, nat option) vop" where
  "vnode_find_mount_point vp name s =
     (case find_mount (mount_table s) vp name s of
        None \<Rightarrow> ok None s
      | Some m \<Rightarrow>
          (case mt_root_vnode (vs_mounts s m) of
             None \<Rightarrow> None
           | Some r \<Rightarrow> and_then (ref_obj r) (\<lambda>_. ok (Some r)) s))"

section \<open>Children\<close>

definition vnode_add_child :: "nat \<Rightarrow> nat \<Rightarrow> u8 list \<Rightarrow> ('b vfs, unit) vop" where
  "vnode_add_child v child name =
     at_vnode v (\<lambda>vp. at_vnode child (\<lambda>cp s.
       case v_children vp of
         None \<Rightarrow> None
       | Some c \<Rightarrow>
           (case strmap_insert (vs_alloc s) c name (v_ino cp) of
              None \<Rightarrow> None
            | Some (r, c, al) \<Rightarrow>
                let s = (set_vnode v (vp\<lparr>v_children := Some c\<rparr>) s)\<lparr>vs_alloc := al\<rparr> in
                if r \<noteq> 0 then fail ENOMEM s
                else and_then (ref_obj child) (\<lambda>_.
                       at_vnode child (\<lambda>cp s. and_then (ref_obj v) (\<lambda>_. ok ())
                         (set_vnode child (cp\<lparr>v_parent := Some v\<rparr>) s))) s)))"

text \<open>
  A name found in the map of children is looked up in the cache of the mount. When it is not there the code
  returns a null pointer without an error number; the error reported is then the last one that \<open>vs_errno\<close> keeps, which
  does not record those of earlier calls that failed.\<close>

definition cached_child :: "vfs_vnode \<Rightarrow> u64 \<Rightarrow> ('b vfs, nat) vop" where
  "cached_child d ino s =
     (case vnode_lookup_cache (v_mount d) ino s of
        None \<Rightarrow> None
      | Some None \<Rightarrow> fail (vs_errno s) s
      | Some (Some v) \<Rightarrow> and_then (ref_obj v) (\<lambda>_. ok v) s)"

definition new_child :: "'b op_vectors \<Rightarrow> nat \<Rightarrow> u8 list \<Rightarrow> ('b vfs, nat) vop" where
  "new_child ov dir name =
     and_then (vfs_lookup ov dir name) (\<lambda>v s.
       case vnode_place_cache v s of
         None \<Rightarrow> None
       | Some s \<Rightarrow> attempt (vnode_add_child dir v name) (\<lambda>r s. ok v (case r of Inl e \<Rightarrow> s\<lparr>vs_errno := e\<rparr> | Inr _ \<Rightarrow> s)) s)"

definition vnode_lookup_child :: "'b op_vectors \<Rightarrow> nat \<Rightarrow> u8 list \<Rightarrow> ('b vfs, nat) vop" where
  "vnode_lookup_child ov dir name =
     at_vnode dir (\<lambda>d.
       case v_children d of
         None \<Rightarrow> (\<lambda>s. None)
       | Some c \<Rightarrow>
           (case strmap_lookup c name of
              None \<Rightarrow> (\<lambda>s. None)
            | Some None \<Rightarrow> new_child ov dir name
            | Some (Some ino) \<Rightarrow> if ino \<noteq> 0 then cached_child d ino else new_child ov dir name))"

section \<open>Path names\<close>

definition SYMLOOP_MAX :: int where "SYMLOOP_MAX = 32"
definition LINK_MAX :: int where "LINK_MAX = 128"
definition PATH_MAX :: nat where "PATH_MAX = 4096"

abbreviation slash :: u8 where "slash \<equiv> 47"

text \<open>The component up to the next slash, and what follows it.\<close>

definition split_path :: "u8 list \<Rightarrow> u8 list \<times> u8 list option" where
  "split_path p =
     (takeWhile (\<lambda>c. c \<noteq> slash) p,
      case dropWhile (\<lambda>c. c \<noteq> slash) p of [] \<Rightarrow> None | _ # r \<Rightarrow> Some r)"

lemma split_path_shorter: "split_path p = (c, Some r) \<Longrightarrow> length r < length p"
  using length_dropWhile_le [of "\<lambda>c. c \<noteq> slash" p] by (auto simp: split_path_def split: list.splits)

definition take_alloc_op :: "('b vfs, 'a) vop \<Rightarrow> ('b vfs, 'a) vop" where
  "take_alloc_op m s =
     (case take_alloc (vs_alloc s) of (avail, al) \<Rightarrow> if avail then m (s\<lparr>vs_alloc := al\<rparr>) else fail ENOMEM (s\<lparr>vs_alloc := al\<rparr>))"

text \<open>The end of a failed resolution drops the reference to the vnode it had reached.\<close>

definition unref_fail :: "'b op_vectors \<Rightarrow> nat \<Rightarrow> errno \<Rightarrow> ('b vfs, 'a) vop" where
  "unref_fail ov vp e s = (case vn_unref ov (Some vp) s of None \<Rightarrow> None | Some s \<Rightarrow> fail e s)"

definition dot_dot :: "nat \<Rightarrow> ('b vfs, nat) vop" where
  "dot_dot vp =
     at_vnode vp (\<lambda>p. case v_parent p of None \<Rightarrow> (\<lambda>s. None) | Some q \<Rightarrow> and_then (ref_obj q) (\<lambda>_. ok q))"

definition named_child :: "'b op_vectors \<Rightarrow> nat \<Rightarrow> u8 list \<Rightarrow> ('b vfs, nat) vop" where
  "named_child ov vp c =
     and_then (vnode_find_mount_point vp c) (\<lambda>r. case r of Some q \<Rightarrow> ok q | None \<Rightarrow> vnode_lookup_child ov vp c)"

text \<open>The text of a symbolic link, read and resolved by \<open>resolve\<close> with its directory as working directory.\<close>

definition follow_link :: "'b op_vectors \<Rightarrow> (u8 list \<Rightarrow> ('b vfs, nat) vop) \<Rightarrow> nat \<Rightarrow> nat \<Rightarrow> ('b vfs, nat) vop" where
  "follow_link ov resolve vp q =
     take_alloc_op (\<lambda>s.
       let cwd = vs_cwd s in
       attempt (and_then (vfs_readlink ov q (PATH_MAX - 1)) (\<lambda>text. resolve (takeWhile (\<lambda>c. c \<noteq> 0) text)))
         (\<lambda>r s. Some (r, s\<lparr>vs_cwd := cwd\<rparr>)) (s\<lparr>vs_cwd := vp\<rparr>))"

definition relevant :: "u8 list \<Rightarrow> bool" where
  "relevant c \<longleftrightarrow> c \<noteq> [] \<and> c \<noteq> [46]"

function vnode_namei :: "'b op_vectors \<Rightarrow> int \<Rightarrow> u8 list \<Rightarrow> ('b vfs, nat) vop"
  and namei_loop :: "'b op_vectors \<Rightarrow> int \<Rightarrow> nat \<Rightarrow> u8 list \<Rightarrow> ('b vfs, nat) vop"
  and namei_step :: "'b op_vectors \<Rightarrow> int \<Rightarrow> nat \<Rightarrow> u8 list \<Rightarrow> ('b vfs, nat) vop" where
  "vnode_namei ov link_count path =
     take_alloc_op
       (if link_count \<ge> SYMLOOP_MAX then fail ELOOP
        else if path \<noteq> [] \<and> hd path = slash
        then (\<lambda>s. and_then (ref_obj (root_vnode s)) (\<lambda>_. namei_loop ov link_count (root_vnode s) (tl path)) s)
        else (\<lambda>s. and_then (ref_obj (vs_cwd s)) (\<lambda>_. namei_loop ov link_count (vs_cwd s) path) s))"
| "namei_loop ov link_count vp ptr =
     (case split_path ptr of (c, end) \<Rightarrow>
        attempt (if relevant c then namei_step ov link_count vp c else ok vp) (\<lambda>r.
          case r of
            Inl e \<Rightarrow> unref_fail ov vp e
          | Inr vp \<Rightarrow> (case end of None \<Rightarrow> ok vp | Some ptr \<Rightarrow> namei_loop ov link_count vp ptr)))"
| "namei_step ov link_count vp c =
     (if c = [46, 46] then dot_dot vp
      else and_then (named_child ov vp c) (\<lambda>q. at_vnode q (\<lambda>qp.
        if link_count \<ge> 0 \<and> S_ISLNK (v_mode qp)
        then if link_count \<ge> LINK_MAX then fail ELOOP
             else follow_link ov (\<lambda>text. vnode_namei ov (link_count + 1) text) vp q
        else ok q)))"
  by pat_completeness auto

termination
proof (relation "measures [\<lambda>x. case x of Inl (ov, l, _) \<Rightarrow> nat (129 - l) | Inr (Inl (ov, l, _)) \<Rightarrow> nat (129 - l)
      | Inr (Inr (ov, l, _)) \<Rightarrow> nat (129 - l),
    \<lambda>x. case x of Inl _ \<Rightarrow> 2 | Inr (Inl _) \<Rightarrow> 1 | Inr (Inr _) \<Rightarrow> 0,
    \<lambda>x. case x of Inl _ \<Rightarrow> 0 | Inr (Inl (ov, l, vp, ptr)) \<Rightarrow> length ptr | Inr (Inr _) \<Rightarrow> 0]", goal_cases)
qed (auto simp: LINK_MAX_def dest: split_path_shorter [OF sym])

declare vnode_namei.simps [simp del] namei_loop.simps [simp del] namei_step.simps [simp del]

text \<open>The directory that holds the last component of a path, and that component.\<close>

definition last_slash :: "u8 list \<Rightarrow> (u8 list \<times> u8 list) option" where
  "last_slash path =
     (if slash \<in> set path
      then Some (rev (tl (dropWhile (\<lambda>c. c \<noteq> slash) (rev path))), rev (takeWhile (\<lambda>c. c \<noteq> slash) (rev path)))
      else None)"

definition vnode_dir_name :: "'b op_vectors \<Rightarrow> u8 list \<Rightarrow> ('b vfs, nat \<times> u8 list) vop" where
  "vnode_dir_name ov path =
     take_alloc_op (\<lambda>s.
       (case last_slash path of
          None \<Rightarrow> and_then (ref_obj (vs_cwd s)) (\<lambda>_. ok (vs_cwd s, path))
        | Some (dir, name) \<Rightarrow>
            if dir = [] then and_then (ref_obj (root_vnode s)) (\<lambda>_. ok (root_vnode s, name))
            else and_then (vnode_namei ov 0 dir) (\<lambda>d. ok (d, name))) s)"

section \<open>Resolution as a walk along the components\<close>

text \<open>The components of a path, and the walk along a list of names.\<close>

function components :: "u8 list \<Rightarrow> u8 list list" where
  "components p =
     (case split_path p of (c, None) \<Rightarrow> [c] | (c, Some r) \<Rightarrow> c # components r)"
  by pat_completeness auto

termination
  by (relation "measure length") (auto dest: split_path_shorter [OF sym])

declare components.simps [simp del]

lemma components_last: "split_path p = (c, None) \<Longrightarrow> components p = [c]"
  and components_more: "split_path p = (c, Some r) \<Longrightarrow> components p = c # components r"
  by (simp_all add: components.simps [of p])

primrec walk :: "'b op_vectors \<Rightarrow> int \<Rightarrow> nat \<Rightarrow> u8 list list \<Rightarrow> ('b vfs, nat) vop" where
  "walk ov lc vp [] = ok vp"
| "walk ov lc vp (c # cs) =
     attempt (namei_step ov lc vp c) (\<lambda>r. case r of Inl e \<Rightarrow> unref_fail ov vp e | Inr v \<Rightarrow> walk ov lc v cs)"

definition absolute :: "u8 list \<Rightarrow> bool" where
  "absolute path \<longleftrightarrow> path \<noteq> [] \<and> hd path = slash"

definition names :: "u8 list \<Rightarrow> u8 list list" where
  "names path = filter relevant (components path)"

definition start_vnode :: "u8 list \<Rightarrow> 'b vfs \<Rightarrow> nat" where
  "start_vnode path s = (if absolute path then root_vnode s else vs_cwd s)"

lemma attempt_ok [simp]: "attempt (ok x) f = f (Inr x)"
  and attempt_fail [simp]: "attempt (fail e) f = f (Inl e)"
  and and_then_ok [simp]: "and_then (ok x) g = g x"
  and and_then_fail [simp]: "and_then (fail e) g = fail e"
  by (auto simp: fun_eq_iff vop_defs)

lemma and_then_assoc: "and_then (and_then m f) g = and_then m (\<lambda>x. and_then (f x) g)"
  by (auto simp: fun_eq_iff vop_defs split: option.splits sum.splits)

lemma and_then_attempt: "and_then (attempt m f) g = attempt m (\<lambda>r. and_then (f r) g)"
  by (auto simp: fun_eq_iff vop_defs split: option.splits sum.splits)

lemma and_then_unref_fail [simp]: "and_then (unref_fail ov vp e) g = unref_fail ov vp e"
  by (auto simp: fun_eq_iff vop_defs unref_fail_def split: option.splits sum.splits)

lemma walk_none: "(\<lambda>v. walk ov lc v []) = ok"
  by (simp add: fun_eq_iff)

lemma namei_loop_walk: "namei_loop ov lc vp p = walk ov lc vp (names p)"
proof (induction "length p" arbitrary: p vp rule: less_induct)
  case less
  obtain c r where p: "split_path p = (c, r)" by (cases "split_path p")
  show ?case
  proof (cases r)
    case None
    then show ?thesis using p
      by (simp add: namei_loop.simps [of ov lc vp p] names_def components_last)
        (simp only: walk_none simp_thms)
  next
    case (Some q)
    then have "namei_loop ov lc v q = walk ov lc v (names q)" for v using less p split_path_shorter by blast
    then show ?thesis using p Some
      by (simp add: namei_loop.simps [of ov lc vp p] names_def components_more)
  qed
qed

lemma split_path_simple: "slash \<notin> set p \<Longrightarrow> split_path p = (p, None)"
proof -
  assume "slash \<notin> set p"
  then have "\<forall>x\<in>set p. x \<noteq> slash" by auto
  then have "takeWhile (\<lambda>c. c \<noteq> slash) p = p" "dropWhile (\<lambda>c. c \<noteq> slash) p = []"
    unfolding takeWhile_eq_all_conv dropWhile_eq_Nil_conv by blast+
  then show ?thesis by (simp only: split_path_def list.case)
qed

lemma split_path_append: "split_path (a @ slash # b) =
    (case split_path a of (c, None) \<Rightarrow> (c, Some b) | (c, Some r) \<Rightarrow> (c, Some (r @ slash # b)))"
proof (cases "slash \<in> set a")
  case True
  then obtain u v where a: "a = u @ slash # v" "slash \<notin> set u" by (metis split_list_first)
  then have "\<forall>x\<in>set u. x \<noteq> slash" by auto
  then show ?thesis using a(1) by (simp add: split_path_def)
next
  case False
  then have "\<forall>x\<in>set a. x \<noteq> slash" by auto
  then have "split_path (a @ slash # b) = (a, Some b)" by (simp add: split_path_def)
  then show ?thesis using False by (simp add: split_path_simple)
qed

lemma components_append: "components (a @ slash # b) = components a @ components b"
proof (induction "length a" arbitrary: a rule: less_induct)
  case less
  obtain c r where a: "split_path a = (c, r)" by (cases "split_path a")
  show ?case
  proof (cases r)
    case None
    then show ?thesis using a by (simp add: components_last components_more split_path_append)
  next
    case (Some q)
    then have "components (q @ slash # b) = components q @ components b" using less a split_path_shorter by blast
    then show ?thesis using a Some by (simp add: components_more split_path_append)
  qed
qed

lemma names_append: "names (a @ slash # b) = names a @ names b"
  by (simp add: names_def components_append)

lemma names_simple: "slash \<notin> set c \<Longrightarrow> names c = (if relevant c then [c] else [])"
  by (simp add: names_def components_last split_path_simple)

lemma names_slash: "names (slash # p) = names p"
  using names_append [of "[]" p] names_simple [of "[]"] by (simp add: relevant_def)

lemma walk_append: "walk ov lc vp (a @ b) = and_then (walk ov lc vp a) (\<lambda>v. walk ov lc v b)"
proof (induction a arbitrary: vp)
  case Nil
  then show ?case by simp
next
  case (Cons c a)
  then show ?case by (auto simp: fun_eq_iff vop_defs unref_fail_def split: option.splits sum.splits)
qed

lemma vnode_namei_walk:
  "vnode_namei ov lc path =
     take_alloc_op (if lc \<ge> SYMLOOP_MAX then fail ELOOP
       else (\<lambda>s. and_then (ref_obj (start_vnode path s)) (\<lambda>_. walk ov lc (start_vnode path s) (names path)) s))"
proof -
  have "path \<noteq> [] \<and> hd path = slash \<Longrightarrow> names (tl path) = names path"
    using names_slash [of "tl path"] by (cases path) auto
  then show ?thesis by (auto simp: vnode_namei.simps namei_loop_walk start_vnode_def absolute_def)
qed

text \<open>
  C27: Path resolution depends only on where a path starts and on its names: two paths that are both
  absolute or both relative, and have the same components apart from empty ones and single dots,
  are resolved alike in every state, with the same result, the same errors and the same effects on
  reference counts, whatever the file system drivers do.\<close>

theorem namei_same_names:
  assumes "absolute p = absolute q" and "names p = names q"
  shows "vnode_namei ov lc p = vnode_namei ov lc q"
  using assms by (simp add: vnode_namei_walk start_vnode_def)

text \<open>The paths \<open>/a//./b/\<close> and \<open>/a/b\<close>.\<close>

theorem namei_same_names_witness:
  "vnode_namei (\<lambda>_. owner_ops :: unit vfs vnode_ops) 0 [47, 97, 47, 47, 46, 47, 98, 47] =
   vnode_namei (\<lambda>_. owner_ops) 0 [47, 97, 47, 98]"
proof (rule namei_same_names)
  have "names [] = []" "names [46] = []" "names [97] = [[97]]" "names [98] = [[98]]"
    by (simp_all add: names_simple relevant_def)
  moreover have "names [47, 97, 47, 47, 46, 47, 98, 47] = names [] @ names [97] @ names [] @ names [46] @ names [98] @ names []"
    "names [47, 97, 47, 98] = names [] @ names [97] @ names [98]"
    using names_append [of "[]"] names_append [of "[97]"] names_append [of "[46]"] names_append [of "[98]"] by simp_all
  ultimately show "names [47, 97, 47, 47, 46, 47, 98, 47] = names [47, 97, 47, 98]" by simp
qed (simp add: absolute_def)

lemma take_alloc_op_none: "vs_alloc s = [] \<Longrightarrow> take_alloc_op m s = m s"
  by (cases s) (simp add: take_alloc_op_def)

lemma last_slash_Some: "last_slash p = Some (d, n) \<Longrightarrow> p = d @ slash # n \<and> slash \<notin> set n"
proof -
  assume a: "last_slash p = Some (d, n)"
  let ?P = "\<lambda>c. c \<noteq> slash"
  have "dropWhile ?P (rev p) \<noteq> []" using a by (auto simp: last_slash_def split: if_splits)
  then have "hd (dropWhile ?P (rev p)) = slash" using hd_dropWhile [of ?P "rev p"] by simp
  then have "rev p = takeWhile ?P (rev p) @ slash # tl (dropWhile ?P (rev p))"
    using takeWhile_dropWhile_id [of ?P "rev p"] \<open>dropWhile ?P (rev p) \<noteq> []\<close> by (metis list.collapse)
  then have "p = rev (takeWhile ?P (rev p) @ slash # tl (dropWhile ?P (rev p)))" by (metis rev_rev_ident)
  then show ?thesis using a by (auto simp: last_slash_def split: if_splits dest: set_takeWhileD)
qed

text \<open>
  C28: \<open>vnode_dir_name\<close> splits a path where \<open>vnode_namei\<close> would arrive: resolving a path is
  resolving the last component, which has no slash, in the directory that \<open>vnode_dir_name\<close>
  returns. Errors on the way and all effects on the state agree, as long as memory is available.\<close>

theorem dir_name_then_last:
  assumes "vs_alloc s = []"
  shows "vnode_namei ov 0 path s = and_then (vnode_dir_name ov path) (\<lambda>(d, n). walk ov 0 d (names n)) s \<and>
    (\<forall>d n s'. vnode_dir_name ov path s = Some (Inr (d, n), s') \<longrightarrow> slash \<notin> set n)"
proof (cases "last_slash path")
  case None
  then have "slash \<notin> set path" by (simp add: last_slash_def split: if_splits)
  moreover from this have "\<not> absolute path" by (cases path) (auto simp: absolute_def)
  ultimately show ?thesis using assms None
    by (auto simp: vnode_namei_walk vnode_dir_name_def take_alloc_op_none start_vnode_def SYMLOOP_MAX_def
        fun_eq_iff vop_defs split: option.splits sum.splits)
next
  case (Some dn)
  then obtain d n where dn: "last_slash path = Some (d, n)" by (cases dn) auto
  note path = last_slash_Some [OF dn]
  have "start_vnode path s = (if d = [] then root_vnode s else start_vnode d s)"
    using path by (cases d) (simp_all add: start_vnode_def absolute_def)
  moreover have "d = [] \<Longrightarrow> names path = names n" using path by (simp add: names_slash)
  moreover have "names path = names d @ names n" using path by (simp add: names_append)
  ultimately show ?thesis using assms dn path
    by (auto simp: vnode_namei_walk vnode_dir_name_def take_alloc_op_none SYMLOOP_MAX_def walk_append
        vop_defs split: option.splits sum.splits)
qed

section \<open>Symbolic links that lead to themselves\<close>

text \<open>The working directory \<open>d\<close> has a link \<open>n\<close>, whose vnode \<open>q\<close> is in the cache and whose text is \<open>n\<close> again.\<close>

definition self_link :: "'b op_vectors \<Rightarrow> nat \<Rightarrow> u8 list \<Rightarrow> nat \<Rightarrow> 'b vfs \<Rightarrow> bool" where
  "self_link ov d n q s \<longleftrightarrow>
     (\<exists>dp c ino qp i f. vs_vnodes s d = Some dp \<and> v_children dp = Some c \<and> strmap_lookup c n = Some (Some ino) \<and> ino \<noteq> 0 \<and>
        vnode_lookup_cache (v_mount dp) ino s = Some (Some q) \<and> vs_vnodes s q = Some qp \<and> S_ISLNK (v_mode qp) \<and>
        vfs_can_read qp False (vs_proc s) = Inr () \<and> v_ops qp = Some i \<and> op_readlink (ov i) = Some f \<and>
        (\<forall>s. f q (PATH_MAX - 1) s = Some (Inr n, s))) \<and>
     find_mount (mount_table s) d n s = None \<and> vs_cwd s = d \<and> vs_alloc s = [] \<and> d \<noteq> q \<and>
     slash \<notin> set n \<and> 0 \<notin> set n \<and> relevant n \<and> n \<noteq> [46, 46]"

lemma find_mount_set_refs [simp]: "find_mount ms d n (set_refs v k s) = find_mount ms d n s"
  by (induction ms) (simp_all add: set_refs_def)

lemma vnode_lookup_cache_set_refs [simp]: "vnode_lookup_cache m ino (set_refs v k s) = vnode_lookup_cache m ino s"
  by (cases m) (simp_all add: vnode_lookup_cache_def set_refs_def)

lemma set_refs_simps [simp]:
  "vs_vnodes (set_refs v k s) = vs_vnodes s" "vs_proc (set_refs v k s) = vs_proc s" "vs_cwd (set_refs v k s) = vs_cwd s"
  "mount_table (set_refs v k s) = mount_table s" "vs_alloc (set_refs v k s) = vs_alloc s"
  "root_vnode (set_refs v k s) = root_vnode s" "vs_mounts (set_refs v k s) = vs_mounts s"
  "vn_refs (set_refs v k s) w = (if w = v then k else vn_refs s w)"
  "set_refs v (vn_refs s v) s = s" "set_refs v j (set_refs v k s) = set_refs v j s"
  by (simp_all add: set_refs_def vn_refs_def)

lemma set_refs_commute: "v \<noteq> w \<Longrightarrow> set_refs v j (set_refs w k s) = set_refs w k (set_refs v j s)"
  by (simp add: set_refs_def fun_upd_twist)

lemma self_link_set_refs [simp]: "self_link ov d n q (set_refs v k s) = self_link ov d n q s"
  by (simp add: self_link_def)

lemma self_link_step:
  assumes "self_link ov d n q s" and "0 \<le> lc" and "lc < LINK_MAX"
  shows "namei_step ov lc d n s = vnode_namei ov (lc + 1) n (set_refs q (vn_refs s q + 1) s) \<or>
    (\<exists>r t. vnode_namei ov (lc + 1) n (set_refs q (vn_refs s q + 1) s) = Some (r, t) \<and>
       namei_step ov lc d n s = Some (r, t\<lparr>vs_cwd := d\<rparr>))"
proof -
  let ?s = "set_refs q (vn_refs s q + 1) s"
  have cwd: "?s\<lparr>vs_cwd := d\<rparr> = ?s" using assms(1) by (simp add: self_link_def set_refs_def)
  have n: "takeWhile (\<lambda>c. c \<noteq> 0) n = n" using assms(1) by (auto simp: self_link_def takeWhile_eq_all_conv)
  have link: "follow_link ov (\<lambda>text. vnode_namei ov (lc + 1) text) d q ?s =
      attempt (vnode_namei ov (lc + 1) n) (\<lambda>r s. Some (r, s\<lparr>vs_cwd := d\<rparr>)) ?s"
  proof -
    obtain qp i f where "vs_vnodes s q = Some qp" "S_ISLNK (v_mode qp)" "vfs_can_read qp False (vs_proc s) = Inr ()"
      "v_ops qp = Some i" "op_readlink (ov i) = Some f" "\<forall>s. f q (PATH_MAX - 1) s = Some (Inr n, s)"
      using assms(1) by (auto simp: self_link_def)
    moreover have "vs_alloc s = []" "vs_cwd s = d" using assms(1) by (simp_all add: self_link_def)
    ultimately show ?thesis
      by (simp add: follow_link_def take_alloc_op_none vfs_readlink_def vop_defs cwd n split: option.splits)
  qed
  have "namei_step ov lc d n s = follow_link ov (\<lambda>text. vnode_namei ov (lc + 1) text) d q ?s"
    using assms by (auto simp: self_link_def namei_step.simps named_child_def vnode_find_mount_point_def
        vnode_lookup_child_def cached_child_def ref_obj_def vop_defs split: option.splits sum.splits)
  then show ?thesis using link by (auto simp: attempt_def split: option.splits)
qed

lemma vn_unref_some: "vn_refs s v \<noteq> 1 \<Longrightarrow> vn_unref ov (Some v) s = Some (set_refs v (vn_refs s v - 1) s)"
  by (simp add: vn_unref.simps [of ov "Some v"] Let_def)

lemma self_link_loops:
  assumes "self_link ov d n q s" and "k \<le> 32" and "vn_refs s d \<noteq> 0" and "unat (vn_refs s d) + k < 2 ^ 32"
  shows "vnode_namei ov (32 - int k) n s = Some (Inl ELOOP, set_refs q (vn_refs s q + of_nat k) s)"
  using assms
proof (induction k arbitrary: s)
  case 0
  then have "vs_alloc s = []" by (simp add: self_link_def)
  then show ?case by (simp add: vnode_namei_walk take_alloc_op_none SYMLOOP_MAX_def fail_def)
next
  case (Suc k)
  let ?s1 = "set_refs d (vn_refs s d + 1) s"
  let ?s2 = "set_refs q (vn_refs s q + 1) ?s1"
  have sl: "vs_alloc s = []" "vs_cwd s = d" "d \<noteq> q" "names n = [n]" "\<not> absolute n" "vs_vnodes s d \<noteq> None"
    using Suc.prems(1) by (cases n; auto simp: self_link_def names_simple absolute_def)+
  have refs: "unat (vn_refs s d + 1) = unat (vn_refs s d) + 1" "vn_refs s d + 1 \<noteq> 0"
    using Suc.prems(4) by (simp_all add: unat_plus_if' unat_eq_0 [symmetric])
  have IH: "vnode_namei ov (32 - int k) n ?s2 = Some (Inl ELOOP, set_refs q (vn_refs ?s2 q + of_nat k) ?s2)"
    using Suc.prems refs sl(3) by (intro Suc.IH) simp_all
  let ?s3 = "set_refs q (vn_refs s q + of_nat (Suc k)) ?s1"
  have s3: "set_refs q (vn_refs ?s2 q + of_nat k) ?s2 = ?s3" "?s3\<lparr>vs_cwd := d\<rparr> = ?s3"
    using sl(2) by (simp add: algebra_simps, simp add: set_refs_def)
  have "namei_step ov (31 - int k) d n ?s1 = Some (Inl ELOOP, ?s3)"
    using self_link_step [of ov d n q ?s1 "31 - int k"] IH s3 sl(3) Suc.prems(1,2) by (auto simp: LINK_MAX_def algebra_simps)
  moreover have "vn_unref ov (Some d) ?s3 = Some (set_refs q (vn_refs s q + of_nat (Suc k)) s)"
  proof -
    have "set_refs d j (set_refs q i ?s1) = set_refs q i (set_refs d j s)" for i j
      using sl(3) by (subst set_refs_commute) simp_all
    then show ?thesis using sl(3) Suc.prems(3) vn_unref_some [of ?s3 d ov] by simp
  qed
  ultimately have "walk ov (31 - int k) d [n] ?s1 = Some (Inl ELOOP, set_refs q (vn_refs s q + of_nat (Suc k)) s)"
    by (simp add: attempt_def unref_fail_def fail_def)
  then show ?case using sl Suc.prems(2)
    by (auto simp: vnode_namei_walk take_alloc_op_none SYMLOOP_MAX_def start_vnode_def ref_obj_def vop_defs simp del: walk.simps)
qed

text \<open>
  The resolution of a symbolic link that leads to itself ends: it fails with ELOOP after 32
  links. Every reference taken to the directory is dropped again, but the reference to the vnode of
  the link taken at each level is never dropped, so each attempt adds 32 references to it.\<close>

theorem symlink_loop_ends:
  assumes "self_link ov d n q s" and "vn_refs s d \<noteq> 0" and "unat (vn_refs s d) + 32 < 2 ^ 32"
  shows "vnode_namei ov 0 n s = Some (Inl ELOOP, set_refs q (vn_refs s q + 32) s)"
  using self_link_loops [OF assms(1) _ assms(2), of 32] assms(3) by simp

text \<open>A root directory with the entry \<open>a\<close>, inode 5: a symbolic link to \<open>a\<close>, readable by all.\<close>

definition demo_dir :: vfs_vnode where
  "demo_dir = vnode_zero\<lparr>v_mode := S_IFDIR OR S_IRUSR OR S_IROTH OR S_IXOTH, v_ino := 2, v_parent := Some 0, v_mount := Some 0,
     v_children := Some \<lparr>buckets = [[\<lparr>ekey = [97], evalue = 5, estate = Live\<rparr>]], bucket_count = 1, object_count = 1\<rparr>\<rparr>"

definition demo_link :: vfs_vnode where
  "demo_link = vnode_zero\<lparr>v_mode := S_IFLNK OR S_IRUSR OR S_IROTH, v_ino := 5, v_parent := Some 0, v_mount := Some 0\<rparr>"

definition link_ops :: "'b vfs vnode_ops" where
  "link_ops = owner_ops\<lparr>op_readlink := Some (\<lambda>v len. ok (take len [97]))\<rparr>"

definition demo_tree :: "unit vfs" where
  "demo_tree = root_only\<lparr>vs_vnodes := [0 \<mapsto> demo_dir, 1 \<mapsto> demo_link], vs_next_vnode := 2,
     vs_mounts := (\<lambda>_. mount_zero\<lparr>mt_vcache :=
       \<lparr>buckets = [[\<lparr>ekey = 5, evalue = 1, estate = Live\<rparr>]], bucket_count = 1, object_count = 1\<rparr>\<rparr>),
     vs_fds := fds_zero\<lparr>vnode_refs := (\<lambda>_. 1)\<rparr>\<rparr>"

lemma demo_self_link: "self_link (\<lambda>_. link_ops) 0 [97] 1 demo_tree"
proof -
  have "vfs_can_read demo_link False user_proc = Inr ()"
    by (simp add: vfs_can_read_def user_proc_def demo_link_def vnode_zero_def S_IFLNK_def S_IRUSR_def S_IROTH_def
        S_ISDIR_def S_IFMT_def S_IFDIR_def)
  moreover have "S_ISLNK (v_mode demo_link)"
    by (simp add: S_ISLNK_def demo_link_def vnode_zero_def S_IFMT_def S_IFLNK_def S_IRUSR_def S_IROTH_def)
  ultimately show ?thesis
    by (simp add: self_link_def demo_tree_def root_only_def demo_dir_def strmap_lookup_def map_lookup_def bucket_index_def
        vnode_lookup_cache_def hashmap_lookup_def link_ops_def ok_def relevant_def PATH_MAX_def)
      (simp add: demo_link_def vnode_zero_def)
qed

theorem symlink_loop_ends_witness:
  "vnode_namei (\<lambda>_. link_ops) 0 [97] demo_tree = Some (Inl ELOOP, set_refs 1 33 demo_tree)"
  using symlink_loop_ends [OF demo_self_link] by (simp add: vn_refs_def demo_tree_def)

text \<open>The path \<open>/a\<close> in the same directory.\<close>

theorem dir_name_then_last_witness:
  "vnode_dir_name (\<lambda>_. link_ops) [47, 97] demo_tree = Some (Inr (0, [97]), set_refs 0 2 demo_tree) \<and>
   vnode_namei (\<lambda>_. link_ops) 0 [47, 97] demo_tree = walk (\<lambda>_. link_ops) 0 0 [[97]] (set_refs 0 2 demo_tree)"
proof -
  have d: "vnode_dir_name (\<lambda>_. link_ops) [47, 97] demo_tree = Some (Inr (0, [97]), set_refs 0 2 demo_tree)"
    by (simp add: vnode_dir_name_def last_slash_def take_alloc_op_none demo_tree_def root_only_def vop_defs ref_obj_def
        vn_refs_def set_refs_def)
  have "vs_alloc demo_tree = []" by (simp add: demo_tree_def root_only_def)
  from dir_name_then_last [OF this, of "\<lambda>_. link_ops" "[47, 97]"] d show ?thesis
    by (simp add: names_simple relevant_def and_then_def attempt_def del: walk.simps)
qed

end
