(* ===== verification/Pml_Fssys.thy ===== *)
theory Pml_Fssys
  imports Pml_Namei
begin

text \<open>
  The system calls on files (drivers/fs/syscall.c), composed from the descriptor tables
  (\<open>Pml_Fd\<close>), the resolution of paths (\<open>Pml_Namei\<close>) and the checked vnode operations
  (\<open>Pml_Vfs\<close>). A call that returns -1 with errno set has the result \<open>Inl\<close>. A call that reads an
  uninitialised variable, dereferences a null pointer or stores outside a buffer has the result \<open>None\<close>.
\<close>

section \<open>Constants\<close>

definition O_WRONLY :: u32 where "O_WRONLY = 1"
definition O_RDWR :: u32 where "O_RDWR = 2"
definition O_CREAT :: u32 where "O_CREAT = 8"
definition O_EXCL :: u32 where "O_EXCL = 32"
definition O_NOFOLLOW :: u32 where "O_NOFOLLOW = 1024"
definition O_DIRECTORY :: u32 where "O_DIRECTORY = 2048"
definition X_OK :: u32 where "X_OK = 1"
definition W_OK :: u32 where "W_OK = 2"
definition R_OK :: u32 where "R_OK = 4"
definition F_OK :: u32 where "F_OK = 8"
definition AT_FDCWD :: int where "AT_FDCWD = -2"
definition AT_SYMLINK_FOLLOW :: u32 where "AT_SYMLINK_FOLLOW = 1"
definition AT_SYMLINK_NOFOLLOW :: u32 where "AT_SYMLINK_NOFOLLOW = 2"
definition AT_EACCESS :: u32 where "AT_EACCESS = 4"
definition AT_REMOVEDIR :: u32 where "AT_REMOVEDIR = 8"
definition MS_RDONLY :: u32 where "MS_RDONLY = 1"
definition VN_FLAG_SYNC_PROC :: u32 where "VN_FLAG_SYNC_PROC = 2"

datatype whence = SEEK_SET | SEEK_CUR | SEEK_END | SEEK_OTHER

section \<open>Descriptors and references\<close>

text \<open>\<open>file_fd\<close>, with the entry of the system table, and with its vnode.\<close>

definition with_file :: "int \<Rightarrow> (nat \<Rightarrow> open_file \<Rightarrow> ('b vfs, 'a) vop) \<Rightarrow> ('b vfs, 'a) vop" where
  "with_file fd k s =
     (case file_fd fd (vs_fds s) of
        None \<Rightarrow> None
      | Some (None, _) \<Rightarrow> fail EBADF s
      | Some (Some f, _) \<Rightarrow>
          if f < length (system_fd_table (vs_fds s)) then k f (system_fd_table (vs_fds s) ! f) s else None)"

definition with_vnode :: "int \<Rightarrow> (nat \<Rightarrow> open_file \<Rightarrow> nat \<Rightarrow> ('b vfs, 'a) vop) \<Rightarrow> ('b vfs, 'a) vop" where
  "with_vnode fd k = with_file fd (\<lambda>f e. case f_vnode e of None \<Rightarrow> (\<lambda>s. None) | Some v \<Rightarrow> k f e v)"

definition at_mount :: "vfs_vnode \<Rightarrow> (mount \<Rightarrow> ('b vfs, 'a) vop) \<Rightarrow> ('b vfs, 'a) vop" where
  "at_mount vp k s = (case v_mount vp of None \<Rightarrow> None | Some m \<Rightarrow> k (vs_mounts s m) s)"

definition finally_unref :: "'b op_vectors \<Rightarrow> nat \<Rightarrow> ('b vfs, 'a) vop \<Rightarrow> ('b vfs, 'a) vop" where
  "finally_unref ov v m =
     attempt m (\<lambda>r s. case vn_unref ov (Some v) s of None \<Rightarrow> None | Some s \<Rightarrow> Some (r, s))"

definition drop_ref :: "'b op_vectors \<Rightarrow> nat \<Rightarrow> ('b vfs, unit) vop" where
  "drop_ref ov v = finally_unref ov v (ok ())"

text \<open>An operation on the vnode of a path, or on the directory and the last name of a path.\<close>

definition with_path :: "'b op_vectors \<Rightarrow> u8 list \<Rightarrow> int \<Rightarrow> (nat \<Rightarrow> ('b vfs, 'a) vop) \<Rightarrow> ('b vfs, 'a) vop" where
  "with_path ov path links k = and_then (vnode_namei ov links path) (\<lambda>v. finally_unref ov v (k v))"

definition with_dir :: "'b op_vectors \<Rightarrow> u8 list \<Rightarrow> (nat \<Rightarrow> u8 list \<Rightarrow> ('b vfs, 'a) vop) \<Rightarrow> ('b vfs, 'a) vop" where
  "with_dir ov path k = and_then (vnode_dir_name ov path) (\<lambda>(dir, name). finally_unref ov dir (k dir name))"

text \<open>
  The calls whose names end in "at" make the directory the working directory of the process
  for the time of the call.
\<close>

definition enter_dir :: "int \<Rightarrow> ('b vfs, bool) vop" where
  "enter_dir dirfd =
     (if dirfd = AT_FDCWD then ok False
      else with_vnode dirfd (\<lambda>_ _ v s. and_then (ref_obj v) (\<lambda>_ s. ok True (s\<lparr>vs_cwd := v\<rparr>)) s))"

definition leave_dir :: "'b op_vectors \<Rightarrow> bool \<Rightarrow> nat \<Rightarrow> errno + 'a \<Rightarrow> ('b vfs, 'a) vop" where
  "leave_dir ov unref cwd r s =
     (case (if unref then vn_unref ov (Some (vs_cwd s)) s else Some s) of
        None \<Rightarrow> None
      | Some s \<Rightarrow> Some (r, s\<lparr>vs_cwd := cwd\<rparr>))"

definition in_dir :: "'b op_vectors \<Rightarrow> int \<Rightarrow> ('b vfs, 'a) vop \<Rightarrow> ('b vfs, 'a) vop" where
  "in_dir ov dirfd m s = and_then (enter_dir dirfd) (\<lambda>unref. attempt m (leave_dir ov unref (vs_cwd s))) s"

text \<open>
  An operation of \<open>Pml_Fd\<close>; the vnodes whose last reference it dropped are deallocated. Those
  operations clear the entry that referred to the vnode in the same breath.
\<close>

fun dealloc_all :: "'b op_vectors \<Rightarrow> nat list \<Rightarrow> 'b vfs \<Rightarrow> 'b vfs option" where
  "dealloc_all ov [] s = Some s"
| "dealloc_all ov (v # vs) s = Option.bind (vfs_dealloc ov v s) (dealloc_all ov vs)"

definition fds_op :: "'b op_vectors \<Rightarrow> (fd_state \<Rightarrow> fd_state option) \<Rightarrow> 'b vfs \<Rightarrow> 'b vfs option" where
  "fds_op ov f s =
     (case f ((vs_fds s)\<lparr>vnodes_freed := []\<rparr>) of
        None \<Rightarrow> None
      | Some t \<Rightarrow> dealloc_all ov (vnodes_freed t) (s\<lparr>vs_fds := t\<lparr>vnodes_freed := []\<rparr>\<rparr>))"

definition alloc_sysfd :: "('b vfs, nat) vop" where
  "alloc_sysfd s =
     (case alloc_fd (vs_fds s) of
        None \<Rightarrow> None
      | Some (r, t) \<Rightarrow> if r = -1 then fail ENFILE (s\<lparr>vs_fds := t\<rparr>) else ok (nat r) (s\<lparr>vs_fds := t\<rparr>))"

definition alloc_pfd :: "('b vfs, nat) vop" where
  "alloc_pfd s =
     (case alloc_procfd (vs_alloc s) ((vs_fds s)\<lparr>fd_errno := None\<rparr>) of
        None \<Rightarrow> None
      | Some (r, t, al) \<Rightarrow>
          let s = s\<lparr>vs_fds := t, vs_alloc := al\<rparr> in
          if r = -1 then fail (case fd_errno t of None \<Rightarrow> ENOMEM | Some e \<Rightarrow> e) s else ok (nat r) s)"

definition set_file :: "nat \<Rightarrow> open_file \<Rightarrow> 'b vfs \<Rightarrow> 'b vfs" where
  "set_file f e s = s\<lparr>vs_fds := (vs_fds s)\<lparr>system_fd_table := (system_fd_table (vs_fds s))[f := e]\<rparr>\<rparr>"

definition get_file :: "nat \<Rightarrow> 'b vfs \<Rightarrow> open_file" where
  "get_file f s = system_fd_table (vs_fds s) ! f"

section \<open>Shared parts\<close>

definition xaccess :: "nat \<Rightarrow> u32 \<Rightarrow> bool \<Rightarrow> ('b vfs, unit) vop" where
  "xaccess v mode real =
     (if mode = F_OK then ok ()
      else if mode = mode AND (R_OK OR W_OK OR X_OK)
      then at_vnode v (\<lambda>vp. this_proc (\<lambda>p.
             require (mode AND R_OK = 0 \<or> vfs_can_read vp real p = Inr ()) EACCES
               (and_then
                 (if mode AND W_OK = 0 then ok ()
                  else at_mount vp (\<lambda>m. require (mt_flags m AND MS_RDONLY = 0 \<and> vfs_can_write vp real p = Inr ()) EACCES (ok ())))
                 (\<lambda>_. require (mode AND X_OK = 0 \<or> vfs_can_exec vp real p = Inr ()) EACCES (ok ())))))
      else fail EINVAL)"

definition xstat :: "'b op_vectors \<Rightarrow> u8 list \<Rightarrow> stat \<Rightarrow> bool \<Rightarrow> ('b vfs, stat) vop" where
  "xstat ov path st follow_links = with_path ov path (if follow_links then 0 else -1) (vfs_getattr ov st)"

definition xrename :: "'b op_vectors \<Rightarrow> nat \<Rightarrow> u8 list \<Rightarrow> nat \<Rightarrow> u8 list \<Rightarrow> ('b vfs, unit) vop" where
  "xrename ov old_dir old_name new_dir new_name =
     and_then (vfs_lookup ov old_dir old_name) (\<lambda>v.
       at_vnode v (\<lambda>vp. at_vnode old_dir (\<lambda>od. at_vnode new_dir (\<lambda>nd.
         if v_mount vp \<noteq> v_mount od then unref_fail ov v EBUSY
         else if v_mount od \<noteq> v_mount nd then unref_fail ov v EXDEV
         else and_then (drop_ref ov v) (\<lambda>_. vfs_rename ov old_dir old_name new_dir new_name)))))"

text \<open>Any failure of the lookup but ENOENT counts as the existence of the name.\<close>

definition must_not_exist :: "'b op_vectors \<Rightarrow> nat \<Rightarrow> u8 list \<Rightarrow> ('b vfs, 'a) vop \<Rightarrow> ('b vfs, 'a) vop" where
  "must_not_exist ov dir name m =
     attempt (vfs_lookup ov dir name) (\<lambda>r.
       case r of Inr scratch \<Rightarrow> unref_fail ov scratch EEXIST | Inl e \<Rightarrow> require (e = ENOENT) EEXIST m)"

definition xlink :: "'b op_vectors \<Rightarrow> nat \<Rightarrow> nat \<Rightarrow> u8 list \<Rightarrow> ('b vfs, unit) vop" where
  "xlink ov v dir name =
     at_vnode v (\<lambda>vp. at_vnode dir (\<lambda>d.
       require (v_mount vp = v_mount d) EXDEV (must_not_exist ov dir name (vfs_link ov dir v name))))"

definition xchmod :: "'b op_vectors \<Rightarrow> u8 list \<Rightarrow> u32 \<Rightarrow> bool \<Rightarrow> ('b vfs, unit) vop" where
  "xchmod ov path mode follow_links = with_path ov path (if follow_links then 0 else -1) (\<lambda>v. vfs_chmod ov v mode)"

definition xchown :: "'b op_vectors \<Rightarrow> u8 list \<Rightarrow> u32 \<Rightarrow> u32 \<Rightarrow> bool \<Rightarrow> ('b vfs, unit) vop" where
  "xchown ov path uid gid follow_links = with_path ov path (if follow_links then 0 else -1) (\<lambda>v. vfs_chown ov v uid gid)"

section \<open>Opening and closing\<close>

definition sys_umask :: "u32 \<Rightarrow> ('b vfs, u32) vop" where
  "sys_umask mode s = ok (vs_umask s) (s\<lparr>vs_umask := mode AND 0x1ff\<rparr>)"

definition open_create :: "'b op_vectors \<Rightarrow> u8 list \<Rightarrow> u32 \<Rightarrow> u32 \<Rightarrow> ('b vfs, nat) vop" where
  "open_create ov path flags mode =
     with_dir ov path (\<lambda>dir name.
       at_vnode dir (\<lambda>d. at_mount d (\<lambda>m.
         require (mt_flags m AND MS_RDONLY = 0) EROFS
           (require (name \<noteq> [46] \<and> name \<noteq> [46, 46]) ENOENT
             (\<lambda>s. and_then
                (if flags AND O_DIRECTORY \<noteq> 0 then vfs_mkdir ov True dir name (mode AND NOT (vs_umask s))
                 else vfs_create ov True dir name (mode AND NOT (vs_umask s)) 0)
                (\<lambda>r. case r of None \<Rightarrow> (\<lambda>s. None) | Some v \<Rightarrow> ok v) s)))))"

definition open_vnode :: "'b op_vectors \<Rightarrow> u8 list \<Rightarrow> u32 \<Rightarrow> u32 \<Rightarrow> ('b vfs, nat) vop" where
  "open_vnode ov path flags mode =
     attempt (vnode_namei ov (if flags AND O_NOFOLLOW \<noteq> 0 then -1 else 0) path) (\<lambda>r.
       case r of
         Inl e \<Rightarrow> if e = ENOENT \<and> flags AND O_CREAT \<noteq> 0 then open_create ov path flags mode else fail e
       | Inr v \<Rightarrow> if flags AND O_CREAT \<noteq> 0 \<and> flags AND O_EXCL \<noteq> 0 then unref_fail ov v EEXIST else ok v)"

definition open_writable :: "'b op_vectors \<Rightarrow> nat \<Rightarrow> u32 \<Rightarrow> ('b vfs, nat) vop" where
  "open_writable ov v flags =
     at_vnode v (\<lambda>vp. at_mount vp (\<lambda>m.
       if mt_flags m AND MS_RDONLY \<noteq> 0 \<and> (flags AND O_ACCMODE = O_WRONLY \<or> flags AND O_ACCMODE = O_RDWR)
       then unref_fail ov v EROFS else ok v))"

text \<open>The labels \<open>err1\<close> and \<open>err0\<close> of \<open>sys_open\<close>.\<close>

definition open_undo :: "'b op_vectors \<Rightarrow> nat \<Rightarrow> nat \<Rightarrow> errno \<Rightarrow> ('b vfs, 'a) vop" where
  "open_undo ov fd sysfd e s =
     (case Option.bind (fds_op ov (free_procfd fd) s) (fds_op ov (free_fd sysfd)) of None \<Rightarrow> None | Some s \<Rightarrow> fail e s)"

definition sys_open :: "'b op_vectors \<Rightarrow> u8 list \<Rightarrow> u32 \<Rightarrow> u32 \<Rightarrow> ('b vfs, nat) vop" where
  "sys_open ov path flags mode =
     and_then alloc_sysfd (\<lambda>sysfd.
       attempt alloc_pfd (\<lambda>r.
         case r of
           Inl e \<Rightarrow> (\<lambda>s. case fds_op ov (free_fd sysfd) s of None \<Rightarrow> None | Some s \<Rightarrow> fail e s)
         | Inr fd \<Rightarrow>
             attempt (and_then (open_vnode ov path flags mode) (\<lambda>v. open_writable ov v flags)) (\<lambda>r.
               case r of
                 Inl e \<Rightarrow> open_undo ov fd sysfd e
               | Inr v \<Rightarrow> (\<lambda>s. case fill_fd fd sysfd (Some v) flags (vs_fds s) of
                                 None \<Rightarrow> None | Some t \<Rightarrow> ok fd (s\<lparr>vs_fds := t\<rparr>)))))"

definition sys_openat :: "'b op_vectors \<Rightarrow> int \<Rightarrow> u8 list \<Rightarrow> u32 \<Rightarrow> u32 \<Rightarrow> ('b vfs, nat) vop" where
  "sys_openat ov dirfd path flags mode = in_dir ov dirfd (sys_open ov path flags mode)"

definition sys_close :: "'b op_vectors \<Rightarrow> int \<Rightarrow> ('b vfs, unit) vop" where
  "sys_close ov fd =
     with_file fd (\<lambda>_ _ s. case fds_op ov (free_procfd (nat fd)) s of None \<Rightarrow> None | Some s \<Rightarrow> ok () s)"

definition sys_access :: "'b op_vectors \<Rightarrow> u8 list \<Rightarrow> u32 \<Rightarrow> ('b vfs, unit) vop" where
  "sys_access ov path mode = with_path ov path 0 (\<lambda>v. xaccess v mode True)"

definition sys_faccessat :: "'b op_vectors \<Rightarrow> int \<Rightarrow> u8 list \<Rightarrow> u32 \<Rightarrow> u32 \<Rightarrow> ('b vfs, unit) vop" where
  "sys_faccessat ov dirfd path mode flags =
     in_dir ov dirfd (with_path ov path (if flags AND AT_SYMLINK_NOFOLLOW \<noteq> 0 then -1 else 0)
       (\<lambda>v. xaccess v mode (flags AND AT_EACCESS = 0)))"

section \<open>Reading, writing and seeking\<close>

text \<open>Offsets are of the signed type \<open>off_t\<close>, of 64 bits.\<close>

definition off64 :: "int \<Rightarrow> int" where
  "off64 x = sint (word_of_int x :: u64)"

definition advance :: "nat \<Rightarrow> nat \<Rightarrow> int \<Rightarrow> ('b vfs, unit) vop" where
  "advance f v n =
     at_vnode v (\<lambda>vp s.
       if vfs_can_seek vp = Inr ()
       then let e = get_file f s in ok () (set_file f (e\<lparr>f_offset := off64 (f_offset e + n)\<rparr>) s)
       else ok () s)"

definition sys_read :: "'b op_vectors \<Rightarrow> int \<Rightarrow> u64 \<Rightarrow> ('b vfs, u8 list) vop" where
  "sys_read ov fd len =
     with_vnode fd (\<lambda>f e v. and_then (vfs_read ov v len (f_offset e)) (\<lambda>bytes.
       and_then (advance f v (int (length bytes))) (\<lambda>_. ok bytes)))"

definition sys_write :: "'b op_vectors \<Rightarrow> int \<Rightarrow> u8 list \<Rightarrow> ('b vfs, nat) vop" where
  "sys_write ov fd data =
     with_vnode fd (\<lambda>f e v. and_then (vfs_write ov v data (f_offset e)) (\<lambda>n.
       and_then (advance f v (int n)) (\<lambda>_. ok n)))"

definition sys_lseek :: "int \<Rightarrow> int \<Rightarrow> whence \<Rightarrow> ('b vfs, int) vop" where
  "sys_lseek fd offset w =
     with_vnode fd (\<lambda>f e v. at_vnode v (\<lambda>vp.
       require (vfs_can_seek vp = Inr ()) ESPIPE
         (require (w \<noteq> SEEK_OTHER) EINVAL
           (let offset = (case w of SEEK_CUR \<Rightarrow> off64 (offset + f_offset e)
                                  | SEEK_END \<Rightarrow> off64 (offset + uint (v_size vp)) | _ \<Rightarrow> offset)
            in require (0 \<le> offset) EINVAL (\<lambda>s. ok offset (set_file f (e\<lparr>f_offset := offset\<rparr>) s))))))"

definition sys_stat :: "'b op_vectors \<Rightarrow> u8 list \<Rightarrow> stat \<Rightarrow> ('b vfs, stat) vop" where
  "sys_stat ov path st = xstat ov path st True"

definition sys_fstat :: "'b op_vectors \<Rightarrow> int \<Rightarrow> stat \<Rightarrow> ('b vfs, stat) vop" where
  "sys_fstat ov fd st = with_vnode fd (\<lambda>f e v. vfs_getattr ov st v)"

definition sys_lstat :: "'b op_vectors \<Rightarrow> u8 list \<Rightarrow> stat \<Rightarrow> ('b vfs, stat) vop" where
  "sys_lstat ov path st = xstat ov path st False"

section \<open>Entries of directories\<close>

definition discard :: "('b vfs, 'a) vop \<Rightarrow> ('b vfs, unit) vop" where
  "discard m = and_then m (\<lambda>_. ok ())"

definition sys_mknod :: "'b op_vectors \<Rightarrow> u8 list \<Rightarrow> u32 \<Rightarrow> u64 \<Rightarrow> ('b vfs, unit) vop" where
  "sys_mknod ov path mode dev =
     with_dir ov path (\<lambda>dir name. must_not_exist ov dir name (discard (vfs_create ov False dir name mode dev)))"

definition sys_mknodat :: "'b op_vectors \<Rightarrow> int \<Rightarrow> u8 list \<Rightarrow> u32 \<Rightarrow> u64 \<Rightarrow> ('b vfs, unit) vop" where
  "sys_mknodat ov dirfd path mode dev = in_dir ov dirfd (sys_mknod ov path mode dev)"

definition sys_mkdir :: "'b op_vectors \<Rightarrow> u8 list \<Rightarrow> u32 \<Rightarrow> ('b vfs, unit) vop" where
  "sys_mkdir ov path mode = with_dir ov path (\<lambda>dir name. discard (vfs_mkdir ov False dir name mode))"

definition sys_mkdirat :: "'b op_vectors \<Rightarrow> int \<Rightarrow> u8 list \<Rightarrow> u32 \<Rightarrow> ('b vfs, unit) vop" where
  "sys_mkdirat ov dirfd path mode = in_dir ov dirfd (sys_mkdir ov path mode)"

definition sys_rmdir :: "'b op_vectors \<Rightarrow> u8 list \<Rightarrow> ('b vfs, unit) vop" where
  "sys_rmdir ov path =
     with_dir ov path (\<lambda>dir name. at_vnode dir (\<lambda>d. require (S_ISDIR (v_mode d)) ENOTDIR (vfs_unlink ov dir name)))"

definition sys_rename :: "'b op_vectors \<Rightarrow> u8 list \<Rightarrow> u8 list \<Rightarrow> ('b vfs, unit) vop" where
  "sys_rename ov old_path new_path =
     and_then (vnode_dir_name ov old_path) (\<lambda>(od, old_name).
       attempt (vnode_dir_name ov new_path) (\<lambda>r.
         case r of
           Inl e \<Rightarrow> unref_fail ov od e
         | Inr (nd, new_name) \<Rightarrow> finally_unref ov nd (finally_unref ov od (xrename ov od old_name nd new_name))))"

text \<open>
  In the calls with two directories the working directory is not set back between the two
  paths, nor when the second descriptor is bad.
\<close>

definition unref_cwd :: "'b op_vectors \<Rightarrow> bool \<Rightarrow> ('b vfs, unit) vop" where
  "unref_cwd ov unref s = (if unref then drop_ref ov (vs_cwd s) s else ok () s)"

definition sys_renameat :: "'b op_vectors \<Rightarrow> int \<Rightarrow> u8 list \<Rightarrow> int \<Rightarrow> u8 list \<Rightarrow> ('b vfs, unit) vop" where
  "sys_renameat ov old_dirfd old_path new_dirfd new_path s =
     (let cwd = vs_cwd s in
      and_then (enter_dir old_dirfd) (\<lambda>unref. attempt (vnode_dir_name ov old_path) (\<lambda>r.
        case r of
          Inl e \<Rightarrow> leave_dir ov unref cwd (Inl e)
        | Inr (od, old_name) \<Rightarrow>
            and_then (unref_cwd ov unref) (\<lambda>_. and_then (enter_dir new_dirfd) (\<lambda>unref.
              attempt
                (attempt (vnode_dir_name ov new_path) (\<lambda>r.
                   case r of
                     Inl e \<Rightarrow> unref_fail ov od e
                   | Inr (nd, new_name) \<Rightarrow> finally_unref ov od (finally_unref ov nd (xrename ov od old_name nd new_name))))
                (leave_dir ov unref cwd))))) s)"

definition sys_link :: "'b op_vectors \<Rightarrow> u8 list \<Rightarrow> u8 list \<Rightarrow> ('b vfs, unit) vop" where
  "sys_link ov old_path new_path =
     with_path ov old_path 0 (\<lambda>v. with_dir ov new_path (\<lambda>dir name. xlink ov v dir name))"

text \<open>When the old path is not found the value returned is an uninitialised variable.\<close>

definition sys_linkat :: "'b op_vectors \<Rightarrow> int \<Rightarrow> u8 list \<Rightarrow> int \<Rightarrow> u8 list \<Rightarrow> u32 \<Rightarrow> ('b vfs, unit) vop" where
  "sys_linkat ov old_dirfd old_path new_dirfd new_path flags s =
     (let cwd = vs_cwd s in
      and_then (enter_dir old_dirfd) (\<lambda>unref.
        attempt (vnode_namei ov (if flags AND AT_SYMLINK_FOLLOW \<noteq> 0 then 0 else -1) old_path) (\<lambda>r.
        case r of
          Inl e \<Rightarrow> (\<lambda>s. None)
        | Inr v \<Rightarrow>
            and_then (unref_cwd ov unref) (\<lambda>_. and_then (enter_dir new_dirfd) (\<lambda>unref.
              attempt (finally_unref ov v (with_dir ov new_path (\<lambda>dir name. xlink ov v dir name)))
                (leave_dir ov unref cwd))))) s)"

definition sys_unlink :: "'b op_vectors \<Rightarrow> u8 list \<Rightarrow> ('b vfs, unit) vop" where
  "sys_unlink ov path = with_dir ov path (\<lambda>dir name. vfs_unlink ov dir name)"

definition sys_unlinkat :: "'b op_vectors \<Rightarrow> int \<Rightarrow> u8 list \<Rightarrow> u32 \<Rightarrow> ('b vfs, unit) vop" where
  "sys_unlinkat ov dirfd path flags =
     in_dir ov dirfd (if flags AND AT_REMOVEDIR \<noteq> 0 then sys_rmdir ov path else sys_unlink ov path)"

definition sys_symlink :: "'b op_vectors \<Rightarrow> u8 list \<Rightarrow> u8 list \<Rightarrow> ('b vfs, unit) vop" where
  "sys_symlink ov old_path new_path = with_dir ov new_path (\<lambda>dir name. vfs_symlink ov dir name old_path)"

definition sys_symlinkat :: "'b op_vectors \<Rightarrow> u8 list \<Rightarrow> int \<Rightarrow> u8 list \<Rightarrow> ('b vfs, unit) vop" where
  "sys_symlinkat ov old_path new_dirfd new_path = in_dir ov new_dirfd (sys_symlink ov old_path new_path)"

definition sys_readlink :: "'b op_vectors \<Rightarrow> u8 list \<Rightarrow> nat \<Rightarrow> ('b vfs, u8 list) vop" where
  "sys_readlink ov path len = with_path ov path (-1) (\<lambda>v. vfs_readlink ov v len)"

definition sys_readlinkat :: "'b op_vectors \<Rightarrow> int \<Rightarrow> u8 list \<Rightarrow> nat \<Rightarrow> ('b vfs, u8 list) vop" where
  "sys_readlinkat ov dirfd path len = in_dir ov dirfd (sys_readlink ov path len)"

section \<open>Attributes\<close>

definition sys_truncate :: "'b op_vectors \<Rightarrow> u8 list \<Rightarrow> int \<Rightarrow> ('b vfs, unit) vop" where
  "sys_truncate ov path len = with_path ov path 0 (\<lambda>v. vfs_truncate ov v len)"

definition sys_ftruncate :: "'b op_vectors \<Rightarrow> int \<Rightarrow> int \<Rightarrow> ('b vfs, unit) vop" where
  "sys_ftruncate ov fd len = with_vnode fd (\<lambda>f e v. vfs_truncate ov v len)"

definition sys_fsync :: "'b op_vectors \<Rightarrow> int \<Rightarrow> ('b vfs, unit) vop" where
  "sys_fsync ov fd = with_vnode fd (\<lambda>f e v. vfs_sync ov v)"

definition sys_futimens :: "'b op_vectors \<Rightarrow> int \<Rightarrow> (timespec \<times> timespec) option \<Rightarrow> ('b vfs, unit) vop" where
  "sys_futimens ov fd ts = with_vnode fd (\<lambda>f e v. vfs_utime ov v ts)"

text \<open>
  The flag is read the wrong way round, and the value returned when the path is not found is
  an uninitialised variable.
\<close>

definition sys_utimensat :: "'b op_vectors \<Rightarrow> int \<Rightarrow> u8 list \<Rightarrow> (timespec \<times> timespec) option \<Rightarrow> u32 \<Rightarrow> ('b vfs, unit) vop" where
  "sys_utimensat ov dirfd path ts flags =
     in_dir ov dirfd (attempt (vnode_namei ov (if flags AND AT_SYMLINK_NOFOLLOW = 0 then -1 else 0) path) (\<lambda>r.
       case r of Inl e \<Rightarrow> (\<lambda>s. None) | Inr v \<Rightarrow> finally_unref ov v (vfs_utime ov v ts)))"

definition sys_chmod :: "'b op_vectors \<Rightarrow> u8 list \<Rightarrow> u32 \<Rightarrow> ('b vfs, unit) vop" where
  "sys_chmod ov path mode = xchmod ov path mode True"

definition sys_fchmod :: "'b op_vectors \<Rightarrow> int \<Rightarrow> u32 \<Rightarrow> ('b vfs, unit) vop" where
  "sys_fchmod ov fd mode = with_vnode fd (\<lambda>f e v. vfs_chmod ov v mode)"

definition sys_fchmodat :: "'b op_vectors \<Rightarrow> int \<Rightarrow> u8 list \<Rightarrow> u32 \<Rightarrow> u32 \<Rightarrow> ('b vfs, unit) vop" where
  "sys_fchmodat ov dirfd path mode flags = in_dir ov dirfd (xchmod ov path mode (flags AND AT_SYMLINK_NOFOLLOW = 0))"

definition sys_chown :: "'b op_vectors \<Rightarrow> u8 list \<Rightarrow> u32 \<Rightarrow> u32 \<Rightarrow> ('b vfs, unit) vop" where
  "sys_chown ov path uid gid = xchown ov path uid gid True"

definition sys_fchown :: "'b op_vectors \<Rightarrow> int \<Rightarrow> u32 \<Rightarrow> u32 \<Rightarrow> ('b vfs, unit) vop" where
  "sys_fchown ov fd uid gid = with_vnode fd (\<lambda>f e v. vfs_chown ov v uid gid)"

definition sys_lchown :: "'b op_vectors \<Rightarrow> u8 list \<Rightarrow> u32 \<Rightarrow> u32 \<Rightarrow> ('b vfs, unit) vop" where
  "sys_lchown ov path uid gid = xchown ov path uid gid False"

definition sys_fchownat :: "'b op_vectors \<Rightarrow> int \<Rightarrow> u8 list \<Rightarrow> u32 \<Rightarrow> u32 \<Rightarrow> u32 \<Rightarrow> ('b vfs, unit) vop" where
  "sys_fchownat ov dirfd path uid gid flags = in_dir ov dirfd (xchown ov path uid gid (flags AND AT_SYMLINK_NOFOLLOW = 0))"

section \<open>Working directory and duplication\<close>

definition sys_chdir :: "'b op_vectors \<Rightarrow> u8 list \<Rightarrow> ('b vfs, unit) vop" where
  "sys_chdir ov path =
     and_then (vnode_namei ov 0 path) (\<lambda>v s. and_then (drop_ref ov (vs_cwd s)) (\<lambda>_ s. ok () (s\<lparr>vs_cwd := v\<rparr>)) s)"

definition sys_fchdir :: "'b op_vectors \<Rightarrow> int \<Rightarrow> ('b vfs, unit) vop" where
  "sys_fchdir ov fd =
     with_vnode fd (\<lambda>f e v s.
       and_then (drop_ref ov (vs_cwd s)) (\<lambda>_ s. ref_obj v (s\<lparr>vs_cwd := v\<rparr>)) s)"

definition sys_dup :: "int \<Rightarrow> ('b vfs, nat) vop" where
  "sys_dup fd =
     with_file fd (\<lambda>f _. and_then alloc_pfd (\<lambda>nfd s.
       case dupfd_store nfd f (vs_fds s) of None \<Rightarrow> None | Some (_, t) \<Rightarrow> ok nfd (s\<lparr>vs_fds := t\<rparr>)))"

section \<open>Synchronisation of all files\<close>

text \<open>
  The visit of the cached children of a directory, depth first. \<open>inos\<close> are the inodes that
  are left of the map of children. A vnode is marked before and after its children are visited.
\<close>

definition child_inodes :: "vfs_vnode \<Rightarrow> u64 list option" where
  "child_inodes vp = (case v_children vp of None \<Rightarrow> None | Some c \<Rightarrow> strmap_iterate c (\<lambda>_ ino inos. inos @ [ino]) [])"

definition mark_sync :: "nat \<Rightarrow> 'b vfs \<Rightarrow> 'b vfs option" where
  "mark_sync v s =
     (case vs_vnodes s v of
        None \<Rightarrow> None
      | Some vp \<Rightarrow> Some (set_vnode v (vp\<lparr>v_flags := v_flags vp OR VN_FLAG_SYNC_PROC\<rparr>) s))"

definition clear_sync :: "nat \<Rightarrow> 'b vfs \<Rightarrow> 'b vfs option" where
  "clear_sync v s =
     (case vs_vnodes s v of
        None \<Rightarrow> None
      | Some vp \<Rightarrow> Some (set_vnode v (vp\<lparr>v_flags := v_flags vp AND NOT VN_FLAG_SYNC_PROC\<rparr>) s))"

definition sync_one :: "'b op_vectors \<Rightarrow> nat \<Rightarrow> 'b vfs \<Rightarrow> 'b vfs option" where
  "sync_one ov v s = (case vfs_sync ov v s of None \<Rightarrow> None | Some (_, s) \<Rightarrow> mark_sync v s)"

text \<open>What is to be visited below a vnode: the mount and the inodes of its children.\<close>

definition below :: "nat \<Rightarrow> 'b vfs \<Rightarrow> (nat option \<times> u64 list) option" where
  "below v s =
     (case vs_vnodes s v of
        None \<Rightarrow> None
      | Some vp \<Rightarrow> map_option (\<lambda>inos. (v_mount vp, inos)) (child_inodes vp))"

definition marked :: "nat \<Rightarrow> 'b vfs \<Rightarrow> bool option" where
  "marked v s = map_option (\<lambda>vp. v_flags vp AND VN_FLAG_SYNC_PROC \<noteq> 0) (vs_vnodes s v)"

partial_function (option) sync_children ::
    "'b op_vectors \<Rightarrow> nat option \<times> u64 list \<Rightarrow> 'b vfs \<Rightarrow> 'b vfs option" where
  "sync_children ov w s =
     (case w of
        (m, []) \<Rightarrow> Some s
      | (m, ino # inos) \<Rightarrow>
          (case vnode_lookup_cache m ino s of
             None \<Rightarrow> None
           | Some None \<Rightarrow> sync_children ov (m, inos) s
           | Some (Some v) \<Rightarrow>
               Option.bind (marked v s) (\<lambda>b.
                 if b then sync_children ov (m, inos) s
                 else Option.bind (sync_one ov v s) (\<lambda>s.
                   Option.bind (below v s) (\<lambda>w.
                     Option.bind (sync_children ov w s) (\<lambda>s.
                       Option.bind (mark_sync v s) (sync_children ov (m, inos))))))))"

definition sync_recurse_vnode :: "'b op_vectors \<Rightarrow> nat \<Rightarrow> 'b vfs \<Rightarrow> 'b vfs option" where
  "sync_recurse_vnode ov v s =
     Option.bind (sync_one ov v s) (\<lambda>s. Option.bind (below v s) (\<lambda>w. sync_children ov w s))"

partial_function (option) unmark_children :: "nat option \<times> u64 list \<Rightarrow> 'b vfs \<Rightarrow> 'b vfs option" where
  "unmark_children w s =
     (case w of
        (m, []) \<Rightarrow> Some s
      | (m, ino # inos) \<Rightarrow>
          (case vnode_lookup_cache m ino s of
             None \<Rightarrow> None
           | Some None \<Rightarrow> unmark_children (m, inos) s
           | Some (Some v) \<Rightarrow>
               Option.bind (marked v s) (\<lambda>b.
                 if \<not> b then unmark_children (m, inos) s
                 else Option.bind (clear_sync v s) (\<lambda>s.
                   Option.bind (below v s) (\<lambda>w.
                     Option.bind (unmark_children w s) (unmark_children (m, inos)))))))"

definition unmark_sync_proc :: "nat \<Rightarrow> 'b vfs \<Rightarrow> 'b vfs option" where
  "unmark_sync_proc v s =
     Option.bind (clear_sync v s) (\<lambda>s. Option.bind (below v s) (\<lambda>w. unmark_children w s))"

text \<open>\<open>flush m\<close> is the operation of that name of the mount \<open>m\<close>, if it has one (\<open>vfs_flush\<close>).\<close>

definition vfs_flush :: "(nat \<Rightarrow> ('b vfs \<Rightarrow> 'b vfs option) option) \<Rightarrow> nat \<Rightarrow> 'b vfs \<Rightarrow> 'b vfs option" where
  "vfs_flush flush m s = (case flush m of None \<Rightarrow> Some s | Some f \<Rightarrow> f s)"

fun sync_mounts :: "'b op_vectors \<Rightarrow> (nat \<Rightarrow> ('b vfs \<Rightarrow> 'b vfs option) option) \<Rightarrow> nat list \<Rightarrow> 'b vfs \<Rightarrow> 'b vfs option" where
  "sync_mounts ov flush [] s = Some s"
| "sync_mounts ov flush (m # ms) s =
     Option.bind (vfs_flush flush m s) (\<lambda>s.
       case mt_root_vnode (vs_mounts s m) of
         None \<Rightarrow> None
       | Some r \<Rightarrow>
           Option.bind (sync_recurse_vnode ov r s) (\<lambda>s.
             Option.bind (unmark_sync_proc r s) (sync_mounts ov flush ms)))"

definition sys_sync :: "'b op_vectors \<Rightarrow> (nat \<Rightarrow> ('b vfs \<Rightarrow> 'b vfs option) option) \<Rightarrow> 'b vfs \<Rightarrow> 'b vfs option" where
  "sys_sync ov flush s = sync_mounts ov flush (mount_table s) s"

section \<open>Directory entries for user programs\<close>

text \<open>The buffer of the caller; a store or a load outside of it is refused.\<close>

definition put_bytes :: "nat \<Rightarrow> u8 list \<Rightarrow> u8 list \<Rightarrow> u8 list option" where
  "put_bytes i bs buf =
     (if i + length bs \<le> length buf then Some (take i buf @ bs @ drop (i + length bs) buf) else None)"

definition le_bytes :: "nat \<Rightarrow> 'a::len word \<Rightarrow> u8 list" where
  "le_bytes n w = map (\<lambda>i. ucast (drop_bit (8 * i) w)) [0..<n]"

definition get_u16 :: "nat \<Rightarrow> u8 list \<Rightarrow> nat option" where
  "get_u16 i buf = (if i + 1 < length buf then Some (unat (buf ! i) + 256 * unat (buf ! (i + 1))) else None)"

definition dirent_bytes :: "dirent \<Rightarrow> nat \<Rightarrow> u8 list" where
  "dirent_bytes de rec_len =
     le_bytes 8 (d_ino de) @ le_bytes 2 (of_nat rec_len :: u16) @ le_bytes 2 (d_namlen de) @ [d_type de] @
     take (unat (d_namlen de)) (takeWhile (\<lambda>c. c \<noteq> 0) (d_name de) @ replicate (unat (d_namlen de)) 0) @ [0]"

definition set_offset :: "nat \<Rightarrow> int \<Rightarrow> 'b vfs \<Rightarrow> 'b vfs" where
  "set_offset f off s = set_file f ((get_file f s)\<lparr>f_offset := off\<rparr>) s"

text \<open>
  The loop with the current entry \<open>ptr\<close>. The count of bytes grows by the length field found at
  the new position of \<open>ptr\<close>, which belongs to the record that is not written yet.
\<close>

partial_function (option) getdents_loop ::
    "'b op_vectors \<Rightarrow> nat \<Rightarrow> nat \<Rightarrow> nat \<Rightarrow> dirent \<Rightarrow> int \<Rightarrow> nat \<Rightarrow> nat \<Rightarrow> u8 list \<Rightarrow> 'b vfs \<Rightarrow>
     ((errno + nat) \<times> u8 list \<times> 'b vfs) option" where
  "getdents_loop ov f v len de prev ptr written buf s =
     (if \<not> written < len then Some (Inr written, buf, s)
      else case vfs_readdir ov v de (f_offset (get_file f s)) s of
          None \<Rightarrow> None
        | Some (Inl e, s) \<Rightarrow> Some (Inl e, buf, set_offset f prev s)
        | Some (Inr (de, off), s) \<Rightarrow>
            if off = 0 then Some (Inr written, buf, set_offset f 0 s)
            else let rec_len = 13 + (unat (d_namlen de) + 1 + 7) div 8 * 8 in
                 if written + rec_len > len then Some (Inr written, buf, set_offset f prev s)
                 else Option.bind (put_bytes ptr (dirent_bytes de rec_len) buf) (\<lambda>buf.
                        Option.bind (get_u16 (ptr + rec_len mod 2 ^ 16 + 8) buf) (\<lambda>n.
                          getdents_loop ov f v len de off (ptr + rec_len mod 2 ^ 16) (written + n) buf (set_offset f off s))))"

text \<open>The offset of the open file is read before the descriptor has been checked.\<close>

definition sys_getdents :: "'b op_vectors \<Rightarrow> dirent \<Rightarrow> int \<Rightarrow> u8 list \<Rightarrow> nat \<Rightarrow> 'b vfs \<Rightarrow>
    ((errno + nat) \<times> u8 list \<times> 'b vfs) option" where
  "sys_getdents ov de fd buf len s =
     (case file_fd fd (vs_fds s) of
        None \<Rightarrow> None
      | Some (None, _) \<Rightarrow> None
      | Some (Some f, _) \<Rightarrow>
          if f < length (system_fd_table (vs_fds s))
          then (case f_vnode (get_file f s) of
                  None \<Rightarrow> None
                | Some v \<Rightarrow> getdents_loop ov f v len de (f_offset (get_file f s)) 0 0 buf s)
          else None)"

section \<open>The working directory\<close>

lemma and_then_Some:
  "and_then m f s = Some (r, s') \<longleftrightarrow>
     (\<exists>e s1. m s = Some (Inl e, s1) \<and> r = Inl e \<and> s' = s1) \<or> (\<exists>x s1. m s = Some (Inr x, s1) \<and> f x s1 = Some (r, s'))"
  by (auto simp: vop_defs split: option.splits sum.splits)

lemma attempt_Some: "attempt m f s = Some (r, s') \<longleftrightarrow> (\<exists>x s1. m s = Some (x, s1) \<and> f x s1 = Some (r, s'))"
  by (auto simp: attempt_def split: option.splits)

lemma leave_dir_cwd: "leave_dir ov u cwd r s = Some (r', s') \<Longrightarrow> vs_cwd s' = cwd"
  by (auto simp: leave_dir_def split: option.splits)

lemma enter_dir_fails: "enter_dir fd s = Some (Inl e, s') \<Longrightarrow> s' = s \<and> e = EBADF \<and> fd \<noteq> AT_FDCWD"
  by (auto simp: enter_dir_def with_vnode_def with_file_def vop_defs ref_obj_def split: if_splits option.splits)

lemma in_dir_keeps_cwd: "in_dir ov fd m s = Some (r, s') \<Longrightarrow> vs_cwd s' = vs_cwd s"
  by (auto simp: in_dir_def and_then_Some attempt_Some dest: enter_dir_fails leave_dir_cwd)

lemma unref_cwd_result: "unref_cwd ov u s = Some (r, s') \<Longrightarrow> r = Inr ()"
  by (auto simp: unref_cwd_def drop_ref_def finally_unref_def ok_def attempt_Some split: if_splits option.splits)

lemma second_dir_cwd:
  assumes "and_then (unref_cwd ov u) (\<lambda>_. and_then (enter_dir fd') (\<lambda>u. attempt m (leave_dir ov u cwd))) s = Some (r, s')"
  shows "vs_cwd s' = cwd \<or> fd' \<noteq> AT_FDCWD \<and> r = Inl EBADF"
  using assms by (auto simp: and_then_Some attempt_Some dest: unref_cwd_result enter_dir_fails leave_dir_cwd)

lemma renameat_cwd:
  assumes "sys_renameat ov fd p fd' q s = Some (r, s')"
  shows "vs_cwd s' = vs_cwd s \<or> fd' \<noteq> AT_FDCWD \<and> r = Inl EBADF"
  using assms unfolding sys_renameat_def Let_def and_then_Some [of "enter_dir fd"] attempt_Some [of "vnode_dir_name ov p"]
  by (elim disjE exE conjE) (auto split: sum.split_asm dest: enter_dir_fails leave_dir_cwd second_dir_cwd)

lemma linkat_cwd:
  assumes "sys_linkat ov fd p fd' q fl s = Some (r, s')"
  shows "vs_cwd s' = vs_cwd s \<or> fd' \<noteq> AT_FDCWD \<and> r = Inl EBADF"
  using assms unfolding sys_linkat_def Let_def and_then_Some [of "enter_dir fd"] attempt_Some [of "vnode_namei ov l p" for l]
  by (elim disjE exE conjE) (auto split: sum.split_asm dest: enter_dir_fails leave_dir_cwd second_dir_cwd)

lemma set_refs_cwd: "(set_refs v n s)\<lparr>vs_cwd := c\<rparr> = set_refs v n (s\<lparr>vs_cwd := c\<rparr>)"
  by (simp add: set_refs_def)

lemma vn_refs_cwd [simp]: "vn_refs (s\<lparr>vs_cwd := c\<rparr>) v = vn_refs s v"
  by (simp add: vn_refs_def)

text \<open>
  A failing \<open>sys_renameat\<close> changes the working directory of the process: when the first
  descriptor is a directory and the second one is bad, the call reports EBADF, but the process
  is left in the directory of the first descriptor, to which one more reference is counted.\<close>

lemma renameat_moves_process:
  assumes "file_fd fd (vs_fds s) = Some (Some f, vs_fds s)" and "f < length (system_fd_table (vs_fds s))"
    and "f_vnode (get_file f s) = Some v" and "vs_vnodes s v = Some vp" and "vs_alloc s = []" and "slash \<notin> set old_path"
    and "file_fd bad (vs_fds s) = Some (None, t)" and "bad \<noteq> AT_FDCWD" and "fd \<noteq> AT_FDCWD" and "vn_refs s v + 1 \<noteq> 0"
  shows "sys_renameat ov fd old_path bad new_path s = Some (Inl EBADF, (set_refs v (vn_refs s v + 1) s)\<lparr>vs_cwd := v\<rparr>)"
proof -
  let ?n = "vn_refs s v"
  let ?s = "\<lambda>n. (set_refs v n s)\<lparr>vs_cwd := v\<rparr>"
  have "enter_dir fd s = Some (Inr True, ?s (?n + 1))"
    using assms(1-4,9) by (simp add: enter_dir_def with_vnode_def with_file_def get_file_def ref_obj_def vop_defs)
  moreover have "last_slash old_path = None" using assms(6) by (simp add: last_slash_def)
  then have "vnode_dir_name ov old_path (?s (?n + 1)) = Some (Inr (v, old_path), ?s (?n + 2))"
    using assms(4,5) by (simp add: vnode_dir_name_def take_alloc_op_none ref_obj_def vop_defs set_refs_cwd add.commute)
  moreover have "?n + 2 \<noteq> 1"
  proof
    assume "?n + 2 = 1"
    then have "(?n + 1) + 1 = 0 + 1" by (simp add: add.assoc)
    then show False using assms(10) by (simp only: add_right_cancel)
  qed
  then have "unref_cwd ov True (?s (?n + 2)) = Some (Inr (), ?s (?n + 1))"
    by (simp add: unref_cwd_def drop_ref_def finally_unref_def ok_def vn_unref_some set_refs_cwd attempt_def add.commute)
  moreover have "enter_dir bad (?s (?n + 1)) = Some (Inl EBADF, ?s (?n + 1))"
    using assms(7,8) by (auto simp: enter_dir_def with_vnode_def with_file_def file_fd_def this_fds_def set_refs_def fail_def
        Let_def split: if_splits)
  ultimately show ?thesis by (simp add: sys_renameat_def Let_def and_then_def attempt_def fail_def)
qed

text \<open>
  C30: The calls that take a directory descriptor set the working directory of the process to that
  directory while they run. Those with one descriptor set it back however they end, with a
  result or with an error, and whatever the drivers do. \<open>sys_renameat\<close> and \<open>sys_linkat\<close>, which take two, set it
  back except when they report EBADF with a second descriptor that is not \<open>AT_FDCWD\<close>; and when the first descriptor is good and
  the second one is bad, \<open>sys_renameat\<close> leaves the process in the directory of the first.\<close>

theorem at_calls_keep_cwd:
  "(sys_openat ov fd p fl md s = Some (r1, s') \<longrightarrow> vs_cwd s' = vs_cwd s) \<and>
   (sys_faccessat ov fd p md fl s = Some (r2, s') \<longrightarrow> vs_cwd s' = vs_cwd s) \<and>
   (sys_mknodat ov fd p md dev s = Some (r2, s') \<longrightarrow> vs_cwd s' = vs_cwd s) \<and>
   (sys_mkdirat ov fd p md s = Some (r2, s') \<longrightarrow> vs_cwd s' = vs_cwd s) \<and>
   (sys_unlinkat ov fd p fl s = Some (r2, s') \<longrightarrow> vs_cwd s' = vs_cwd s) \<and>
   (sys_symlinkat ov q fd p s = Some (r2, s') \<longrightarrow> vs_cwd s' = vs_cwd s) \<and>
   (sys_readlinkat ov fd p len s = Some (r3, s') \<longrightarrow> vs_cwd s' = vs_cwd s) \<and>
   (sys_utimensat ov fd p ts fl s = Some (r2, s') \<longrightarrow> vs_cwd s' = vs_cwd s) \<and>
   (sys_fchmodat ov fd p md fl s = Some (r2, s') \<longrightarrow> vs_cwd s' = vs_cwd s) \<and>
   (sys_fchownat ov fd p uid gid fl s = Some (r2, s') \<longrightarrow> vs_cwd s' = vs_cwd s) \<and>
   (sys_renameat ov fd p fd' q s = Some (r2, s') \<longrightarrow> vs_cwd s' = vs_cwd s \<or> fd' \<noteq> AT_FDCWD \<and> r2 = Inl EBADF) \<and>
   (sys_linkat ov fd p fd' q fl s = Some (r2, s') \<longrightarrow> vs_cwd s' = vs_cwd s \<or> fd' \<noteq> AT_FDCWD \<and> r2 = Inl EBADF) \<and>
   (file_fd fd (vs_fds s) = Some (Some f, vs_fds s) \<and> f < length (system_fd_table (vs_fds s)) \<and> f_vnode (get_file f s) = Some v \<and>
      vs_vnodes s v = Some vp \<and> vs_alloc s = [] \<and> slash \<notin> set p \<and> file_fd fd' (vs_fds s) = Some (None, t) \<and>
      fd' \<noteq> AT_FDCWD \<and> fd \<noteq> AT_FDCWD \<and> vn_refs s v + 1 \<noteq> 0 \<longrightarrow>
    sys_renameat ov fd p fd' q s = Some (Inl EBADF, (set_refs v (vn_refs s v + 1) s)\<lparr>vs_cwd := v\<rparr>))"
  unfolding sys_openat_def sys_faccessat_def sys_mknodat_def sys_mkdirat_def sys_unlinkat_def sys_symlinkat_def
    sys_readlinkat_def sys_utimensat_def sys_fchmodat_def sys_fchownat_def
  by (intro conjI impI; (elim conjE)?)
    ((erule in_dir_keeps_cwd)+, (erule renameat_cwd), (erule linkat_cwd), (rule renameat_moves_process; assumption))

text \<open>The tree of \<open>demo_tree\<close>, with descriptor 0 open on its root and the link as working directory.\<close>

definition fd_tree :: "unit vfs" where
  "fd_tree = demo_tree\<lparr>vs_cwd := 1, vs_fds := fds_zero\<lparr>vnode_refs := (\<lambda>_. 1),
     system_fd_table := [\<lparr>f_vnode = Some 0, f_offset = 0, f_flags = 0, f_count = 1\<rparr>],
     proc_fds := (\<lambda>_. \<lparr>ft_table = [Some 0], ft_curr = 1, ft_size = 1, ft_max_size = 1\<rparr>)\<rparr>\<rparr>"

lemma demo_link_readable: "vfs_can_read demo_link False user_proc = Inr ()"
  by (simp add: vfs_can_read_def user_proc_def demo_link_def vnode_zero_def S_IFLNK_def S_IRUSR_def S_IROTH_def
      S_ISDIR_def S_IFMT_def S_IFDIR_def)

lemma demo_link_mode: "S_ISLNK (v_mode demo_link)"
  by (simp add: S_ISLNK_def demo_link_def vnode_zero_def S_IFMT_def S_IFLNK_def S_IRUSR_def S_IROTH_def)

lemma demo_link_ops: "v_ops demo_link = Some 0"
  by (simp add: demo_link_def vnode_zero_def)

lemma fd_tree_simps:
  "vn_refs fd_tree v = 1" "vs_cwd fd_tree = 1" "vs_alloc fd_tree = []" "vs_vnodes fd_tree 0 = Some demo_dir"
  "vs_vnodes fd_tree (Suc 0) = Some demo_link" "vs_proc fd_tree = user_proc" "root_vnode fd_tree = 0"
  by (simp_all add: fd_tree_def demo_tree_def root_only_def vn_refs_def)

lemma link_ops_readlink: "op_readlink link_ops = Some (\<lambda>v len. ok (take len [97]))"
  by (simp add: link_ops_def)

lemma demo_lookup: "named_child (\<lambda>_. link_ops) 0 [97] (set_refs 0 n (fd_tree\<lparr>vs_cwd := c\<rparr>)) =
    Some (Inr 1, set_refs 1 2 (set_refs 0 n (fd_tree\<lparr>vs_cwd := c\<rparr>)))"
  by (simp add: named_child_def vnode_find_mount_point_def vnode_lookup_child_def cached_child_def fd_tree_def demo_tree_def
      root_only_def demo_dir_def strmap_lookup_def map_lookup_def bucket_index_def vnode_lookup_cache_def hashmap_lookup_def
      ref_obj_def vop_defs vn_refs_def set_refs_def)

lemma demo_namei: "vnode_namei (\<lambda>_. link_ops) (-1) [97] (set_refs 0 2 (fd_tree\<lparr>vs_cwd := 0\<rparr>)) =
    Some (Inr 1, set_refs 1 2 (set_refs 0 3 (fd_tree\<lparr>vs_cwd := 0\<rparr>)))"
proof -
  have "walk (\<lambda>_. link_ops) (-1) 0 [[97]] (set_refs 0 3 (fd_tree\<lparr>vs_cwd := 0\<rparr>)) =
      Some (Inr 1, set_refs 1 2 (set_refs 0 3 (fd_tree\<lparr>vs_cwd := 0\<rparr>)))"
    using demo_lookup [of 3 0] by (simp add: namei_step.simps vop_defs fd_tree_simps)
  then show ?thesis
    by (simp add: vnode_namei_walk SYMLOOP_MAX_def start_vnode_def absolute_def names_simple relevant_def ref_obj_def
        vop_defs fd_tree_simps take_alloc_op_none del: walk.simps)
qed

lemma demo_enter: "enter_dir 0 fd_tree = Some (Inr True, set_refs 0 2 (fd_tree\<lparr>vs_cwd := 0\<rparr>))"
  by (simp add: enter_dir_def AT_FDCWD_def with_vnode_def with_file_def file_fd_def this_fds_def fd_tree_def demo_tree_def
      root_only_def vop_defs ref_obj_def vn_refs_def set_refs_def)

lemma demo_readlink: "sys_readlink (\<lambda>_. link_ops) [97] 10 (set_refs 0 2 (fd_tree\<lparr>vs_cwd := 0\<rparr>)) =
    Some (Inr [97], set_refs 1 1 (set_refs 0 3 (fd_tree\<lparr>vs_cwd := 0\<rparr>)))"
  by (simp add: sys_readlink_def with_path_def finally_unref_def vop_defs demo_namei vfs_readlink_def fd_tree_simps
      demo_link_readable demo_link_mode demo_link_ops link_ops_readlink vn_unref_some)

theorem at_calls_keep_cwd_witness:
  "\<exists>s. sys_readlinkat (\<lambda>_. link_ops) 0 [97] 10 fd_tree = Some (Inr [97], s) \<and> vs_cwd s = 1"
proof -
  obtain s where s: "sys_readlinkat (\<lambda>_. link_ops) 0 [97] 10 fd_tree = Some (Inr [97], s)"
    by (simp add: sys_readlinkat_def in_dir_def and_then_def attempt_def demo_enter demo_readlink leave_dir_def vn_unref_some
        fd_tree_simps)
  have "vs_cwd s = vs_cwd fd_tree"
    by (rule at_calls_keep_cwd [THEN conjunct2, THEN conjunct2, THEN conjunct2, THEN conjunct2, THEN conjunct2, THEN conjunct2,
        THEN conjunct1, THEN mp, OF s])
  then show ?thesis using s by (simp add: fd_tree_simps)
qed

section \<open>Opening a file\<close>

text \<open>The descriptors of the process, and the part of the state that only descriptor operations change.\<close>

definition descriptor :: "fd_state \<Rightarrow> nat \<Rightarrow> nat option" where
  "descriptor t i = (let ft = ft_table (this_fds t) in if i < length ft then ft ! i else None)"

definition same_tables :: "fd_state \<Rightarrow> fd_state \<Rightarrow> bool" where
  "same_tables t t' \<longleftrightarrow> system_fd_table t' = system_fd_table t \<and> fd_table_start t' = fd_table_start t \<and>
     fd_lock t' = fd_lock t \<and> proc_fds t' = proc_fds t \<and> fd_this t' = fd_this t"

definition ft_wf :: "fd_table \<Rightarrow> bool" where
  "ft_wf t \<longleftrightarrow> ft_size t = length (ft_table t) \<and> ft_curr t \<le> ft_size t"

lemma alloc_procfd_ok:
  assumes "\<not> fd_lock s" and "ft_wf (this_fds s)"
  shows "\<exists>r s' al' k. alloc_procfd al s = Some (r, s', al') \<and> \<not> fd_lock s' \<and> fd_this s' = fd_this s \<and>
    system_fd_table s' = system_fd_table s \<and> fd_table_start s' = fd_table_start s \<and> vnode_refs s' = vnode_refs s \<and>
    vnodes_freed s' = vnodes_freed s \<and> ft_table (this_fds s') = ft_table (this_fds s) @ replicate k None \<and>
    (al = [] \<longrightarrow> al' = []) \<and>
    (r \<noteq> -1 \<longrightarrow> 0 \<le> r \<and> nat r < length (ft_table (this_fds s')) \<and> ft_table (this_fds s') ! nat r = None)"
proof -
  let ?t = "this_fds s" and ?s = "s\<lparr>fd_lock := True\<rparr>"
  have wf: "ft_size ?t = length (ft_table ?t)" "ft_curr ?t \<le> ft_size ?t" using assms(2) by (simp_all add: ft_wf_def)
  have tf: "this_fds ?s = ?t" by (simp add: this_fds_def)
  have scan: "fd_scan (ft_table ?t) (ft_curr ?t) (ft_size ?t - ft_curr ?t) =
      Some (first_clear {j. j < length (ft_table ?t) \<and> ft_table ?t ! j \<noteq> None} (ft_curr ?t) (ft_size ?t - ft_curr ?t))"
    using wf by (intro fd_scan_first_clear) simp
  show ?thesis
  proof (cases "first_clear {j. j < length (ft_table ?t) \<and> ft_table ?t ! j \<noteq> None} (ft_curr ?t) (ft_size ?t - ft_curr ?t)")
    case (Some i)
    then have "i < length (ft_table ?t)" "ft_table ?t ! i = None" using wf by (auto simp: first_clear_Some)
    then show ?thesis using assms(1) scan Some tf
      by (intro exI [of _ "int i"]) (simp add: alloc_procfd_def fd_lock_acquire_def Let_def, simp add: this_fds_def set_this_fds_def)
  next
    case None
    have grow: "ft_size ?t < ft_max_size ?t \<Longrightarrow> ft_size ?t \<le> n \<Longrightarrow>
        resize_table n (?t\<lparr>ft_curr := ft_size ?t\<rparr>) = Some (?t\<lparr>ft_curr := ft_size ?t, ft_table := ft_table ?t @ replicate (n - ft_size ?t) None, ft_size := n\<rparr>)" for n
      by (simp add: resize_table_def)
    obtain avail al' where al: "take_alloc al = (avail, al')" "al = [] \<longrightarrow> avail \<and> al' = []"
      by (cases al) auto
    let ?n = "if ft_size ?t * 2 < ft_max_size ?t then ft_size ?t * 2 else ft_max_size ?t"
    have max: "max (ft_curr ?t) (ft_size ?t) = ft_size ?t" using wf(2) by simp
    consider "\<not> ft_size ?t < ft_max_size ?t" | "ft_size ?t < ft_max_size ?t" "\<not> avail"
      | "ft_size ?t < ft_max_size ?t" avail by blast
    then show ?thesis
    proof cases
      case 1
      then show ?thesis using assms(1) scan None tf max
        by (simp add: alloc_procfd_def fd_lock_acquire_def Let_def) (simp add: this_fds_def set_this_fds_def)
    next
      case 2
      then show ?thesis using assms(1) scan None tf max al
        by (simp add: alloc_procfd_def fd_lock_acquire_def Let_def) (simp add: this_fds_def set_this_fds_def)
    next
      case 3
      define n where "n = ?n"
      let ?t' = "?t\<lparr>ft_curr := ft_size ?t, ft_table := ft_table ?t @ replicate (n - ft_size ?t) None, ft_size := n\<rparr>"
      let ?u = "set_this_fds (?t\<lparr>ft_curr := ft_size ?t\<rparr>) ?s"
      have n: "ft_size ?t \<le> n" using 3(1) by (auto simp: n_def)
      have run: "alloc_procfd al s =
          (if n \<le> ft_size ?t then Some (-1, (set_this_fds ?t' ?u)\<lparr>fd_lock := False, fd_errno := Some EMFILE\<rparr>, al')
           else Some (int (ft_size ?t), set_this_fds (?t'\<lparr>ft_curr := ft_size ?t + 1\<rparr>) (?u\<lparr>fd_lock := False\<rparr>), al'))"
        using assms(1) scan None tf max al(1) 3 grow [OF 3(1) n]
        by (simp add: alloc_procfd_def fd_lock_acquire_def Let_def flip: n_def split del: if_split cong: if_cong)
      show ?thesis
      proof (cases "n \<le> ft_size ?t")
        case True
        then show ?thesis using run al(2) by (simp add: this_fds_def set_this_fds_def)
      next
        case False
        then have "ft_size ?t < n" by simp
        then show ?thesis using run al(2) wf(1) by (simp add: this_fds_def set_this_fds_def nth_append)
      qed
    qed
  qed
qed

lemma sysfd_scan_found: "sysfd_scan t i k = Some (Some j) \<Longrightarrow> j < length t \<and> f_count (t ! j) = 0"
  by (induction k arbitrary: i) (auto split: if_splits)

lemma alloc_fd_entry:
  assumes "fdt_inv s"
  shows "(\<exists>s'. alloc_fd s = Some (-1, s') \<and> system_fd_table s' = system_fd_table s \<and> proc_fds s' = proc_fds s \<and> fd_this s' = fd_this s) \<or>
    (\<exists>i. i < length (system_fd_table s) \<and> f_count (system_fd_table s ! i) = 0 \<and>
       alloc_fd s = Some (int i, s\<lparr>system_fd_table := (system_fd_table s)[i := (system_fd_table s ! i)\<lparr>f_count := 1\<rparr>],
         fd_table_start := i + 1\<rparr>))"
proof -
  have "\<not> fd_lock s" using assms by (simp add: fdt_inv_def)
  moreover have "s\<lparr>fd_lock := False\<rparr> = s" using calculation by (cases s) simp
  moreover obtain r s' where run: "alloc_fd s = Some (r, s')" using alloc_fd_ok [OF assms] by blast
  ultimately show ?thesis
    by (auto simp: alloc_fd_def fd_lock_acquire_def Let_def split: option.splits dest: sysfd_scan_found)
qed

lemma fds_op_keeps:
  assumes "f ((vs_fds s)\<lparr>vnodes_freed := []\<rparr>) = Some t" and "vnodes_freed t = []"
  shows "fds_op ov f s = Some (s\<lparr>vs_fds := t\<rparr>)"
  using assms by (simp add: fds_op_def)

text \<open>Giving back an entry of the system table that has just been taken.\<close>

lemma free_fd_entry:
  assumes "\<not> fd_lock t" and "i < length (system_fd_table t)" and "system_fd_table t ! i = file_zero\<lparr>f_count := 1\<rparr>"
    and "vnodes_freed t = []"
  shows "\<exists>t'. free_fd i t = Some t' \<and> system_fd_table t' = (system_fd_table t)[i := file_zero] \<and>
    proc_fds t' = proc_fds t \<and> fd_this t' = fd_this t \<and> vnodes_freed t' = []"
  using assms by (simp add: free_fd_def fd_lock_acquire_def drop_file_def Let_def file_zero_def UNREF_OBJECT_def)

lemma free_procfd_unused:
  assumes "n < length (ft_table (this_fds t))" and "ft_table (this_fds t) ! n = None"
  shows "free_procfd n t = Some t"
  using assms by (simp add: free_procfd_def free_altprocfd_def this_fds_def)

lemma open_undo_ok:
  assumes "\<not> fd_lock (vs_fds s)" and "i < length (system_fd_table (vs_fds s))"
    and "system_fd_table (vs_fds s) ! i = file_zero\<lparr>f_count := 1\<rparr>"
    and "n < length (ft_table (this_fds (vs_fds s)))" and "ft_table (this_fds (vs_fds s)) ! n = None"
  shows "\<exists>s'. open_undo ov n i e s = Some (Inl e, s') \<and>
    system_fd_table (vs_fds s') = (system_fd_table (vs_fds s))[i := file_zero] \<and>
    descriptor (vs_fds s') = descriptor (vs_fds s)"
proof -
  let ?t = "(vs_fds s)\<lparr>vnodes_freed := []\<rparr>"
  have 1: "fds_op ov (free_procfd n) s = Some (s\<lparr>vs_fds := ?t\<rparr>)"
    using assms(4,5) by (intro fds_op_keeps free_procfd_unused) (simp_all add: this_fds_def)
  obtain t' where t': "free_fd i ?t = Some t'" "system_fd_table t' = (system_fd_table ?t)[i := file_zero]"
    "proc_fds t' = proc_fds ?t" "fd_this t' = fd_this ?t" "vnodes_freed t' = []"
    using free_fd_entry [of ?t i] assms(1-3) by auto
  have "fds_op ov (free_fd i) (s\<lparr>vs_fds := ?t\<rparr>) = Some (s\<lparr>vs_fds := t'\<rparr>)"
    using fds_op_keeps [of "free_fd i" "s\<lparr>vs_fds := ?t\<rparr>" t'] t'(1,5) by simp
  then show ?thesis using 1 t' by (simp add: open_undo_def fail_def descriptor_def this_fds_def fun_eq_iff)
qed

lemma alloc_pfd_ok:
  assumes "\<not> fd_lock (vs_fds s)" and "ft_wf (this_fds (vs_fds s))" and "vs_alloc s = []"
  shows "\<exists>r t k. alloc_pfd s = Some (r, s\<lparr>vs_fds := t\<rparr>) \<and> \<not> fd_lock t \<and> fd_this t = fd_this (vs_fds s) \<and>
    system_fd_table t = system_fd_table (vs_fds s) \<and> vnode_refs t = vnode_refs (vs_fds s) \<and>
    ft_table (this_fds t) = ft_table (this_fds (vs_fds s)) @ replicate k None \<and>
    (\<forall>n. r = Inr n \<longrightarrow> n < length (ft_table (this_fds t)) \<and> ft_table (this_fds t) ! n = None)"
proof -
  let ?t = "(vs_fds s)\<lparr>fd_errno := None\<rparr>"
  have pre: "\<not> fd_lock ?t" "ft_wf (this_fds ?t)" using assms(1,2) by (simp_all add: this_fds_def)
  obtain r t' al' k where run: "alloc_procfd [] ?t = Some (r, t', al')" "\<not> fd_lock t'" "fd_this t' = fd_this ?t"
    "system_fd_table t' = system_fd_table ?t" "vnode_refs t' = vnode_refs ?t"
    "ft_table (this_fds t') = ft_table (this_fds ?t) @ replicate k None" "al' = []"
    "r \<noteq> -1 \<longrightarrow> 0 \<le> r \<and> nat r < length (ft_table (this_fds t')) \<and> ft_table (this_fds t') ! nat r = None"
    using alloc_procfd_ok [OF pre, of "[]"] by blast
  have "s\<lparr>vs_fds := t', vs_alloc := []\<rparr> = s\<lparr>vs_fds := t'\<rparr>" using assms(3) by (cases s) simp
  moreover define q :: "errno + nat" where
    "q = (if r = -1 then Inl (case fd_errno t' of None \<Rightarrow> ENOMEM | Some e \<Rightarrow> e) else Inr (nat r))"
  ultimately have "alloc_pfd s = Some (q, s\<lparr>vs_fds := t'\<rparr>)"
    using run(1,7) assms(3) by (simp add: alloc_pfd_def ok_def fail_def)
  moreover have "q = Inr n \<Longrightarrow> n < length (ft_table (this_fds t')) \<and> ft_table (this_fds t') ! n = None" for n
    using run(8) by (auto simp: q_def split: if_splits)
  ultimately show ?thesis using run by (intro exI [of _ q] exI [of _ t'] exI [of _ k]) (simp add: this_fds_def)
qed

lemma descriptor_extend:
  "ft_table (this_fds t') = ft_table (this_fds t) @ replicate k None \<Longrightarrow> descriptor t' = descriptor t"
  by (auto simp: descriptor_def fun_eq_iff nth_append)

lemma same_tables_this: "same_tables t t' \<Longrightarrow> this_fds t' = this_fds t \<and> descriptor t' = descriptor t"
  by (simp add: same_tables_def this_fds_def descriptor_def fun_eq_iff)

text \<open>The end of \<open>sys_open\<close>, with the entries \<open>fd\<close> and \<open>i\<close> allocated and the vnode found or not.\<close>

lemma open_finish:
  assumes "\<not> fd_lock (vs_fds s)" and "i < length (system_fd_table (vs_fds s))"
    and "system_fd_table (vs_fds s) ! i = file_zero\<lparr>f_count := 1\<rparr>"
    and "fd < length (ft_table (this_fds (vs_fds s)))" and "ft_table (this_fds (vs_fds s)) ! fd = None"
  shows "\<exists>r' s'. (case r of Inl e \<Rightarrow> open_undo ov fd i e
      | Inr v \<Rightarrow> (\<lambda>s. case fill_fd fd i (Some v) flags (vs_fds s) of None \<Rightarrow> None | Some t \<Rightarrow> ok fd (s\<lparr>vs_fds := t\<rparr>))) s = Some (r', s') \<and>
    (case r of
       Inl e \<Rightarrow> r' = Inl e \<and> system_fd_table (vs_fds s') = (system_fd_table (vs_fds s))[i := file_zero] \<and>
         descriptor (vs_fds s') = descriptor (vs_fds s)
     | Inr v \<Rightarrow> r' = Inr fd \<and> descriptor (vs_fds s') = (descriptor (vs_fds s))(fd \<mapsto> i) \<and>
         system_fd_table (vs_fds s') = (system_fd_table (vs_fds s))[i :=
           \<lparr>f_vnode = Some v, f_offset = 0, f_flags = flags AND (O_ACCMODE OR O_NONBLOCK), f_count = 1\<rparr>])"
proof (cases r)
  case (Inl e)
  then show ?thesis using open_undo_ok [OF assms, of ov e] by auto
next
  case (Inr v)
  have "\<exists>t. fill_fd fd i (Some v) flags (vs_fds s) = Some t \<and> descriptor t = (descriptor (vs_fds s))(fd \<mapsto> i) \<and>
      system_fd_table t = (system_fd_table (vs_fds s))[i :=
        \<lparr>f_vnode = Some v, f_offset = 0, f_flags = flags AND (O_ACCMODE OR O_NONBLOCK), f_count = 1\<rparr>]"
    using assms(2-4) by (simp add: fill_fd_def Let_def descriptor_def this_fds_def set_this_fds_def fun_eq_iff file_zero_def)
  then show ?thesis using Inr by (auto simp: ok_def)
qed

text \<open>
  C22: \<open>sys_open\<close> returns whenever the resolution of the path, which may call the drivers, returns. When it fails, for
  whatever reason, no entry of the system file table and no descriptor of the process has changed
  (references to vnodes that a failing resolution has taken are not spoken of). When it succeeds, the
  descriptor returned was unused before and now refers to a file that was not in use, with the
  vnode that was found, offset 0 and one reference, and no other file or descriptor has changed.
  The part of the call that resolves the path, creates the file and opens it for writing is
  assumed to return and to leave the descriptor tables alone.\<close>

theorem sys_open_spec:
  assumes inv: "fdt_inv (vs_fds s)" and wf: "ft_wf (this_fds (vs_fds s))" and al: "vs_alloc s = []"
    and zero: "\<forall>i < length (system_fd_table (vs_fds s)). f_count (get_file i s) = 0 \<longrightarrow> get_file i s = file_zero"
    and found: "\<forall>t. vnode_refs t = vnode_refs (vs_fds s) \<longrightarrow>
      (\<exists>r s'. and_then (open_vnode ov path flags mode) (\<lambda>v. open_writable ov v flags) (s\<lparr>vs_fds := t\<rparr>) = Some (r, s') \<and>
        same_tables t (vs_fds s'))"
  shows "\<exists>r s'. sys_open ov path flags mode s = Some (r, s') \<and>
    (case r of
       Inl e \<Rightarrow> system_fd_table (vs_fds s') = system_fd_table (vs_fds s) \<and> descriptor (vs_fds s') = descriptor (vs_fds s)
     | Inr fd \<Rightarrow> descriptor (vs_fds s) fd = None \<and>
         (\<exists>f v t s2. f \<notin> files_used (vs_fds s) \<and> descriptor (vs_fds s') = (descriptor (vs_fds s))(fd \<mapsto> f) \<and>
           system_fd_table (vs_fds s') = (system_fd_table (vs_fds s))[f :=
             \<lparr>f_vnode = Some v, f_offset = 0, f_flags = flags AND (O_ACCMODE OR O_NONBLOCK), f_count = 1\<rparr>] \<and>
           vnode_refs t = vnode_refs (vs_fds s) \<and>
           and_then (open_vnode ov path flags mode) (\<lambda>v. open_writable ov v flags) (s\<lparr>vs_fds := t\<rparr>) = Some (Inr v, s2)))"
proof -
  let ?T = "system_fd_table (vs_fds s)"
  consider (full) t where "alloc_fd (vs_fds s) = Some (-1, t)" "system_fd_table t = ?T" "proc_fds t = proc_fds (vs_fds s)"
      "fd_this t = fd_this (vs_fds s)"
    | (entry) i where "i < length ?T" "f_count (?T ! i) = 0" "alloc_fd (vs_fds s) =
        Some (int i, (vs_fds s)\<lparr>system_fd_table := ?T[i := (?T ! i)\<lparr>f_count := 1\<rparr>], fd_table_start := i + 1\<rparr>)"
    using alloc_fd_entry [OF inv] by blast
  then show ?thesis
  proof cases
    case full
    then show ?thesis
      by (simp add: sys_open_def alloc_sysfd_def vop_defs descriptor_def this_fds_def fun_eq_iff)
  next
    case (entry i)
    let ?t1 = "(vs_fds s)\<lparr>system_fd_table := ?T[i := (?T ! i)\<lparr>f_count := 1\<rparr>], fd_table_start := i + 1\<rparr>"
    let ?s1 = "s\<lparr>vs_fds := ?t1\<rparr>"
    have z: "?T ! i = file_zero" using zero entry(1,2) by (simp add: get_file_def)
    have "\<not> fd_lock ?t1" "ft_wf (this_fds ?t1)" using inv wf by (simp_all add: fdt_inv_def this_fds_def)
    then obtain r t k where pfd: "alloc_pfd ?s1 = Some (r, s\<lparr>vs_fds := t\<rparr>)" "\<not> fd_lock t" "fd_this t = fd_this ?t1"
      "system_fd_table t = system_fd_table ?t1" "vnode_refs t = vnode_refs ?t1"
      "ft_table (this_fds t) = ft_table (this_fds ?t1) @ replicate k None"
      "\<forall>n. r = Inr n \<longrightarrow> n < length (ft_table (this_fds t)) \<and> ft_table (this_fds t) ! n = None"
      using alloc_pfd_ok [of ?s1] al by auto
    have desc: "descriptor t = descriptor (vs_fds s)"
      using descriptor_extend [OF pfd(6)] by (simp add: descriptor_def this_fds_def fun_eq_iff)
    have t: "i < length (system_fd_table t)" "system_fd_table t ! i = file_zero\<lparr>f_count := 1\<rparr>"
      "(system_fd_table t)[i := x] = ?T[i := x]" for x using pfd(4) entry(1) z by simp_all
    have undo: "?T[i := file_zero] = ?T" using z by (metis list_update_id)
    show ?thesis
    proof (cases r)
      case (Inl e)
      let ?t' = "t\<lparr>vnodes_freed := []\<rparr>"
      obtain t' where t': "free_fd i ?t' = Some t'" "system_fd_table t' = ?T" "proc_fds t' = proc_fds t"
        "fd_this t' = fd_this t" "vnodes_freed t' = []"
        using free_fd_entry [of ?t' i] pfd(2) t undo by auto
      have "fds_op ov (free_fd i) (s\<lparr>vs_fds := t\<rparr>) = Some (s\<lparr>vs_fds := t'\<rparr>)"
        using fds_op_keeps [of "free_fd i" "s\<lparr>vs_fds := t\<rparr>" t'] t'(1,5) by simp
      moreover have "descriptor t' = descriptor t" using t'(3,4) by (simp add: descriptor_def this_fds_def fun_eq_iff)
      ultimately show ?thesis using entry(3) pfd(1) Inl t'(2) desc
        by (simp add: sys_open_def alloc_sysfd_def vop_defs)
    next
      case (Inr fd)
      obtain q s2 where q: "and_then (open_vnode ov path flags mode) (\<lambda>v. open_writable ov v flags) (s\<lparr>vs_fds := t\<rparr>) = Some (q, s2)"
        "same_tables t (vs_fds s2)" using found pfd(5) by auto
      have s2: "this_fds (vs_fds s2) = this_fds t" "descriptor (vs_fds s2) = descriptor t"
        "system_fd_table (vs_fds s2) = system_fd_table t" "fd_lock (vs_fds s2) = fd_lock t"
        using q(2) same_tables_this [OF q(2)] by (simp_all add: same_tables_def)
      have "descriptor t fd = None" using pfd(7) Inr by (simp add: descriptor_def Let_def)
      then have unused: "descriptor (vs_fds s) fd = None" using desc by simp
      have "i \<notin> files_used (vs_fds s)" using entry(2) by (simp add: files_used_def)
      moreover have "sys_open ov path flags mode s =
          (case q of Inl e \<Rightarrow> open_undo ov fd i e
           | Inr v \<Rightarrow> (\<lambda>s. case fill_fd fd i (Some v) flags (vs_fds s) of None \<Rightarrow> None | Some t \<Rightarrow> ok fd (s\<lparr>vs_fds := t\<rparr>))) s2"
        using entry(3) pfd(1) Inr q(1) by (simp add: sys_open_def alloc_sysfd_def attempt_def and_then_def ok_def)
      moreover have "\<not> fd_lock (vs_fds s2)" "i < length (system_fd_table (vs_fds s2))"
        "system_fd_table (vs_fds s2) ! i = file_zero\<lparr>f_count := 1\<rparr>" "fd < length (ft_table (this_fds (vs_fds s2)))"
        "ft_table (this_fds (vs_fds s2)) ! fd = None" using pfd(2,7) t(1,2) s2 Inr by simp_all
      note fin = open_finish [OF this, where r = q and ov = ov and flags = flags]
      ultimately show ?thesis
      proof (cases q)
        case (Inl e)
        then show ?thesis using fin \<open>sys_open ov path flags mode s = _\<close> s2 t(3) undo desc by auto
      next
        case (Inr v)
        have "vnode_refs t = vnode_refs (vs_fds s)" using pfd(5) by simp
        moreover obtain s' where "sys_open ov path flags mode s = Some (Inr fd, s')"
          "descriptor (vs_fds s') = (descriptor (vs_fds s))(fd \<mapsto> i)" "system_fd_table (vs_fds s') =
            ?T[i := \<lparr>f_vnode = Some v, f_offset = 0, f_flags = flags AND (O_ACCMODE OR O_NONBLOCK), f_count = 1\<rparr>]"
          using fin Inr \<open>sys_open ov path flags mode s = _\<close> s2 t(3) desc by auto
        ultimately show ?thesis using unused \<open>i \<notin> _\<close> q(1) Inr
          by (intro exI [of _ "Inr fd"] exI [of _ s']) (simp, blast)
      qed
    qed
  qed
qed

text \<open>The tree of \<open>demo_tree\<close> with empty descriptor tables, and the link opened without following it.\<close>

definition open_tree :: "unit vfs" where
  "open_tree = demo_tree\<lparr>vs_fds := fds_zero\<lparr>vnode_refs := (\<lambda>_. 1),
     system_fd_table := replicate SYSTEM_FD_TABLE_SIZE file_zero,
     proc_fds := (\<lambda>_. \<lparr>ft_table = [None], ft_curr = 0, ft_size = 1, ft_max_size = 1\<rparr>)\<rparr>\<rparr>"

lemma open_tree_found:
  assumes "vnode_refs t = (\<lambda>_. 1)"
  shows "and_then (open_vnode (\<lambda>_. link_ops) [97] O_NOFOLLOW 0) (\<lambda>v. open_writable (\<lambda>_. link_ops) v O_NOFOLLOW)
    (open_tree\<lparr>vs_fds := t\<rparr>) = Some (Inr 1, set_refs 1 2 (set_refs 0 2 (open_tree\<lparr>vs_fds := t\<rparr>)))"
proof -
  let ?s = "open_tree\<lparr>vs_fds := t\<rparr>"
  have "named_child (\<lambda>_. link_ops) 0 [97] (set_refs 0 2 ?s) = Some (Inr 1, set_refs 1 2 (set_refs 0 2 ?s))"
    using assms by (simp add: named_child_def vnode_find_mount_point_def vnode_lookup_child_def cached_child_def open_tree_def
        demo_tree_def root_only_def demo_dir_def strmap_lookup_def map_lookup_def bucket_index_def vnode_lookup_cache_def
        hashmap_lookup_def ref_obj_def vop_defs vn_refs_def set_refs_def)
  moreover have s: "vs_cwd ?s = 0" "vs_alloc ?s = []" "vs_vnodes ?s 0 = Some demo_dir" "vs_vnodes ?s (Suc 0) = Some demo_link"
    "vn_refs ?s v = 1" "mt_flags (vs_mounts ?s m) = 0" for v m
    using assms by (simp_all add: open_tree_def demo_tree_def root_only_def mount_zero_def vn_refs_def)
  ultimately have "walk (\<lambda>_. link_ops) (-1) 0 [[97]] (set_refs 0 2 ?s) = Some (Inr 1, set_refs 1 2 (set_refs 0 2 ?s))"
    by (simp add: namei_step.simps vop_defs)
  then have "vnode_namei (\<lambda>_. link_ops) (-1) [97] ?s = Some (Inr 1, set_refs 1 2 (set_refs 0 2 ?s))"
    using s by (simp add: vnode_namei_walk SYMLOOP_MAX_def start_vnode_def absolute_def names_simple relevant_def ref_obj_def
        vop_defs take_alloc_op_none del: walk.simps)
  moreover have "v_mount demo_link = Some 0" by (simp add: demo_link_def)
  ultimately show ?thesis using s
    by (simp add: open_vnode_def open_writable_def O_NOFOLLOW_def O_CREAT_def at_mount_def vop_defs)
qed

theorem sys_open_spec_witness:
  "\<exists>r s. sys_open (\<lambda>_. link_ops) [97] O_NOFOLLOW 0 open_tree = Some (r, s) \<and>
     (case r of Inl e \<Rightarrow> descriptor (vs_fds s) = descriptor (vs_fds open_tree)
      | Inr fd \<Rightarrow> descriptor (vs_fds open_tree) fd = None \<and> descriptor (vs_fds s) fd \<noteq> None)"
proof -
  have s: "system_fd_table (vs_fds open_tree) = replicate SYSTEM_FD_TABLE_SIZE file_zero" "vnode_refs (vs_fds open_tree) = (\<lambda>_. 1)"
    "this_fds (vs_fds open_tree) = \<lparr>ft_table = [None], ft_curr = 0, ft_size = 1, ft_max_size = 1\<rparr>" "vs_alloc open_tree = []"
    "fd_table_start (vs_fds open_tree) = 0" "\<not> fd_lock (vs_fds open_tree)"
    by (simp_all add: open_tree_def this_fds_def fds_zero_def demo_tree_def root_only_def)
  have inv: "fdt_inv (vs_fds open_tree)" "ft_wf (this_fds (vs_fds open_tree))" using s by (simp_all add: fdt_inv_def ft_wf_def)
  have zero: "\<forall>i < length (system_fd_table (vs_fds open_tree)). f_count (get_file i open_tree) = 0 \<longrightarrow> get_file i open_tree = file_zero"
    using s(1) by (simp add: get_file_def)
  have found: "\<forall>t. vnode_refs t = vnode_refs (vs_fds open_tree) \<longrightarrow>
      (\<exists>r s'. and_then (open_vnode (\<lambda>_. link_ops) [97] O_NOFOLLOW 0) (\<lambda>v. open_writable (\<lambda>_. link_ops) v O_NOFOLLOW)
        (open_tree\<lparr>vs_fds := t\<rparr>) = Some (r, s') \<and> same_tables t (vs_fds s'))"
    using s(2) by (simp add: open_tree_found same_tables_def set_refs_def)
  show ?thesis using sys_open_spec [OF inv s(4) zero found]
  proof (elim exE conjE, goal_cases)
    case (1 r s')
    then show ?case by (intro exI [of _ r] exI [of _ s']) (cases r; auto)
  qed
qed

section \<open>Sequential reading\<close>

text \<open>Reads of the given lengths one after the other, and the bytes they return joined.\<close>

fun read_all :: "'b op_vectors \<Rightarrow> int \<Rightarrow> u64 list \<Rightarrow> u8 list \<Rightarrow> ('b vfs, u8 list) vop" where
  "read_all ov fd [] acc = ok acc"
| "read_all ov fd (n # ns) acc = and_then (sys_read ov fd n) (\<lambda>bs. read_all ov fd ns (acc @ bs))"

text \<open>Descriptor \<open>fd\<close> is open on the readable file \<open>v\<close>, whose driver reads from \<open>content\<close>.\<close>

definition open_for_reading :: "'b op_vectors \<Rightarrow> int \<Rightarrow> nat \<Rightarrow> nat \<Rightarrow> u8 list \<Rightarrow> 'b vfs \<Rightarrow> bool" where
  "open_for_reading ov fd f v content s \<longleftrightarrow>
     0 \<le> fd \<and> nat fd < ft_size (this_fds (vs_fds s)) \<and> nat fd < length (ft_table (this_fds (vs_fds s))) \<and>
     ft_table (this_fds (vs_fds s)) ! nat fd = Some f \<and> f < length (system_fd_table (vs_fds s)) \<and>
     f_vnode (get_file f s) = Some v \<and>
     (\<exists>vp i g. vs_vnodes s v = Some vp \<and> vfs_can_read vp False (vs_proc s) = Inr () \<and> \<not> S_ISDIR (v_mode vp) \<and>
        vfs_can_seek vp = Inr () \<and> v_ops vp = Some i \<and> op_read (ov i) = Some g \<and>
        (\<forall>len off s. 0 \<le> off \<longrightarrow> g v len off s = Some (Inr (take (unat len) (drop (nat off) content)), s)))"

lemma off64_id: "0 \<le> x \<Longrightarrow> x < 2 ^ 63 \<Longrightarrow> off64 x = x"
  by (simp add: off64_def sint_sbintrunc' signed_take_bit_int_eq_self)

lemma open_for_reading_set_file:
  assumes "open_for_reading ov fd f v content s" and "f_vnode e = Some v"
  shows "open_for_reading ov fd f v content (set_file f e s)"
  using assms by (simp add: open_for_reading_def set_file_def get_file_def this_fds_def)

lemma sys_read_step:
  assumes "open_for_reading ov fd f v content s" and "f_offset (get_file f s) = off" and "0 \<le> off"
    and "off \<le> int (length content)" and "int (length content) < 2 ^ 63"
  shows "\<exists>s'. sys_read ov fd n s = Some (Inr (take (unat n) (drop (nat off) content)), s') \<and>
    open_for_reading ov fd f v content s' \<and>
    f_offset (get_file f s') = int (min (nat off + unat n) (length content))"
proof -
  let ?bs = "take (unat n) (drop (nat off) content)"
  let ?o = "off + int (length ?bs)"
  let ?s = "set_file f ((get_file f s)\<lparr>f_offset := ?o\<rparr>) s"
  have "nat off + length ?bs = min (nat off + unat n) (length content)" using assms(3,4) by (auto simp: min_def)
  then have o: "?o = int (min (nat off + unat n) (length content))" using assms(3) by (metis of_nat_add int_nat_eq)
  then have off: "off64 ?o = ?o" using assms(5) by (intro off64_id) auto
  from assms(1) obtain vp i g where s: "0 \<le> fd" "nat fd < ft_size (this_fds (vs_fds s))" "nat fd < length (ft_table (this_fds (vs_fds s)))"
    "ft_table (this_fds (vs_fds s)) ! nat fd = Some f" "f < length (system_fd_table (vs_fds s))" "f_vnode (get_file f s) = Some v"
    "vs_vnodes s v = Some vp" "vfs_can_read vp False (vs_proc s) = Inr ()" "\<not> S_ISDIR (v_mode vp)" "vfs_can_seek vp = Inr ()"
    "v_ops vp = Some i" "op_read (ov i) = Some g"
    "\<And>len off s. 0 \<le> off \<Longrightarrow> g v len off s = Some (Inr (take (unat len) (drop (nat off) content)), s)"
    unfolding open_for_reading_def by blast
  have "vfs_read ov v n off s = Some (Inr ?bs, s)" using s assms(3) by (auto simp: vfs_read_def vop_defs)
  moreover have "advance f v (int (length ?bs)) s = Some (Inr (), ?s)"
    using s assms(2) off by (simp add: advance_def vop_defs)
  ultimately have "sys_read ov fd n s = Some (Inr ?bs, ?s)"
    using s assms(2) by (simp add: sys_read_def with_vnode_def with_file_def file_fd_def get_file_def and_then_def attempt_def ok_def)
  moreover have "open_for_reading ov fd f v content ?s" using open_for_reading_set_file [OF assms(1)] s(6) by simp
  moreover have "f_offset (get_file f ?s) = ?o" using s(5) by (simp add: get_file_def set_file_def)
  ultimately show ?thesis using o by auto
qed

text \<open>
  Successive reads from a descriptor of a regular file return the successive pieces of the
  contents, from the offset of the open file on, whatever lengths are asked for: joined they are
  that many bytes of the file, or all of its rest. The only assumption on the driver is that it reads
  the bytes at the offset it is given.\<close>

theorem reads_are_consecutive:
  assumes "open_for_reading ov fd f v content s" and "f_offset (get_file f s) = int off"
    and "off \<le> length content" and "length content < 2 ^ 63"
  shows "\<exists>s'. read_all ov fd ns [] s = Some (Inr (take (sum_list (map unat ns)) (drop off content)), s') \<and>
    f_offset (get_file f s') = int (min (off + sum_list (map unat ns)) (length content))"
proof -
  have "\<exists>s'. read_all ov fd ns acc s = Some (Inr (acc @ take (sum_list (map unat ns)) (drop off content)), s') \<and>
    f_offset (get_file f s') = int (min (off + sum_list (map unat ns)) (length content))" for acc
    using assms(1-3)
  proof (induction ns arbitrary: s off acc)
    case Nil
    then show ?case by (simp add: ok_def)
  next
    case (Cons n ns)
    let ?o = "min (off + unat n) (length content)"
    have len: "int (length content) < 2 ^ 63" using assms(4) by (simp add: of_nat_less_iff [symmetric] del: of_nat_less_iff)
    obtain s' where s': "sys_read ov fd n s = Some (Inr (take (unat n) (drop off content)), s')"
      "open_for_reading ov fd f v content s'" "f_offset (get_file f s') = int ?o"
      using sys_read_step [OF Cons.prems(1,2) _ _ len, of n] Cons.prems(3) by auto
    obtain s2 where "read_all ov fd ns (acc @ take (unat n) (drop off content)) s' =
        Some (Inr ((acc @ take (unat n) (drop off content)) @ take (sum_list (map unat ns)) (drop ?o content)), s2)"
      "f_offset (get_file f s2) = int (min (?o + sum_list (map unat ns)) (length content))"
      using Cons.IH [OF s'(2,3) min.cobounded2, of "acc @ take (unat n) (drop off content)"] by blast
    moreover have "drop ?o content = drop (unat n) (drop off content)" by (auto simp: min_def add.commute)
    then have "take (unat n) (drop off content) @ take k (drop ?o content) = take (unat n + k) (drop off content)" for k
      by (simp only: take_add)
    ultimately show ?case using s'(1) by (auto simp: and_then_def attempt_def min_def)
  qed
  from this [of "[]"] show ?thesis by simp
qed

text \<open>Descriptor 0 open on a file of three bytes.\<close>

definition three_bytes_ops :: "'b vfs vnode_ops" where
  "three_bytes_ops = owner_ops\<lparr>op_read := Some (\<lambda>v len off. ok (take (unat len) (drop (nat off) [1, 2, 3])))\<rparr>"

definition file_tree :: "unit vfs" where
  "file_tree = fd_tree\<lparr>vs_vnodes := [0 \<mapsto> vnode_zero\<lparr>v_mode := S_IFREG OR S_IRUSR OR S_IROTH\<rparr>]\<rparr>"

theorem reads_are_consecutive_witness:
  "\<exists>s. read_all (\<lambda>_. three_bytes_ops) 0 [2, 2] [] file_tree = Some (Inr [1, 2, 3], s)"
proof -
  have "open_for_reading (\<lambda>_. three_bytes_ops) 0 0 0 [1, 2, 3] file_tree"
    by (simp add: open_for_reading_def file_tree_def fd_tree_def this_fds_def get_file_def demo_tree_def root_only_def
        vnode_zero_def user_proc_def vfs_can_read_def vfs_can_seek_def three_bytes_ops_def ok_def S_IFREG_def S_IRUSR_def
        S_IROTH_def S_ISDIR_def S_IFMT_def S_IFDIR_def S_ISFIFO_def S_IFIFO_def S_ISSOCK_def S_IFSOCK_def S_ISCHR_def S_IFCHR_def)
  moreover have "f_offset (get_file 0 file_tree) = int 0" by (simp add: file_tree_def fd_tree_def get_file_def)
  ultimately show ?thesis using reads_are_consecutive [of "\<lambda>_. three_bytes_ops" 0 0 0 "[1, 2, 3]" file_tree 0 "[2, 2]"] by auto
qed

section \<open>Renaming between two directories\<close>

theorem renameat_moves_process_witness:
  "vs_cwd fd_tree = 1 \<and>
   sys_renameat (\<lambda>_. link_ops) 0 [97] 7 [98] fd_tree = Some (Inl EBADF, (set_refs 0 2 fd_tree)\<lparr>vs_cwd := 0\<rparr>)"
proof -
  have f: "file_fd 0 (vs_fds fd_tree) = Some (Some 0, vs_fds fd_tree)" "0 < length (system_fd_table (vs_fds fd_tree))"
    "f_vnode (get_file 0 fd_tree) = Some 0" "vs_vnodes fd_tree 0 = Some demo_dir" "vs_alloc fd_tree = []" "slash \<notin> set [97]"
    "file_fd 7 (vs_fds fd_tree) = Some (None, (vs_fds fd_tree)\<lparr>fd_errno := Some EBADF\<rparr>)" "7 \<noteq> AT_FDCWD" "0 \<noteq> AT_FDCWD"
    "vn_refs fd_tree 0 + 1 \<noteq> 0"
    by (simp_all add: fd_tree_simps file_fd_def this_fds_def get_file_def AT_FDCWD_def) (simp_all add: fd_tree_def)
  show ?thesis using renameat_moves_process [OF f, of "\<lambda>_. link_ops" "[98]"] by (simp add: fd_tree_simps)
qed

end
