(* ===== verification/Pml_Sync.thy ===== *)
theory Pml_Sync
  imports Pml_Fssys
begin

text \<open>
  The traversal of the cached vnodes by \<open>sys_sync\<close> (drivers/fs/syscall.c): once to synchronise
  and mark them, once to clear the marks. The graph of vnodes may share vnodes and have cycles.
  Both passes are instances of one locale, a depth-first search guarded by marks, in which
  termination and the set of vnodes visited are shown.
\<close>

section \<open>The graph of cached vnodes\<close>

definition cached :: "'b vfs \<Rightarrow> nat option \<times> u64 list \<Rightarrow> nat set" where
  "cached s w = {v. \<exists>ino \<in> set (snd w). vnode_lookup_cache (fst w) ino s = Some (Some v)}"

definition kids :: "'b vfs \<Rightarrow> nat \<Rightarrow> nat set" where
  "kids s v = (case below v s of None \<Rightarrow> {} | Some w \<Rightarrow> cached s w)"

definition edges :: "'b vfs \<Rightarrow> (nat \<times> nat) set" where
  "edges s = {(u, v). v \<in> kids s u}"

text \<open>The vnodes that are reached from \<open>r\<close> through cached children.\<close>

definition reach :: "'b vfs \<Rightarrow> nat \<Rightarrow> nat set" where
  "reach s r = (edges s)\<^sup>* `` {r}"

definition same_tree :: "'b vfs \<Rightarrow> 'b vfs \<Rightarrow> bool" where
  "same_tree s s' \<longleftrightarrow> dom (vs_vnodes s') = dom (vs_vnodes s) \<and> (\<forall>v. below v s' = below v s) \<and>
     vs_mounts s' = vs_mounts s"

text \<open>Cached entries refer to vnodes that exist, and the maps of children can be read.\<close>

definition work_ok :: "'b vfs \<Rightarrow> nat option \<times> u64 list \<Rightarrow> bool" where
  "work_ok s w \<longleftrightarrow> (\<forall>ino \<in> set (snd w). \<exists>x. vnode_lookup_cache (fst w) ino s = Some x \<and> set_option x \<subseteq> dom (vs_vnodes s))"

definition tree_ok :: "'b vfs \<Rightarrow> bool" where
  "tree_ok s \<longleftrightarrow> finite (dom (vs_vnodes s)) \<and> (\<forall>v \<in> dom (vs_vnodes s). \<exists>w. below v s = Some w \<and> work_ok s w)"

lemma same_tree_refl [simp]: "same_tree s s"
  by (simp add: same_tree_def)

lemma same_tree_trans [trans]: "same_tree s t \<Longrightarrow> same_tree t u \<Longrightarrow> same_tree s u"
  by (simp add: same_tree_def)

lemma same_tree_lookup: "same_tree s t \<Longrightarrow> vnode_lookup_cache m ino t = vnode_lookup_cache m ino s"
  by (cases m) (simp_all add: same_tree_def vnode_lookup_cache_def)

lemma same_tree_graph:
  assumes "same_tree s t"
  shows "cached t w = cached s w" and "kids t v = kids s v" and "edges t = edges s" and "reach t r = reach s r"
    and "work_ok t w = work_ok s w" and "tree_ok t = tree_ok s"
proof -
  show c: "cached t w = cached s w" for w using same_tree_lookup [OF assms] by (simp add: cached_def)
  show k: "kids t v = kids s v" for v using assms c by (simp add: same_tree_def kids_def split: option.splits)
  show e: "edges t = edges s" using k by (simp add: edges_def)
  show "reach t r = reach s r" using e by (simp add: reach_def)
  show w: "work_ok t w = work_ok s w" for w using assms same_tree_lookup [OF assms] by (simp add: same_tree_def work_ok_def)
  show "tree_ok t = tree_ok s" using assms w by (simp add: same_tree_def tree_ok_def)
qed

lemma same_tree_below: "tree_ok t \<Longrightarrow> same_tree s t \<Longrightarrow> v \<in> dom (vs_vnodes s) \<Longrightarrow> \<exists>w. below v t = Some w \<and> work_ok t w"
  by (simp add: tree_ok_def same_tree_def)

section \<open>Depth-first search with marks\<close>

locale traversal =
  fixes go :: "nat option \<times> u64 list \<Rightarrow> 'b vfs \<Rightarrow> 'b vfs option"
    and visit :: "nat \<Rightarrow> 'b vfs \<Rightarrow> 'b vfs option"
    and leave :: "nat \<Rightarrow> 'b vfs \<Rightarrow> 'b vfs option"
    and seen :: "'b vfs \<Rightarrow> nat set"
    and good :: "'b vfs \<Rightarrow> bool"
  assumes go_nil: "go (m, []) s = Some s"
    and go_absent: "vnode_lookup_cache m ino s = Some None \<Longrightarrow> go (m, ino # inos) s = go (m, inos) s"
    and go_seen: "vnode_lookup_cache m ino s = Some (Some v) \<Longrightarrow> v \<in> dom (vs_vnodes s) \<Longrightarrow> v \<in> seen s \<Longrightarrow>
      go (m, ino # inos) s = go (m, inos) s"
    and go_new: "vnode_lookup_cache m ino s = Some (Some v) \<Longrightarrow> v \<in> dom (vs_vnodes s) \<Longrightarrow> v \<notin> seen s \<Longrightarrow>
      go (m, ino # inos) s = Option.bind (visit v s) (\<lambda>s. Option.bind (below v s) (\<lambda>w.
        Option.bind (go w s) (\<lambda>s. Option.bind (leave v s) (go (m, inos)))))"
    and good_tree: "good s \<Longrightarrow> tree_ok s"
    and visit_ok: "good s \<Longrightarrow> v \<in> dom (vs_vnodes s) \<Longrightarrow>
      \<exists>s'. visit v s = Some s' \<and> good s' \<and> same_tree s s' \<and> seen s' = insert v (seen s)"
    and leave_ok: "good s \<Longrightarrow> v \<in> dom (vs_vnodes s) \<Longrightarrow> v \<in> seen s \<Longrightarrow>
      \<exists>s'. leave v s = Some s' \<and> good s' \<and> same_tree s s' \<and> seen s' = seen s"
begin

definition visited :: "nat set \<Rightarrow> 'b vfs \<Rightarrow> 'b vfs \<Rightarrow> bool" where
  "visited R s s' \<longleftrightarrow> good s' \<and> same_tree s s' \<and> seen s \<subseteq> seen s' \<and> R \<subseteq> seen s' \<and>
     (\<forall>v \<in> seen s' - seen s. kids s v \<subseteq> seen s' \<and> v \<in> (edges s)\<^sup>* `` R)"

lemma visited_trans:
  assumes 1: "visited R s t" and 2: "visited S t u"
  shows "visited (R \<union> S) s u"
proof -
  have st: "same_tree s t" using 1 by (simp add: visited_def)
  note g = same_tree_graph [OF st]
  have tu: "same_tree t u" using 2 by (simp add: visited_def)
  show ?thesis using 1 2 same_tree_trans [OF st tu] unfolding visited_def g by (auto 5 3)
qed

lemma visited_more: "visited R s s' \<Longrightarrow> S \<subseteq> seen s \<Longrightarrow> visited (S \<union> R) s s'"
  unfolding visited_def by blast

lemma go_visits:
  assumes "good s" and "work_ok s (m, inos)"
  shows "\<exists>s'. go (m, inos) s = Some s' \<and> visited (cached s (m, inos)) s s'"
  using assms
proof (induction "(card (dom (vs_vnodes s) - seen s), length inos)" arbitrary: m inos s
    rule: wf_induct_rule [OF wf_lex_prod [OF wf_less_than wf_less_than]])
  case 1
  note IH = "1.hyps"
  show ?case
  proof (cases inos)
    case Nil
    then show ?thesis using go_nil "1.prems"(1) by (simp add: visited_def cached_def)
  next
    case (Cons ino rest)
    obtain x where x: "vnode_lookup_cache m ino s = Some x" "set_option x \<subseteq> dom (vs_vnodes s)"
      and rest: "work_ok s (m, rest)" using "1.prems"(2) Cons by (auto simp: work_ok_def)
    have c: "cached s (m, inos) = set_option x \<union> cached s (m, rest)" using x(1) Cons by (auto simp: cached_def)
    have onward: "\<exists>s'. go (m, rest) t = Some s' \<and> visited (cached s (m, rest)) t s'"
      if "good t" "same_tree s t" "seen s \<subseteq> seen t" for t
    proof -
      have "finite (dom (vs_vnodes s))" using good_tree [OF "1.prems"(1)] by (simp add: tree_ok_def)
      then have "card (dom (vs_vnodes t) - seen t) \<le> card (dom (vs_vnodes s) - seen s)"
        using that(2,3) by (intro card_mono) (auto simp: same_tree_def)
      then have "card (dom (vs_vnodes t) - seen t) < card (dom (vs_vnodes s) - seen s) \<or>
          card (dom (vs_vnodes t) - seen t) = card (dom (vs_vnodes s) - seen s)" by linarith
      moreover have "work_ok t (m, rest)" using rest same_tree_graph(5) [OF that(2)] by simp
      ultimately show ?thesis using IH [of t rest m] that(1) Cons same_tree_graph(1) [OF that(2)] by auto
    qed
    show ?thesis
    proof (cases "x = None \<or> set_option x \<subseteq> seen s")
      case True
      then have "go (m, inos) s = go (m, rest) s"
        using go_absent go_seen x Cons by (cases x) auto
      moreover have "\<exists>s'. go (m, rest) s = Some s' \<and> visited (cached s (m, rest)) s s'" using onward "1.prems"(1) by simp
      moreover have "set_option x \<subseteq> seen s" using True by auto
      ultimately show ?thesis using c visited_more by metis
    next
      case False
      then obtain v where "x = Some v" "v \<notin> seen s" by (cases x) auto
      with x(2) have v: "x = Some v" "v \<in> dom (vs_vnodes s)" "v \<notin> seen s" by auto
      obtain s1 where s1: "visit v s = Some s1" "good s1" "same_tree s s1" "seen s1 = insert v (seen s)"
        using visit_ok [OF "1.prems"(1) v(2)] by blast
      note g1 = same_tree_graph [OF s1(3)]
      obtain w where w: "below v s1 = Some w" "work_ok s1 w"
        using same_tree_below [OF good_tree [OF s1(2)] s1(3) v(2)] by blast
      have "card (dom (vs_vnodes s1) - seen s1) < card (dom (vs_vnodes s) - seen s)"
        using good_tree [OF "1.prems"(1)] s1(3,4) v(2,3)
        by (intro psubset_card_mono) (auto simp: tree_ok_def same_tree_def)
      then obtain s2 where s2: "go w s1 = Some s2" "visited (cached s1 w) s1 s2"
        using IH [of s1 "snd w" "fst w"] s1(2) w(2) by auto
      have t2: "good s2" "same_tree s1 s2" "v \<in> seen s2" "v \<in> dom (vs_vnodes s2)"
        using s2(2) s1(3,4) v(2) by (auto simp: visited_def same_tree_def)
      obtain s3 where s3: "leave v s2 = Some s3" "good s3" "same_tree s2 s3" "seen s3 = seen s2"
        using leave_ok [OF t2(1,4,3)] by blast
      have step: "visited {v} s s3"
      proof -
        have k: "kids s v = cached s1 w" using w(1) g1(2) [of v] by (simp add: kids_def)
        have up: "u \<in> (edges s)\<^sup>* `` {v}" if "u \<in> (edges s)\<^sup>* `` cached s1 w" for u
          using that k by (auto simp: edges_def intro: converse_rtrancl_into_rtrancl)
        have "kids s u \<subseteq> seen s3 \<and> u \<in> (edges s)\<^sup>* `` {v}" if "u \<in> seen s3 - seen s" for u
        proof (cases "u = v")
          case True
          then show ?thesis using k s2(2) s3(4) by (auto simp: visited_def)
        next
          case False
          then have "u \<in> seen s2 - seen s1" using that s1(4) s3(4) by simp
          then show ?thesis using s2(2) s3(4) up g1(2,3) by (simp add: visited_def)
        qed
        moreover have "seen s \<subseteq> seen s3" "{v} \<subseteq> seen s3" using s2(2) s1(4) s3(4) by (auto simp: visited_def)
        ultimately show ?thesis using s3(2) same_tree_trans [OF same_tree_trans [OF s1(3) t2(2)] s3(3)]
          by (simp add: visited_def)
      qed
      moreover obtain s' where s': "go (m, rest) s3 = Some s'" "visited (cached s (m, rest)) s3 s'"
        using onward [of s3] step s3(2) by (auto simp: visited_def)
      moreover have "go (m, inos) s = Some s'"
        using go_new x(1) v Cons s1(1) w(1) s2(1) s3(1) s'(1) by simp
      ultimately show ?thesis using visited_trans [OF step s'(2)] c v(1) by simp
    qed
  qed
qed

definition start :: "nat \<Rightarrow> 'b vfs \<Rightarrow> 'b vfs option" where
  "start r s = Option.bind (visit r s) (\<lambda>s. Option.bind (below r s) (\<lambda>w. go w s))"

lemma start_visits:
  assumes "good s" and "r \<in> dom (vs_vnodes s)" and "reach s r \<inter> seen s = {}"
  shows "\<exists>s'. start r s = Some s' \<and> good s' \<and> same_tree s s' \<and> seen s' = seen s \<union> reach s r"
proof -
  obtain s1 where s1: "visit r s = Some s1" "good s1" "same_tree s s1" "seen s1 = insert r (seen s)"
    using visit_ok [OF assms(1,2)] by blast
  note g1 = same_tree_graph [OF s1(3)]
  obtain w where w: "below r s1 = Some w" "work_ok s1 w"
    using same_tree_below [OF good_tree [OF s1(2)] s1(3) assms(2)] by blast
  obtain s2 where s2: "go w s1 = Some s2" "visited (cached s1 w) s1 s2"
    using go_visits [of s1 "fst w" "snd w"] s1(2) w(2) by auto
  have k: "kids s r = cached s1 w" using w(1) g1(2) [of r] by (simp add: kids_def)
  have "v \<in> seen s2" if "(r, v) \<in> (edges s)\<^sup>*" for v using that
  proof (induction rule: rtrancl_induct)
    case base
    then show ?case using s2(2) s1(4) by (auto simp: visited_def)
  next
    case (step u v)
    then have "u \<notin> seen s" using assms(3) by (auto simp: reach_def)
    then have "kids s u \<subseteq> seen s2" using step.IH s2(2) s1(4) k g1(2) by (cases "u = r") (auto simp: visited_def)
    then show ?case using step.hyps(2) by (auto simp: edges_def)
  qed
  moreover have "v \<in> seen s \<or> (r, v) \<in> (edges s)\<^sup>*" if "v \<in> seen s2" for v
  proof (cases "v \<in> seen s1")
    case False
    then have "v \<in> (edges s1)\<^sup>* `` cached s1 w" using that s2(2) by (simp add: visited_def)
    then have "v \<in> (edges s)\<^sup>* `` kids s r" using k g1(3) by simp
    then obtain u where "u \<in> kids s r" "(u, v) \<in> (edges s)\<^sup>*" by blast
    then show ?thesis by (auto simp: edges_def intro: converse_rtrancl_into_rtrancl)
  qed (use s1(4) in auto)
  ultimately have "seen s2 = seen s \<union> reach s r" using s2(2) s1(4) by (auto simp: reach_def visited_def)
  moreover have "start r s = Some s2" using s1(1) w(1) s2(1) by (simp add: start_def)
  moreover have "same_tree s s2" using s1(3) s2(2) same_tree_trans by (auto simp: visited_def)
  ultimately show ?thesis using s2(2) by (auto simp: visited_def)
qed

end

section \<open>Marks\<close>

definition synced :: "'b vfs \<Rightarrow> nat set" where
  "synced s = {v. marked v s = Some True}"

definition unsynced :: "'b vfs \<Rightarrow> nat set" where
  "unsynced s = {v. marked v s = Some False}"

text \<open>
  The drivers' function to synchronise a vnode returns and leaves the vnodes and the mounts as
  they are; every vnode has an operation vector.
\<close>

definition quiet_sync :: "'b op_vectors \<Rightarrow> bool" where
  "quiet_sync ov \<longleftrightarrow> (\<forall>i f v s. op_sync (ov i) = Some f \<longrightarrow>
     (\<exists>r s'. f v s = Some (r, s') \<and> vs_vnodes s' = vs_vnodes s \<and> vs_mounts s' = vs_mounts s))"

definition sync_ready :: "'b op_vectors \<Rightarrow> 'b vfs \<Rightarrow> bool" where
  "sync_ready ov s \<longleftrightarrow> quiet_sync ov \<and> tree_ok s \<and> (\<forall>v \<in> dom (vs_vnodes s). v_ops (the (vs_vnodes s v)) \<noteq> None)"

lemma flag_set: "(x OR VN_FLAG_SYNC_PROC) AND VN_FLAG_SYNC_PROC \<noteq> 0"
  and flag_cleared: "(x AND NOT VN_FLAG_SYNC_PROC) AND VN_FLAG_SYNC_PROC = 0"
  by (simp_all add: word_ao_absorbs and.assoc VN_FLAG_SYNC_PROC_def)

lemma same_tree_flags:
  assumes "vs_vnodes s v = Some vp"
  shows "same_tree s (set_vnode v (vp\<lparr>v_flags := f\<rparr>) s)"
  using assms by (auto simp: same_tree_def set_vnode_def below_def child_inodes_def split: option.splits)

lemma same_tree_sync:
  assumes "vs_vnodes s' = vs_vnodes s" and "vs_mounts s' = vs_mounts s"
  shows "same_tree s s'"
  using assms by (simp add: same_tree_def below_def)

lemma sync_ready_step:
  assumes "sync_ready ov s" and "same_tree s s'" and "\<And>v. map_option v_ops (vs_vnodes s' v) = map_option v_ops (vs_vnodes s v)"
  shows "sync_ready ov s'"
proof -
  have "v_ops (the (vs_vnodes s' v)) \<noteq> None" if dom: "v \<in> dom (vs_vnodes s')" for v
  proof -
    obtain a where a: "vs_vnodes s' v = Some a" using dom by auto
    then have "map_option v_ops (vs_vnodes s v) = Some (v_ops a)" using assms(3) [of v] by simp
    then obtain b where "vs_vnodes s v = Some b" "v_ops b = v_ops a" by auto
    moreover from this(1) have "v_ops (the (vs_vnodes s v)) \<noteq> None" using assms(1) unfolding sync_ready_def by blast
    ultimately show ?thesis using a by simp
  qed
  then show ?thesis using assms(1) same_tree_graph(6) [OF assms(2)] unfolding sync_ready_def by blast
qed

lemma mark_sync_ok:
  assumes "sync_ready ov s" and "v \<in> dom (vs_vnodes s)"
  shows "\<exists>s'. mark_sync v s = Some s' \<and> sync_ready ov s' \<and> same_tree s s' \<and> synced s' = insert v (synced s)"
proof -
  obtain vp where v: "vs_vnodes s v = Some vp" using assms(2) by auto
  let ?s = "set_vnode v (vp\<lparr>v_flags := v_flags vp OR VN_FLAG_SYNC_PROC\<rparr>) s"
  have "synced ?s = insert v (synced s)" using flag_set by (auto simp: synced_def marked_def set_vnode_def)
  moreover have "sync_ready ov ?s"
    using assms(1) same_tree_flags [OF v] v by (intro sync_ready_step [OF assms(1)]) (auto simp: set_vnode_def)
  ultimately show ?thesis using v same_tree_flags [OF v] by (simp add: mark_sync_def)
qed

lemma clear_sync_ok:
  assumes "sync_ready ov s" and "v \<in> dom (vs_vnodes s)"
  shows "\<exists>s'. clear_sync v s = Some s' \<and> sync_ready ov s' \<and> same_tree s s' \<and> unsynced s' = insert v (unsynced s)"
proof -
  obtain vp where v: "vs_vnodes s v = Some vp" using assms(2) by auto
  let ?s = "set_vnode v (vp\<lparr>v_flags := v_flags vp AND NOT VN_FLAG_SYNC_PROC\<rparr>) s"
  have "unsynced ?s = insert v (unsynced s)" using flag_cleared by (auto simp: unsynced_def marked_def set_vnode_def)
  moreover have "sync_ready ov ?s"
    using assms(1) same_tree_flags [OF v] v by (intro sync_ready_step [OF assms(1)]) (auto simp: set_vnode_def)
  ultimately show ?thesis using v same_tree_flags [OF v] by (simp add: clear_sync_def)
qed

lemma sync_one_ok:
  assumes "sync_ready ov s" and "v \<in> dom (vs_vnodes s)"
  shows "\<exists>s'. sync_one ov v s = Some s' \<and> sync_ready ov s' \<and> same_tree s s' \<and> synced s' = insert v (synced s)"
proof -
  obtain vp where v: "vs_vnodes s v = Some vp" using assms(2) by auto
  have "v_ops (the (vs_vnodes s v)) \<noteq> None" using assms unfolding sync_ready_def by blast
  then obtain i where i: "v_ops vp = Some i" using v by auto
  have "\<exists>r s'. vfs_sync ov v s = Some (r, s') \<and> vs_vnodes s' = vs_vnodes s \<and> vs_mounts s' = vs_mounts s"
    using assms(1) v i unfolding sync_ready_def quiet_sync_def
    by (cases "op_sync (ov i)") (auto simp: vfs_sync_def vop_defs split: sum.splits)
  then obtain r s' where s': "vfs_sync ov v s = Some (r, s')" "vs_vnodes s' = vs_vnodes s" "vs_mounts s' = vs_mounts s" by blast
  have t: "same_tree s s'" using same_tree_sync s'(2,3) by blast
  have "synced s' = synced s" using s'(2) by (simp add: synced_def marked_def)
  moreover have "sync_ready ov s'" using s'(2) by (intro sync_ready_step [OF assms(1) t]) simp
  ultimately show ?thesis using mark_sync_ok [of ov s' v] v s' same_tree_trans [OF t] by (auto simp: sync_one_def)
qed

interpretation sy: traversal "sync_children ov" "sync_one ov" mark_sync synced "sync_ready ov" for ov
proof (unfold_locales, goal_cases)
  case (1 m s)
  then show ?case by (simp add: sync_children.simps)
next
  case (2 m ino s inos)
  then show ?case by (simp add: sync_children.simps [of _ "(m, ino # inos)"])
next
  case (3 m ino s v inos)
  then show ?case by (simp add: sync_children.simps [of _ "(m, ino # inos)"] synced_def)
next
  case (4 m ino s v inos)
  then have "marked v s = Some False" by (auto simp: synced_def marked_def)
  then show ?case using 4 by (simp add: sync_children.simps [of _ "(m, ino # inos)"])
next
  case (5 s)
  then show ?case by (simp add: sync_ready_def)
next
  case (6 s v)
  then show ?case by (rule sync_one_ok)
next
  case (7 s v)
  then show ?case using mark_sync_ok by (metis insert_absorb)
qed

interpretation us: traversal unmark_children clear_sync "\<lambda>v. Some" unsynced "sync_ready ov" for ov
proof (unfold_locales, goal_cases)
  case (1 m s)
  then show ?case by (simp add: unmark_children.simps)
next
  case (2 m ino s inos)
  then show ?case by (simp add: unmark_children.simps [of "(m, ino # inos)"])
next
  case (3 m ino s v inos)
  then show ?case by (simp add: unmark_children.simps [of "(m, ino # inos)"] unsynced_def)
next
  case (4 m ino s v inos)
  then have "marked v s = Some True" by (auto simp: unsynced_def marked_def)
  then show ?case using 4 by (simp add: unmark_children.simps [of "(m, ino # inos)"])
next
  case (5 s)
  then show ?case by (simp add: sync_ready_def)
next
  case (6 s v)
  then show ?case by (rule clear_sync_ok)
qed simp

lemma synced_dom: "synced s = dom (vs_vnodes s) - unsynced s" and unsynced_dom: "unsynced s = dom (vs_vnodes s) - synced s"
  by (auto simp: synced_def unsynced_def marked_def)

text \<open>
  C23: The first pass of \<open>sys_sync\<close> terminates on every graph of cached vnodes, shared and cyclic
  ones included, and it marks exactly the vnodes that are reached from the root through cached
  children, when no vnode is marked before.\<close>

theorem sync_visits_reachable:
  assumes "sync_ready ov s" and "r \<in> dom (vs_vnodes s)" and "synced s = {}"
  shows "\<exists>s'. sync_recurse_vnode ov r s = Some s' \<and> synced s' = reach s r \<and> same_tree s s'"
  using sy.start_visits [OF assms(1,2)] assms(3) by (auto simp: sy.start_def sync_recurse_vnode_def)

lemma sync_then_unmark:
  assumes "sync_ready ov s" and "r \<in> dom (vs_vnodes s)" and "synced s = {}"
  shows "\<exists>s1 s2. sync_recurse_vnode ov r s = Some s1 \<and> unmark_sync_proc r s1 = Some s2 \<and> sync_ready ov s2 \<and>
    same_tree s s2 \<and> synced s2 = {}"
proof -
  obtain s1 where s1: "sync_recurse_vnode ov r s = Some s1" "sync_ready ov s1" "same_tree s s1" "synced s1 = reach s r"
    using sy.start_visits [OF assms(1,2)] assms(3) by (auto simp: sy.start_def sync_recurse_vnode_def)
  have dom: "dom (vs_vnodes s1) = dom (vs_vnodes s)" using s1(3) by (simp add: same_tree_def)
  have reach: "reach s1 r = synced s1" using same_tree_graph(4) [OF s1(3)] s1(4) by simp
  then have "reach s1 r \<inter> unsynced s1 = {}" using unsynced_dom [of s1] by auto
  then obtain s2 where s2: "unmark_sync_proc r s1 = Some s2" "sync_ready ov s2" "same_tree s1 s2"
    "unsynced s2 = unsynced s1 \<union> reach s1 r"
    using us.start_visits [OF s1(2), of r] assms(2) dom by (auto simp: us.start_def unmark_sync_proc_def)
  have "dom (vs_vnodes s2) = dom (vs_vnodes s1)" using s2(3) by (simp add: same_tree_def)
  then have "synced s2 = {}" using synced_dom [of s2] s2(4) reach unsynced_dom [of s1] by auto
  then show ?thesis using s1(1) s2 same_tree_trans [OF s1(3) s2(3)] by blast
qed

definition quiet_flush :: "(nat \<Rightarrow> ('b vfs \<Rightarrow> 'b vfs option) option) \<Rightarrow> bool" where
  "quiet_flush flush \<longleftrightarrow>
     (\<forall>m f s. flush m = Some f \<longrightarrow> (\<exists>s'. f s = Some s' \<and> vs_vnodes s' = vs_vnodes s \<and> vs_mounts s' = vs_mounts s))"

lemma vfs_flush_ok:
  assumes "quiet_flush flush" and "sync_ready ov s"
  shows "\<exists>s'. vfs_flush flush m s = Some s' \<and> sync_ready ov s' \<and> same_tree s s' \<and> synced s' = synced s"
proof (cases "flush m")
  case None
  then show ?thesis using assms(2) by (simp add: vfs_flush_def)
next
  case (Some f)
  then obtain s' where s': "f s = Some s'" "vs_vnodes s' = vs_vnodes s" "vs_mounts s' = vs_mounts s"
    using assms(1) unfolding quiet_flush_def by blast
  have t: "same_tree s s'" using same_tree_sync s'(2,3) by blast
  have "sync_ready ov s'" using s'(2) by (intro sync_ready_step [OF assms(2) t]) simp
  then show ?thesis using Some s' t by (simp add: vfs_flush_def synced_def marked_def)
qed

text \<open>
  C24: \<open>sys_sync\<close> returns and clears every mark it has set, on all mounts, so that the next call
  visits every vnode again. The drivers are assumed to return and to leave the vnodes and mounts
  alone; the roots of the mounts exist, and cached entries refer to existing vnodes.\<close>

theorem sys_sync_returns:
  assumes "sync_ready ov s" and "synced s = {}" and "quiet_flush flush"
    and "\<forall>m \<in> set (mount_table s). \<exists>r. mt_root_vnode (vs_mounts s m) = Some r \<and> r \<in> dom (vs_vnodes s)"
  shows "\<exists>s'. sys_sync ov flush s = Some s' \<and> synced s' = {} \<and> same_tree s s'"
proof -
  have "\<exists>s'. sync_mounts ov flush ms s = Some s' \<and> synced s' = {} \<and> same_tree s s'"
    if "\<forall>m \<in> set ms. \<exists>r. mt_root_vnode (vs_mounts s m) = Some r \<and> r \<in> dom (vs_vnodes s)" for ms
    using assms(1,2) that
  proof (induction ms arbitrary: s)
    case Nil
    then show ?case by simp
  next
    case (Cons m ms)
    obtain s1 where s1: "vfs_flush flush m s = Some s1" "sync_ready ov s1" "same_tree s s1" "synced s1 = {}"
      using vfs_flush_ok [OF assms(3) Cons.prems(1)] Cons.prems(2) by metis
    obtain r where r: "mt_root_vnode (vs_mounts s1 m) = Some r" "r \<in> dom (vs_vnodes s1)"
      using Cons.prems(3) s1(3) by (auto simp: same_tree_def)
    obtain s2 s3 where s3: "sync_recurse_vnode ov r s1 = Some s2" "unmark_sync_proc r s2 = Some s3" "sync_ready ov s3"
      "same_tree s1 s3" "synced s3 = {}" using sync_then_unmark [OF s1(2) r(2) s1(4)] by blast
    have t: "same_tree s s3" using same_tree_trans s1(3) s3(4) by blast
    then have "\<forall>m \<in> set ms. \<exists>r. mt_root_vnode (vs_mounts s3 m) = Some r \<and> r \<in> dom (vs_vnodes s3)"
      using Cons.prems(3) by (simp add: same_tree_def)
    then obtain s' where "sync_mounts ov flush ms s3 = Some s'" "synced s' = {}" "same_tree s3 s'"
      using Cons.IH [OF s3(3,5)] by blast
    then show ?case using s1(1) r(1) s3(1,2) same_tree_trans [OF t] by auto
  qed
  then show ?thesis using assms(4) by (simp add: sys_sync_def)
qed

text \<open>Two directories that are children of each other, on the only mount.\<close>

definition cycle_ops :: "'b vfs vnode_ops" where
  "cycle_ops = owner_ops\<lparr>op_sync := Some (\<lambda>v. ok ())\<rparr>"

definition cycle_dir :: "u64 \<Rightarrow> vfs_vnode" where
  "cycle_dir ino = demo_dir\<lparr>v_children :=
     Some \<lparr>buckets = [[\<lparr>ekey = [97], evalue = ino, estate = Live\<rparr>]], bucket_count = 1, object_count = 1\<rparr>\<rparr>"

definition cycle_tree :: "unit vfs" where
  "cycle_tree = root_only\<lparr>vs_vnodes := [0 \<mapsto> cycle_dir 5, 1 \<mapsto> cycle_dir 2], mount_table := [0],
     vs_mounts := (\<lambda>_. mount_zero\<lparr>mt_root_vnode := Some 0, mt_vcache :=
       \<lparr>buckets = [[\<lparr>ekey = 5, evalue = 1, estate = Live\<rparr>, \<lparr>ekey = 2, evalue = 0, estate = Live\<rparr>]],
        bucket_count = 1, object_count = 2\<rparr>\<rparr>)\<rparr>"

lemma cycle_below: "below 0 cycle_tree = Some (Some 0, [5])" "below (Suc 0) cycle_tree = Some (Some 0, [2])"
  by (simp_all add: below_def cycle_tree_def cycle_dir_def child_inodes_def strmap_iterate_def demo_dir_def)

lemma cycle_lookup: "vnode_lookup_cache (Some 0) 5 cycle_tree = Some (Some 1)" "vnode_lookup_cache (Some 0) 2 cycle_tree = Some (Some 0)"
  by (simp_all add: cycle_tree_def vnode_lookup_cache_def hashmap_lookup_def map_lookup_def bucket_index_def)

lemma cycle_dom: "dom (vs_vnodes cycle_tree) = {0, 1}"
  by (auto simp: cycle_tree_def)

lemma cycle_ready: "sync_ready (\<lambda>_. cycle_ops) cycle_tree" "synced cycle_tree = {}"
proof -
  have "tree_ok cycle_tree"
    using cycle_below cycle_lookup by (simp add: tree_ok_def cycle_dom work_ok_def)
  moreover have "quiet_sync (\<lambda>_. cycle_ops)" by (simp add: quiet_sync_def cycle_ops_def ok_def)
  moreover have "v_ops (the (vs_vnodes cycle_tree v)) \<noteq> None" if "v \<in> {0, 1}" for v
    using that by (auto simp: cycle_tree_def cycle_dir_def demo_dir_def vnode_zero_def)
  ultimately show "sync_ready (\<lambda>_. cycle_ops) cycle_tree" by (simp add: sync_ready_def cycle_dom)
  show "synced cycle_tree = {}"
    by (auto simp: synced_def marked_def cycle_tree_def cycle_dir_def demo_dir_def vnode_zero_def split: if_splits)
qed

theorem sync_visits_reachable_witness:
  "\<exists>s. sync_recurse_vnode (\<lambda>_. cycle_ops) 0 cycle_tree = Some s \<and> {0, 1} \<subseteq> synced s"
proof -
  have "1 \<in> kids cycle_tree 0" using cycle_below cycle_lookup by (simp add: kids_def cached_def)
  then have "(0, 1) \<in> edges cycle_tree" by (simp add: edges_def)
  then have "{0, 1} \<subseteq> reach cycle_tree 0" by (auto simp: reach_def)
  then show ?thesis using sync_visits_reachable [OF cycle_ready(1), of 0] cycle_ready(2) cycle_dom by auto
qed

theorem sys_sync_returns_witness:
  "\<exists>s. sys_sync (\<lambda>_. cycle_ops) (\<lambda>_. Some Some) cycle_tree = Some s \<and> synced s = {}"
proof -
  have "quiet_flush (\<lambda>_. Some Some)" by (simp add: quiet_flush_def)
  moreover have "\<forall>m \<in> set (mount_table cycle_tree). \<exists>r. mt_root_vnode (vs_mounts cycle_tree m) = Some r \<and> r \<in> dom (vs_vnodes cycle_tree)"
    by (simp add: cycle_dom) (simp add: cycle_tree_def)
  ultimately show ?thesis using sys_sync_returns [OF cycle_ready] by blast
qed

end
