(* ===== verification/Pml_Tty.thy ===== *)
theory Pml_Tty
  imports Pml_Prelude
begin

text \<open>
  Terminals: the screen with its cursor and the line discipline (drivers/tty.c), the VGA text
  mode backend (drivers/vgatext.c), the device functions for reading and writing
  (drivers/ttydev.c) and the control requests (drivers/ioctl.c). There is one terminal, the
  kernel's, and it is the current one; its output functions are those of the VGA backend.

  An operation has the result \<open>None\<close> when it accesses memory outside of an array or waits for
  input for ever. Port output, signals and the system bell are recorded in the state.
\<close>

section \<open>State\<close>

definition TTY_INPUT_BUFFER_SIZE :: nat where "TTY_INPUT_BUFFER_SIZE = 1024"
definition TTY_FLAG_LITERAL_INPUT :: u32 where "TTY_FLAG_LITERAL_INPUT = 1"
definition TTY_FLAG_FLUSH :: u32 where "TTY_FLAG_FLUSH = 2"
definition TTY_FLAG_EXCL :: u32 where "TTY_FLAG_EXCL = 4"
definition VGA_TEXT_SCREEN_WIDTH :: nat where "VGA_TEXT_SCREEN_WIDTH = 80"
definition VGA_TEXT_SCREEN_HEIGHT :: nat where "VGA_TEXT_SCREEN_HEIGHT = 25"
definition VGA_TEXT_SCREEN_SIZE :: nat where "VGA_TEXT_SCREEN_SIZE = VGA_TEXT_SCREEN_WIDTH * VGA_TEXT_SCREEN_HEIGHT"
definition VGA_PORT_INDEX :: u16 where "VGA_PORT_INDEX = 0x3d4"
definition VGA_PORT_DATA :: u16 where "VGA_PORT_DATA = 0x3d5"

definition VINTR :: nat where "VINTR = 0"
definition VQUIT :: nat where "VQUIT = 1"
definition VERASE :: nat where "VERASE = 2"
definition VKILL :: nat where "VKILL = 3"
definition VEOF :: nat where "VEOF = 4"
definition VTIME :: nat where "VTIME = 5"
definition VMIN :: nat where "VMIN = 6"
definition VSUSP :: nat where "VSUSP = 9"
definition VEOL :: nat where "VEOL = 10"
definition VREPRINT :: nat where "VREPRINT = 11"
definition VWERASE :: nat where "VWERASE = 13"
definition VLNEXT :: nat where "VLNEXT = 14"
definition VEOL2 :: nat where "VEOL2 = 15"
definition IMAXBEL :: u32 where "IMAXBEL = 0x2000"
definition ISIG :: u32 where "ISIG = 1"
definition ICANON :: u32 where "ICANON = 2"
definition ECHO :: u32 where "ECHO = 8"
definition ECHOE :: u32 where "ECHOE = 16"
definition ECHOK :: u32 where "ECHOK = 32"
definition ECHONL :: u32 where "ECHONL = 64"
definition ECHOCTL :: u32 where "ECHOCTL = 128"
definition ECHOKE :: u32 where "ECHOKE = 512"
definition TOSTOP :: u32 where "TOSTOP = 0x2000"
definition IEXTEN :: u32 where "IEXTEN = 0x8000"
definition SIGINT :: int where "SIGINT = 2"
definition SIGQUIT :: int where "SIGQUIT = 3"
definition SIGTSTP :: int where "SIGTSTP = 20"
definition SIGTTOU :: int where "SIGTTOU = 22"
definition SIGWINCH :: int where "SIGWINCH = 28"

record termios =
  c_iflag :: u32
  c_oflag :: u32
  c_cflag :: u32
  c_lflag :: u32
  c_cc :: "u8 list"

record tty =
  tt_color :: u8
  tt_width :: nat
  tt_height :: nat
  tt_x :: nat
  tt_y :: nat
  tt_screen :: "u16 list"
  tt_flags :: u32
  tt_pgid :: int
  tt_sid :: int
  tt_buffer :: "u8 list"
  tt_start :: nat
  tt_end :: nat
  tt_termios :: termios

text \<open>Signals that were sent: to a process or process group by number, and to the calling process.\<close>

datatype signal_sent = Kill int int | Killpg int int | Send_self int

text \<open>The terminal, the memory of the display, and what has been sent to ports, processes and the bell.\<close>

record console = tty +
  vga_text_buffer :: "u16 list"
  con_ports :: "(u8 \<times> u16) list"
  con_kills :: "signal_sent list"
  con_beeps :: nat

definition has :: "u32 \<Rightarrow> u32 \<Rightarrow> bool" where
  "has flags f \<longleftrightarrow> flags AND f \<noteq> 0"

definition lflag :: "console \<Rightarrow> u32 \<Rightarrow> bool" where
  "lflag s f = has (c_lflag (tt_termios s)) f"

definition CHAR_MATCH :: "u8 \<Rightarrow> termios \<Rightarrow> nat \<Rightarrow> bool" where
  "CHAR_MATCH c tp x \<longleftrightarrow> c = c_cc tp ! x \<and> c_cc tp ! x \<noteq> 0xff"

definition isspace :: "u8 \<Rightarrow> bool" where
  "isspace c \<longleftrightarrow> c = 32 \<or> c = 9 \<or> c = 10 \<or> c = 11 \<or> c = 12 \<or> c = 13"

definition iscntrl :: "u8 \<Rightarrow> bool" where
  "iscntrl c \<longleftrightarrow> c < 32 \<or> c = 127"

section \<open>The VGA text backend\<close>

definition vga_text_entry :: "u8 \<Rightarrow> u8 \<Rightarrow> u16" where
  "vga_text_entry c color = ucast c OR push_bit 8 (ucast color)"

definition vga_text_index :: "nat \<Rightarrow> nat \<Rightarrow> nat" where
  "vga_text_index x y = (y * VGA_TEXT_SCREEN_WIDTH + x) mod 2 ^ 32"

definition vga_text_write_char :: "nat \<Rightarrow> nat \<Rightarrow> u8 \<Rightarrow> console \<Rightarrow> console option" where
  "vga_text_write_char x y c s =
     (let i = vga_text_index x y; entry = vga_text_entry c (tt_color s) in
      if i < length (tt_screen s) \<and> i < length (vga_text_buffer s)
      then Some (s\<lparr>tt_screen := (tt_screen s)[i := entry], vga_text_buffer := (vga_text_buffer s)[i := entry]\<rparr>)
      else None)"

definition vga_text_clear :: "console \<Rightarrow> console option" where
  "vga_text_clear s =
     (if length (tt_screen s) = VGA_TEXT_SCREEN_SIZE \<and> length (vga_text_buffer s) = VGA_TEXT_SCREEN_SIZE
      then let b = replicate VGA_TEXT_SCREEN_SIZE (vga_text_entry 32 (tt_color s)) in
           Some (s\<lparr>tt_screen := b, vga_text_buffer := b\<rparr>)
      else None)"

definition vga_text_update_cursor :: "console \<Rightarrow> console" where
  "vga_text_update_cursor s =
     (let pos = word_of_nat (vga_text_index (tt_x s) (tt_y s)) :: u16 in
      s\<lparr>con_ports := con_ports s @ [(0x0f, VGA_PORT_INDEX), (ucast pos, VGA_PORT_DATA),
          (0x0e, VGA_PORT_INDEX), (ucast (drop_bit 8 pos), VGA_PORT_DATA)]\<rparr>)"

fun blank_cells :: "nat list \<Rightarrow> nat \<Rightarrow> console \<Rightarrow> console option" where
  "blank_cells [] y s = Some s"
| "blank_cells (x # xs) y s = Option.bind (vga_text_write_char x y 32 s) (blank_cells xs y)"

definition vga_text_scroll_down :: "console \<Rightarrow> console option" where
  "vga_text_scroll_down s =
     (let w = VGA_TEXT_SCREEN_WIDTH; n = VGA_TEXT_SCREEN_SIZE; scr = tt_screen s in
      if length scr < n \<or> length (vga_text_buffer s) < n then None
      else let s = s\<lparr>tt_screen := drop w (take n scr) @ drop (n - w) scr\<rparr> in
           map_option (\<lambda>s. s\<lparr>vga_text_buffer := take n (tt_screen s) @ drop n (vga_text_buffer s)\<rparr>)
             (blank_cells [0..<w] (VGA_TEXT_SCREEN_HEIGHT - 1) s))"

definition vga_text_erase_char :: "console \<Rightarrow> console option" where
  "vga_text_erase_char s =
     (if tt_x s \<noteq> 0
      then let s = s\<lparr>tt_x := tt_x s - 1\<rparr> in
           map_option vga_text_update_cursor (vga_text_write_char (tt_x s) (tt_y s) 32 s)
      else Some s)"

fun erase_cells :: "nat \<Rightarrow> console \<Rightarrow> console option" where
  "erase_cells 0 s = Some s"
| "erase_cells (Suc n) s =
     (let s = s\<lparr>tt_x := tt_x s - 1\<rparr> in Option.bind (vga_text_write_char (tt_x s) (tt_y s) 32 s) (erase_cells n))"

definition vga_text_erase_line :: "nat \<Rightarrow> console \<Rightarrow> console option" where
  "vga_text_erase_line len s = map_option vga_text_update_cursor (erase_cells (min len (tt_x s)) s)"

text \<open>The control characters that \<open>vga_text_init\<close> sets; the others keep their values.\<close>

definition default_cc :: "u8 list \<Rightarrow> u8 list" where
  "default_cc cc = [0x03, 0x1c, 0x1f, 0x15, 0x04, 0, 1, 0x11, 0x13, 0x1a, 0xff, 0x12, 0x0f, 0x17, 0x16, 0xff] @ drop 16 cc"

definition vga_text_init :: "console \<Rightarrow> console option" where
  "vga_text_init s =
     map_option (\<lambda>s. s\<lparr>tt_termios := \<lparr>c_iflag = 0x2d22, c_oflag = 0x1805, c_cflag = 0x5af, c_lflag = 0x829b, c_cc = default_cc (c_cc (tt_termios s))\<rparr>\<rparr>)
       (vga_text_clear (s\<lparr>tt_color := 7, tt_width := VGA_TEXT_SCREEN_WIDTH, tt_height := VGA_TEXT_SCREEN_HEIGHT,
          tt_screen := replicate VGA_TEXT_SCREEN_SIZE 0\<rparr>))"

section \<open>Output\<close>

definition tty_wrap :: "console \<Rightarrow> console option" where
  "tty_wrap s =
     (if tt_y s + 1 = tt_height s
      then map_option (\<lambda>s. s\<lparr>tt_y := tt_y s - 1\<rparr>) (vga_text_scroll_down (s\<lparr>tt_y := tt_y s + 1\<rparr>))
      else Some (s\<lparr>tt_y := tt_y s + 1\<rparr>))"

definition tty_advance :: "console \<Rightarrow> console option" where
  "tty_advance s =
     (if tt_x s + 1 = tt_width s then tty_wrap (s\<lparr>tt_x := 0\<rparr>) else Some (s\<lparr>tt_x := tt_x s + 1\<rparr>))"

text \<open>A tab sets the three low bits of the column.\<close>

definition tty_putchar :: "u8 \<Rightarrow> console \<Rightarrow> console option" where
  "tty_putchar c s =
     (if c = 0 then Some s
      else if c = 13 then Some (vga_text_update_cursor (s\<lparr>tt_x := 0\<rparr>))
      else map_option vga_text_update_cursor
        (if c = 10 then tty_wrap (s\<lparr>tt_x := 0\<rparr>)
         else if c = 11 \<or> c = 12 then tty_wrap s
         else if c = 9 then tty_advance (s\<lparr>tt_x := tt_x s div 8 * 8 + 7\<rparr>)
         else Option.bind (vga_text_write_char (tt_x s) (tt_y s) c s) tty_advance))"

definition tty_output_byte :: "u8 \<Rightarrow> nat \<Rightarrow> console \<Rightarrow> console option" where
  "tty_output_byte c len s =
     (let tp = tt_termios s in
      if lflag s ICANON \<and> CHAR_MATCH c tp VERASE \<and> lflag s ECHOE
      then (if len \<noteq> 0 then vga_text_erase_char s else Some s)
      else if lflag s ICANON \<and> CHAR_MATCH c tp VWERASE \<and> lflag s ECHOE then vga_text_erase_line len s
      else if lflag s ICANON \<and> CHAR_MATCH c tp VWERASE \<and> lflag s (ECHOK OR ECHOKE) then vga_text_erase_line len s
      else if c = 10 \<or> c = 9 then tty_putchar c s
      else if iscntrl c \<and> lflag s ECHOCTL
      then (if \<not> CHAR_MATCH c tp VEOF \<or> tt_x s \<noteq> 0
            then Option.bind (tty_putchar 94 s) (tty_putchar (c + 0x40)) else Some s)
      else tty_putchar c s)"

section \<open>Input\<close>

definition tty_recv :: "u8 \<Rightarrow> console \<Rightarrow> console option" where
  "tty_recv c s =
     (let s = (if tt_end s \<ge> TTY_INPUT_BUFFER_SIZE - 1 \<and> tt_start s \<noteq> 0
               then s\<lparr>tt_buffer := take (tt_end s - tt_start s) (drop (tt_start s) (tt_buffer s)) @ drop (tt_end s - tt_start s) (tt_buffer s),
                      tt_end := tt_end s - tt_start s, tt_start := 0\<rparr>
               else s) in
      if tt_end s \<ge> TTY_INPUT_BUFFER_SIZE - 1 \<and> (\<not> lflag s ICANON \<or> c \<noteq> 10)
      then Some (if has (c_iflag (tt_termios s)) IMAXBEL then s\<lparr>con_beeps := con_beeps s + 1\<rparr> else s)
      else if tt_end s < length (tt_buffer s)
      then Some (s\<lparr>tt_buffer := (tt_buffer s)[tt_end s := c], tt_end := tt_end s + 1\<rparr>)
      else None)"

definition tty_flush_input_line :: "u8 \<Rightarrow> console \<Rightarrow> console option" where
  "tty_flush_input_line delim s =
     map_option (\<lambda>s. s\<lparr>tt_flags := tt_flags s OR TTY_FLAG_FLUSH\<rparr>) (if delim \<noteq> 0 then tty_recv delim s else Some s)"

definition tty_erase_input :: "console \<Rightarrow> (nat \<times> console) option" where
  "tty_erase_input s =
     (if tt_end s = 0 then Some (0, s)
      else if tt_end s - 1 \<ge> length (tt_buffer s) then None
      else if CHAR_MATCH (tt_buffer s ! (tt_end s - 1)) (tt_termios s) VEOF then Some (0, s)
      else Some (1, s\<lparr>tt_end := tt_end s - 1\<rparr>))"

text \<open>
  The index is an int that is compared as an unsigned number, so a negative one passes the test
  of the loops and the byte in front of the buffer is read.
\<close>

function erase_scan :: "(u8 \<Rightarrow> bool) \<Rightarrow> u8 list \<Rightarrow> nat \<Rightarrow> int \<Rightarrow> int option" where
  "erase_scan P buf start i =
     (if i < 0 then None
      else if nat i < start then Some i
      else if nat i \<ge> length buf then None
      else if P (buf ! nat i) then erase_scan P buf start (i - 1)
      else Some i)"
  by pat_completeness auto

termination
  by (relation "measure (\<lambda>(P, buf, start, i). nat (i + 1))") auto

declare erase_scan.simps [simp del]

definition tty_erase_input_word :: "console \<Rightarrow> (nat \<times> console) option" where
  "tty_erase_input_word s =
     (let eof = (\<lambda>c. CHAR_MATCH c (tt_termios s) VEOF) in
      Option.bind (erase_scan (\<lambda>c. isspace c \<and> \<not> eof c) (tt_buffer s) (tt_start s) (int (tt_end s) - 1)) (\<lambda>i.
        map_option (\<lambda>i. let e = (if i < 0 then 0 else nat (i + 1)) in (tt_end s - e, s\<lparr>tt_end := e\<rparr>))
          (erase_scan (\<lambda>c. \<not> isspace c \<and> \<not> eof c) (tt_buffer s) (tt_start s) i)))"

text \<open>\<open>memrchr\<close>: the last occurrence among the first \<open>n\<close> bytes.\<close>

fun last_index :: "u8 \<Rightarrow> u8 list \<Rightarrow> nat \<Rightarrow> nat option" where
  "last_index c buf 0 = None"
| "last_index c buf (Suc n) = (if buf ! n = c then Some n else last_index c buf n)"

definition tty_kill_input :: "console \<Rightarrow> nat \<times> console" where
  "tty_kill_input s =
     (let eof = c_cc (tt_termios s) ! VEOF;
          ptr = (if eof = 0xff then None else last_index eof (tt_buffer s) (tt_end s))
      in case ptr of
           Some p \<Rightarrow> if p < tt_start s then (tt_end s - tt_start s, s\<lparr>tt_start := 0, tt_end := 0\<rparr>)
                     else (tt_end s - p, s\<lparr>tt_end := p\<rparr>)
         | None \<Rightarrow> (tt_end s - tt_start s, s\<lparr>tt_start := 0, tt_end := 0\<rparr>))"

text \<open>The loop of \<open>tty_reprint_input\<close> tests the end of the input and not the index.\<close>

function reprint_loop :: "nat \<Rightarrow> console \<Rightarrow> console option" where
  "reprint_loop i s =
     (if tt_end s = 0 then Some s
      else if i \<ge> TTY_INPUT_BUFFER_SIZE then None
      else Option.bind (tty_output_byte (tt_buffer s ! i) 0 s) (reprint_loop (i + 1)))"
  by pat_completeness auto

termination
  by (relation "measure (\<lambda>(i, s). TTY_INPUT_BUFFER_SIZE - i)") auto

declare reprint_loop.simps [simp del]

definition tty_reprint_input :: "console \<Rightarrow> console option" where
  "tty_reprint_input s = reprint_loop (tt_start s) s"

text \<open>The echo at the end of \<open>tty_input_byte\<close>.\<close>

definition echo_byte :: "u8 \<Rightarrow> nat \<Rightarrow> console \<Rightarrow> console option" where
  "echo_byte c len s =
     (if lflag s ECHO then tty_output_byte c len s
      else if c = 10 \<and> lflag s ECHONL then tty_output_byte 10 len s
      else Some s)"

definition raw_byte :: "u8 \<Rightarrow> console \<Rightarrow> console option" where
  "raw_byte c s = Option.bind (tty_recv c s) (echo_byte c 0)"

definition input_signal :: "u8 \<Rightarrow> termios \<Rightarrow> int" where
  "input_signal c tp =
     (if CHAR_MATCH c tp VINTR then SIGINT else if CHAR_MATCH c tp VSUSP then SIGTSTP
      else if CHAR_MATCH c tp VQUIT then SIGQUIT else 0)"

definition signal_or_raw :: "u8 \<Rightarrow> console \<Rightarrow> console option" where
  "signal_or_raw c s =
     (let sig = (if lflag s ISIG then input_signal c (tt_termios s) else 0) in
      if sig \<noteq> 0 then Some (s\<lparr>con_kills := con_kills s @ [Kill (- tt_pgid s) sig]\<rparr>) else raw_byte c s)"

definition tty_input_byte :: "u8 \<Rightarrow> console \<Rightarrow> console option" where
  "tty_input_byte c s =
     (let tp = tt_termios s in
      if has (tt_flags s) TTY_FLAG_LITERAL_INPUT
      then raw_byte c (s\<lparr>tt_flags := tt_flags s AND NOT TTY_FLAG_LITERAL_INPUT\<rparr>)
      else if \<not> lflag s ICANON then signal_or_raw c s
      else if c = 10 \<or> CHAR_MATCH c tp VEOL \<or> CHAR_MATCH c tp VEOL2
      then Option.bind (tty_flush_input_line c s) (echo_byte c 0)
      else if CHAR_MATCH c tp VEOF \<and> tt_end s = 0 then Option.bind (tty_flush_input_line 0 s) (echo_byte c 0)
      else if CHAR_MATCH c tp VERASE then Option.bind (tty_erase_input s) (\<lambda>(len, s). echo_byte c len s)
      else if CHAR_MATCH c tp VKILL then (case tty_kill_input s of (len, s) \<Rightarrow> echo_byte c len s)
      else if lflag s IEXTEN \<and> CHAR_MATCH c tp VWERASE
      then Option.bind (tty_erase_input_word s) (\<lambda>(len, s). echo_byte c len s)
      else if lflag s IEXTEN \<and> CHAR_MATCH c tp VREPRINT then Option.bind (tty_reprint_input s) (echo_byte c 0)
      else if lflag s IEXTEN \<and> CHAR_MATCH c tp VLNEXT
      then echo_byte c 0 (s\<lparr>tt_flags := tt_flags s OR TTY_FLAG_LITERAL_INPUT\<rparr>)
      else signal_or_raw c s)"

section \<open>The device\<close>

text \<open>Reading one byte, from the label \<open>ready\<close> on: the value returned and the byte.\<close>

definition read_ready :: "console \<Rightarrow> (int \<times> u8 option \<times> console) option" where
  "read_ready s =
     (if tt_start s = tt_end s then Some (0, None, s\<lparr>tt_flags := tt_flags s AND NOT TTY_FLAG_FLUSH\<rparr>)
      else if tt_start s \<ge> length (tt_buffer s) then None
      else let c = tt_buffer s ! tt_start s in
           if tt_start s + 1 = tt_end s
           then Some (2, Some c, s\<lparr>tt_start := 0, tt_end := 0, tt_flags := tt_flags s AND NOT TTY_FLAG_FLUSH\<rparr>)
           else Some (1, Some c, s\<lparr>tt_start := tt_start s + 1\<rparr>))"

text \<open>
  The loops that wait up to a number of ticks test whether the time has already passed, so they
  end at once. A loop that waits for input that has not come is not left.
\<close>

definition tty_device_read :: "console \<Rightarrow> (int \<times> u8 option \<times> console) option" where
  "tty_device_read s =
     (let vmin = unat (c_cc (tt_termios s) ! VMIN); time = unat (c_cc (tt_termios s) ! VTIME);
          avail = (int (tt_end s) - int (tt_start s)) mod 2 ^ 64
      in if lflag s ICANON then (if has (tt_flags s) TTY_FLAG_FLUSH then read_ready s else None)
         else if vmin = 0 \<and> time = 0 then (if tt_end s > tt_start s then read_ready s else Some (0, None, s))
         else if vmin \<noteq> 0 \<and> time = 0 then (if avail < int vmin then None else read_ready s)
         else if vmin = 0 then (if tt_start s = tt_end s then Some (0, None, s) else read_ready s)
         else read_ready s)"

text \<open>\<open>pgid\<close> is the process group of the process that writes.\<close>

definition tty_device_write :: "int \<Rightarrow> u8 \<Rightarrow> console \<Rightarrow> ((errno + int) \<times> console) option" where
  "tty_device_write pgid c s =
     (if lflag s TOSTOP \<and> pgid \<noteq> tt_pgid s
      then Some (Inl EINTR, s\<lparr>con_kills := con_kills s @ [Send_self SIGTTOU]\<rparr>)
      else map_option (\<lambda>s. (Inr 1, s)) (tty_output_byte c 0 s))"

section \<open>Control requests\<close>

datatype ioctl_req =
    TCGETS | TCSETS termios | TCSETSW termios | TCSETSF termios | TIOCGWINSZ | TIOCSWINSZ u16 u16
  | TCSBRK | TCSBRKP | TIOCSBRK | TIOCCBRK | TCXONC | TIOCINQ | TIOCOUTQ | TCFLSH int | TIOCSTI u8
  | TIOCCONS | TIOCSCTTY | TIOCNOTTY | TIOCGPGRP | TIOCSPGRP int | TIOCGSID | TIOCEXCL | TIOCGEXCL | TIOCNXCL
  | TIOCGETD | TIOCSETD | IOCTL_OTHER

text \<open>What is stored through the pointer that is the argument of the request.\<close>

datatype ioctl_result = No_value | Termios_value termios | Winsize_value u16 u16 | Int_value int

text \<open>\<open>is_tty\<close> tells whether the descriptor is that of the terminal (\<open>tty_from_fd\<close>). The window size is (columns, rows).\<close>

definition sys_ioctl :: "bool \<Rightarrow> ioctl_req \<Rightarrow> console \<Rightarrow> ((errno + ioctl_result) \<times> console) option" where
  "sys_ioctl is_tty req s =
     (if \<not> is_tty then Some (Inl ENOTTY, s)
      else case req of
        TCGETS \<Rightarrow> Some (Inr (Termios_value (tt_termios s)), s)
      | TCSETSF tp \<Rightarrow> Some (Inr No_value, s\<lparr>tt_start := 0, tt_end := 0, tt_termios := tp\<rparr>)
      | TCSETS tp \<Rightarrow> Some (Inr No_value, s\<lparr>tt_termios := tp\<rparr>)
      | TCSETSW tp \<Rightarrow> Some (Inr No_value, s\<lparr>tt_termios := tp\<rparr>)
      | TIOCGWINSZ \<Rightarrow> Some (Inr (Winsize_value (word_of_nat (tt_width s)) (word_of_nat (tt_height s))), s)
      | TIOCSWINSZ col row \<Rightarrow>
          let sig = (tt_width s \<noteq> unat col \<or> tt_height s \<noteq> unat row);
              s = s\<lparr>tt_width := unat col, tt_height := unat row\<rparr>
          in Some (Inr No_value, if sig then s\<lparr>con_kills := con_kills s @ [Killpg (tt_pgid s) SIGWINCH]\<rparr> else s)
      | TIOCINQ \<Rightarrow> Some (Inr (Int_value (sint (word_of_int (int (tt_end s) - int (tt_start s)) :: u32))), s)
      | TIOCOUTQ \<Rightarrow> Some (Inr (Int_value 0), s)
      | TCFLSH a \<Rightarrow> if a = 0 then Some (Inr No_value, s\<lparr>tt_start := 0, tt_end := 0\<rparr>) else Some (Inl ENOSYS, s)
      | TIOCSTI c \<Rightarrow> map_option (\<lambda>s. (Inr No_value, s)) (tty_recv c s)
      | TIOCGPGRP \<Rightarrow> Some (Inr (Int_value (tt_pgid s)), s)
      | TIOCSPGRP p \<Rightarrow> Some (Inr No_value, s\<lparr>tt_pgid := p\<rparr>)
      | TIOCGSID \<Rightarrow> Some (Inr (Int_value (tt_sid s)), s)
      | TIOCEXCL \<Rightarrow> Some (Inr No_value, s\<lparr>tt_flags := tt_flags s OR TTY_FLAG_EXCL\<rparr>)
      | TIOCGEXCL \<Rightarrow> Some (Inr (Int_value (if has (tt_flags s) TTY_FLAG_EXCL then 1 else 0)), s)
      | TIOCNXCL \<Rightarrow> Some (Inr No_value, s\<lparr>tt_flags := tt_flags s AND NOT TTY_FLAG_EXCL\<rparr>)
      | IOCTL_OTHER \<Rightarrow> Some (Inl EINVAL, s)
      | _ \<Rightarrow> Some (Inl ENOSYS, s))"

section \<open>The screen\<close>

text \<open>
  The cursor is on the screen, and the display shows what the terminal has stored. The grid
  gives the cell of a row and a column.
\<close>

definition screen_len :: "console \<Rightarrow> bool" where
  "screen_len s \<longleftrightarrow> length (tt_screen s) = VGA_TEXT_SCREEN_SIZE \<and> length (vga_text_buffer s) = VGA_TEXT_SCREEN_SIZE"

definition mirrored :: "console \<Rightarrow> bool" where
  "mirrored s \<longleftrightarrow> vga_text_buffer s = tt_screen s"

definition screen_inv :: "console \<Rightarrow> bool" where
  "screen_inv s \<longleftrightarrow> screen_len s \<and> mirrored s \<and> tt_width s = VGA_TEXT_SCREEN_WIDTH \<and> tt_height s = VGA_TEXT_SCREEN_HEIGHT \<and>
     tt_x s < VGA_TEXT_SCREEN_WIDTH \<and> tt_y s < VGA_TEXT_SCREEN_HEIGHT"

type_synonym grid = "nat \<Rightarrow> nat \<Rightarrow> u16"

definition grid_of :: "console \<Rightarrow> grid" where
  "grid_of s r k = (if r < VGA_TEXT_SCREEN_HEIGHT \<and> k < VGA_TEXT_SCREEN_WIDTH
     then tt_screen s ! (r * VGA_TEXT_SCREEN_WIDTH + k) else 0)"

text \<open>What output does not touch.\<close>

definition input_part where
  "input_part s = (tt_color s, tt_width s, tt_height s, tt_flags s, tt_pgid s, tt_sid s, tt_buffer s, tt_start s, tt_end s,
     tt_termios s, con_kills s, con_beeps s)"

text \<open>The terminal as a grid with a cursor: the meaning of each byte.\<close>

definition blank :: "u8 \<Rightarrow> u16" where
  "blank color = vga_text_entry 32 color"

definition scroll_grid :: "u16 \<Rightarrow> grid \<Rightarrow> grid" where
  "scroll_grid b g r k =
     (if r + 1 < VGA_TEXT_SCREEN_HEIGHT then g (r + 1) k
      else if r + 1 = VGA_TEXT_SCREEN_HEIGHT \<and> k < VGA_TEXT_SCREEN_WIDTH then b else g r k)"

definition down :: "u8 \<Rightarrow> grid \<times> nat \<times> nat \<Rightarrow> grid \<times> nat \<times> nat" where
  "down color = (\<lambda>(g, x, y).
     if y + 1 = VGA_TEXT_SCREEN_HEIGHT then (scroll_grid (blank color) g, x, y) else (g, x, y + 1))"

definition right :: "u8 \<Rightarrow> grid \<times> nat \<times> nat \<Rightarrow> grid \<times> nat \<times> nat" where
  "right color = (\<lambda>(g, x, y). if x + 1 = VGA_TEXT_SCREEN_WIDTH then down color (g, 0, y) else (g, x + 1, y))"

definition display :: "u8 \<Rightarrow> u8 \<Rightarrow> grid \<times> nat \<times> nat \<Rightarrow> grid \<times> nat \<times> nat" where
  "display color c = (\<lambda>(g, x, y).
     if c = 0 then (g, x, y)
     else if c = 13 then (g, 0, y)
     else if c = 10 then down color (g, 0, y)
     else if c = 11 \<or> c = 12 then down color (g, x, y)
     else if c = 9 then right color (g, x div 8 * 8 + 7, y)
     else right color (g(y := (g y)(x := vga_text_entry c color)), x, y))"

definition screen_of :: "console \<Rightarrow> grid \<times> nat \<times> nat" where
  "screen_of s = (grid_of s, tt_x s, tt_y s)"

lemmas vga_sizes = VGA_TEXT_SCREEN_WIDTH_def VGA_TEXT_SCREEN_HEIGHT_def VGA_TEXT_SCREEN_SIZE_def

lemma index_inj: "k < 80 \<Longrightarrow> k' < 80 \<Longrightarrow> r * 80 + k = r' * 80 + k' \<longleftrightarrow> r = r' \<and> k = (k' :: nat)"
proof -
  assume a: "k < 80" "k' < 80"
  show ?thesis
  proof
    assume e: "r * 80 + k = r' * 80 + k'"
    with a have "\<not> r < r'" "\<not> r' < r" by linarith+
    then show "r = r' \<and> k = k'" using e by simp
  qed simp
qed

lemma vga_text_index_small: "x < 80 \<Longrightarrow> y < 25 \<Longrightarrow> vga_text_index x y = y * 80 + x"
  by (simp add: vga_text_index_def vga_sizes)

lemma write_char_ok:
  assumes "screen_len s" and "x < VGA_TEXT_SCREEN_WIDTH" and "y < VGA_TEXT_SCREEN_HEIGHT"
  shows "\<exists>s'. vga_text_write_char x y c s = Some s' \<and> screen_len s' \<and> input_part s' = input_part s \<and>
    tt_x s' = tt_x s \<and> tt_y s' = tt_y s \<and> (mirrored s \<longrightarrow> mirrored s') \<and>
    grid_of s' = (grid_of s)(y := (grid_of s y)(x := vga_text_entry c (tt_color s)))"
proof -
  let ?i = "y * 80 + x" and ?e = "vga_text_entry c (tt_color s)"
  let ?s = "s\<lparr>tt_screen := (tt_screen s)[?i := ?e], vga_text_buffer := (vga_text_buffer s)[?i := ?e]\<rparr>"
  have b: "x < 80" "y < 25" using assms(2,3) by (simp_all add: vga_sizes)
  then have "?i < 2000" by simp
  then have run: "vga_text_write_char x y c s = Some ?s"
    using assms(1) b by (simp add: vga_text_write_char_def vga_text_index_small screen_len_def vga_sizes Let_def)
  have "grid_of ?s r k = ((grid_of s)(y := (grid_of s y)(x := ?e))) r k" for r k
  proof (cases "r < 25 \<and> k < 80")
    case True
    then have "r * 80 + k < 2000" by simp
    then show ?thesis using True b assms(1) \<open>?i < 2000\<close> index_inj [of k x r y]
      by (auto simp: grid_of_def vga_sizes screen_len_def nth_list_update)
  next
    case False
    then show ?thesis using b by (auto simp: grid_of_def vga_sizes)
  qed
  then show ?thesis using run assms(1) by (simp add: screen_len_def mirrored_def input_part_def fun_eq_iff)
qed

lemma blank_cells_ok:
  assumes "screen_len s" and "\<forall>x \<in> set xs. x < VGA_TEXT_SCREEN_WIDTH" and "y < VGA_TEXT_SCREEN_HEIGHT"
  shows "\<exists>s'. blank_cells xs y s = Some s' \<and> screen_len s' \<and> input_part s' = input_part s \<and>
    tt_x s' = tt_x s \<and> tt_y s' = tt_y s \<and> (mirrored s \<longrightarrow> mirrored s') \<and>
    grid_of s' = (\<lambda>r k. if r = y \<and> k \<in> set xs then blank (tt_color s) else grid_of s r k)"
  using assms(1,2)
proof (induction xs arbitrary: s)
  case Nil
  then show ?case by simp
next
  case (Cons x xs)
  obtain s1 where s1: "vga_text_write_char x y 32 s = Some s1" "screen_len s1" "input_part s1 = input_part s"
    "tt_x s1 = tt_x s" "tt_y s1 = tt_y s" "mirrored s \<longrightarrow> mirrored s1" "grid_of s1 = (grid_of s)(y := (grid_of s y)(x := vga_text_entry 32 (tt_color s)))"
    using write_char_ok [OF Cons.prems(1), of x y 32] Cons.prems(2) assms(3) by auto
  obtain s2 where s2: "blank_cells xs y s1 = Some s2" "screen_len s2" "input_part s2 = input_part s1" "tt_x s2 = tt_x s1"
    "tt_y s2 = tt_y s1" "mirrored s1 \<longrightarrow> mirrored s2" "grid_of s2 = (\<lambda>r k. if r = y \<and> k \<in> set xs then blank (tt_color s1) else grid_of s1 r k)"
    using Cons.IH [OF s1(2)] Cons.prems(2) by auto
  have "tt_color s1 = tt_color s" using s1(3) by (simp add: input_part_def)
  then show ?case using s1 s2 by (auto simp: blank_def fun_eq_iff)
qed

lemma scroll_ok:
  assumes "screen_len s"
  shows "\<exists>s'. vga_text_scroll_down s = Some s' \<and> screen_len s' \<and> mirrored s' \<and> input_part s' = input_part s \<and>
    tt_x s' = tt_x s \<and> tt_y s' = tt_y s \<and> grid_of s' = scroll_grid (blank (tt_color s)) (grid_of s)"
proof -
  let ?scr = "tt_screen s"
  let ?s = "s\<lparr>tt_screen := drop 80 (take 2000 ?scr) @ drop 1920 ?scr\<rparr>"
  have len: "length ?scr = 2000" "length (vga_text_buffer s) = 2000" using assms by (simp_all add: screen_len_def vga_sizes)
  then have "screen_len ?s" by (simp add: screen_len_def vga_sizes)
  from blank_cells_ok [OF this, of "[0..<80]" 24] obtain s1 where s1: "blank_cells [0..<80] 24 ?s = Some s1" "screen_len s1"
    "input_part s1 = input_part ?s" "tt_x s1 = tt_x ?s" "tt_y s1 = tt_y ?s"
    "grid_of s1 = (\<lambda>r k. if r = 24 \<and> k \<in> set [0..<80] then blank (tt_color ?s) else grid_of ?s r k)"
    by (auto simp: vga_sizes)
  let ?s' = "s1\<lparr>vga_text_buffer := take 2000 (tt_screen s1) @ drop 2000 (vga_text_buffer s1)\<rparr>"
  have run: "vga_text_scroll_down s = Some ?s'"
    using len s1(1) by (simp add: vga_text_scroll_down_def vga_sizes Let_def)
  have s': "screen_len ?s'" "mirrored ?s'" using s1(2) by (simp_all add: screen_len_def mirrored_def vga_sizes)
  have "grid_of ?s' r k = scroll_grid (blank (tt_color s)) (grid_of s) r k" for r k
  proof -
    have g: "grid_of ?s' r k = (if r = 24 \<and> k < 80 then blank (tt_color s) else grid_of ?s r k)"
    proof -
      have "grid_of ?s' = grid_of s1" by (simp add: grid_of_def fun_eq_iff)
      then show ?thesis unfolding s1(6) by simp
    qed
    show ?thesis
    proof (cases "r < 24 \<and> k < 80")
      case True
      then have "r * 80 + k < 1920" "r < 25" "Suc r < 25" "r \<noteq> 24" by simp_all
      then show ?thesis unfolding g using True len
        by (simp add: grid_of_def scroll_grid_def vga_sizes nth_append add.commute add.left_commute)
    next
      case False
      then show ?thesis unfolding g by (auto simp: grid_of_def scroll_grid_def vga_sizes)
    qed
  qed
  then have "grid_of ?s' = scroll_grid (blank (tt_color s)) (grid_of s)" by (simp add: fun_eq_iff)
  moreover have "input_part ?s' = input_part s" using s1(3) by (simp add: input_part_def)
  ultimately show ?thesis using run s' s1(4,5) by auto
qed

definition shows_as :: "console \<Rightarrow> grid \<times> nat \<times> nat \<Rightarrow> console \<Rightarrow> bool" where
  "shows_as s g s' \<longleftrightarrow> screen_inv s' \<and> input_part s' = input_part s \<and> screen_of s' = g"

lemma grid_of_cong: "tt_screen s' = tt_screen s \<Longrightarrow> grid_of s' = grid_of s"
  by (simp add: grid_of_def fun_eq_iff)

lemma grid_of_simps [simp]:
  "grid_of (s\<lparr>con_ports := p\<rparr>) = grid_of s" "grid_of (s\<lparr>tt_x := x\<rparr>) = grid_of s" "grid_of (s\<lparr>tt_y := y\<rparr>) = grid_of s"
  by (simp_all add: grid_of_def fun_eq_iff)

lemma cursor_only:
  assumes "screen_inv s" and "x < VGA_TEXT_SCREEN_WIDTH"
  shows "screen_inv (s\<lparr>tt_x := x\<rparr>)" "input_part (s\<lparr>tt_x := x\<rparr>) = input_part s"
    "screen_of (s\<lparr>tt_x := x\<rparr>) = (grid_of s, x, tt_y s)" "tt_color (s\<lparr>tt_x := x\<rparr>) = tt_color s"
  using assms by (simp_all add: screen_inv_def screen_len_def mirrored_def input_part_def screen_of_def)

lemma update_cursor_shows: "shows_as s g s' \<Longrightarrow> shows_as s g (vga_text_update_cursor s')"
  by (simp add: shows_as_def screen_inv_def screen_len_def mirrored_def input_part_def screen_of_def vga_text_update_cursor_def Let_def)

lemma tty_wrap_ok:
  assumes "screen_inv s"
  shows "\<exists>s'. tty_wrap s = Some s' \<and> shows_as s (down (tt_color s) (screen_of s)) s'"
proof (cases "tt_y s + 1 = VGA_TEXT_SCREEN_HEIGHT")
  case True
  let ?s = "s\<lparr>tt_y := tt_y s + 1\<rparr>"
  have "screen_len ?s" using assms by (simp add: screen_inv_def screen_len_def)
  from scroll_ok [OF this] obtain s1 where s1: "vga_text_scroll_down ?s = Some s1" "screen_len s1" "mirrored s1"
    "input_part s1 = input_part ?s" "tt_x s1 = tt_x ?s" "tt_y s1 = tt_y ?s"
    "grid_of s1 = scroll_grid (blank (tt_color ?s)) (grid_of ?s)" by blast
  let ?s' = "s1\<lparr>tt_y := tt_y s1 - 1\<rparr>"
  have "tty_wrap s = Some ?s'" using True s1(1) assms by (simp add: tty_wrap_def screen_inv_def)
  moreover have "screen_inv ?s'" using s1(2-6) assms True
    by (simp add: screen_inv_def screen_len_def mirrored_def input_part_def)
  moreover have "grid_of ?s' = scroll_grid (blank (tt_color s)) (grid_of s)"
    using s1(7) grid_of_cong [of ?s' s1] grid_of_cong [of ?s s] by simp
  moreover have "input_part ?s' = input_part s" using s1(4) by (simp add: input_part_def)
  ultimately show ?thesis using True s1(5,6) by (simp add: shows_as_def screen_of_def down_def)
next
  case False
  then show ?thesis using assms
    by (simp add: tty_wrap_def screen_inv_def screen_len_def mirrored_def shows_as_def input_part_def screen_of_def down_def vga_sizes)
qed

lemma tty_advance_ok:
  assumes "screen_inv s"
  shows "\<exists>s'. tty_advance s = Some s' \<and> shows_as s (right (tt_color s) (screen_of s)) s'"
proof (cases "tt_x s + 1 = VGA_TEXT_SCREEN_WIDTH")
  case True
  note c = cursor_only [OF assms, of 0]
  have "0 < VGA_TEXT_SCREEN_WIDTH" by (simp add: vga_sizes)
  then show ?thesis using True assms tty_wrap_ok [OF c(1)] c
    by (simp add: tty_advance_def screen_inv_def right_def screen_of_def shows_as_def)
next
  case False
  then have "tt_x s + 1 < VGA_TEXT_SCREEN_WIDTH" using assms by (simp add: screen_inv_def)
  note c = cursor_only [OF assms this]
  show ?thesis using False assms c by (simp add: tty_advance_def screen_inv_def right_def screen_of_def shows_as_def)
qed

lemma tty_putchar_ok:
  assumes "screen_inv s"
  shows "\<exists>s'. tty_putchar c s = Some s' \<and> shows_as s (display (tt_color s) c (screen_of s)) s'"
proof -
  have w: "0 < VGA_TEXT_SCREEN_WIDTH" "tt_x s div 8 * 8 + 7 < VGA_TEXT_SCREEN_WIDTH"
  proof -
    have "x < 80 \<Longrightarrow> x div 8 * 8 + 7 < 80" for x :: nat by presburger
    then show "0 < VGA_TEXT_SCREEN_WIDTH" "tt_x s div 8 * 8 + 7 < VGA_TEXT_SCREEN_WIDTH"
      using assms by (simp_all add: screen_inv_def vga_sizes)
  qed
  note c0 = cursor_only [OF assms w(1)] and c8 = cursor_only [OF assms w(2)]
  have self: "shows_as s (screen_of s) s" using assms by (simp add: shows_as_def)
  have finish: "\<exists>s'. map_option vga_text_update_cursor m = Some s' \<and> shows_as s g s'"
    if "\<exists>s'. m = Some s' \<and> shows_as s g s'" for m g
    using that update_cursor_shows [of s g] by auto
  consider "c = 0" | "c = 13" | "c = 10" | "c = 11 \<or> c = 12" | "c = 9" | (char) "c \<notin> {0, 13, 10, 11, 12, 9}" by blast
  then show ?thesis
  proof cases
    case 1
    then show ?thesis using self by (simp add: tty_putchar_def display_def screen_of_def)
  next
    case 2
    have "shows_as s (grid_of s, 0, tt_y s) (s\<lparr>tt_x := 0\<rparr>)" using c0 by (simp add: shows_as_def)
    then show ?thesis using 2 update_cursor_shows by (auto simp: tty_putchar_def display_def screen_of_def)
  next
    case 3
    have "\<exists>s'. tty_wrap (s\<lparr>tt_x := 0\<rparr>) = Some s' \<and> shows_as s (down (tt_color s) (grid_of s, 0, tt_y s)) s'"
      using tty_wrap_ok [OF c0(1)] c0(2-4) by (auto simp: shows_as_def)
    from finish [OF this] show ?thesis using 3 by (simp add: tty_putchar_def display_def screen_of_def)
  next
    case 4
    from finish [OF tty_wrap_ok [OF assms]] show ?thesis using 4 by (auto simp: tty_putchar_def display_def screen_of_def)
  next
    case 5
    have "\<exists>s'. tty_advance (s\<lparr>tt_x := tt_x s div 8 * 8 + 7\<rparr>) = Some s' \<and>
        shows_as s (right (tt_color s) (grid_of s, tt_x s div 8 * 8 + 7, tt_y s)) s'"
      using tty_advance_ok [OF c8(1)] c8(2-4) by (auto simp: shows_as_def)
    from finish [OF this] show ?thesis using 5 by (simp add: tty_putchar_def display_def screen_of_def)
  next
    case char
    obtain s1 where s1: "vga_text_write_char (tt_x s) (tt_y s) c s = Some s1" "screen_len s1" "input_part s1 = input_part s"
      "tt_x s1 = tt_x s" "tt_y s1 = tt_y s" "mirrored s \<longrightarrow> mirrored s1"
      "grid_of s1 = (grid_of s)(tt_y s := (grid_of s (tt_y s))(tt_x s := vga_text_entry c (tt_color s)))"
      using write_char_ok [of s "tt_x s" "tt_y s" c] assms by (auto simp: screen_inv_def)
    have inv: "screen_inv s1" "tt_color s1 = tt_color s" using assms s1 by (simp_all add: screen_inv_def input_part_def)
    have "\<exists>s'. Option.bind (vga_text_write_char (tt_x s) (tt_y s) c s) tty_advance = Some s' \<and>
        shows_as s (right (tt_color s) (screen_of s1)) s'"
      using tty_advance_ok [OF inv(1)] inv(2) s1(1,3) by (auto simp: shows_as_def)
    from finish [OF this] show ?thesis using char s1(4,5,7)
      by (simp add: tty_putchar_def display_def screen_of_def)
  qed
qed

text \<open>
  C25: The terminal works as a grid of 25 rows of 80 cells with a cursor: every byte written by
  \<open>tty_putchar\<close> has exactly the effect that \<open>display\<close> states (a character in the cell of the cursor,
  line ends, tabs, the wrap at the last column and the scrolling at the last row). No byte makes
  it access memory outside of the screen, the cursor stays on the screen, the display memory shows
  what the terminal has stored, and the input side is not touched.\<close>

theorem putchar_refines_grid:
  assumes "screen_inv s"
  shows "\<exists>s'. tty_putchar c s = Some s' \<and> screen_inv s' \<and> screen_of s' = display (tt_color s) c (screen_of s) \<and>
    input_part s' = input_part s"
  using tty_putchar_ok [OF assms, of c] by (auto simp: shows_as_def)

text \<open>A blank terminal with the settings of \<open>vga_text_init\<close> but without echo.\<close>

definition quiet_termios :: termios where
  "quiet_termios = \<lparr>c_iflag = 0x2d22, c_oflag = 0x1805, c_cflag = 0x5af, c_lflag = ICANON OR ISIG OR IEXTEN,
     c_cc = default_cc (replicate 32 0)\<rparr>"

definition blank_console :: console where
  "blank_console = \<lparr>tt_color = 7, tt_width = VGA_TEXT_SCREEN_WIDTH, tt_height = VGA_TEXT_SCREEN_HEIGHT, tt_x = 0, tt_y = 0,
     tt_screen = replicate VGA_TEXT_SCREEN_SIZE (blank 7), tt_flags = 0, tt_pgid = 1, tt_sid = 1,
     tt_buffer = replicate TTY_INPUT_BUFFER_SIZE 0, tt_start = 0, tt_end = 0, tt_termios = quiet_termios,
     vga_text_buffer = replicate VGA_TEXT_SCREEN_SIZE (blank 7), con_ports = [], con_kills = [], con_beeps = 0\<rparr>"

lemma blank_console_inv: "screen_inv blank_console"
  by (simp add: screen_inv_def screen_len_def mirrored_def blank_console_def vga_sizes)

theorem putchar_refines_grid_witness:
  "\<exists>s. tty_putchar 65 blank_console = Some s \<and> grid_of s 0 0 = vga_text_entry 65 7 \<and> tt_x s = 1"
  using putchar_refines_grid [OF blank_console_inv, of 65]
  by (auto simp: screen_of_def display_def right_def blank_console_def vga_sizes)

section \<open>Line editing\<close>

lemma erase_cells_ok:
  assumes "screen_inv s" and "n \<le> tt_x s"
  shows "\<exists>s'. erase_cells n s = Some s' \<and> screen_inv s' \<and> input_part s' = input_part s"
  using assms
proof (induction n arbitrary: s)
  case 0
  then show ?case by simp
next
  case (Suc n)
  let ?s = "s\<lparr>tt_x := tt_x s - 1\<rparr>"
  have x: "tt_x s - 1 < VGA_TEXT_SCREEN_WIDTH" using Suc.prems(1) by (auto simp: screen_inv_def)
  note c = cursor_only [OF Suc.prems(1) x]
  have "screen_len ?s" "tt_y ?s < VGA_TEXT_SCREEN_HEIGHT" using c(1) by (simp_all add: screen_inv_def)
  from write_char_ok [OF this(1) x this(2), of 32] obtain s1 where s1: "vga_text_write_char (tt_x ?s) (tt_y ?s) 32 ?s = Some s1"
    "screen_len s1" "input_part s1 = input_part ?s" "tt_x s1 = tt_x ?s" "tt_y s1 = tt_y ?s" "mirrored ?s \<longrightarrow> mirrored s1" by auto
  then have "screen_inv s1" using c(1) by (simp add: screen_inv_def input_part_def)
  moreover have "n \<le> tt_x s1" using Suc.prems(2) s1(4) by simp
  ultimately show ?case using Suc.IH [of s1] s1(1,3) c(2) by auto
qed

lemma erase_line_ok:
  assumes "screen_inv s"
  shows "\<exists>s'. vga_text_erase_line len s = Some s' \<and> screen_inv s' \<and> input_part s' = input_part s"
proof -
  obtain s1 where s1: "erase_cells (min len (tt_x s)) s = Some s1" "screen_inv s1" "input_part s1 = input_part s"
    using erase_cells_ok [OF assms, of "min len (tt_x s)"] by auto
  then have "shows_as s (screen_of s1) s1" by (simp add: shows_as_def)
  from update_cursor_shows [OF this] s1(1) show ?thesis by (simp add: vga_text_erase_line_def shows_as_def)
qed

lemma erase_cells_none: "erase_cells 0 = Some"
  by (simp add: fun_eq_iff)

lemma erase_char_line: "tt_x s \<noteq> 0 \<Longrightarrow> vga_text_erase_char s = vga_text_erase_line 1 s"
  by (cases "tt_x s") (simp_all add: vga_text_erase_char_def vga_text_erase_line_def erase_cells_none del: erase_cells.simps(1))

lemma putchar_ok:
  assumes "screen_inv s"
  shows "\<exists>s'. tty_putchar c s = Some s' \<and> screen_inv s' \<and> input_part s' = input_part s"
  using tty_putchar_ok [OF assms, of c] by (auto simp: shows_as_def)

lemma output_byte_ok:
  assumes "screen_inv s"
  shows "\<exists>s'. tty_output_byte c len s = Some s' \<and> screen_inv s' \<and> input_part s' = input_part s"
proof -
  define P where "P m \<longleftrightarrow> (\<exists>s'. m = Some s' \<and> screen_inv s' \<and> input_part s' = input_part s)" for m
  have line: "P (vga_text_erase_line n s)" for n using erase_line_ok [OF assms] by (simp add: P_def)
  have stay: "P (Some s)" using assms by (simp add: P_def)
  have "P (vga_text_erase_char s)"
    using line [of 1] stay erase_char_line [of s] by (cases "tt_x s = 0") (simp_all add: vga_text_erase_char_def)
  moreover have put: "P (tty_putchar x s)" for x using putchar_ok [OF assms] by (simp add: P_def)
  moreover obtain s1 where s1: "tty_putchar 94 s = Some s1" "screen_inv s1" "input_part s1 = input_part s"
    using put [of 94] by (auto simp: P_def)
  then have "P (Option.bind (tty_putchar 94 s) (tty_putchar (c + 0x40)))"
    using putchar_ok [OF s1(2), of "c + 0x40"] by (simp add: P_def)
  ultimately have "P (tty_output_byte c len s)" using line stay unfolding tty_output_byte_def Let_def by simp
  then show ?thesis by (simp add: P_def)
qed

lemma echo_byte_ok:
  assumes "screen_inv s"
  shows "\<exists>s'. echo_byte c len s = Some s' \<and> screen_inv s' \<and> input_part s' = input_part s"
  using assms output_byte_ok by (simp add: echo_byte_def)

text \<open>
  The line that has been typed so far: erase drops the last byte, kill the whole line, any other
  byte is added while there is room. Bytes that end the line, send signals or have another
  function are not editing bytes.
\<close>

definition edit :: "termios \<Rightarrow> u8 list \<Rightarrow> u8 \<Rightarrow> u8 list" where
  "edit tp line c =
     (if CHAR_MATCH c tp VERASE then butlast line
      else if CHAR_MATCH c tp VKILL then []
      else if length line < TTY_INPUT_BUFFER_SIZE - 1 then line @ [c] else line)"

definition editing :: "termios \<Rightarrow> u8 \<Rightarrow> bool" where
  "editing tp c \<longleftrightarrow> c \<noteq> 10 \<and>
     (\<forall>k \<in> {VEOL, VEOL2, VEOF, VWERASE, VREPRINT, VLNEXT, VINTR, VSUSP, VQUIT}. \<not> CHAR_MATCH c tp k)"

text \<open>The input buffer holds a line of which nothing has been read yet.\<close>

definition holds_line :: "console \<Rightarrow> u8 list \<Rightarrow> bool" where
  "holds_line s line \<longleftrightarrow> screen_inv s \<and> lflag s ICANON \<and> \<not> has (tt_flags s) TTY_FLAG_LITERAL_INPUT \<and>
     length (tt_buffer s) = TTY_INPUT_BUFFER_SIZE \<and> tt_start s = 0 \<and> tt_end s = length line \<and>
     take (length line) (tt_buffer s) = line \<and> length line < TTY_INPUT_BUFFER_SIZE \<and>
     (\<forall>c \<in> set line. \<not> CHAR_MATCH c (tt_termios s) VEOF)"

lemma holds_line_cong:
  assumes "holds_line s line" and "screen_inv s'" and "input_part s' = input_part s"
  shows "holds_line s' line \<and> tt_termios s' = tt_termios s \<and> tt_flags s' = tt_flags s"
  using assms by (simp add: holds_line_def input_part_def lflag_def)

lemma take_butlast_line:
  assumes "take n buf = line" and "n = length line" and "line \<noteq> []"
  shows "take (n - 1) buf = butlast line" and "buf ! (n - 1) = last line"
proof -
  have len: "length line \<le> length buf" using assms(1,2) by (metis length_take min.cobounded1)
  show "take (n - 1) buf = butlast line" using assms(1,2) len by (metis butlast_take)
  show "buf ! (n - 1) = last line" using assms by (metis diff_less last_conv_nth length_greater_0_conv nth_take zero_less_one)
qed

lemma not_eof_in_line:
  assumes "holds_line s line" and "c_cc (tt_termios s) ! VEOF \<noteq> 0xff"
  shows "last_index (c_cc (tt_termios s) ! VEOF) (tt_buffer s) (tt_end s) = None"
proof -
  have "n \<le> length line \<Longrightarrow> last_index (c_cc (tt_termios s) ! VEOF) (tt_buffer s) n = None" for n
  proof (induction n)
    case (Suc n)
    then have "tt_buffer s ! n = line ! n" using assms(1) by (metis Suc_le_eq holds_line_def nth_take)
    moreover have "\<not> CHAR_MATCH (line ! n) (tt_termios s) VEOF" using Suc.prems assms(1) by (simp add: holds_line_def)
    ultimately show ?case using Suc assms(2) by (simp add: CHAR_MATCH_def)
  qed simp
  then show ?thesis using assms(1) by (simp add: holds_line_def)
qed

lemma recv_line:
  assumes "holds_line s line" and "\<not> CHAR_MATCH c (tt_termios s) VEOF" and "c \<noteq> 10"
  shows "\<exists>s'. tty_recv c s = Some s' \<and> tt_termios s' = tt_termios s \<and> tt_flags s' = tt_flags s \<and>
    holds_line s' (if length line < TTY_INPUT_BUFFER_SIZE - 1 then line @ [c] else line)"
proof (cases "length line < TTY_INPUT_BUFFER_SIZE - 1")
  case True
  let ?s = "s\<lparr>tt_buffer := (tt_buffer s)[length line := c], tt_end := length line + 1\<rparr>"
  have "tty_recv c s = Some ?s" using assms(1) True by (simp add: tty_recv_def holds_line_def)
  moreover have "take (Suc (length line)) ((tt_buffer s)[length line := c]) = line @ [c]"
    using assms(1) True by (simp add: holds_line_def take_Suc_conv_app_nth)
  then have "holds_line ?s (line @ [c])" using assms True
    by (auto simp: holds_line_def screen_inv_def screen_len_def mirrored_def lflag_def)
  ultimately show ?thesis using True by simp
next
  case False
  then show ?thesis using assms
    by (simp add: tty_recv_def holds_line_def screen_inv_def screen_len_def mirrored_def lflag_def)
qed

lemma echo_keeps_line:
  assumes "holds_line s line"
  shows "\<exists>s'. echo_byte c n s = Some s' \<and> holds_line s' line \<and> tt_termios s' = tt_termios s \<and> tt_flags s' = tt_flags s"
proof -
  obtain s' where "echo_byte c n s = Some s'" "screen_inv s'" "input_part s' = input_part s"
    using echo_byte_ok [of s c n] assms by (auto simp: holds_line_def)
  then show ?thesis using holds_line_cong [OF assms] by simp
qed

lemma input_edits_line:
  assumes "holds_line s line" and "editing (tt_termios s) c"
  shows "\<exists>s'. tty_input_byte c s = Some s' \<and> holds_line s' (edit (tt_termios s) line c) \<and>
    tt_termios s' = tt_termios s \<and> tt_flags s' = tt_flags s"
proof -
  let ?tp = "tt_termios s"
  have lit: "\<not> has (tt_flags s) TTY_FLAG_LITERAL_INPUT" and can: "lflag s ICANON" using assms(1) by (simp_all add: holds_line_def)
  have no: "c \<noteq> 10" "\<not> CHAR_MATCH c ?tp VEOL" "\<not> CHAR_MATCH c ?tp VEOL2" "\<not> CHAR_MATCH c ?tp VEOF"
    "\<not> CHAR_MATCH c ?tp VWERASE" "\<not> CHAR_MATCH c ?tp VREPRINT" "\<not> CHAR_MATCH c ?tp VLNEXT" "input_signal c ?tp = 0"
    using assms(2) by (simp_all add: editing_def input_signal_def)
  consider (erase) "CHAR_MATCH c ?tp VERASE" | (kill) "\<not> CHAR_MATCH c ?tp VERASE" "CHAR_MATCH c ?tp VKILL"
    | (other) "\<not> CHAR_MATCH c ?tp VERASE" "\<not> CHAR_MATCH c ?tp VKILL" by blast
  then show ?thesis
  proof cases
    case erase
    have "\<exists>n s1. tty_erase_input s = Some (n, s1) \<and> holds_line s1 (butlast line) \<and> tt_termios s1 = ?tp \<and> tt_flags s1 = tt_flags s"
    proof (cases "line = []")
      case True
      then show ?thesis using assms(1) by (simp add: tty_erase_input_def holds_line_def)
    next
      case False
      have b: "take (length line) (tt_buffer s) = line" "tt_end s = length line" "length line \<noteq> 0" "length line \<le> length (tt_buffer s)"
        using assms(1) False by (simp_all add: holds_line_def)
      note t = take_butlast_line [OF b(1) refl False]
      have "length line - 1 < length (tt_buffer s)" using b(3,4) by linarith
      have "\<not> CHAR_MATCH (last line) ?tp VEOF" using assms(1) False by (simp add: holds_line_def)
      then have "tty_erase_input s = Some (1, s\<lparr>tt_end := length line - 1\<rparr>)"
        using b(2,3) t(2) \<open>length line - 1 < length (tt_buffer s)\<close> by (simp add: tty_erase_input_def)
      moreover have "holds_line (s\<lparr>tt_end := length line - 1\<rparr>) (butlast line)"
        using assms(1) t(1) by (auto simp: holds_line_def lflag_def screen_inv_def screen_len_def mirrored_def dest: in_set_butlastD)
      ultimately show ?thesis by simp
    qed
    then obtain n s1 where s1: "tty_erase_input s = Some (n, s1)" "holds_line s1 (butlast line)" "tt_termios s1 = ?tp"
      "tt_flags s1 = tt_flags s" by blast
    then have "tty_input_byte c s = echo_byte c n s1" using erase no lit can by (simp add: tty_input_byte_def Let_def)
    then show ?thesis using echo_keeps_line [OF s1(2), of c n] s1(3,4) erase by (simp add: edit_def)
  next
    case kill
    let ?s = "s\<lparr>tt_start := 0, tt_end := 0\<rparr>"
    have "tty_kill_input s = (length line, ?s)"
      using assms(1) not_eof_in_line [OF assms(1)] by (simp add: tty_kill_input_def Let_def holds_line_def)
    then have "tty_input_byte c s = echo_byte c (length line) ?s" using kill no lit can by (simp add: tty_input_byte_def Let_def)
    moreover have "holds_line ?s []"
      using assms(1) by (simp add: holds_line_def lflag_def screen_inv_def screen_len_def mirrored_def TTY_INPUT_BUFFER_SIZE_def)
    ultimately show ?thesis using echo_keeps_line [of ?s "[]" c "length line"] kill by (simp add: edit_def)
  next
    case other
    obtain s1 where s1: "tty_recv c s = Some s1" "tt_termios s1 = ?tp" "tt_flags s1 = tt_flags s"
      "holds_line s1 (if length line < TTY_INPUT_BUFFER_SIZE - 1 then line @ [c] else line)"
      using recv_line [OF assms(1) no(4,1)] by blast
    then have "tty_input_byte c s = echo_byte c 0 s1"
      using other no lit can by (simp add: tty_input_byte_def Let_def signal_or_raw_def raw_byte_def)
    then show ?thesis using echo_keeps_line [OF s1(4), of c 0] s1(2,3) other by (simp add: edit_def)
  qed
qed

fun type_bytes :: "u8 list \<Rightarrow> console \<Rightarrow> console option" where
  "type_bytes [] s = Some s"
| "type_bytes (c # cs) s = Option.bind (tty_input_byte c s) (type_bytes cs)"

text \<open>Reading until the device reports the end of the line, in at most \<open>n\<close> reads.\<close>

fun read_line :: "nat \<Rightarrow> console \<Rightarrow> (u8 list \<times> console) option" where
  "read_line 0 s = None"
| "read_line (Suc n) s =
     (case tty_device_read s of
        Some (r, Some c, s) \<Rightarrow> if r = 2 then Some ([c], s) else map_option (\<lambda>(cs, s). (c # cs, s)) (read_line n s)
      | _ \<Rightarrow> None)"

lemma type_edits:
  assumes "holds_line s line" and "\<forall>c \<in> set cs. editing (tt_termios s) c"
  shows "\<exists>s'. type_bytes cs s = Some s' \<and> holds_line s' (foldl (edit (tt_termios s)) line cs) \<and> tt_termios s' = tt_termios s"
  using assms
proof (induction cs arbitrary: s line)
  case Nil
  then show ?case by simp
next
  case (Cons c cs)
  obtain s1 where s1: "tty_input_byte c s = Some s1" "holds_line s1 (edit (tt_termios s) line c)" "tt_termios s1 = tt_termios s"
    using input_edits_line [OF Cons.prems(1)] Cons.prems(2) by auto
  then show ?case using Cons.IH [OF s1(2)] Cons.prems(2) by auto
qed

text \<open>A complete line, of which the first \<open>k\<close> bytes have been read.\<close>

definition line_ready :: "console \<Rightarrow> u8 list \<Rightarrow> nat \<Rightarrow> bool" where
  "line_ready s line k \<longleftrightarrow> lflag s ICANON \<and> has (tt_flags s) TTY_FLAG_FLUSH \<and> tt_start s = k \<and> tt_end s = length line \<and>
     k < length line \<and> length line \<le> length (tt_buffer s) \<and> take (length line) (tt_buffer s) = line"

lemma read_line_ready:
  assumes "line_ready s line k" and "n = length line - k"
  shows "\<exists>s'. read_line n s = Some (drop k line, s') \<and> tt_start s' = 0 \<and> tt_end s' = 0 \<and>
    s' = s\<lparr>tt_start := 0, tt_end := 0, tt_flags := tt_flags s AND NOT TTY_FLAG_FLUSH\<rparr>"
  using assms
proof (induction n arbitrary: s k)
  case 0
  then show ?case by (simp add: line_ready_def)
next
  case (Suc n)
  have k: "k < length line" "tt_start s = k" "tt_end s = length line" "length line \<le> length (tt_buffer s)"
    "has (tt_flags s) TTY_FLAG_FLUSH" "lflag s ICANON" using Suc.prems(1) by (simp_all add: line_ready_def)
  have c: "tt_buffer s ! k = line ! k" using Suc.prems(1) by (metis line_ready_def nth_take)
  have d: "drop k line = line ! k # drop (Suc k) line" using k(1) by (simp add: Cons_nth_drop_Suc)
  show ?case
  proof (cases "Suc k = length line")
    case True
    then have "n = 0" using Suc.prems(2) by simp
    then show ?thesis using k c d True by (simp add: tty_device_read_def read_ready_def)
  next
    case False
    let ?s = "s\<lparr>tt_start := Suc k\<rparr>"
    have r: "line_ready ?s line (Suc k)" using Suc.prems(1) False by (simp add: line_ready_def lflag_def)
    have "tty_device_read s = Some (1, Some (line ! k), ?s)"
      using k c False by (simp add: tty_device_read_def read_ready_def)
    moreover have "n = length line - Suc k" using Suc.prems(2) by simp
    ultimately show ?thesis using Suc.IH [OF r] d by simp
  qed
qed

lemma flush_flag: "has (f OR TTY_FLAG_FLUSH) TTY_FLAG_FLUSH" "\<not> has f TTY_FLAG_LITERAL_INPUT \<Longrightarrow> \<not> has (f AND x) TTY_FLAG_LITERAL_INPUT"
  "\<not> has f TTY_FLAG_LITERAL_INPUT \<Longrightarrow> \<not> has (f OR TTY_FLAG_FLUSH) TTY_FLAG_LITERAL_INPUT"
proof -
  show "has (f OR TTY_FLAG_FLUSH) TTY_FLAG_FLUSH" by (simp add: has_def word_ao_absorbs TTY_FLAG_FLUSH_def)
  assume a: "\<not> has f TTY_FLAG_LITERAL_INPUT"
  have "(f AND x) AND TTY_FLAG_LITERAL_INPUT = (f AND TTY_FLAG_LITERAL_INPUT) AND x"
    by (simp only: and.assoc and.commute [of x])
  then show "\<not> has (f AND x) TTY_FLAG_LITERAL_INPUT" using a by (simp add: has_def)
  have "TTY_FLAG_FLUSH AND TTY_FLAG_LITERAL_INPUT = 0" by (simp add: TTY_FLAG_FLUSH_def TTY_FLAG_LITERAL_INPUT_def)
  then show "\<not> has (f OR TTY_FLAG_FLUSH) TTY_FLAG_LITERAL_INPUT" using a by (simp add: has_def bit.conj_disj_distrib2)
qed

lemma newline_ends_line:
  assumes "holds_line s line"
  shows "\<exists>s'. tty_input_byte 10 s = Some s' \<and> line_ready s' (line @ [10]) 0 \<and> screen_inv s' \<and>
    \<not> has (tt_flags s') TTY_FLAG_LITERAL_INPUT \<and> length (tt_buffer s') = TTY_INPUT_BUFFER_SIZE \<and> tt_termios s' = tt_termios s"
proof -
  let ?s = "s\<lparr>tt_buffer := (tt_buffer s)[length line := 10], tt_end := length line + 1, tt_flags := tt_flags s OR TTY_FLAG_FLUSH\<rparr>"
  have h: "length line < length (tt_buffer s)" "take (length line) (tt_buffer s) = line" "lflag s ICANON" "tt_start s = 0"
    "tt_end s = length line" "\<not> has (tt_flags s) TTY_FLAG_LITERAL_INPUT" "length (tt_buffer s) = TTY_INPUT_BUFFER_SIZE"
    using assms by (simp_all add: holds_line_def)
  have inv: "screen_inv ?s" using assms by (simp add: holds_line_def screen_inv_def screen_len_def mirrored_def)
  then obtain s' where s': "echo_byte 10 0 ?s = Some s'" "screen_inv s'" "input_part s' = input_part ?s"
    using echo_byte_ok by blast
  have "tty_input_byte 10 s = echo_byte 10 0 ?s"
    using h by (simp add: tty_input_byte_def tty_flush_input_line_def tty_recv_def Let_def)
  moreover have "take (Suc (length line)) ((tt_buffer s)[length line := 10]) = line @ [10]"
    using h(1,2) by (simp add: take_Suc_conv_app_nth)
  ultimately show ?thesis using s' h flush_flag(1) flush_flag(3) [OF h(6)]
    by (simp add: line_ready_def input_part_def lflag_def)
qed

text \<open>
  C26: The line discipline delivers what was typed: in canonical mode, any sequence of editing
  bytes (characters, erase and kill, in any number and order, even more than fit) followed by a newline is
  processed without an access outside of the buffer or the screen, and reading then returns exactly the edited line with its
  newline, the last byte being reported as such; afterwards the buffer is empty and
  ready for the next line.\<close>

theorem line_discipline_delivers:
  assumes "holds_line s []" and "\<forall>c \<in> set cs. editing (tt_termios s) c"
    and "line = foldl (edit (tt_termios s)) [] cs @ [10]"
  shows "\<exists>s1 s2. type_bytes (cs @ [10]) s = Some s1 \<and> read_line (length line) s1 = Some (line, s2) \<and> holds_line s2 []"
proof -
  obtain s1 where s1: "type_bytes cs s = Some s1" "holds_line s1 (foldl (edit (tt_termios s)) [] cs)"
    using type_edits [OF assms(1,2)] by blast
  obtain s2 where s2: "tty_input_byte 10 s1 = Some s2" "line_ready s2 line 0" "screen_inv s2"
    "\<not> has (tt_flags s2) TTY_FLAG_LITERAL_INPUT" "length (tt_buffer s2) = TTY_INPUT_BUFFER_SIZE"
    using newline_ends_line [OF s1(2)] assms(3) by auto
  have split: "type_bytes (xs @ ys) s = Option.bind (type_bytes xs s) (type_bytes ys)" for xs ys s
    by (induction xs arbitrary: s) (auto split: Option.bind_splits)
  let ?s3 = "s2\<lparr>tt_start := 0, tt_end := 0, tt_flags := tt_flags s2 AND NOT TTY_FLAG_FLUSH\<rparr>"
  have "read_line (length line) s2 = Some (line, ?s3)" using read_line_ready [OF s2(2), of "length line"] by simp
  moreover have "holds_line ?s3 []" using s2(2-5) flush_flag(2) [OF s2(4)]
    by (simp add: holds_line_def line_ready_def lflag_def screen_inv_def screen_len_def mirrored_def TTY_INPUT_BUFFER_SIZE_def)
  moreover have "type_bytes (cs @ [10]) s = Some s2" using split s1(1) s2(1) by simp
  ultimately show ?thesis by blast
qed

text \<open>Typing "ax", erase, "b" (erase is the byte 31 here).\<close>

theorem line_discipline_delivers_witness:
  "\<exists>s1 s2. type_bytes [97, 120, 31, 98, 10] blank_console = Some s1 \<and> read_line 3 s1 = Some ([97, 98, 10], s2) \<and> holds_line s2 []"
proof -
  have cc: "CHAR_MATCH c quiet_termios k \<longleftrightarrow> c = default_cc (replicate 32 0) ! k \<and> default_cc (replicate 32 0) ! k \<noteq> 0xff" for c k
    by (simp add: CHAR_MATCH_def quiet_termios_def)
  have t: "tt_termios blank_console = quiet_termios" by (simp add: blank_console_def)
  have 1: "holds_line blank_console []" using blank_console_inv
    by (simp add: holds_line_def) (simp add: blank_console_def lflag_def has_def quiet_termios_def ICANON_def ISIG_def IEXTEN_def
        TTY_INPUT_BUFFER_SIZE_def)
  have 2: "\<forall>c \<in> set [97, 120, 31, 98]. editing quiet_termios c"
    by (simp add: editing_def cc default_cc_def VEOL_def VEOL2_def VEOF_def VWERASE_def VREPRINT_def VLNEXT_def VINTR_def VSUSP_def VQUIT_def)
  have "edit quiet_termios line c = (if c = 31 then butlast line else if c = 0x15 then []
      else if length line < TTY_INPUT_BUFFER_SIZE - 1 then line @ [c] else line)" for line c
    by (simp add: edit_def cc default_cc_def VERASE_def VKILL_def)
  then have 3: "[97, 98, 10] = foldl (edit quiet_termios) [] [97, 120, 31, 98] @ [10]" by (simp add: TTY_INPUT_BUFFER_SIZE_def)
  show ?thesis using line_discipline_delivers [OF 1, unfolded t, OF 2 3]
    by (simp add: numeral_3_eq_3 del: type_bytes.simps read_line.simps)
qed

section \<open>Defects\<close>

text \<open>
  Erasing a word reads in front of the buffer whenever the line has no blank: the index runs to
  -1, which passes the unsigned comparison with the start of the input.
\<close>

lemma erase_scan_runs_off:
  assumes "\<forall>c \<in> set (take (nat (i + 1)) buf). P c" and "i < int (length buf)"
  shows "erase_scan P buf 0 i = None"
  using assms
proof (induction "nat (i + 1)" arbitrary: i)
  case 0
  then show ?case by (simp add: erase_scan.simps)
next
  case (Suc n)
  then have i: "0 \<le> i" "nat i < length buf" "n = nat i" by simp_all
  then have "P (buf ! nat i)" using Suc.prems(1) by (simp add: nat_add_distrib take_Suc_conv_app_nth)
  moreover have "erase_scan P buf 0 (i - 1) = None"
    using Suc.hyps(1) [of "i - 1"] Suc.prems i by (simp add: nat_add_distrib take_Suc_conv_app_nth)
  ultimately show ?case using i by (simp add: erase_scan.simps [of P buf 0 i])
qed

theorem erase_word_runs_off:
  assumes "holds_line s line" and "\<forall>c \<in> set line. \<not> isspace c" and "line \<noteq> []"
  shows "tty_erase_input_word s = None"
proof -
  let ?i = "int (length line) - 1"
  have h: "length line \<le> length (tt_buffer s)" "take (length line) (tt_buffer s) = line" "tt_start s = 0" "tt_end s = length line"
    using assms(1) by (simp_all add: holds_line_def)
  have i: "nat ?i < length (tt_buffer s)" "0 \<le> ?i" "tt_buffer s ! nat ?i = last line"
    using take_butlast_line(2) [OF h(2) refl assms(3)] h(1) assms(3) by (cases line; simp)+
  then have "\<not> isspace (tt_buffer s ! nat ?i)" using assms(2,3) by simp
  then have 1: "erase_scan (\<lambda>c. isspace c \<and> \<not> CHAR_MATCH c (tt_termios s) VEOF) (tt_buffer s) 0 ?i = Some ?i"
    using i by (simp add: erase_scan.simps)
  have "\<forall>c \<in> set line. \<not> isspace c \<and> \<not> CHAR_MATCH c (tt_termios s) VEOF" using assms(1,2) by (simp add: holds_line_def)
  then have "erase_scan (\<lambda>c. \<not> isspace c \<and> \<not> CHAR_MATCH c (tt_termios s) VEOF) (tt_buffer s) 0 ?i = None"
    using h(1,2) by (intro erase_scan_runs_off) simp_all
  then show ?thesis using 1 h(3,4) by (simp add: tty_erase_input_word_def)
qed

text \<open>A second newline while the buffer is full is stored behind its end.\<close>

theorem newline_overflows_buffer:
  assumes "lflag s ICANON" and "\<not> has (tt_flags s) TTY_FLAG_LITERAL_INPUT" and "tt_start s = 0"
    and "tt_end s = TTY_INPUT_BUFFER_SIZE" and "length (tt_buffer s) = TTY_INPUT_BUFFER_SIZE"
  shows "tty_input_byte 10 s = None"
  using assms by (simp add: tty_input_byte_def tty_flush_input_line_def tty_recv_def Let_def TTY_INPUT_BUFFER_SIZE_def)

text \<open>
  Erasing in a line that has been read in part moves the end in front of the start, and the next
  read returns bytes that were never typed.
\<close>

theorem erase_crosses_start:
  assumes "tt_start s = n" and "tt_end s = n" and "0 < n" and "n \<le> length (tt_buffer s)"
    and "\<not> CHAR_MATCH (tt_buffer s ! (n - 1)) (tt_termios s) VEOF"
  shows "\<exists>s'. tty_erase_input s = Some (1, s') \<and> tt_end s' < tt_start s'"
  using assms by (simp add: tty_erase_input_def)

text \<open>
  A process can make the kernel write outside of the screen: the control request that sets
  the window size accepts any width, and the width is the only bound on the column. With the
  cursor in the last cell, one character is written and the next one is stored behind the buffer.\<close>

theorem window_size_unchecked:
  assumes "screen_inv s" and "tt_y s = VGA_TEXT_SCREEN_HEIGHT - 1" and "tt_x s = VGA_TEXT_SCREEN_WIDTH - 1"
    and "unat col > VGA_TEXT_SCREEN_WIDTH + 1"
  shows "\<exists>s1 s2. sys_ioctl True (TIOCSWINSZ col row) s = Some (Inr No_value, s1) \<and> tty_putchar 97 s1 = Some s2 \<and>
    tty_putchar 97 s2 = None"
proof -
  let ?s = "s\<lparr>tt_width := unat col, tt_height := unat row\<rparr>"
  obtain s1 where s1: "sys_ioctl True (TIOCSWINSZ col row) s = Some (Inr No_value, s1)" "tt_width s1 = unat col"
    "tt_x s1 = tt_x s" "tt_y s1 = tt_y s" "screen_len s1"
    using assms(1) by (auto simp: sys_ioctl_def Let_def screen_inv_def screen_len_def)
  obtain s2 where s2: "vga_text_write_char (tt_x s1) (tt_y s1) 97 s1 = Some s2" "screen_len s2" "input_part s2 = input_part s1"
    "tt_x s2 = tt_x s1" "tt_y s2 = tt_y s1"
    using write_char_ok [OF s1(5), of "tt_x s1" "tt_y s1" 97] assms(2,3) s1(3,4) by (auto simp: vga_sizes)
  have w: "tt_width s2 = unat col" using s2(3) s1(2) by (simp add: input_part_def)
  let ?s3 = "vga_text_update_cursor (s2\<lparr>tt_x := 80\<rparr>)"
  have "tty_putchar 97 s1 = Some ?s3"
    using s2(1,4) s1(3) assms(3,4) w by (simp add: tty_putchar_def tty_advance_def vga_sizes)
  moreover have "tty_putchar 97 ?s3 = None"
    using s2(2,5) s1(4) assms(2)
    by (simp add: tty_putchar_def vga_text_write_char_def vga_text_update_cursor_def vga_text_index_def screen_len_def vga_sizes Let_def)
  ultimately show ?thesis using s1(1) by blast
qed

theorem window_size_unchecked_witness:
  "\<exists>s1 s2. sys_ioctl True (TIOCSWINSZ 132 25) (blank_console\<lparr>tt_x := 79, tt_y := 24\<rparr>) = Some (Inr No_value, s1) \<and>
     tty_putchar 97 s1 = Some s2 \<and> tty_putchar 97 s2 = None"
proof (rule window_size_unchecked)
  show "screen_inv (blank_console\<lparr>tt_x := 79, tt_y := 24\<rparr>)"
    by (simp add: screen_inv_def screen_len_def mirrored_def blank_console_def vga_sizes)
qed (simp_all add: vga_sizes)

end
