(* ===== verification/Pml_Crc.thy ===== *)
theory Pml_Crc
  imports Pml_Prelude
begin

text \<open>
  The cyclic redundancy checks of util/crc16.c and util/crc32.c, which ext2 uses for the checksums
  of its metadata. Both are driven by tables; they are compared with the division by the
  polynomial one bit at a time. The 32-bit version builds its tables on the first call and
  reads four bytes at once.
\<close>

section \<open>CRC-16\<close>

definition crc16_table :: "u16 list" where
  "crc16_table = [
   0x0000, 0xc0c1, 0xc181, 0x0140, 0xc301, 0x03c0, 0x0280, 0xc241, 0xc601, 0x06c0, 0x0780, 0xc741,
   0x0500, 0xc5c1, 0xc481, 0x0440, 0xcc01, 0x0cc0, 0x0d80, 0xcd41, 0x0f00, 0xcfc1, 0xce81, 0x0e40,
   0x0a00, 0xcac1, 0xcb81, 0x0b40, 0xc901, 0x09c0, 0x0880, 0xc841, 0xd801, 0x18c0, 0x1980, 0xd941,
   0x1b00, 0xdbc1, 0xda81, 0x1a40, 0x1e00, 0xdec1, 0xdf81, 0x1f40, 0xdd01, 0x1dc0, 0x1c80, 0xdc41,
   0x1400, 0xd4c1, 0xd581, 0x1540, 0xd701, 0x17c0, 0x1680, 0xd641, 0xd201, 0x12c0, 0x1380, 0xd341,
   0x1100, 0xd1c1, 0xd081, 0x1040, 0xf001, 0x30c0, 0x3180, 0xf141, 0x3300, 0xf3c1, 0xf281, 0x3240,
   0x3600, 0xf6c1, 0xf781, 0x3740, 0xf501, 0x35c0, 0x3480, 0xf441, 0x3c00, 0xfcc1, 0xfd81, 0x3d40,
   0xff01, 0x3fc0, 0x3e80, 0xfe41, 0xfa01, 0x3ac0, 0x3b80, 0xfb41, 0x3900, 0xf9c1, 0xf881, 0x3840,
   0x2800, 0xe8c1, 0xe981, 0x2940, 0xeb01, 0x2bc0, 0x2a80, 0xea41, 0xee01, 0x2ec0, 0x2f80, 0xef41,
   0x2d00, 0xedc1, 0xec81, 0x2c40, 0xe401, 0x24c0, 0x2580, 0xe541, 0x2700, 0xe7c1, 0xe681, 0x2640,
   0x2200, 0xe2c1, 0xe381, 0x2340, 0xe101, 0x21c0, 0x2080, 0xe041, 0xa001, 0x60c0, 0x6180, 0xa141,
   0x6300, 0xa3c1, 0xa281, 0x6240, 0x6600, 0xa6c1, 0xa781, 0x6740, 0xa501, 0x65c0, 0x6480, 0xa441,
   0x6c00, 0xacc1, 0xad81, 0x6d40, 0xaf01, 0x6fc0, 0x6e80, 0xae41, 0xaa01, 0x6ac0, 0x6b80, 0xab41,
   0x6900, 0xa9c1, 0xa881, 0x6840, 0x7800, 0xb8c1, 0xb981, 0x7940, 0xbb01, 0x7bc0, 0x7a80, 0xba41,
   0xbe01, 0x7ec0, 0x7f80, 0xbf41, 0x7d00, 0xbdc1, 0xbc81, 0x7c40, 0xb401, 0x74c0, 0x7580, 0xb541,
   0x7700, 0xb7c1, 0xb681, 0x7640, 0x7200, 0xb2c1, 0xb381, 0x7340, 0xb101, 0x71c0, 0x7080, 0xb041,
   0x5000, 0x90c1, 0x9181, 0x5140, 0x9301, 0x53c0, 0x5280, 0x9241, 0x9601, 0x56c0, 0x5780, 0x9741,
   0x5500, 0x95c1, 0x9481, 0x5440, 0x9c01, 0x5cc0, 0x5d80, 0x9d41, 0x5f00, 0x9fc1, 0x9e81, 0x5e40,
   0x5a00, 0x9ac1, 0x9b81, 0x5b40, 0x9901, 0x59c0, 0x5880, 0x9841, 0x8801, 0x48c0, 0x4980, 0x8941,
   0x4b00, 0x8bc1, 0x8a81, 0x4a40, 0x4e00, 0x8ec1, 0x8f81, 0x4f40, 0x8d01, 0x4dc0, 0x4c80, 0x8c41,
   0x4400, 0x84c1, 0x8581, 0x4540, 0x8701, 0x47c0, 0x4680, 0x8641, 0x8201, 0x42c0, 0x4380, 0x8341,
   0x4100, 0x81c1, 0x8081, 0x4040]"

definition crc16_step :: "u32 \<Rightarrow> u8 \<Rightarrow> u32" where
  "crc16_step crc b =
     ((drop_bit 8 crc AND 0xff) XOR ucast (crc16_table ! unat ((crc XOR ucast b) AND 0xff))) AND 0xffff"

definition crc16 :: "u16 \<Rightarrow> u8 list \<Rightarrow> u16" where
  "crc16 seed data = ucast (foldl crc16_step (ucast seed) data)"

text \<open>Division by a reflected polynomial, one bit at a time, and by 0xa001 for whole messages.\<close>

definition crc_shift :: "'a::len word \<Rightarrow> 'a word \<Rightarrow> 'a word" where
  "crc_shift poly r = (if bit r 0 then drop_bit 1 r XOR poly else drop_bit 1 r)"

definition crc16_bitwise :: "u16 \<Rightarrow> u8 list \<Rightarrow> u16" where
  "crc16_bitwise seed data = foldl (\<lambda>r b. (crc_shift 0xa001 ^^ 8) (r XOR ucast b)) seed data"

lemma pow8: "(f ^^ 8) r = f (f (f (f (f (f (f (f r)))))))"
  by (simp add: eval_nat_numeral)

lemma crc_shift_numeral:
  "crc_shift p (numeral (Num.Bit0 n)) = drop_bit 1 (numeral (Num.Bit0 n))"
  "crc_shift p (numeral (Num.Bit1 n)) = drop_bit 1 (numeral (Num.Bit1 n)) XOR p"
  "crc_shift p 0 = 0" "crc_shift p 1 = p"
  by (simp_all add: crc_shift_def)

lemma crc16_table_all: "crc16_table = map (\<lambda>i. (crc_shift 0xa001 ^^ 8) (word_of_int i)) [0..255]"
  unfolding pow8 crc16_table_def by (simp add: crc_shift_numeral upto_rec1 [of 0] upto_rec1 [of 1])

lemma crc_table_shift: "i < 256 \<Longrightarrow> crc16_table ! i = (crc_shift 0xa001 ^^ 8) (word_of_nat i)"
  unfolding crc16_table_all by (simp add: nth_upto)

lemma crc_shift_xor: "crc_shift p (x XOR y) = crc_shift p x XOR crc_shift p y"
  by (auto simp: crc_shift_def bit_xor_iff ac_simps)

lemma crc_shifts_xor: "(crc_shift p ^^ n) (x XOR y) = (crc_shift p ^^ n) x XOR (crc_shift p ^^ n) y"
  by (induction n) (simp_all add: crc_shift_xor)

lemma crc_shifts_zero: "take_bit n x = 0 \<Longrightarrow> (crc_shift p ^^ n) x = drop_bit n x"
proof (induction n)
  case (Suc n)
  have z: "\<not> bit x i" if "i < Suc n" for i
    using Suc.prems that by (metis bit_0_eq bit_take_bit_iff bot_apply bot_bool_def)
  have "take_bit n x = 0" by (rule bit_word_eqI) (use z in \<open>auto simp: bit_take_bit_iff\<close>)
  then have "(crc_shift p ^^ Suc n) x = crc_shift p (drop_bit n x)" using Suc.IH by simp
  also have "\<dots> = drop_bit (Suc n) x" using z [of n] by (simp add: crc_shift_def bit_drop_bit_eq)
  finally show ?case .
qed simp

lemma ff_mask: "(0xff :: 'a::len word) = mask 8" "(0xffff :: 'a word) = mask 16"
  by (simp_all add: mask_eq_exp_minus_1)

lemma bit_ff: "bit ((x :: 'a::len word) AND 0xff) n \<longleftrightarrow> n < 8 \<and> bit x n"
  unfolding ff_mask and.commute [of x] take_bit_eq_mask [symmetric]
  by (auto simp: take_bit_eq_mask bit_and_iff bit_mask_iff dest: bit_imp_le_length)

lemma crc_shifts_split: "(crc_shift p ^^ 8) r = drop_bit 8 r XOR (crc_shift p ^^ 8) (r AND 0xff)"
proof -
  have hi: "take_bit 8 (r XOR (r AND 0xff)) = 0"
    by (rule bit_word_eqI) (auto simp: bit_take_bit_iff bit_xor_iff bit_ff simp del: and_numerals)
  have "drop_bit 8 (r XOR (r AND 0xff)) = drop_bit 8 r"
    by (rule bit_word_eqI) (auto simp only: bit_drop_bit_eq comp_def bit_xor_iff bit_ff)
  moreover have "r = (r XOR (r AND 0xff)) XOR (r AND 0xff)" by (simp add: xor.assoc)
  ultimately show ?thesis
    using crc_shifts_xor [of 8 p "r XOR (r AND 0xff)" "r AND 0xff"] crc_shifts_zero [OF hi, of p] by metis
qed

lemma crc16_step_shift:
  fixes r :: u16
  shows "crc16_step (ucast r) b = ucast ((crc_shift 0xa001 ^^ 8) (r XOR ucast b))"
proof -
  define x :: u16 where "x = r XOR ucast b"
  have idx: "(ucast r XOR ucast b :: u32) AND 0xff = ucast (x AND 0xff)"
    by (rule bit_word_eqI) (auto simp: bit_ff bit_xor_iff bit_ucast_iff x_def dest: bit_imp_le_length)
  have lt: "unat (x AND 0xff) < 256"
  proof -
    have "x AND 0xff = take_bit 8 x" by (simp only: ff_mask take_bit_eq_mask)
    moreover have "unat (take_bit 8 x) = take_bit 8 (unat x)" by (rule unsigned_take_bit_eq)
    ultimately show ?thesis by (simp add: take_bit_eq_mod [of 8 "unat x"])
  qed
  have "unat (ucast (x AND 0xff) :: u32) = unat (x AND 0xff)"
    using lt by (simp add: unsigned_ucast_eq take_bit_eq_mod)
  then have tab: "crc16_table ! unat ((ucast r XOR ucast b :: u32) AND 0xff) = (crc_shift 0xa001 ^^ 8) (x AND 0xff)"
    unfolding idx using crc_table_shift [OF lt] by simp
  have dx: "drop_bit 8 x = drop_bit 8 r"
    by (rule bit_word_eqI) (auto simp: x_def bit_drop_bit_eq bit_xor_iff bit_ucast_iff dest: bit_imp_le_length)
  have dr: "drop_bit 8 (ucast r :: u32) AND 0xff = ucast (drop_bit 8 r)"
    by (rule bit_word_eqI) (auto simp: bit_ff bit_drop_bit_eq bit_ucast_iff dest: bit_imp_le_length)
  have "crc16_step (ucast r) b = ucast (drop_bit 8 r XOR (crc_shift 0xa001 ^^ 8) (x AND 0xff))"
    unfolding crc16_step_def tab dr
    by (rule bit_word_eqI) (auto simp: ff_mask bit_and_iff bit_mask_iff bit_xor_iff bit_ucast_iff dest: bit_imp_le_length)
  then show ?thesis using crc_shifts_split [of _ x] dx by (simp add: x_def)
qed

text \<open>
  The table-driven \<open>crc16\<close> computes the CRC of the polynomial 0xa001 (reflected), shifted in
  one bit at a time, for every seed and all data.\<close>

theorem crc16_correct: "crc16 seed data = crc16_bitwise seed data"
proof -
  have "foldl crc16_step (ucast seed) data = ucast (crc16_bitwise seed data)"
    unfolding crc16_bitwise_def
    by (induction data arbitrary: seed) (simp_all add: crc16_step_shift)
  moreover have "(ucast (ucast v :: u32) :: u16) = v" for v
    by (rule bit_word_eqI) (auto simp: bit_ucast_iff)
  ultimately show ?thesis by (simp add: crc16_def)
qed

section \<open>CRC-32\<close>

definition crc32_byte :: "u32 \<Rightarrow> u32" where
  "crc32_byte b = ((\<lambda>b. (if b AND 1 \<noteq> 0 then 0 else 0x82f63b78) XOR drop_bit 1 b) ^^ 8) b XOR 0xff000000"

text \<open>
  The tables of bytes and of words. The inner loop of \<open>crc32_init_tables\<close> runs over the four
  bytes of a word with the byte \<open>i\<close> at position \<open>k\<close>; its variable has 64 bits.
\<close>

type_synonym crc32_tables = "u32 list \<times> u32 list"

definition init_word :: "u32 list \<Rightarrow> nat \<Rightarrow> nat \<Rightarrow> u64" where
  "init_word table k i =
     foldl (\<lambda>w j. ucast (table ! unat (ucast (if j = k then w XOR word_of_nat i else w) :: u8)) XOR drop_bit 8 w)
       0 [0..<4]"

definition init_row :: "u32 list \<Rightarrow> u32 list \<Rightarrow> nat \<Rightarrow> u32 list" where
  "init_row table wtable k =
     foldl (\<lambda>wt i. wt[k * 256 + i := ucast (init_word table k i) XOR (if k \<noteq> 0 then wt ! 0 else 0)])
       wtable [0..<256]"

definition crc32_init_tables :: "crc32_tables \<Rightarrow> crc32_tables" where
  "crc32_init_tables T =
     (let table = foldl (\<lambda>t i. t[i := crc32_byte (word_of_nat i)]) (fst T) [0..<256]
      in (table, foldl (init_row table) (snd T) [0..<4]))"

definition word_le :: "u8 \<Rightarrow> u8 \<Rightarrow> u8 \<Rightarrow> u8 \<Rightarrow> u32" where
  "word_le a b c d = ucast a OR push_bit 8 (ucast b) OR push_bit 16 (ucast c) OR push_bit 24 (ucast d)"

definition crc32_word :: "u32 list \<Rightarrow> u32 \<Rightarrow> u32" where
  "crc32_word wtable a =
     foldl (\<lambda>crc j. crc XOR wtable ! (j * 256 + unat (ucast (drop_bit (8 * j) a) :: u8))) 0 [0..<4]"

text \<open>The loop over whole words, with the bytes that are left, and the loop over these.\<close>

fun crc32_words :: "u32 list \<Rightarrow> u32 \<Rightarrow> u8 list \<Rightarrow> u32 \<times> u8 list" where
  "crc32_words wtable crc (a # b # c # d # rest) =
     crc32_words wtable (crc32_word wtable (crc XOR word_le a b c d)) rest"
| "crc32_words wtable crc rest = (crc, rest)"

fun crc32_tail :: "u32 list \<Rightarrow> u32 \<Rightarrow> u8 list \<Rightarrow> u32 option" where
  "crc32_tail table crc [] = Some crc"
| "crc32_tail table crc (b # bs) =
     (let i = unat (ucast crc :: u8) + unat b in
      if i < length table then crc32_tail table (table ! i XOR drop_bit 8 crc) bs else None)"

definition crc32 :: "crc32_tables \<Rightarrow> u32 \<Rightarrow> u8 list \<Rightarrow> u32 option \<times> crc32_tables" where
  "crc32 T seed data =
     (let T = (if fst T ! 0 = 0 then crc32_init_tables T else T);
          (crc, rest) = crc32_words (snd T) seed data
      in (crc32_tail (fst T) crc rest, T))"

text \<open>The tables as the program starts: static arrays of zeros.\<close>

definition crc32_static :: crc32_tables where
  "crc32_static = (replicate 256 0, replicate 1024 0)"

subsection \<open>Division one bit at a time\<close>

abbreviation crc32c_shift :: "u32 \<Rightarrow> u32" where
  "crc32c_shift \<equiv> crc_shift 0x82f63b78"

definition crc32c_bitwise :: "u32 \<Rightarrow> u8 list \<Rightarrow> u32" where
  "crc32c_bitwise r data = foldl (\<lambda>r b. (crc32c_shift ^^ 8) (r XOR ucast b)) r data"

text \<open>The register of the code is the complement; a step on it is affine with the constant \<open>crc_const\<close>.\<close>

abbreviation crc_const :: u32 where
  "crc_const \<equiv> 0x527d5351"

lemma crc_const_val: "NOT ((crc32c_shift ^^ 8) (- 1)) = crc_const"
  by code_simp

lemma crc_shifts_affine:
  "((\<lambda>b. crc_shift p b XOR c) ^^ n) b = (crc_shift p ^^ n) b XOR ((\<lambda>b. crc_shift p b XOR c) ^^ n) 0"
  by (induction n) (simp_all add: crc_shift_xor ac_simps)

lemma crc32_byte_shift: "crc32_byte b = (crc32c_shift ^^ 8) b XOR crc_const"
proof -
  have f: "(\<lambda>b. (if b AND 1 \<noteq> 0 then 0 else 0x82f63b78) XOR drop_bit 1 b) = (\<lambda>b. crc32c_shift b XOR 0x82f63b78)"
    using and_push_bit_1_iff [of 0 "_ :: u32"] by (auto simp: fun_eq_iff crc_shift_def ac_simps)
  have "((\<lambda>b. crc32c_shift b XOR 0x82f63b78) ^^ 8) 0 XOR 0xff000000 = crc_const" by code_simp
  then show ?thesis unfolding crc32_byte_def f crc_shifts_affine [of _ _ _ b] by (simp add: xor.assoc)
qed

definition sh8 :: "u32 \<Rightarrow> u32" where
  "sh8 = crc32c_shift ^^ 8"

definition byte_table :: "u32 list" where
  "byte_table = map (\<lambda>i. crc32_byte (word_of_nat i)) [0..<256]"

lemma byte_table_step: "byte_table ! unat (ucast w :: u8) XOR drop_bit 8 w = sh8 w XOR crc_const"
proof -
  have i: "word_of_nat (unat (ucast w :: u8)) = w AND 0xff"
    by (simp add: ff_mask take_bit_eq_mask [symmetric] unsigned_ucast_eq) (rule bit_word_eqI, auto simp: bit_simps)
  have "unat (ucast w :: u8) < 256" by simp
  then have "byte_table ! unat (ucast w :: u8) = sh8 (w AND 0xff) XOR crc_const"
    using i by (simp add: byte_table_def crc32_byte_shift sh8_def)
  then show ?thesis using crc_shifts_split [of "0x82f63b78" w] by (simp add: sh8_def ac_simps)
qed

lemma byte_table_step64:
  "ucast (byte_table ! unat (ucast (ucast w :: u64) :: u8)) XOR drop_bit 8 (ucast w) = (ucast (sh8 (w :: u32) XOR crc_const) :: u64)"
proof -
  have i: "(ucast (ucast w :: u64) :: u8) = ucast w" by (rule bit_word_eqI) (auto simp: bit_ucast_iff)
  have d: "drop_bit 8 (ucast w :: u64) = ucast (drop_bit 8 w)"
    by (rule bit_word_eqI) (auto simp: bit_ucast_iff bit_drop_bit_eq dest: bit_imp_le_length)
  show ?thesis unfolding i d byte_table_step [symmetric]
    by (rule bit_word_eqI) (auto simp: bit_ucast_iff bit_xor_iff)
qed

lemma byte_table_step_at:
  assumes "i < 256"
  shows "ucast (byte_table ! unat (ucast (ucast w XOR word_of_nat i :: u64) :: u8)) XOR drop_bit 8 (ucast w)
    = (ucast (sh8 (w XOR word_of_nat i) XOR crc_const) :: u64)"
proof -
  have hi: "\<not> bit i n" if "n \<ge> 8" for n
  proof -
    have "i < 2 ^ n" using assms power_increasing [OF that, of "2 :: nat"] by simp
    then show ?thesis by (simp add: bit_iff_odd)
  qed
  have eq: "(ucast w XOR word_of_nat i :: u64) = ucast (w XOR word_of_nat i)"
    by (rule bit_word_eqI) (use hi in \<open>auto simp: bit_ucast_iff bit_xor_iff bit_of_nat_iff dest: bit_imp_le_length\<close>)
  have "drop_bit 8 (ucast w :: u64) = drop_bit 8 (ucast (w XOR word_of_nat i))"
    by (rule bit_word_eqI) (use hi in \<open>auto simp: bit_drop_bit_eq bit_ucast_iff bit_xor_iff bit_of_nat_iff\<close>)
  then show ?thesis unfolding eq using byte_table_step64 [of "w XOR word_of_nat i"] by simp
qed

abbreviation c4 :: u32 where
  "c4 \<equiv> ((\<lambda>w. sh8 w XOR crc_const) ^^ 4) 0"

lemma sh8_xor: "sh8 (x XOR y) = sh8 x XOR sh8 y"
  unfolding sh8_def by (rule crc_shifts_xor)

lemma sh8_0: "sh8 0 = 0"
  using sh8_xor [of 0 0] by simp

lemma init_word_val:
  assumes "i < 256" "k < 4"
  shows "init_word byte_table k i = ucast ((sh8 ^^ (4 - k)) (word_of_nat i) XOR c4)"
proof -
  have l: "[0..<4] = [0, 1, 2, 3 :: nat]" by (simp add: upt_rec)
  have z: "(0 :: u64) = ucast (0 :: u32)" by simp
  have pow: "(f ^^ 1) v = f v" "(f ^^ 2) v = f (f v)" "(f ^^ 3) v = f (f (f v))" "(f ^^ 4) v = f (f (f (f v)))"
    for f :: "u32 \<Rightarrow> u32" and v
    by (simp_all add: numeral_eq_Suc)
  have "k = 0 \<or> k = 1 \<or> k = 2 \<or> k = 3" using assms(2) by linarith
  then have "init_word byte_table k i = ucast (foldl (\<lambda>w j. sh8 (if j = k then w XOR word_of_nat i else w) XOR crc_const) 0 [0..<4])"
    unfolding init_word_def l z
    by (elim disjE) (simp_all add: byte_table_step64 byte_table_step_at [OF assms(1)] del: unsigned_0)
  moreover from \<open>k = 0 \<or> k = 1 \<or> k = 2 \<or> k = 3\<close>
  have "foldl (\<lambda>w j. sh8 (if j = k then w XOR word_of_nat i else w) XOR crc_const) 0 [0..<4]
    = (sh8 ^^ (4 - k)) (word_of_nat i) XOR c4"
    unfolding l by (elim disjE) (simp_all add: pow sh8_xor sh8_0 ac_simps)
  ultimately show ?thesis by simp
qed

subsection \<open>The tables\<close>

lemma foldl_update_length [simp]: "length (foldl (\<lambda>xs i. xs[g i := f xs i]) xs is) = length xs"
  by (induction "is" arbitrary: xs) simp_all

lemma foldl_update_nth:
  "j < length xs \<Longrightarrow> foldl (\<lambda>xs i. xs[b + i := f i]) xs [0..<n] ! j = (if b \<le> j \<and> j < b + n then f (j - b) else xs ! j)"
proof (induction n)
  case (Suc n)
  show ?case
  proof (cases "j = b + n")
    case True
    with Suc.prems show ?thesis by simp
  next
    case False
    with Suc show ?thesis by auto
  qed
qed auto

lemma foldl_update_head:
  "0 < b \<Longrightarrow> xs \<noteq> [] \<Longrightarrow> foldl (\<lambda>xs i. xs[b + i := f i (xs ! 0)]) xs [0..<n] = foldl (\<lambda>ys i. ys[b + i := f i (xs ! 0)]) xs [0..<n]"
proof (induction n)
  case (Suc n)
  have "foldl (\<lambda>ys i. ys[b + i := f i (xs ! 0)]) xs [0..<n] ! 0 = xs ! 0"
    using Suc.prems foldl_update_nth [of 0 xs b "\<lambda>i. f i (xs ! 0)" n] by simp
  with Suc show ?case by simp
qed simp

lemma init_row_nth:
  assumes "j < length wt"
  shows "init_row t wt k ! j = (if k * 256 \<le> j \<and> j < k * 256 + 256
    then ucast (init_word t k (j - k * 256)) XOR (if k \<noteq> 0 then wt ! 0 else 0) else wt ! j)"
proof (cases "k = 0")
  case True
  then show ?thesis
    using foldl_update_nth [OF assms, of 0 "\<lambda>i. ucast (init_word t 0 i)" 256] by (simp add: init_row_def)
next
  case False
  then have "init_row t wt k = foldl (\<lambda>xs i. xs[k * 256 + i := ucast (init_word t k i) XOR wt ! 0]) wt [0..<256]"
    using foldl_update_head [of "k * 256" wt "\<lambda>i z. ucast (init_word t k i) XOR z" 256] assms by (cases wt) (simp_all add: init_row_def)
  then show ?thesis
    using False foldl_update_nth [OF assms, of "k * 256" "\<lambda>i. ucast (init_word t k i) XOR wt ! 0" 256] by simp
qed

lemma init_row_length [simp]: "length (init_row t wt k) = length wt"
  by (simp add: init_row_def)

definition tables_ready :: "crc32_tables \<Rightarrow> bool" where
  "tables_ready T \<longleftrightarrow> fst T = byte_table \<and>
     (\<forall>k<4. \<forall>i<256. snd T ! (k * 256 + i) = (sh8 ^^ (4 - k)) (word_of_nat i) XOR (if k = 0 then c4 else 0))"

lemma init_tables_ready:
  assumes "length (fst T) = 256" "length (snd T) = 1024"
  shows "tables_ready (crc32_init_tables T)"
proof -
  have t: "foldl (\<lambda>t i. t[i := crc32_byte (word_of_nat i)]) (fst T) [0..<256] = byte_table"
    using foldl_update_nth [of _ "fst T" 0 "\<lambda>i. crc32_byte (word_of_nat i)" 256] assms(1)
    by (intro nth_equalityI) (simp_all add: byte_table_def)
  have l: "[0..<4] = [0, 1, 2, 3 :: nat]" by (simp add: upt_rec)
  have down: "(ucast (ucast v :: u64) :: u32) = v" for v :: u32 by (rule bit_word_eqI) (auto simp: bit_ucast_iff)
  have zero: "(sh8 ^^ n) 0 = 0" for n by (induction n) (simp_all add: sh8_0)
  have "foldl (init_row byte_table) (snd T) [0..<4] ! (k * 256 + i)
    = (sh8 ^^ (4 - k)) (word_of_nat i) XOR (if k = 0 then c4 else 0)" if "k < 4" "i < 256" for k i
  proof -
    have "k = 0 \<or> k = 1 \<or> k = 2 \<or> k = 3" using that by linarith
    then show ?thesis
      using that assms(2) unfolding l
      by (elim disjE) (simp_all add: init_row_nth init_word_val down zero xor.assoc)
  qed
  then show ?thesis by (simp add: tables_ready_def crc32_init_tables_def Let_def t)
qed

subsection \<open>Messages\<close>

lemma sh8_power: "(sh8 ^^ n) x = (crc32c_shift ^^ (8 * n)) x"
  by (induction n) (simp_all add: sh8_def funpow_add)

lemma sh8_power_xor: "(sh8 ^^ n) (x XOR y) = (sh8 ^^ n) x XOR (sh8 ^^ n) y"
  unfolding sh8_power by (rule crc_shifts_xor)

lemma sh8_push: "k \<le> 4 \<Longrightarrow> (sh8 ^^ k) (push_bit (8 * k) (ucast (b :: u8))) = take_bit (32 - 8 * k) (ucast b)"
proof -
  assume "k \<le> 4"
  have "(sh8 ^^ k) (push_bit (8 * k) (ucast b)) = drop_bit (8 * k) (push_bit (8 * k) (ucast b))"
    unfolding sh8_power by (rule crc_shifts_zero) (rule bit_word_eqI, auto simp: bit_simps)
  also have "\<dots> = take_bit (32 - 8 * k) (ucast b)"
    by (rule bit_word_eqI) (auto simp: bit_simps dest: bit_imp_le_length)
  finally show ?thesis .
qed

lemma sh8_bytes:
  assumes "k < 4"
  shows "(sh8 ^^ (4 - k)) (ucast (b :: u8)) = (sh8 ^^ 4) (push_bit (8 * k) (ucast b))"
proof -
  have "take_bit (32 - 8 * k) (ucast b :: u32) = ucast b"
    by (rule bit_word_eqI) (use assms in \<open>auto simp: bit_simps dest: bit_imp_le_length\<close>)
  then have "(sh8 ^^ k) (push_bit (8 * k) (ucast b)) = ucast b" using sh8_push [of k b] assms by simp
  then have "(sh8 ^^ (4 - k)) ((sh8 ^^ k) (push_bit (8 * k) (ucast b))) = (sh8 ^^ (4 - k)) (ucast b)" by simp
  moreover have "(sh8 ^^ (4 - k)) ((sh8 ^^ k) x) = (sh8 ^^ 4) x" for x
    using assms by (metis comp_apply funpow_add le_add_diff_inverse2 less_imp_le_nat)
  ultimately show ?thesis by simp
qed

abbreviation byte_of :: "nat \<Rightarrow> u32 \<Rightarrow> u8" where
  "byte_of k a \<equiv> ucast (drop_bit (8 * k) a)"

lemma bytes_of_word:
  "ucast (byte_of 0 a) XOR push_bit 8 (ucast (byte_of 1 a)) XOR push_bit 16 (ucast (byte_of 2 a))
    XOR push_bit 24 (ucast (byte_of 3 a)) = (a :: u32)" (is "?w = _")
proof (rule bit_word_eqI)
  fix n assume "n < LENGTH(32)"
  then have n: "n < 32" by simp
  consider "n < 8" | "8 \<le> n" "n < 16" | "16 \<le> n" "n < 24" | "24 \<le> n" using n by linarith
  then show "bit ?w n = bit a n" using n by cases (auto simp: bit_simps)
qed

lemma crc32_word_affine:
  assumes "tables_ready T"
  shows "crc32_word (snd T) a = (sh8 ^^ 4) a XOR c4"
proof -
  have l: "[0..<4] = [0, 1, 2, 3 :: nat]" by (simp add: upt_rec)
  have e: "snd T ! (k * 256 + unat (b :: u8)) = (sh8 ^^ 4) (push_bit (8 * k) (ucast b)) XOR (if k = 0 then c4 else 0)"
    if "k < 4" for k b
    using assms that sh8_bytes [OF that, of b] by (simp add: tables_ready_def)
  have "crc32_word (snd T) a = (sh8 ^^ 4) (ucast (byte_of 0 a) XOR push_bit 8 (ucast (byte_of 1 a))
      XOR push_bit 16 (ucast (byte_of 2 a)) XOR push_bit 24 (ucast (byte_of 3 a))) XOR c4"
    unfolding crc32_word_def l
    using e [of 0 "byte_of 0 a"] e [of 1 "byte_of 1 a"] e [of 2 "byte_of 2 a"] e [of 3 "byte_of 3 a"]
    by (simp add: sh8_power_xor ac_simps)
  then show ?thesis by (simp only: bytes_of_word)
qed

lemma bitwise_four:
  "crc32c_bitwise r (a # b # c # d # rest) = crc32c_bitwise ((sh8 ^^ 4) (r XOR word_le a b c d)) rest"
proof -
  have w: "word_le a b c d = ucast a XOR push_bit 8 (ucast b) XOR push_bit 16 (ucast c) XOR push_bit 24 (ucast d)"
    unfolding word_le_def by (rule bit_word_eqI) (auto simp: bit_simps dest: bit_imp_le_length)
  have four: "(sh8 ^^ 4) x = sh8 (sh8 (sh8 (sh8 x)))" for x by (simp add: numeral_eq_Suc)
  have "(sh8 ^^ 4) (push_bit 8 (ucast b)) = (sh8 ^^ 3) (ucast b)" "(sh8 ^^ 4) (push_bit 16 (ucast c)) = (sh8 ^^ 2) (ucast c)"
    "(sh8 ^^ 4) (push_bit 24 (ucast d)) = (sh8 ^^ 1) (ucast d)"
    using sh8_bytes [of 1 b] sh8_bytes [of 2 c] sh8_bytes [of 3 d] by simp_all
  then have "(sh8 ^^ 4) (r XOR word_le a b c d) =
      sh8 (sh8 (sh8 (sh8 (r XOR ucast a) XOR ucast b) XOR ucast c) XOR ucast d)"
    unfolding w sh8_power_xor by (simp add: sh8_xor four numeral_eq_Suc ac_simps)
  then show ?thesis by (simp add: crc32c_bitwise_def sh8_def)
qed

lemma c4_val: "c4 = NOT ((sh8 ^^ 4) (- 1))"
proof -
  have n: "NOT x = x XOR - 1" for x :: u32 by simp
  have c: "crc_const = sh8 (- 1) XOR - 1" using crc_const_val by (simp add: sh8_def)
  have four: "(f ^^ 4) x = f (f (f (f x)))" for f :: "u32 \<Rightarrow> u32" and x by (simp add: numeral_eq_Suc)
  show ?thesis unfolding four c n sh8_xor sh8_0 by (simp only: ac_simps xor_self_eq xor.left_neutral xor.right_neutral) simp
qed

lemma crc32_words_bitwise:
  assumes "tables_ready T"
  shows "4 dvd length data \<Longrightarrow> crc32_words (snd T) crc data = (NOT (crc32c_bitwise (NOT crc) data), [])"
proof (induction "snd T" crc data rule: crc32_words.induct)
  case (1 crc a b c d rest)
  have n: "NOT x = x XOR - 1" for x :: u32 by simp
  have "crc32_word (snd T) (crc XOR word_le a b c d) = NOT ((sh8 ^^ 4) (NOT crc XOR word_le a b c d))"
    unfolding crc32_word_affine [OF assms] c4_val n sh8_power_xor by (simp only: ac_simps)
  moreover have "4 dvd length rest" using 1(2) by simp presburger
  ultimately show ?case using 1(1) by (simp add: bitwise_four)
qed (simp_all add: crc32c_bitwise_def, presburger+)

lemma static_tables: "length (fst crc32_static) = 256" "length (snd crc32_static) = 1024" "fst crc32_static ! 0 = 0"
  unfolding crc32_static_def fst_conv snd_conv length_replicate by simp_all

definition tables_ok :: "crc32_tables \<Rightarrow> bool" where
  "tables_ok T \<longleftrightarrow> T = crc32_static \<or> tables_ready T"

lemma crc32_run:
  assumes "tables_ok T" "4 dvd length data"
  obtains T' where "crc32 T seed data = (Some (NOT (crc32c_bitwise (NOT seed) data)), T')" "tables_ready T'"
proof -
  have first: "byte_table ! 0 \<noteq> 0"
    by (simp add: byte_table_def crc32_byte_shift crc_shifts_zero)
  let ?T = "if fst T ! 0 = 0 then crc32_init_tables T else T"
  have "fst T ! 0 = 0 \<Longrightarrow> T = crc32_static" using assms(1) first by (auto simp: tables_ready_def tables_ok_def)
  then have T: "tables_ready ?T"
    using assms(1) init_tables_ready [of crc32_static] static_tables by (auto simp: tables_ok_def)
  have "crc32 T seed data = (Some (NOT (crc32c_bitwise (NOT seed) data)), ?T)"
    using crc32_words_bitwise [OF T assms(2)] by (simp add: crc32_def Let_def)
  then show thesis using T by (rule that)
qed

text \<open>
  C33: For data whose length is a multiple of four, as the checksums of group descriptors and inodes have
  it, \<open>crc32\<close> is the CRC-32C of the data with the register complemented before and after,
  whether its tables are built by this call or by an earlier one, which leaves them fit for the next.\<close>

theorem crc32_correct:
  assumes "4 dvd length data" "T = crc32_static \<or> tables_ready T"
  shows "\<exists>T'. crc32 T seed data = (Some (NOT (crc32c_bitwise (NOT seed) data)), T') \<and> tables_ready T'"
  by (metis assms crc32_run tables_ok_def)

lemma crc32_correct_witness:
  "\<exists>T'. crc32 crc32_static 0 [0x31, 0x32, 0x33, 0x34] = (Some 0xf63af4ee, T') \<and> tables_ready T'"
proof -
  have val: "NOT (crc32c_bitwise (NOT 0) [0x31, 0x32, 0x33, 0x34]) = 0xf63af4ee"
    by (simp add: crc32c_bitwise_def pow8 crc_shift_def)
  have len: "4 dvd length [0x31, 0x32, 0x33, 0x34 :: u8]" by code_simp
  show ?thesis using crc32_correct [OF len disjI1 [OF refl], of 0] unfolding val .
qed

text \<open>The loop over the last bytes adds the data to the register where it should combine them with exclusive or.\<close>

theorem crc32_tail_out_of_bounds: "fst (crc32 crc32_static 0xffffffff [0xff]) = None"
proof -
  have "tables_ready (crc32_init_tables crc32_static)" by (rule init_tables_ready) (simp_all add: static_tables)
  then have "length (fst (crc32_init_tables crc32_static)) = 256" by (simp add: tables_ready_def byte_table_def)
  then show ?thesis by (simp add: crc32_def Let_def static_tables)
qed

end
