(* ===== verification/Pml_Bytes.thy ===== *)
theory Pml_Bytes
  imports Pml_Memory
begin

text \<open>
  Little-endian numbers in sequences of bytes: the layout of structures that the code reads from the disk, or
  copies byte by byte.
\<close>

section \<open>Reading and writing numbers\<close>

text \<open>Little-endian numbers; bytes that are not there read as zero.\<close>

definition get_le :: "u8 list \<Rightarrow> nat \<Rightarrow> nat \<Rightarrow> nat" where
  "get_le bs off n = foldr (\<lambda>b v. unat b + 256 * v) (take n (drop off bs)) 0"

fun put_le :: "nat \<Rightarrow> nat \<Rightarrow> u8 list" where
  "put_le 0 v = []"
| "put_le (Suc n) v = word_of_nat v # put_le n (v div 256)"

abbreviation le2 :: "u16 \<Rightarrow> u8 list" where "le2 w \<equiv> put_le 2 (unat w)"
abbreviation le4 :: "u32 \<Rightarrow> u8 list" where "le4 w \<equiv> put_le 4 (unat w)"

lemma put_le_length [simp]: "length (put_le n v) = n"
  by (induction n arbitrary: v) simp_all

lemma get_put_le: "get_le (put_le n v @ ys) 0 n = v mod 256 ^ n"
proof (induction n arbitrary: v)
  case (Suc n)
  have "v mod 256 + 256 * (v div 256 mod 256 ^ n) = v mod (256 * 256 ^ n)" by (simp add: mod_mult2_eq)
  then show ?case using Suc [of "v div 256"] by (simp add: get_le_def unat_word_of_nat8)
qed (simp add: get_le_def)

lemma get_le_skip: "length xs \<le> off \<Longrightarrow> get_le (xs @ ys) off n = get_le ys (off - length xs) n"
  by (simp add: get_le_def)

lemma word_of_put:
  "word_of_nat (get_le (le4 w @ ys) 0 4) = w" "word_of_nat (get_le (le2 v @ ys) 0 2) = v"
  using unsigned_less [of w, where 'a = nat] unsigned_less [of v, where 'a = nat] by (simp_all add: get_put_le)

lemma get_le_take: "off + n \<le> k \<Longrightarrow> get_le (take k xs) off n = get_le xs off n"
  by (simp add: get_le_def drop_take min_def)

lemma get_le_less: "get_le bs off n < 256 ^ n"
proof -
  have "foldr (\<lambda>b v. unat b + 256 * v) xs 0 < 256 ^ length xs" for xs :: "u8 list"
  proof (induction xs)
    case (Cons x xs)
    have "unat x < 256" by simp
    then have "unat x + 256 * foldr (\<lambda>b v. unat b + 256 * v) xs 0 < 256 * (foldr (\<lambda>b v. unat b + 256 * v) xs 0 + 1)" by simp
    also have "\<dots> \<le> 256 * 256 ^ length xs" using Cons.IH by (intro mult_le_mono2) simp
    finally show ?case by simp
  qed simp
  then have "get_le bs off n < 256 ^ length (take n (drop off bs))" unfolding get_le_def .
  also have "\<dots> \<le> 256 ^ n" by (rule power_increasing) simp_all
  finally show ?thesis .
qed

lemma get_le_zeros [simp]: "get_le (replicate k 0) off n = 0"
proof -
  have "foldr (\<lambda>b v. unat b + 256 * v) (replicate m 0) 0 = (0 :: nat)" for m by (induction m) simp_all
  then show ?thesis by (simp add: get_le_def take_replicate drop_replicate)
qed

end
