(* ===== verification/Pml_Ext2.thy ===== *)
theory Pml_Ext2
  imports Pml_Crc Pml_Bytes Pml_Stdlib Pml_Memory Pml_Map "HOL-Library.Monad_Syntax"
begin

text \<open>
  The on-disk structures of the ext2 driver and the functions on them: the superblock and the block
  group descriptors (include/pml/ext2fs.h), their layout on the disk, the geometry of block groups,
  the counters and flags of a group (drivers/fs/ext2/util.c) and the checksums of superblock,
  descriptors and bitmaps (drivers/fs/ext2/checksum.c). Block numbers are natural numbers below
  \<open>2 ^ 64\<close>, groups below \<open>2 ^ 32\<close>; counters and flags are words of the size they have on the
  disk. The result \<open>None\<close> means an access outside of the table of descriptors (or of a
  table of the checksum). Of the superblock the record has the fields that the modelled code uses.
\<close>

section \<open>Structures\<close>

record ext2_super =
  s_inodes_count :: nat
  s_blocks_count :: nat
  s_r_blocks_count :: nat
  s_free_blocks_count :: u32
  s_free_inodes_count :: u32
  s_first_data_block :: nat
  s_log_block_size :: nat
  s_log_cluster_size :: nat
  s_blocks_per_group :: nat
  s_clusters_per_group :: nat
  s_inodes_per_group :: nat
  s_magic :: nat
  s_rev_level :: nat
  s_first_ino :: nat
  s_inode_size :: nat
  s_feature_incompat :: u32
  s_feature_ro_compat :: u32
  s_uuid :: "u8 list"
  s_reserved_gdt_blocks :: nat
  s_desc_size :: nat
  s_first_meta_bg :: nat
  s_blocks_count_hi :: nat
  s_r_blocks_count_hi :: nat
  s_free_blocks_hi :: u32
  s_backup_bgs :: "nat \<times> nat"
  s_checksum_seed :: u32
  s_checksum :: u32

record ext4_group_desc =
  bg_block_bitmap :: u32
  bg_inode_bitmap :: u32
  bg_inode_table :: u32
  bg_free_blocks_count :: u16
  bg_free_inodes_count :: u16
  bg_used_dirs_count :: u16
  bg_flags :: u16
  bg_exclude_bitmap_lo :: u32
  bg_block_bitmap_csum_lo :: u16
  bg_inode_bitmap_csum_lo :: u16
  bg_itable_unused :: u16
  bg_checksum :: u16
  bg_block_bitmap_hi :: u32
  bg_inode_bitmap_hi :: u32
  bg_inode_table_hi :: u32
  bg_free_blocks_count_hi :: u16
  bg_free_inodes_count_hi :: u16
  bg_used_dirs_count_hi :: u16
  bg_itable_unused_hi :: u16
  bg_exclude_bitmap_hi :: u32
  bg_block_bitmap_csum_hi :: u16
  bg_inode_bitmap_csum_hi :: u16
  bg_reserved :: u32
  bg_rest :: "u8 list"

text \<open>
  A mounted file system. \<open>bg_rest\<close> above holds the bytes of a descriptor behind the structure
  when \<open>s_desc_size\<close> is larger; \<open>crc_tables\<close> are the static tables of util/crc32.c.
  The type of the bitmaps is a parameter here, they are modelled in the next theory.
\<close>

record 'bm ext2_fs =
  super :: ext2_super
  mflags :: u32
  flags :: u32
  blksize :: nat
  group_desc_count :: nat
  desc_blocks :: nat
  group_desc :: "ext4_group_desc list"
  inode_blocks_per_group :: nat
  block_bitmap :: "'bm option"
  inode_bitmap :: "'bm option"
  cluster_ratio_bits :: nat
  checksum_seed :: u32
  crc_tables :: crc32_tables

section \<open>Constants\<close>

definition EXT2_FT_INCOMPAT_META_BG :: u32 where "EXT2_FT_INCOMPAT_META_BG = push_bit 4 1"
definition EXT3_FT_INCOMPAT_JOURNAL_DEV :: u32 where "EXT3_FT_INCOMPAT_JOURNAL_DEV = push_bit 3 1"
definition EXT4_FT_INCOMPAT_64BIT :: u32 where "EXT4_FT_INCOMPAT_64BIT = push_bit 7 1"
definition EXT4_FT_INCOMPAT_MMP :: u32 where "EXT4_FT_INCOMPAT_MMP = push_bit 8 1"
definition EXT4_FT_INCOMPAT_EA_INODE :: u32 where "EXT4_FT_INCOMPAT_EA_INODE = push_bit 10 1"
definition EXT4_FT_INCOMPAT_CSUM_SEED :: u32 where "EXT4_FT_INCOMPAT_CSUM_SEED = push_bit 13 1"
definition EXT2_FT_RO_COMPAT_SPARSE_SUPER :: u32 where "EXT2_FT_RO_COMPAT_SPARSE_SUPER = push_bit 0 1"
definition EXT4_FT_RO_COMPAT_GDT_CSUM :: u32 where "EXT4_FT_RO_COMPAT_GDT_CSUM = push_bit 4 1"
definition EXT4_FT_RO_COMPAT_BIGALLOC :: u32 where "EXT4_FT_RO_COMPAT_BIGALLOC = push_bit 9 1"
definition EXT4_FT_RO_COMPAT_METADATA_CSUM :: u32 where "EXT4_FT_RO_COMPAT_METADATA_CSUM = push_bit 10 1"

text \<open>The features that the driver supports, by the numbers of their bits.\<close>

definition EXT2_INCOMPAT_SUPPORT :: u32 where
  "EXT2_INCOMPAT_SUPPORT = foldr (\<lambda>i w. push_bit i 1 OR w) [1, 4, 2, 6, 9, 10, 8, 7, 15, 16, 17, 13, 14] 0"

definition EXT2_RO_COMPAT_SUPPORT :: u32 where
  "EXT2_RO_COMPAT_SUPPORT = foldr (\<lambda>i w. push_bit i 1 OR w) [0, 3, 1, 5, 6, 4, 9, 8, 10, 12, 13, 14, 15] 0"

definition EXT2_BG_INODE_UNINIT :: u16 where "EXT2_BG_INODE_UNINIT = push_bit 0 1"
definition EXT2_BG_BLOCK_UNINIT :: u16 where "EXT2_BG_BLOCK_UNINIT = push_bit 1 1"

definition EXT2_FLAG_CHANGED :: u32 where "EXT2_FLAG_CHANGED = push_bit 0 1"
definition EXT2_FLAG_DIRTY :: u32 where "EXT2_FLAG_DIRTY = push_bit 1 1"
definition EXT2_FLAG_IB_DIRTY :: u32 where "EXT2_FLAG_IB_DIRTY = push_bit 3 1"
definition EXT2_FLAG_BB_DIRTY :: u32 where "EXT2_FLAG_BB_DIRTY = push_bit 4 1"
definition EXT2_FLAG_64BIT :: u32 where "EXT2_FLAG_64BIT = push_bit 5 1"

definition incompat :: "ext2_super \<Rightarrow> u32 \<Rightarrow> bool" where
  "incompat s f \<longleftrightarrow> s_feature_incompat s AND f \<noteq> 0"

definition ro_compat :: "ext2_super \<Rightarrow> u32 \<Rightarrow> bool" where
  "ro_compat s f \<longleftrightarrow> s_feature_ro_compat s AND f \<noteq> 0"

definition EXT2_BLOCK_SIZE :: "ext2_super \<Rightarrow> nat" where
  "EXT2_BLOCK_SIZE s = push_bit (s_log_block_size s) 1024"

definition EXT2_CLUSTER_SIZE :: "ext2_super \<Rightarrow> nat" where
  "EXT2_CLUSTER_SIZE s = push_bit (s_log_cluster_size s) 1024"

definition EXT2_INODE_SIZE :: "ext2_super \<Rightarrow> nat" where
  "EXT2_INODE_SIZE s = (if s_rev_level s = 0 then 128 else s_inode_size s)"

definition EXT2_FIRST_INODE :: "ext2_super \<Rightarrow> nat" where
  "EXT2_FIRST_INODE s = (if s_rev_level s = 0 then 11 else s_first_ino s)"

definition EXT2_DESC_SIZE :: "ext2_super \<Rightarrow> nat" where
  "EXT2_DESC_SIZE s = (if incompat s EXT4_FT_INCOMPAT_64BIT then s_desc_size s else 32)"

definition EXT2_INODES_PER_BLOCK :: "ext2_super \<Rightarrow> nat" where
  "EXT2_INODES_PER_BLOCK s = EXT2_BLOCK_SIZE s div EXT2_INODE_SIZE s"

definition EXT2_DESC_PER_BLOCK :: "ext2_super \<Rightarrow> nat" where
  "EXT2_DESC_PER_BLOCK s = EXT2_BLOCK_SIZE s div EXT2_DESC_SIZE s"

definition EXT2_MAX_BLOCKS_PER_GROUP :: "ext2_super \<Rightarrow> nat" where
  "EXT2_MAX_BLOCKS_PER_GROUP s = 65528 * (EXT2_CLUSTER_SIZE s div EXT2_BLOCK_SIZE s) mod 2 ^ 32"

definition EXT2_MAX_INODES_PER_GROUP :: "ext2_super \<Rightarrow> nat" where
  "EXT2_MAX_INODES_PER_GROUP s = 65536 - EXT2_INODES_PER_BLOCK s"

definition EXT2_CLUSTER_RATIO :: "'bm ext2_fs \<Rightarrow> nat" where
  "EXT2_CLUSTER_RATIO fs = push_bit (cluster_ratio_bits fs) 1"

definition EXT2_CLUSTER_MASK :: "'bm ext2_fs \<Rightarrow> nat" where
  "EXT2_CLUSTER_MASK fs = EXT2_CLUSTER_RATIO fs - 1"

definition EXT2_B2C :: "'bm ext2_fs \<Rightarrow> nat \<Rightarrow> nat" where
  "EXT2_B2C fs block = drop_bit (cluster_ratio_bits fs) block"

definition EXT2_NUM_B2C :: "'bm ext2_fs \<Rightarrow> nat \<Rightarrow> nat" where
  "EXT2_NUM_B2C fs blocks = drop_bit (cluster_ratio_bits fs) (blocks + EXT2_CLUSTER_MASK fs)"

section \<open>Counts of the superblock and the geometry of groups\<close>

definition ext2_blocks_count :: "ext2_super \<Rightarrow> nat" where
  "ext2_blocks_count s =
     s_blocks_count s OR (if incompat s EXT4_FT_INCOMPAT_64BIT then push_bit 32 (s_blocks_count_hi s) else 0)"

definition ext2_r_blocks_count :: "ext2_super \<Rightarrow> nat" where
  "ext2_r_blocks_count s =
     s_r_blocks_count s OR (if incompat s EXT4_FT_INCOMPAT_64BIT then push_bit 32 (s_r_blocks_count_hi s) else 0)"

definition ext2_free_blocks_count :: "ext2_super \<Rightarrow> u64" where
  "ext2_free_blocks_count s =
     ucast (s_free_blocks_count s) OR
     (if incompat s EXT4_FT_INCOMPAT_64BIT then push_bit 32 (ucast (s_free_blocks_hi s)) else 0)"

definition ext2_free_blocks_count_set :: "u64 \<Rightarrow> ext2_super \<Rightarrow> ext2_super" where
  "ext2_free_blocks_count_set blocks s =
     (let s = s\<lparr>s_free_blocks_count := ucast blocks\<rparr> in
      if incompat s EXT4_FT_INCOMPAT_64BIT then s\<lparr>s_free_blocks_hi := ucast (drop_bit 32 blocks)\<rparr> else s)"

definition ext2_free_blocks_count_add :: "u64 \<Rightarrow> ext2_super \<Rightarrow> ext2_super" where
  "ext2_free_blocks_count_add blocks s = ext2_free_blocks_count_set (ext2_free_blocks_count s + blocks) s"

definition ext2_has_group_desc_checksum :: "ext2_super \<Rightarrow> bool" where
  "ext2_has_group_desc_checksum s \<longleftrightarrow>
     ro_compat s (EXT4_FT_RO_COMPAT_GDT_CSUM OR EXT4_FT_RO_COMPAT_METADATA_CSUM)"

definition ext2_group_first_block :: "'bm ext2_fs \<Rightarrow> nat \<Rightarrow> nat" where
  "ext2_group_first_block fs g =
     (s_first_data_block (super fs) + s_blocks_per_group (super fs) * g) mod 2 ^ 64"

definition ext2_group_last_block :: "'bm ext2_fs \<Rightarrow> nat \<Rightarrow> nat" where
  "ext2_group_last_block fs g =
     (if g = (group_desc_count fs + 2 ^ 32 - 1) mod 2 ^ 32 then sub64 (ext2_blocks_count (super fs)) 1
      else sub64 ((ext2_group_first_block fs g + s_blocks_per_group (super fs)) mod 2 ^ 64) 1)"

definition ext2_group_blocks_count :: "'bm ext2_fs \<Rightarrow> nat \<Rightarrow> nat" where
  "ext2_group_blocks_count fs g =
     (if g = (group_desc_count fs + 2 ^ 32 - 1) mod 2 ^ 32
      then let n = sub64 (ext2_blocks_count (super fs)) (s_first_data_block (super fs)) mod s_blocks_per_group (super fs)
           in if n = 0 then s_blocks_per_group (super fs) else n
      else s_blocks_per_group (super fs))"

text \<open>The divisors are not zero: \<open>ext2_openfs\<close> refuses such superblocks.\<close>

definition ext2_group_of_block :: "'bm ext2_fs \<Rightarrow> nat \<Rightarrow> nat" where
  "ext2_group_of_block fs block =
     (sub64 block (s_first_data_block (super fs)) div s_blocks_per_group (super fs)) mod 2 ^ 32"

definition ext2_group_of_inode :: "'bm ext2_fs \<Rightarrow> nat \<Rightarrow> nat" where
  "ext2_group_of_inode fs ino = (sub64 ino 1 div s_inodes_per_group (super fs)) mod 2 ^ 32"

section \<open>Group descriptors\<close>

text \<open>
  \<open>ext4_group_desc\<close> with the descriptors in memory, which is how all callers use it. A group
  behind the last one has no descriptor (the code lets the first such group pass).
\<close>

definition desc_of :: "'bm ext2_fs \<Rightarrow> nat \<Rightarrow> ext4_group_desc option" where
  "desc_of fs g = (if g < length (group_desc fs) then Some (group_desc fs ! g) else None)"

definition update_desc :: "(ext4_group_desc \<Rightarrow> ext4_group_desc) \<Rightarrow> nat \<Rightarrow> 'bm ext2_fs \<Rightarrow> 'bm ext2_fs option" where
  "update_desc f g fs =
     (if g < length (group_desc fs)
      then Some (fs\<lparr>group_desc := (group_desc fs)[g := f (group_desc fs ! g)]\<rparr>) else None)"

definition ext2_bg_test_flags :: "'bm ext2_fs \<Rightarrow> nat \<Rightarrow> u16 \<Rightarrow> bool option" where
  "ext2_bg_test_flags fs g fl = map_option (\<lambda>d. bg_flags d AND fl \<noteq> 0) (desc_of fs g)"

definition ext2_bg_clear_flags :: "'bm ext2_fs \<Rightarrow> nat \<Rightarrow> u16 \<Rightarrow> 'bm ext2_fs option" where
  "ext2_bg_clear_flags fs g fl = update_desc (\<lambda>d. d\<lparr>bg_flags := bg_flags d AND NOT fl\<rparr>) g fs"

definition wide :: "'bm ext2_fs \<Rightarrow> bool" where
  "wide fs \<longleftrightarrow> incompat (super fs) EXT4_FT_INCOMPAT_64BIT"

text \<open>A block number and a counter with a high half that is present in wide descriptors.\<close>

definition join_loc :: "'bm ext2_fs \<Rightarrow> u32 \<Rightarrow> u32 \<Rightarrow> nat" where
  "join_loc fs lo hi = unat (ucast lo OR (if wide fs then push_bit 32 (ucast hi) else 0) :: u64)"

definition join_count :: "'bm ext2_fs \<Rightarrow> u16 \<Rightarrow> u16 \<Rightarrow> u32" where
  "join_count fs lo hi = ucast lo OR (if wide fs then push_bit 16 (ucast hi) else 0)"

definition ext2_block_bitmap_loc :: "'bm ext2_fs \<Rightarrow> nat \<Rightarrow> nat option" where
  "ext2_block_bitmap_loc fs g = map_option (\<lambda>d. join_loc fs (bg_block_bitmap d) (bg_block_bitmap_hi d)) (desc_of fs g)"

definition ext2_inode_bitmap_loc :: "'bm ext2_fs \<Rightarrow> nat \<Rightarrow> nat option" where
  "ext2_inode_bitmap_loc fs g = map_option (\<lambda>d. join_loc fs (bg_inode_bitmap d) (bg_inode_bitmap_hi d)) (desc_of fs g)"

definition ext2_inode_table_loc :: "'bm ext2_fs \<Rightarrow> nat \<Rightarrow> nat option" where
  "ext2_inode_table_loc fs g = map_option (\<lambda>d. join_loc fs (bg_inode_table d) (bg_inode_table_hi d)) (desc_of fs g)"

definition ext2_bg_free_blocks_count :: "'bm ext2_fs \<Rightarrow> nat \<Rightarrow> u32 option" where
  "ext2_bg_free_blocks_count fs g =
     map_option (\<lambda>d. join_count fs (bg_free_blocks_count d) (bg_free_blocks_count_hi d)) (desc_of fs g)"

definition ext2_bg_free_blocks_count_set :: "'bm ext2_fs \<Rightarrow> nat \<Rightarrow> u32 \<Rightarrow> 'bm ext2_fs option" where
  "ext2_bg_free_blocks_count_set fs g blocks =
     update_desc (\<lambda>d. let d = d\<lparr>bg_free_blocks_count := ucast blocks\<rparr> in
        if wide fs then d\<lparr>bg_free_blocks_count_hi := ucast (drop_bit 16 blocks)\<rparr> else d) g fs"

definition ext2_bg_free_inodes_count :: "'bm ext2_fs \<Rightarrow> nat \<Rightarrow> u32 option" where
  "ext2_bg_free_inodes_count fs g =
     map_option (\<lambda>d. join_count fs (bg_free_inodes_count d) (bg_free_inodes_count_hi d)) (desc_of fs g)"

definition ext2_bg_free_inodes_count_set :: "'bm ext2_fs \<Rightarrow> nat \<Rightarrow> u32 \<Rightarrow> 'bm ext2_fs option" where
  "ext2_bg_free_inodes_count_set fs g inodes =
     update_desc (\<lambda>d. let d = d\<lparr>bg_free_inodes_count := ucast inodes\<rparr> in
        if wide fs then d\<lparr>bg_free_inodes_count_hi := ucast (drop_bit 16 inodes)\<rparr> else d) g fs"

definition ext2_bg_used_dirs_count :: "'bm ext2_fs \<Rightarrow> nat \<Rightarrow> u32 option" where
  "ext2_bg_used_dirs_count fs g =
     map_option (\<lambda>d. join_count fs (bg_used_dirs_count d) (bg_used_dirs_count_hi d)) (desc_of fs g)"

definition ext2_bg_used_dirs_count_set :: "'bm ext2_fs \<Rightarrow> nat \<Rightarrow> u32 \<Rightarrow> 'bm ext2_fs option" where
  "ext2_bg_used_dirs_count_set fs g dirs =
     update_desc (\<lambda>d. let d = d\<lparr>bg_used_dirs_count := ucast dirs\<rparr> in
        if wide fs then d\<lparr>bg_used_dirs_count_hi := ucast (drop_bit 16 dirs)\<rparr> else d) g fs"

definition ext2_bg_itable_unused :: "'bm ext2_fs \<Rightarrow> nat \<Rightarrow> u32 option" where
  "ext2_bg_itable_unused fs g =
     map_option (\<lambda>d. join_count fs (bg_itable_unused d) (bg_itable_unused_hi d)) (desc_of fs g)"

definition ext2_bg_itable_unused_set :: "'bm ext2_fs \<Rightarrow> nat \<Rightarrow> u32 \<Rightarrow> 'bm ext2_fs option" where
  "ext2_bg_itable_unused_set fs g unused =
     update_desc (\<lambda>d. let d = d\<lparr>bg_itable_unused := ucast unused\<rparr> in
        if wide fs then d\<lparr>bg_itable_unused_hi := ucast (drop_bit 16 unused)\<rparr> else d) g fs"

section \<open>Backups of the superblock and the descriptors\<close>

text \<open>The loop divides the group by \<open>x\<close>, which is 3, 5 or 7.\<close>

function ext2_bg_super_test_root :: "nat \<Rightarrow> nat \<Rightarrow> bool" where
  "ext2_bg_super_test_root g x =
     (if g < x \<or> x \<le> 1 then False else if g = x then True
      else if g mod x \<noteq> 0 then False else ext2_bg_super_test_root (g div x) x)"
  by pat_completeness auto
termination by (relation "measure fst") auto

declare ext2_bg_super_test_root.simps [simp del]

definition ext2_bg_has_super :: "'bm ext2_fs \<Rightarrow> nat \<Rightarrow> bool" where
  "ext2_bg_has_super fs g =
     (if g = 0 then True
      else if ro_compat (super fs) EXT2_FT_RO_COMPAT_SPARSE_SUPER
      then g = fst (s_backup_bgs (super fs)) \<or> g = snd (s_backup_bgs (super fs))
      else if g \<le> 1 then True
      else if even g then False
      else ext2_bg_super_test_root g 3 \<or> ext2_bg_super_test_root g 5 \<or> ext2_bg_super_test_root g 7)"

text \<open>The block of the superblock, of the old and of the new descriptors, and the number of blocks used.\<close>

definition ext2_super_bgd_loc :: "'bm ext2_fs \<Rightarrow> nat \<Rightarrow> nat \<times> nat \<times> nat \<times> nat" where
  "ext2_super_bgd_loc fs g =
     (let group_block = ext2_group_first_block fs g;
          group_block = (if group_block = 0 \<and> blksize fs = 1024 then 1 else group_block);
          old_desc_blocks = (if incompat (super fs) EXT2_FT_INCOMPAT_META_BG then s_first_meta_bg (super fs)
                             else desc_blocks fs + s_reserved_gdt_blocks (super fs));
          has_super = ext2_bg_has_super fs g;
          super_block = (if has_super then group_block else 0);
          nblocks = (if has_super then 1 else 0);
          meta_bg_size = EXT2_DESC_PER_BLOCK (super fs);
          meta_bg = g div meta_bg_size
      in if \<not> incompat (super fs) EXT2_FT_INCOMPAT_META_BG \<or> meta_bg < s_first_meta_bg (super fs)
         then if has_super then (super_block, group_block + 1, 0, nblocks + old_desc_blocks)
              else (super_block, 0, 0, nblocks)
         else if g mod meta_bg_size = 0 \<or> g mod meta_bg_size = 1 \<or> g mod meta_bg_size = meta_bg_size - 1
         then (super_block, 0, group_block + (if has_super then 1 else 0), nblocks + 1)
         else (super_block, 0, 0, nblocks))"

definition ext2_descriptor_block :: "'bm ext2_fs \<Rightarrow> nat \<Rightarrow> nat \<Rightarrow> nat" where
  "ext2_descriptor_block fs group_block i =
     (let adjust = (if i = 0 \<and> blksize fs = 1024 \<and> EXT2_CLUSTER_RATIO fs > 1 then 1 else 0) in
      if \<not> incompat (super fs) EXT2_FT_INCOMPAT_META_BG \<or> i < s_first_meta_bg (super fs)
      then (group_block + adjust + i + 1) mod 2 ^ 64
      else let bg = EXT2_DESC_PER_BLOCK (super fs) * i;
               has_super = (if ext2_bg_has_super fs bg then 1 else 0);
               block = ext2_group_first_block fs bg
           in if group_block \<noteq> s_first_data_block (super fs) \<and>
                 block + has_super + s_blocks_per_group (super fs) < ext2_blocks_count (super fs)
              then (block + s_blocks_per_group (super fs) + (if ext2_bg_has_super fs (bg + 1) then 1 else 0) + adjust) mod 2 ^ 64
              else (block + has_super + adjust) mod 2 ^ 64)"

section \<open>Layout on the disk\<close>

definition read_super :: "u8 list \<Rightarrow> ext2_super" where
  "read_super b =
     \<lparr>s_inodes_count = get_le b 0 4, s_blocks_count = get_le b 4 4, s_r_blocks_count = get_le b 8 4,
      s_free_blocks_count = word_of_nat (get_le b 12 4), s_free_inodes_count = word_of_nat (get_le b 16 4),
      s_first_data_block = get_le b 20 4, s_log_block_size = get_le b 24 4, s_log_cluster_size = get_le b 28 4,
      s_blocks_per_group = get_le b 32 4, s_clusters_per_group = get_le b 36 4, s_inodes_per_group = get_le b 40 4,
      s_magic = get_le b 56 2, s_rev_level = get_le b 76 4, s_first_ino = get_le b 84 4, s_inode_size = get_le b 88 2,
      s_feature_incompat = word_of_nat (get_le b 96 4), s_feature_ro_compat = word_of_nat (get_le b 100 4),
      s_uuid = take 16 (drop 104 b), s_reserved_gdt_blocks = get_le b 206 2, s_desc_size = get_le b 254 2,
      s_first_meta_bg = get_le b 260 4, s_blocks_count_hi = get_le b 336 4, s_r_blocks_count_hi = get_le b 340 4,
      s_free_blocks_hi = word_of_nat (get_le b 344 4), s_backup_bgs = (get_le b 588 4, get_le b 592 4),
      s_checksum_seed = word_of_nat (get_le b 624 4), s_checksum = word_of_nat (get_le b 1020 4)\<rparr>"

text \<open>A descriptor of \<open>sz\<close> bytes; in a short one the fields of the second half are not there.\<close>

definition read_desc :: "nat \<Rightarrow> u8 list \<Rightarrow> ext4_group_desc" where
  "read_desc sz b =
     (let h = (\<lambda>off n. if sz \<ge> 64 then get_le b off n else 0) in
      \<lparr>bg_block_bitmap = word_of_nat (get_le b 0 4), bg_inode_bitmap = word_of_nat (get_le b 4 4),
       bg_inode_table = word_of_nat (get_le b 8 4), bg_free_blocks_count = word_of_nat (get_le b 12 2),
       bg_free_inodes_count = word_of_nat (get_le b 14 2), bg_used_dirs_count = word_of_nat (get_le b 16 2),
       bg_flags = word_of_nat (get_le b 18 2), bg_exclude_bitmap_lo = word_of_nat (get_le b 20 4),
       bg_block_bitmap_csum_lo = word_of_nat (get_le b 24 2), bg_inode_bitmap_csum_lo = word_of_nat (get_le b 26 2),
       bg_itable_unused = word_of_nat (get_le b 28 2), bg_checksum = word_of_nat (get_le b 30 2),
       bg_block_bitmap_hi = word_of_nat (h 32 4), bg_inode_bitmap_hi = word_of_nat (h 36 4),
       bg_inode_table_hi = word_of_nat (h 40 4), bg_free_blocks_count_hi = word_of_nat (h 44 2),
       bg_free_inodes_count_hi = word_of_nat (h 46 2), bg_used_dirs_count_hi = word_of_nat (h 48 2),
       bg_itable_unused_hi = word_of_nat (h 50 2), bg_exclude_bitmap_hi = word_of_nat (h 52 4),
       bg_block_bitmap_csum_hi = word_of_nat (h 56 2), bg_inode_bitmap_csum_hi = word_of_nat (h 58 2),
       bg_reserved = word_of_nat (h 60 4), bg_rest = take (sz - 64) (drop 64 b)\<rparr>)"

definition desc_raw :: "ext4_group_desc \<Rightarrow> u8 list" where
  "desc_raw d =
      le4 (bg_block_bitmap d) @ le4 (bg_inode_bitmap d) @ le4 (bg_inode_table d) @ le2 (bg_free_blocks_count d) @
      le2 (bg_free_inodes_count d) @ le2 (bg_used_dirs_count d) @ le2 (bg_flags d) @ le4 (bg_exclude_bitmap_lo d) @
      le2 (bg_block_bitmap_csum_lo d) @ le2 (bg_inode_bitmap_csum_lo d) @ le2 (bg_itable_unused d) @
      le2 (bg_checksum d) @
      le4 (bg_block_bitmap_hi d) @ le4 (bg_inode_bitmap_hi d) @ le4 (bg_inode_table_hi d) @
      le2 (bg_free_blocks_count_hi d) @ le2 (bg_free_inodes_count_hi d) @ le2 (bg_used_dirs_count_hi d) @
      le2 (bg_itable_unused_hi d) @ le4 (bg_exclude_bitmap_hi d) @ le2 (bg_block_bitmap_csum_hi d) @
      le2 (bg_inode_bitmap_csum_hi d) @ le4 (bg_reserved d) @ bg_rest d"

definition desc_bytes :: "nat \<Rightarrow> ext4_group_desc \<Rightarrow> u8 list" where
  "desc_bytes sz d = take sz (desc_raw d)"

section \<open>Checksums\<close>

definition crc32_fs :: "u32 \<Rightarrow> u8 list \<Rightarrow> 'bm ext2_fs \<Rightarrow> (u32 \<times> 'bm ext2_fs) option" where
  "crc32_fs seed data fs =
     (case crc32 (crc_tables fs) seed data of
        (None, T) \<Rightarrow> None
      | (Some c, T) \<Rightarrow> Some (c, fs\<lparr>crc_tables := T\<rparr>))"

text \<open>The superblock is checked while it is still in the bytes that were read.\<close>

definition ext2_superblock_checksum_valid :: "u8 list \<Rightarrow> 'bm ext2_fs \<Rightarrow> (bool \<times> 'bm ext2_fs) option" where
  "ext2_superblock_checksum_valid raw fs =
     (if \<not> ro_compat (super fs) EXT4_FT_RO_COMPAT_METADATA_CSUM then Some (True, fs)
      else do {
        (c, fs) \<leftarrow> crc32_fs 0xffffffff (take 1020 raw) fs;
        Some (s_checksum (super fs) = c, fs)
      })"

definition ext2_bg_checksum :: "'bm ext2_fs \<Rightarrow> nat \<Rightarrow> u16 option" where
  "ext2_bg_checksum fs g = map_option bg_checksum (desc_of fs g)"

definition ext2_bg_checksum_update :: "'bm ext2_fs \<Rightarrow> nat \<Rightarrow> u16 \<Rightarrow> 'bm ext2_fs option" where
  "ext2_bg_checksum_update fs g c = update_desc (\<lambda>d. d\<lparr>bg_checksum := c\<rparr>) g fs"

definition ext2_group_desc_checksum :: "'bm ext2_fs \<Rightarrow> nat \<Rightarrow> (u16 \<times> 'bm ext2_fs) option" where
  "ext2_group_desc_checksum fs g = do {
     desc \<leftarrow> desc_of fs g;
     let sz = EXT2_DESC_SIZE (super fs);
     if ro_compat (super fs) EXT4_FT_RO_COMPAT_METADATA_CSUM then do {
       (c, fs) \<leftarrow> crc32_fs (checksum_seed fs) (put_le 4 g) fs;
       (c, fs) \<leftarrow> crc32_fs c (desc_bytes sz (desc\<lparr>bg_checksum := 0\<rparr>)) fs;
       Some (ucast c, fs)
     } else do {
       let crc = crc16 0xffff (s_uuid (super fs));
       let crc = crc16 crc (put_le 4 g);
       let crc = crc16 crc (desc_bytes 30 desc);
       Some (if 32 < sz then crc16 crc (drop 32 (desc_bytes sz desc)) else crc, fs)
     }
   }"

definition ext2_group_desc_checksum_valid :: "'bm ext2_fs \<Rightarrow> nat \<Rightarrow> (bool \<times> 'bm ext2_fs) option" where
  "ext2_group_desc_checksum_valid fs g =
     (if \<not> ext2_has_group_desc_checksum (super fs) then Some (True, fs)
      else do {
        b \<leftarrow> ext2_bg_checksum fs g;
        (c, fs) \<leftarrow> ext2_group_desc_checksum fs g;
        Some (b = c, fs)
      })"

definition ext2_group_desc_checksum_update :: "'bm ext2_fs \<Rightarrow> nat \<Rightarrow> 'bm ext2_fs option" where
  "ext2_group_desc_checksum_update fs g =
     (if \<not> ext2_has_group_desc_checksum (super fs) then Some fs
      else do { (c, fs) \<leftarrow> ext2_group_desc_checksum fs g; ext2_bg_checksum_update fs g c })"

text \<open>Checksums of the bitmaps; the high halves are there from descriptors of 58 and 60 bytes on.\<close>

definition ext2_block_bitmap_checksum_valid :: "'bm ext2_fs \<Rightarrow> nat \<Rightarrow> u8 list \<Rightarrow> (bool \<times> 'bm ext2_fs) option" where
  "ext2_block_bitmap_checksum_valid fs g bm =
     (if \<not> ro_compat (super fs) EXT4_FT_RO_COMPAT_METADATA_CSUM then Some (True, fs)
      else do {
        d \<leftarrow> desc_of fs g;
        (c, fs) \<leftarrow> crc32_fs (checksum_seed fs) bm fs;
        let lo = ucast (bg_block_bitmap_csum_lo d);
        Some (if EXT2_DESC_SIZE (super fs) \<ge> 58
              then lo OR push_bit 16 (ucast (bg_block_bitmap_csum_hi d)) = c else lo = c AND 0xffff, fs)
      })"

definition ext2_block_bitmap_checksum_update :: "'bm ext2_fs \<Rightarrow> nat \<Rightarrow> u8 list \<Rightarrow> 'bm ext2_fs option" where
  "ext2_block_bitmap_checksum_update fs g bm =
     (if \<not> ro_compat (super fs) EXT4_FT_RO_COMPAT_METADATA_CSUM then Some fs
      else do {
        (c, fs) \<leftarrow> crc32_fs (checksum_seed fs) bm fs;
        update_desc (\<lambda>d. let d = d\<lparr>bg_block_bitmap_csum_lo := ucast c\<rparr> in
          if EXT2_DESC_SIZE (super fs) \<ge> 58 then d\<lparr>bg_block_bitmap_csum_hi := ucast (drop_bit 16 c)\<rparr> else d) g fs
      })"

definition ext2_inode_bitmap_checksum_valid :: "'bm ext2_fs \<Rightarrow> nat \<Rightarrow> u8 list \<Rightarrow> (bool \<times> 'bm ext2_fs) option" where
  "ext2_inode_bitmap_checksum_valid fs g bm =
     (if \<not> ro_compat (super fs) EXT4_FT_RO_COMPAT_METADATA_CSUM then Some (True, fs)
      else do {
        d \<leftarrow> desc_of fs g;
        (c, fs) \<leftarrow> crc32_fs (checksum_seed fs) bm fs;
        let lo = ucast (bg_inode_bitmap_csum_lo d);
        Some (if EXT2_DESC_SIZE (super fs) \<ge> 60
              then lo OR push_bit 16 (ucast (bg_inode_bitmap_csum_hi d)) = c else lo = c AND 0xffff, fs)
      })"

definition ext2_inode_bitmap_checksum_update :: "'bm ext2_fs \<Rightarrow> nat \<Rightarrow> u8 list \<Rightarrow> 'bm ext2_fs option" where
  "ext2_inode_bitmap_checksum_update fs g bm =
     (if \<not> ro_compat (super fs) EXT4_FT_RO_COMPAT_METADATA_CSUM then Some fs
      else do {
        (c, fs) \<leftarrow> crc32_fs (checksum_seed fs) bm fs;
        update_desc (\<lambda>d. let d = d\<lparr>bg_inode_bitmap_csum_lo := ucast c\<rparr> in
          if EXT2_DESC_SIZE (super fs) \<ge> 60 then d\<lparr>bg_inode_bitmap_csum_hi := ucast (drop_bit 16 c)\<rparr> else d) g fs
      })"

section \<open>Which groups have a copy of the superblock\<close>

lemma test_root_iff: "1 < x \<Longrightarrow> ext2_bg_super_test_root g x \<longleftrightarrow> (\<exists>k\<ge>1. g = x ^ k)"
proof (induction g x rule: ext2_bg_super_test_root.induct)
  case (1 g x)
  have small: "g \<noteq> x ^ k" if "g < x" "1 \<le> k" for k
    using that self_le_power [of x k] 1(2) by auto
  have split: "(\<exists>k\<ge>1. g = x ^ k) \<longleftrightarrow> g = x \<or> (\<exists>k\<ge>1. g = x * x ^ k)"
  proof safe
    fix k :: nat assume "1 \<le> k" "\<nexists>j. 1 \<le> j \<and> x ^ k = x * x ^ j"
    then have "\<not> 1 \<le> k - 1" by (metis power_eq_if not_one_le_zero)
    with \<open>1 \<le> k\<close> show "x ^ k = x" by (cases k) auto
  next
    show "\<exists>k\<ge>1. x = x ^ k" by (intro exI [of _ 1]) simp
  next
    fix k :: nat assume "1 \<le> k"
    then show "\<exists>j\<ge>1. x * x ^ k = x ^ j" by (intro exI [of _ "Suc k"]) simp
  qed
  show ?case
  proof (cases "g < x")
    case True
    with small show ?thesis by (subst ext2_bg_super_test_root.simps) auto
  next
    case False
    have "g mod x = 0 \<Longrightarrow> g = x * (g div x)" by auto
    moreover have "x * x ^ k mod x = 0" for k by simp
    ultimately have step: "g \<noteq> x \<Longrightarrow> (\<exists>k\<ge>1. g = x * x ^ k) \<longleftrightarrow> g mod x = 0 \<and> (\<exists>k\<ge>1. g div x = x ^ k)"
      using 1(2) by (metis less_one nonzero_mult_div_cancel_left not_less_iff_gr_or_eq)
    show ?thesis
      using False 1 step split by (subst ext2_bg_super_test_root.simps) (auto simp del: power_Suc)
  qed
qed

text \<open>
  Without the flag that selects two explicit groups, exactly the groups 0 and 1 and the powers of 3,
  5 and 7 hold copies of the superblock.\<close>

theorem ext2_bg_has_super_iff:
  assumes "\<not> ro_compat (super fs) EXT2_FT_RO_COMPAT_SPARSE_SUPER"
  shows "ext2_bg_has_super fs g \<longleftrightarrow> g = 0 \<or> (\<exists>p\<in>{3, 5, 7}. \<exists>k. g = p ^ k)"
proof -
  have pow: "(\<exists>k. g = p ^ k) \<longleftrightarrow> g = 1 \<or> (\<exists>k\<ge>1. g = p ^ k)" for p :: nat
    by (metis One_nat_def Suc_leI neq0_conv power_0)
  have "even g \<Longrightarrow> \<not> (\<exists>k. g = 3 ^ k)" "even g \<Longrightarrow> \<not> (\<exists>k. g = 5 ^ k)" "even g \<Longrightarrow> \<not> (\<exists>k. g = 7 ^ k)"
    by auto
  then show ?thesis
    using assms test_root_iff [of 3 g] test_root_iff [of 5 g] test_root_iff [of 7 g] pow [of 3] pow [of 5] pow [of 7]
    by (auto simp: ext2_bg_has_super_def)
qed

section \<open>The layout of descriptors\<close>

text \<open>
  A group descriptor of a file system with 64-bit block numbers is read back from the disk as it was
  written.\<close>

theorem read_desc_bytes:
  assumes "sz \<ge> 64" "length (bg_rest d) = sz - 64"
  shows "read_desc sz (desc_bytes sz d) = d \<and> length (desc_bytes sz d) = sz"
proof -
  have "length (desc_bytes sz d) = sz" using assms by (simp add: desc_bytes_def desc_raw_def)
  moreover have "read_desc sz (desc_bytes sz d) = d"
    using assms by (cases d) (simp add: read_desc_def desc_bytes_def desc_raw_def get_le_take get_le_skip word_of_put)
  ultimately show ?thesis by simp
qed

section \<open>Checksums of descriptors\<close>

lemma crc32_fs_run:
  assumes "tables_ok (crc_tables fs)" "4 dvd length data"
  obtains T where "crc32_fs seed data fs = Some (NOT (crc32c_bitwise (NOT seed) data), fs\<lparr>crc_tables := T\<rparr>)" "tables_ok T"
  using crc32_run [OF assms, of seed] by (metis (no_types, lifting) case_prod_conv crc32_fs_def option.simps(5) tables_ok_def)

definition desc_csum :: "'bm ext2_fs \<Rightarrow> nat \<Rightarrow> ext4_group_desc \<Rightarrow> u16" where
  "desc_csum fs g d =
     (let sz = EXT2_DESC_SIZE (super fs) in
      if ro_compat (super fs) EXT4_FT_RO_COMPAT_METADATA_CSUM
      then ucast (NOT (crc32c_bitwise (NOT (checksum_seed fs)) (put_le 4 g @ desc_bytes sz (d\<lparr>bg_checksum := 0\<rparr>))))
      else crc16 0xffff (s_uuid (super fs) @ put_le 4 g @ desc_bytes 30 d @ drop 32 (desc_bytes sz d)))"

lemma desc_csum_ignores: "desc_csum fs g (d\<lparr>bg_checksum := c\<rparr>) = desc_csum fs g d"
proof -
  have "take 30 (desc_raw (d\<lparr>bg_checksum := c\<rparr>)) = take 30 (desc_raw d)"
    "drop 32 (desc_raw (d\<lparr>bg_checksum := c\<rparr>)) = drop 32 (desc_raw d)"
    by (simp_all add: desc_raw_def)
  then show ?thesis by (simp add: desc_csum_def Let_def desc_bytes_def drop_take)
qed

lemma desc_raw_length: "length (desc_raw d) = 64 + length (bg_rest d)"
  by (simp add: desc_raw_def)

lemma desc_csum_frame: "desc_csum (fs\<lparr>group_desc := ds, crc_tables := T\<rparr>) g d = desc_csum fs g d"
  by (simp add: desc_csum_def Let_def)

definition desc_ok :: "'bm ext2_fs \<Rightarrow> nat \<Rightarrow> bool" where
  "desc_ok fs g \<longleftrightarrow> g < length (group_desc fs) \<and> 4 dvd EXT2_DESC_SIZE (super fs) \<and>
     EXT2_DESC_SIZE (super fs) \<le> 64 + length (bg_rest (group_desc fs ! g))"

lemma crc16_append: "crc16 (crc16 s xs) ys = crc16 s (xs @ ys)"
  by (simp add: crc16_correct crc16_bitwise_def)

lemma crc32c_append: "crc32c_bitwise r (xs @ ys) = crc32c_bitwise (crc32c_bitwise r xs) ys"
  by (simp add: crc32c_bitwise_def)

lemma ext2_group_desc_checksum_val:
  assumes "desc_ok fs g" "tables_ok (crc_tables fs)"
  obtains T where "ext2_group_desc_checksum fs g = Some (desc_csum fs g (group_desc fs ! g), fs\<lparr>crc_tables := T\<rparr>)" "tables_ok T"
proof (cases "ro_compat (super fs) EXT4_FT_RO_COMPAT_METADATA_CSUM")
  case True
  let ?d = "(group_desc fs ! g)\<lparr>bg_checksum := 0\<rparr>" and ?sz = "EXT2_DESC_SIZE (super fs)"
  have len: "4 dvd length (desc_bytes ?sz ?d)" using assms(1) by (auto simp: desc_ok_def desc_bytes_def desc_raw_length min_def dest: le_antisym)
  let ?c = "NOT (crc32c_bitwise (NOT (checksum_seed fs)) (put_le 4 g))"
  obtain T1 where 1: "crc32_fs (checksum_seed fs) (put_le 4 g) fs = Some (?c, fs\<lparr>crc_tables := T1\<rparr>)" "tables_ok T1"
    using crc32_fs_run [OF assms(2), of "put_le 4 g" "checksum_seed fs"] by auto
  obtain T2 where 2: "crc32_fs ?c (desc_bytes ?sz ?d) (fs\<lparr>crc_tables := T1\<rparr>) =
      Some (NOT (crc32c_bitwise (NOT ?c) (desc_bytes ?sz ?d)), fs\<lparr>crc_tables := T2\<rparr>)" "tables_ok T2"
    using crc32_fs_run [of "fs\<lparr>crc_tables := T1\<rparr>" "desc_bytes ?sz ?d" ?c] 1(2) len by auto
  show thesis
    by (rule that [of T2])
      (use True assms(1) 1 2 in \<open>simp_all add: ext2_group_desc_checksum_def desc_of_def desc_ok_def desc_csum_def Let_def crc32c_append\<close>)
next
  case False
  show thesis
    by (rule that [of "crc_tables fs"])
      (use False assms in \<open>simp_all add: ext2_group_desc_checksum_def desc_of_def desc_ok_def desc_csum_def Let_def
        crc16_append desc_bytes_def\<close>)
qed

lemma checksum_update_run:
  assumes "desc_ok fs g" "tables_ok (crc_tables fs)"
  obtains c T where "ext2_group_desc_checksum_update fs g =
      Some (fs\<lparr>group_desc := (group_desc fs)[g := (group_desc fs ! g)\<lparr>bg_checksum := c\<rparr>], crc_tables := T\<rparr>)"
    "tables_ok T" "ext2_has_group_desc_checksum (super fs) \<longrightarrow> c = desc_csum fs g (group_desc fs ! g)"
proof (cases "ext2_has_group_desc_checksum (super fs)")
  case True
  have g: "g < length (group_desc fs)" using assms(1) by (simp add: desc_ok_def)
  obtain T where "ext2_group_desc_checksum fs g = Some (desc_csum fs g (group_desc fs ! g), fs\<lparr>crc_tables := T\<rparr>)" "tables_ok T"
    using ext2_group_desc_checksum_val [OF assms] .
  then show thesis
    using that [where c = "desc_csum fs g (group_desc fs ! g)" and T = T] True g by (simp add: ext2_group_desc_checksum_update_def ext2_bg_checksum_update_def update_desc_def)
next
  case False
  have "fs = fs\<lparr>group_desc := (group_desc fs)[g := (group_desc fs ! g)\<lparr>bg_checksum := bg_checksum (group_desc fs ! g)\<rparr>],
      crc_tables := crc_tables fs\<rparr>" by simp
  then show thesis
    using that [where c = "bg_checksum (group_desc fs ! g)" and T = "crc_tables fs"] False assms(2)
    by (simp add: ext2_group_desc_checksum_update_def)
qed

text \<open>
  C32: Updating the checksum of a group descriptor returns, makes the check of this descriptor succeed and
  changes nothing but the checksum field, with the 16-bit checksum as well as with
  the 32-bit one. (The tables of the latter may be built on the way.)\<close>

theorem checksum_update_then_valid:
  assumes "desc_ok fs g" "tables_ok (crc_tables fs)"
  shows "\<exists>fs' c T fs''. ext2_group_desc_checksum_update fs g = Some fs' \<and>
    fs' = fs\<lparr>group_desc := (group_desc fs)[g := (group_desc fs ! g)\<lparr>bg_checksum := c\<rparr>], crc_tables := T\<rparr> \<and>
    ext2_group_desc_checksum_valid fs' g = Some (True, fs'')"
proof -
  let ?d = "group_desc fs ! g"
  have g: "g < length (group_desc fs)" using assms(1) by (simp add: desc_ok_def)
  obtain c T where run: "ext2_group_desc_checksum_update fs g =
      Some (fs\<lparr>group_desc := (group_desc fs)[g := ?d\<lparr>bg_checksum := c\<rparr>], crc_tables := T\<rparr>)" "tables_ok T"
    "ext2_has_group_desc_checksum (super fs) \<longrightarrow> c = desc_csum fs g ?d"
    using checksum_update_run [OF assms] .
  let ?fs = "fs\<lparr>group_desc := (group_desc fs)[g := ?d\<lparr>bg_checksum := c\<rparr>], crc_tables := T\<rparr>"
  have ok: "desc_ok ?fs g" "tables_ok (crc_tables ?fs)" using assms(1) run(2) by (simp_all add: desc_ok_def)
  have "desc_csum ?fs g (group_desc ?fs ! g) = desc_csum fs g ?d" using g by (simp add: desc_csum_ignores desc_csum_frame)
  then obtain fs'' where "ext2_group_desc_checksum ?fs g = Some (desc_csum fs g ?d, fs'')"
    using ext2_group_desc_checksum_val [OF ok] by metis
  then have "\<exists>fs''. ext2_group_desc_checksum_valid ?fs g = Some (True, fs'')"
    using run(3) g
    by (cases "ext2_has_group_desc_checksum (super fs)")
      (auto simp: ext2_group_desc_checksum_valid_def ext2_bg_checksum_def desc_of_def)
  then show ?thesis using run(1) by blast
qed

text \<open>A file system with two groups and 32-bit checksums.\<close>

definition demo_csum_fs :: "unit ext2_fs" where
  "demo_csum_fs = \<lparr>super = (read_super [])\<lparr>s_feature_ro_compat := EXT4_FT_RO_COMPAT_METADATA_CSUM\<rparr>, mflags = 0, flags = 0, blksize = 1024,
     group_desc_count = 2, desc_blocks = 1, group_desc = [read_desc 32 [], read_desc 32 []], inode_blocks_per_group = 1,
     block_bitmap = None, inode_bitmap = None, cluster_ratio_bits = 0, checksum_seed = 7, crc_tables = crc32_static\<rparr>"

theorem checksum_update_then_valid_witness:
  "\<exists>fs' fs''. ext2_group_desc_checksum_update demo_csum_fs 1 = Some fs' \<and> ext2_group_desc_checksum_valid fs' 1 = Some (True, fs'')"
proof -
  have "desc_ok demo_csum_fs 1" "tables_ok (crc_tables demo_csum_fs)"
    by (simp_all add: demo_csum_fs_def desc_ok_def tables_ok_def EXT2_DESC_SIZE_def incompat_def read_super_def get_le_def Let_def)
  then show ?thesis using checksum_update_then_valid by blast
qed

theorem ext2_bg_has_super_iff_witness:
  "ext2_bg_has_super demo_csum_fs 49 \<and> \<not> ext2_bg_has_super demo_csum_fs 10"
proof -
  have fl: "\<not> ro_compat (super demo_csum_fs) EXT2_FT_RO_COMPAT_SPARSE_SUPER"
    by (simp add: demo_csum_fs_def ro_compat_def EXT4_FT_RO_COMPAT_METADATA_CSUM_def EXT2_FT_RO_COMPAT_SPARSE_SUPER_def)
  have "49 = (7 :: nat) ^ 2" by simp
  moreover have "10 \<noteq> p ^ k" if "p \<in> {3, 5, 7}" for p k :: nat
  proof -
    have "odd (p ^ k)" using that by auto
    then show ?thesis by (metis even_numeral)
  qed
  ultimately show ?thesis using ext2_bg_has_super_iff [OF fl] by (metis insertI1 insertI2 zero_neq_numeral)
qed

end
