(* ===== verification/Pml_Ext2_Bitmap.thy ===== *)
theory Pml_Ext2_Bitmap
  imports Pml_Ext2 Pml_Bitarray
begin

text \<open>
  drivers/fs/ext2/bitmap.c: the bitmaps of blocks and inodes. A bitmap is a plain array of bits or
  a bit array of the 64-bit kind (drivers/fs/ext2/bitarray.c); the null pointer is \<open>None\<close>. The
  functions return an option for accesses outside of an array. Reading and writing the bitmaps
  of a file system goes through the functions \<open>rd\<close> and \<open>wr\<close> of the block device, which
  are parameters; a short transfer counts as a failure.
\<close>

section \<open>Bitmaps\<close>

record ext2_bitmap32 =
  m_start :: nat
  m_end :: nat
  m_real_end :: nat
  m_bits :: "u8 list"

text \<open>The number of the 64-bit kind is \<open>cluster_bits\<close>.\<close>

datatype ext2_bitmap = Bmap32 ext2_bitmap32 | Bmap64 nat ext2_bitmap64

type_synonym fs = "ext2_bitmap ext2_fs"

definition set_m_bits :: "ext2_bitmap32 \<Rightarrow> u8 list option \<Rightarrow> ext2_bitmap option option" where
  "set_m_bits b r = map_option (\<lambda>bits. Some (Bmap32 (b\<lparr>m_bits := bits\<rparr>))) r"

fun ext2_mark_bitmap :: "ext2_bitmap option \<Rightarrow> nat \<Rightarrow> ext2_bitmap option option" where
  "ext2_mark_bitmap None arg = Some None"
| "ext2_mark_bitmap (Some (Bmap32 b)) arg =
     (if arg \<ge> 2 ^ 32 \<or> arg < m_start b \<or> arg > m_end b then Some (Some (Bmap32 b))
      else set_m_bits b (set_bit_bm (m_bits b) (arg - m_start b)))"
| "ext2_mark_bitmap (Some (Bmap64 cb b)) arg =
     (let arg = drop_bit cb arg in
      if arg < b_start b \<or> arg > b_end b then Some (Some (Bmap64 cb b))
      else map_option (\<lambda>b. Some (Bmap64 cb b)) (ext2_bitarray_mark_bmap b arg))"

fun ext2_unmark_bitmap :: "ext2_bitmap option \<Rightarrow> nat \<Rightarrow> ext2_bitmap option option" where
  "ext2_unmark_bitmap None arg = Some None"
| "ext2_unmark_bitmap (Some (Bmap32 b)) arg =
     (if arg \<ge> 2 ^ 32 \<or> arg < m_start b \<or> arg > m_end b then Some (Some (Bmap32 b))
      else set_m_bits b (clear_bit_bm (m_bits b) (arg - m_start b)))"
| "ext2_unmark_bitmap (Some (Bmap64 cb b)) arg =
     (let arg = drop_bit cb arg in
      if arg < b_start b \<or> arg > b_end b then Some (Some (Bmap64 cb b))
      else map_option (\<lambda>b. Some (Bmap64 cb b)) (ext2_bitarray_unmark_bmap b arg))"

fun ext2_test_bitmap :: "ext2_bitmap option \<Rightarrow> nat \<Rightarrow> bool option" where
  "ext2_test_bitmap None arg = Some False"
| "ext2_test_bitmap (Some (Bmap32 b)) arg =
     (if arg \<ge> 2 ^ 32 \<or> arg < m_start b \<or> arg > m_end b then Some False
      else test_bit_bm (m_bits b) (arg - m_start b))"
| "ext2_test_bitmap (Some (Bmap64 cb b)) arg =
     (let arg = drop_bit cb arg in
      if arg < b_start b \<or> arg > b_end b then Some False else ext2_bitarray_test_bmap b arg)"

text \<open>The number of blocks is signed: callers may pass a negative one.\<close>

definition addi64 :: "nat \<Rightarrow> int \<Rightarrow> nat" where
  "addi64 a i = nat ((int a + i) mod 2 ^ 64)"

fun ext2_mark_block_bitmap_range :: "ext2_bitmap option \<Rightarrow> nat \<Rightarrow> int \<Rightarrow> ext2_bitmap option option" where
  "ext2_mark_block_bitmap_range None block num = Some None"
| "ext2_mark_block_bitmap_range (Some (Bmap32 b)) block num =
     (let last = addi64 block (num - 1) in
      if block \<ge> 2 ^ 32 \<or> last \<ge> 2 ^ 32 \<or> block < m_start b \<or> block > m_end b \<or> last > m_end b
      then Some (Some (Bmap32 b))
      else set_m_bits b (iter_range set_bit_bm (m_bits b) (block - m_start b) (nat num)))"
| "ext2_mark_block_bitmap_range (Some (Bmap64 cb b)) block num =
     (let fin = drop_bit cb (add64 (addi64 block num) (push_bit cb 1 - 1));
          block = drop_bit cb block;
          num = sub64 fin block
      in if block < b_start b \<or> block > b_end b \<or> sub64 (add64 block num) 1 > b_end b
         then Some (Some (Bmap64 cb b))
         else map_option (\<lambda>b. Some (Bmap64 cb b)) (ext2_bitarray_mark_bmap_extent b block (num mod 2 ^ 32)))"

fun ext2_set_bitmap_range :: "ext2_bitmap option \<Rightarrow> nat \<Rightarrow> nat \<Rightarrow> u8 list \<Rightarrow> (errno + ext2_bitmap) option" where
  "ext2_set_bitmap_range None start num data = Some (Inl EINVAL)"
| "ext2_set_bitmap_range (Some (Bmap32 b)) start num data =
     (let last = sub64 (add64 start num) 1; off = (start - m_start b) div 8; n = (num + 7) div 8 in
      if last \<ge> 2 ^ 32 then Some (Inl EUCLEAN)
      else if start < m_start b \<or> last > m_real_end b then Some (Inl EUCLEAN)
      else if off + n > length (m_bits b) \<or> n > length data then None
      else Some (Inr (Bmap32 (b\<lparr>m_bits := take off (m_bits b) @ take n data @ drop (off + n) (m_bits b)\<rparr>))))"
| "ext2_set_bitmap_range (Some (Bmap64 cb b)) start num data =
     map_option (\<lambda>b. Inr (Bmap64 cb b)) (ext2_bitarray_set_bmap_range b start num data)"

fun ext2_get_bitmap_range :: "ext2_bitmap option \<Rightarrow> nat \<Rightarrow> nat \<Rightarrow> (errno + u8 list) option" where
  "ext2_get_bitmap_range None start num = Some (Inl EINVAL)"
| "ext2_get_bitmap_range (Some (Bmap32 b)) start num =
     (let last = sub64 (add64 start num) 1; off = (start - m_start b) div 8; n = (num + 7) div 8 in
      if last \<ge> 2 ^ 32 then Some (Inl EUCLEAN)
      else if start < m_start b \<or> last > m_real_end b then Some (Inl EUCLEAN)
      else if off + n > length (m_bits b) then None
      else Some (Inr (take n (drop off (m_bits b)))))"
| "ext2_get_bitmap_range (Some (Bmap64 cb b)) start num =
     map_option Inr (ext2_bitarray_get_bmap_range b start num)"

text \<open>The loop over the bits of a plain bitmap: \<open>num\<close> bits from \<open>start\<close> on.\<close>

fun find_zero_loop :: "ext2_bitmap32 \<Rightarrow> nat \<Rightarrow> nat \<Rightarrow> (errno + nat) option" where
  "find_zero_loop b start 0 = Some (Inl ENOENT)"
| "find_zero_loop b start (Suc num) =
     (case test_bit_bm (m_bits b) (start - m_start b) of
        None \<Rightarrow> None
      | Some t \<Rightarrow> if \<not> t then Some (Inr start) else find_zero_loop b (start + 1) num)"

fun ext2_find_first_zero_bitmap :: "ext2_bitmap option \<Rightarrow> nat \<Rightarrow> nat \<Rightarrow> (errno + nat) option" where
  "ext2_find_first_zero_bitmap None start fin = Some (Inl EINVAL)"
| "ext2_find_first_zero_bitmap (Some (Bmap32 b)) start fin =
     (if start \<ge> 2 ^ 32 \<or> fin \<ge> 2 ^ 32 then Some (Inl EUCLEAN)
      else if start < m_start b \<or> fin > m_end b \<or> start > fin then Some (Inl EUCLEAN)
      else find_zero_loop b start (fin - start + 1))"
| "ext2_find_first_zero_bitmap (Some (Bmap64 cb b)) start fin =
     (let cstart = drop_bit cb start; cend = drop_bit cb fin in
      if cstart < b_start b \<or> cend > b_end b \<or> start > fin then Some (Inl EUCLEAN)
      else case ext2_bitarray_find_first_zero b cstart cend of
             None \<Rightarrow> None
           | Some (Inl e) \<Rightarrow> Some (Inl e)
           | Some (Inr c) \<Rightarrow> let c = push_bit cb c mod 2 ^ 64 in Some (Inr (if c \<ge> start then c else start)))"

section \<open>Making bitmaps\<close>

text \<open>The last argument of \<open>ext2_make_bitmap_32\<close> in the code is the place for the result.\<close>

definition ext2_make_bitmap_32 ::
    "alloc_outcomes \<Rightarrow> nat \<Rightarrow> nat \<Rightarrow> nat \<Rightarrow> u8 list option \<Rightarrow> (errno + ext2_bitmap) option \<times> alloc_outcomes" where
  "ext2_make_bitmap_32 al start fin real_end initmap =
     (let (ok, al) = take_alloc al in
      if \<not> ok then (Some (Inl ENOMEM), al)
      else let sz = ((real_end + 2 ^ 32 - start) mod 2 ^ 32) div 8 + 1;
               sz = (sz + 7) div 4 * 4;
               (ok, al) = take_alloc al
           in if \<not> ok then (Some (Inl ENOMEM), al)
              else (case initmap of
                      None \<Rightarrow> Some (Inr (Bmap32 \<lparr>m_start = start, m_end = fin, m_real_end = real_end, m_bits = replicate sz 0\<rparr>))
                    | Some im \<Rightarrow>
                        if length im < sz then None
                        else Some (Inr (Bmap32 \<lparr>m_start = start, m_end = fin, m_real_end = real_end, m_bits = take sz im\<rparr>)), al))"

text \<open>The type asked for is always the bit array; \<open>addr\<close> is the address of its memory and \<open>junk\<close> what it holds.\<close>

definition ext2_make_bitmap_64 ::
    "nat \<Rightarrow> (nat \<Rightarrow> u8) \<Rightarrow> alloc_outcomes \<Rightarrow> nat \<Rightarrow> nat \<Rightarrow> nat \<Rightarrow> nat \<Rightarrow> (errno + ext2_bitmap) \<times> alloc_outcomes" where
  "ext2_make_bitmap_64 addr junk al cluster_bits start fin real_end =
     (let (ok, al) = take_alloc al in
      if \<not> ok then (Inl ENOMEM, al)
      else case ext2_bitarray_new_bmap al junk
                  \<lparr>b_start = start, b_end = fin, b_real_end = real_end, b_bitarray = [], b_addr = addr\<rparr> of
             (Inl e, al) \<Rightarrow> (Inl e, al)
           | (Inr b, al) \<Rightarrow> (Inr (Bmap64 cluster_bits b), al))"

text \<open>What the allocator hands out: outcomes, addresses and contents.\<close>

record heap_oracle =
  outcomes :: alloc_outcomes
  new_addr :: nat
  new_bytes :: "nat \<Rightarrow> u8"

definition ext2_allocate_block_bitmap :: "fs \<Rightarrow> heap_oracle \<Rightarrow> (errno + ext2_bitmap) option \<times> heap_oracle" where
  "ext2_allocate_block_bitmap fs h =
     (let start = EXT2_B2C fs (s_first_data_block (super fs));
          fin = EXT2_B2C fs (sub64 (ext2_blocks_count (super fs)) 1);
          real_end = add64 (sub64 (s_clusters_per_group (super fs) * group_desc_count fs mod 2 ^ 64) 1) start
      in if flags fs AND EXT2_FLAG_64BIT \<noteq> 0
         then let (r, al) = ext2_make_bitmap_64 (new_addr h) (new_bytes h) (outcomes h) (cluster_ratio_bits fs) start fin real_end
              in (Some r, h\<lparr>outcomes := al\<rparr>)
         else if fin > 0xffffffff \<or> real_end > 0xffffffff then (Some (Inl EUCLEAN), h)
         else let (r, al) = ext2_make_bitmap_32 (outcomes h) start fin real_end None in (r, h\<lparr>outcomes := al\<rparr>))"

definition ext2_allocate_inode_bitmap :: "fs \<Rightarrow> heap_oracle \<Rightarrow> (errno + ext2_bitmap) option \<times> heap_oracle" where
  "ext2_allocate_inode_bitmap fs h =
     (let start = 1;
          fin = s_inodes_count (super fs);
          real_end = s_inodes_per_group (super fs) * group_desc_count fs mod 2 ^ 64
      in if flags fs AND EXT2_FLAG_64BIT \<noteq> 0
         then let (r, al) = ext2_make_bitmap_64 (new_addr h) (new_bytes h) (outcomes h) 0 start fin real_end
              in (Some r, h\<lparr>outcomes := al\<rparr>)
         else if fin > 0xffffffff \<or> real_end > 0xffffffff then (Some (Inl EUCLEAN), h)
         else let (r, al) = ext2_make_bitmap_32 (outcomes h) start fin real_end None in (r, h\<lparr>outcomes := al\<rparr>))"

section \<open>Reading the bitmaps of a file system\<close>

type_synonym device_read = "nat \<Rightarrow> nat \<Rightarrow> u8 list option"

definition ext2_read_blocks :: "device_read \<Rightarrow> fs \<Rightarrow> nat \<Rightarrow> nat \<Rightarrow> u8 list option" where
  "ext2_read_blocks rd fs block num =
     (case rd (block * blksize fs mod 2 ^ 64) (num * blksize fs) of
        None \<Rightarrow> None
      | Some b \<Rightarrow> if length b = num * blksize fs then Some b else None)"

definition EXT2_BITMAP_BLOCK :: u32 where "EXT2_BITMAP_BLOCK = push_bit 0 1"
definition EXT2_BITMAP_INODE :: u32 where "EXT2_BITMAP_INODE = push_bit 1 1"

definition ext2_reserve_super_bgd :: "fs \<Rightarrow> nat \<Rightarrow> ext2_bitmap option \<Rightarrow> ext2_bitmap option option" where
  "ext2_reserve_super_bgd fs g bmap =
     (let (super_b, old_desc, new_desc, used) = ext2_super_bgd_loc fs g;
          old_desc_nblocks = (if incompat (super fs) EXT2_FT_INCOMPAT_META_BG then s_first_meta_bg (super fs)
                              else desc_blocks fs + s_reserved_gdt_blocks (super fs))
      in do {
        bmap \<leftarrow> (if super_b \<noteq> 0 \<or> g = 0 then ext2_mark_bitmap bmap super_b else Some bmap);
        bmap \<leftarrow> (if g = 0 \<and> blksize fs = 1024 \<and> EXT2_CLUSTER_RATIO fs > 1 then ext2_mark_bitmap bmap 0 else Some bmap);
        bmap \<leftarrow> (if old_desc \<noteq> 0
          then ext2_mark_block_bitmap_range bmap old_desc
                 (if old_desc + old_desc_nblocks \<ge> ext2_blocks_count (super fs)
                  then int (ext2_blocks_count (super fs)) - int old_desc else int old_desc_nblocks)
          else Some bmap);
        (if new_desc \<noteq> 0 then ext2_mark_bitmap bmap new_desc else Some bmap)
      })"

definition mark_if_set :: "nat \<Rightarrow> ext2_bitmap option \<Rightarrow> ext2_bitmap option option" where
  "mark_if_set block bmap = (if block \<noteq> 0 then ext2_mark_bitmap bmap block else Some bmap)"

fun mark_uninit_groups :: "fs \<Rightarrow> nat list \<Rightarrow> ext2_bitmap option \<Rightarrow> ext2_bitmap option option" where
  "mark_uninit_groups fs [] bmap = Some bmap"
| "mark_uninit_groups fs (i # is) bmap = do {
     t \<leftarrow> ext2_bg_test_flags fs i EXT2_BG_BLOCK_UNINIT;
     if \<not> t then mark_uninit_groups fs is bmap
     else do {
       bmap \<leftarrow> ext2_reserve_super_bgd fs i bmap;
       block \<leftarrow> ext2_inode_table_loc fs i;
       bmap \<leftarrow> (if block \<noteq> 0 then ext2_mark_block_bitmap_range bmap block (int (inode_blocks_per_group fs)) else Some bmap);
       block \<leftarrow> ext2_block_bitmap_loc fs i;
       bmap \<leftarrow> mark_if_set block bmap;
       block \<leftarrow> ext2_inode_bitmap_loc fs i;
       bmap \<leftarrow> mark_if_set block bmap;
       mark_uninit_groups fs is bmap
     }
   }"

definition ext2_mark_uninit_bg_group_blocks :: "fs \<Rightarrow> fs option" where
  "ext2_mark_uninit_bg_group_blocks fs =
     map_option (\<lambda>b. fs\<lparr>block_bitmap := b\<rparr>) (mark_uninit_groups fs [0..<group_desc_count fs] (block_bitmap fs))"

text \<open>The value returned: 0, or -1 with an error number.\<close>

type_synonym ret = "errno option"

definition ext2_prepare_read_bitmap :: "fs \<Rightarrow> u32 \<Rightarrow> heap_oracle \<Rightarrow> (ret \<times> fs \<times> heap_oracle) option" where
  "ext2_prepare_read_bitmap fs fl h =
     (if s_clusters_per_group (super fs) div 8 > blksize fs \<or> s_inodes_per_group (super fs) div 8 > blksize fs
      then Some (Some EUCLEAN, fs, h)
      else do {
        (r, fs, h) \<leftarrow> (if fl AND EXT2_BITMAP_BLOCK \<noteq> 0
          then case ext2_allocate_block_bitmap fs h of
                 (None, h) \<Rightarrow> None
               | (Some (Inl e), h) \<Rightarrow> Some (Some e, fs\<lparr>block_bitmap := None\<rparr>, h)
               | (Some (Inr b), h) \<Rightarrow> Some (None, fs\<lparr>block_bitmap := Some b\<rparr>, h)
          else Some (None, fs, h));
        if r \<noteq> None then Some (r, fs, h)
        else if fl AND EXT2_BITMAP_INODE \<noteq> 0
          then case ext2_allocate_inode_bitmap fs h of
                 (None, h) \<Rightarrow> None
               | (Some (Inl e), h) \<Rightarrow> Some (Some e, fs\<lparr>inode_bitmap := None\<rparr>, h)
               | (Some (Inr b), h) \<Rightarrow> Some (None, fs\<lparr>inode_bitmap := Some b\<rparr>, h)
          else Some (None, fs, h)
      })"

text \<open>
  One round of the loop for the bitmap of blocks and for the bitmap of inodes. \<open>Some r\<close> leaves
  the loop with the return value \<open>r\<close>. Where the checksum does not fit, the return value is
  still the 0 of the successful read.
\<close>

definition uninit_block :: "fs \<Rightarrow> nat \<Rightarrow> u16 \<Rightarrow> nat \<Rightarrow> (nat \<times> fs) option" where
  "uninit_block fs i fl block = do {
     t \<leftarrow> (if ext2_has_group_desc_checksum (super fs) then ext2_bg_test_flags fs i fl else Some False);
     (v, fs) \<leftarrow> (if t then ext2_group_desc_checksum_valid fs i else Some (False, fs));
     Some (if v \<or> block \<ge> ext2_blocks_count (super fs) then 0 else block, fs)
   }"

definition read_block_group :: "device_read \<Rightarrow> nat \<Rightarrow> nat \<Rightarrow> nat \<Rightarrow> fs \<Rightarrow> (ret option \<times> fs) option" where
  "read_block_group rd nbytes blkitr i fs = do {
     block \<leftarrow> ext2_block_bitmap_loc fs i;
     (block, fs) \<leftarrow> uninit_block fs i EXT2_BG_BLOCK_UNINIT block;
     case (if block \<noteq> 0 then ext2_read_blocks rd fs block 1 else Some (replicate nbytes 0)) of
       None \<Rightarrow> Some (Some (Some EIO), fs)
     | Some buf \<Rightarrow> do {
         (v, fs) \<leftarrow> (if block \<noteq> 0 then ext2_block_bitmap_checksum_valid fs i (take nbytes buf) else Some (True, fs));
         if \<not> v then Some (Some None, fs)
         else do {
           r \<leftarrow> ext2_set_bitmap_range (block_bitmap fs) blkitr (nbytes * 8) buf;
           case r of Inl e \<Rightarrow> Some (Some (Some e), fs) | Inr b \<Rightarrow> Some (None, fs\<lparr>block_bitmap := Some b\<rparr>)
         }
       }
   }"

definition read_inode_group :: "device_read \<Rightarrow> nat \<Rightarrow> nat \<Rightarrow> nat \<Rightarrow> fs \<Rightarrow> (ret option \<times> fs) option" where
  "read_inode_group rd nbytes inoitr i fs = do {
     block \<leftarrow> ext2_inode_bitmap_loc fs i;
     (block, fs) \<leftarrow> uninit_block fs i EXT2_BG_INODE_UNINIT block;
     case (if block \<noteq> 0 then ext2_read_blocks rd fs block 1 else Some (replicate nbytes 0)) of
       None \<Rightarrow> Some (Some (Some EIO), fs)
     | Some buf \<Rightarrow> do {
         (v, fs) \<leftarrow> (if block \<noteq> 0 then ext2_inode_bitmap_checksum_valid fs i (take nbytes buf) else Some (True, fs));
         if \<not> v then Some (Some None, fs)
         else do {
           r \<leftarrow> ext2_set_bitmap_range (inode_bitmap fs) inoitr (nbytes * 8) buf;
           case r of Inl e \<Rightarrow> Some (Some (Some e), fs) | Inr b \<Rightarrow> Some (None, fs\<lparr>inode_bitmap := Some b\<rparr>)
         }
       }
   }"

fun read_groups :: "device_read \<Rightarrow> bool \<Rightarrow> bool \<Rightarrow> nat \<Rightarrow> nat \<Rightarrow> nat \<Rightarrow> nat \<Rightarrow> nat \<Rightarrow> nat \<Rightarrow> fs \<Rightarrow> (ret \<times> fs) option" where
  "read_groups rd do_block do_inode bn inn blkitr inoitr i 0 fs = Some (None, fs)"
| "read_groups rd do_block do_inode bn inn blkitr inoitr i (Suc n) fs = do {
     (r, fs) \<leftarrow> (if do_block then read_block_group rd bn blkitr i fs else Some (None, fs));
     case r of Some r \<Rightarrow> Some (r, fs) | None \<Rightarrow> do {
       (r, fs) \<leftarrow> (if do_inode then read_inode_group rd inn inoitr i fs else Some (None, fs));
       case r of Some r \<Rightarrow> Some (r, fs) | None \<Rightarrow>
         read_groups rd do_block do_inode bn inn (add64 blkitr (bn * 8)) (add64 inoitr (inn * 8)) (i + 1) n fs
     }
   }"

text \<open>
  When a buffer cannot be allocated, the value returned is an uninitialised variable: \<open>junk_ret\<close>.
  The caller asks for at least one of the bitmaps and for the groups \<open>start\<close> to \<open>fin\<close>.
\<close>

definition ext2_read_bitmap_start ::
    "device_read \<Rightarrow> ret \<Rightarrow> fs \<Rightarrow> u32 \<Rightarrow> nat \<Rightarrow> nat \<Rightarrow> heap_oracle \<Rightarrow> (ret \<times> fs \<times> heap_oracle) option" where
  "ext2_read_bitmap_start rd junk_ret fs fl start fin h =
     (let do_block = fl AND EXT2_BITMAP_BLOCK \<noteq> 0; do_inode = fl AND EXT2_BITMAP_INODE \<noteq> 0;
          (ok1, al) = (if do_block then take_alloc (outcomes h) else (True, outcomes h));
          (ok2, al) = (if ok1 \<and> do_inode then take_alloc al else (True, al));
          h = h\<lparr>outcomes := al\<rparr>;
          bn = (if do_block then s_clusters_per_group (super fs) div 8 else 0);
          inn = (if do_inode then s_inodes_per_group (super fs) div 8 else 0)
      in if \<not> ok1 \<or> \<not> ok2 then Some (junk_ret, fs, h)
         else map_option (\<lambda>(r, fs). (r, fs, h))
                (read_groups rd do_block do_inode bn inn
                   (add64 (EXT2_B2C fs (s_first_data_block (super fs))) (start * (bn * 8)))
                   (add64 1 (start * (inn * 8))) start (fin + 1 - start) fs))"

definition ext2_read_bitmap_end :: "fs \<Rightarrow> u32 \<Rightarrow> fs option" where
  "ext2_read_bitmap_end fs fl =
     (if fl AND EXT2_BITMAP_BLOCK \<noteq> 0 then ext2_mark_uninit_bg_group_blocks fs else Some fs)"

definition ext2_clean_bitmap :: "fs \<Rightarrow> u32 \<Rightarrow> fs" where
  "ext2_clean_bitmap fs fl =
     (let fs = (if fl AND EXT2_BITMAP_BLOCK \<noteq> 0 then fs\<lparr>block_bitmap := None\<rparr> else fs) in
      if fl AND EXT2_BITMAP_INODE \<noteq> 0 then fs\<lparr>inode_bitmap := None\<rparr> else fs)"

definition ext2_read_bitmap ::
    "device_read \<Rightarrow> ret \<Rightarrow> fs \<Rightarrow> u32 \<Rightarrow> nat \<Rightarrow> nat \<Rightarrow> heap_oracle \<Rightarrow> (ret \<times> fs \<times> heap_oracle) option" where
  "ext2_read_bitmap rd junk_ret fs fl start fin h = do {
     (r, fs, h) \<leftarrow> ext2_prepare_read_bitmap fs fl h;
     if r \<noteq> None then Some (r, fs, h)
     else do {
       (r, fs, h) \<leftarrow> ext2_read_bitmap_start rd junk_ret fs fl start fin h;
       if r = None then map_option (\<lambda>fs. (None, fs, h)) (ext2_read_bitmap_end fs fl)
       else Some (r, ext2_clean_bitmap fs fl, h)
     }
   }"

definition ext2_read_bitmaps :: "device_read \<Rightarrow> ret \<Rightarrow> fs \<Rightarrow> heap_oracle \<Rightarrow> (ret \<times> fs \<times> heap_oracle) option" where
  "ext2_read_bitmaps rd junk_ret fs h =
     (let fl = (if block_bitmap fs = None then EXT2_BITMAP_BLOCK else 0) OR
               (if inode_bitmap fs = None then EXT2_BITMAP_INODE else 0)
      in if fl = 0 then Some (None, fs, h)
         else ext2_read_bitmap rd junk_ret fs fl 0 ((group_desc_count fs + 2 ^ 32 - 1) mod 2 ^ 32) h)"

section \<open>Writing the bitmaps\<close>

text \<open>The device decides about each write (offset and length); the writes done are recorded in order.\<close>

type_synonym device_write = "nat \<Rightarrow> nat \<Rightarrow> bool"
type_synonym write_log = "(nat \<times> u8 list) list"

definition ext2_write_blocks :: "device_write \<Rightarrow> u8 list \<Rightarrow> fs \<Rightarrow> nat \<Rightarrow> write_log \<Rightarrow> bool \<times> write_log" where
  "ext2_write_blocks wr buf fs block log =
     (let off = block * blksize fs mod 2 ^ 64 in
      if wr off (length buf) then (True, log @ [(off, buf)]) else (False, log))"

definition MS_RDONLY :: u32 where "MS_RDONLY = push_bit 0 1"

definition write_block_group ::
    "device_write \<Rightarrow> nat \<Rightarrow> nat \<Rightarrow> nat \<Rightarrow> fs \<times> write_log \<Rightarrow> (ret \<times> fs \<times> write_log) option" where
  "write_block_group wr nbytes blkitr i = (\<lambda>(fs, log). do {
     t \<leftarrow> (if ext2_has_group_desc_checksum (super fs) then ext2_bg_test_flags fs i EXT2_BG_BLOCK_UNINIT else Some False);
     if t then Some (None, fs, log)
     else do {
       r \<leftarrow> ext2_get_bitmap_range (block_bitmap fs) blkitr (nbytes * 8);
       case r of Inl e \<Rightarrow> Some (Some e, fs, log) | Inr d \<Rightarrow> do {
         let nbits = EXT2_NUM_B2C fs (sub64 (ext2_blocks_count (super fs)) (s_first_data_block (super fs))
                                       mod s_blocks_per_group (super fs));
         let buf = d @ replicate (blksize fs - nbytes) 0xff;
         buf \<leftarrow> (if i = group_desc_count fs - 1 \<and> nbits \<noteq> 0
                 then iter_range set_bit_bm buf nbits (blksize fs * 8 - nbits) else Some buf);
         fs \<leftarrow> ext2_block_bitmap_checksum_update fs i (take nbytes buf);
         fs \<leftarrow> ext2_group_desc_checksum_update fs i;
         let fs = fs\<lparr>flags := flags fs OR EXT2_FLAG_DIRTY\<rparr>;
         block \<leftarrow> ext2_block_bitmap_loc fs i;
         let (ok, log) = (if block \<noteq> 0 then ext2_write_blocks wr buf fs block log else (True, log));
         Some (if ok then None else Some EIO, fs, log)
       }
     }
   })"

definition write_inode_group ::
    "device_write \<Rightarrow> nat \<Rightarrow> nat \<Rightarrow> nat \<Rightarrow> fs \<times> write_log \<Rightarrow> (ret \<times> fs \<times> write_log) option" where
  "write_inode_group wr nbytes inoitr i = (\<lambda>(fs, log). do {
     t \<leftarrow> (if ext2_has_group_desc_checksum (super fs) then ext2_bg_test_flags fs i EXT2_BG_INODE_UNINIT else Some False);
     if t then Some (None, fs, log)
     else do {
       r \<leftarrow> ext2_get_bitmap_range (inode_bitmap fs) inoitr (nbytes * 8);
       case r of Inl e \<Rightarrow> Some (Some e, fs, log) | Inr d \<Rightarrow> do {
         let buf = d @ replicate (blksize fs - nbytes) 0xff;
         fs \<leftarrow> ext2_inode_bitmap_checksum_update fs i (take nbytes buf);
         fs \<leftarrow> ext2_group_desc_checksum_update fs i;
         let fs = fs\<lparr>flags := flags fs OR EXT2_FLAG_DIRTY\<rparr>;
         block \<leftarrow> ext2_inode_bitmap_loc fs i;
         let (ok, log) = (if block \<noteq> 0 then ext2_write_blocks wr buf fs block log else (True, log));
         Some (if ok then None else Some EIO, fs, log)
       }
     }
   })"

fun write_groups :: "device_write \<Rightarrow> bool \<Rightarrow> bool \<Rightarrow> nat \<Rightarrow> nat \<Rightarrow> nat \<Rightarrow> nat \<Rightarrow> nat \<Rightarrow> nat \<Rightarrow> fs \<times> write_log
    \<Rightarrow> (ret \<times> fs \<times> write_log) option" where
  "write_groups wr do_block do_inode bn inn blkitr inoitr i 0 s = Some (None, s)"
| "write_groups wr do_block do_inode bn inn blkitr inoitr i (Suc n) s = do {
     (r, s) \<leftarrow> (if do_block then write_block_group wr bn blkitr i s else Some (None, s));
     case r of Some e \<Rightarrow> Some (Some e, s) | None \<Rightarrow> do {
       (r, s) \<leftarrow> (if do_inode then write_inode_group wr inn inoitr i s else Some (None, s));
       case r of Some e \<Rightarrow> Some (Some e, s) | None \<Rightarrow>
         write_groups wr do_block do_inode bn inn (add64 blkitr (bn * 8)) (add64 inoitr (inn * 8)) (i + 1) n s
     }
   }"

definition ext2_write_bitmaps ::
    "device_write \<Rightarrow> ret \<Rightarrow> fs \<Rightarrow> write_log \<Rightarrow> alloc_outcomes \<Rightarrow> (ret \<times> fs \<times> write_log \<times> alloc_outcomes) option" where
  "ext2_write_bitmaps wr junk_ret fs log al =
     (let do_block = block_bitmap fs \<noteq> None \<and> flags fs AND EXT2_FLAG_BB_DIRTY \<noteq> 0;
          do_inode = inode_bitmap fs \<noteq> None \<and> flags fs AND EXT2_FLAG_IB_DIRTY \<noteq> 0
      in if mflags fs AND MS_RDONLY \<noteq> 0 then Some (Some EROFS, fs, log, al)
         else if \<not> do_block \<and> \<not> do_inode then Some (None, fs, log, al)
         else let bn = (if do_block then s_clusters_per_group (super fs) div 8 else 0);
                  inn = (if do_inode then (s_inodes_per_group (super fs) + 7) div 8 else 0);
                  (ok1, al) = (if do_block then take_alloc al else (True, al));
                  (ok2, al) = (if ok1 \<and> do_inode then take_alloc al else (True, al))
              in if \<not> ok1 \<or> \<not> ok2 then Some (junk_ret, fs, log, al)
                 else if bn > blksize fs \<or> inn > blksize fs then None
                 else do {
                   (r, fs, log) \<leftarrow> write_groups wr do_block do_inode bn inn
                      (EXT2_B2C fs (s_first_data_block (super fs))) 1 0 (group_desc_count fs) (fs, log);
                   Some (r, if r = None
                            then let fs = (if do_block then fs\<lparr>flags := flags fs AND NOT EXT2_FLAG_BB_DIRTY\<rparr> else fs) in
                                 if do_inode then fs\<lparr>flags := flags fs AND NOT EXT2_FLAG_IB_DIRTY\<rparr> else fs
                            else fs, log, al)
                 })"

end
