(* ===== verification/Pml_Ext2_Alloc.thy ===== *)
theory Pml_Ext2_Alloc
  imports Pml_Ext2_Bitmap
begin

text \<open>
  Allocation of blocks and inodes in the ext2 driver (drivers/fs/ext2/util.c): the search for a
  free block or inode, the bookkeeping in bitmap, group descriptor and superblock, and opening a
  file system (drivers/fs/ext2/super.c). The allocator relies on the bitmaps through an
  interface: the locale states what marking, clearing, testing and searching promise, and it is
  interpreted on the bitmaps of both kinds. The main results are that the counters of free
  blocks stay equal to the number of clear bits, that allocated blocks were free, and that the
  checks of \<open>ext2_openfs\<close> give the geometry that the rest of the driver relies on.
\<close>

section \<open>The interface of bitmaps\<close>

locale usage_bitmap =
  fixes mark unmark :: "'b \<Rightarrow> nat \<Rightarrow> 'b option"
    and test :: "'b \<Rightarrow> nat \<Rightarrow> bool option"
    and find :: "'b \<Rightarrow> nat \<Rightarrow> nat \<Rightarrow> (errno + nat) option"
    and ok :: "'b \<Rightarrow> bool"
    and lo hi :: "'b \<Rightarrow> nat"
    and used :: "'b \<Rightarrow> nat set"
  assumes mark_in: "ok b \<Longrightarrow> lo b \<le> a \<Longrightarrow> a \<le> hi b \<Longrightarrow>
      \<exists>b'. mark b a = Some b' \<and> ok b' \<and> lo b' = lo b \<and> hi b' = hi b \<and> used b' = insert a (used b)"
    and unmark_in: "ok b \<Longrightarrow> lo b \<le> a \<Longrightarrow> a \<le> hi b \<Longrightarrow>
      \<exists>b'. unmark b a = Some b' \<and> ok b' \<and> lo b' = lo b \<and> hi b' = hi b \<and> used b' = used b - {a}"
    and outside: "ok b \<Longrightarrow> a < lo b \<or> hi b < a \<Longrightarrow> mark b a = Some b \<and> unmark b a = Some b \<and> test b a = Some False"
    and test_in: "ok b \<Longrightarrow> lo b \<le> a \<Longrightarrow> a \<le> hi b \<Longrightarrow> test b a = Some (a \<in> used b)"
    and find_in: "ok b \<Longrightarrow> lo b \<le> s \<Longrightarrow> s \<le> e \<Longrightarrow> e \<le> hi b \<Longrightarrow>
      find b s e = Some (case first_clear (used b) s (e - s + 1) of None \<Rightarrow> Inl ENOENT | Some i \<Rightarrow> Inr i)"
    and find_outside: "ok b \<Longrightarrow> s < lo b \<or> hi b < e \<or> e < s \<Longrightarrow> find b s e = Some (Inl EUCLEAN)"
begin

text \<open>The number of clear bits in a range, the meaning of the counters of free blocks and inodes.\<close>

lemma mark_counts:
  assumes "ok b" "lo b \<le> a" "a \<le> hi b" "a \<notin> used b" "mark b a = Some b'" "finite S"
  shows "int (card (S - used b')) = int (card (S - used b)) - (if a \<in> S then 1 else 0)"
proof -
  have u: "used b' = insert a (used b)" using mark_in [OF assms(1-3)] assms(5) by auto
  show ?thesis
  proof (cases "a \<in> S")
    case True
    then have "S - used b = insert a (S - used b')" using assms(4) u by auto
    moreover have "card (insert a (S - used b')) = Suc (card (S - used b'))"
      by (rule card_insert_disjoint) (use assms(6) u in auto)
    ultimately have "card (S - used b) = Suc (card (S - used b'))" by metis
    then show ?thesis using True by simp
  next
    case False
    then have "S - used b' = S - used b" using u by auto
    then show ?thesis using False by simp
  qed
qed

lemma unmark_counts:
  assumes "ok b" "lo b \<le> a" "a \<le> hi b" "a \<in> used b" "unmark b a = Some b'" "finite S"
  shows "int (card (S - used b')) = int (card (S - used b)) - (if a \<in> S then - 1 else 0)"
proof -
  have u: "used b' = used b - {a}" using unmark_in [OF assms(1-3)] assms(5) by auto
  show ?thesis
  proof (cases "a \<in> S")
    case True
    then have "S - used b' = insert a (S - used b)" using assms(4) u by auto
    moreover have "card (insert a (S - used b)) = Suc (card (S - used b))"
      by (rule card_insert_disjoint) (use assms(4,6) in auto)
    ultimately have "card (S - used b') = Suc (card (S - used b))" by metis
    then show ?thesis using True by simp
  next
    case False
    then have "S - used b' = S - used b" using u by auto
    then show ?thesis using False by simp
  qed
qed

lemma find_result:
  assumes "ok b" "find b s e = Some (Inr i)"
  shows "lo b \<le> s" "s \<le> i" "i \<le> e" "e \<le> hi b" "i \<notin> used b" "{s..<i} \<subseteq> used b"
proof -
  have r: "lo b \<le> s \<and> s \<le> e \<and> e \<le> hi b" using assms find_outside [of b s e] by force
  then have "first_clear (used b) s (e - s + 1) = Some i"
    using assms find_in [of b s e] by (cases "first_clear (used b) s (e - s + 1)") (simp_all del: first_clear.simps)
  then have "s \<le> i \<and> i < s + (e - s + 1) \<and> i \<notin> used b \<and> {s..<i} \<subseteq> used b" unfolding first_clear_Some .
  then show "lo b \<le> s" "s \<le> i" "i \<le> e" "e \<le> hi b" "i \<notin> used b" "{s..<i} \<subseteq> used b" using r by auto
qed

lemma find_none:
  assumes "ok b" "find b s e = Some (Inl ENOENT)"
  shows "lo b \<le> s" "s \<le> e" "e \<le> hi b" "{s..e} \<subseteq> used b"
proof -
  have r: "lo b \<le> s \<and> s \<le> e \<and> e \<le> hi b" using assms find_outside [of b s e] by force
  then have "first_clear (used b) s (e - s + 1) = None"
    using assms find_in [of b s e] by (cases "first_clear (used b) s (e - s + 1)") (simp_all del: first_clear.simps)
  then have "{s..<s + (e - s + 1)} \<subseteq> used b" unfolding first_clear_None .
  moreover have "{s..e} = {s..<s + (e - s + 1)}" using r by auto
  ultimately show "lo b \<le> s" "s \<le> e" "e \<le> hi b" "{s..e} \<subseteq> used b" using r by auto
qed

lemma find_total: "ok b \<Longrightarrow> \<exists>r. find b s e = Some r \<and> (\<forall>x. r = Inl x \<longrightarrow> x = ENOENT \<or> x = EUCLEAN)"
  using find_in [of b s e] find_outside [of b s e]
  by (cases "lo b \<le> s \<and> s \<le> e \<and> e \<le> hi b") (force split: option.splits)+

end

subsection \<open>The bitmaps of the driver\<close>

fun bmap_ok :: "ext2_bitmap \<Rightarrow> bool" where
  "bmap_ok (Bmap32 b) \<longleftrightarrow> m_start b \<le> m_end b \<and> m_end b < 2 ^ 32 \<and> m_end b - m_start b < bm_cap (m_bits b)"
| "bmap_ok (Bmap64 cb b) \<longleftrightarrow> cb = 0 \<and> b_start b \<le> b_end b \<and> b_end b < 2 ^ 64 - 1 \<and>
     b_end b - b_start b < bm_cap (b_bitarray b)"

fun bmap_lo :: "ext2_bitmap \<Rightarrow> nat" where
  "bmap_lo (Bmap32 b) = m_start b"
| "bmap_lo (Bmap64 cb b) = b_start b"

fun bmap_hi :: "ext2_bitmap \<Rightarrow> nat" where
  "bmap_hi (Bmap32 b) = m_end b"
| "bmap_hi (Bmap64 cb b) = b_end b"

fun bmap_used :: "ext2_bitmap \<Rightarrow> nat set" where
  "bmap_used (Bmap32 b) = {a. m_start b \<le> a \<and> a - m_start b \<in> bm_ones (m_bits b)}"
| "bmap_used (Bmap64 cb b) = {a. b_start b \<le> a \<and> a - b_start b \<in> bm_ones (b_bitarray b)}"

text \<open>The operations on a bitmap that is there.\<close>

definition mark1 :: "ext2_bitmap \<Rightarrow> nat \<Rightarrow> ext2_bitmap option" where
  "mark1 b a = Option.bind (ext2_mark_bitmap (Some b) a) (\<lambda>r. r)"

definition unmark1 :: "ext2_bitmap \<Rightarrow> nat \<Rightarrow> ext2_bitmap option" where
  "unmark1 b a = Option.bind (ext2_unmark_bitmap (Some b) a) (\<lambda>r. r)"

lemma mark1_run: "mark1 b a = Some b' \<longleftrightarrow> ext2_mark_bitmap (Some b) a = Some (Some b')"
proof -
  have "ext2_mark_bitmap (Some b) a \<noteq> Some None" by (cases b) (auto simp: set_m_bits_def Let_def)
  then show ?thesis by (auto simp: mark1_def bind_eq_Some_conv)
qed

lemma unmark1_run: "unmark1 b a = Some b' \<longleftrightarrow> ext2_unmark_bitmap (Some b) a = Some (Some b')"
proof -
  have "ext2_unmark_bitmap (Some b) a \<noteq> Some None" by (cases b) (auto simp: set_m_bits_def Let_def)
  then show ?thesis by (auto simp: unmark1_def bind_eq_Some_conv)
qed

lemma shifted_insert: "m \<le> a \<Longrightarrow> {x. m \<le> x \<and> x - m \<in> insert (a - m) S} = insert a {x. m \<le> x \<and> x - m \<in> (S :: nat set)}"
  by auto

lemma shifted_remove: "m \<le> a \<Longrightarrow> {x. m \<le> x \<and> x - m \<in> S - {a - m}} = {x. m \<le> x \<and> x - m \<in> (S :: nat set)} - {a}"
  by auto

lemma first_clear_shift:
  "m \<le> s \<Longrightarrow> first_clear {x. m \<le> x \<and> x - m \<in> S} s n = map_option (\<lambda>i. i + m) (first_clear S (s - m) n)"
  by (induction n arbitrary: s) (auto simp: Suc_diff_le)

lemma find_zero_loop_first:
  "m_start b \<le> s \<Longrightarrow> s - m_start b + n \<le> bm_cap (m_bits b) \<Longrightarrow>
   find_zero_loop b s n = Some (case first_clear (bmap_used (Bmap32 b)) s n of None \<Rightarrow> Inl ENOENT | Some i \<Rightarrow> Inr i)"
proof (induction n arbitrary: s)
  case (Suc n)
  have "test_bit_bm (m_bits b) (s - m_start b) = Some (s - m_start b \<in> bm_ones (m_bits b))"
    using Suc.prems by (intro test_bit_bm_ones) simp
  with Suc show ?case by (simp add: Suc_diff_le)
qed simp

lemma bmap_mark_in:
  assumes "bmap_ok b" "bmap_lo b \<le> a" "a \<le> bmap_hi b"
  shows "\<exists>b'. mark1 b a = Some b' \<and> bmap_ok b' \<and> bmap_lo b' = bmap_lo b \<and> bmap_hi b' = bmap_hi b \<and>
    bmap_used b' = insert a (bmap_used b)"
proof (cases b)
  case (Bmap32 m)
  have i: "a - m_start m < bm_cap (m_bits m)" using assms Bmap32 by auto
  obtain bits where bits: "set_bit_bm (m_bits m) (a - m_start m) = Some bits"
    "bm_ones bits = insert (a - m_start m) (bm_ones (m_bits m))" "bm_cap bits = bm_cap (m_bits m)"
    using bm.set_in [OF i] by blast
  have "mark1 b a = Some (Bmap32 (m\<lparr>m_bits := bits\<rparr>))"
    using assms Bmap32 bits(1) by (simp add: mark1_run set_m_bits_def)
  then show ?thesis using assms Bmap32 bits shifted_insert [of "m_start m" a] by auto
next
  case (Bmap64 cb m)
  have i: "a - b_start m < bm_cap (b_bitarray m)" using assms Bmap64 by auto
  obtain bits where bits: "set_bit_bm (b_bitarray m) (a - b_start m) = Some bits"
    "bm_ones bits = insert (a - b_start m) (bm_ones (b_bitarray m))" "bm_cap bits = bm_cap (b_bitarray m)"
    using bm.set_in [OF i] by blast
  have "mark1 b a = Some (Bmap64 cb (m\<lparr>b_bitarray := bits\<rparr>))"
    using assms Bmap64 bits(1) by (simp add: mark1_run ext2_bitarray_mark_bmap_def with_bits_def Let_def)
  then show ?thesis using assms Bmap64 bits shifted_insert [of "b_start m" a] by auto
qed

lemma bmap_unmark_in:
  assumes "bmap_ok b" "bmap_lo b \<le> a" "a \<le> bmap_hi b"
  shows "\<exists>b'. unmark1 b a = Some b' \<and> bmap_ok b' \<and> bmap_lo b' = bmap_lo b \<and> bmap_hi b' = bmap_hi b \<and>
    bmap_used b' = bmap_used b - {a}"
proof (cases b)
  case (Bmap32 m)
  have i: "a - m_start m < bm_cap (m_bits m)" using assms Bmap32 by auto
  obtain bits where bits: "clear_bit_bm (m_bits m) (a - m_start m) = Some bits"
    "bm_ones bits = bm_ones (m_bits m) - {a - m_start m}" "bm_cap bits = bm_cap (m_bits m)"
    using bm.clear_in [OF i] by blast
  have "unmark1 b a = Some (Bmap32 (m\<lparr>m_bits := bits\<rparr>))"
    using assms Bmap32 bits(1) by (simp add: unmark1_run set_m_bits_def)
  then show ?thesis using assms Bmap32 bits shifted_remove [of "m_start m" a "bm_ones (m_bits m)"] by simp
next
  case (Bmap64 cb m)
  have i: "a - b_start m < bm_cap (b_bitarray m)" using assms Bmap64 by auto
  obtain bits where bits: "clear_bit_bm (b_bitarray m) (a - b_start m) = Some bits"
    "bm_ones bits = bm_ones (b_bitarray m) - {a - b_start m}" "bm_cap bits = bm_cap (b_bitarray m)"
    using bm.clear_in [OF i] by blast
  have "unmark1 b a = Some (Bmap64 cb (m\<lparr>b_bitarray := bits\<rparr>))"
    using assms Bmap64 bits(1) by (simp add: unmark1_run ext2_bitarray_unmark_bmap_def with_bits_def Let_def)
  then show ?thesis using assms Bmap64 bits shifted_remove [of "b_start m" a "bm_ones (b_bitarray m)"] by simp
qed

lemma bmap_find_in:
  assumes "bmap_ok b" "bmap_lo b \<le> s" "s \<le> e" "e \<le> bmap_hi b"
  shows "ext2_find_first_zero_bitmap (Some b) s e =
    Some (case first_clear (bmap_used b) s (e - s + 1) of None \<Rightarrow> Inl ENOENT | Some i \<Rightarrow> Inr i)"
proof (cases b)
  case (Bmap32 m)
  then have "s - m_start m + (e - s + 1) \<le> bm_cap (m_bits m)" using assms by auto
  then show ?thesis
    using assms Bmap32 find_zero_loop_first [of m s "e - s + 1"] by (simp del: first_clear.simps find_zero_loop.simps)
next
  case (Bmap64 cb m)
  let ?f = "first_clear (bm_ones (b_bitarray m)) (s - b_start m) (e - s + 1)"
  have run: "ext2_bitarray_find_first_zero m s e = Some (case ?f of None \<Rightarrow> Inl ENOENT | Some p \<Rightarrow> Inr (p + b_start m))"
    by (rule find_first_zero_correct) (use assms Bmap64 in auto)
  have "b_start m + p \<ge> s \<and> b_start m + p < 2 ^ 64" if "?f = Some p" for p
  proof -
    have "s - b_start m \<le> p \<and> p < s - b_start m + (e - s + 1)" using that unfolding first_clear_Some by simp
    then show ?thesis using assms Bmap64 by auto
  qed
  then show ?thesis
    using assms Bmap64 run first_clear_shift [of "b_start m" s "bm_ones (b_bitarray m)" "e - s + 1"]
    by (cases ?f) (auto simp: add.commute simp del: first_clear.simps)
qed

interpretation ub: usage_bitmap mark1 unmark1 "\<lambda>b. ext2_test_bitmap (Some b)" "\<lambda>b. ext2_find_first_zero_bitmap (Some b)"
  bmap_ok bmap_lo bmap_hi bmap_used
proof unfold_locales
  fix b a assume ok: "bmap_ok b" and out: "a < bmap_lo b \<or> bmap_hi b < a"
  show "mark1 b a = Some b \<and> unmark1 b a = Some b \<and> ext2_test_bitmap (Some b) a = Some False"
    using ok out by (cases b) (auto simp: mark1_run unmark1_run Let_def)
next
  fix b a assume "bmap_ok b" "bmap_lo b \<le> a" "a \<le> bmap_hi b"
  then show "ext2_test_bitmap (Some b) a = Some (a \<in> bmap_used b)"
    by (cases b) (auto simp: Let_def ext2_bitarray_test_bmap_def test_bit_bm_ones)
next
  fix b s e assume "bmap_ok b" "s < bmap_lo b \<or> bmap_hi b < e \<or> e < s"
  then show "ext2_find_first_zero_bitmap (Some b) s e = Some (Inl EUCLEAN)"
    by (cases b) (auto simp: Let_def)
qed (fact bmap_mark_in bmap_unmark_in bmap_find_in)+

section \<open>Searching and bookkeeping\<close>

definition add_flags :: "u32 \<Rightarrow> fs \<Rightarrow> fs" where
  "add_flags f fs = fs\<lparr>flags := flags fs OR f\<rparr>"

definition ext2_clear_block_uninit :: "fs \<Rightarrow> nat \<Rightarrow> fs option" where
  "ext2_clear_block_uninit fs g =
     (if g \<ge> group_desc_count fs \<or> \<not> ext2_has_group_desc_checksum (super fs) then Some fs
      else do {
        t \<leftarrow> ext2_bg_test_flags fs g EXT2_BG_BLOCK_UNINIT;
        if \<not> t then Some fs
        else do {
          fs \<leftarrow> ext2_bg_clear_flags fs g EXT2_BG_BLOCK_UNINIT;
          fs \<leftarrow> ext2_group_desc_checksum_update fs g;
          Some (add_flags (EXT2_FLAG_CHANGED OR EXT2_FLAG_DIRTY OR EXT2_FLAG_BB_DIRTY) fs)
        }
      })"

text \<open>The bitmap that the function gets is the one of the file system in all calls.\<close>

definition ext2_check_inode_uninit :: "fs \<Rightarrow> nat \<Rightarrow> fs option" where
  "ext2_check_inode_uninit fs g =
     (if g \<ge> group_desc_count fs \<or> \<not> ext2_has_group_desc_checksum (super fs) then Some fs
      else do {
        t \<leftarrow> ext2_bg_test_flags fs g EXT2_BG_INODE_UNINIT;
        if \<not> t then Some fs
        else do {
          b \<leftarrow> iter_range ext2_unmark_bitmap (inode_bitmap fs)
                 (g * s_inodes_per_group (super fs) mod 2 ^ 32 + 1) (s_inodes_per_group (super fs));
          fs \<leftarrow> ext2_bg_clear_flags (fs\<lparr>inode_bitmap := b\<rparr>) g (EXT2_BG_INODE_UNINIT OR EXT2_BG_BLOCK_UNINIT);
          fs \<leftarrow> ext2_group_desc_checksum_update fs g;
          Some (add_flags (EXT2_FLAG_CHANGED OR EXT2_FLAG_DIRTY OR EXT2_FLAG_IB_DIRTY) fs)
        }
      })"

text \<open>\<open>inuse\<close> is 1 or -1.\<close>

definition ext2_block_alloc_stats :: "fs \<Rightarrow> nat \<Rightarrow> int \<Rightarrow> fs option" where
  "ext2_block_alloc_stats fs block inuse =
     (let g = ext2_group_of_block fs block in
      if block > ext2_blocks_count (super fs) then Some fs
      else do {
        b \<leftarrow> (if inuse > 0 then ext2_mark_bitmap (block_bitmap fs) block else ext2_unmark_bitmap (block_bitmap fs) block);
        let fs = fs\<lparr>block_bitmap := b\<rparr>;
        c \<leftarrow> ext2_bg_free_blocks_count fs g;
        fs \<leftarrow> ext2_bg_free_blocks_count_set fs g (c - word_of_int inuse);
        fs \<leftarrow> ext2_bg_clear_flags fs g EXT2_BG_BLOCK_UNINIT;
        fs \<leftarrow> ext2_group_desc_checksum_update fs g;
        let fs = fs\<lparr>super := ext2_free_blocks_count_add (word_of_int (- inuse * int (EXT2_CLUSTER_RATIO fs))) (super fs)\<rparr>;
        Some (add_flags (EXT2_FLAG_CHANGED OR EXT2_FLAG_DIRTY OR EXT2_FLAG_BB_DIRTY) fs)
      })"

definition ext2_inode_alloc_stats :: "fs \<Rightarrow> nat \<Rightarrow> int \<Rightarrow> bool \<Rightarrow> fs option" where
  "ext2_inode_alloc_stats fs ino inuse isdir =
     (let g = ext2_group_of_inode fs ino; ipg = s_inodes_per_group (super fs) in
      if ino > s_inodes_count (super fs) then Some fs
      else do {
        b \<leftarrow> (if inuse > 0 then ext2_mark_bitmap (inode_bitmap fs) ino else ext2_unmark_bitmap (inode_bitmap fs) ino);
        let fs = fs\<lparr>inode_bitmap := b\<rparr>;
        c \<leftarrow> ext2_bg_free_inodes_count fs g;
        fs \<leftarrow> ext2_bg_free_inodes_count_set fs g (c - word_of_int inuse);
        fs \<leftarrow> (if isdir then do {
            d \<leftarrow> ext2_bg_used_dirs_count fs g;
            ext2_bg_used_dirs_count_set fs g (d + word_of_int inuse)
          } else Some fs);
        fs \<leftarrow> ext2_bg_clear_flags fs g EXT2_BG_INODE_UNINIT;
        fs \<leftarrow> (if ext2_has_group_desc_checksum (super fs) then do {
            u \<leftarrow> ext2_bg_itable_unused fs g;
            let first_unused = unat (word_of_nat ipg - u + word_of_nat (g * ipg) + 1 :: u32);
            fs \<leftarrow> (if ino \<ge> first_unused
              then ext2_bg_itable_unused_set fs g (word_of_nat (g * ipg + ipg) - word_of_nat ino) else Some fs);
            ext2_group_desc_checksum_update fs g
          } else Some fs);
        let fs = fs\<lparr>super := (super fs)\<lparr>s_free_inodes_count := s_free_inodes_count (super fs) - word_of_int inuse\<rparr>\<rparr>;
        Some (add_flags (EXT2_FLAG_CHANGED OR EXT2_FLAG_DIRTY OR EXT2_FLAG_IB_DIRTY) fs)
      })"

definition ext2_new_block :: "fs \<Rightarrow> nat \<Rightarrow> ((errno + nat) \<times> fs) option" where
  "ext2_new_block fs goal =
     (if block_bitmap fs = None then Some (Inl EINVAL, fs)
      else let total = ext2_blocks_count (super fs);
               goal = (if goal = 0 \<or> goal \<ge> total then goal - goal mod EXT2_CLUSTER_RATIO fs else goal);
               first = s_first_data_block (super fs)
           in do {
             r \<leftarrow> ext2_find_first_zero_bitmap (block_bitmap fs) goal (sub64 total 1);
             r \<leftarrow> (if r = Inl ENOENT \<and> goal \<noteq> first
                  then ext2_find_first_zero_bitmap (block_bitmap fs) first (sub64 goal 1) else Some r);
             case r of
               Inl e \<Rightarrow> Some (Inl e, fs)
             | Inr b \<Rightarrow> map_option (\<lambda>fs. (Inr b, fs)) (ext2_clear_block_uninit fs (ext2_group_of_block fs b))
           })"

text \<open>
  The loop of \<open>ext2_new_inode\<close>, which ends when it comes back to its start; \<open>fuel\<close> bounds
  its rounds, and a loop that does not end gives \<open>None\<close>.
\<close>

definition new_inode_upto :: "fs \<Rightarrow> nat \<Rightarrow> nat \<Rightarrow> nat" where
  "new_inode_upto fs start_inode i =
     (let ipg = s_inodes_per_group (super fs);
          upto = i + ipg - sub64 i 1 mod ipg;
          upto = (if i < start_inode \<and> upto \<ge> start_inode then start_inode - 1 else upto)
      in if upto > s_inodes_count (super fs) then s_inodes_count (super fs) else upto)"

primrec new_inode_loop :: "nat \<Rightarrow> nat \<Rightarrow> nat \<Rightarrow> fs \<Rightarrow> ((errno + nat) \<times> fs) option" where
  "new_inode_loop 0 start_inode i fs = None"
| "new_inode_loop (Suc fuel) start_inode i fs = do {
     fs \<leftarrow> ext2_check_inode_uninit fs ((sub64 i 1 div s_inodes_per_group (super fs)) mod 2 ^ 32);
     let upto = new_inode_upto fs start_inode i;
     r \<leftarrow> ext2_find_first_zero_bitmap (inode_bitmap fs) i upto;
     case r of
       Inr z \<Rightarrow> Some (Inr z, fs)
     | Inl e \<Rightarrow>
         if e \<noteq> ENOENT then Some (Inl ENOSPC, fs)
         else let i = (if upto + 1 > s_inodes_count (super fs) then EXT2_FIRST_INODE (super fs) else upto + 1) in
              if i \<noteq> start_inode then new_inode_loop fuel start_inode i fs else Some (Inr i, fs)
   }"

definition ext2_new_inode :: "nat \<Rightarrow> fs \<Rightarrow> nat \<Rightarrow> ((errno + nat) \<times> fs) option" where
  "ext2_new_inode fuel fs dir =
     (if inode_bitmap fs = None then Some (Inl EINVAL, fs)
      else let ipg = s_inodes_per_group (super fs);
               start = (if dir > 0 then ((dir - 1) div ipg * ipg) mod 2 ^ 32 + 1 else 0);
               start = (if start < EXT2_FIRST_INODE (super fs) then EXT2_FIRST_INODE (super fs) else start)
           in if start > s_inodes_count (super fs) then Some (Inl ENOSPC, fs)
              else do {
                (r, fs) \<leftarrow> new_inode_loop fuel start start fs;
                case r of
                  Inl e \<Rightarrow> Some (Inl e, fs)
                | Inr i \<Rightarrow> do {
                    t \<leftarrow> ext2_test_bitmap (inode_bitmap fs) i;
                    Some (if t then Inl ENOSPC else Inr i, fs)
                  }
              })"

section \<open>Allocating a block\<close>

text \<open>
  The file system with the writes done so far, the allocator, and the static buffer of zeros of
  \<open>ext2_zero_blocks\<close> (its size in bytes and the number of blocks it was made for).
\<close>

record ext2_state =
  st_fs :: fs
  st_log :: write_log
  st_heap :: heap_oracle
  st_zeros :: nat
  st_stride :: nat

definition EXT2_MAX_STRIDE_LENGTH :: "ext2_super \<Rightarrow> nat" where
  "EXT2_MAX_STRIDE_LENGTH s = 4194304 div EXT2_BLOCK_SIZE s"

text \<open>The loop of \<open>ext2_zero_blocks\<close> for the blocks that are left.\<close>

definition zero_chunk :: "nat \<Rightarrow> nat \<Rightarrow> nat \<Rightarrow> nat" where
  "zero_chunk stride block left =
     (if block mod stride \<noteq> 0 then min (stride - block mod stride) left else min left stride)"

function zero_loop :: "device_write \<Rightarrow> nat \<Rightarrow> nat \<Rightarrow> ext2_state \<Rightarrow> (bool \<times> ext2_state) option" where
  "zero_loop wr block left s =
     (if left = 0 then Some (True, s)
      else if st_stride s = 0 then None
      else let c = zero_chunk (st_stride s) block left in
           if c * blksize (st_fs s) > st_zeros s then None
           else let (ok, log) = ext2_write_blocks wr (replicate (c * blksize (st_fs s)) 0) (st_fs s) block (st_log s);
                    s' = s\<lparr>st_log := log\<rparr>
                in if \<not> ok then Some (False, s') else zero_loop wr (block + c) (left - c) s')"
  by pat_completeness auto
termination
proof (relation "measure (\<lambda>(wr, block, left, s). left)", goal_cases)
  case (2 wr block left s x xa y s')
  have "block mod st_stride s < st_stride s" using 2 by simp
  then have "0 < zero_chunk (st_stride s) block left" using 2 by (simp add: zero_chunk_def)
  then show ?case using 2 by simp
qed simp

declare zero_loop.simps [simp del]

definition ext2_zero_blocks :: "device_write \<Rightarrow> ext2_state \<Rightarrow> nat \<Rightarrow> nat \<Rightarrow> (ret \<times> ext2_state) option" where
  "ext2_zero_blocks wr s block num =
     (if num = 0 then Some (None, s)
      else let mx = EXT2_MAX_STRIDE_LENGTH (super (st_fs s)) in
           if num > st_stride s \<and> st_stride s < mx
           then let (ok, al) = take_alloc (outcomes (st_heap s));
                    s = s\<lparr>st_heap := (st_heap s)\<lparr>outcomes := al\<rparr>\<rparr>;
                    n = min num mx
                in if \<not> ok then Some (Some ENOMEM, s)
                   else map_option (\<lambda>(ok, s). (if ok then None else Some EIO, s))
                          (zero_loop wr block num (s\<lparr>st_zeros := blksize (st_fs s) * n, st_stride := n\<rparr>))
           else map_option (\<lambda>(ok, s). (if ok then None else Some EIO, s)) (zero_loop wr block num s))"

text \<open>\<open>has_buf\<close> says whether the caller gives a buffer to clear and write.\<close>

definition ext2_alloc_block ::
    "device_read \<Rightarrow> device_write \<Rightarrow> ret \<Rightarrow> bool \<Rightarrow> ext2_state \<Rightarrow> nat \<Rightarrow> ((errno + nat) \<times> ext2_state) option" where
  "ext2_alloc_block rd wr junk_ret has_buf s goal = do {
     (r, s) \<leftarrow> (if block_bitmap (st_fs s) = None
       then map_option (\<lambda>(r, fs, h). (r, s\<lparr>st_fs := fs, st_heap := h\<rparr>))
              (ext2_read_bitmap rd junk_ret (st_fs s) EXT2_BITMAP_BLOCK 0
                 ((group_desc_count (st_fs s) + 2 ^ 32 - 1) mod 2 ^ 32) (st_heap s))
       else Some (None, s));
     case r of Some e \<Rightarrow> Some (Inl e, s) | None \<Rightarrow> do {
       (r, fs) \<leftarrow> ext2_new_block (st_fs s) goal;
       let s = s\<lparr>st_fs := fs\<rparr>;
       case r of Inl e \<Rightarrow> Some (Inl e, s) | Inr block \<Rightarrow> do {
         (r, s) \<leftarrow> (if has_buf
           then let (ok, log) = ext2_write_blocks wr (replicate (blksize (st_fs s)) 0) (st_fs s) block (st_log s)
                in Some (if ok then None else Some EIO, s\<lparr>st_log := log\<rparr>)
           else ext2_zero_blocks wr s block 1);
         case r of Some e \<Rightarrow> Some (Inl e, s) | None \<Rightarrow> do {
           fs \<leftarrow> ext2_block_alloc_stats (st_fs s) block 1;
           Some (Inr block, s\<lparr>st_fs := fs\<rparr>)
         }
       }
     }
   }"

section \<open>The geometry of a file system\<close>

text \<open>
  The file systems considered: clusters of one block, groups that cover all blocks with a
  descriptor each, and counters wide enough for a group and for the file system.
\<close>

definition geometry_ok :: "fs \<Rightarrow> bool" where
  "geometry_ok fs \<longleftrightarrow>
     cluster_ratio_bits fs = 0 \<and> 0 < s_blocks_per_group (super fs) \<and> s_blocks_per_group (super fs) \<le> 65528 \<and>
     s_first_data_block (super fs) < ext2_blocks_count (super fs) \<and> ext2_blocks_count (super fs) < 2 ^ 63 \<and>
     (\<not> wide fs \<longrightarrow> ext2_blocks_count (super fs) < 2 ^ 32) \<and>
     group_desc_count fs < 2 ^ 32 \<and> length (group_desc fs) = group_desc_count fs \<and>
     ext2_blocks_count (super fs) \<le> s_first_data_block (super fs) + s_blocks_per_group (super fs) * group_desc_count fs \<and>
     (\<forall>g<group_desc_count fs. desc_ok fs g) \<and> tables_ok (crc_tables fs)"

abbreviation first_block :: "fs \<Rightarrow> nat" where "first_block fs \<equiv> s_first_data_block (super fs)"
abbreviation total_blocks :: "fs \<Rightarrow> nat" where "total_blocks fs \<equiv> ext2_blocks_count (super fs)"

definition group_blocks :: "fs \<Rightarrow> nat \<Rightarrow> nat set" where
  "group_blocks fs g = {b \<in> {first_block fs..<total_blocks fs}. ext2_group_of_block fs b = g}"

lemma group_of_block_val:
  assumes "geometry_ok fs" "b \<in> {first_block fs..<total_blocks fs}"
  shows "ext2_group_of_block fs b = (b - first_block fs) div s_blocks_per_group (super fs)"
    "ext2_group_of_block fs b < group_desc_count fs"
proof -
  let ?bpg = "s_blocks_per_group (super fs)"
  have b: "sub64 b (first_block fs) = b - first_block fs" using assms by (simp add: geometry_ok_def)
  have lt: "(b - first_block fs) div ?bpg < group_desc_count fs"
    using assms by (auto simp: geometry_ok_def div_less_iff_less_mult mult.commute)
  then show "ext2_group_of_block fs b = (b - first_block fs) div ?bpg" "ext2_group_of_block fs b < group_desc_count fs"
    using assms b by (simp_all add: geometry_ok_def ext2_group_of_block_def)
qed

lemma group_blocks_finite [simp]: "finite (group_blocks fs g)"
  by (simp add: group_blocks_def)

lemma group_blocks_interval:
  assumes "geometry_ok fs"
  shows "group_blocks fs g \<subseteq> {first_block fs + g * s_blocks_per_group (super fs)..<first_block fs + g * s_blocks_per_group (super fs) + s_blocks_per_group (super fs)}"
proof
  fix b assume "b \<in> group_blocks fs g"
  then have b: "b \<in> {first_block fs..<total_blocks fs}" "(b - first_block fs) div s_blocks_per_group (super fs) = g"
    using group_of_block_val(1) [OF assms] by (auto simp: group_blocks_def)
  let ?bpg = "s_blocks_per_group (super fs)"
  have p: "0 < ?bpg" using assms by (simp add: geometry_ok_def)
  have "g * ?bpg \<le> b - first_block fs \<and> b - first_block fs < g * ?bpg + ?bpg"
    using b(2) p by (metis add.commute div_times_less_eq_dividend dividend_less_times_div mult.commute mult_Suc_right)
  then show "b \<in> {first_block fs + g * ?bpg..<first_block fs + g * ?bpg + ?bpg}" using b(1) by auto
qed

lemma group_blocks_card:
  assumes "geometry_ok fs"
  shows "card (group_blocks fs g) \<le> 65528"
proof -
  have "card (group_blocks fs g) \<le> s_blocks_per_group (super fs)"
    using card_mono [OF _ group_blocks_interval [OF assms, of g]] by simp
  then show ?thesis using assms by (simp add: geometry_ok_def)
qed

section \<open>Counters\<close>

lemma join_count_split: "wide fs \<or> unat c < 2 ^ 16 \<Longrightarrow>
    join_count fs (ucast c) (if wide fs then ucast (drop_bit 16 c) else h) = c"
proof -
  assume a: "wide fs \<or> unat c < 2 ^ 16"
  have hi: "\<not> bit c n" if "unat c < 2 ^ 16" "16 \<le> n" for n
  proof -
    have "unat c < 2 ^ n" using that power_increasing [of 16 n "2 :: nat"] by linarith
    then have "\<not> bit (unat c) n" by (simp add: bit_iff_odd)
    then show ?thesis by (simp add: bit_unsigned_iff)
  qed
  show ?thesis
  proof (rule bit_word_eqI)
    fix n assume n: "n < LENGTH(32)"
    show "bit (join_count fs (ucast c) (if wide fs then ucast (drop_bit 16 c) else h)) n = bit c n"
      using a hi [of n] n by (cases "n < 16") (auto simp: join_count_def bit_simps)
  qed
qed

lemma free_count_set:
  assumes "g < length (group_desc fs)" "wide fs \<or> unat c < 2 ^ 16"
  obtains d where "ext2_bg_free_blocks_count_set fs g c = Some (fs\<lparr>group_desc := (group_desc fs)[g := d]\<rparr>)"
    "join_count fs (bg_free_blocks_count d) (bg_free_blocks_count_hi d) = c" "bg_rest d = bg_rest (group_desc fs ! g)"
    "bg_flags d = bg_flags (group_desc fs ! g)"
proof -
  let ?d = "(group_desc fs ! g)\<lparr>bg_free_blocks_count := ucast c, bg_free_blocks_count_hi :=
      (if wide fs then ucast (drop_bit 16 c) else bg_free_blocks_count_hi (group_desc fs ! g))\<rparr>"
  have "ext2_bg_free_blocks_count_set fs g c = Some (fs\<lparr>group_desc := (group_desc fs)[g := ?d]\<rparr>)"
    using assms(1) by (cases "wide fs") (simp_all add: ext2_bg_free_blocks_count_set_def update_desc_def Let_def)
  then show thesis using that [of ?d] join_count_split [OF assms(2)] by simp
qed

lemma geometry_frame:
  assumes "geometry_ok fs" "g < group_desc_count fs" "bg_rest d = bg_rest (group_desc fs ! g)" "tables_ok T"
  shows "geometry_ok (fs\<lparr>group_desc := (group_desc fs)[g := d], crc_tables := T\<rparr>)"
  using assms by (auto simp: geometry_ok_def desc_ok_def wide_def nth_list_update)

text \<open>The descriptor part of the bookkeeping: counter, flag and checksum of one group.\<close>

lemma stats_desc_run:
  assumes "geometry_ok fs" "g < group_desc_count fs" "wide fs \<or> unat c < 2 ^ 16"
  obtains d T where "do { fs \<leftarrow> ext2_bg_free_blocks_count_set fs g c; fs \<leftarrow> ext2_bg_clear_flags fs g fl;
      ext2_group_desc_checksum_update fs g } = Some (fs\<lparr>group_desc := (group_desc fs)[g := d], crc_tables := T\<rparr>)"
    "geometry_ok (fs\<lparr>group_desc := (group_desc fs)[g := d], crc_tables := T\<rparr>)"
    "join_count fs (bg_free_blocks_count d) (bg_free_blocks_count_hi d) = c"
proof -
  have g: "g < length (group_desc fs)" using assms by (simp add: geometry_ok_def)
  obtain d where d: "ext2_bg_free_blocks_count_set fs g c = Some (fs\<lparr>group_desc := (group_desc fs)[g := d]\<rparr>)"
    "join_count fs (bg_free_blocks_count d) (bg_free_blocks_count_hi d) = c" "bg_rest d = bg_rest (group_desc fs ! g)"
    using free_count_set [OF g assms(3)] by blast
  let ?d = "d\<lparr>bg_flags := bg_flags d AND NOT fl\<rparr>" and ?fs = "\<lambda>d. fs\<lparr>group_desc := (group_desc fs)[g := d]\<rparr>"
  have fl: "ext2_bg_clear_flags (?fs d) g fl = Some (?fs ?d)"
    using g by (simp add: ext2_bg_clear_flags_def update_desc_def)
  have "desc_ok (?fs ?d) g" "tables_ok (crc_tables (?fs ?d))"
    using assms g d(3) by (simp_all add: geometry_ok_def desc_ok_def)
  then obtain k T where "ext2_group_desc_checksum_update (?fs ?d) g = Some ((?fs ?d)\<lparr>group_desc :=
      (group_desc (?fs ?d))[g := (group_desc (?fs ?d) ! g)\<lparr>bg_checksum := k\<rparr>], crc_tables := T\<rparr>)" "tables_ok T"
    using checksum_update_run [of "?fs ?d" g] by blast
  then have k: "ext2_group_desc_checksum_update (?fs ?d) g =
      Some (fs\<lparr>group_desc := (group_desc fs)[g := ?d\<lparr>bg_checksum := k\<rparr>], crc_tables := T\<rparr>)" "tables_ok T"
    using g by simp_all
  show thesis
    by (rule that [where d = "?d\<lparr>bg_checksum := k\<rparr>" and T = T])
      (use d fl k geometry_frame [OF assms(1,2) _ k(2)] in simp_all)
qed

section \<open>The counters of free blocks are exact\<close>

definition blocks_used :: "fs \<Rightarrow> nat set" where
  "blocks_used fs = (case block_bitmap fs of None \<Rightarrow> {} | Some bm \<Rightarrow> bmap_used bm)"

definition counts_exact :: "fs \<Rightarrow> bool" where
  "counts_exact fs \<longleftrightarrow>
     (\<forall>g<group_desc_count fs. map_option unat (ext2_bg_free_blocks_count fs g) = Some (card (group_blocks fs g - blocks_used fs))) \<and>
     unat (ext2_free_blocks_count (super fs)) = card ({first_block fs..<total_blocks fs} - blocks_used fs)"

definition bitmap_fits :: "fs \<Rightarrow> bool" where
  "bitmap_fits fs \<longleftrightarrow> (case block_bitmap fs of None \<Rightarrow> False
     | Some bm \<Rightarrow> bmap_ok bm \<and> bmap_lo bm = first_block fs \<and> bmap_hi bm = total_blocks fs - 1)"

definition alloc_inv :: "fs \<Rightarrow> bool" where
  "alloc_inv fs \<longleftrightarrow> geometry_ok fs \<and> bitmap_fits fs \<and> counts_exact fs"

lemma super_count_set:
  assumes "incompat s EXT4_FT_INCOMPAT_64BIT \<or> unat c < 2 ^ 32"
  shows "ext2_free_blocks_count (ext2_free_blocks_count_set c s) = c"
proof (rule bit_word_eqI)
  fix n assume n: "n < LENGTH(64)"
  have hi: "\<not> bit c n" if "unat c < 2 ^ 32" "32 \<le> n"
  proof -
    have "unat c < 2 ^ n" using that power_increasing [of 32 n "2 :: nat"] by linarith
    then have "\<not> bit (unat c) n" by (simp add: bit_iff_odd)
    then show ?thesis by (simp add: bit_unsigned_iff)
  qed
  show "bit (ext2_free_blocks_count (ext2_free_blocks_count_set c s)) n = bit c n"
    using assms hi n
    by (cases "n < 32") (auto simp: ext2_free_blocks_count_def ext2_free_blocks_count_set_def incompat_def bit_simps Let_def)
qed

lemma super_count_frame:
  "s_first_data_block (ext2_free_blocks_count_set c s) = s_first_data_block s"
  "ext2_blocks_count (ext2_free_blocks_count_set c s) = ext2_blocks_count s"
  "s_blocks_per_group (ext2_free_blocks_count_set c s) = s_blocks_per_group s"
  "incompat (ext2_free_blocks_count_set c s) f = incompat s f"
  "EXT2_DESC_SIZE (ext2_free_blocks_count_set c s) = EXT2_DESC_SIZE s"
  by (simp_all add: ext2_free_blocks_count_set_def Let_def ext2_blocks_count_def incompat_def EXT2_DESC_SIZE_def)

text \<open>
  One step of the bookkeeping, for both directions: \<open>op\<close> is marking or clearing, and the new values of
  the two counters are given.
\<close>

lemma alloc_stats_run:
  assumes geo: "geometry_ok fs" and bm: "block_bitmap fs = Some bm" "bmap_ok bm'" "bmap_lo bm' = bmap_lo bm" "bmap_hi bm' = bmap_hi bm"
    and fits: "bitmap_fits fs" and b: "b \<in> {first_block fs..<total_blocks fs}"
    and op: "inuse > 0 \<longrightarrow> ext2_mark_bitmap (Some bm) b = Some (Some bm')" "\<not> inuse > 0 \<longrightarrow> ext2_unmark_bitmap (Some bm) b = Some (Some bm')"
    and c: "ext2_bg_free_blocks_count fs (ext2_group_of_block fs b) = Some c" "unat (c - word_of_int inuse) < 2 ^ 16"
    and t: "wide fs \<or> unat (ext2_free_blocks_count (super fs) + word_of_int (- inuse)) < 2 ^ 32"
  obtains fs' where "ext2_block_alloc_stats fs b inuse = Some fs'" "geometry_ok fs'" "bitmap_fits fs'"
    "block_bitmap fs' = Some bm'" "group_desc_count fs' = group_desc_count fs"
    "\<And>g. ext2_bg_free_blocks_count fs' g = (if g = ext2_group_of_block fs b then Some (c - word_of_int inuse) else ext2_bg_free_blocks_count fs g)"
    "ext2_free_blocks_count (super fs') = ext2_free_blocks_count (super fs) + word_of_int (- inuse)"
    "first_block fs' = first_block fs" "total_blocks fs' = total_blocks fs" "\<And>g. group_blocks fs' g = group_blocks fs g"
proof -
  let ?g = "ext2_group_of_block fs b"
  let ?fs = "fs\<lparr>block_bitmap := Some bm'\<rparr>"
  have g: "?g < group_desc_count ?fs" using group_of_block_val [OF geo b] by simp
  have geo1: "geometry_ok ?fs" using geo by (simp add: geometry_ok_def desc_ok_def wide_def)
  obtain d T where run: "do { fs \<leftarrow> ext2_bg_free_blocks_count_set ?fs ?g (c - word_of_int inuse); fs \<leftarrow> ext2_bg_clear_flags fs ?g EXT2_BG_BLOCK_UNINIT;
      ext2_group_desc_checksum_update fs ?g } = Some (?fs\<lparr>group_desc := (group_desc ?fs)[?g := d], crc_tables := T\<rparr>)"
    and geo2: "geometry_ok (?fs\<lparr>group_desc := (group_desc ?fs)[?g := d], crc_tables := T\<rparr>)"
    and d: "join_count ?fs (bg_free_blocks_count d) (bg_free_blocks_count_hi d) = c - word_of_int inuse"
    using stats_desc_run [OF geo1 g, of "c - word_of_int inuse" EXT2_BG_BLOCK_UNINIT] c(2) by blast
  let ?f2 = "?fs\<lparr>group_desc := (group_desc ?fs)[?g := d], crc_tables := T\<rparr>"
  let ?s = "ext2_free_blocks_count_add (word_of_int (- inuse)) (super fs)"
  let ?f3 = "add_flags (EXT2_FLAG_CHANGED OR EXT2_FLAG_DIRTY OR EXT2_FLAG_BB_DIRTY) (?f2\<lparr>super := ?s\<rparr>)"
  have ratio: "EXT2_CLUSTER_RATIO f = 1" if "cluster_ratio_bits f = 0" for f :: fs using that by (simp add: EXT2_CLUSTER_RATIO_def)
  have c1: "ext2_bg_free_blocks_count ?fs ?g = Some c"
    using c(1) by (auto simp: ext2_bg_free_blocks_count_def desc_of_def join_count_def wide_def split: if_splits)
  obtain f1 f2 where "ext2_bg_free_blocks_count_set ?fs ?g (c - word_of_int inuse) = Some f1"
    "ext2_bg_clear_flags f1 ?g EXT2_BG_BLOCK_UNINIT = Some f2" "ext2_group_desc_checksum_update f2 ?g = Some ?f2"
    using run by (auto simp: bind_eq_Some_conv)
  moreover have "EXT2_CLUSTER_RATIO ?f2 = 1" using geo2 ratio by (simp add: geometry_ok_def)
  ultimately have "ext2_block_alloc_stats fs b inuse = Some ?f3"
    using b bm(1) op c1 by (simp add: ext2_block_alloc_stats_def Let_def)
  moreover have "geometry_ok ?f3"
    using geo2 by (simp add: geometry_ok_def desc_ok_def wide_def add_flags_def ext2_free_blocks_count_add_def super_count_frame)
  moreover have "bitmap_fits ?f3"
    using fits bm by (simp add: bitmap_fits_def add_flags_def ext2_free_blocks_count_add_def super_count_frame)
  moreover have "ext2_bg_free_blocks_count ?f3 h = (if h = ?g then Some (c - word_of_int inuse) else ext2_bg_free_blocks_count fs h)" for h
    using d g geo2 by (auto simp: ext2_bg_free_blocks_count_def desc_of_def join_count_def wide_def add_flags_def
        ext2_free_blocks_count_add_def super_count_frame geometry_ok_def)
  moreover have "ext2_free_blocks_count (super ?f3) = ext2_free_blocks_count (super fs) + word_of_int (- inuse)"
    using t by (simp add: add_flags_def ext2_free_blocks_count_add_def super_count_set wide_def)
  ultimately show thesis
    by (intro that [of ?f3])
      (simp_all add: add_flags_def ext2_free_blocks_count_add_def super_count_frame group_blocks_def ext2_group_of_block_def)
qed

lemma alloc_invE:
  assumes "alloc_inv fs"
  obtains bm where "geometry_ok fs" "bitmap_fits fs" "block_bitmap fs = Some bm" "bmap_ok bm" "bmap_lo bm = first_block fs"
    "bmap_hi bm = total_blocks fs - 1" "blocks_used fs = bmap_used bm"
    "\<And>g. g < group_desc_count fs \<Longrightarrow> \<exists>c. ext2_bg_free_blocks_count fs g = Some c \<and> unat c = card (group_blocks fs g - blocks_used fs)"
    "unat (ext2_free_blocks_count (super fs)) = card ({first_block fs..<total_blocks fs} - blocks_used fs)"
  using assms by (auto simp: alloc_inv_def bitmap_fits_def counts_exact_def blocks_used_def split: option.splits)

lemma free_total_bound: "geometry_ok fs \<Longrightarrow> wide fs \<or> card ({first_block fs..<total_blocks fs} - U) < 2 ^ 32"
proof -
  assume geo: "geometry_ok fs"
  have "card ({first_block fs..<total_blocks fs} - U) \<le> card {first_block fs..<total_blocks fs}"
    by (rule card_mono) auto
  then show ?thesis using geo by (auto simp: geometry_ok_def)
qed

lemma uint_minus_small:
  fixes c :: "'a::len word"
  assumes "0 \<le> uint c - i" "uint c - i < 2 ^ LENGTH('a)"
  shows "uint (c - word_of_int i) = uint c - i"
proof -
  have "uint (c - word_of_int i) = (uint c - i) mod 2 ^ LENGTH('a)"
    by (simp add: uint_word_ariths uint_word_of_int mod_diff_right_eq)
  then show ?thesis using assms by simp
qed

lemma unat_minus_small:
  fixes c :: "'a::len word"
  assumes "int n = int (unat c) - i" "n < 2 ^ LENGTH('a)"
  shows "unat (c - word_of_int i) = n"
proof -
  have "uint (c - word_of_int i) = int n"
    using assms uint_minus_small [of c i] by (simp flip: of_nat_less_iff [where 'a = int])
  then show ?thesis by (simp add: unat_eq_nat_uint)
qed

text \<open>Both directions of the bookkeeping: \<open>card\<close> says how the number of clear bits in a set of blocks changes.\<close>

lemma stats_exact:
  assumes inv: "alloc_inv fs" and b: "b \<in> {first_block fs..<total_blocks fs}"
    and bm: "block_bitmap fs = Some bm" "bmap_ok bm'" "bmap_lo bm' = bmap_lo bm" "bmap_hi bm' = bmap_hi bm"
    and op: "inuse > 0 \<longrightarrow> ext2_mark_bitmap (Some bm) b = Some (Some bm')" "\<not> inuse > 0 \<longrightarrow> ext2_unmark_bitmap (Some bm) b = Some (Some bm')"
    and card: "\<And>S. finite S \<Longrightarrow> int (card (S - bmap_used bm')) = int (card (S - bmap_used bm)) - (if b \<in> S then inuse else 0)"
  obtains fs' where "ext2_block_alloc_stats fs b inuse = Some fs'" "alloc_inv fs'" "blocks_used fs' = bmap_used bm'"
    "first_block fs' = first_block fs" "total_blocks fs' = total_blocks fs"
proof -
  from inv obtain bm0 where geo: "geometry_ok fs" and fits: "bitmap_fits fs" and "block_bitmap fs = Some bm0" and used: "blocks_used fs = bmap_used bm0"
    and cnt: "\<And>g. g < group_desc_count fs \<Longrightarrow> \<exists>c. ext2_bg_free_blocks_count fs g = Some c \<and> unat c = card (group_blocks fs g - blocks_used fs)"
    and tot: "unat (ext2_free_blocks_count (super fs)) = card ({first_block fs..<total_blocks fs} - blocks_used fs)"
    by (rule alloc_invE) blast
  then have used: "blocks_used fs = bmap_used bm" using bm(1) by simp
  let ?g = "ext2_group_of_block fs b" and ?U = "bmap_used bm'" and ?A = "{first_block fs..<total_blocks fs}"
  have own: "b \<in> group_blocks fs ?g" using b by (simp add: group_blocks_def)
  obtain c where c: "ext2_bg_free_blocks_count fs ?g = Some c" "unat c = card (group_blocks fs ?g - blocks_used fs)"
    using cnt [OF group_of_block_val(2) [OF geo b]] by blast
  have small: "card (group_blocks fs ?g - ?U) \<le> 65528"
    using group_blocks_card [OF geo, of ?g] card_mono [of "group_blocks fs ?g" "group_blocks fs ?g - ?U"] by auto
  have c1: "unat (c - word_of_int inuse) = card (group_blocks fs ?g - ?U)"
    by (rule unat_minus_small) (use card [of "group_blocks fs ?g"] c(2) own used small in simp_all)
  have all: "card (?A - ?U) < 2 ^ 63"
    using geo card_mono [of ?A "?A - ?U"] by (auto simp: geometry_ok_def)
  have f0: "unat (ext2_free_blocks_count (super fs) - word_of_int inuse) = card (?A - ?U)"
    by (rule unat_minus_small) (use card [of ?A] b tot used all in simp_all)
  then have f1: "unat (ext2_free_blocks_count (super fs) + word_of_int (- inuse)) = card (?A - ?U)" by simp
  obtain fs' where fs': "ext2_block_alloc_stats fs b inuse = Some fs'" "geometry_ok fs'" "bitmap_fits fs'"
    "block_bitmap fs' = Some bm'" "group_desc_count fs' = group_desc_count fs"
    "\<And>g. ext2_bg_free_blocks_count fs' g = (if g = ?g then Some (c - word_of_int inuse) else ext2_bg_free_blocks_count fs g)"
    "ext2_free_blocks_count (super fs') = ext2_free_blocks_count (super fs) + word_of_int (- inuse)"
    "first_block fs' = first_block fs" "total_blocks fs' = total_blocks fs" "\<And>g. group_blocks fs' g = group_blocks fs g"
    by (rule alloc_stats_run [OF geo bm fits b op c(1)]) (use c1 small f1 free_total_bound [OF geo, of ?U] in auto)
  have used': "blocks_used fs' = ?U" using fs'(4) by (simp add: blocks_used_def)
  have "map_option unat (ext2_bg_free_blocks_count fs' g) = Some (card (group_blocks fs g - ?U))" if g: "g < group_desc_count fs" for g
  proof (cases "g = ?g")
    case False
    then have "b \<notin> group_blocks fs g" by (simp add: group_blocks_def)
    then show ?thesis using False fs'(6) cnt [OF g] card [of "group_blocks fs g"] used by auto
  qed (use fs'(6) c1 in simp)
  then have "counts_exact fs'" using fs'(5,7-10) used' f1 by (simp add: counts_exact_def)
  then show thesis using that fs' used' by (simp add: alloc_inv_def)
qed

lemma mark_block_exact:
  assumes inv: "alloc_inv fs" and b: "b \<in> {first_block fs..<total_blocks fs} - blocks_used fs"
  obtains fs' where "ext2_block_alloc_stats fs b 1 = Some fs'" "alloc_inv fs'" "blocks_used fs' = insert b (blocks_used fs)"
    "first_block fs' = first_block fs" "total_blocks fs' = total_blocks fs"
proof -
  from inv obtain bm where bm: "block_bitmap fs = Some bm" "bmap_ok bm" "bmap_lo bm = first_block fs" "bmap_hi bm = total_blocks fs - 1"
    and used: "blocks_used fs = bmap_used bm" by (rule alloc_invE) blast
  have r: "bmap_lo bm \<le> b" "b \<le> bmap_hi bm" "b \<notin> bmap_used bm" "b \<in> {first_block fs..<total_blocks fs}" using b bm used by auto
  obtain bm' where bm': "mark1 bm b = Some bm'" "bmap_ok bm'" "bmap_lo bm' = bmap_lo bm" "bmap_hi bm' = bmap_hi bm"
    "bmap_used bm' = insert b (bmap_used bm)" using ub.mark_in [OF bm(2) r(1,2)] by blast
  have card: "int (card (S - bmap_used bm')) = int (card (S - bmap_used bm)) - (if b \<in> S then 1 else 0)" if "finite S" for S
    by (rule ub.mark_counts [OF bm(2) r(1-3) bm'(1) that])
  show thesis
    by (rule stats_exact [OF inv r(4) bm(1) bm'(2-4) _ _ card]) (use that bm' used in \<open>auto simp: mark1_run\<close>)
qed

lemma unmark_block_exact:
  assumes inv: "alloc_inv fs" and b: "b \<in> {first_block fs..<total_blocks fs} \<inter> blocks_used fs"
  obtains fs' where "ext2_block_alloc_stats fs b (- 1) = Some fs'" "alloc_inv fs'" "blocks_used fs' = blocks_used fs - {b}"
    "first_block fs' = first_block fs" "total_blocks fs' = total_blocks fs"
proof -
  from inv obtain bm where bm: "block_bitmap fs = Some bm" "bmap_ok bm" "bmap_lo bm = first_block fs" "bmap_hi bm = total_blocks fs - 1"
    and used: "blocks_used fs = bmap_used bm" by (rule alloc_invE) blast
  have r: "bmap_lo bm \<le> b" "b \<le> bmap_hi bm" "b \<in> bmap_used bm" "b \<in> {first_block fs..<total_blocks fs}" using b bm used by auto
  obtain bm' where bm': "unmark1 bm b = Some bm'" "bmap_ok bm'" "bmap_lo bm' = bmap_lo bm" "bmap_hi bm' = bmap_hi bm"
    "bmap_used bm' = bmap_used bm - {b}" using ub.unmark_in [OF bm(2) r(1,2)] by blast
  have card: "int (card (S - bmap_used bm')) = int (card (S - bmap_used bm)) - (if b \<in> S then - 1 else 0)" if "finite S" for S
    by (rule ub.unmark_counts [OF bm(2) r(1-3) bm'(1) that])
  show thesis
    by (rule stats_exact [OF inv r(4) bm(1) bm'(2-4) _ _ card]) (use that bm' used in \<open>auto simp: unmark1_run\<close>)
qed

lemma clear_uninit_exact:
  assumes inv: "alloc_inv fs"
  obtains fs' where "ext2_clear_block_uninit fs g = Some fs'" "alloc_inv fs'" "blocks_used fs' = blocks_used fs"
    "super fs' = super fs" "blksize fs' = blksize fs"
proof (cases "g \<ge> group_desc_count fs \<or> \<not> ext2_has_group_desc_checksum (super fs) \<or> ext2_bg_test_flags fs g EXT2_BG_BLOCK_UNINIT = Some False")
  case True
  then show thesis using that [of fs] inv by (auto simp: ext2_clear_block_uninit_def)
next
  case False
  have geo: "geometry_ok fs" using inv by (simp add: alloc_inv_def)
  have g: "g < length (group_desc fs)" "g < group_desc_count fs" using False geo by (auto simp: geometry_ok_def)
  let ?d = "(group_desc fs ! g)\<lparr>bg_flags := bg_flags (group_desc fs ! g) AND NOT EXT2_BG_BLOCK_UNINIT\<rparr>"
  let ?f = "fs\<lparr>group_desc := (group_desc fs)[g := ?d]\<rparr>"
  have "desc_ok ?f g" "tables_ok (crc_tables ?f)" using geo g by (simp_all add: geometry_ok_def desc_ok_def)
  then obtain k T where kT: "ext2_group_desc_checksum_update ?f g = Some (?f\<lparr>group_desc :=
      (group_desc ?f)[g := (group_desc ?f ! g)\<lparr>bg_checksum := k\<rparr>], crc_tables := T\<rparr>)" "tables_ok T"
    using checksum_update_run [of ?f g] by blast
  let ?f2 = "fs\<lparr>group_desc := (group_desc fs)[g := ?d\<lparr>bg_checksum := k\<rparr>], crc_tables := T\<rparr>"
  let ?f3 = "add_flags (EXT2_FLAG_CHANGED OR EXT2_FLAG_DIRTY OR EXT2_FLAG_BB_DIRTY) ?f2"
  have run: "ext2_clear_block_uninit fs g = Some ?f3"
    using False g kT(1) by (simp add: ext2_clear_block_uninit_def ext2_bg_test_flags_def desc_of_def ext2_bg_clear_flags_def update_desc_def)
  have "geometry_ok ?f2" using geometry_frame [OF geo g(2) _ kT(2), of "?d\<lparr>bg_checksum := k\<rparr>"] by simp
  moreover have "ext2_bg_free_blocks_count ?f3 h = ext2_bg_free_blocks_count fs h" for h
    using g by (cases "h = g") (simp_all add: ext2_bg_free_blocks_count_def desc_of_def join_count_def wide_def add_flags_def)
  ultimately have "alloc_inv ?f3"
    using inv by (simp add: alloc_inv_def counts_exact_def bitmap_fits_def geometry_ok_def desc_ok_def wide_def add_flags_def
        blocks_used_def group_blocks_def ext2_group_of_block_def split: option.splits)
  then show thesis using that [of ?f3] run by (simp add: add_flags_def blocks_used_def)
qed

lemma new_block_exact:
  assumes inv: "alloc_inv fs" and goal: "goal \<in> {first_block fs..<total_blocks fs}"
  obtains r fs' where "ext2_new_block fs goal = Some (r, fs')" "alloc_inv fs'" "blocks_used fs' = blocks_used fs"
    "super fs' = super fs" "blksize fs' = blksize fs"
    "case r of Inl e \<Rightarrow> e = ENOENT \<and> {first_block fs..<total_blocks fs} \<subseteq> blocks_used fs
       | Inr b \<Rightarrow> b \<in> {first_block fs..<total_blocks fs} - blocks_used fs"
proof -
  from inv obtain bm where geo: "geometry_ok fs" and bm: "block_bitmap fs = Some bm" "bmap_ok bm" "bmap_lo bm = first_block fs"
    "bmap_hi bm = total_blocks fs - 1" and used: "blocks_used fs = bmap_used bm" by (rule alloc_invE) blast
  let ?find = "\<lambda>s e. ext2_find_first_zero_bitmap (Some bm) s e" and ?f = "first_block fs" and ?t = "total_blocks fs"
  have sub: "sub64 ?t 1 = ?t - 1" "goal \<noteq> ?f \<Longrightarrow> sub64 goal 1 = goal - 1" using geo goal by (auto simp: geometry_ok_def)
  have keep: "(if goal = 0 \<or> goal \<ge> ?t then goal - goal mod EXT2_CLUSTER_RATIO fs else goal) = goal" using goal by simp
  obtain r where r: "(do { r \<leftarrow> ?find goal (?t - 1); if r = Inl ENOENT \<and> goal \<noteq> ?f then ?find ?f (goal - 1) else Some r }) = Some r"
    and res: "case r of Inl e \<Rightarrow> e = ENOENT \<and> {?f..<?t} \<subseteq> blocks_used fs | Inr b \<Rightarrow> b \<in> {?f..<?t} - blocks_used fs"
  proof -
    have range: "bmap_lo bm \<le> goal" "goal \<le> ?t - 1" "?t - 1 \<le> bmap_hi bm" using goal bm by auto
    obtain r1 where r1: "?find goal (?t - 1) = Some r1" using ub.find_in [OF bm(2) range] by blast
    show thesis
    proof (cases r1)
      case (Inr b)
      then show thesis using that [of r1] r1 ub.find_result [OF bm(2)] goal used by fastforce
    next
      case (Inl e)
      have e: "e = ENOENT" using ub.find_in [OF bm(2) range] r1 Inl
        by (cases "first_clear (bmap_used bm) goal (?t - 1 - goal + 1)") (simp_all del: first_clear.simps)
      have hi: "{goal..?t - 1} \<subseteq> bmap_used bm" using ub.find_none(4) [OF bm(2)] r1 Inl e by simp
      show thesis
      proof (cases "goal = ?f")
        case True
        have "{?f..<?t} \<subseteq> {goal..?t - 1}" using True by auto
        then show thesis using that [of r1] r1 Inl e hi used True by auto
      next
        case False
        have range2: "bmap_lo bm \<le> ?f" "?f \<le> goal - 1" "goal - 1 \<le> bmap_hi bm" using goal bm False by auto
        obtain r2 where r2: "?find ?f (goal - 1) = Some r2" using ub.find_in [OF bm(2) range2] by blast
        show thesis
        proof (cases r2)
          case (Inr b)
          then show thesis using that [of r2] r1 Inl e r2 False ub.find_result [OF bm(2)] goal used by fastforce
        next
          case l2: (Inl e2)
          have e2: "e2 = ENOENT" using ub.find_in [OF bm(2) range2] r2 l2
            by (cases "first_clear (bmap_used bm) ?f (goal - 1 - ?f + 1)") (simp_all del: first_clear.simps)
          have lo: "{?f..goal - 1} \<subseteq> bmap_used bm" using ub.find_none(4) [OF bm(2)] r2 l2 e2 by simp
          have "{?f..<?t} \<subseteq> {?f..goal - 1} \<union> {goal..?t - 1}" by auto
          then show thesis using that [of r2] r1 Inl e r2 l2 e2 False lo hi used by auto
        qed
      qed
    qed
  qed
  have run: "ext2_new_block fs goal = (case r of Inl e \<Rightarrow> Some (Inl e, fs)
      | Inr b \<Rightarrow> map_option (\<lambda>fs. (Inr b, fs)) (ext2_clear_block_uninit fs (ext2_group_of_block fs b)))"
  proof -
    obtain r1 where r1: "?find goal (?t - 1) = Some r1" "(if r1 = Inl ENOENT \<and> goal \<noteq> ?f then ?find ?f (goal - 1) else Some r1) = Some r"
      using r by (auto simp: bind_eq_Some_conv)
    show ?thesis
      using r1 sub unfolding ext2_new_block_def bm(1) Let_def keep by (cases "goal = ?f"; cases "r1 = Inl ENOENT") simp_all
  qed
  show thesis
  proof (cases r)
    case (Inl e)
    then have "ext2_new_block fs goal = Some (r, fs)" using run by simp
    then show thesis using that [where r = r and fs' = fs] inv res by simp
  next
    case (Inr b)
    obtain fs' where fs': "ext2_clear_block_uninit fs (ext2_group_of_block fs b) = Some fs'" "alloc_inv fs'"
      "blocks_used fs' = blocks_used fs" "super fs' = super fs" "blksize fs' = blksize fs" using clear_uninit_exact [OF inv] .
    have "ext2_new_block fs goal = Some (r, fs')" using run Inr fs'(1) by simp
    then show thesis using that [where r = r and fs' = fs'] fs' res by simp
  qed
qed

definition zeros_ok :: "ext2_state \<Rightarrow> bool" where
  "zeros_ok s \<longleftrightarrow> st_zeros s = st_stride s * blksize (st_fs s) \<and> 0 < EXT2_MAX_STRIDE_LENGTH (super (st_fs s))"

text \<open>Clearing one block writes one block of zeros, or fails without a write.\<close>

lemma zero_one:
  assumes "zeros_ok s"
  obtains ok s' where "ext2_zero_blocks wr s block 1 = Some (ok, s')" "st_fs s' = st_fs s" "ok \<in> {None, Some ENOMEM, Some EIO}"
    "st_log s' = (if ok = None then st_log s @ [(block * blksize (st_fs s) mod 2 ^ 64, replicate (blksize (st_fs s)) 0)] else st_log s)"
proof -
  have loop: "zero_loop wr block 1 s = (let (ok, log) = ext2_write_blocks wr (replicate (blksize (st_fs s)) 0) (st_fs s) block (st_log s)
      in Some (ok, s\<lparr>st_log := log\<rparr>))" if "st_zeros s = st_stride s * blksize (st_fs s)" "0 < st_stride s" for s
  proof -
    have m: "block mod st_stride s < st_stride s" using that by simp
    have "zero_chunk (st_stride s) block 1 = 1" unfolding zero_chunk_def min_def using that(2) m by (cases "block mod st_stride s = 0"; simp; linarith)
    then show ?thesis
      using that by (subst zero_loop.simps) (simp add: zero_loop.simps [of wr _ 0] Let_def split: prod.splits)
  qed
  let ?off = "block * blksize (st_fs s) mod 2 ^ 64" and ?zero = "replicate (blksize (st_fs s)) 0"
  let ?log = "st_log s @ [(?off, ?zero)]" and ?w = "wr ?off (blksize (st_fs s))"
  have wrote: "zero_loop wr block 1 s' = Some (?w, s'\<lparr>st_log := if ?w then ?log else st_log s\<rparr>)"
    if "st_zeros s' = st_stride s' * blksize (st_fs s)" "0 < st_stride s'" "st_fs s' = st_fs s" "st_log s' = st_log s" for s'
    using that loop [of s'] by (simp add: ext2_write_blocks_def Let_def)
  show thesis
  proof (cases "1 > st_stride s \<and> st_stride s < EXT2_MAX_STRIDE_LENGTH (super (st_fs s))")
    case False
    then have st: "0 < st_stride s" "st_zeros s = st_stride s * blksize (st_fs s)" using assms by (auto simp: zeros_ok_def)
    have "ext2_zero_blocks wr s block 1 = Some (if ?w then None else Some EIO, s\<lparr>st_log := if ?w then ?log else st_log s\<rparr>)"
      using st wrote [of s] by (simp add: ext2_zero_blocks_def Let_def)
    then show thesis by (rule that) auto
  next
    case True
    then have z: "st_stride s = 0" "st_zeros s = 0" "0 < EXT2_MAX_STRIDE_LENGTH (super (st_fs s))" using assms by (auto simp: zeros_ok_def)
    obtain b al where al: "take_alloc (outcomes (st_heap s)) = (b, al)" by fastforce
    have one: "min 1 (EXT2_MAX_STRIDE_LENGTH (super (st_fs s))) = 1" using z(3) by (simp add: min_def)
    let ?s = "s\<lparr>st_heap := (st_heap s)\<lparr>outcomes := al\<rparr>, st_zeros := blksize (st_fs s) * 1, st_stride := 1\<rparr>"
    show thesis
    proof (cases b)
      case True
      have "ext2_zero_blocks wr s block 1 = Some (if ?w then None else Some EIO, ?s\<lparr>st_log := if ?w then ?log else st_log s\<rparr>)"
        using z al one True wrote [of ?s] by (simp add: ext2_zero_blocks_def Let_def)
      then show thesis by (rule that) auto
    next
      case False
      have "ext2_zero_blocks wr s block 1 = Some (Some ENOMEM, s\<lparr>st_heap := (st_heap s)\<lparr>outcomes := al\<rparr>\<rparr>)"
        using z al False by (simp add: ext2_zero_blocks_def Let_def)
      then show thesis by (rule that) simp_all
    qed
  qed
qed

text \<open>The outcome of \<open>ext2_alloc_block\<close>: no block is left, an error of memory or device, or a free block.\<close>

definition alloc_outcome :: "ext2_state \<Rightarrow> (errno + nat) \<Rightarrow> ext2_state \<Rightarrow> bool" where
  "alloc_outcome s r s' =
     (let fs = st_fs s; A = {first_block fs..<total_blocks fs} in
      case r of
        Inl e \<Rightarrow> blocks_used (st_fs s') = blocks_used fs \<and> st_log s' = st_log s \<and>
                 (if e = ENOENT then A \<subseteq> blocks_used fs else e = ENOMEM \<or> e = EIO)
      | Inr b \<Rightarrow> b \<in> A - blocks_used fs \<and> blocks_used (st_fs s') = insert b (blocks_used fs) \<and>
                 st_log s' = st_log s @ [(b * blksize fs mod 2 ^ 64, replicate (blksize fs) 0)])"

text \<open>
  C6: Allocating a block returns. Either it fails with ENOENT because all blocks are in use, or with an error
  of the allocator or the device, and no block changes hands; or it gives a block that was
  free, is now marked, and has been cleared on the device by the only write. In all cases the
  number of free blocks that each group descriptor and the superblock record is the number
  of clear bits of the bitmap afterwards, if it was before.\<close>

theorem alloc_block_exact:
  assumes "alloc_inv (st_fs s)" "goal \<in> {first_block (st_fs s)..<total_blocks (st_fs s)}" "zeros_ok s"
  shows "\<exists>r s'. ext2_alloc_block rd wr junk_ret has_buf s goal = Some (r, s') \<and> alloc_inv (st_fs s') \<and> alloc_outcome s r s'"
proof -
  let ?fs = "st_fs s" and ?run = "ext2_alloc_block rd wr junk_ret has_buf s goal"
  obtain bm where bm: "block_bitmap ?fs = Some bm" using assms(1) by (rule alloc_invE)
  obtain r fs1 where nb: "ext2_new_block ?fs goal = Some (r, fs1)" "alloc_inv fs1" "blocks_used fs1 = blocks_used ?fs"
    "super fs1 = super ?fs" "blksize fs1 = blksize ?fs"
    and res: "case r of Inl e \<Rightarrow> e = ENOENT \<and> {first_block ?fs..<total_blocks ?fs} \<subseteq> blocks_used ?fs
       | Inr b \<Rightarrow> b \<in> {first_block ?fs..<total_blocks ?fs} - blocks_used ?fs"
    using new_block_exact [OF assms(1,2)] .
  show ?thesis
  proof (cases r)
    case (Inl e)
    then have "?run = Some (Inl e, s\<lparr>st_fs := fs1\<rparr>)" using bm nb(1) by (simp add: ext2_alloc_block_def)
    then show ?thesis using Inl nb res by (intro exI [of _ "Inl e"] exI [of _ "s\<lparr>st_fs := fs1\<rparr>"]) (simp add: alloc_outcome_def)
  next
    case (Inr b)
    have z: "zeros_ok (s\<lparr>st_fs := fs1\<rparr>)" using assms(3) nb(4,5) by (simp add: zeros_ok_def)
    obtain ok s1 where w: "(if has_buf
           then let (ok, log) = ext2_write_blocks wr (replicate (blksize fs1) 0) fs1 b (st_log s)
                in Some (if ok then None else Some EIO, s\<lparr>st_fs := fs1, st_log := log\<rparr>)
           else ext2_zero_blocks wr (s\<lparr>st_fs := fs1\<rparr>) b 1) = Some (ok, s1)"
      and s1: "st_fs s1 = fs1" "st_log s1 = (if ok = None then st_log s @ [(b * blksize ?fs mod 2 ^ 64, replicate (blksize ?fs) 0)] else st_log s)"
        "ok \<in> {None, Some ENOMEM, Some EIO}"
    proof (cases has_buf)
      case True
      let ?ok = "wr (b * blksize fs1 mod 2 ^ 64) (blksize fs1)"
      have "(let (ok, log) = ext2_write_blocks wr (replicate (blksize fs1) 0) fs1 b (st_log s)
          in Some (if ok then None else Some EIO, s\<lparr>st_fs := fs1, st_log := log\<rparr>)) =
        Some (if ?ok then None else Some EIO, s\<lparr>st_fs := fs1,
          st_log := if ?ok then st_log s @ [(b * blksize fs1 mod 2 ^ 64, replicate (blksize fs1) 0)] else st_log s\<rparr>)"
        by (simp add: ext2_write_blocks_def Let_def)
      then show thesis using True nb(5) by (intro that [where ok = "if ?ok then None else Some EIO"]) auto
    next
      case False
      obtain ok s' where "ext2_zero_blocks wr (s\<lparr>st_fs := fs1\<rparr>) b 1 = Some (ok, s')" "st_fs s' = st_fs (s\<lparr>st_fs := fs1\<rparr>)"
        "ok \<in> {None, Some ENOMEM, Some EIO}"
        "st_log s' = (if ok = None then st_log (s\<lparr>st_fs := fs1\<rparr>) @ [(b * blksize (st_fs (s\<lparr>st_fs := fs1\<rparr>)) mod 2 ^ 64,
           replicate (blksize (st_fs (s\<lparr>st_fs := fs1\<rparr>))) 0)] else st_log (s\<lparr>st_fs := fs1\<rparr>))"
        using zero_one [OF z, of wr b] .
      then show thesis using False nb(5) by (intro that [where ok = ok and ?s1.0 = s']) auto
    qed
    show ?thesis
    proof (cases ok)
      case (Some e)
      then have "?run = Some (Inl e, s1)" using bm nb(1) Inr w by (cases has_buf) (simp_all add: ext2_alloc_block_def Let_def)
      then show ?thesis using Some s1 nb by (intro exI [of _ "Inl e"] exI [of _ s1]) (auto simp: alloc_outcome_def)
    next
      case None
      have "b \<in> {first_block fs1..<total_blocks fs1} - blocks_used fs1" using res Inr nb(3,4) by simp
      then obtain fs2 where fs2: "ext2_block_alloc_stats fs1 b 1 = Some fs2" "alloc_inv fs2" "blocks_used fs2 = insert b (blocks_used fs1)"
        using mark_block_exact [OF nb(2)] by metis
      have "?run = Some (Inr b, s1\<lparr>st_fs := fs2\<rparr>)" using bm nb(1) Inr w None s1(1) fs2(1)
        by (cases has_buf) (simp_all add: ext2_alloc_block_def Let_def)
      then show ?thesis using None s1 nb fs2 res Inr
        by (intro exI [of _ "Inr b"] exI [of _ "s1\<lparr>st_fs := fs2\<rparr>"]) (simp add: alloc_outcome_def)
    qed
  qed
qed

text \<open>
  C31: Freeing a block that was in use undoes its allocation: the sets of used blocks and the counters of
  all groups and of the superblock are what they were before the block was marked.\<close>

theorem alloc_free_roundtrip:
  assumes "alloc_inv fs" "b \<in> {first_block fs..<total_blocks fs} - blocks_used fs"
  shows "\<exists>fs1 fs2. ext2_block_alloc_stats fs b 1 = Some fs1 \<and> ext2_block_alloc_stats fs1 b (- 1) = Some fs2 \<and>
    alloc_inv fs1 \<and> alloc_inv fs2 \<and> b \<in> blocks_used fs1 \<and> blocks_used fs2 = blocks_used fs"
proof -
  obtain fs1 where fs1: "ext2_block_alloc_stats fs b 1 = Some fs1" "alloc_inv fs1" "blocks_used fs1 = insert b (blocks_used fs)"
    "first_block fs1 = first_block fs" "total_blocks fs1 = total_blocks fs"
    using mark_block_exact [OF assms] .
  have "b \<in> {first_block fs1..<total_blocks fs1} \<inter> blocks_used fs1" using assms(2) fs1 by auto
  then obtain fs2 where "ext2_block_alloc_stats fs1 b (- 1) = Some fs2" "alloc_inv fs2" "blocks_used fs2 = blocks_used fs1 - {b}"
    using unmark_block_exact [OF fs1(2)] by metis
  then show ?thesis using fs1 assms(2) by (intro exI [of _ fs1] exI [of _ fs2]) auto
qed

section \<open>A small file system\<close>

text \<open>One group of eight blocks and eight inodes without features; the second structure has one block in use.\<close>

definition demo_sb :: ext2_super where
  "demo_sb = \<lparr>s_inodes_count = 8, s_blocks_count = 9, s_r_blocks_count = 0, s_free_blocks_count = 8, s_free_inodes_count = 8,
     s_first_data_block = 1, s_log_block_size = 0, s_log_cluster_size = 0, s_blocks_per_group = 8, s_clusters_per_group = 8,
     s_inodes_per_group = 8, s_magic = 0xef53, s_rev_level = 0, s_first_ino = 0, s_inode_size = 0, s_feature_incompat = 0,
     s_feature_ro_compat = 0, s_uuid = replicate 16 0, s_reserved_gdt_blocks = 0, s_desc_size = 0, s_first_meta_bg = 0,
     s_blocks_count_hi = 0, s_r_blocks_count_hi = 0, s_free_blocks_hi = 0, s_backup_bgs = (0, 0), s_checksum_seed = 0, s_checksum = 0\<rparr>"

definition demo_desc :: ext4_group_desc where
  "demo_desc = read_desc 32 (replicate 32 0)"

definition demo_fs :: fs where
  "demo_fs = \<lparr>super = demo_sb, mflags = 0, flags = 0, blksize = 1024, group_desc_count = 1, desc_blocks = 1,
     group_desc = [demo_desc], inode_blocks_per_group = 1, block_bitmap = None, inode_bitmap = None, cluster_ratio_bits = 0,
     checksum_seed = 0, crc_tables = crc32_static\<rparr>"

lemma demo_sb_flags [simp]: "s_feature_incompat demo_sb = 0" "s_feature_ro_compat demo_sb = 0"
  by (simp_all add: demo_sb_def)

lemma demo_desc_zero: "join_loc fs (bg_block_bitmap demo_desc) h = (if wide fs then unat (push_bit 32 (ucast h) :: u64) else 0)"
  "join_loc fs (bg_inode_bitmap demo_desc) h = (if wide fs then unat (push_bit 32 (ucast h) :: u64) else 0)"
  "bg_flags demo_desc = 0"
  by (simp_all add: demo_desc_def read_desc_def Let_def join_loc_def)

definition demo_used :: fs where
  "demo_used = demo_fs\<lparr>super := demo_sb\<lparr>s_free_blocks_count := 7\<rparr>,
     group_desc := [demo_desc\<lparr>bg_free_blocks_count := 7\<rparr>],
     block_bitmap := Some (Bmap32 \<lparr>m_start = 1, m_end = 8, m_real_end = 8, m_bits = [1]\<rparr>)\<rparr>"

lemma demo_used_sel:
  "group_desc demo_used = [demo_desc\<lparr>bg_free_blocks_count := 7\<rparr>]"
  "group_desc_count demo_used = 1" "first_block demo_used = 1" "total_blocks demo_used = 9" "blksize demo_used = 1024"
  "s_blocks_per_group (super demo_used) = 8" "\<not> wide demo_used"
  by (simp_all add: demo_used_def demo_fs_def demo_sb_def ext2_blocks_count_def wide_def incompat_def)

lemma demo_used_rest: "cluster_ratio_bits demo_used = 0" "crc_tables demo_used = crc32_static" "EXT2_DESC_SIZE (super demo_used) = 32"
  "ext2_free_blocks_count (super demo_used) = 7" "EXT2_BLOCK_SIZE (super demo_used) = 1024"
  by (simp_all add: demo_used_def demo_fs_def demo_sb_def EXT2_DESC_SIZE_def EXT2_BLOCK_SIZE_def ext2_free_blocks_count_def incompat_def)

lemma demo_used_bitmap: "block_bitmap demo_used = Some (Bmap32 \<lparr>m_start = 1, m_end = 8, m_real_end = 8, m_bits = [1]\<rparr>)"
  by (simp add: demo_used_def)

lemma demo_blocks_used: "blocks_used demo_used = {1}"
proof -
  have "bm_ones [1] = {0}" by (auto simp: bm_ones_def bit_1_iff)
  moreover have "blocks_used demo_used = {a. 1 \<le> a \<and> a - 1 \<in> bm_ones [1]}" by (simp add: blocks_used_def demo_used_bitmap)
  moreover have "{a. 1 \<le> a \<and> a - 1 \<in> {0 :: nat}} = {1}" by auto
  ultimately show ?thesis by simp
qed

lemma demo_alloc_inv: "alloc_inv demo_used"
proof -
  have geo: "geometry_ok demo_used"
    using demo_used_sel demo_used_rest by (simp add: geometry_ok_def desc_ok_def tables_ok_def)
  have grp: "group_blocks demo_used 0 = {1..<9}"
    using group_of_block_val(2) [OF geo] by (auto simp: group_blocks_def demo_used_sel)
  have "{1..<9} - {1 :: nat} = {2..<9}" by auto
  then have "counts_exact demo_used"
    by (simp add: counts_exact_def demo_used_sel demo_blocks_used grp ext2_bg_free_blocks_count_def desc_of_def join_count_def
        demo_used_rest)
  moreover have "bitmap_fits demo_used"
    using demo_used_sel(3,4) by (simp add: bitmap_fits_def demo_used_bitmap)
  ultimately show ?thesis using geo by (simp add: alloc_inv_def)
qed

theorem alloc_free_roundtrip_witness:
  "alloc_inv demo_used \<and> 2 \<notin> blocks_used demo_used \<and>
   (\<exists>fs1 fs2. ext2_block_alloc_stats demo_used 2 1 = Some fs1 \<and> ext2_block_alloc_stats fs1 2 (- 1) = Some fs2 \<and>
     2 \<in> blocks_used fs1 \<and> blocks_used fs2 = {1})"
proof -
  have "2 \<in> {first_block demo_used..<total_blocks demo_used} - blocks_used demo_used"
    by (simp add: demo_used_sel demo_blocks_used)
  then show ?thesis using alloc_free_roundtrip [OF demo_alloc_inv] demo_alloc_inv by (metis DiffD2 demo_blocks_used)
qed

definition demo_state :: ext2_state where
  "demo_state = \<lparr>st_fs = demo_used, st_log = [], st_heap = \<lparr>outcomes = [], new_addr = 4096, new_bytes = (\<lambda>i. 0)\<rparr>, st_zeros = 0, st_stride = 0\<rparr>"

theorem alloc_block_exact_witness:
  "\<exists>r s'. ext2_alloc_block (\<lambda>off n. None) (\<lambda>off n. True) None False demo_state 1 = Some (r, s') \<and>
    alloc_inv (st_fs s') \<and> alloc_outcome demo_state r s'"
proof -
  have "alloc_inv (st_fs demo_state)" "1 \<in> {first_block (st_fs demo_state)..<total_blocks (st_fs demo_state)}" "zeros_ok demo_state"
    by (simp_all add: demo_state_def demo_alloc_inv demo_used_sel zeros_ok_def EXT2_MAX_STRIDE_LENGTH_def demo_used_rest)
  then show ?thesis by (rule alloc_block_exact)
qed

end
