(* ===== verification/Pml_Ext2_Mount.thy ===== *)
theory Pml_Ext2_Mount
  imports Pml_Ext2_Alloc
begin

text \<open>
  Opening an ext2 file system (\<open>ext2_openfs\<close> in drivers/fs/ext2/super.c): the checks of the
  superblock, reading the group descriptors and the bitmaps. The rest of the driver divides by the
  sizes of groups and indexes the table of descriptors without checks of its own; the theorem
  at the end says that the checks made here are enough for that.
\<close>

section \<open>Opening a file system\<close>

text \<open>The structure as \<open>calloc\<close> clears it; \<open>T\<close> are the tables of util/crc32.c at this time.\<close>

definition new_fs :: "u32 \<Rightarrow> crc32_tables \<Rightarrow> fs" where
  "new_fs mfl T = \<lparr>super = read_super [], mflags = mfl, flags = 0, blksize = 0, group_desc_count = 0, desc_blocks = 0,
     group_desc = [], inode_blocks_per_group = 0, block_bitmap = None, inode_bitmap = None, cluster_ratio_bits = 0,
     checksum_seed = 0, crc_tables = T\<rparr>"

definition EXT2_MAGIC :: nat where "EXT2_MAGIC = 0xef53"
definition EXT2_DYNAMIC_REV :: nat where "EXT2_DYNAMIC_REV = 1"

text \<open>The checks before the sizes of the file system are known: an error, or the sizes filled in.\<close>

definition open_sizes :: "fs \<Rightarrow> (errno + fs) option" where
  "open_sizes fs =
     (let s = super fs; bs = EXT2_BLOCK_SIZE s; inosize = EXT2_INODE_SIZE s in
      if s_feature_incompat s AND NOT EXT2_INCOMPAT_SUPPORT \<noteq> 0 \<or>
         mflags fs AND MS_RDONLY = 0 \<and> s_feature_ro_compat s AND NOT EXT2_RO_COMPAT_SUPPORT \<noteq> 0 then Some (Inl ENOTSUP)
      else if incompat s EXT3_FT_INCOMPAT_JOURNAL_DEV then Some (Inl ENOTSUP)
      else if s_log_block_size s > 16 - 10 then Some (Inl EUCLEAN)
      else if ro_compat s EXT4_FT_RO_COMPAT_BIGALLOC \<and> s_log_block_size s \<noteq> s_log_cluster_size s then Some (Inl EUCLEAN)
      else if inosize < 128 \<or> inosize > bs \<or> \<not> IS_P2 (word_of_nat inosize) then Some (Inl EUCLEAN)
      else if incompat s EXT4_FT_INCOMPAT_64BIT \<and> s_desc_size s < 64 then Some (Inl EUCLEAN)
      else if s_log_cluster_size s < s_log_block_size s \<or> s_log_cluster_size s - s_log_block_size s \<ge> 32 then None
      else let bits = s_log_cluster_size s - s_log_block_size s in
           if s_blocks_per_group s \<noteq> push_bit bits (s_clusters_per_group s) mod 2 ^ 32 then Some (Inl EUCLEAN)
      else if s_inodes_per_group s = 0 then Some (Inl EUCLEAN)
      else Some (Inr (fs\<lparr>blksize := bs, cluster_ratio_bits := bits,
             inode_blocks_per_group := ((s_inodes_per_group s * inosize + bs - 1) div bs) mod 2 ^ 32\<rparr>)))"

definition open_seed :: "fs \<Rightarrow> fs option" where
  "open_seed fs =
     (if incompat (super fs) EXT4_FT_INCOMPAT_CSUM_SEED then Some (fs\<lparr>checksum_seed := s_checksum_seed (super fs)\<rparr>)
      else if ro_compat (super fs) EXT4_FT_RO_COMPAT_METADATA_CSUM \<and> incompat (super fs) EXT4_FT_INCOMPAT_EA_INODE
      then map_option (\<lambda>(c, fs). fs\<lparr>checksum_seed := c\<rparr>) (crc32_fs 0xffffffff (s_uuid (super fs)) fs)
      else Some fs)"

text \<open>The number of groups; the count of blocks is signed in the comparison with the first data block.\<close>

definition open_groups :: "fs \<Rightarrow> (errno + fs) option" where
  "open_groups fs =
     (let s = super fs; total = ext2_blocks_count s; first = s_first_data_block s in
      if s_blocks_per_group s = 0 then Some (Inl EUCLEAN)
      else if s_log_cluster_size s \<ge> 21 then None
      else if s_blocks_per_group s > EXT2_MAX_BLOCKS_PER_GROUP s \<or>
              inode_blocks_per_group fs \<ge> EXT2_MAX_INODES_PER_GROUP s \<or> EXT2_DESC_PER_BLOCK s = 0 \<or>
              total \<ge> 2 ^ 63 \<or> first \<ge> total then Some (Inl EUCLEAN)
      else let n = unat (div64_ceil (word_of_nat (total - first)) (word_of_nat (s_blocks_per_group s))) in
           if n div 2 ^ 32 \<noteq> 0 then Some (Inl EUCLEAN)
           else if n * s_inodes_per_group s mod 2 ^ 64 \<noteq> s_inodes_count s then Some (Inl EUCLEAN)
           else Some (Inr (fs\<lparr>group_desc_count := n,
                  desc_blocks := unat (div32_ceil (word_of_nat n) (word_of_nat (EXT2_DESC_PER_BLOCK s)))\<rparr>)))"

text \<open>The blocks of descriptors, as far as they do not lie in meta block groups and then one by one.\<close>

fun read_desc_blocks :: "device_read \<Rightarrow> fs \<Rightarrow> nat list \<Rightarrow> u8 list option" where
  "read_desc_blocks rd fs [] = Some []"
| "read_desc_blocks rd fs (i # is) = do {
     b \<leftarrow> ext2_read_blocks rd fs (ext2_descriptor_block fs (s_first_data_block (super fs)) i) 1;
     bs \<leftarrow> read_desc_blocks rd fs is;
     Some (b @ bs)
   }"

text \<open>
  The table of descriptors, or the return value with which \<open>ext2_openfs\<close> leaves after freeing it: the number of bytes
  read when the first read is not complete. This is a failure unless no byte was read, when it is the value for success.\<close>

definition open_descs :: "device_read \<Rightarrow> fs \<Rightarrow> ret + u8 list" where
  "open_descs rd fs =
     (let group_block = s_first_data_block (super fs);
          adjust = (if group_block = 0 \<and> blksize fs = 1024 then 1 else 0);
          first_meta = (if incompat (super fs) EXT2_FT_INCOMPAT_META_BG then min (s_first_meta_bg (super fs)) (desc_blocks fs)
                        else desc_blocks fs)
      in case (if first_meta > 0 then rd ((group_block + adjust + 1) * blksize fs) (first_meta * blksize fs) else Some []) of
           None \<Rightarrow> Inl (Some EIO)
         | Some b \<Rightarrow>
             if length b \<noteq> first_meta * blksize fs then Inl (if b = [] then None else Some EIO)
             else case read_desc_blocks rd fs [first_meta..<desc_blocks fs] of None \<Rightarrow> Inl (Some EIO) | Some bs \<Rightarrow> Inr (b @ bs))"

text \<open>The descriptors of groups that lie in the table; there is no access to one behind it.\<close>

definition split_descs :: "fs \<Rightarrow> u8 list \<Rightarrow> ext4_group_desc list" where
  "split_descs fs bytes =
     (let sz = EXT2_DESC_SIZE (super fs)
      in map (\<lambda>i. read_desc sz (take sz (drop (i * sz) bytes))) [0..<min (group_desc_count fs) (length bytes div sz)])"

text \<open>Multiple mount protection is not implemented (mmp.c).\<close>

definition ext4_mmp_start :: "fs \<Rightarrow> ret" where
  "ext4_mmp_start fs = Some ENOTSUP"

text \<open>
  The file system is the argument that \<open>ext2_mount\<close> clears. A read from the device that returns \<open>None\<close> has failed.
  The result of reading the descriptors is kept in an \<open>int\<close>; tables of 2 GiB and more are outside the model.\<close>

definition ext2_openfs ::
    "device_read \<Rightarrow> ret \<Rightarrow> u32 \<Rightarrow> crc32_tables \<Rightarrow> heap_oracle \<Rightarrow> (ret \<times> fs \<times> heap_oracle) option" where
  "ext2_openfs rd junk_ret mfl T h =
     (let fs = new_fs mfl T in
      case rd 1024 1024 of
        None \<Rightarrow> Some (Some EIO, fs, h)
      | Some raw \<Rightarrow> if length raw \<noteq> 1024 then Some (Some EIO, fs, h) else do {
          let fs = fs\<lparr>super := read_super raw\<rparr>;
          (v, fs) \<leftarrow> ext2_superblock_checksum_valid raw fs;
          if \<not> v \<or> s_magic (super fs) \<noteq> EXT2_MAGIC \<or> s_rev_level (super fs) > EXT2_DYNAMIC_REV then Some (Some EUCLEAN, fs, h)
          else do {
            r \<leftarrow> open_sizes fs;
            case r of Inl e \<Rightarrow> Some (Some e, fs, h) | Inr fs \<Rightarrow> do {
              fs \<leftarrow> open_seed fs;
              r \<leftarrow> open_groups fs;
              case r of Inl e \<Rightarrow> Some (Some e, fs, h) | Inr fs \<Rightarrow>
                (let (ok, al) = take_alloc (outcomes h); h = h\<lparr>outcomes := al\<rparr> in
                 if \<not> ok then Some (Some ENOMEM, fs, h)
                 else if desc_blocks fs * blksize fs \<ge> 2 ^ 31 then None
                 else case open_descs rd fs of
                   Inl r \<Rightarrow> Some (r, fs, h)
                 | Inr bytes \<Rightarrow>
                     (let fs = fs\<lparr>group_desc := split_descs fs bytes\<rparr> in
                      if incompat (super fs) EXT4_FT_INCOMPAT_MMP \<and> mflags fs AND MS_RDONLY = 0 \<and> ext4_mmp_start fs \<noteq> None
                      then Some (ext4_mmp_start fs, fs, h)
                      else ext2_read_bitmaps rd junk_ret fs h))
            }
          }
        })"

section \<open>Reading bitmaps changes the bitmaps only\<close>

definition only_bitmaps :: "fs \<Rightarrow> fs \<Rightarrow> bool" where
  "only_bitmaps fs fs' \<longleftrightarrow> (\<exists>bb ib T. fs' = fs\<lparr>block_bitmap := bb, inode_bitmap := ib, crc_tables := T\<rparr>)"

lemma only_bitmaps_refl [simp, intro]: "only_bitmaps fs fs"
  unfolding only_bitmaps_def by (metis ext2_fs.surjective ext2_fs.update_convs(10,9,13))

lemma only_bitmaps_upd [simp, intro]:
  "only_bitmaps fs (fs\<lparr>crc_tables := T\<rparr>)" "only_bitmaps fs (fs\<lparr>block_bitmap := bb\<rparr>)" "only_bitmaps fs (fs\<lparr>inode_bitmap := ib\<rparr>)"
  unfolding only_bitmaps_def by (cases fs; simp)+

lemma only_bitmaps_trans: "only_bitmaps f g \<Longrightarrow> only_bitmaps g h \<Longrightarrow> only_bitmaps f h"
  unfolding only_bitmaps_def by (elim exE, intro exI) simp

lemma only_bitmapsD:
  assumes "only_bitmaps f g"
  shows "super g = super f" "blksize g = blksize f" "group_desc_count g = group_desc_count f" "group_desc g = group_desc f"
    "cluster_ratio_bits g = cluster_ratio_bits f" "mflags g = mflags f" "desc_blocks g = desc_blocks f"
  using assms by (auto simp: only_bitmaps_def)

lemma case_sum_Some:
  "(case r of Inl e \<Rightarrow> f e | Inr b \<Rightarrow> g b) = Some y \<longleftrightarrow> (\<exists>e. r = Inl e \<and> f e = Some y) \<or> (\<exists>b. r = Inr b \<and> g b = Some y)"
  by (cases r) auto

lemma crc32_fs_frame: "crc32_fs seed d fs = Some (c, fs') \<Longrightarrow> only_bitmaps fs fs'"
  by (auto simp: crc32_fs_def split: prod.splits option.splits)

lemma checksum_valid_frame:
  "ext2_block_bitmap_checksum_valid fs g bm = Some (v, fs') \<Longrightarrow> only_bitmaps fs fs'"
  "ext2_inode_bitmap_checksum_valid fs g bm = Some (v, fs') \<Longrightarrow> only_bitmaps fs fs'"
  by (auto simp: ext2_block_bitmap_checksum_valid_def ext2_inode_bitmap_checksum_valid_def bind_eq_Some_conv Let_def
      split: if_splits dest: crc32_fs_frame)

lemma desc_checksum_frame: "ext2_group_desc_checksum fs g = Some (c, fs') \<Longrightarrow> only_bitmaps fs fs'"
  by (auto simp: ext2_group_desc_checksum_def bind_eq_Some_conv Let_def split: if_splits
      dest!: crc32_fs_frame intro: only_bitmaps_trans)

lemma uninit_block_frame: "uninit_block fs i fl b = Some (r, fs') \<Longrightarrow> only_bitmaps fs fs'"
  by (auto simp: uninit_block_def ext2_group_desc_checksum_valid_def bind_eq_Some_conv split: if_splits dest: desc_checksum_frame)

lemma read_block_group_frame: "read_block_group rd n it i fs = Some (r, fs') \<Longrightarrow> only_bitmaps fs fs'"
  by (auto simp: read_block_group_def case_sum_Some bind_eq_Some_conv split: if_split_asm option.split_asm
      dest!: uninit_block_frame checksum_valid_frame intro: only_bitmaps_trans only_bitmaps_upd)

lemma read_inode_group_frame: "read_inode_group rd n it i fs = Some (r, fs') \<Longrightarrow> only_bitmaps fs fs'"
  by (auto simp: read_inode_group_def case_sum_Some bind_eq_Some_conv split: if_split_asm option.split_asm
      dest!: uninit_block_frame checksum_valid_frame intro: only_bitmaps_trans only_bitmaps_upd)

lemma read_groups_frame: "read_groups rd db di bn inn bi ii i n fs = Some (r, fs') \<Longrightarrow> only_bitmaps fs fs'"
proof (induction n arbitrary: bi ii i fs)
  case (Suc n)
  then obtain r1 f1 where 1: "(if db then read_block_group rd bn bi i fs else Some (None, fs)) = Some (r1, f1)"
    by (auto simp: bind_eq_Some_conv)
  then have f1: "only_bitmaps fs f1" by (auto split: if_splits dest: read_block_group_frame)
  show ?case
  proof (cases r1)
    case None
    with Suc.prems 1 obtain r2 f2 where 2: "(if di then read_inode_group rd inn ii i f1 else Some (None, f1)) = Some (r2, f2)"
      by (auto simp: bind_eq_Some_conv)
    then have "only_bitmaps f1 f2" by (auto split: if_splits dest: read_inode_group_frame)
    then have f2: "only_bitmaps fs f2" using f1 only_bitmaps_trans by blast
    have "r2 = None \<Longrightarrow> only_bitmaps f2 fs'" using Suc.prems 1 2 None by (intro Suc.IH) simp
    moreover have "r2 \<noteq> None \<Longrightarrow> fs' = f2" using Suc.prems 1 2 None by auto
    ultimately show ?thesis using f2 only_bitmaps_trans by (cases r2) blast+
  qed (use Suc.prems 1 f1 in auto)
qed simp

lemma read_bitmaps_frame: "ext2_read_bitmaps rd j fs h = Some (r, fs', h') \<Longrightarrow> only_bitmaps fs fs'"
proof -
  have prep: "only_bitmaps fs f" if "ext2_prepare_read_bitmap fs fl h = Some (r, f, h')" for fs fl h r f h'
    using that by (auto simp: ext2_prepare_read_bitmap_def bind_eq_Some_conv split: if_splits prod.splits option.splits sum.splits
        intro: only_bitmaps_trans only_bitmaps_upd)
  have start: "only_bitmaps fs f" if "ext2_read_bitmap_start rd j fs fl a b h = Some (r, f, h')" for fs fl a b h r f h'
    using that by (auto simp: ext2_read_bitmap_start_def Let_def split: if_splits prod.splits dest: read_groups_frame)
  have fin: "only_bitmaps fs f" if "ext2_read_bitmap_end fs fl = Some f" for fs fl f
    using that by (auto simp: ext2_read_bitmap_end_def ext2_mark_uninit_bg_group_blocks_def split: if_splits)
  have clean: "only_bitmaps fs (ext2_clean_bitmap fs fl)" for fs fl
    by (auto simp: ext2_clean_bitmap_def Let_def intro: only_bitmaps_trans [OF only_bitmaps_upd(2) only_bitmaps_upd(3)])
  have all: "only_bitmaps fs f" if "ext2_read_bitmap rd j fs fl a b h = Some (r, f, h')" for fs fl a b h r f h'
    using that by (auto simp: ext2_read_bitmap_def bind_eq_Some_conv split: if_splits
        dest!: prep start fin intro: only_bitmaps_trans clean)
  assume "ext2_read_bitmaps rd j fs h = Some (r, fs', h')"
  then show ?thesis by (auto simp: ext2_read_bitmaps_def Let_def split: if_splits dest: all)
qed

section \<open>The geometry that mounting establishes\<close>

lemma superblock_checksum_frame: "ext2_superblock_checksum_valid raw fs = Some (v, fs') \<Longrightarrow> only_bitmaps fs fs'"
  by (auto simp: ext2_superblock_checksum_valid_def bind_eq_Some_conv split: if_splits dest: crc32_fs_frame)

lemma open_seed_super: "open_seed fs = Some fs' \<Longrightarrow> super fs' = super fs \<and> blksize fs' = blksize fs"
  by (auto simp: open_seed_def only_bitmaps_def split: if_splits dest!: crc32_fs_frame)

lemma read_super_bounds:
  "s_inodes_count (read_super b) < 2 ^ 32" "s_blocks_per_group (read_super b) < 2 ^ 32" "s_first_data_block (read_super b) < 2 ^ 32"
  "s_inodes_per_group (read_super b) < 2 ^ 32"
  using get_le_less [of b _ 4] by (simp_all add: read_super_def)

lemma div64_ceil_val:
  assumes "0 < a" "a < 2 ^ 64" "0 < b" "b < 2 ^ 64"
  shows "unat (div64_ceil (word_of_nat a) (word_of_nat b)) = (a - 1) div b + 1"
proof -
  have ne: "(word_of_nat a :: u64) \<noteq> 0" and u: "unat (word_of_nat a :: u64) = a" "unat (word_of_nat b :: u64) = b"
    using assms by (simp_all add: unat_of_nat word_of_nat_eq_0_iff) (auto dest: nat_dvd_not_less)
  have m: "unat (word_of_nat a - 1 :: u64) = a - 1" using ne u(1) by (simp add: unat_minus_one)
  have le: "(a - 1) div b < 2 ^ 64 - 1"
  proof -
    have "(a - 1) div b \<le> a - 1" by simp
    then show ?thesis using assms(1,2) by linarith
  qed
  then show ?thesis using ne u m by (simp add: div64_ceil_def unat_word_ariths unat_div)
qed

lemma div32_ceil_val:
  assumes "0 < a" "a < 2 ^ 32" "0 < b" "b < 2 ^ 32"
  shows "unat (div32_ceil (word_of_nat a) (word_of_nat b)) = (a - 1) div b + 1"
proof -
  have ne: "(word_of_nat a :: u32) \<noteq> 0" and u: "unat (word_of_nat a :: u32) = a" "unat (word_of_nat b :: u32) = b"
    using assms by (simp_all add: unat_of_nat word_of_nat_eq_0_iff) (auto dest: nat_dvd_not_less)
  have m: "unat (word_of_nat a - 1 :: u32) = a - 1" using ne u(1) by (simp add: unat_minus_one)
  have le: "(a - 1) div b < 2 ^ 32 - 1"
  proof -
    have "(a - 1) div b \<le> a - 1" by simp
    then show ?thesis using assms(1,2) by linarith
  qed
  then show ?thesis using ne u m by (simp add: div32_ceil_def unat_word_ariths unat_div)
qed

text \<open>The blocks of descriptors have room for a descriptor of each group.\<close>

lemma desc_blocks_enough:
  assumes "0 < n" "n < 2 ^ 32" "0 < bs div sz" "bs < 2 ^ 32"
  shows "n * sz \<le> unat (div32_ceil (word_of_nat n) (word_of_nat (bs div sz))) * bs"
proof -
  let ?q = "bs div sz"
  have "?q < 2 ^ 32" using assms(4) by (meson div_le_dividend le_less_trans)
  then have c: "unat (div32_ceil (word_of_nat n) (word_of_nat ?q)) = (n - 1) div ?q + 1" using assms by (intro div32_ceil_val)
  have "n - 1 < ((n - 1) div ?q + 1) * ?q"
    using assms(3) by (metis Suc_eq_plus1 dividend_less_div_times mult_Suc plus_nat.simps(2) add.commute)
  then have "n \<le> ((n - 1) div ?q + 1) * ?q" using assms(1) by linarith
  then have "n * sz \<le> ((n - 1) div ?q + 1) * (?q * sz)" by (metis mult.assoc mult_le_mono1)
  also have "\<dots> \<le> ((n - 1) div ?q + 1) * bs" by (intro mult_le_mono2) (metis div_times_less_eq_dividend)
  finally show ?thesis using c by simp
qed

lemma read_desc_blocks_length: "read_desc_blocks rd fs is = Some b \<Longrightarrow> length b = length is * blksize fs"
  by (induction "is" arbitrary: b) (auto simp: bind_eq_Some_conv ext2_read_blocks_def split: option.split_asm if_split_asm)

text \<open>On a device that does not return without a byte, the table is read completely or the opening fails.\<close>

lemma open_descs_length:
  assumes "open_descs rd fs = Inr b"
  shows "length b = desc_blocks fs * blksize fs"
proof -
  define m where "m = (if incompat (super fs) EXT2_FT_INCOMPAT_META_BG then min (s_first_meta_bg (super fs)) (desc_blocks fs) else desc_blocks fs)"
  have le: "m \<le> desc_blocks fs" by (simp add: m_def)
  obtain b1 b2 where "length b1 = m * blksize fs" "read_desc_blocks rd fs [m..<desc_blocks fs] = Some b2" "b = b1 @ b2"
    using assms unfolding open_descs_def Let_def m_def [symmetric] by (auto split: option.split_asm if_split_asm)
  then show ?thesis using le by (simp add: read_desc_blocks_length add_mult_distrib [symmetric])
qed

lemma open_descs_empty:
  assumes "open_descs rd fs = Inl None" "\<forall>off n. 0 < n \<longrightarrow> rd off n \<noteq> Some []" "0 < blksize fs"
  shows False
  using assms by (auto simp: open_descs_def Let_def split: option.split_asm if_split_asm)

text \<open>The facts on the superblock and the number of groups that the checks leave behind.\<close>

lemma open_groups_geometry:
  assumes "open_groups fs = Some (Inr fs')" "s_blocks_per_group (super fs) < 2 ^ 32"
  shows "super fs' = super fs" "0 < s_blocks_per_group (super fs)" "s_first_data_block (super fs) < ext2_blocks_count (super fs)"
    "ext2_blocks_count (super fs) < 2 ^ 63" "group_desc_count fs' < 2 ^ 32" "blksize fs' = blksize fs"
    "group_desc_count fs' = (ext2_blocks_count (super fs) - s_first_data_block (super fs) - 1) div s_blocks_per_group (super fs) + 1"
    "group_desc_count fs' * s_inodes_per_group (super fs) mod 2 ^ 64 = s_inodes_count (super fs)"
    "desc_blocks fs' = unat (div32_ceil (word_of_nat (group_desc_count fs')) (word_of_nat (EXT2_DESC_PER_BLOCK (super fs))))"
    "0 < EXT2_DESC_PER_BLOCK (super fs)"
proof -
  let ?s = "super fs"
  let ?n = "unat (div64_ceil (word_of_nat (ext2_blocks_count ?s - s_first_data_block ?s)) (word_of_nat (s_blocks_per_group ?s)))"
  have c: "0 < s_blocks_per_group ?s" "s_first_data_block ?s < ext2_blocks_count ?s" "ext2_blocks_count ?s < 2 ^ 63"
    "?n div 2 ^ 32 = 0" "?n * s_inodes_per_group ?s mod 2 ^ 64 = s_inodes_count ?s"
    and f: "group_desc_count fs' = ?n" "super fs' = ?s" "blksize fs' = blksize fs"
      "desc_blocks fs' = unat (div32_ceil (word_of_nat ?n) (word_of_nat (EXT2_DESC_PER_BLOCK ?s)))" "0 < EXT2_DESC_PER_BLOCK ?s"
    using assms(1) by (auto simp: open_groups_def Let_def split: if_splits)
  have "?n = (ext2_blocks_count ?s - s_first_data_block ?s - 1) div s_blocks_per_group ?s + 1"
    using c assms(2) by (intro div64_ceil_val) auto
  then show "super fs' = super fs" "0 < s_blocks_per_group (super fs)" "s_first_data_block (super fs) < ext2_blocks_count (super fs)"
    "ext2_blocks_count (super fs) < 2 ^ 63" "group_desc_count fs' < 2 ^ 32" "blksize fs' = blksize fs"
    "group_desc_count fs' = (ext2_blocks_count (super fs) - s_first_data_block (super fs) - 1) div s_blocks_per_group (super fs) + 1"
    "group_desc_count fs' * s_inodes_per_group (super fs) mod 2 ^ 64 = s_inodes_count (super fs)"
    "desc_blocks fs' = unat (div32_ceil (word_of_nat (group_desc_count fs')) (word_of_nat (EXT2_DESC_PER_BLOCK (super fs))))"
    "0 < EXT2_DESC_PER_BLOCK (super fs)"
    using c f by (auto simp: div_eq_0_iff)
qed

lemma open_sizes_super:
  "open_sizes fs = Some (Inr fs') \<Longrightarrow> super fs' = super fs \<and> 0 < s_inodes_per_group (super fs) \<and>
     blksize fs' = EXT2_BLOCK_SIZE (super fs) \<and> EXT2_BLOCK_SIZE (super fs) \<le> 65536 \<and> 0 < EXT2_BLOCK_SIZE (super fs)"
  by (auto simp: open_sizes_def Let_def EXT2_BLOCK_SIZE_def push_bit_eq_mult power_increasing [of _ 6 "2 :: nat", simplified] split: if_splits)

lemma openfs_parts:
  assumes "ext2_openfs rd j mfl T h = Some (None, fs, h')" "\<forall>off n. 0 < n \<longrightarrow> rd off n \<noteq> Some []"
  obtains raw f1 f2 f3 f4 bytes h2 where "rd 1024 1024 = Some raw" "super f1 = read_super raw" "open_sizes f1 = Some (Inr f2)"
    "open_seed f2 = Some f3" "open_groups f3 = Some (Inr f4)" "open_descs rd f4 = Inr bytes"
    "ext2_read_bitmaps rd j (f4\<lparr>group_desc := split_descs f4 bytes\<rparr>) h2 = Some (None, fs, h')"
proof -
  obtain raw where raw: "rd 1024 1024 = Some raw" "length raw = 1024"
    using assms(1) by (auto simp: ext2_openfs_def Let_def split: option.split_asm if_split_asm)
  let ?f = "(new_fs mfl T)\<lparr>super := read_super raw\<rparr>"
  obtain v f1 where f1: "ext2_superblock_checksum_valid raw ?f = Some (v, f1)"
    using assms(1) raw by (auto simp: ext2_openfs_def Let_def bind_eq_Some_conv)
  then have s1: "super f1 = read_super raw" using only_bitmapsD(1) [OF superblock_checksum_frame [OF f1]] by simp
  obtain f2 where f2: "open_sizes f1 = Some (Inr f2)"
    using assms(1) raw f1 by (auto simp: ext2_openfs_def Let_def bind_eq_Some_conv case_sum_Some split: if_split_asm)
  obtain f3 where f3: "open_seed f2 = Some f3"
    using assms(1) raw f1 f2 by (auto simp: ext2_openfs_def Let_def bind_eq_Some_conv split: if_split_asm)
  obtain f4 where f4: "open_groups f3 = Some (Inr f4)"
    using assms(1) raw f1 f2 f3 by (auto simp: ext2_openfs_def Let_def bind_eq_Some_conv case_sum_Some split: if_split_asm)
  have "f4 = f3\<lparr>group_desc_count := group_desc_count f4, desc_blocks := desc_blocks f4\<rparr>"
    using f4 by (auto simp: open_groups_def Let_def split: if_splits)
  then have "blksize f4 = blksize f3" by (metis ext2_fs.select_convs(4) ext2_fs.surjective ext2_fs.update_convs(5,6))
  then have "0 < blksize f4" using open_sizes_super [OF f2] open_seed_super [OF f3] by simp
  then have ne: "open_descs rd f4 \<noteq> Inl None" using open_descs_empty assms(2) by blast
  obtain bytes h2 where "open_descs rd f4 = Inr bytes" "ext2_read_bitmaps rd j (f4\<lparr>group_desc := split_descs f4 bytes\<rparr>) h2 = Some (None, fs, h')"
    using assms(1) raw f1 f2 f3 f4 ne
    by (auto simp: ext2_openfs_def Let_def split: if_split_asm option.split_asm prod.split_asm sum.split_asm)
  then show thesis using that raw s1 f2 f3 f4 by blast
qed

definition block_in_group :: "fs \<Rightarrow> nat \<Rightarrow> nat \<Rightarrow> bool" where
  "block_in_group fs b g \<longleftrightarrow> g < group_desc_count fs \<and> ext2_group_first_block fs g \<le> b \<and> b \<le> ext2_group_last_block fs g"

lemma block_in_its_group:
  assumes "0 < s_blocks_per_group (super fs)" "s_blocks_per_group (super fs) < 2 ^ 32" "first_block fs < total_blocks fs"
    "total_blocks fs < 2 ^ 63" "first_block fs < 2 ^ 32" "group_desc_count fs < 2 ^ 32"
    "group_desc_count fs = (total_blocks fs - first_block fs - 1) div s_blocks_per_group (super fs) + 1"
    "b \<in> {first_block fs..<total_blocks fs}"
  shows "block_in_group fs b (ext2_group_of_block fs b)"
proof -
  let ?p = "s_blocks_per_group (super fs)" and ?n = "group_desc_count fs" and ?f = "first_block fs" and ?t = "total_blocks fs"
  define g where "g = (b - ?f) div ?p"
  have b: "?f \<le> b" "b < ?t" using assms(8) by auto
  have le: "g \<le> (?t - ?f - 1) div ?p" unfolding g_def using assms(8) by (intro div_le_mono) auto
  then have gn: "g < ?n" using assms(7) by simp
  have sub: "sub64 b ?f = b - ?f" using assms(3,4,8) by simp
  have g: "ext2_group_of_block fs b = g" using gn assms(6) sub by (simp add: ext2_group_of_block_def g_def)
  have lo: "g * ?p \<le> b - ?f" and hi: "b - ?f < g * ?p + ?p"
    unfolding g_def using assms(1) by (simp, metis add.commute dividend_less_times_div mult.commute mult_Suc_right)
  have first: "ext2_group_first_block fs g = ?f + g * ?p"
  proof -
    have "?f + g * ?p < 2 ^ 64" using lo b assms(4) by simp
    then show ?thesis by (simp add: ext2_group_first_block_def mult.commute)
  qed
  have n1: "(?n + 2 ^ 32 - 1) mod 2 ^ 32 = ?n - 1" using gn assms(6) by (simp add: mod_if)
  have "b \<le> ext2_group_last_block fs g"
  proof (cases "g = ?n - 1")
    case True
    then have "ext2_group_last_block fs g = ?t - 1" using n1 assms(3,4) by (simp add: ext2_group_last_block_def)
    then show ?thesis using assms(8) by auto
  next
    case False
    have "?f + g * ?p + ?p < 2 ^ 64" using lo b assms(2,4,5) by simp
    moreover from this have "sub64 ((?f + g * ?p + ?p) mod 2 ^ 64) 1 = ?f + g * ?p + ?p - 1" using assms(1) by simp
    ultimately have "ext2_group_last_block fs g = ?f + g * ?p + ?p - 1"
      using False n1 first by (simp add: ext2_group_last_block_def)
    then show ?thesis using hi assms(8) by auto
  qed
  then show ?thesis using g gn first lo assms(8) by (auto simp: block_in_group_def)
qed

text \<open>
  C7: A file system that \<open>ext2_openfs\<close> accepts has a geometry the driver can rely on: every block from the
  first data block to the last lies in a group that has a descriptor, between the first and the
  last block of this group, and every inode number belongs to a group that has a
  descriptor. The table read from the device is large enough for the descriptors of all groups.
  The size of groups is not zero, so the divisions are defined. The device is one
  that does not return from a read without a byte.\<close>

theorem openfs_geometry:
  assumes "ext2_openfs rd j mfl T h = Some (None, fs, h')" "\<forall>off n. 0 < n \<longrightarrow> rd off n \<noteq> Some []"
  shows "0 < s_blocks_per_group (super fs) \<and> 0 < s_inodes_per_group (super fs) \<and>
    length (group_desc fs) = group_desc_count fs \<and>
    (\<forall>b\<in>{first_block fs..<total_blocks fs}. block_in_group fs b (ext2_group_of_block fs b)) \<and>
    (\<forall>ino\<in>{1..s_inodes_count (super fs)}. ext2_group_of_inode fs ino < group_desc_count fs)"
proof -
  obtain raw f1 f2 f3 f4 bytes h2 where p: "super f1 = read_super raw" "open_sizes f1 = Some (Inr f2)"
    "open_seed f2 = Some f3" "open_groups f3 = Some (Inr f4)" "open_descs rd f4 = Inr bytes"
    "ext2_read_bitmaps rd j (f4\<lparr>group_desc := split_descs f4 bytes\<rparr>) h2 = Some (None, fs, h')"
    using openfs_parts [OF assms] .
  have s3: "super f3 = read_super raw" "0 < s_inodes_per_group (read_super raw)"
    and bs: "blksize f3 = EXT2_BLOCK_SIZE (read_super raw)" "EXT2_BLOCK_SIZE (read_super raw) \<le> 65536"
    using p(1) open_sizes_super [OF p(2)] open_seed_super [OF p(3)] by simp_all
  note bounds = read_super_bounds [of raw]
  have "s_blocks_per_group (super f3) < 2 ^ 32" using s3(1) bounds by simp
  note geo = open_groups_geometry [OF p(4) this, unfolded s3(1)]
  have "group_desc_count f4 * EXT2_DESC_SIZE (read_super raw) \<le> length bytes"
    using desc_blocks_enough [of "group_desc_count f4" "EXT2_BLOCK_SIZE (read_super raw)" "EXT2_DESC_SIZE (read_super raw)"]
      geo(5-7,9,10) bs open_descs_length [OF p(5)] by (simp add: EXT2_DESC_PER_BLOCK_def)
  moreover have "0 < EXT2_DESC_SIZE (read_super raw)" using geo(10) by (auto simp: EXT2_DESC_PER_BLOCK_def intro: ccontr)
  ultimately have "group_desc_count f4 \<le> length bytes div EXT2_DESC_SIZE (super f4)"
    using geo(1) by (simp add: less_eq_div_iff_mult_less_eq)
  then have fr: "super fs = read_super raw" "group_desc_count fs = group_desc_count f4" "length (group_desc fs) = group_desc_count f4"
    using only_bitmapsD [OF read_bitmaps_frame [OF p(6)]] geo(1) by (simp_all add: split_descs_def Let_def)
  let ?n = "group_desc_count fs" and ?ipg = "s_inodes_per_group (read_super raw)"
  have ino: "ext2_group_of_inode fs ino < ?n" if "ino \<in> {1..s_inodes_count (super fs)}" for ino
  proof -
    have "?n * ?ipg < 2 ^ 32 * 2 ^ 32" using geo(5) bounds(4) fr(2) by (intro mult_strict_mono) simp_all
    then have "?n * ?ipg = s_inodes_count (read_super raw)" using geo(8) fr(2) by simp
    then have "ino - 1 < ?n * ?ipg" using that fr(1) by auto
    then have "(ino - 1) div ?ipg < ?n" using s3(2) by (simp add: div_less_iff_less_mult)
    moreover have "sub64 ino 1 = ino - 1" using that fr(1) bounds(1) by simp
    ultimately show ?thesis using geo(5) fr(1,2) by (simp add: ext2_group_of_inode_def)
  qed
  have blk: "block_in_group fs b (ext2_group_of_block fs b)" if "b \<in> {first_block fs..<total_blocks fs}" for b
    by (rule block_in_its_group) (use geo bounds fr that in simp_all)
  show ?thesis using geo(2) s3(2) fr ino blk by simp
qed

text \<open>A device with a file system of one group of eight blocks and eight inodes; other blocks are zero.\<close>

definition demo_super :: "u8 list" where
  "demo_super =
     put_le 4 8 @ put_le 4 9 @ put_le 4 0 @ put_le 4 8 @ put_le 4 8 @ put_le 4 1 @ put_le 4 0 @ put_le 4 0 @
     put_le 4 8 @ put_le 4 8 @ put_le 4 8 @ replicate 12 0 @ put_le 2 0xef53 @ replicate 966 0"

definition demo_rd :: device_read where
  "demo_rd off n = Some (if off = 1024 \<and> n = 1024 then demo_super else replicate n 0)"

definition demo_heap :: heap_oracle where
  "demo_heap = \<lparr>outcomes = [], new_addr = 4096, new_bytes = (\<lambda>i. 0)\<rparr>"

lemma demo_read_super: "read_super demo_super = demo_sb"
  by (simp add: read_super_def demo_super_def demo_sb_def get_le_skip get_put_le del: put_le.simps)

lemmas demo_consts = EXT2_BLOCK_SIZE_def EXT2_INODE_SIZE_def EXT2_CLUSTER_SIZE_def EXT2_DESC_SIZE_def EXT2_DESC_PER_BLOCK_def
  EXT2_MAX_BLOCKS_PER_GROUP_def EXT2_MAX_INODES_PER_GROUP_def EXT2_INODES_PER_BLOCK_def incompat_def ro_compat_def
  ext2_blocks_count_def

lemma demo_steps:
  defines "f1 \<equiv> (new_fs 0 crc32_static)\<lparr>super := demo_sb\<rparr>"
  defines "f2 \<equiv> f1\<lparr>blksize := 1024, cluster_ratio_bits := 0, inode_blocks_per_group := 1\<rparr>"
  shows "ext2_superblock_checksum_valid demo_super f1 = Some (True, f1)"
    "open_sizes f1 = Some (Inr f2)" "open_seed f2 = Some f2"
    "open_groups f2 = Some (Inr (demo_fs\<lparr>group_desc := []\<rparr>))"
proof -
  have p2: "IS_P2 (0x80 :: u64)" by (simp add: IS_P2_def)
  show "ext2_superblock_checksum_valid demo_super f1 = Some (True, f1)"
    by (simp add: f1_def ext2_superblock_checksum_valid_def ro_compat_def)
  show "open_sizes f1 = Some (Inr f2)" using p2
    by (simp add: f2_def f1_def open_sizes_def Let_def demo_consts) (simp add: demo_sb_def new_fs_def)
  show "open_seed f2 = Some f2" by (simp add: open_seed_def incompat_def ro_compat_def f2_def f1_def)
  have "f2\<lparr>group_desc_count := 1, desc_blocks := 1\<rparr> = demo_fs\<lparr>group_desc := []\<rparr>"
    by (simp add: f2_def f1_def new_fs_def demo_fs_def)
  moreover have "open_groups f2 = Some (Inr (f2\<lparr>group_desc_count := 1, desc_blocks := 1\<rparr>))"
    by (simp add: open_groups_def Let_def demo_consts f2_def f1_def) (simp add: demo_sb_def div64_ceil_def div32_ceil_def)
  ultimately show "open_groups f2 = Some (Inr (demo_fs\<lparr>group_desc := []\<rparr>))" by simp
qed

lemma demo_descs: "open_descs demo_rd (demo_fs\<lparr>group_desc := []\<rparr>) = Inr (replicate 1024 0)"
  "split_descs (demo_fs\<lparr>group_desc := []\<rparr>) (replicate 1024 0) = [demo_desc]"
  by (simp_all add: open_descs_def split_descs_def demo_fs_def demo_desc_def incompat_def EXT2_DESC_SIZE_def demo_rd_def Let_def demo_sb_def)

definition demo_bb :: ext2_bitmap where
  "demo_bb = Bmap32 \<lparr>m_start = 1, m_end = 8, m_real_end = 8, m_bits = replicate 8 0\<rparr>"

abbreviation demo_open :: fs where
  "demo_open \<equiv> demo_fs\<lparr>block_bitmap := Some demo_bb, inode_bitmap := Some demo_bb\<rparr>"

lemma demo_prepare: "ext2_prepare_read_bitmap demo_fs 3 demo_heap = Some (None, demo_open, demo_heap)"
  by (simp add: ext2_prepare_read_bitmap_def demo_fs_def demo_sb_def EXT2_BITMAP_BLOCK_def EXT2_BITMAP_INODE_def
      ext2_allocate_block_bitmap_def ext2_allocate_inode_bitmap_def EXT2_B2C_def ext2_blocks_count_def incompat_def
      ext2_make_bitmap_32_def demo_heap_def demo_bb_def Let_def)

lemma demo_read: "read_groups demo_rd True True 1 1 1 1 0 1 demo_open = Some (None, demo_open)"
proof -
  have w: "\<not> wide demo_open" by (simp add: wide_def incompat_def demo_fs_def)
  have set: "ext2_set_bitmap_range (Some demo_bb) 1 8 [0] = Some (Inr demo_bb)"
  proof -
    have "0 # replicate 7 0 = replicate 8 (0 :: u8)" by (metis Suc_numeral replicate_Suc semiring_norm(5,8) numeral_One add_num_simps)
    then show ?thesis by (simp add: demo_bb_def Let_def)
  qed
  have u: "uninit_block demo_open 0 fl 0 = Some (0, demo_open)" for fl
    by (simp add: uninit_block_def ext2_has_group_desc_checksum_def ro_compat_def demo_fs_def)
  have loc: "ext2_block_bitmap_loc demo_open 0 = Some 0" "ext2_inode_bitmap_loc demo_open 0 = Some 0"
    using w by (simp_all add: ext2_block_bitmap_loc_def ext2_inode_bitmap_loc_def desc_of_def demo_desc_zero)
      (simp_all add: demo_fs_def demo_desc_zero wide_def incompat_def)
  have "read_block_group demo_rd 1 1 0 demo_open = Some (None, demo_open)"
    using loc u set by (simp add: read_block_group_def)
  moreover have "read_inode_group demo_rd 1 1 0 demo_open = Some (None, demo_open)"
    using loc u set by (simp add: read_inode_group_def)
  ultimately show ?thesis by simp
qed

lemma demo_opens: "ext2_openfs demo_rd None 0 crc32_static demo_heap = Some (None, demo_open, demo_heap)"
proof -
  have fl: "(if block_bitmap demo_fs = None then EXT2_BITMAP_BLOCK else 0) OR (if inode_bitmap demo_fs = None then EXT2_BITMAP_INODE else 0) = 3"
    by (simp add: demo_fs_def EXT2_BITMAP_BLOCK_def EXT2_BITMAP_INODE_def)
  have sz: "s_clusters_per_group (super demo_fs) = 8" "s_inodes_per_group (super demo_fs) = 8" "s_first_data_block (super demo_fs) = 1"
    "group_desc_count demo_fs = 1" "cluster_ratio_bits demo_fs = 0"
    by (simp_all add: demo_fs_def demo_sb_def)
  have heap: "outcomes demo_heap = []" "demo_heap\<lparr>outcomes := []\<rparr> = demo_heap" by (simp_all add: demo_heap_def)
  have b2c: "EXT2_B2C demo_open 1 = 1" by (simp add: EXT2_B2C_def demo_fs_def)
  have start: "ext2_read_bitmap_start demo_rd None demo_open 3 0 0 demo_heap = Some (None, demo_open, demo_heap)"
    using demo_read b2c heap by (simp add: ext2_read_bitmap_start_def Let_def EXT2_BITMAP_BLOCK_def EXT2_BITMAP_INODE_def sz del: read_groups.simps)
  have fin: "ext2_read_bitmap_end demo_open 3 = Some demo_open"
    by (simp add: ext2_read_bitmap_end_def EXT2_BITMAP_BLOCK_def ext2_mark_uninit_bg_group_blocks_def sz ext2_bg_test_flags_def desc_of_def)
      (simp add: demo_fs_def demo_desc_zero)
  have rb: "ext2_read_bitmaps demo_rd None demo_fs demo_heap = Some (None, demo_open, demo_heap)"
    unfolding ext2_read_bitmaps_def fl Let_def
    using demo_prepare start fin by (simp add: ext2_read_bitmap_def) (simp add: demo_fs_def)
  have magic: "s_magic demo_sb = EXT2_MAGIC" "\<not> s_rev_level demo_sb > EXT2_DYNAMIC_REV"
    by (simp_all add: demo_sb_def EXT2_MAGIC_def EXT2_DYNAMIC_REV_def)
  have rd: "demo_rd 1024 1024 = Some demo_super" "length demo_super = 1024" by (simp_all add: demo_rd_def demo_super_def)
  have gd: "demo_fs\<lparr>group_desc := [demo_desc]\<rparr> = demo_fs" by (simp add: demo_fs_def)
  have small: "desc_blocks demo_fs = 1" "blksize demo_fs = 1024" by (simp_all add: demo_fs_def)
  have mmp: "\<not> incompat (super demo_fs) EXT4_FT_INCOMPAT_MMP" by (simp add: incompat_def demo_fs_def)
  have s1: "super ((new_fs 0 crc32_static)\<lparr>super := demo_sb\<rparr>) = demo_sb" by simp
  show ?thesis
    unfolding ext2_openfs_def Let_def rd option.case demo_read_super
    by (simp add: rd demo_steps demo_steps [unfolded One_nat_def] demo_descs magic heap gd mmp rb s1 small)
qed

theorem openfs_geometry_witness:
  "ext2_openfs demo_rd None 0 crc32_static demo_heap = Some (None, demo_open, demo_heap) \<and>
   0 < s_blocks_per_group (super demo_open) \<and> 0 < s_inodes_per_group (super demo_open) \<and>
   block_in_group demo_open 8 (ext2_group_of_block demo_open 8) \<and> ext2_group_of_inode demo_open 8 < group_desc_count demo_open"
proof -
  have "8 \<in> {first_block demo_open..<total_blocks demo_open}" "8 \<in> {1..s_inodes_count (super demo_open)}"
    by (simp_all add: demo_fs_def demo_sb_def ext2_blocks_count_def incompat_def)
  moreover have "\<forall>off n. 0 < n \<longrightarrow> demo_rd off n \<noteq> Some []" by (auto simp: demo_rd_def demo_super_def)
  ultimately show ?thesis using demo_opens openfs_geometry [OF demo_opens] by blast
qed

end
