(* ===== verification/Pml_Thread.thy ===== *)
theory Pml_Thread
  imports Pml_Space Pml_Signal
begin

text \<open>
  Threads (arch/x86_64/thread.c): the address space of a new thread. A clone shares the user half of
  the address space with the original, marked copy on write, and gets copies of the stacks
  at the same addresses. The lemmas say what the steps of a clone keep of the structures that are in use; the theorem on
  \<open>thread_clone\<close> itself is in \<open>Pml_Clone\<close>.
  \<open>None\<close> means that the page allocator reads outside of its table of counts.
\<close>

section \<open>State\<close>

definition PAGE_FLAG_COW :: u64 where "PAGE_FLAG_COW = 0x200"
definition SYSCALL_STACK_TOP_VMA :: u64 where "SYSCALL_STACK_TOP_VMA = 0xfffffd7fd0000000"
definition INTERRUPT_STACK_TOP_VMA :: u64 where "INTERRUPT_STACK_TOP_VMA = 0xfffffd7fe0000000"
definition PROCESS_STACK_TOP_VMA :: u64 where "PROCESS_STACK_TOP_VMA = 0xfffffd8000000000"
definition SIGINFO_VMA :: u64 where "SIGINFO_VMA = 0xfffffd7fb0000000"
definition SIGNAL_TRAMPOLINE_VMA :: u64 where "SIGNAL_TRAMPOLINE_VMA = 0xfffffd7fb0001000"
definition KERNEL_STACK_SIZE :: u64 where "KERNEL_STACK_SIZE = 0x100000"

record thread_args =
  ta_pml4t :: u64
  ta_stack :: u64
  ta_stack_base :: u64
  ta_stack_size :: u64

record task =
  t_tid :: int
  t_args :: thread_args
  t_run :: thread_state
  t_error :: int

text \<open>What the functions work on: the page structures, the thread numbers and the outcomes of allocations.\<close>

record thread_env =
  te_vm :: vm_state
  te_pids :: pid_state
  te_alloc :: alloc_outcomes
  te_junk :: "nat \<Rightarrow> u8"

section \<open>Creating and freeing threads\<close>

definition te_alloc_pid :: "thread_env \<Rightarrow> (int \<times> thread_env) option" where
  "te_alloc_pid s = map_option (\<lambda>(pid, ps, al). (pid, s\<lparr>te_pids := ps, te_alloc := al\<rparr>)) (alloc_pid (te_junk s) (te_alloc s) (te_pids s))"

definition te_free_pid :: "int \<Rightarrow> thread_env \<Rightarrow> thread_env option" where
  "te_free_pid pid s = map_option (\<lambda>ps. s\<lparr>te_pids := ps\<rparr>) (free_pid pid (te_pids s))"

definition te_pages :: "(page_alloc \<Rightarrow> page_alloc option) \<Rightarrow> thread_env \<Rightarrow> thread_env option" where
  "te_pages f s = map_option (\<lambda>pg. s\<lparr>te_vm := (te_vm s)\<lparr>vm_pages := pg\<rparr>\<rparr>) (f (vm_pages (te_vm s)))"

definition thread_create :: "thread_args \<Rightarrow> thread_env \<Rightarrow> (task option \<times> thread_env) option" where
  "thread_create args s =
     (let (ok, al) = take_alloc (te_alloc s); s = s\<lparr>te_alloc := al\<rparr> in
      if \<not> ok then Some (None, s)
      else case te_alloc_pid s of None \<Rightarrow> None | Some (tid, s) \<Rightarrow>
        if tid = 0 then Some (None, s)
        else Some (Some \<lparr>t_tid = tid, t_args = args, t_run = THREAD_STATE_RUNNING, t_error = 0\<rparr>, s))"

text \<open>
  The pages for signal information and the trampoline; \<open>cur\<close> is the PML4T of the running
  thread and \<open>tramp\<close> the address of the function \<open>signal_trampoline\<close>. The result of mapping the
  trampoline is not looked at.\<close>

definition thread_alloc_tl_kernel_data :: "u64 \<Rightarrow> u64 \<Rightarrow> u64 \<Rightarrow> vm_state \<Rightarrow> (bool \<times> vm_state) option" where
  "thread_alloc_tl_kernel_data cur tramp pml4t s =
     (case alloc_page (vm_pages s) of
        None \<Rightarrow> None
      | Some (page, pg) \<Rightarrow>
          (let s = s\<lparr>vm_pages := pg\<rparr>; st_page = vm_phys_addr cur tramp s in
           if page = 0 then Some (False, s)
           else case vm_map_page pml4t page SIGINFO_VMA 6 s of
             None \<Rightarrow> None
           | Some (r, s) \<Rightarrow>
               if r \<noteq> Map_ok then Some (False, s)
               else case vm_map_page pml4t st_page SIGNAL_TRAMPOLINE_VMA 4 s of
                 None \<Rightarrow> None
               | Some (_, s) \<Rightarrow> map_option (\<lambda>pg. (True, s\<lparr>vm_pages := pg\<rparr>)) (ref_page st_page (vm_pages s))))"

definition thread_free :: "task \<Rightarrow> thread_env \<Rightarrow> thread_env option" where
  "thread_free t s =
     (let pml4t = ta_pml4t (t_args t) in
      case te_free_pid (t_tid t) s of None \<Rightarrow> None | Some s \<Rightarrow>
        (let e = entry (te_vm s) pml4t (PML4T_INDEX THREAD_LOCAL_BASE_VMA); tlp = ALIGN_DOWN e PAGE_SIZE in
         Option.bind
           (if present e
            then Option.bind (te_pages (free_pdpt (te_vm s) (PHYS_REL tlp)) s) (te_pages (free_page tlp))
            else Some s)
           (te_pages (free_virtual_page pml4t))))"

definition thread_unmap_user_mem :: "task \<Rightarrow> thread_env \<Rightarrow> thread_env option" where
  "thread_unmap_user_mem t s = map_option (\<lambda>v. s\<lparr>te_vm := v\<rparr>) (vm_unmap_user_mem (ta_pml4t (t_args t)) (te_vm s))"

definition sys_clone :: "errno + int" where
  "sys_clone = Inl ENOSYS"

section \<open>Cloning\<close>

definition copy_page :: "u64 \<Rightarrow> u64 \<Rightarrow> vm_state \<Rightarrow> vm_state" where
  "copy_page dst src s = s\<lparr>vm_cells := (\<lambda>a. if a - dst < PAGE_STRUCT_SIZE then vm_cells s (src + (a - dst)) else vm_cells s a)\<rparr>"

text \<open>Marking the entries of the user half copy on write, and counting the new references to all pages below it.\<close>

definition cow_entry :: "u64 \<Rightarrow> u64" where
  "cow_entry e = e AND NOT PAGE_FLAG_RW OR PAGE_FLAG_COW"

primrec mark_cow :: "u64 \<Rightarrow> u64 list \<Rightarrow> vm_state \<Rightarrow> vm_state" where
  "mark_cow p [] s = s"
| "mark_cow p (i # is) s = mark_cow p is (let e = entry s p i in if present e then set_entry p i (cow_entry e) s else s)"

definition user_indexes :: "u64 list" where
  "user_indexes = map word_of_nat [0..<PAGE_STRUCT_ENTRIES div 2]"

definition ref_user :: "vm_state \<Rightarrow> u64 \<Rightarrow> page_alloc \<Rightarrow> page_alloc option" where
  "ref_user s p = each_entry
     (\<lambda>e pg. if present e then Option.bind (ref_page e pg) (ref_pdpt s (table_at e)) else Some pg)
     (entries s p (PAGE_STRUCT_ENTRIES div 2))"

text \<open>The loops that copy the pages of a stack; \<open>False\<close> when memory runs out or a page cannot be mapped.\<close>

primrec clone_pages :: "u64 \<Rightarrow> u64 \<Rightarrow> u64 list \<Rightarrow> vm_state \<Rightarrow> (bool \<times> vm_state) option" where
  "clone_pages old new [] s = Some (True, s)"
| "clone_pages old new (a # as) s =
     (case alloc_page (vm_pages s) of
        None \<Rightarrow> None
      | Some (page, pg) \<Rightarrow>
          (let s = s\<lparr>vm_pages := pg\<rparr> in
           if page = 0 then Some (False, s)
           else case vm_map_page new page a 6 (copy_page (PHYS_REL page) (PHYS_REL (vm_phys_addr old a s)) s) of
             None \<Rightarrow> None
           | Some (r, s) \<Rightarrow>
               if r = Map_ok then clone_pages old new as s
               else map_option (\<lambda>pg. (False, s\<lparr>vm_pages := pg\<rparr>)) (free_page page (vm_pages s))))"

definition stack_pages :: "thread_args \<Rightarrow> u64 list" where
  "stack_pages a =
     (if unat (ta_stack_base a) + unat (ta_stack_size a) < 2 ^ 64
      then map (\<lambda>i. ta_stack_base a + PAGE_SIZE * word_of_nat i) [0..<(unat (ta_stack_size a) + 4095) div 4096] else [])"

definition kernel_stack_pages :: "u64 \<Rightarrow> u64 list" where
  "kernel_stack_pages a = map (\<lambda>i. a - PAGE_SIZE - PAGE_SIZE * word_of_nat i) [0..<unat KERNEL_STACK_SIZE div 4096]"

text \<open>The part of \<open>thread_clone\<close> after the new page structures have been allocated, up to the label \<open>err3\<close>.\<close>

definition clone_space :: "u64 \<Rightarrow> u64 \<Rightarrow> thread_args \<Rightarrow> bool \<Rightarrow> u64 \<Rightarrow> u64 \<Rightarrow> vm_state \<Rightarrow> (bool \<times> vm_state) option" where
  "clone_space cur tramp args cp pml4t tlp s =
     (let old = ta_pml4t args; s = clear_struct tlp s; s = (if cp then mark_cow old user_indexes s else s) in
      case ref_user s old (vm_pages s) of
        None \<Rightarrow> None
      | Some pg \<Rightarrow>
          (let s = copy_page pml4t old (s\<lparr>vm_pages := pg\<rparr>);
               s = set_entry pml4t (PML4T_INDEX THREAD_LOCAL_BASE_VMA)
                     (tlp - KERNEL_VMA OR PAGE_FLAG_PRESENT OR PAGE_FLAG_RW OR PAGE_FLAG_USER) s
           in case clone_pages old pml4t
                (stack_pages args @ kernel_stack_pages INTERRUPT_STACK_TOP_VMA @ kernel_stack_pages SYSCALL_STACK_TOP_VMA) s of
             None \<Rightarrow> None
           | Some (ok, s) \<Rightarrow> if ok then thread_alloc_tl_kernel_data cur tramp pml4t s else Some (False, s)))"

definition thread_clone :: "u64 \<Rightarrow> u64 \<Rightarrow> task \<Rightarrow> bool \<Rightarrow> thread_env \<Rightarrow> (task option \<times> thread_env) option" where
  "thread_clone cur tramp thread cp s =
     (let (ok, al) = take_alloc (te_alloc s); s = s\<lparr>te_alloc := al\<rparr> in
      if \<not> ok then Some (None, s)
      else case alloc_virtual_page (vm_pages (te_vm s)) of
        None \<Rightarrow> None
      | Some (pml4t, pg) \<Rightarrow>
          (let s = s\<lparr>te_vm := (te_vm s)\<lparr>vm_pages := pg\<rparr>\<rparr> in
           if pml4t = 0 then Some (None, s)
           else case te_alloc_pid s of None \<Rightarrow> None | Some (tid, s) \<Rightarrow>
             if tid = -1 then map_option (Pair None) (te_pages (free_virtual_page pml4t) s)
             else case alloc_virtual_page (vm_pages (te_vm s)) of
               None \<Rightarrow> None
             | Some (tlp, pg) \<Rightarrow>
                 (let s = s\<lparr>te_vm := (te_vm s)\<lparr>vm_pages := pg\<rparr>\<rparr>;
                      undo = (\<lambda>s. map_option (Pair None) (Option.bind (te_free_pid tid s) (te_pages (free_virtual_page pml4t))))
                  in if tlp = 0 then undo s
                     else case clone_space cur tramp (t_args thread) cp pml4t tlp (te_vm s) of
                       None \<Rightarrow> None
                     | Some (ok, v) \<Rightarrow>
                         (let s = s\<lparr>te_vm := v\<rparr> in
                          if ok then Some (Some \<lparr>t_tid = tid, t_args = (t_args thread)\<lparr>ta_pml4t := pml4t\<rparr>,
                                   t_run = THREAD_STATE_RUNNING, t_error = t_error thread\<rparr>, s)
                          else Option.bind (te_pages (free_pdpt v tlp) s) undo))))"

section \<open>Entries after stores to whole structures\<close>

abbreviation TL :: u64 where "TL \<equiv> PML4T_INDEX THREAD_LOCAL_BASE_VMA"

lemma entry_copy_page:
  assumes "struct_at t" "struct_at u" "j < 512"
  shows "entry (copy_page t src s) u j = (if u = t then entry s src j else entry s u j)"
proof -
  obtain a b where "t = PHYS_REL a" "u = PHYS_REL b" "page_aligned a" "page_aligned b"
    using assms(1,2) by (auto simp: struct_at_def)
  then show ?thesis using cell_in_struct_iff [of a b j] assms(3) by (auto simp: entry_def copy_page_def PHYS_REL_def)
qed

lemma entry_clear:
  assumes "struct_at t" "struct_at u" "j < 512"
  shows "entry (clear_struct t s) u j = (if u = t then 0 else entry s u j)"
  using assms entry_clear_struct by (auto simp: struct_at_def PHYS_REL_def)

lemma cow_entry_bit: "bit (cow_entry e) n \<longleftrightarrow> n = 9 \<or> bit e n \<and> n \<noteq> 1 \<and> n < 64"
proof -
  have "bit (0x200 :: u64) n \<longleftrightarrow> n = 9" using bit_exp_iff [where 'a = "64 word", of 9 n] by auto
  moreover have "bit (2 :: u64) n \<longleftrightarrow> n = 1" using bit_exp_iff [where 'a = "64 word", of 1 n] by auto
  ultimately show ?thesis unfolding cow_entry_def PAGE_FLAG_RW_def PAGE_FLAG_COW_def
    by (simp only: bit_or_iff bit_and_iff bit_not_iff) (auto dest: bit_imp_le_length)
qed

lemma cow_entry_facts [simp]: "present (cow_entry e) = present e" "table_at (cow_entry e) = table_at e" "frame (cow_entry e) = frame e"
proof -
  have down: "ALIGN_DOWN (cow_entry e) PAGE_SIZE = ALIGN_DOWN e PAGE_SIZE"
    by (rule bit_word_eqI) (auto simp: align_down_bit cow_entry_bit)
  show "present (cow_entry e) = present e" by (simp add: present_bit cow_entry_bit)
  show "table_at (cow_entry e) = table_at e" using down by (simp add: table_at_def)
  show "frame (cow_entry e) = frame e" using down frame_align_down by metis
qed

definition cow_if :: "bool \<Rightarrow> u64 \<Rightarrow> u64" where
  "cow_if c e = (if c \<and> present e then cow_entry e else e)"

lemma cow_if_facts [simp]: "present (cow_if c e) = present e" "table_at (cow_if c e) = table_at e" "frame (cow_if c e) = frame e"
  by (simp_all add: cow_if_def)

lemma mark_cow_pages [simp]: "vm_pages (mark_cow p is s) = vm_pages s"
  by (induction "is" arbitrary: s) (simp_all add: Let_def set_entry_def)

lemma mark_cow_entry:
  assumes "struct_at p" "struct_at u" "j < 512" "\<forall>i \<in> set is. i < 512" "distinct is"
  shows "entry (mark_cow p is s) u j = cow_if (u = p \<and> j \<in> set is) (entry s u j)"
  using assms
proof (induction "is" arbitrary: s)
  case (Cons i "is")
  let ?s = "if present (entry s p i) then set_entry p i (cow_entry (entry s p i)) s else s"
  have "entry ?s u j = cow_if (u = p \<and> j = i) (entry s u j)"
    using entry_set_entry [OF Cons.prems(1,2) _ Cons.prems(3), of i] Cons.prems(4) by (auto simp: cow_if_def)
  then show ?case using Cons by (auto simp: cow_if_def Let_def)
qed (simp add: cow_if_def)

lemma user_indexes_facts: "distinct user_indexes" "i \<in> set user_indexes \<longleftrightarrow> i < 256" "\<forall>i \<in> set user_indexes. i < 512"
proof -
  have "inj_on (word_of_nat :: nat \<Rightarrow> u64) {0..<256}"
    by (rule inj_onI) (auto dest: arg_cong [where f = unat] simp: unat_of_nat)
  then show "distinct user_indexes" by (simp add: user_indexes_def distinct_map PAGE_STRUCT_ENTRIES_def)
  show iff: "i \<in> set user_indexes \<longleftrightarrow> i < 256" for i
    by (auto simp: user_indexes_def PAGE_STRUCT_ENTRIES_def word_less_nat_alt unat_of_nat intro: image_eqI [where x = "unat i"])
  show "\<forall>i \<in> set user_indexes. i < 512" using iff by (auto simp: word_less_nat_alt)
qed

section \<open>The new references\<close>

text \<open>The entries of the user half that \<open>ref_user\<close> counts, in order.\<close>

definition pt_refs :: "vm_state \<Rightarrow> u64 \<Rightarrow> u64 list" where
  "pt_refs s t = filter present (entries s t PAGE_STRUCT_ENTRIES)"

definition table_refs_of :: "(u64 \<Rightarrow> u64 list) \<Rightarrow> u64 list \<Rightarrow> u64 list" where
  "table_refs_of f es = concat (map (\<lambda>e. if present e \<and> \<not> large e then e # f (table_at e) else []) es)"

definition pdt_refs :: "vm_state \<Rightarrow> u64 \<Rightarrow> u64 list" where
  "pdt_refs s t = table_refs_of (pt_refs s) (entries s t PAGE_STRUCT_ENTRIES)"

definition pdpt_refs :: "vm_state \<Rightarrow> u64 \<Rightarrow> u64 list" where
  "pdpt_refs s t = table_refs_of (pdt_refs s) (entries s t PAGE_STRUCT_ENTRIES)"

definition user_refs :: "vm_state \<Rightarrow> u64 \<Rightarrow> u64 list" where
  "user_refs s p = concat (map (\<lambda>e. if present e then e # pdpt_refs s (table_at e) else []) (entries s p (PAGE_STRUCT_ENTRIES div 2)))"

lemma each_entry_append: "each_entry f (xs @ ys) pg = Option.bind (each_entry f xs pg) (each_entry f ys)"
proof (induction xs arbitrary: pg)
  case (Cons x xs)
  then show ?case by (cases "f x pg") simp_all
qed simp

lemma each_entry_filter: "each_entry (\<lambda>e pg. if P e then f e pg else Some pg) es = each_entry f (filter P es)"
  by (induction es) (rule ext, simp)+

lemma each_entry_concat:
  assumes "\<And>e. P e \<Longrightarrow> g e = each_entry f (h e)"
  shows "each_entry (\<lambda>e pg. if P e then Option.bind (f e pg) (g e) else Some pg) es =
    each_entry f (concat (map (\<lambda>e. if P e then e # h e else []) es))"
  by (induction es) (rule ext, simp add: each_entry_append assms)+

lemma ref_pt_list: "ref_pt s t = each_entry ref_page (pt_refs s t)"
  unfolding ref_pt_def pt_refs_def each_entry_filter ..

lemma ref_pdt_list: "ref_pdt s t = each_entry ref_page (pdt_refs s t)"
  unfolding ref_pdt_def pdt_refs_def table_refs_of_def
  by (rule ext, subst each_entry_concat [where f = ref_page]) (auto simp: ref_pt_list)

lemma ref_pdpt_list: "ref_pdpt s t = each_entry ref_page (pdpt_refs s t)"
  unfolding ref_pdpt_def pdpt_refs_def table_refs_of_def
  by (rule ext, subst each_entry_concat [where f = ref_page]) (auto simp: ref_pdt_list)

lemma ref_user_list: "ref_user s p = each_entry ref_page (user_refs s p)"
  unfolding ref_user_def user_refs_def
  by (rule ext, subst each_entry_concat [where f = ref_page]) (auto simp: ref_pdpt_list)

lemma user_refs_present: "e \<in> set (user_refs s p) \<Longrightarrow> present e"
  by (auto simp: user_refs_def pdpt_refs_def pdt_refs_def pt_refs_def table_refs_of_def split: if_splits)

text \<open>
  \<open>counted s es\<close>: the frames of the entries have counts, and the counts leave room for as many further references as there
  are entries.\<close>

definition counted :: "page_alloc \<Rightarrow> u64 list \<Rightarrow> bool" where
  "counted pg es \<longleftrightarrow> (\<forall>e \<in> set es. frame e < length (phys_alloc_table pg) \<and>
     0 < unat (phys_alloc_table pg ! frame e) \<and> unat (phys_alloc_table pg ! frame e) + length es < 2 ^ 32)"

lemma counted_frames: "map frame es = map frame es' \<Longrightarrow> counted pg es \<Longrightarrow> counted pg es'"
proof -
  assume eq: "map frame es = map frame es'" and c: "counted pg es"
  have len: "length es' = length es" using eq by (metis length_map)
  have "frame e \<in> frame ` set es" if "e \<in> set es'" for e using eq that by (metis image_eqI list.set_map)
  then show ?thesis using c len by (force simp: counted_def)
qed

lemma ref_user_ok:
  assumes "pa_inv pg" "counted pg (user_refs s p)"
  obtains pg' where "ref_user s p pg = Some pg'" "pa_inv pg'" "length (phys_alloc_table pg') = length (phys_alloc_table pg)"
    "\<And>k. k < length (phys_alloc_table pg) \<Longrightarrow> phys_alloc_table pg ! k \<noteq> 0 \<Longrightarrow>
      phys_alloc_table pg' ! k \<noteq> 0 \<and> unat (phys_alloc_table pg' ! k) \<le> unat (phys_alloc_table pg ! k) + length (user_refs s p)"
proof -
  let ?es = "user_refs s p"
  have eq: "each_entry (\<lambda>e pg. if present e then ref_page e pg else Some pg) ?es pg = each_entry ref_page ?es pg" for pg
    unfolding each_entry_filter using user_refs_present by (metis (mono_tags, lifting) filter_True)
  obtain pg' where pg': "ref_user s p pg = Some pg'" "counts_shift (\<lambda>k n. n + word_of_nat (refs ?es k)) pg pg'"
    using each_ref [OF assms(1), of ?es] assms(2) unfolding ref_user_list eq counted_def by blast
  have "phys_alloc_table pg' ! k \<noteq> 0 \<and> unat (phys_alloc_table pg' ! k) \<le> unat (phys_alloc_table pg ! k) + length ?es"
    if k: "k < length (phys_alloc_table pg)" "phys_alloc_table pg ! k \<noteq> 0" for k
  proof -
    let ?n = "phys_alloc_table pg ! k" and ?m = "refs ?es k"
    have "unat ?n + ?m < 2 ^ 32"
    proof (cases "?m = 0")
      case False
      then obtain e where "e \<in> set ?es" "frame e = k" by (auto simp: refs_def filter_empty_conv)
      moreover have "?m \<le> length ?es" by (simp add: refs_def)
      ultimately show ?thesis using assms(2) by (force simp: counted_def)
    qed (use unsigned_less [where 'a = nat, of ?n] in simp)
    then have "unat (?n + word_of_nat ?m) = unat ?n + ?m" by (simp add: unat_word_ariths unat_of_nat)
    moreover have "?m \<le> length ?es" by (simp add: refs_def)
    ultimately show ?thesis using pg'(2) k by (auto simp: counts_shift_def)
  qed
  then show thesis using that pg' by (auto simp: counts_shift_def)
qed

section \<open>The structures of the clone\<close>

text \<open>\<open>clone_base\<close> is the state when the new PML4T has been filled.\<close>

definition TL_entry :: "u64 \<Rightarrow> u64" where
  "TL_entry tlp = tlp - KERNEL_VMA OR PAGE_FLAG_PRESENT OR PAGE_FLAG_RW OR PAGE_FLAG_USER"

definition clone_cow :: "u64 \<Rightarrow> bool \<Rightarrow> u64 \<Rightarrow> vm_state \<Rightarrow> vm_state" where
  "clone_cow p cp tlp s = (if cp then mark_cow p user_indexes (clear_struct tlp s) else clear_struct tlp s)"

definition clone_base :: "u64 \<Rightarrow> bool \<Rightarrow> u64 \<Rightarrow> u64 \<Rightarrow> page_alloc \<Rightarrow> vm_state \<Rightarrow> vm_state" where
  "clone_base p cp n tlp pg s = set_entry n TL (TL_entry tlp) (copy_page n p ((clone_cow p cp tlp s)\<lparr>vm_pages := pg\<rparr>))"

lemma TL_entry_facts: assumes "struct_at t" shows "present (TL_entry t)" "table_at (TL_entry t) = t"
proof -
  obtain a where a: "t = PHYS_REL a" "page_aligned a" using assms by (auto simp: struct_at_def)
  have e: "TL_entry t = a OR (PAGE_FLAG_PRESENT OR PAGE_FLAG_RW OR PAGE_FLAG_USER OR 0)"
    by (simp add: TL_entry_def a(1) PHYS_REL_def LOW_PHYSICAL_BASE_VMA_def KERNEL_VMA_def or.assoc)
  have fl: "page_flags (PAGE_FLAG_PRESENT OR PAGE_FLAG_RW OR PAGE_FLAG_USER OR 0)"
    by (rule page_flags_or) (simp add: page_flags_def)
  show "present (TL_entry t)" using entry_flags(1) [OF a(2) fl] by (simp add: e PAGE_FLAG_PRESENT_def bit_or_iff)
  show "table_at (TL_entry t) = t" unfolding e using entry_flags [OF a(2) fl] entry_address [OF a(2) fl] a(1)
    by (simp add: table_at_def)
qed

lemma TL_value: "TL = 506" "\<not> TL < 256" "TL < 512"
  by (simp_all add: PML4T_INDEX_def THREAD_LOCAL_BASE_VMA_def)

definition clone_pre :: "u64 \<Rightarrow> u64 \<Rightarrow> u64 \<Rightarrow> vm_state \<Rightarrow> bool" where
  "clone_pre p n tlp s \<longleftrightarrow> vm_inv p s \<and> table_frame s n \<and> table_frame s tlp \<and> n \<noteq> tlp \<and>
     (\<forall>q. path 3 q \<longrightarrow> tbl s p q \<noteq> Some n \<and> tbl s p q \<noteq> Some tlp) \<and> counted (vm_pages s) (user_refs s p)"

lemma clone_preD:
  assumes "clone_pre p n tlp s"
  shows "struct_at p" "struct_at n" "struct_at tlp" "p \<noteq> n" "p \<noteq> tlp" "n \<noteq> tlp" "vm_inv p s"
    "\<And>q u. path 3 q \<Longrightarrow> tbl s p q = Some u \<Longrightarrow> u \<noteq> n \<and> u \<noteq> tlp \<and> struct_at u \<and> (q \<noteq> [] \<longrightarrow> u \<noteq> p)"
proof -
  have inv: "vm_inv p s" and t: "\<And>q. path 3 q \<Longrightarrow> tbl s p q \<noteq> Some n \<and> tbl s p q \<noteq> Some tlp" using assms by (auto simp: clone_pre_def)
  show "vm_inv p s" by (rule inv)
  show "struct_at p" using vm_invD(2) [OF inv, of "[]" p] table_frame_struct by simp
  show "struct_at n" "struct_at tlp" "n \<noteq> tlp" using assms table_frame_struct by (auto simp: clone_pre_def)
  show "p \<noteq> n" "p \<noteq> tlp" using t [of "[]"] by auto
  show "u \<noteq> n \<and> u \<noteq> tlp \<and> struct_at u \<and> (q \<noteq> [] \<longrightarrow> u \<noteq> p)" if "path 3 q" "tbl s p q = Some u" for q u
    using t [OF that(1)] that vm_invD(2) [OF inv that] table_frame_struct vm_invD(3) [OF inv that(1), of "[]" u] by auto
qed

lemma clone_cow_entry:
  assumes "clone_pre p n tlp s" "struct_at u" "j < 512"
  shows "entry (clone_cow p cp tlp s) u j = (if u = tlp then 0 else cow_if (cp \<and> u = p \<and> j < 256) (entry s u j))"
proof -
  note d = clone_preD [OF assms(1)]
  have "entry (mark_cow p user_indexes x) u j = cow_if (u = p \<and> j < 256) (entry x u j)" for x
    using mark_cow_entry [OF d(1) assms(2,3) user_indexes_facts(3,1)] user_indexes_facts(2) by simp
  then show ?thesis using entry_clear [OF d(3) assms(2,3)] d(5) by (auto simp: clone_cow_def cow_if_def)
qed

lemma clone_base_entry:
  assumes "clone_pre p n tlp s" "struct_at u" "j < 512"
  shows "entry (clone_base p cp n tlp pg s) u j =
    (if u = n then if j = TL then TL_entry tlp else cow_if (cp \<and> j < 256) (entry s p j)
     else if u = tlp then 0 else cow_if (cp \<and> u = p \<and> j < 256) (entry s u j))"
proof -
  note d = clone_preD [OF assms(1)]
  let ?c = "(clone_cow p cp tlp s)\<lparr>vm_pages := pg\<rparr>"
  have c: "entry ?c v j = entry (clone_cow p cp tlp s) v j" for v by (simp add: entry_def)
  show ?thesis
    using entry_set_entry [OF d(2) assms(2) TL_value(3) assms(3)] entry_copy_page [OF d(2) assms(2,3), of p ?c]
      clone_cow_entry [OF assms] clone_cow_entry [OF assms(1) d(1) assms(3)] d(4,5)
    by (auto simp: clone_base_def c)
qed

lemma clone_base_tbl:
  assumes "clone_pre p n tlp s"
  shows "path 3 q \<Longrightarrow> q \<noteq> [] \<Longrightarrow> tbl (clone_base p cp n tlp pg s) n q =
    (if last q = TL then if q = [TL] then Some tlp else None else tbl s p q)"
proof (induction q)
  case (Cons i q)
  note d = clone_preD [OF assms] and e = clone_base_entry [OF assms]
  have i: "i < 512" and q: "path 3 q" using Cons.prems(1) by (auto simp: path_def)
  show ?case
  proof (cases q)
    case Nil
    then show ?thesis using e [OF d(2) i] TL_entry_facts [OF d(3)] by (cases "i = TL") (simp_all add: no_table_def)
  next
    case (Cons k r)
    note IH = Cons.IH [OF q]
    have last: "last (i # q) = last q" using Cons by simp
    show ?thesis
    proof (cases "last q = TL")
      case True
      then show ?thesis using IH last Cons e [OF d(3) i] d(6) by (auto simp: no_table_def)
    next
      case False
      then have t: "tbl (clone_base p cp n tlp pg s) n q = tbl s p q" using IH Cons by simp
      have "entry (clone_base p cp n tlp pg s) u i = entry s u i" if "tbl s p q = Some u" for u
        using e [of u i] i d(8) [OF q that] Cons by (simp add: cow_if_def)
      then show ?thesis using t False last by (auto split: option.splits)
    qed
  qed
qed simp

lemma clone_base_inv:
  assumes "clone_pre p n tlp s" "pa_inv pg" "length (phys_alloc_table pg) = length (phys_alloc_table (vm_pages s))"
    and mono: "\<And>k. k < length (phys_alloc_table (vm_pages s)) \<Longrightarrow> phys_alloc_table (vm_pages s) ! k \<noteq> 0 \<Longrightarrow> phys_alloc_table pg ! k \<noteq> 0"
  shows "vm_inv n (clone_base p cp n tlp pg s)" "\<And>u. table_frame s u \<Longrightarrow> table_frame (clone_base p cp n tlp pg s) u"
proof -
  note d = clone_preD [OF assms(1)]
  let ?b = "clone_base p cp n tlp pg s"
  have vp: "vm_pages ?b = pg" by (simp add: clone_base_def copy_page_def set_entry_def)
  show tf: "table_frame ?b u" if "table_frame s u" for u
    using table_frame_mono [OF that, of ?b] assms(3) mono vp by auto
  have frames: "table_frame ?b t" if q: "path 3 q" and t: "tbl ?b n q = Some t" for q t
  proof (cases "q = []")
    case False
    then have "t = tlp \<or> tbl s p q = Some t" using clone_base_tbl [OF assms(1) q False] t by (auto split: if_splits)
    then show ?thesis using tf vm_invD(2) [OF d(7) q] assms(1) by (auto simp: clone_pre_def)
  qed (use t assms(1) tf in \<open>auto simp: clone_pre_def\<close>)
  have unique: "q = r" if q: "path 3 q" "tbl ?b n q = Some t" and r: "path 3 r" "tbl ?b n r = Some t" for q r t
  proof -
    have cls: "x = [] \<and> t = n \<or> x = [TL] \<and> t = tlp \<or> x \<noteq> [] \<and> tbl s p x = Some t" if "path 3 x" "tbl ?b n x = Some t" for x
      using clone_base_tbl [OF assms(1) that(1)] that by (cases "x = []") (auto split: if_splits)
    show ?thesis using cls [OF q] cls [OF r] d(6) d(8) [OF q(1)] d(8) [OF r(1)] vm_invD(3) [OF d(7) q(1) r(1)] by blast
  qed
  show "vm_inv n ?b" unfolding vm_inv_def vp using assms(2) frames unique by blast
qed

section \<open>Mapping pages of the clone touches no other structure\<close>

text \<open>
  \<open>own\<close> are the structures below the entry for thread-local memory. A step is \<open>kept\<close> when it changes no other structure that is in use, and new
  structures come from frames that were free.\<close>

definition own :: "u64 \<Rightarrow> vm_state \<Rightarrow> u64 set" where
  "own n x = {u. \<exists>q. path 3 q \<and> q \<noteq> [] \<and> last q = TL \<and> tbl x n q = Some u}"

definition kept :: "u64 \<Rightarrow> vm_state \<Rightarrow> vm_state \<Rightarrow> bool" where
  "kept n x y \<longleftrightarrow> vm_inv n y \<and> length (phys_alloc_table (vm_pages y)) = length (phys_alloc_table (vm_pages x)) \<and>
     (\<forall>k < length (phys_alloc_table (vm_pages x)). phys_alloc_table (vm_pages x) ! k \<noteq> 0 \<longrightarrow>
        phys_alloc_table (vm_pages y) ! k = phys_alloc_table (vm_pages x) ! k) \<and>
     (\<forall>u. table_frame x u \<longrightarrow> table_frame y u) \<and> (\<forall>u \<in> own n y. u \<in> own n x \<or> \<not> table_frame x u) \<and>
     (\<forall>u j. table_frame x u \<longrightarrow> u \<notin> own n x \<longrightarrow> j < 512 \<longrightarrow> (u, j) \<noteq> (n, TL) \<longrightarrow> entry y u j = entry x u j)"

lemma kept_refl: "vm_inv n x \<Longrightarrow> kept n x x"
  by (simp add: kept_def)

lemma kept_trans: assumes "kept n x y" "kept n y z" shows "kept n x z"
  unfolding kept_def
proof (intro conjI allI impI)
  note a = assms [unfolded kept_def]
  show "vm_inv n z" "length (phys_alloc_table (vm_pages z)) = length (phys_alloc_table (vm_pages x))" using a by simp_all
  show "phys_alloc_table (vm_pages z) ! k = phys_alloc_table (vm_pages x) ! k"
    if "k < length (phys_alloc_table (vm_pages x))" "phys_alloc_table (vm_pages x) ! k \<noteq> 0" for k using a that by simp
  show "table_frame z u" if "table_frame x u" for u using a that by blast
  show "\<forall>u \<in> own n z. u \<in> own n x \<or> \<not> table_frame x u" using a by blast
  show "entry z u j = entry x u j" if "table_frame x u" "u \<notin> own n x" "j < 512" "(u, j) \<noteq> (n, TL)" for u j using a that by metis
qed

lemma own_less:
  assumes "\<And>q u. path 3 q \<Longrightarrow> tbl y n q = Some u \<Longrightarrow> tbl x n q = Some u \<or> \<not> table_frame x u"
  shows "\<forall>u \<in> own n y. u \<in> own n x \<or> \<not> table_frame x u"
  using assms by (auto simp: own_def)

lemma store_in_own:
  assumes inv: "vm_inv n x" and q: "path 3 q" "i < 512" "last (i # q) = TL" and t: "tbl x n q = Some t"
  shows "q = [] \<and> t = n \<and> i = TL \<or> t \<in> own n x"
proof (cases "q = []")
  case False
  then show ?thesis using q t by (auto simp: own_def)
qed (use q t in auto)

lemma ensure_table_kept:
  assumes inv: "vm_inv n x" and q: "path 2 q" "i < 512" "last (i # q) = TL" and t: "tbl x n q = Some t" and fl: "page_flags fl"
    and run: "ensure_table t i fl x = Some (ok, y)"
  shows "kept n x y"
proof (cases "present (entry x t i)")
  case True
  then show ?thesis using run inv kept_refl by (simp add: ensure_table_def)
next
  case np: False
  have q3: "path 3 q" using q(1) by (rule path_mono) simp
  have st: "struct_at t" using vm_invD(2) [OF inv q3 t] by (rule table_frame_struct)
  have step: "vm_step n (i # q) x y" using ensure_table_ok [OF inv q(1,2) t fl] run by auto
  obtain a pg where al: "alloc_page (vm_pages x) = Some (a, pg)" "alloc_result (vm_pages x) a pg"
    using alloc_page_returns vm_invD(1) [OF inv] by blast
  let ?x0 = "x\<lparr>vm_pages := pg\<rparr>" and ?fl = "PAGE_FLAG_PRESENT OR PAGE_FLAG_RW OR PAGE_FLAG_USER OR fl"
  have vp: "vm_pages y = pg" using run np al(1)
    by (auto simp: ensure_table_def Let_def set_entry_def clear_struct_def split: if_splits)
  have mono: "table_frame x u \<longrightarrow> table_frame y u" for u
    using al(2) table_frame_mono [of x u y] vp by (auto simp: alloc_result_def nth_list_update split: if_splits)
  have cells: "entry y u j = entry x u j" if u: "table_frame x u" "(u, j) \<noteq> (t, i)" "j < 512" for u j
  proof -
    have su: "struct_at u" using u(1) by (rule table_frame_struct)
    have set: "entry (set_entry t i v s') u j = entry s' u j" for v s' using entry_set_entry [OF st su q(2) u(3)] u(2) by auto
    have x0: "entry ?x0 u j = entry x u j" by (simp add: entry_def)
    show ?thesis
    proof (cases "a = 0")
      case False
      then have "page_aligned a" "phys_alloc_table (vm_pages x) ! frame a = 0" using al(2) by (auto simp: alloc_result_def)
      then have ne: "u \<noteq> PHYS_REL a" "struct_at (PHYS_REL a)" using u(1) by (auto simp: table_frame_def struct_at_def PHYS_REL_def)
      have r1: "entry (set_entry t i a ?x0) t i = a" by (simp add: entry_def set_entry_def)
      show ?thesis using run np al(1) False set x0 entry_clear [OF ne(2) su u(3)] ne(1)
        by (auto simp: ensure_table_def Let_def r1)
    qed (use run np al(1) set x0 in \<open>auto simp: ensure_table_def Let_def\<close>)
  qed
  have new: "tbl x n r = Some u \<or> \<not> table_frame x u" if r: "path 3 r" "tbl y n r = Some u" for r u
  proof (cases "r = i # q")
    case True
    have "vm_inv n y" using step by (simp add: vm_step_def)
    show ?thesis
    proof (rule ccontr)
      assume no: "\<not> ?thesis"
      have ty: "tbl y n q = Some t" using vm_step_tbl [OF step q3] t by simp
      then have e: "present (entry y t i)" "u = table_at (entry y t i)" using r(2) True by (auto simp: no_table_def split: if_splits)
      have r1: "entry (set_entry t i a ?x0) t i = a" by (simp add: entry_def set_entry_def)
      have az: "a \<noteq> 0"
      proof
        assume "a = 0"
        then have "entry y t i = 0" using run np al(1) r1 by (auto simp: ensure_table_def Let_def)
        then show False using e by simp
      qed
      then have a: "page_aligned a" "phys_alloc_table (vm_pages x) ! frame a = 0" using al(2) by (auto simp: alloc_result_def)
      have tn: "t \<noteq> PHYS_REL a" using vm_invD(2) [OF inv q3 t] a by (auto simp: table_frame_def PHYS_REL_def)
      have sa: "struct_at (PHYS_REL a)" using a(1) by (auto simp: struct_at_def)
      have "entry y t i = a OR ?fl" using run np al(1) az entry_clear [OF sa st q(2), of "set_entry t i a ?x0"] tn r1
        by (auto simp: ensure_table_def Let_def) (simp add: entry_def set_entry_def or.assoc)
      then have "u = PHYS_REL a" using e(2) entry_address [OF a(1) page_flags_or [OF fl]] by (simp add: table_at_def)
      then show False using no a by (auto simp: table_frame_def PHYS_REL_def)
    qed
  next
    case False
    have "path 4 r" using r(1) by (rule path_mono) simp
    then have "r \<noteq> [] \<Longrightarrow> ent y n r = ent x n r" using step False by (simp add: vm_step_def)
    then have "tbl y n r = tbl x n r" by (cases r) (simp_all only: tbl.simps(1) tbl_ent, simp)
    then show ?thesis using r(2) by simp
  qed
  show ?thesis unfolding kept_def
  proof (intro conjI allI impI)
    show "vm_inv n y" using step by (simp add: vm_step_def)
    show "length (phys_alloc_table (vm_pages y)) = length (phys_alloc_table (vm_pages x))"
      using al(2) vp by (auto simp: alloc_result_def)
    show "phys_alloc_table (vm_pages y) ! k = phys_alloc_table (vm_pages x) ! k"
      if "k < length (phys_alloc_table (vm_pages x))" "phys_alloc_table (vm_pages x) ! k \<noteq> 0" for k
      using al(2) vp that by (auto simp: alloc_result_def nth_list_update split: if_splits)
    show "\<forall>u \<in> own n y. u \<in> own n x \<or> \<not> table_frame x u" by (rule own_less) (rule new)
    show "entry y u j = entry x u j" if u: "table_frame x u" "u \<notin> own n x" "j < 512" "(u, j) \<noteq> (n, TL)" for u j
    proof -
      have "(u, j) \<noteq> (t, i)" using u store_in_own [OF inv q3 q(2,3) t] by auto
      then show ?thesis using cells u by blast
    qed
  qed (use mono in blast)
qed

lemma vm_map_page_kept:
  assumes inv: "vm_inv n x" and v: "PML4T_INDEX v = TL" and fl: "page_flags (ucast flags)"
    and run: "vm_map_page n phys v flags x = Some (r, y)"
  shows "kept n x y"
proof (cases "canonical v")
  case False
  then show ?thesis using run inv kept_refl by (simp add: vm_map_page_def Let_def)
next
  case cn: True
  let ?i3 = "PDPT_INDEX v" and ?i2 = "PDT_INDEX v" and ?fl = "ucast flags :: u64"
  obtain ok1 s1 where s1: "ensure_table n TL ?fl x = Some (ok1, s1)" "vm_step n [TL] x s1" "ok1 \<longrightarrow> present (entry s1 n TL)"
    using ensure_table_ok [OF inv _ _ _ fl, of "[]" TL n] TL_value by auto
  have k1: "kept n x s1" using ensure_table_kept [OF inv _ TL_value(3) _ _ fl s1(1), of "[]"] by simp
  show ?thesis
  proof (cases ok1)
    case ok1: True
    let ?pdpt = "table_at (entry s1 n TL)"
    have inv1: "vm_inv n s1" using k1 by (simp add: kept_def)
    have t1: "tbl s1 n [TL] = Some ?pdpt" using vm_step_trans_tbl [OF s1(2)] s1(3) ok1 TL_value by simp
    obtain ok2 s2 where s2: "ensure_table ?pdpt ?i3 ?fl s1 = Some (ok2, s2)" "vm_step n [?i3, TL] s1 s2"
        "ok2 \<longrightarrow> present (entry s2 ?pdpt ?i3)"
      using ensure_table_ok [OF inv1 _ _ t1 fl, of ?i3] TL_value by (auto simp: numeral_eq_Suc)
    have k2: "kept n s1 s2" by (rule ensure_table_kept [OF inv1 _ _ _ t1 fl s2(1)]) (use TL_value in \<open>simp_all add: numeral_eq_Suc\<close>)
    have inv2: "vm_inv n s2" using k2 by (simp add: kept_def)
    show ?thesis
    proof (cases "ok2 \<and> \<not> large (entry s2 ?pdpt ?i3)")
      case ok2: True
      let ?pdt = "table_at (entry s2 ?pdpt ?i3)"
      have t2: "tbl s2 n [?i3, TL] = Some ?pdt"
        using vm_step_trans_tbl [OF s2(2) _ _ t1] s2(3) ok2 TL_value by (simp add: numeral_eq_Suc)
      obtain ok3 s3 where s3: "ensure_table ?pdt ?i2 ?fl s2 = Some (ok3, s3)" "vm_step n [?i2, ?i3, TL] s2 s3"
          "ok3 \<longrightarrow> present (entry s3 ?pdt ?i2)"
        using ensure_table_ok [OF inv2 _ _ t2 fl, of ?i2] TL_value by (auto simp: numeral_eq_Suc)
      have k3: "kept n s2 s3" by (rule ensure_table_kept [OF inv2 _ _ _ t2 fl s3(1)]) (use TL_value in \<open>simp_all add: numeral_eq_Suc\<close>)
      have inv3: "vm_inv n s3" using k3 by (simp add: kept_def)
      have k: "kept n x s3" using k1 k2 k3 kept_trans by blast
      show ?thesis
      proof (cases "ok3 \<and> \<not> large (entry s3 ?pdt ?i2)")
        case ok3: True
        let ?pt = "table_at (entry s3 ?pdt ?i2)" and ?q = "[?i2, ?i3, TL]"
        let ?e = "ALIGN_DOWN phys PAGE_SIZE OR PAGE_FLAG_PRESENT OR ?fl"
        have y: "y = set_entry ?pt (PT_INDEX v) ?e s3" using run s1(1) s2(1) s3(1) ok1 ok2 ok3 cn v by (simp add: vm_map_page_def Let_def)
        have t3: "tbl s3 n ?q = Some ?pt"
          using vm_step_trans_tbl [OF s3(2) _ _ t2] s3(3) ok3 TL_value by (simp add: numeral_eq_Suc)
        have q: "path 3 ?q" using TL_value by (simp add: numeral_eq_Suc)
        have st: "struct_at ?pt" using vm_invD(2) [OF inv3 q t3] by (rule table_frame_struct)
        have upd: "ent_upd n (PT_INDEX v # ?q) ?e s3 y \<and> vm_inv n y"
          unfolding y by (rule set_entry_ent [OF inv3 q _ t3]) simp_all
        have mine: "?pt \<in> own n s3" using t3 q by (auto simp: own_def)
        have tbl: "tbl y n r = tbl s3 n r" if "path 3 r" for r
          using tbl_update [OF conjunct1 [OF upd] that] that by (auto simp: path_def)
        have cells: "entry y u j = entry s3 u j" if u: "table_frame s3 u" "u \<notin> own n s3" "j < 512" for u j
          unfolding y using entry_set_entry [OF st table_frame_struct [OF u(1)] _ u(3), of "PT_INDEX v"] mine u(2) by auto
        have "kept n s3 y" unfolding kept_def
        proof (intro conjI allI impI)
          show "\<forall>u \<in> own n y. u \<in> own n s3 \<or> \<not> table_frame s3 u" by (rule own_less) (simp add: tbl)
          show "length (phys_alloc_table (vm_pages y)) = length (phys_alloc_table (vm_pages s3))" by (simp add: y set_entry_def)
          show "phys_alloc_table (vm_pages y) ! k = phys_alloc_table (vm_pages s3) ! k" for k by (simp add: y set_entry_def)
        qed (use upd cells y in auto)
        then show ?thesis using k kept_trans by blast
      qed (use run s1(1) s2(1) s3(1) ok1 ok2 cn v k in \<open>auto simp: vm_map_page_def Let_def split: if_splits\<close>)
    qed (use run s1(1) s2(1) ok1 cn v k1 k2 kept_trans in \<open>auto simp: vm_map_page_def Let_def split: if_splits\<close>)
  qed (use run s1(1) cn v k1 in \<open>auto simp: vm_map_page_def Let_def\<close>)
qed

text \<open>Changes to frames that were free are not seen.\<close>

lemma alloc_kept:
  assumes inv: "vm_inv n x" and al: "alloc_result (vm_pages x) a pg"
    and cells: "\<And>u j. table_frame x u \<Longrightarrow> j < 512 \<Longrightarrow> entry y u j = entry x u j" and vp: "vm_pages y = pg"
  shows "kept n x y"
proof -
  have mono: "table_frame x u \<longrightarrow> table_frame y u" for u
    using al table_frame_mono [of x u y] vp by (auto simp: alloc_result_def nth_list_update split: if_splits)
  have t: "tbl y n q = tbl x n q" if "path 3 q" for q
    using that
  proof (induction q)
    case (Cons i q)
    have q: "path 3 q" and i: "i < 512" using Cons.prems by (auto simp: path_def)
    then show ?case using Cons.IH cells vm_invD(2) [OF inv q] by (auto split: option.splits)
  qed simp
  have "vm_inv n y" using inv al mono unfolding vm_inv_def vp by (auto simp: t alloc_result_def)
  moreover have "\<forall>u \<in> own n y. u \<in> own n x \<or> \<not> table_frame x u" by (rule own_less) (simp add: t)
  moreover have "length (phys_alloc_table (vm_pages y)) = length (phys_alloc_table (vm_pages x))"
    using al vp by (auto simp: alloc_result_def)
  moreover have "phys_alloc_table (vm_pages y) ! k = phys_alloc_table (vm_pages x) ! k"
    if "k < length (phys_alloc_table (vm_pages x))" "phys_alloc_table (vm_pages x) ! k \<noteq> 0" for k
    using al vp that by (auto simp: alloc_result_def nth_list_update split: if_splits)
  ultimately show ?thesis using mono cells unfolding kept_def by blast
qed

lemma copy_page_kept:
  assumes inv: "vm_inv n x" and al: "alloc_result (vm_pages x) a pg" "a \<noteq> 0"
  shows "kept n x (copy_page (PHYS_REL a) src (x\<lparr>vm_pages := pg\<rparr>))"
proof (rule alloc_kept [OF inv al(1)])
  fix u j assume u: "table_frame x u" "j < (512 :: u64)"
  have a: "page_aligned a" "phys_alloc_table (vm_pages x) ! frame a = 0" using al by (auto simp: alloc_result_def)
  then have "u \<noteq> PHYS_REL a" "struct_at (PHYS_REL a)" using u(1) by (auto simp: table_frame_def struct_at_def PHYS_REL_def)
  then show "entry (copy_page (PHYS_REL a) src (x\<lparr>vm_pages := pg\<rparr>)) u j = entry x u j"
    using entry_copy_page [OF _ table_frame_struct [OF u(1)] u(2)] by (simp add: entry_def)
qed (simp add: copy_page_def)

section \<open>The clone\<close>

lemma kept_inv: "kept n x y \<Longrightarrow> vm_inv n y"
  by (simp add: kept_def)

lemma flags_ok: "page_flags (ucast (6 :: u32))" "page_flags (ucast (4 :: u32))"
  by (simp_all add: page_flags_def bit_iff_odd)

text \<open>Steps that keep the structures on a set of paths of a space keep its entries there.\<close>

lemma kept_ent:
  assumes k: "kept n x y"
    and G: "\<And>q u. path 3 q \<Longrightarrow> G q \<Longrightarrow> tbl x p q = Some u \<Longrightarrow> table_frame x u \<and> u \<notin> own n x \<and> (\<forall>j. G (j # q) \<longrightarrow> (u, j) \<noteq> (n, TL))"
    and closed: "\<And>i q. G (i # q) \<Longrightarrow> G q"
  shows "path 3 q \<Longrightarrow> G (i # q) \<Longrightarrow> i < 512 \<Longrightarrow> ent y p (i # q) = ent x p (i # q)"
proof -
  have cell: "entry y u j = entry x u j" if "path 3 q" "G (j # q)" "tbl x p q = Some u" "j < 512" for q u j
    using k G [OF that(1) closed [OF that(2)] that(3)] that(2,4) by (auto simp: kept_def)
  have t: "path 3 q \<Longrightarrow> G q \<Longrightarrow> tbl y p q = tbl x p q" for q
  proof (induction q)
    case (Cons i q)
    have q: "path 3 q" and i: "i < 512" using Cons.prems by (auto simp: path_def)
    then show ?case using Cons.IH [OF q closed [OF Cons.prems(2)]] cell [OF q Cons.prems(2) _ i] by (auto split: option.splits)
  qed simp
  show "path 3 q \<Longrightarrow> G (i # q) \<Longrightarrow> i < 512 \<Longrightarrow> ent y p (i # q) = ent x p (i # q)"
    using t closed cell by (auto split: option.splits)
qed

lemma xlat_by_ent:
  assumes "\<And>q i. path 3 q \<Longrightarrow> i < 512 \<Longrightarrow> last (i # q) = PML4T_INDEX w \<Longrightarrow> ent y p (i # q) = ent x p (i # q)"
  shows "vm_phys_addr p w y = vm_phys_addr p w x"
  unfolding vm_phys_addr_ent Let_def
  by (subst (1 2 3 4 5 6 7 8 9) assms) (simp_all add: numeral_eq_Suc del: ent.simps)

lemma kept_xlat:
  assumes k: "kept n x y" and inv: "vm_inv p x" and apart: "\<And>q u. path 3 q \<Longrightarrow> tbl x p q = Some u \<Longrightarrow> u \<notin> own n x \<and> u \<noteq> n"
  shows "vm_phys_addr p w y = vm_phys_addr p w x"
  by (rule xlat_by_ent, rule kept_ent [OF k, of "\<lambda>_. True"]) (use apart vm_invD(2) [OF inv] in auto)

lemma kept_own_xlat:
  assumes k: "kept n x y" and inv: "vm_inv n x" and w: "PML4T_INDEX w \<noteq> TL"
  shows "vm_phys_addr n w y = vm_phys_addr n w x"
proof (rule xlat_by_ent, rule kept_ent [OF k, of "\<lambda>q. q = [] \<or> last q \<noteq> TL"])
  fix q u assume q: "path 3 q" "q = [] \<or> last q \<noteq> TL" "tbl x n q = Some u"
  have "u \<notin> own n x" using vm_invD(3) [OF inv q(1) _ q(3)] q(2) by (auto simp: own_def)
  moreover have "u = n \<Longrightarrow> q = []" using vm_invD(3) [OF inv q(1), of "[]" n] q(3) by simp
  ultimately show "table_frame x u \<and> u \<notin> own n x \<and> (\<forall>j. j # q = [] \<or> last (j # q) \<noteq> TL \<longrightarrow> (u, j) \<noteq> (n, TL))"
    using vm_invD(2) [OF inv q(1,3)] by auto
qed (use w in \<open>auto split: if_splits\<close>)

text \<open>The state when the new PML4T has been filled: both spaces translate as the original did.\<close>

lemma xlat_pair:
  assumes "present (ent y n [PML4T_INDEX w]) = present (ent x p [PML4T_INDEX w])"
    and "\<And>q i. path 3 q \<Longrightarrow> q \<noteq> [] \<Longrightarrow> i < 512 \<Longrightarrow> last q = PML4T_INDEX w \<Longrightarrow> ent y n (i # q) = ent x p (i # q)"
  shows "vm_phys_addr n w y = vm_phys_addr p w x"
  unfolding vm_phys_addr_ent Let_def assms(1)
  by (subst (1 2 3 4 5 6 7 8) assms(2)) (simp_all add: numeral_eq_Suc del: ent.simps)

lemma clone_base_old_tbl:
  assumes "clone_pre p n tlp s"
  shows "path 3 q \<Longrightarrow> tbl (clone_base p cp n tlp pg s) p q = tbl s p q"
proof (induction q)
  case (Cons i q)
  note d = clone_preD [OF assms] and e = clone_base_entry [OF assms]
  have i: "i < 512" and q: "path 3 q" using Cons.prems by (auto simp: path_def)
  have "no_table q (entry (clone_base p cp n tlp pg s) u i) = no_table q (entry s u i) \<and>
      table_at (entry (clone_base p cp n tlp pg s) u i) = table_at (entry s u i)" if t: "tbl s p q = Some u" for u
    using e [of u i] i d(8) [OF q t] by (cases "q = []") (auto simp: no_table_def cow_if_def)
  then show ?case using Cons.IH [OF q] by (auto split: option.splits)
qed simp

lemma clone_base_deep:
  assumes "clone_pre p n tlp s" "path 3 q" "q \<noteq> []" "i < 512"
  shows "ent (clone_base p cp n tlp pg s) p (i # q) = ent s p (i # q)"
    "last q \<noteq> TL \<Longrightarrow> ent (clone_base p cp n tlp pg s) n (i # q) = ent s p (i # q)"
proof -
  note d = clone_preD [OF assms(1)] and e = clone_base_entry [OF assms(1)]
  have "entry (clone_base p cp n tlp pg s) u i = entry s u i" if "tbl s p q = Some u" for u
    using e [of u i] assms(3,4) d(8) [OF assms(2) that] by (simp add: cow_if_def)
  then show "ent (clone_base p cp n tlp pg s) p (i # q) = ent s p (i # q)"
    "last q \<noteq> TL \<Longrightarrow> ent (clone_base p cp n tlp pg s) n (i # q) = ent s p (i # q)"
    using clone_base_old_tbl [OF assms(1,2)] clone_base_tbl [OF assms(1-3)] by (auto split: option.splits)
qed

lemma clone_base_xlat:
  assumes "clone_pre p n tlp s"
  shows "vm_phys_addr p w (clone_base p cp n tlp pg s) = vm_phys_addr p w s"
    "PML4T_INDEX w \<noteq> TL \<Longrightarrow> vm_phys_addr n w (clone_base p cp n tlp pg s) = vm_phys_addr p w s"
proof -
  note d = clone_preD [OF assms] and e = clone_base_entry [OF assms]
  show "vm_phys_addr p w (clone_base p cp n tlp pg s) = vm_phys_addr p w s"
    by (rule xlat_pair, simp add: e d(1,4,5)) (rule clone_base_deep(1) [OF assms])
  show "vm_phys_addr n w (clone_base p cp n tlp pg s) = vm_phys_addr p w s" if w: "PML4T_INDEX w \<noteq> TL"
    by (rule xlat_pair, simp add: e d(2) w) (rule clone_base_deep(2) [OF assms], use w in simp_all)
qed

text \<open>The references counted are those of the original space.\<close>

lemma table_refs_cong: "(\<And>e. e \<in> set es \<Longrightarrow> present e \<Longrightarrow> \<not> large e \<Longrightarrow> f (table_at e) = g (table_at e)) \<Longrightarrow>
  table_refs_of f es = table_refs_of g es"
  unfolding table_refs_of_def by (rule arg_cong [where f = concat], rule map_cong) auto

lemma clone_cow_refs:
  assumes "clone_pre p n tlp s"
  shows "map frame (user_refs (clone_cow p cp tlp s) p) = map frame (user_refs s p)"
proof -
  let ?c = "clone_cow p cp tlp s"
  note d = clone_preD [OF assms]
  have small: "(word_of_nat k :: u64) < 512" if "k < 512" for k using that by (simp add: word_less_nat_alt unat_of_nat)
  have deep: "entries ?c u PAGE_STRUCT_ENTRIES = entries s u PAGE_STRUCT_ENTRIES" if "path 3 q" "q \<noteq> []" "tbl s p q = Some u" for q u
    using clone_cow_entry [OF assms, of u] d(8) [OF that(1,3)] that(2) small by (auto simp: entries_def PAGE_STRUCT_ENTRIES_def cow_if_def)
  have next': "\<exists>i < 512. tbl s p (i # q) = Some (table_at e)"
    if h: "path 3 q" "q \<noteq> []" "tbl s p q = Some u" "e \<in> set (entries s u PAGE_STRUCT_ENTRIES)" "present e" "\<not> large e" for q u e
  proof -
    obtain i where i: "i < 512" "e = ent s p (i # q)" using entries_path [OF h(3,1,4)] by blast
    then have "tbl s p (i # q) = Some (table_at e)" using h(5,6) by (simp only: tbl_ent no_table_def) simp
    then show ?thesis using i(1) by blast
  qed
  have pt: "pt_refs ?c u = pt_refs s u" if "path 3 q" "q \<noteq> []" "tbl s p q = Some u" for q u
    using deep [OF that] by (simp add: pt_refs_def)
  have pdt: "pdt_refs ?c u = pdt_refs s u" if q: "path 2 q" "q \<noteq> []" "tbl s p q = Some u" for q u
  proof -
    have q3: "path 3 q" using q(1) by (rule path_mono) simp
    show ?thesis unfolding pdt_refs_def deep [OF q3 q(2,3)]
    proof (rule table_refs_cong)
      fix e assume "e \<in> set (entries s u PAGE_STRUCT_ENTRIES)" "present e" "\<not> large e"
      then obtain i where "i < 512" "tbl s p (i # q) = Some (table_at e)" using next' [OF q3 q(2,3)] by blast
      then show "pt_refs ?c (table_at e) = pt_refs s (table_at e)" using q(1) by (intro pt [of "i # q"]) (simp_all add: numeral_eq_Suc)
    qed
  qed
  have pdpt: "pdpt_refs ?c u = pdpt_refs s u" if q: "i < 512" "tbl s p [i] = Some u" for i u
  proof -
    have q3: "path 3 [i]" using q(1) by (simp add: numeral_eq_Suc)
    show ?thesis unfolding pdpt_refs_def deep [OF q3 _ q(2), simplified]
    proof (rule table_refs_cong)
      fix e assume "e \<in> set (entries s u PAGE_STRUCT_ENTRIES)" "present e" "\<not> large e"
      then obtain k where "k < 512" "tbl s p [k, i] = Some (table_at e)" using next' [OF q3 _ q(2)] by blast
      then show "pdt_refs ?c (table_at e) = pdt_refs s (table_at e)" using q(1) by (intro pdt [of "[k, i]"]) (simp_all add: numeral_eq_Suc)
    qed
  qed
  have root: "entry ?c p (word_of_nat k) = cow_if cp (entry s p (word_of_nat k))" if "k < 256" for k
    using clone_cow_entry [OF assms d(1), of "word_of_nat k" cp] d(5) that by (simp add: word_less_nat_alt unat_of_nat)
  have step: "map frame (if present e then e # pdpt_refs ?c (table_at e) else []) =
      map frame (if present e' then e' # pdpt_refs s (table_at e') else [])"
    if k: "k < 256" "e = entry ?c p (word_of_nat k)" "e' = entry s p (word_of_nat k)" for k e e'
  proof (cases "present e'")
    case True
    then have "tbl s p [word_of_nat k] = Some (table_at e')" using k(3) by (simp add: no_table_def)
    then show ?thesis using pdpt [of "word_of_nat k"] small k root by simp
  qed (use k root in simp)
  show ?thesis unfolding user_refs_def entries_def map_concat map_map comp_def
    by (rule arg_cong [where f = concat], rule map_cong [OF refl], rule step) (simp_all add: PAGE_STRUCT_ENTRIES_def)
qed

text \<open>Addresses of the thread-local part.\<close>

lemma TL_range: "0xfffffd0000000000 \<le> v \<Longrightarrow> v < 0xfffffd8000000000 \<Longrightarrow> PML4T_INDEX v = TL"
proof -
  assume "0xfffffd0000000000 \<le> v" "v < 0xfffffd8000000000"
  then have "unat v div 2 ^ 39 = 0x1fffffa" by (simp add: word_le_nat_alt word_less_nat_alt)
  then have "unat (drop_bit 39 v) = 0x1fffffa" by (simp add: unat_drop_bit_eq drop_bit_nat_def)
  then have "drop_bit 39 v = 0x1fffffa" by (intro word_eq_by_unat) simp
  then show ?thesis unfolding TL_value(1) by (simp add: PML4T_INDEX_def)
qed

lemma kernel_stack_TL:
  assumes "t = INTERRUPT_STACK_TOP_VMA \<or> t = SYSCALL_STACK_TOP_VMA" "a \<in> set (kernel_stack_pages t)"
  shows "PML4T_INDEX a = TL"
proof (rule TL_range)
  obtain i where i: "i < 256" "a = t - (PAGE_SIZE + PAGE_SIZE * word_of_nat i)"
    using assms(2) by (auto simp: kernel_stack_pages_def KERNEL_STACK_SIZE_def)
  have u: "unat (PAGE_SIZE + PAGE_SIZE * word_of_nat i) = 4096 + 4096 * i" using i(1)
    by (simp add: PAGE_SIZE_def unat_word_ariths unat_of_nat)
  then have "unat a = unat t - (4096 + 4096 * i)" using i assms(1)
    by (auto simp: unat_minus64 word_le_nat_alt INTERRUPT_STACK_TOP_VMA_def SYSCALL_STACK_TOP_VMA_def)
  then show "0xfffffd0000000000 \<le> a" "a < 0xfffffd8000000000" using i(1) assms(1)
    by (auto simp: word_le_nat_alt word_less_nat_alt INTERRUPT_STACK_TOP_VMA_def SYSCALL_STACK_TOP_VMA_def)
qed

lemma tl_kernel_data_kept:
  assumes inv: "vm_inv n x" and st: "\<And>y. kept n x y \<Longrightarrow> vm_phys_addr cur tramp y = st"
    and fr: "frame st < length (phys_alloc_table (vm_pages x))" "phys_alloc_table (vm_pages x) ! frame st \<noteq> 0"
      "unat (phys_alloc_table (vm_pages x) ! frame st) + 1 < 2 ^ 32"
  shows "\<exists>ok y. thread_alloc_tl_kernel_data cur tramp n x = Some (ok, y) \<and>
    (ok \<longrightarrow> vm_inv n y \<and> (\<exists>z pg. kept n x z \<and> y = z\<lparr>vm_pages := pg\<rparr>))"
proof -
  obtain c pg where al: "alloc_page (vm_pages x) = Some (c, pg)" "alloc_result (vm_pages x) c pg"
    using alloc_page_returns vm_invD(1) [OF inv] by blast
  let ?x = "x\<lparr>vm_pages := pg\<rparr>"
  have k0: "kept n x ?x" by (rule alloc_kept [OF inv al(2)]) (simp_all add: entry_def)
  have idx: "PML4T_INDEX SIGINFO_VMA = TL" "PML4T_INDEX SIGNAL_TRAMPOLINE_VMA = TL"
    by (simp_all add: PML4T_INDEX_def SIGINFO_VMA_def SIGNAL_TRAMPOLINE_VMA_def THREAD_LOCAL_BASE_VMA_def)
  obtain r y where y: "vm_map_page n c SIGINFO_VMA 6 ?x = Some (r, y)" using vm_map_page_ok [OF kept_inv [OF k0] flags_ok(1)] by blast
  have k1: "kept n ?x y" by (rule vm_map_page_kept [OF kept_inv [OF k0] idx(1) flags_ok(1) y])
  obtain r' z where z: "vm_map_page n st SIGNAL_TRAMPOLINE_VMA 4 y = Some (r', z)"
    using vm_map_page_ok [OF kept_inv [OF k1] flags_ok(2)] by blast
  have k2: "kept n y z" by (rule vm_map_page_kept [OF kept_inv [OF k1] idx(2) flags_ok(2) z])
  have k: "kept n x z" using k0 k1 k2 kept_trans by blast
  have cz: "length (phys_alloc_table (vm_pages z)) = length (phys_alloc_table (vm_pages x))"
    "phys_alloc_table (vm_pages z) ! frame st = phys_alloc_table (vm_pages x) ! frame st" using k fr by (auto simp: kept_def)
  have invz: "vm_inv n z" using kept_inv [OF k] .
  show ?thesis
  proof (cases "c \<noteq> 0 \<and> r = Map_ok")
    case ok: True
    have run: "thread_alloc_tl_kernel_data cur tramp n x = map_option (\<lambda>pg. (True, z\<lparr>vm_pages := pg\<rparr>)) (ref_page st (vm_pages z))"
      using al(1) y z st [OF k0] ok by (simp add: thread_alloc_tl_kernel_data_def Let_def)
    show ?thesis
    proof (cases "st = 0")
      case True
      then have "thread_alloc_tl_kernel_data cur tramp n x = Some (True, z\<lparr>vm_pages := vm_pages z\<rparr>)"
        using run by (simp only: ref_page_def) simp
      moreover have "vm_inv n (z\<lparr>vm_pages := vm_pages z\<rparr>)" using invz by simp
      ultimately show ?thesis using k by blast
    next
      case False
      obtain pg' where pg': "ref_page st (vm_pages z) = Some pg'" "pa_inv pg'"
        "phys_alloc_table pg' = (phys_alloc_table (vm_pages z))[frame st := phys_alloc_table (vm_pages z) ! frame st + 1]"
        using ref_page_ok [OF vm_invD(1) [OF invz] False] cz fr by auto
      have "unat (phys_alloc_table (vm_pages x) ! frame st + 1) = unat (phys_alloc_table (vm_pages x) ! frame st) + 1"
        using fr(3) by (simp add: unat_word_ariths)
      then have nz: "phys_alloc_table (vm_pages x) ! frame st + 1 \<noteq> 0" by (metis Suc_eq_plus1 nat.distinct(1) unat_0)
      have "phys_alloc_table pg' ! i \<noteq> 0" if "i < length (phys_alloc_table (vm_pages z))" "phys_alloc_table (vm_pages z) ! i \<noteq> 0" for i
        using that pg'(3) cz nz by (cases "i = frame st") simp_all
      then have "table_frame (z\<lparr>vm_pages := pg'\<rparr>) u" if "table_frame z u" for u
        using table_frame_mono [OF that, of "z\<lparr>vm_pages := pg'\<rparr>"] that pg'(3) by simp
      then have "vm_inv n (z\<lparr>vm_pages := pg'\<rparr>)" using invz pg'(2) unfolding vm_inv_def tbl_pages by auto
      then show ?thesis using run pg'(1) k by auto
    qed
  next
    case False
    then have "thread_alloc_tl_kernel_data cur tramp n x = Some (False, if c = 0 then ?x else y)"
      using al(1) y by (auto simp: thread_alloc_tl_kernel_data_def Let_def)
    then show ?thesis by (intro exI [of _ False] exI [of _ "if c = 0 then ?x else y"]) simp
  qed
qed

text \<open>A small memory and the stack of a thread, for examples.\<close>

definition clone_start :: vm_state where
  "clone_start = \<lparr>vm_pages = pages_at [1, 1, 1, 1, 0, 0, 0] 0x4000, vm_cells = (\<lambda>_. 0)\<rparr>"

definition clone_args :: thread_args where
  "clone_args = \<lparr>ta_pml4t = empty_pml4t, ta_stack = 0, ta_stack_base = 0xfffffd7ffff00000, ta_stack_size = 0x1000\<rparr>"

end
