(* ===== verification/Pml_Process.thy ===== *)
theory Pml_Process
  imports Pml_Thread Pml_Fd Pml_Bytes "HOL-Library.Monad_Syntax"
begin

text \<open>
  The life of processes: the queue of processes and the switch to the next thread
  (arch/x86_64/thread.c), forking, enqueueing and freeing processes (kernel/process.c), termination
  (arch/x86_64/exit.c) and waiting for children (kernel/wait.c). The process structures are in a store
  indexed by their addresses; the arrays \<open>children\<close> and \<open>waits\<close> have their length beside them, as in
  the code, and the wait states are the bytes of the array, because \<open>do_wait\<close> moves them by bytes.
  \<open>None\<close> means that the kernel panics, uses memory that has been freed or lies outside of an array,
  or does not return.
\<close>

section \<open>State\<close>

record mmap =
  mm_base :: u64
  mm_len :: u64
  mm_prot :: u32
  mm_file :: "nat option"
  mm_fd :: int
  mm_offset :: int
  mm_flags :: u32

record proc = process +
  pr_cwd :: "nat option"
  pr_threads :: "task list"
  pr_tfront :: nat
  pr_priority :: int
  pr_brk :: brk
  pr_mmaps :: "mmap list"
  pr_children :: "int list"
  pr_nchildren :: nat
  pr_waits :: "u8 list"
  pr_nwaits :: nat
  pr_rusage :: "u8 list"

record sched =
  sc_procs :: "nat \<Rightarrow> proc"
  sc_pids :: "nat hashmap"
  sc_queue :: "nat list"
  sc_len :: nat
  sc_front :: nat
  exit_process :: nat
  exit_status :: int
  sc_fds :: fd_state
  sc_env :: thread_env

definition PROCESS_WAIT_RUNNING :: nat where "PROCESS_WAIT_RUNNING = 0"
definition PROCESS_WAIT_EXITED :: nat where "PROCESS_WAIT_EXITED = 1"
definition PROCESS_WAIT_SIGNALED :: nat where "PROCESS_WAIT_SIGNALED = 2"
definition PROCESS_WAIT_STOPPED :: nat where "PROCESS_WAIT_STOPPED = 4"

definition THIS_PROCESS :: "sched \<Rightarrow> nat option" where
  "THIS_PROCESS s = (if sc_front s < length (sc_queue s) then Some (sc_queue s ! sc_front s) else None)"

definition upd_proc :: "nat \<Rightarrow> (proc \<Rightarrow> proc) \<Rightarrow> sched \<Rightarrow> sched" where
  "upd_proc a f s = s\<lparr>sc_procs := (sc_procs s)(a := f (sc_procs s a))\<rparr>"

definition sc_take_alloc :: "sched \<Rightarrow> bool \<times> sched" where
  "sc_take_alloc s = (let (ok, al) = take_alloc (te_alloc (sc_env s)) in (ok, s\<lparr>sc_env := (sc_env s)\<lparr>te_alloc := al\<rparr>\<rparr>))"


definition in_env :: "(thread_env \<Rightarrow> thread_env option) \<Rightarrow> sched \<Rightarrow> sched option" where
  "in_env f s = map_option (\<lambda>e. s\<lparr>sc_env := e\<rparr>) (f (sc_env s))"

section \<open>Switching threads\<close>

text \<open>The step of the loop in \<open>thread_switch\<close>, and whether the thread it leads to can run.\<close>

definition switch_step :: "sched \<Rightarrow> sched option" where
  "switch_step s = do {
     a \<leftarrow> THIS_PROCESS s;
     let p = sc_procs s a;
     let j = Suc (pr_tfront p);
     if exit_process s = sc_front s \<or> j = length (pr_threads p)
     then Some ((upd_proc a (\<lambda>p. p\<lparr>pr_tfront := 0\<rparr>) s)\<lparr>sc_front := (if Suc (sc_front s) = sc_len s then 0 else Suc (sc_front s))\<rparr>)
     else Some (upd_proc a (\<lambda>p. p\<lparr>pr_tfront := j\<rparr>) s)
   }"

definition THIS_THREAD :: "sched \<Rightarrow> task option" where
  "THIS_THREAD s = do {
     a \<leftarrow> THIS_PROCESS s;
     let p = sc_procs s a;
     if pr_tfront p < length (pr_threads p) then Some (pr_threads p ! pr_tfront p) else None
   }"

partial_function (option) thread_switch :: "sched \<Rightarrow> sched option" where
  "thread_switch s = do {
     s \<leftarrow> switch_step s;
     t \<leftarrow> THIS_THREAD s;
     if t_run t \<noteq> THREAD_STATE_RUNNING then thread_switch s else Some s
   }"

section \<open>Processes\<close>

definition process_zero :: proc where
  "process_zero = \<lparr>p_pid = 0, p_ppid = 0, p_pgid = 0, p_sid = 0, p_uid = 0, p_euid = 0, p_suid = 0, p_gid = 0, p_egid = 0, p_sgid = 0,
     p_sup_gids = replicate NGROUPS_MAX 0, p_nsup_gids = 0, pr_cwd = None, pr_threads = [], pr_tfront = 0, pr_priority = 0,
     pr_brk = \<lparr>brk_base = 0, brk_curr = 0, brk_max = 0\<rparr>, pr_mmaps = [], pr_children = [], pr_nchildren = 0, pr_waits = [], pr_nwaits = 0,
     pr_rusage = replicate 144 0\<rparr>"




primrec free_threads :: "task list \<Rightarrow> sched \<Rightarrow> sched option" where
  "free_threads [] s = Some s"
| "free_threads (t # ts) s = Option.bind (in_env (thread_free t) s) (free_threads ts)"

primrec close_fds :: "nat \<Rightarrow> nat list \<Rightarrow> sched \<Rightarrow> sched option" where
  "close_fds a [] s = Some s"
| "close_fds a (i # is) s =
     Option.bind (map_option (\<lambda>f. s\<lparr>sc_fds := f\<rparr>) (free_altprocfd a i (sc_fds s))) (close_fds a is)"

text \<open>The loop that removes a child from the table of its parent.\<close>

definition remove_child :: "int \<Rightarrow> proc \<Rightarrow> proc option" where
  "remove_child pid p =
     (if length (pr_children p) < pr_nchildren p then None
      else if pid \<in> set (take (pr_nchildren p) (pr_children p))
      then Some (p\<lparr>pr_children := remove1 pid (pr_children p), pr_nchildren := pr_nchildren p - 1\<rparr>)
      else Some p)"

primrec reparent :: "int list \<Rightarrow> sched \<Rightarrow> sched option" where
  "reparent [] s = Some s"
| "reparent (c # cs) s = do {
     r \<leftarrow> lookup_pid (sc_pids s) c;
     reparent cs (case r of None \<Rightarrow> s | Some a \<Rightarrow> upd_proc a (\<lambda>p. p\<lparr>p_ppid := 1\<rparr>) s)
   }"

text \<open>Handing the children of a process that ends to process 1; a failed allocation panics.\<close>

definition give_to_init :: "proc \<Rightarrow> sched \<Rightarrow> sched option" where
  "give_to_init p s =
     (if pr_nchildren p = 0 then Some s
      else do {
        r \<leftarrow> lookup_pid (sc_pids s) 1;
        case r of None \<Rightarrow> Some s
        | Some ini \<Rightarrow>
            (let (ok, s) = sc_take_alloc s; q = sc_procs s ini; cs = take (pr_nchildren p) (pr_children p) in
             if \<not> ok \<or> length (pr_children p) < pr_nchildren p \<or> length (pr_children q) < pr_nchildren q then None
             else reparent cs (upd_proc ini (\<lambda>q. q\<lparr>pr_children := take (pr_nchildren q) (pr_children q) @ cs,
                                                   pr_nchildren := pr_nchildren q + pr_nchildren p\<rparr>) s))
      })"

definition process_free :: "nat \<Rightarrow> sched \<Rightarrow> sched option" where
  "process_free a s =
     (let p = sc_procs s a in do {
        s \<leftarrow> (case pr_threads p of [] \<Rightarrow> Some s | t # ts \<Rightarrow> in_env (thread_unmap_user_mem t) s);
        s \<leftarrow> free_threads (pr_threads p) s;
        m \<leftarrow> unmap_pid (sc_pids s) (p_pid p);
        let s = s\<lparr>sc_pids := m\<rparr>;
        s \<leftarrow> close_fds a [0..<ft_size (proc_fds (sc_fds s) a)] s;
        r \<leftarrow> lookup_pid (sc_pids s) (p_ppid p);
        s \<leftarrow> (case r of None \<Rightarrow> Some s
              | Some parent \<Rightarrow> map_option (\<lambda>q. upd_proc parent (\<lambda>_. q) s) (remove_child (p_pid p) (sc_procs s parent)));
        give_to_init (sc_procs s a) s
      })"

definition process_exit :: "nat \<Rightarrow> sched \<Rightarrow> sched option" where
  "process_exit index s =
     (if index \<ge> length (sc_queue s) \<or> index \<ge> sc_len s then None
      else map_option (\<lambda>s. s\<lparr>sc_queue := take index (sc_queue s) @ drop (Suc index) (sc_queue s), sc_len := sc_len s - 1,
                             sc_front := (if sc_front s > index then sc_front s - 1 else sc_front s)\<rparr>)
             (process_free (sc_queue s ! index) s))"

text \<open>
  The tick of the scheduler (arch/x86_64/sched.S): it switches threads and then frees the process that has ended. The lock
  against switches is open; registers and interrupt controllers are left out.\<close>

definition sched_tick :: "sched \<Rightarrow> sched option" where
  "sched_tick s = do {
     s \<leftarrow> thread_switch s;
     if exit_process s = 0 then Some s
     else process_exit (exit_process s) (s\<lparr>exit_process := 0, exit_status := 0\<rparr>)
   }"


section \<open>Forking\<close>







section \<open>Termination and waiting\<close>

definition int_bytes :: "int \<Rightarrow> u8 list" where
  "int_bytes i = put_le 4 (nat (i mod 2 ^ 32))"

definition bytes_int :: "u8 list \<Rightarrow> nat \<Rightarrow> int" where
  "bytes_int b off = (let n = int (get_le b off 4) in if n \<ge> 2 ^ 31 then n - 2 ^ 32 else n)"

text \<open>A wait state has the fields pid, pgid, rusage (144 bytes), status and code.\<close>

definition wait_state :: "int \<Rightarrow> int \<Rightarrow> u8 list \<Rightarrow> nat \<Rightarrow> int \<Rightarrow> u8 list" where
  "wait_state pid pgid ru status code = int_bytes pid @ int_bytes pgid @ ru @ int_bytes (int status) @ int_bytes code"

text \<open>The process group recorded is that of the parent, whose structure the variable denotes at this point.\<close>

definition process_fill_wait :: "nat \<Rightarrow> nat \<Rightarrow> int \<Rightarrow> sched \<Rightarrow> sched option" where
  "process_fill_wait a mode status s = do {
     let target = p_pid (sc_procs s a);
     r \<leftarrow> lookup_pid (sc_pids s) (p_ppid (sc_procs s a));
     case r of None \<Rightarrow> Some s
     | Some parent \<Rightarrow> do {
         let (ok, s) = sc_take_alloc s;
         this \<leftarrow> THIS_PROCESS s;
         let q = sc_procs s parent;
         if \<not> ok \<or> length (pr_waits q) < 160 * pr_nwaits q then None
         else Some (upd_proc parent (\<lambda>q. q\<lparr>pr_waits := take (160 * pr_nwaits q) (pr_waits q) @
                      wait_state target (p_pgid q) (pr_rusage (sc_procs s this)) mode status, pr_nwaits := Suc (pr_nwaits q)\<rparr>) s)
       }
   }"

text \<open>The state in which \<open>process_kill\<close> gives up the processor for good.\<close>

definition process_kill :: "nat \<Rightarrow> int \<Rightarrow> sched \<Rightarrow> sched option" where
  "process_kill mode status s = do {
     this \<leftarrow> THIS_PROCESS s;
     s \<leftarrow> process_fill_wait this mode status s;
     Some (s\<lparr>exit_process := sc_front s, exit_status := (if mode \<noteq> PROCESS_WAIT_EXITED then or status 0x80 else status)\<rparr>)
   }"

definition sys_exit :: "int \<Rightarrow> sched \<Rightarrow> sched option" where
  "sys_exit status s = process_kill PROCESS_WAIT_EXITED status s"

definition wait_matches :: "int \<Rightarrow> int \<Rightarrow> u8 list \<Rightarrow> bool" where
  "wait_matches pid pgid w \<longleftrightarrow> \<not> (pid > 0 \<and> bytes_int w 0 \<noteq> pid) \<and> bytes_int w 152 \<noteq> int PROCESS_WAIT_RUNNING \<and>
     \<not> (pid = 0 \<and> bytes_int w 4 \<noteq> pgid)"

primrec wait_scan :: "int \<Rightarrow> int \<Rightarrow> u8 list \<Rightarrow> nat \<Rightarrow> nat \<Rightarrow> nat option option" where
  "wait_scan pid pgid ws i 0 = Some None"
| "wait_scan pid pgid ws i (Suc n) =
     (if length ws < 160 * Suc i then None
      else if wait_matches pid pgid (take 160 (drop (160 * i) ws)) then Some (Some i) else wait_scan pid pgid ws (Suc i) n)"

text \<open>The bytes moved down are as many as there are states behind the one that is removed.\<close>

definition wait_remove :: "nat \<Rightarrow> nat \<Rightarrow> u8 list \<Rightarrow> u8 list option" where
  "wait_remove i len ws =
     (let n = len - 1 - i in
      if n > 0 \<and> length ws < 160 * Suc i + n then None
      else Some (take (160 * i) ws @ take n (drop (160 * Suc i) ws) @ drop (160 * i + n) ws))"

definition wait_status :: "u8 list \<Rightarrow> int" where
  "wait_status w = bytes_int w 156 mod 256 * 256 +
     (if bytes_int w 152 = int PROCESS_WAIT_SIGNALED then 1 else if bytes_int w 152 = int PROCESS_WAIT_STOPPED then 0x7f else 0)"

text \<open>The result, and the status and resource usage stored when it is not 0.\<close>

definition do_wait :: "int \<Rightarrow> sched \<Rightarrow> (int \<times> int \<times> u8 list \<times> sched) option" where
  "do_wait pid s = do {
     this \<leftarrow> THIS_PROCESS s;
     let p = sc_procs s this;
     r \<leftarrow> wait_scan pid (p_pgid p) (pr_waits p) 0 (pr_nwaits p);
     case r of None \<Rightarrow> Some (0, 0, [], s)
     | Some i \<Rightarrow> do {
         let w = take 160 (drop (160 * i) (pr_waits p));
         ws \<leftarrow> wait_remove i (pr_nwaits p) (pr_waits p);
         Some (bytes_int w 0, wait_status w, take 144 (drop 8 w),
               upd_proc this (\<lambda>p. p\<lparr>pr_waits := ws, pr_nwaits := pr_nwaits p - 1\<rparr>) s)
       }
   }"

text \<open>\<open>yield\<close> stands for what the other processes do until the caller runs again.\<close>

partial_function (option) wait_loop ::
    "(sched \<Rightarrow> sched option) \<Rightarrow> int \<Rightarrow> sched \<Rightarrow> (int \<times> int \<times> u8 list \<times> sched) option" where
  "wait_loop yield pid s = do {
     (r, st, ru, s) \<leftarrow> do_wait pid s;
     if r \<noteq> 0 then Some (r, st, ru, s) else Option.bind (yield s) (wait_loop yield pid)
   }"

text \<open>The flag \<open>WNOHANG\<close> is 1.\<close>

definition sys_wait4 :: "(sched \<Rightarrow> sched option) \<Rightarrow> int \<Rightarrow> nat \<Rightarrow> sched \<Rightarrow> ((errno + int \<times> int \<times> u8 list) \<times> sched) option" where
  "sys_wait4 yield pid fl s = do {
     let pid = (if pid < -1 then - pid else pid);
     this \<leftarrow> THIS_PROCESS s;
     if pr_nchildren (sc_procs s this) = 0 then Some (Inl ECHILD, s)
     else do {
       gone \<leftarrow> (if pid > 0 then map_option (\<lambda>r. r = None) (lookup_pid (sc_pids s) pid) else Some False);
       if gone then Some (Inl ESRCH, s)
       else map_option (\<lambda>(r, st, ru, s). (Inr (r, st, ru), s))
              (if odd fl then do_wait pid s else wait_loop yield pid s)
     }
   }"

definition WIFEXITED :: "int \<Rightarrow> bool" where "WIFEXITED x \<longleftrightarrow> x mod 256 = 0"
definition WIFSIGNALED :: "int \<Rightarrow> bool" where "WIFSIGNALED x \<longleftrightarrow> x mod 128 > 0 \<and> x mod 128 < 0x7f"
definition WIFSTOPPED :: "int \<Rightarrow> bool" where "WIFSTOPPED x \<longleftrightarrow> x mod 256 = 0x7f"
definition WEXITSTATUS :: "int \<Rightarrow> int" where "WEXITSTATUS x = x div 256 mod 256"
definition WTERMSIG :: "int \<Rightarrow> int" where "WTERMSIG x = x div 256 mod 128"

section \<open>Exit status\<close>

lemma int_bytes_length [simp]: "length (int_bytes i) = 4"
  by (simp add: int_bytes_def)

lemma bytes_int_at:
  assumes "length xs = off" "- (2 ^ 31) \<le> i" "i < 2 ^ 31"
  shows "bytes_int (xs @ int_bytes i @ ys) off = i"
proof -
  have "get_le (xs @ int_bytes i @ ys) off 4 = nat (i mod 2 ^ 32)"
    using assms(1) get_put_le [of 4 "nat (i mod 2 ^ 32)" ys] by (simp add: get_le_skip int_bytes_def nat_mod_distrib)
  moreover have "i mod 2 ^ 32 = (if i < 0 then i + 2 ^ 32 else i)"
  proof (cases "i < 0")
    case True
    have "i mod 2 ^ 32 = (i + 2 ^ 32) mod 2 ^ 32" by simp
    also have "\<dots> = i + 2 ^ 32" using True assms(2) by (intro mod_pos_pos_trivial) simp_all
    finally show ?thesis using True by simp
  qed (use assms(3) in simp)
  ultimately show ?thesis using assms(2,3) by (simp add: bytes_int_def Let_def)
qed

lemma wait_state_length [simp]: "length (wait_state pid pgid ru st code) = 16 + length ru"
  by (simp add: wait_state_def)

text \<open>The fields of a wait state.\<close>

lemma wait_state_fields:
  assumes "length ru = 144" "0 < pid" "pid < 2 ^ 31" "st < 2 ^ 31" "- (2 ^ 31) \<le> code" "code < 2 ^ 31" "0 \<le> pgid" "pgid < 2 ^ 31"
  shows "bytes_int (wait_state pid pgid ru st code @ ys) 0 = pid" "bytes_int (wait_state pid pgid ru st code @ ys) 4 = pgid"
    "bytes_int (wait_state pid pgid ru st code @ ys) 152 = int st" "bytes_int (wait_state pid pgid ru st code @ ys) 156 = code"
    "take 144 (drop 8 (wait_state pid pgid ru st code @ ys)) = ru"
  using assms bytes_int_at [of "[]" 0 pid] bytes_int_at [of "int_bytes pid" 4 pgid]
    bytes_int_at [of "int_bytes pid @ int_bytes pgid @ ru" 152 "int st"]
    bytes_int_at [of "int_bytes pid @ int_bytes pgid @ ru @ int_bytes (int st)" 156 code]
  by (simp_all add: wait_state_def)

lemma wait_status_decode:
  assumes "bytes_int w 152 = int PROCESS_WAIT_EXITED \<or> bytes_int w 152 = int PROCESS_WAIT_SIGNALED" "bytes_int w 156 = code"
  shows "bytes_int w 152 = int PROCESS_WAIT_EXITED \<Longrightarrow> WIFEXITED (wait_status w) \<and> WEXITSTATUS (wait_status w) = code mod 256"
    "bytes_int w 152 = int PROCESS_WAIT_SIGNALED \<Longrightarrow>
      WIFSIGNALED (wait_status w) \<and> \<not> WIFEXITED (wait_status w) \<and> WTERMSIG (wait_status w) = code mod 128"
proof -
  note c = PROCESS_WAIT_EXITED_def PROCESS_WAIT_SIGNALED_def PROCESS_WAIT_STOPPED_def
  let ?c = "code mod 256"
  show "WIFEXITED (wait_status w) \<and> WEXITSTATUS (wait_status w) = code mod 256" if "bytes_int w 152 = int PROCESS_WAIT_EXITED"
    using that assms(2) by (simp add: wait_status_def WIFEXITED_def WEXITSTATUS_def c)
  have d: "(x * 256 + 1) mod 128 = 1" "(x * 256 + 1) mod 256 = 1" "(x * 256 + 1) div 256 = x" for x :: int
    using mod_mult_self3 [of "2 * x" 128 1] mod_mult_self3 [of x 256 1] div_mult_self3 [of 256 x 1] by (simp_all add: mult.commute [of x])
  have m: "?c mod 128 = code mod 128" by (simp add: mod_mod_cancel)
  show "WIFSIGNALED (wait_status w) \<and> \<not> WIFEXITED (wait_status w) \<and> WTERMSIG (wait_status w) = code mod 128"
    if "bytes_int w 152 = int PROCESS_WAIT_SIGNALED"
    using that assms(2) m by (simp add: wait_status_def WIFEXITED_def WIFSIGNALED_def WTERMSIG_def c d)
qed

lemma upd_proc_sel [simp]:
  "sc_procs (upd_proc a f s) b = (if b = a then f (sc_procs s a) else sc_procs s b)" "sc_queue (upd_proc a f s) = sc_queue s"
  "sc_front (upd_proc a f s) = sc_front s" "sc_pids (upd_proc a f s) = sc_pids s" "sc_len (upd_proc a f s) = sc_len s"
  "sc_env (upd_proc a f s) = sc_env s" "sc_fds (upd_proc a f s) = sc_fds s" "exit_process (upd_proc a f s) = exit_process s"
  by (simp_all add: upd_proc_def)

lemma sc_take_alloc_fst: "sc_take_alloc s = (fst (take_alloc (te_alloc (sc_env s))), s\<lparr>sc_env := (sc_env s)\<lparr>te_alloc := snd (take_alloc (te_alloc (sc_env s)))\<rparr>\<rparr>)"
  by (simp add: sc_take_alloc_def Let_def split: prod.splits)

lemma THIS_PROCESS_cong: "sc_queue s = sc_queue t \<Longrightarrow> sc_front s = sc_front t \<Longrightarrow> THIS_PROCESS s = THIS_PROCESS t"
  by (simp add: THIS_PROCESS_def)

definition mem_left :: "sched \<Rightarrow> bool" where
  "mem_left s \<longleftrightarrow> fst (take_alloc (te_alloc (sc_env s)))"

lemma fill_wait_run:
  assumes "lookup_pid (sc_pids s) (p_ppid (sc_procs s a)) = Some (Some par)" "THIS_PROCESS s = Some this"
    "mem_left s" "160 * pr_nwaits (sc_procs s par) \<le> length (pr_waits (sc_procs s par))"
  shows "\<exists>e. process_fill_wait a mode status s =
    Some (upd_proc par (\<lambda>q. q\<lparr>pr_waits := take (160 * pr_nwaits q) (pr_waits q) @
      wait_state (p_pid (sc_procs s a)) (p_pgid q) (pr_rusage (sc_procs s this)) mode status, pr_nwaits := Suc (pr_nwaits q)\<rparr>) (s\<lparr>sc_env := e\<rparr>))"
proof -
  have "THIS_PROCESS (s\<lparr>sc_env := e\<rparr>) = Some this" for e using assms(2) by (simp add: THIS_PROCESS_def split: if_splits)
  then show ?thesis using assms(1,3,4)
    by (intro exI [of _ "(sc_env s)\<lparr>te_alloc := snd (take_alloc (te_alloc (sc_env s)))\<rparr>"])
      (simp add: process_fill_wait_def sc_take_alloc_fst mem_left_def)
qed

text \<open>The record that a process which ends leaves with its parent.\<close>

lemma process_kill_records:
  assumes "THIS_PROCESS s = Some a" "lookup_pid (sc_pids s) (p_ppid (sc_procs s a)) = Some (Some par)" "pr_nwaits (sc_procs s par) = 0" "mem_left s"
  shows "\<exists>s1. process_kill mode code s = Some s1 \<and> pr_nwaits (sc_procs s1 par) = 1 \<and> p_pgid (sc_procs s1 par) = p_pgid (sc_procs s par) \<and>
    pr_waits (sc_procs s1 par) = wait_state (p_pid (sc_procs s a)) (p_pgid (sc_procs s par)) (pr_rusage (sc_procs s a)) mode code \<and>
    sc_queue s1 = sc_queue s \<and> exit_process s1 = sc_front s \<and> sc_pids s1 = sc_pids s"
proof -
  let ?p = "sc_procs s a"
  obtain e where f: "process_fill_wait a mode code s =
      Some (upd_proc par (\<lambda>q. q\<lparr>pr_waits := take (160 * pr_nwaits q) (pr_waits q) @
        wait_state (p_pid ?p) (p_pgid q) (pr_rusage ?p) mode code, pr_nwaits := Suc (pr_nwaits q)\<rparr>) (s\<lparr>sc_env := e\<rparr>))"
    using fill_wait_run [OF assms(2,1,4), of mode code] assms(3) by auto
  then show ?thesis using assms(1,3) by (simp add: process_kill_def)
qed

text \<open>A wait for any child or for this one takes the only record.\<close>

lemma do_wait_takes:
  assumes th: "THIS_PROCESS s = Some par" and rec: "pr_waits (sc_procs s par) = wait_state k (p_pgid (sc_procs s par)) ru mode code" "pr_nwaits (sc_procs s par) = 1"
    and b: "length ru = 144" "0 < k" "k < 2 ^ 31" "0 \<le> p_pgid (sc_procs s par)" "p_pgid (sc_procs s par) < 2 ^ 31" "- (2 ^ 31) \<le> code" "code < 2 ^ 31"
    and mode: "mode = PROCESS_WAIT_EXITED \<or> mode = PROCESS_WAIT_SIGNALED" and w: "w = -1 \<or> w = k"
  shows "\<exists>st s2. do_wait w s = Some (k, st, ru, s2) \<and> pr_nwaits (sc_procs s2 par) = 0 \<and>
      (if mode = PROCESS_WAIT_EXITED then WIFEXITED st \<and> WEXITSTATUS st = code mod 256
       else WIFSIGNALED st \<and> WTERMSIG st = code mod 128)"
proof -
  let ?w = "wait_state k (p_pgid (sc_procs s par)) ru mode code"
  have "mode < 2 ^ 31" using mode by (auto simp: PROCESS_WAIT_EXITED_def PROCESS_WAIT_SIGNALED_def)
  then have fields: "bytes_int ?w 0 = k" "bytes_int ?w 152 = int mode" "bytes_int ?w 156 = code" "take 144 (drop 8 ?w) = ru"
    using wait_state_fields [of ru k mode code "p_pgid (sc_procs s par)" "[]"] b by simp_all
  have len: "length ?w = 160" using b(1) by simp
  have match: "wait_matches w (p_pgid (sc_procs s par)) ?w" using w mode b(2) fields
    by (auto simp: wait_matches_def PROCESS_WAIT_EXITED_def PROCESS_WAIT_SIGNALED_def PROCESS_WAIT_RUNNING_def)
  have "do_wait w s = Some (k, wait_status ?w, ru, upd_proc par (\<lambda>p. p\<lparr>pr_waits := ?w, pr_nwaits := pr_nwaits p - 1\<rparr>) s)"
    using th rec match len fields by (simp add: do_wait_def wait_remove_def Let_def)
  moreover have "if mode = PROCESS_WAIT_EXITED then WIFEXITED (wait_status ?w) \<and> WEXITSTATUS (wait_status ?w) = code mod 256
     else WIFSIGNALED (wait_status ?w) \<and> WTERMSIG (wait_status ?w) = code mod 128"
    using wait_status_decode [of ?w code] fields mode by auto
  ultimately show ?thesis using rec(2) by auto
qed

text \<open>
  C35: With two children to wait for, the second wait returns the number of the second child with the status of the
  first: the states behind the one removed are moved down by as many bytes as there are
  states, so only the lowest byte of the number is that of the second child.\<close>

theorem second_child_gets_first_status:
  assumes "pr_waits (sc_procs s par) = wait_state p pg ru1 st1 c1 @ wait_state q pg ru2 st2 c2" "pr_nwaits (sc_procs s par) = 2"
    "THIS_PROCESS s = Some par" "0 < p" "p < 256" "0 < q" "q < 256" "length ru1 = 144" "length ru2 = 144"
    "st1 = PROCESS_WAIT_EXITED" "st2 = PROCESS_WAIT_EXITED" "0 \<le> c1" "c1 < 256" "0 \<le> c2" "c2 < 256" "0 \<le> pg" "pg < 2 ^ 31"
  shows "\<exists>s1 s2. do_wait (-1) s = Some (p, c1 * 256, ru1, s1) \<and> do_wait (-1) s1 = Some (q, c1 * 256, ru1, s2)"
proof -
  let ?w1 = "wait_state p pg ru1 st1 c1" and ?w2 = "wait_state q pg ru2 st2 c2" and ?r = "wait_state q pg ru1 st1 c1"
  have p4: "put_le 4 v = [word_of_nat v, word_of_nat (v div 256), word_of_nat (v div 256 div 256), word_of_nat (v div 256 div 256 div 256)]" for v
  proof -
    have "(4 :: nat) = Suc (Suc (Suc (Suc 0)))" by simp
    then show ?thesis by (simp only: put_le.simps)
  qed
  have lp: "int_bytes i = [word_of_int i, 0, 0, 0]" if "0 \<le> i" "i < 256" for i
    using that by (simp add: int_bytes_def p4 nat_div_distrib div_pos_pos_trivial)
  have w1: "?w1 = word_of_int p # drop 1 ?w1" and w2: "?w2 = word_of_int q # drop 1 ?w2" and r: "?r = word_of_int q # drop 1 ?w1"
    using lp assms(4-7) by (simp_all add: wait_state_def)
  have len: "length ?w1 = 160" "length ?w2 = 160" "length ?r = 160" using assms by simp_all
  have st: "st1 < 2 ^ 31" using assms(10) by (simp add: PROCESS_WAIT_EXITED_def)
  note f = wait_state_fields [OF assms(8) _ _ st _ _ assms(16,17), where ys = "[]", simplified]
  have f1: "bytes_int ?w1 0 = p" "bytes_int ?w1 152 = int st1" "wait_status ?w1 = c1 * 256" "take 144 (drop 8 ?w1) = ru1"
    and fr: "bytes_int ?r 0 = q" "bytes_int ?r 152 = int st1" "wait_status ?r = c1 * 256" "take 144 (drop 8 ?r) = ru1"
    using f [of p c1] f [of q c1] assms by (simp_all add: wait_status_def PROCESS_WAIT_EXITED_def PROCESS_WAIT_SIGNALED_def PROCESS_WAIT_STOPPED_def)
  have m: "wait_matches (-1) g ?w1" "wait_matches (-1) g ?r" for g
    using f1 fr assms(10) by (simp_all add: wait_matches_def PROCESS_WAIT_EXITED_def PROCESS_WAIT_RUNNING_def)
  have rm: "wait_remove 0 2 (?w1 @ ?w2) = Some (?r @ ?w2)"
  proof -
    have "take 1 (drop 160 (?w1 @ ?w2)) = [word_of_int q]" using len w2 by (metis append_eq_conv_conj take_Suc_Cons take0 One_nat_def)
    moreover have "drop 1 (?w1 @ ?w2) = drop 1 ?w1 @ ?w2" using len by simp
    ultimately show ?thesis using len r by (simp add: wait_remove_def)
  qed
  define s1 where "s1 = upd_proc par (\<lambda>p. p\<lparr>pr_waits := ?r @ ?w2, pr_nwaits := pr_nwaits p - 1\<rparr>) s"
  have d1: "do_wait (-1) s = Some (p, c1 * 256, ru1, s1)"
    using assms(1-3) m len f1 rm by (simp add: do_wait_def numeral_2_eq_2 s1_def Let_def)
  have "THIS_PROCESS s1 = Some par" "pr_waits (sc_procs s1 par) = ?r @ ?w2" "pr_nwaits (sc_procs s1 par) = 1"
    using assms(2,3) by (simp_all add: s1_def THIS_PROCESS_def split: if_splits)
  then have "\<exists>s2. do_wait (-1) s1 = Some (q, c1 * 256, ru1, s2)"
    using m len fr by (simp add: do_wait_def wait_remove_def Let_def)
  then show ?thesis using d1 by blast
qed

section \<open>The tree of processes\<close>

definition live :: "sched \<Rightarrow> int \<Rightarrow> nat option" where
  "live s k = hashmap_abs (sc_pids s) (pid_key k)"

definition kids :: "proc \<Rightarrow> int list" where
  "kids p = take (pr_nchildren p) (pr_children p)"

text \<open>
  \<open>tree_ok N s\<close>: the table of processes has entries for numbers from \<open>N\<close>, whose hashes differ, and gives the structure with
  this number, a process has exactly the processes as children that name it as their parent, and every process but
  those started by the kernel has a parent in the table. Process 1 is there and has no parent.\<close>

definition tree_ok :: "int set \<Rightarrow> sched \<Rightarrow> bool" where
  "tree_ok N s \<longleftrightarrow> hashmap_inv (sc_pids s) \<and> inj_on pid_key N \<and> 1 \<in> N \<and> 0 \<notin> N \<and>
     (\<exists>a. live s 1 = Some a \<and> p_ppid (sc_procs s a) = 0) \<and>
     dom (hashmap_abs (sc_pids s)) \<subseteq> pid_key ` N \<and>
     (\<forall>k \<in> N. \<forall>a. live s k = Some a \<longrightarrow> p_pid (sc_procs s a) = k \<and> pr_nchildren (sc_procs s a) \<le> length (pr_children (sc_procs s a)) \<and>
        distinct (kids (sc_procs s a)) \<and>
        (p_ppid (sc_procs s a) = 0 \<or> p_ppid (sc_procs s a) \<in> N - {k} \<and> live s (p_ppid (sc_procs s a)) \<noteq> None) \<and>
        (\<forall>c. c \<in> set (kids (sc_procs s a)) \<longleftrightarrow> c \<in> N \<and> (\<exists>b. live s c = Some b \<and> p_ppid (sc_procs s b) = k)))"


lemma live_cong: "sc_pids s = sc_pids t \<Longrightarrow> live s = live t"
  by (simp add: live_def fun_eq_iff)

lemma lookup_live: "hashmap_inv (sc_pids s) \<Longrightarrow> lookup_pid (sc_pids s) k = Some (live s k)"
  by (simp add: lookup_pid_def live_def hm.look_abs)

text \<open>What the steps before the tables of children do.\<close>

lemma free_threads_frame: "free_threads ts s = Some s' \<Longrightarrow> \<exists>e. s' = s\<lparr>sc_env := e\<rparr>"
proof (induction ts arbitrary: s)
  case (Cons t ts)
  then obtain e where "free_threads ts (s\<lparr>sc_env := e\<rparr>) = Some s'" by (auto simp: in_env_def split: option.splits bind_split_asm)
  then show ?case using Cons.IH by fastforce
qed (simp, rule exI [of _ "sc_env s'"], simp)

lemma close_fds_frame: "close_fds a is s = Some s' \<Longrightarrow> \<exists>f. s' = s\<lparr>sc_fds := f\<rparr>"
proof (induction "is" arbitrary: s)
  case (Cons i "is")
  then obtain f where "close_fds a is (s\<lparr>sc_fds := f\<rparr>) = Some s'" by (auto split: bind_split_asm)
  then show ?case using Cons.IH by fastforce
qed (simp, rule exI [of _ "sc_fds s'"], simp)

lemma process_free_parts:
  assumes "process_free a s = Some s'"
  obtains m e f r s1 where "unmap_pid (sc_pids s) (p_pid (sc_procs s a)) = Some m"
    "lookup_pid m (p_ppid (sc_procs s a)) = Some r"
    "case r of None \<Rightarrow> s1 = s\<lparr>sc_env := e, sc_pids := m, sc_fds := f\<rparr>
     | Some par \<Rightarrow> \<exists>q. remove_child (p_pid (sc_procs s a)) (sc_procs s par) = Some q \<and>
         s1 = upd_proc par (\<lambda>_. q) (s\<lparr>sc_env := e, sc_pids := m, sc_fds := f\<rparr>)"
    "give_to_init (sc_procs s1 a) s1 = Some s'"
proof -
  let ?p = "sc_procs s a"
  obtain s2 where s2: "(case pr_threads ?p of [] \<Rightarrow> Some s | t # ts \<Rightarrow> in_env (thread_unmap_user_mem t) s) = Some s2"
    using assms by (auto simp: process_free_def Let_def bind_eq_Some_conv)
  obtain s3 where s3: "free_threads (pr_threads ?p) s2 = Some s3" using assms s2 by (auto simp: process_free_def Let_def bind_eq_Some_conv)
  obtain m where m: "unmap_pid (sc_pids s3) (p_pid ?p) = Some m" using assms s2 s3 by (auto simp: process_free_def Let_def bind_eq_Some_conv)
  let ?s4 = "s3\<lparr>sc_pids := m\<rparr>"
  obtain s5 where s5: "close_fds a [0..<ft_size (proc_fds (sc_fds ?s4) a)] ?s4 = Some s5"
    using assms s2 s3 m by (auto simp: process_free_def Let_def bind_eq_Some_conv)
  obtain r where r: "lookup_pid (sc_pids s5) (p_ppid ?p) = Some r" using assms s2 s3 m s5 by (auto simp: process_free_def Let_def bind_eq_Some_conv)
  obtain s1 where s1: "(case r of None \<Rightarrow> Some s5
      | Some parent \<Rightarrow> map_option (\<lambda>q. upd_proc parent (\<lambda>_. q) s5) (remove_child (p_pid ?p) (sc_procs s5 parent))) = Some s1"
    "give_to_init (sc_procs s1 a) s1 = Some s'"
    using assms s2 s3 m s5 r by (auto simp: process_free_def Let_def bind_eq_Some_conv)
  have "\<exists>e. s2 = s\<lparr>sc_env := e\<rparr>" using s2 by (cases "pr_threads ?p") (auto simp: in_env_def intro: exI [of _ "sc_env s"])
  then obtain e where e: "s3 = s\<lparr>sc_env := e\<rparr>" using free_threads_frame [OF s3] by force
  obtain f where f: "s5 = s\<lparr>sc_env := e, sc_pids := m, sc_fds := f\<rparr>" using close_fds_frame [OF s5] e by force
  show thesis
  proof (rule that)
    show "unmap_pid (sc_pids s) (p_pid ?p) = Some m" using m e by simp
    show "lookup_pid m (p_ppid ?p) = Some r" using r f by simp
    show "give_to_init (sc_procs s1 a) s1 = Some s'" by (rule s1(2))
    show "case r of None \<Rightarrow> s1 = s\<lparr>sc_env := e, sc_pids := m, sc_fds := f\<rparr>
       | Some par \<Rightarrow> \<exists>q. remove_child (p_pid ?p) (sc_procs s par) = Some q \<and> s1 = upd_proc par (\<lambda>_. q) (s\<lparr>sc_env := e, sc_pids := m, sc_fds := f\<rparr>)"
      using s1(1) f by (auto split: option.splits)
  qed
qed

text \<open>Handing over children.\<close>

definition same_queue :: "sched \<Rightarrow> sched \<Rightarrow> bool" where
  "same_queue s t \<longleftrightarrow> sc_pids s = sc_pids t \<and> sc_queue s = sc_queue t \<and> sc_front s = sc_front t \<and> sc_len s = sc_len t"

lemma reparent_run:
  assumes "hashmap_inv (sc_pids s)"
  shows "\<exists>s'. reparent cs s = Some s' \<and> same_queue s' s \<and>
    (\<forall>b. sc_procs s' b = (if \<exists>c \<in> set cs. live s c = Some b then (sc_procs s b)\<lparr>p_ppid := 1\<rparr> else sc_procs s b))"
  using assms
proof (induction cs arbitrary: s)
  case (Cons c cs)
  define t where "t = (case live s c of None \<Rightarrow> s | Some a \<Rightarrow> upd_proc a (\<lambda>p. p\<lparr>p_ppid := 1\<rparr>) s)"
  have q: "same_queue t s" by (simp add: t_def same_queue_def split: option.splits)
  then have inv: "hashmap_inv (sc_pids t)" using Cons.prems by (simp add: same_queue_def)
  have lv: "live t = live s" using q by (intro live_cong) (simp add: same_queue_def)
  have pr: "sc_procs t b = (if live s c = Some b then (sc_procs s b)\<lparr>p_ppid := 1\<rparr> else sc_procs s b)" for b
    by (auto simp: t_def split: option.splits)
  obtain s' where s': "reparent cs t = Some s'" "same_queue s' t"
    "\<forall>b. sc_procs s' b = (if \<exists>c \<in> set cs. live t c = Some b then (sc_procs t b)\<lparr>p_ppid := 1\<rparr> else sc_procs t b)"
    using Cons.IH [OF inv] by blast
  have "reparent (c # cs) s = Some s'" using lookup_live [OF Cons.prems] s'(1) by (simp add: t_def)
  moreover have "same_queue s' s" using s'(2) q by (simp add: same_queue_def)
  moreover have "sc_procs s' b = (if \<exists>c \<in> set (c # cs). live s c = Some b then (sc_procs s b)\<lparr>p_ppid := 1\<rparr> else sc_procs s b)" for b
    using spec [OF s'(3), of b] unfolding lv pr by (cases "live s c = Some b") auto
  ultimately show ?case by blast
qed (simp add: same_queue_def)

text \<open>The tables after a process has been freed.\<close>

lemma remove_child_kids:
  assumes "remove_child k p = Some q"
  shows "kids q = remove1 k (kids p)" "p_pid q = p_pid p" "p_ppid q = p_ppid p" "pr_nchildren q \<le> length (pr_children q)"
proof -
  have n: "pr_nchildren p \<le> length (pr_children p)" using assms by (auto simp: remove_child_def split: if_splits)
  show "p_pid q = p_pid p" "p_ppid q = p_ppid p" using assms by (auto simp: remove_child_def split: if_splits)
  show "pr_nchildren q \<le> length (pr_children q)" using assms n
    by (auto simp: remove_child_def length_remove1 dest: in_set_takeD split: if_splits)
  have r: "take (n - 1) (remove1 k xs) = remove1 k (take n xs)" if "k \<in> set (take n xs)" for n xs
    using that
  proof (induction xs arbitrary: n)
    case (Cons x xs)
    then obtain i where i: "n = Suc i" by (cases n) auto
    show ?case
    proof (cases "x = k")
      case False
      then have "k \<in> set (take i xs)" using Cons.prems i by simp
      moreover from this obtain i' where "i = Suc i'" by (cases i) auto
      ultimately show ?thesis using Cons.IH [of i] False i by simp
    qed (use i in simp)
  qed simp
  show "kids q = remove1 k (kids p)" using assms r by (auto simp: remove_child_def kids_def remove1_idem split: if_splits)
qed























section \<open>The status of a child that has been freed\<close>

definition same_waits :: "proc \<Rightarrow> proc \<Rightarrow> bool" where
  "same_waits p q \<longleftrightarrow> pr_waits q = pr_waits p \<and> pr_nwaits q = pr_nwaits p \<and> p_pgid q = p_pgid p"

lemma reparent_waits: "reparent cs s = Some s' \<Longrightarrow> same_waits (sc_procs s b) (sc_procs s' b)"
proof (induction cs arbitrary: s)
  case (Cons c cs)
  then obtain r where "reparent cs (case r of None \<Rightarrow> s | Some a \<Rightarrow> upd_proc a (\<lambda>p. p\<lparr>p_ppid := 1\<rparr>) s) = Some s'"
    by (auto simp: bind_eq_Some_conv)
  from Cons.IH [OF this] show ?case by (cases r) (auto simp: same_waits_def split: if_splits)
qed (simp add: same_waits_def)

lemma process_free_waits:
  assumes "process_free a s = Some s'"
  shows "pr_nwaits (sc_procs s' b) = pr_nwaits (sc_procs s b)" "pr_waits (sc_procs s' b) = pr_waits (sc_procs s b)" "p_pgid (sc_procs s' b) = p_pgid (sc_procs s b)"
proof -
  obtain m e f r s1 where s1: "case r of None \<Rightarrow> s1 = s\<lparr>sc_env := e, sc_pids := m, sc_fds := f\<rparr>
     | Some par \<Rightarrow> \<exists>q. remove_child (p_pid (sc_procs s a)) (sc_procs s par) = Some q \<and>
         s1 = upd_proc par (\<lambda>_. q) (s\<lparr>sc_env := e, sc_pids := m, sc_fds := f\<rparr>)"
    and gi: "give_to_init (sc_procs s1 a) s1 = Some s'"
    by (rule process_free_parts [OF assms])
  have "same_waits (sc_procs s b) (sc_procs s1 b)"
    using s1 by (cases r) (auto simp: remove_child_def same_waits_def split: if_splits)
  moreover have "same_waits (sc_procs s1 b) (sc_procs s' b)"
    using gi by (auto simp: give_to_init_def sc_take_alloc_fst Let_def bind_eq_Some_conv same_waits_def dest!: reparent_waits [where b = b]
      split: if_splits option.splits)
  ultimately show "pr_nwaits (sc_procs s' b) = pr_nwaits (sc_procs s b)" "pr_waits (sc_procs s' b) = pr_waits (sc_procs s b)"
    "p_pgid (sc_procs s' b) = p_pgid (sc_procs s b)" by (simp_all add: same_waits_def)
qed

text \<open>The switch of threads moves the fronts of the queues only.\<close>

definition same_but_fronts :: "sched \<Rightarrow> sched \<Rightarrow> bool" where
  "same_but_fronts s s' \<longleftrightarrow> sc_queue s' = sc_queue s \<and> exit_process s' = exit_process s \<and> sc_pids s' = sc_pids s \<and> (\<forall>b. same_waits (sc_procs s b) (sc_procs s' b))"

lemma switch_step_fronts: "switch_step s = Some s' \<Longrightarrow> same_but_fronts s s'"
  by (auto simp: switch_step_def bind_eq_Some_conv same_but_fronts_def same_waits_def Let_def split: if_splits)

lemma same_but_fronts_trans: "same_but_fronts s t \<Longrightarrow> same_but_fronts t u \<Longrightarrow> same_but_fronts s u"
  by (simp add: same_but_fronts_def same_waits_def)

lemma thread_switch_fronts: assumes "thread_switch s = Some s'" shows "same_but_fronts s s'"
proof (rule thread_switch.raw_induct [OF _ assms])
  fix f s s' assume "\<And>s s'. f s = Some s' \<Longrightarrow> same_but_fronts s s'" "(do {s \<leftarrow> switch_step s; t \<leftarrow> THIS_THREAD s;
    if t_run t \<noteq> THREAD_STATE_RUNNING then f s else Some s}) = Some s'"
  then obtain u where "switch_step s = Some u" "same_but_fronts u s' \<or> s' = u" by (auto simp: bind_eq_Some_conv split: if_splits)
  then show "same_but_fronts s s'" using switch_step_fronts same_but_fronts_trans by blast
qed

lemma sched_tick_frees:
  assumes "sched_tick s = Some s'" "exit_process s \<noteq> 0"
  shows "same_waits (sc_procs s b) (sc_procs s' b)"
proof -
  obtain s1 where sw: "thread_switch s = Some s1" using assms(1) by (auto simp: sched_tick_def bind_eq_Some_conv)
  note fr = thread_switch_fronts [OF sw]
  then have "exit_process s1 \<noteq> 0" using assms(2) by (simp add: same_but_fronts_def)
  then have s1: "process_exit (exit_process s1) (s1\<lparr>exit_process := 0, exit_status := 0\<rparr>) = Some s'"
    using assms(1) sw by (simp add: sched_tick_def)
  obtain s2 where "process_free (sc_queue s1 ! exit_process s1) (s1\<lparr>exit_process := 0, exit_status := 0\<rparr>) = Some s2" "sc_procs s' = sc_procs s2"
    using s1 by (auto simp: process_exit_def split: if_splits)
  then have "same_waits (sc_procs s1 b) (sc_procs s' b)" using process_free_waits [where b = b] by (simp add: same_waits_def)
  then show ?thesis using fr by (simp add: same_but_fronts_def same_waits_def)
qed

text \<open>
  C11: The status of a child that ends reaches a parent that is waiting: when the child terminates itself with an exit
  code or because of a signal, the next tick of the scheduler frees it; when then the parent, which has no other
  state to wait for, comes to run inside of the loop of \<open>sys_wait4\<close> for any child or for this one, the loop returns the number
  of the child, its resource usage and a status from which the macros of pml/wait.h give the low bits of the
  code, and nothing is left to wait for. Memory for recording the state is available. The same holds for a parent that calls \<open>sys_wait4\<close> for any child only now, if it
  has another child.\<close>

theorem wait_roundtrip:
  assumes child: "THIS_PROCESS s = Some a" "sc_front s \<noteq> 0" "0 < p_pid (sc_procs s a)" "p_pid (sc_procs s a) < 2 ^ 31" "length (pr_rusage (sc_procs s a)) = 144"
    and par: "lookup_pid (sc_pids s) (p_ppid (sc_procs s a)) = Some (Some par)" "pr_nwaits (sc_procs s par) = 0"
      "0 \<le> p_pgid (sc_procs s par)" "p_pgid (sc_procs s par) < 2 ^ 31"
    and mode: "mode = PROCESS_WAIT_EXITED \<or> mode = PROCESS_WAIT_SIGNALED" and code: "- (2 ^ 31) \<le> code" "code < 2 ^ 31"
    and mem: "mem_left s" and w: "w = -1 \<or> w = p_pid (sc_procs s a)"
  shows "\<exists>s1. process_kill mode code s = Some s1 \<and> (\<forall>s2 f. sched_tick s1 = Some s2 \<longrightarrow> THIS_PROCESS (s2\<lparr>sc_front := f\<rparr>) = Some par \<longrightarrow>
    (\<exists>st s3. wait_loop yield w (s2\<lparr>sc_front := f\<rparr>) = Some (p_pid (sc_procs s a), st, pr_rusage (sc_procs s a), s3) \<and>
      pr_nwaits (sc_procs s3 par) = 0 \<and>
      (if mode = PROCESS_WAIT_EXITED then WIFEXITED st \<and> WEXITSTATUS st = code mod 256
       else WIFSIGNALED st \<and> WTERMSIG st = code mod 128) \<and>
      (pr_nchildren (sc_procs s2 par) \<noteq> 0 \<longrightarrow> w = -1 \<longrightarrow>
        sys_wait4 yield w fl (s2\<lparr>sc_front := f\<rparr>) = Some (Inr (p_pid (sc_procs s a), st, pr_rusage (sc_procs s a)), s3))))"
proof -
  let ?p = "sc_procs s a" and ?q = "sc_procs s par"
  obtain s1 where s1: "process_kill mode code s = Some s1" "pr_nwaits (sc_procs s1 par) = 1" "p_pgid (sc_procs s1 par) = p_pgid ?q"
      "pr_waits (sc_procs s1 par) = wait_state (p_pid ?p) (p_pgid ?q) (pr_rusage ?p) mode code" "exit_process s1 = sc_front s"
    using process_kill_records [OF child(1) par(1,2) mem] by blast
  have "\<exists>st s3. wait_loop yield w (s2\<lparr>sc_front := f\<rparr>) = Some (p_pid ?p, st, pr_rusage ?p, s3) \<and> pr_nwaits (sc_procs s3 par) = 0 \<and>
      (if mode = PROCESS_WAIT_EXITED then WIFEXITED st \<and> WEXITSTATUS st = code mod 256 else WIFSIGNALED st \<and> WTERMSIG st = code mod 128) \<and>
      (pr_nchildren (sc_procs s2 par) \<noteq> 0 \<longrightarrow> w = -1 \<longrightarrow>
        sys_wait4 yield w fl (s2\<lparr>sc_front := f\<rparr>) = Some (Inr (p_pid ?p, st, pr_rusage ?p), s3))"
    if tick: "sched_tick s1 = Some s2" and th: "THIS_PROCESS (s2\<lparr>sc_front := f\<rparr>) = Some par" for s2 f
  proof -
    have sw: "same_waits (sc_procs s1 par) (sc_procs s2 par)" using sched_tick_frees [OF tick] s1(5) child(2) by simp
    obtain st s3 where d: "do_wait w (s2\<lparr>sc_front := f\<rparr>) = Some (p_pid ?p, st, pr_rusage ?p, s3)" "pr_nwaits (sc_procs s3 par) = 0"
      "if mode = PROCESS_WAIT_EXITED then WIFEXITED st \<and> WEXITSTATUS st = code mod 256 else WIFSIGNALED st \<and> WTERMSIG st = code mod 128"
      using do_wait_takes [OF th, of "p_pid ?p" "pr_rusage ?p" mode code w] sw s1(2-4) child par(3,4) code mode w by (auto simp: same_waits_def)
    have l: "wait_loop yield w (s2\<lparr>sc_front := f\<rparr>) = Some (p_pid ?p, st, pr_rusage ?p, s3)"
      using d(1) child(3) by (subst wait_loop.simps) simp
    moreover have "sys_wait4 yield w fl (s2\<lparr>sc_front := f\<rparr>) = Some (Inr (p_pid ?p, st, pr_rusage ?p), s3)"
      if "pr_nchildren (sc_procs s2 par) \<noteq> 0" "w = -1"
      using that th l d(1) by (simp add: sys_wait4_def Let_def)
    ultimately show ?thesis using d by blast
  qed
  then show ?thesis using s1(1) by blast
qed


section \<open>Systems of two and three processes\<close>

definition life_proc :: "int \<Rightarrow> int \<Rightarrow> int list \<Rightarrow> proc" where
  "life_proc pid ppid cs = process_zero\<lparr>p_pid := pid, p_ppid := ppid, pr_children := cs, pr_nchildren := length cs,
     pr_threads := (if pid = 1 then [\<lparr>t_tid = 1, t_args = clone_args, t_run = THREAD_STATE_RUNNING, t_error = 0\<rparr>] else [])\<rparr>"

definition life_state :: "nat hashmap \<Rightarrow> proc list \<Rightarrow> nat \<Rightarrow> sched" where
  "life_state m ps i = \<lparr>sc_procs = (\<lambda>a. if a < length ps then ps ! a else process_zero), sc_pids = m, sc_queue = [0..<length ps],
     sc_len = length ps, sc_front = i, exit_process = 0, exit_status = 0, sc_fds = fd_empty 0 0 0 [] 0,
     sc_env = \<lparr>te_vm = clone_start, te_pids = \<lparr>pid_bitmap = [], next_pid = 0, pid_bitmap_size = 0, pid_bitmap_lock = False, pid_errno = None\<rparr>,
       te_alloc = [], te_junk = (\<lambda>_. 0)\<rparr>\<rparr>"

definition life_start :: "nat hashmap \<Rightarrow> sched" where
  "life_start m = life_state m [life_proc 1 0 [2], life_proc 2 1 []] 1"

definition orphan_start :: "nat hashmap \<Rightarrow> sched" where
  "orphan_start m = life_state m [life_proc 1 0 [2], life_proc 2 1 [3], life_proc 3 2 []] 1"

lemma pid_key_123: "pid_key 1 \<noteq> pid_key 2" "pid_key 1 \<noteq> pid_key 3" "pid_key 2 \<noteq> pid_key 3"
proof -
  have "pid_key 1 = 9306555813914850249" "pid_key 2 = 13073334297860634604" "pid_key 3 = 2122980522681019587" by code_simp+
  then show "pid_key 1 \<noteq> pid_key 2" "pid_key 1 \<noteq> pid_key 3" "pid_key 2 \<noteq> pid_key 3" by simp_all
qed

lemma life_map:
  "\<exists>m :: nat hashmap. hashmap_inv m \<and> hashmap_abs m = [pid_key 1 \<mapsto> 0, pid_key 2 \<mapsto> 1]"
  "\<exists>m :: nat hashmap. hashmap_inv m \<and> hashmap_abs m = [pid_key 1 \<mapsto> 0, pid_key 2 \<mapsto> 1, pid_key 3 \<mapsto> 2]"
proof -
  obtain m0 :: "nat hashmap" where m0: "hashmap_inv m0" "hashmap_abs m0 = Map.empty" using hm.create_empty by blast
  obtain m1 where m1: "hashmap_inv m1" "hashmap_abs m1 = (hashmap_abs m0)(pid_key 1 \<mapsto> 0)" using hm.ins_update [OF m0(1)] by blast
  obtain m2 where m2: "hashmap_inv m2" "hashmap_abs m2 = (hashmap_abs m1)(pid_key 2 \<mapsto> 1)" using hm.ins_update [OF m1(1)] by blast
  obtain m3 where "hashmap_inv m3" "hashmap_abs m3 = (hashmap_abs m2)(pid_key 3 \<mapsto> 2)" using hm.ins_update [OF m2(1)] by blast
  then show "\<exists>m :: nat hashmap. hashmap_inv m \<and> hashmap_abs m = [pid_key 1 \<mapsto> 0, pid_key 2 \<mapsto> 1]"
    "\<exists>m :: nat hashmap. hashmap_inv m \<and> hashmap_abs m = [pid_key 1 \<mapsto> 0, pid_key 2 \<mapsto> 1, pid_key 3 \<mapsto> 2]"
    using m0 m1 m2 by auto
qed

lemma life_procs_at:
  "sc_procs (life_start m) 0 = life_proc 1 0 [2]" "sc_procs (life_start m) 1 = life_proc 2 1 []"
  "sc_procs (orphan_start m) 0 = life_proc 1 0 [2]" "sc_procs (orphan_start m) 1 = life_proc 2 1 [3]" "sc_procs (orphan_start m) 2 = life_proc 3 2 []"
  "sc_pids (life_start m) = m" "sc_pids (orphan_start m) = m" "sc_queue (life_start m) = [0, 1]" "sc_queue (orphan_start m) = [0, 1, 2]"
  "sc_len (life_start m) = 2" "sc_len (orphan_start m) = 3" "sc_front (life_start m) = 1" "exit_process (life_start m) = 0"
  "ft_size (proc_fds (sc_fds (life_start m)) b) = 0" "ft_size (proc_fds (sc_fds (orphan_start m)) b) = 0"
  "fst (take_alloc (te_alloc (sc_env (life_start m))))" "fst (take_alloc (te_alloc (sc_env (orphan_start m))))"
  by (simp_all add: life_start_def orphan_start_def life_state_def fd_empty_def upt_rec)

lemmas life_procs = life_procs_at life_procs_at [unfolded One_nat_def]

lemma life_proc_sel:
  "p_pid (life_proc k j cs) = k" "p_ppid (life_proc k j cs) = j" "pr_children (life_proc k j cs) = cs" "pr_nchildren (life_proc k j cs) = length cs"
  "kids (life_proc k j cs) = cs" "pr_nwaits (life_proc k j cs) = 0" "p_pgid (life_proc k j cs) = 0" "pr_rusage (life_proc k j cs) = replicate 144 0"
  "pr_tfront (life_proc k j cs) = 0"
  by (simp_all add: life_proc_def process_zero_def kids_def)

lemma life_tree:
  assumes "hashmap_inv m" "hashmap_abs m = [pid_key 1 \<mapsto> 0, pid_key 2 \<mapsto> 1]"
  shows "tree_ok {1, 2} (life_start m)" "live (life_start m) 1 = Some 0" "live (life_start m) 2 = Some 1"
    "THIS_PROCESS (life_start m) = Some 1" "lookup_pid m 1 = Some (Some 0)" "mem_left (life_start m)"
proof -
  show l: "live (life_start m) 1 = Some 0" "live (life_start m) 2 = Some 1" using assms(2) pid_key_123 by (simp_all add: live_def life_procs)
  show "THIS_PROCESS (life_start m) = Some 1" by (simp add: THIS_PROCESS_def life_procs)
  show "lookup_pid m 1 = Some (Some 0)" using lookup_live [of "life_start m" 1] l(1) assms(1) by (simp add: life_procs)
  show "mem_left (life_start m)" by (simp add: mem_left_def life_procs)
  have "inj_on pid_key {1, 2}" using pid_key_123 by (simp add: inj_on_def)
  moreover have "dom (hashmap_abs m) \<subseteq> pid_key ` {1, 2}" using assms(2) by auto
  ultimately show "tree_ok {1, 2} (life_start m)" using assms(1) l by (auto simp: tree_ok_def life_procs life_proc_sel)
qed


text \<open>Process 2 is freed.\<close>

lemma exit_returns:
  assumes m: "hashmap_inv (sc_pids s)" "hashmap_abs (sc_pids s) (pid_key 1) = Some 0" "hashmap_abs (sc_pids s) (pid_key 2) = Some 1"
    and p: "pr_threads (sc_procs s 1) = []" "p_pid (sc_procs s 1) = 2" "p_ppid (sc_procs s 1) = 1" "pr_nchildren (sc_procs s 1) \<le> length (pr_children (sc_procs s 1))"
      "pr_nchildren (sc_procs s 0) \<le> length (pr_children (sc_procs s 0))"
    and q: "sc_queue s = 0 # 1 # xs" "sc_len s = length (sc_queue s)" "ft_size (proc_fds (sc_fds s) 1) = 0" "fst (take_alloc (te_alloc (sc_env s)))"
  shows "\<exists>s'. process_exit 1 s = Some s' \<and> sc_queue s' = 0 # xs"
proof -
  obtain m' where m': "unmap_pid (sc_pids s) 2 = Some m'" "hashmap_inv m'" "hashmap_abs m' = (hashmap_abs (sc_pids s))(pid_key 2 := None)"
    using hm.del_present [OF m(1), of "pid_key 2"] m(3) by (auto simp: unmap_pid_def)
  have lk: "lookup_pid m' 1 = Some (Some 0)" using hm.look_abs [OF m'(2), of "pid_key 1"] m'(3) m(2) pid_key_123 by (simp add: lookup_pid_def)
  have "remove_child 2 (sc_procs s 0) \<noteq> None" using p(5) by (simp add: remove_child_def)
  then obtain c where c: "remove_child 2 (sc_procs s 0) = Some c" "pr_nchildren c \<le> length (pr_children c)"
    using remove_child_kids(4) [of 2 "sc_procs s 0"] by blast
  let ?t = "upd_proc 0 (\<lambda>_. c) (s\<lparr>sc_pids := m'\<rparr>)"
  have "\<exists>s'. give_to_init (sc_procs ?t 1) ?t = Some s' \<and> sc_queue s' = sc_queue s \<and> sc_len s' = sc_len s"
  proof (cases "pr_nchildren (sc_procs s 1) = 0")
    case False
    have inv: "hashmap_inv (sc_pids (upd_proc 0 g (?t\<lparr>sc_env := e\<rparr>)))" for g e using m'(2) by simp
    show ?thesis using False lk c(2) p(4) q(4) reparent_run [OF inv]
      by (fastforce simp: give_to_init_def sc_take_alloc_fst Let_def same_queue_def)
  qed (simp add: give_to_init_def)
  then obtain s' where "give_to_init (sc_procs ?t 1) ?t = Some s'" "sc_queue s' = sc_queue s" "sc_len s' = sc_len s" by blast
  moreover from this have "process_free 1 s = Some s'" using m'(1) lk c(1) p(1-3) q(3) by (simp add: process_free_def Let_def)
  ultimately show ?thesis using q(1,2) by (simp add: process_exit_def)
qed

text \<open>Process 2 ends, and the next tick frees it.\<close>

lemma life_run:
  assumes "hashmap_inv m" "hashmap_abs m = [pid_key 1 \<mapsto> 0, pid_key 2 \<mapsto> 1]"
  shows "\<exists>s1 s2 s3. process_kill PROCESS_WAIT_EXITED 7 (life_start m) = Some s1 \<and> process_exit 1 s1 = Some s2 \<and> sc_queue s2 = [0] \<and>
    sched_tick s1 = Some s3 \<and> sc_queue s3 = [0]"
proof -
  note l = life_tree [OF assms]
  let ?s = "life_start m"
  have lk: "lookup_pid (sc_pids ?s) (p_ppid (sc_procs ?s 1)) = Some (Some 0)" using l(5) by (simp add: life_procs life_proc_sel)
  obtain e where f: "process_fill_wait 1 PROCESS_WAIT_EXITED 7 ?s =
      Some (upd_proc 0 (\<lambda>q. q\<lparr>pr_waits := take (160 * pr_nwaits q) (pr_waits q) @
        wait_state 2 (p_pgid q) (pr_rusage (sc_procs ?s 1)) PROCESS_WAIT_EXITED 7, pr_nwaits := Suc (pr_nwaits q)\<rparr>) (?s\<lparr>sc_env := e\<rparr>))"
    "fst (take_alloc (te_alloc e))"
    using l(4,6) lk by (simp add: process_fill_wait_def sc_take_alloc_fst mem_left_def life_procs life_proc_sel THIS_PROCESS_def)
      (simp add: life_start_def life_state_def)
  define s1 where "s1 = (upd_proc 0 (\<lambda>q. q\<lparr>pr_waits := take (160 * pr_nwaits q) (pr_waits q) @
        wait_state 2 (p_pgid q) (pr_rusage (sc_procs ?s 1)) PROCESS_WAIT_EXITED 7, pr_nwaits := Suc (pr_nwaits q)\<rparr>) (?s\<lparr>sc_env := e\<rparr>))
      \<lparr>exit_process := 1, exit_status := 7\<rparr>"
  have k: "process_kill PROCESS_WAIT_EXITED 7 ?s = Some s1" using l(4) f by (simp add: process_kill_def s1_def life_procs)
  define t where "t = (upd_proc 1 (\<lambda>p. p\<lparr>pr_tfront := 0\<rparr>) s1)\<lparr>sc_front := 0\<rparr>"
  have st: "switch_step s1 = Some t" by (simp add: switch_step_def THIS_PROCESS_def s1_def t_def life_procs Let_def)
  have "\<exists>th. THIS_THREAD t = Some th \<and> t_run th = THREAD_STATE_RUNNING"
    by (simp add: THIS_THREAD_def THIS_PROCESS_def t_def s1_def life_procs life_proc_sel Let_def) (simp add: life_proc_def)
  then have sw: "thread_switch s1 = Some t" using st by (subst thread_switch.simps) auto
  have ex: "exit_process t = 1" by (simp add: t_def s1_def)
  have "\<exists>s'. process_exit 1 s1 = Some s' \<and> sc_queue s' = [0]"
    by (rule exit_returns) (use assms f(2) pid_key_123 in \<open>simp_all add: s1_def life_procs life_proc_sel life_proc_def [of 2]\<close>)
  moreover have "\<exists>s'. process_exit 1 (t\<lparr>exit_process := 0, exit_status := 0\<rparr>) = Some s' \<and> sc_queue s' = [0]"
    by (rule exit_returns) (use assms f(2) pid_key_123 in \<open>simp_all add: t_def s1_def life_procs life_proc_sel life_proc_def [of 2]\<close>)
  ultimately show ?thesis using k sw ex by (auto simp: sched_tick_def)
qed

theorem wait_roundtrip_witness:
  "\<exists>m s1 s2 st s3. process_kill PROCESS_WAIT_EXITED 7 (life_start m) = Some s1 \<and> sched_tick s1 = Some s2 \<and>
     wait_loop Some (-1) (s2\<lparr>sc_front := 0\<rparr>) = Some (2, st, replicate 144 0, s3) \<and> WIFEXITED st \<and> WEXITSTATUS st = 7"
proof -
  obtain m :: "nat hashmap" where m: "hashmap_inv m" "hashmap_abs m = [pid_key 1 \<mapsto> 0, pid_key 2 \<mapsto> 1]" using life_map(1) by blast
  note l = life_tree [OF m]
  let ?s = "life_start m"
  obtain s1 s2 where s1: "process_kill PROCESS_WAIT_EXITED 7 ?s = Some s1" "sched_tick s1 = Some s2" "sc_queue s2 = [0]"
    using life_run [OF m] by blast
  have "THIS_PROCESS (s2\<lparr>sc_front := 0\<rparr>) = Some 0" using s1(3) by (simp add: THIS_PROCESS_def)
  then show ?thesis using wait_roundtrip [of ?s 1 0 PROCESS_WAIT_EXITED 7 "-1" Some 0] s1(1,2) l(4-6) by (fastforce simp: life_procs life_proc_sel)
qed

definition two_states :: sched where
  "two_states = (life_start (the (fst (hashmap_create []))))\<lparr>sc_front := 0, sc_procs := (\<lambda>_. process_zero\<lparr>pr_nwaits := 2,
     pr_waits := wait_state 5 1 (replicate 144 0) PROCESS_WAIT_EXITED 3 @ wait_state 6 1 (replicate 144 0) PROCESS_WAIT_EXITED 4\<rparr>)\<rparr>"

theorem second_child_gets_first_status_witness:
  "\<exists>s1 s2. do_wait (-1) two_states = Some (5, 3 * 256, replicate 144 0, s1) \<and> do_wait (-1) s1 = Some (6, 3 * 256, replicate 144 0, s2)"
proof -
  have "pr_waits (sc_procs two_states 0) = wait_state 5 1 (replicate 144 0) PROCESS_WAIT_EXITED 3 @ wait_state 6 1 (replicate 144 0) PROCESS_WAIT_EXITED 4"
    "pr_nwaits (sc_procs two_states 0) = 2" "THIS_PROCESS two_states = Some 0"
    by (simp_all add: two_states_def THIS_PROCESS_def life_procs)
  then show ?thesis by (rule second_child_gets_first_status) simp_all
qed



end
