(* ===== verification/Pml_Sched.thy ===== *)
theory Pml_Sched
  imports Pml_Process
begin

text \<open>
  What the thread switch promises (arch/x86_64/thread.c): which threads get their turn, and how soon. The
  switch walks through slots, pairs of an index into the queue of processes and an index
  into the threads of that process.
\<close>

section \<open>Slots\<close>

definition nthreads :: "sched \<Rightarrow> nat \<Rightarrow> nat" where
  "nthreads s i = length (pr_threads (sc_procs s (sc_queue s ! i)))"

definition slots :: "sched \<Rightarrow> (nat \<times> nat) set" where
  "slots s = (SIGMA i:{..<length (sc_queue s)}. {j. j < nthreads s i \<and> (i = exit_process s \<longrightarrow> j = 0)})"

definition slot :: "sched \<Rightarrow> nat \<times> nat" where
  "slot s = (sc_front s, pr_tfront (sc_procs s (sc_queue s ! sc_front s)))"

definition slot_thread :: "sched \<Rightarrow> nat \<times> nat \<Rightarrow> task" where
  "slot_thread s x = pr_threads (sc_procs s (sc_queue s ! fst x)) ! snd x"

text \<open>
  The queue is as long as its counter says and has no process twice, every process has threads, the
  current slot is one of the slots and the processes that do not run would start with their first thread.\<close>

definition queue_ok :: "sched \<Rightarrow> bool" where
  "queue_ok s \<longleftrightarrow> sc_len s = length (sc_queue s) \<and> distinct (sc_queue s) \<and> slot s \<in> slots s \<and>
     (\<forall>i < length (sc_queue s). nthreads s i > 0 \<and> (i \<noteq> sc_front s \<longrightarrow> pr_tfront (sc_procs s (sc_queue s ! i)) = 0))"

definition next_slot :: "sched \<Rightarrow> nat \<times> nat \<Rightarrow> nat \<times> nat" where
  "next_slot s x = (if fst x = exit_process s \<or> Suc (snd x) = nthreads s (fst x)
     then (if Suc (fst x) = length (sc_queue s) then 0 else Suc (fst x), 0) else (fst x, Suc (snd x)))"

text \<open>The part of the state that a switch leaves alone.\<close>

definition same_threads :: "sched \<Rightarrow> sched \<Rightarrow> bool" where
  "same_threads s s' \<longleftrightarrow> sc_queue s' = sc_queue s \<and> sc_len s' = sc_len s \<and> exit_process s' = exit_process s \<and>
     (\<forall>a. pr_threads (sc_procs s' a) = pr_threads (sc_procs s a))"

lemma same_threads_simps:
  assumes "same_threads s s'"
  shows "nthreads s' = nthreads s" "slots s' = slots s" "next_slot s' = next_slot s" "slot_thread s' = slot_thread s"
proof -
  show n: "nthreads s' = nthreads s" using assms by (auto simp: same_threads_def nthreads_def fun_eq_iff)
  then show "slots s' = slots s" "next_slot s' = next_slot s" "slot_thread s' = slot_thread s"
    using assms by (auto simp: same_threads_def slots_def next_slot_def slot_thread_def fun_eq_iff)
qed

lemma same_threads_trans: "same_threads s t \<Longrightarrow> same_threads t u \<Longrightarrow> same_threads s u"
  by (simp add: same_threads_def)

lemma next_slot_in:
  assumes "queue_ok s" "x \<in> slots s"
  shows "next_slot s x \<in> slots s"
proof -
  obtain i j where x: "x = (i, j)" by (cases x)
  have pos: "nthreads s i' > 0" if "i' < length (sc_queue s)" for i' using assms(1) that by (simp add: queue_ok_def)
  have i: "i < length (sc_queue s)" "j < nthreads s i" using assms(2) by (auto simp: x slots_def)
  show ?thesis
  proof (cases "i = exit_process s \<or> Suc j = nthreads s i")
    case True
    then have "next_slot s x = (if Suc i = length (sc_queue s) then 0 else Suc i, 0)" by (simp add: x next_slot_def)
    moreover have "(if Suc i = length (sc_queue s) then 0 else Suc i) < length (sc_queue s)" using i(1) by auto
    ultimately show ?thesis using pos by (simp add: slots_def)
  qed (use i in \<open>auto simp: x next_slot_def slots_def\<close>)
qed

lemma finite_slots: "finite (slots s)"
  unfolding slots_def by (intro finite_SigmaI) auto

section \<open>The steps of the loop\<close>

lemma switch_step_slot:
  assumes "queue_ok s"
  shows "\<exists>s'. switch_step s = Some s' \<and> queue_ok s' \<and> same_threads s s' \<and> slot s' = next_slot s (slot s) \<and>
    THIS_THREAD s' = Some (slot_thread s (slot s'))"
proof -
  let ?a = "sc_queue s ! sc_front s" and ?j = "pr_tfront (sc_procs s (sc_queue s ! sc_front s))"
  have sl: "(sc_front s, ?j) \<in> slots s" using assms by (simp add: queue_ok_def slot_def)
  then have fr: "sc_front s < length (sc_queue s)" "?j < nthreads s (sc_front s)" by (auto simp: slots_def)
  have len: "sc_len s = length (sc_queue s)" and dist: "distinct (sc_queue s)" using assms by (auto simp: queue_ok_def)
  have other: "pr_tfront (sc_procs s (sc_queue s ! i)) = 0 \<and> sc_queue s ! i \<noteq> ?a" if "i < length (sc_queue s)" "i \<noteq> sc_front s" for i
    using assms that dist fr(1) by (simp add: queue_ok_def nth_eq_iff_index_eq)
  define s' where "s' = (if fst (slot s) = exit_process s \<or> Suc (snd (slot s)) = nthreads s (fst (slot s))
    then (upd_proc ?a (\<lambda>p. p\<lparr>pr_tfront := 0\<rparr>) s)\<lparr>sc_front := (if Suc (sc_front s) = sc_len s then 0 else Suc (sc_front s))\<rparr>
    else upd_proc ?a (\<lambda>p. p\<lparr>pr_tfront := Suc ?j\<rparr>) s)"
  have run: "switch_step s = Some s'"
    using fr(1) by (auto simp: switch_step_def THIS_PROCESS_def s'_def slot_def nthreads_def Let_def)
  have same: "same_threads s s'" by (simp add: s'_def same_threads_def)
  have sl': "slot s' = next_slot s (slot s)"
  proof (cases "fst (slot s) = exit_process s \<or> Suc (snd (slot s)) = nthreads s (fst (slot s))")
    case True
    let ?f = "if Suc (sc_front s) = sc_len s then 0 else Suc (sc_front s)"
    have "?f < length (sc_queue s)" using fr(1) len by auto
    then have "pr_tfront (sc_procs s (sc_queue s ! ?f)) = 0" if "?f \<noteq> sc_front s" using other that by blast
    then have "pr_tfront (sc_procs s' (sc_queue s ! ?f)) = 0" using True
      by (cases "?f = sc_front s") (auto simp: s'_def simp del: if_split cong: if_cong)
    then show ?thesis using True len by (simp add: s'_def slot_def next_slot_def)
  qed (simp add: s'_def slot_def next_slot_def)
  have q: "sc_queue s' = sc_queue s" "sc_len s' = sc_len s" using same by (auto simp: same_threads_def)
  have tf: "pr_tfront (sc_procs s' (sc_queue s ! i)) = 0" if i: "i < length (sc_queue s)" "i \<noteq> sc_front s'" for i
    using other [OF i(1)] i by (cases "i = sc_front s") (auto simp: s'_def upd_proc_def slot_def split: if_splits)
  have mem: "slot s' \<in> slots s" unfolding sl' using next_slot_in [OF assms] sl by (simp add: slot_def)
  have ok: "queue_ok s'" using assms tf q mem unfolding queue_ok_def same_threads_simps [OF same] q by blast
  have "slot s' \<in> slots s'" using mem same_threads_simps(2) [OF same] by simp
  then have "sc_front s' < length (sc_queue s')" "pr_tfront (sc_procs s' (sc_queue s' ! sc_front s')) < length (pr_threads (sc_procs s' (sc_queue s' ! sc_front s')))"
    by (simp_all add: slot_def slots_def nthreads_def)
  then have "THIS_THREAD s' = Some (slot_thread s' (slot s'))" by (simp add: THIS_THREAD_def THIS_PROCESS_def slot_def slot_thread_def Let_def)
  then show ?thesis using run ok same sl' unfolding same_threads_simps(4) [OF same] by blast
qed

text \<open>The state after a number of steps of the loop.\<close>

definition steps :: "(sched \<Rightarrow> sched option) \<Rightarrow> nat \<Rightarrow> sched \<Rightarrow> sched option" where
  "steps f n s = ((\<lambda>r. Option.bind r f) ^^ n) (Some s)"

lemma steps_simps: "steps f 0 s = Some s" "steps f (Suc n) s = Option.bind (steps f n s) f"
  by (simp_all add: steps_def)

lemma steps_Suc': "steps f (Suc n) s = Option.bind (f s) (steps f n)"
  by (induction n) (auto simp: steps_simps Option.bind_assoc [symmetric] simp del: Option.bind_assoc intro: Option.bind_cong)

lemma switch_steps:
  assumes "queue_ok s"
  shows "\<exists>s'. steps switch_step n s = Some s' \<and> queue_ok s' \<and> same_threads s s' \<and> slot s' = (next_slot s ^^ n) (slot s)"
proof (induction n)
  case (Suc n)
  then obtain t where t: "steps switch_step n s = Some t" "queue_ok t" "same_threads s t" "slot t = (next_slot s ^^ n) (slot s)" by blast
  obtain s' where "switch_step t = Some s'" "queue_ok s'" "same_threads t s'" "slot s' = next_slot t (slot t)"
    using switch_step_slot [OF t(2)] by blast
  then show ?case using t same_threads_simps(3) [OF t(3)] same_threads_trans by (auto simp: steps_simps)
qed (use assms in \<open>simp add: steps_simps same_threads_def\<close>)

section \<open>Every slot is reached\<close>

lemma next_slot_threads:
  assumes "i \<noteq> exit_process s" "j + d < nthreads s i"
  shows "(next_slot s ^^ d) (i, j) = (i, j + d)"
  using assms(2) by (induction d) (simp_all add: next_slot_def assms(1))

lemma next_slot_process:
  assumes "(i, j) \<in> slots s"
  shows "\<exists>d > 0. (next_slot s ^^ d) (i, j) = (Suc i mod length (sc_queue s), 0)"
proof -
  have i: "i < length (sc_queue s)" "j < nthreads s i" using assms by (auto simp: slots_def)
  have w: "(if Suc i = length (sc_queue s) then 0 else Suc i) = Suc i mod length (sc_queue s)" using i(1) by auto
  show ?thesis
  proof (cases "i = exit_process s")
    case True
    then have "next_slot s (i, j) = (if Suc i = length (sc_queue s) then 0 else Suc i, 0)" by (simp only: next_slot_def fst_conv snd_conv simp_thms if_True)
    then have "next_slot s (i, j) = (Suc i mod length (sc_queue s), 0)" by (simp only: w)
    then show ?thesis by (intro exI [of _ 1]) simp
  next
    case False
    let ?d = "nthreads s i - 1 - j"
    have "(next_slot s ^^ ?d) (i, j) = (i, nthreads s i - 1)" using next_slot_threads [OF False, of j ?d] i(2) by simp
    moreover have "next_slot s (i, nthreads s i - 1) = (if Suc i = length (sc_queue s) then 0 else Suc i, 0)" using i(2) by (simp add: next_slot_def)
    ultimately show ?thesis unfolding w by (intro exI [of _ "Suc ?d"]) simp
  qed
qed

lemma next_slot_processes:
  assumes "queue_ok s" "i < length (sc_queue s)"
  shows "\<exists>d. (next_slot s ^^ d) (i, 0) = ((i + n) mod length (sc_queue s), 0)"
proof (induction n)
  case 0
  show ?case using assms(2) by (intro exI [of _ 0]) simp
next
  case (Suc n)
  let ?i = "(i + n) mod length (sc_queue s)"
  obtain d where d: "(next_slot s ^^ d) (i, 0) = (?i, 0)" using Suc by blast
  have l: "?i < length (sc_queue s)" using assms(2) by (intro mod_less_divisor) linarith
  then have "(?i, 0) \<in> slots s" using assms(1) by (simp add: slots_def queue_ok_def)
  then obtain e where "(next_slot s ^^ e) (?i, 0) = (Suc ?i mod length (sc_queue s), 0)" using next_slot_process by blast
  then show ?case using d by (intro exI [of _ "e + d"]) (simp add: funpow_add mod_Suc_eq)
qed

lemma next_slot_reaches:
  assumes "queue_ok s" "x \<in> slots s" "y \<in> slots s"
  shows "\<exists>d > 0. (next_slot s ^^ d) x = y"
proof -
  obtain i j where x: "x = (i, j)" by (cases x)
  obtain i' j' where y: "y = (i', j')" by (cases y)
  let ?n = "length (sc_queue s)"
  have l: "i < ?n" "i' < ?n" "j' < nthreads s i'" "i' = exit_process s \<longrightarrow> j' = 0" using assms(2,3) by (auto simp: x y slots_def)
  obtain d where d: "d > 0" "(next_slot s ^^ d) x = (Suc i mod ?n, 0)" using next_slot_process assms(2) x by blast
  have m: "Suc i mod ?n < ?n" using l(1) by (intro mod_less_divisor) linarith
  have "(Suc i mod ?n + (?n + i' - Suc i)) mod ?n = (Suc i + (?n + i' - Suc i)) mod ?n" by (rule mod_add_left_eq)
  also have "Suc i + (?n + i' - Suc i) = ?n + i'" using l(1) by simp
  also have "(?n + i') mod ?n = i'" using l(2) by simp
  finally have "(Suc i mod ?n + (?n + i' - Suc i)) mod ?n = i'" .
  then obtain e where e: "(next_slot s ^^ e) (Suc i mod ?n, 0) = (i', 0)" using next_slot_processes [OF assms(1) m, of "?n + i' - Suc i"] by metis
  have "\<exists>f. (next_slot s ^^ f) (i', 0) = (i', j')"
  proof (cases "i' = exit_process s")
    case True
    then show ?thesis using l(4) by (intro exI [of _ 0]) simp
  next
    case False
    then show ?thesis using next_slot_threads [OF False, of 0 j'] l(3) by auto
  qed
  then obtain f where "(next_slot s ^^ f) (i', 0) = (i', j')" by blast
  then show ?thesis using d e y by (intro exI [of _ "f + (e + d)"]) (simp add: funpow_add)
qed

text \<open>A map on a finite set that leads from x to y needs no more steps than the set has elements.\<close>

lemma funpow_short:
  assumes "finite A" "\<And>x. x \<in> A \<Longrightarrow> f x \<in> A" "x \<in> A" "\<exists>d > 0. (f ^^ d) x = y"
  shows "\<exists>d. 0 < d \<and> d \<le> card A \<and> (f ^^ d) x = y"
proof -
  define m where "m = (LEAST d. 0 < d \<and> (f ^^ d) x = y)"
  have m: "0 < m" "(f ^^ m) x = y" and least: "m \<le> d" if "0 < d" "(f ^^ d) x = y" for d
    using LeastI_ex [OF assms(4)] Least_le [of "\<lambda>d. 0 < d \<and> (f ^^ d) x = y"] that by (auto simp: m_def)
  have m: "0 < m" "(f ^^ m) x = y" using LeastI_ex [OF assms(4)] by (auto simp: m_def)
  have A: "(f ^^ d) x \<in> A" for d using assms(2,3) by (induction d) simp_all
  have no: False if "0 < a" "a < b" "b \<le> m" "(f ^^ a) x = (f ^^ b) x" for a b
  proof -
    have "(f ^^ (m - b + a)) x = (f ^^ (m - b + b)) x" using that(4) by (simp add: funpow_add)
    then have "(f ^^ (m - b + a)) x = y" using that(3) m(2) by simp
    then have "m \<le> m - b + a" using that(1) by (intro least) simp_all
    then show False using that(2,3) by simp
  qed
  have "inj_on (\<lambda>d. (f ^^ d) x) {1..m}"
  proof (rule inj_onI)
    fix a b assume "a \<in> {1..m}" "b \<in> {1..m}" "(f ^^ a) x = (f ^^ b) x"
    then show "a = b" using no [of a b] no [of b a] by (cases a b rule: linorder_cases) auto
  qed
  then have "card {1..m} \<le> card A" using A assms(1) by (intro card_inj_on_le [of "\<lambda>d. (f ^^ d) x"]) auto
  then show ?thesis using m by (intro exI [of _ m]) simp
qed

section \<open>Every thread that can run gets its turn\<close>

lemma thread_switch_steps:
  assumes "queue_ok s" "steps switch_step (Suc m) s = Some u" "t_run (slot_thread s (slot u)) = THREAD_STATE_RUNNING"
  shows "\<exists>k. 0 < k \<and> k \<le> Suc m \<and> steps thread_switch k s = Some u"
  using assms
proof (induction m arbitrary: s)
  case (0 s)
  obtain v where v: "switch_step s = Some v" "THIS_THREAD v = Some (slot_thread s (slot v))" using switch_step_slot [OF 0(1)] by blast
  then have "u = v" using 0(2) by (simp add: steps_simps)
  then have "thread_switch s = Some u" using v 0(3) by (simp add: thread_switch.simps [of s])
  then show ?case by (intro exI [of _ 1]) (simp add: steps_simps)
next
  case (Suc m s)
  obtain v where v: "switch_step s = Some v" "THIS_THREAD v = Some (slot_thread s (slot v))" "queue_ok v" "same_threads s v"
    using switch_step_slot [OF Suc.prems(1)] by blast
  have "steps switch_step (Suc m) v = Some u" using Suc.prems(2) v(1) by (simp add: steps_Suc' [of _ "Suc m"])
  then obtain k where k: "0 < k" "k \<le> Suc m" "steps thread_switch k v = Some u"
    using Suc.IH [OF v(3)] Suc.prems(3) same_threads_simps(4) [OF v(4)] by auto
  show ?case
  proof (cases "t_run (slot_thread s (slot v)) = THREAD_STATE_RUNNING")
    case True
    then have "thread_switch s = Some v" using v by (simp add: thread_switch.simps [of s])
    then show ?thesis using k by (intro exI [of _ "Suc k"]) (simp add: steps_Suc')
  next
    case False
    then have "thread_switch s = thread_switch v" using v by (simp add: thread_switch.simps [of s])
    moreover obtain k' where "k = Suc k'" using k(1) by (cases k) auto
    ultimately show ?thesis using k by (intro exI [of _ k]) (simp add: steps_Suc')
  qed
qed

lemma thread_switch_keeps:
  assumes "thread_switch s = Some s'"
  shows "queue_ok s \<longrightarrow> queue_ok s' \<and> same_threads s s'"
proof (rule thread_switch.raw_induct [OF _ assms])
  fix f s s' assume IH: "\<And>s s'. f s = Some s' \<Longrightarrow> queue_ok s \<longrightarrow> queue_ok s' \<and> same_threads s s'"
    and run: "(do {s \<leftarrow> switch_step s; t \<leftarrow> THIS_THREAD s; if t_run t \<noteq> THREAD_STATE_RUNNING then f s else Some s}) = Some s'"
  then obtain u where u: "switch_step s = Some u" "s' = u \<or> f u = Some s'" by (auto simp: bind_eq_Some_conv split: if_splits)
  have "queue_ok u \<and> same_threads s u" if "queue_ok s" using switch_step_slot [OF that] u(1) by auto
  then show "queue_ok s \<longrightarrow> queue_ok s' \<and> same_threads s s'" using u(2) IH same_threads_trans by blast
qed

lemma switches_keep: "queue_ok s \<Longrightarrow> steps thread_switch k s = Some s' \<Longrightarrow> queue_ok s' \<and> same_threads s s'"
proof (induction k arbitrary: s')
  case (Suc k)
  then obtain u where "steps thread_switch k s = Some u" "thread_switch u = Some s'" by (auto simp: steps_simps bind_eq_Some_conv)
  then show ?case using Suc.IH [OF Suc.prems(1)] thread_switch_keeps [of u s'] same_threads_trans by blast
qed (simp add: steps_simps same_threads_def)

lemma card_slots: "card (slots s) \<le> (\<Sum>i<length (sc_queue s). nthreads s i)"
proof -
  have "card (slots s) = (\<Sum>i<length (sc_queue s). card {j. j < nthreads s i \<and> (i = exit_process s \<longrightarrow> j = 0)})"
    unfolding slots_def by (simp add: card_SigmaI)
  also have "\<dots> \<le> (\<Sum>i<length (sc_queue s). nthreads s i)"
    by (intro sum_mono) (metis (no_types, lifting) card_Collect_less_nat card_mono finite_Collect_less_nat mem_Collect_eq subsetI)
  finally show ?thesis .
qed

text \<open>
  C10: Which threads get their turn, when no thread changes its state meanwhile: a thread that can run is given the processor within as many
  switches as there are threads, and the queues stay well formed, unless it is a thread other than the first of the process whose index
  is \<open>exit_process\<close>; such a thread is never switched to. This index is 0 as long as no process has ended, so the
  process at the front of the table runs only its first thread.\<close>

theorem thread_gets_turn:
  assumes ok: "queue_ok s" and x: "i < length (sc_queue s)" "j < nthreads s i" "t_run (slot_thread s (i, j)) = THREAD_STATE_RUNNING"
  shows "if i = exit_process s \<and> j \<noteq> 0 then \<forall>k s'. steps thread_switch k s = Some s' \<longrightarrow> slot s' \<noteq> (i, j)
    else \<exists>k s'. 0 < k \<and> k \<le> (\<Sum>i<length (sc_queue s). nthreads s i) \<and> steps thread_switch k s = Some s' \<and> queue_ok s' \<and>
      slot s' = (i, j) \<and> THIS_THREAD s' = Some (slot_thread s (i, j))"
proof (cases "i = exit_process s \<and> j \<noteq> 0")
  case True
  have "slot s' \<noteq> (i, j)" if "steps thread_switch k s = Some s'" for k s'
  proof -
    have "slot s' \<in> slots s" using switches_keep [OF ok that] same_threads_simps(2) [of s s'] by (simp add: queue_ok_def)
    then show ?thesis using True by (auto simp: slots_def)
  qed
  then show ?thesis using True by simp
next
  case False
  then have m: "(i, j) \<in> slots s" using x by (auto simp: slots_def)
  have sl: "slot s \<in> slots s" using ok by (simp add: queue_ok_def)
  obtain d where d: "0 < d" "d \<le> card (slots s)" "(next_slot s ^^ d) (slot s) = (i, j)"
    using funpow_short [OF finite_slots next_slot_in [OF ok] sl next_slot_reaches [OF ok sl m]] by blast
  obtain n where n: "d = Suc n" using d(1) by (cases d) auto
  obtain u where u: "steps switch_step d s = Some u" "queue_ok u" "same_threads s u" "slot u = (i, j)"
    using switch_steps [OF ok, of d] d(3) by auto
  have "(i, j) \<in> slots u" using same_threads_simps(2) [OF u(3)] m by simp
  then have "THIS_THREAD u = Some (slot_thread u (slot u))" using u(4)
    by (auto simp: THIS_THREAD_def THIS_PROCESS_def slot_def slot_thread_def slots_def nthreads_def Let_def)
  moreover obtain k where "0 < k" "k \<le> d" "steps thread_switch k s = Some u"
    using thread_switch_steps [OF ok u(1) [unfolded n]] u(4) x(3) n by auto
  moreover have "d \<le> (\<Sum>i<length (sc_queue s). nthreads s i)" using d(2) card_slots le_trans by blast
  ultimately show ?thesis using u same_threads_simps(4) [OF u(3)] False by (intro if_not_P [THEN iffD2]) auto
qed

definition turn_thread :: "thread_state \<Rightarrow> task" where
  "turn_thread r = \<lparr>t_tid = 1, t_args = clone_args, t_run = r, t_error = 0\<rparr>"

definition turn_start :: sched where
  "turn_start = (life_start (the (fst (hashmap_create []))))\<lparr>sc_front := 0, sc_procs := (\<lambda>a. process_zero\<lparr>pr_threads :=
     (if a = 0 then [turn_thread THREAD_STATE_RUNNING] else [turn_thread THREAD_STATE_BLOCKED, turn_thread THREAD_STATE_RUNNING])\<rparr>)\<rparr>"

theorem thread_gets_turn_witness:
  "\<exists>k s'. 0 < k \<and> k \<le> 3 \<and> steps thread_switch k turn_start = Some s' \<and> sc_front s' = 1 \<and> THIS_THREAD s' = Some (turn_thread THREAD_STATE_RUNNING)"
proof -
  have f: "sc_queue turn_start = [0, 1]" "sc_len turn_start = 2" "sc_front turn_start = 0" "exit_process turn_start = 0"
    "pr_tfront (sc_procs turn_start a) = 0" "pr_threads (sc_procs turn_start a) =
     (if a = 0 then [turn_thread THREAD_STATE_RUNNING] else [turn_thread THREAD_STATE_BLOCKED, turn_thread THREAD_STATE_RUNNING])" for a
    by (simp_all add: turn_start_def life_procs process_zero_def)
  have n: "nthreads turn_start 0 = 1" "nthreads turn_start 1 = 2" using f by (simp_all add: nthreads_def)
  have sl: "slots turn_start = {(0, 0), (1, 0), (1, 1)}" using f
    by (auto simp: slots_def nthreads_def less_Suc_eq numeral_2_eq_2)
  have ok: "queue_ok turn_start" using f by (auto simp: queue_ok_def slot_def sl nthreads_def less_Suc_eq numeral_2_eq_2)
  have th: "slot_thread turn_start (1, 1) = turn_thread THREAD_STATE_RUNNING" using f by (simp add: slot_thread_def)
  then have "t_run (slot_thread turn_start (1, 1)) = THREAD_STATE_RUNNING" by (simp add: turn_thread_def)
  moreover have sum: "(\<Sum>i<length (sc_queue turn_start). nthreads turn_start i) = 3" using f n by (simp add: numeral_2_eq_2)
  ultimately have "\<exists>k s'. 0 < k \<and> k \<le> 3 \<and> steps thread_switch k turn_start = Some s' \<and> queue_ok s' \<and>
      slot s' = (1, 1) \<and> THIS_THREAD s' = Some (slot_thread turn_start (1, 1))"
    using thread_gets_turn [OF ok, of 1 1, unfolded sum] f n by simp
  then show ?thesis using th by (auto simp: slot_def)
qed

end
