(* ===== verification/Pml_Clone.thy ===== *)
theory Pml_Clone
  imports Pml_Thread
begin

text \<open>
  What \<open>thread_clone\<close> (arch/x86_64/thread.c) promises when memory is sufficient: it succeeds, user
  memory is shared, copy on write when asked for, and every page of the stacks is copied to
  a frame that was free. The first part counts the free frames ahead of the search pointer of the page
  allocator, and shows that mapping pages succeeds while there are enough of them.
\<close>

section \<open>Free frames\<close>

text \<open>The free frames between the search pointer and the end of the last region.\<close>

definition frames_ahead :: "page_alloc \<Rightarrow> nat set" where
  "frames_ahead s = {i. frame (next_phys_addr s) \<le> i \<and> i < frame (rg_base (last (mm_regions s)) + rg_len (last (mm_regions s))) \<and>
     i < length (phys_alloc_table s) \<and> phys_alloc_table s ! i = 0}"

definition room :: "page_alloc \<Rightarrow> nat \<Rightarrow> bool" where
  "room s k \<longleftrightarrow> mem_avail s \<and> mm_curr s = length (mm_regions s) - 1 \<and> 0 < frame (next_phys_addr s) \<and> k \<le> card (frames_ahead s)"

lemma frames_ahead_finite: "finite (frames_ahead s)"
  by (rule finite_subset [of _ "{..<length (phys_alloc_table s)}"]) (auto simp: frames_ahead_def)

lemma room_mono: "room s k \<Longrightarrow> j \<le> k \<Longrightarrow> room s j"
  by (simp add: room_def)

lemma next_page_ahead:
  assumes "pa_inv s" "mm_curr s = length (mm_regions s) - 1"
    and "frame (next_phys_addr s) < frame (rg_base (last (mm_regions s)) + rg_len (last (mm_regions s)))"
  shows "vm_next_page s = Some (s\<lparr>next_phys_addr := next_phys_addr s + PAGE_SIZE\<rparr>)"
    "frame (next_phys_addr s + PAGE_SIZE) = Suc (frame (next_phys_addr s))"
proof -
  let ?r = "last (mm_regions s)"
  have rs: "mm_regions s \<noteq> []" "?r = mm_regions s ! (length (mm_regions s) - 1)" using assms(1) by (simp_all add: pa_inv_def last_conv_nth)
  have lt: "next_phys_addr s < rg_base ?r + rg_len ?r"
    using assms(3) by (simp add: frame_def word_less_nat_alt)
  have "next_region (mm_regions s) (mm_curr s) (next_phys_addr s) = (mm_curr s, None)"
    using assms(2) by (subst next_region.simps) simp
  then show "vm_next_page s = Some (s\<lparr>next_phys_addr := next_phys_addr s + PAGE_SIZE\<rparr>)"
    using rs lt assms(2) by (simp add: vm_next_page_def Let_def)
  have "region_ok (length (phys_alloc_table s)) ?r" "4096 * length (phys_alloc_table s) \<le> 2 ^ 64"
    using assms(1) rs(1) by (simp_all add: pa_inv_def list_all_iff)
  then have fits: "unat (rg_base ?r) + unat (rg_len ?r) + 4096 \<le> 2 ^ 64" by (simp add: region_ok_def)
  then have "unat (rg_base ?r + rg_len ?r) = unat (rg_base ?r) + unat (rg_len ?r)" by (intro unat_plus64) simp
  then have "unat (next_phys_addr s) + 4096 < 2 ^ 64" using lt fits by (simp add: word_less_nat_alt)
  then show "frame (next_phys_addr s + PAGE_SIZE) = Suc (frame (next_phys_addr s))"
    by (simp add: frame_def PAGE_SIZE_def unat_plus64)
qed

lemma alloc_room:
  "pa_inv s \<Longrightarrow> room s (Suc k) \<Longrightarrow>
     \<exists>a s'. alloc_page s = Some (a, s') \<and> a \<noteq> 0 \<and> alloc_result s a s' \<and> room s' k"
proof (induction "length (phys_alloc_table s) - frame (next_phys_addr s)" arbitrary: s rule: less_induct)
  case less
  let ?i = "frame (next_phys_addr s)" and ?E = "frame (rg_base (last (mm_regions s)) + rg_len (last (mm_regions s)))"
  note inv = \<open>pa_inv s\<close>
  have room: "mem_avail s" "mm_curr s = length (mm_regions s) - 1" "0 < ?i" "Suc k \<le> card (frames_ahead s)"
    using less.prems(2) by (simp_all add: room_def)
  have i: "?i < length (phys_alloc_table s)" "page_aligned (next_phys_addr s)" using inv by (simp_all add: pa_inv_def)
  have "frames_ahead s \<noteq> {}" using room(4) by auto
  then have E: "?i < ?E" by (auto simp: frames_ahead_def)
  show ?case
  proof (cases "phys_alloc_table s ! ?i = 0")
    case True
    define t where "t = s\<lparr>phys_alloc_table := (phys_alloc_table s)[?i := 1]\<rparr>"
    have t: "pa_inv t" "mm_curr t = length (mm_regions t) - 1" "frame (next_phys_addr t) < frame (rg_base (last (mm_regions t)) + rg_len (last (mm_regions t)))"
      "mem_avail t" using inv room(1,2) E by (simp_all add: t_def pa_inv_def)
    let ?t = "t\<lparr>next_phys_addr := next_phys_addr t + PAGE_SIZE\<rparr>"
    note n = next_page_ahead [OF t(1-3)]
    have run: "alloc_page s = Some (next_phys_addr s, ?t)" using True i(1) room(1) n(1) by (subst alloc_page.simps) (simp add: t_def)
    have invt: "pa_inv ?t" using vm_next_page_step [OF t(1,4)] n(1) by auto
    have "frames_ahead ?t = frames_ahead s - {?i}" using n(2) i(1) True E
      by (auto simp: frames_ahead_def t_def nth_list_update)
    moreover have "?i \<in> frames_ahead s" using True E i(1) by (simp add: frames_ahead_def)
    ultimately have "k \<le> card (frames_ahead ?t)" using room(4) frames_ahead_finite by (simp add: card_Diff_singleton)
    then have "room ?t k" using room n(2) by (simp add: room_def t_def)
    moreover have "next_phys_addr s \<noteq> 0" using room(3) by (auto simp: frame_def)
    moreover have "alloc_result s (next_phys_addr s) ?t" using invt i True by (simp add: alloc_result_def t_def)
    ultimately show ?thesis using run by blast
  next
    case False
    let ?t = "s\<lparr>next_phys_addr := next_phys_addr s + PAGE_SIZE\<rparr>"
    note n = next_page_ahead [OF inv room(2) E]
    have invt: "pa_inv ?t" using vm_next_page_step [OF inv room(1)] n(1) by auto
    have "frames_ahead ?t = frames_ahead s" using n(2) False by (auto simp: frames_ahead_def Suc_le_eq order.order_iff_strict)
    then have "room ?t (Suc k)" using room n(2) by (simp add: room_def)
    moreover have "length (phys_alloc_table ?t) - frame (next_phys_addr ?t) < length (phys_alloc_table s) - ?i" using n(2) i(1) by simp
    ultimately obtain a s' where a: "alloc_page ?t = Some (a, s')" "a \<noteq> 0" "alloc_result ?t a s'" "room s' k"
      using less.hyps [of ?t] invt by blast
    have "alloc_page s = alloc_page ?t" using False i(1) room(1) n(1) by (subst alloc_page.simps) simp
    then show ?thesis using a by (auto simp: alloc_result_def)
  qed
qed

lemma ref_page_room:
  assumes "ref_page e pg = Some pg'" "room pg k"
  shows "room pg' k"
proof -
  have "frames_ahead pg \<subseteq> frames_ahead pg'"
    using assms(1) by (auto simp: ref_page_def frames_ahead_def Let_def nth_list_update split: if_splits)
  then have "card (frames_ahead pg) \<le> card (frames_ahead pg')" by (rule card_mono [OF frames_ahead_finite])
  then show ?thesis using assms by (auto simp: room_def ref_page_def Let_def split: if_splits)
qed

lemma each_ref_room: "each_entry ref_page es pg = Some pg' \<Longrightarrow> room pg k \<Longrightarrow> room pg' k"
  by (induction es arbitrary: pg) (auto simp: bind_eq_Some_conv dest: ref_page_room)

section \<open>Mapping pages of thread-local memory\<close>

text \<open>No large pages in the thread-local part of an address space.\<close>

definition no_large :: "u64 \<Rightarrow> vm_state \<Rightarrow> bool" where
  "no_large n x \<longleftrightarrow> (\<forall>i q. i < 512 \<longrightarrow> path 2 q \<longrightarrow> q \<noteq> [] \<longrightarrow> last q = TL \<longrightarrow> \<not> large (ent x n (i # q)))"

lemma no_largeD: "no_large n x \<Longrightarrow> i < 512 \<Longrightarrow> path 2 q \<Longrightarrow> q \<noteq> [] \<Longrightarrow> last q = TL \<Longrightarrow> \<not> large (ent x n (i # q))"
  by (simp add: no_large_def)

lemma ensure_table_room:
  assumes inv: "vm_inv n x" and q: "path 2 q" "i < 512" "last (i # q) = TL" and t: "tbl x n q = Some t" and fl: "page_flags fl"
    and free: "room (vm_pages x) (Suc k)" and small: "no_large n x"
  shows "\<exists>y. ensure_table t i fl x = Some (True, y) \<and> room (vm_pages y) k \<and> no_large n y \<and> vm_step n (i # q) x y \<and>
    tbl y n (i # q) = Some (table_at (entry y t i)) \<and> (q \<noteq> [] \<longrightarrow> \<not> large (entry y t i))"
proof -
  have q3: "path 3 q" using q(1) by (rule path_mono) simp
  obtain ok y where y: "ensure_table t i fl x = Some (ok, y)" "vm_step n (i # q) x y" "ok \<longrightarrow> present (entry y t i)"
    using ensure_table_ok [OF inv q(1,2) t fl] by blast
  have st: "struct_at t" using vm_invD(2) [OF inv q3 t] by (rule table_frame_struct)
  have res: "ok \<and> room (vm_pages y) k \<and> (large (entry y t i) \<longrightarrow> large (entry x t i))"
  proof (cases "present (entry x t i)")
    case True
    then show ?thesis using y(1) room_mono [OF free, of k] by (simp add: ensure_table_def)
  next
    case np: False
    obtain a pg where al: "alloc_page (vm_pages x) = Some (a, pg)" "a \<noteq> 0" "alloc_result (vm_pages x) a pg" "room pg k"
      using alloc_room [OF vm_invD(1) [OF inv] free] by blast
    let ?x1 = "set_entry t i a (x\<lparr>vm_pages := pg\<rparr>)" and ?fl = "PAGE_FLAG_PRESENT OR PAGE_FLAG_RW OR PAGE_FLAG_USER OR fl"
    have a: "page_aligned a" "phys_alloc_table (vm_pages x) ! frame a = 0" using al(2,3) by (auto simp: alloc_result_def)
    have tn: "t \<noteq> PHYS_REL a" using vm_invD(2) [OF inv q3 t] a by (auto simp: table_frame_def PHYS_REL_def)
    have sa: "struct_at (PHYS_REL a)" using a(1) by (auto simp: struct_at_def)
    have r1: "entry ?x1 t i = a" by (simp add: entry_def set_entry_def)
    have "ok \<and> y = set_entry t i (a OR ?fl) (clear_struct (PHYS_REL a) ?x1)"
      using y(1) np al(1,2) r1 entry_clear [OF sa st q(2), of ?x1] tn by (auto simp: ensure_table_def Let_def or.assoc)
    moreover from this have "entry y t i = a OR ?fl" by (simp add: entry_def set_entry_def)
    ultimately show ?thesis using al(4) entry_flags(2) [OF a(1) page_flags_or [OF fl]] by (simp add: set_entry_def clear_struct_def)
  qed
  have e: "ent y n (i # q) = entry y t i" "ent x n (i # q) = entry x t i" using vm_step_tbl [OF y(2) q3] t by simp_all
  have nl: "\<not> large (entry y t i)" if "q \<noteq> []" using res no_largeD [OF small q(2,1) that] q(3) that e(2) by auto
  have "no_large n y" unfolding no_large_def
  proof (intro allI impI)
    fix j r assume r: "j < (512 :: u64)" "path 2 r" "r \<noteq> []" "last r = TL"
    have "path 4 (j # r)" using r(1,2) by (auto simp: path_def)
    then show "\<not> large (ent y n (j # r))"
      using y(2) no_largeD [OF small r] nl r(3) e(1) unfolding vm_step_def by (cases "j # r = i # q") auto
  qed
  moreover have "tbl y n (i # q) = Some (table_at (entry y t i))"
    using vm_step_trans_tbl [OF y(2) q(1,2) t] y(3) res nl by blast
  moreover have "ensure_table t i fl x = Some (True, y)" using y(1) res by simp
  ultimately show ?thesis using y(2) res nl by blast
qed

lemma vm_map_page_room:
  assumes inv: "vm_inv n x" and v: "PML4T_INDEX v = TL" "canonical v" and fl: "page_flags (ucast flags)"
    and free: "room (vm_pages x) (k + 3)" and small: "no_large n x"
  shows "\<exists>y. vm_map_page n phys v flags x = Some (Map_ok, y) \<and> room (vm_pages y) k \<and> no_large n y"
proof -
  let ?i3 = "PDPT_INDEX v" and ?i2 = "PDT_INDEX v" and ?fl = "ucast flags :: u64"
  have room3: "room (vm_pages x) (Suc (Suc (Suc k)))" using free by (simp add: eval_nat_numeral)
  obtain s1 where s1: "ensure_table n TL ?fl x = Some (True, s1)" "room (vm_pages s1) (Suc (Suc k))" "no_large n s1"
    "vm_step n [TL] x s1" "tbl s1 n [TL] = Some (table_at (entry s1 n TL))"
    using ensure_table_room [OF inv _ TL_value(3) _ _ fl room3 small, of "[]"] by auto
  have inv1: "vm_inv n s1" using s1(4) by (simp add: vm_step_def)
  let ?pdpt = "table_at (entry s1 n TL)"
  have p: "path 2 [TL]" "path 2 [?i3, TL]" "path 3 [?i2, ?i3, TL]" using TL_value by (simp_all add: numeral_eq_Suc)
  obtain s2 where s2: "ensure_table ?pdpt ?i3 ?fl s1 = Some (True, s2)" "room (vm_pages s2) (Suc k)" "no_large n s2"
    "vm_step n [?i3, TL] s1 s2" "tbl s2 n [?i3, TL] = Some (table_at (entry s2 ?pdpt ?i3))" "\<not> large (entry s2 ?pdpt ?i3)"
    using ensure_table_room [OF inv1 p(1) index_less(2) _ s1(5) fl s1(2,3)] by auto
  have inv2: "vm_inv n s2" using s2(4) by (simp add: vm_step_def)
  let ?pdt = "table_at (entry s2 ?pdpt ?i3)"
  obtain s3 where s3: "ensure_table ?pdt ?i2 ?fl s2 = Some (True, s3)" "room (vm_pages s3) k" "no_large n s3"
    "vm_step n [?i2, ?i3, TL] s2 s3" "tbl s3 n [?i2, ?i3, TL] = Some (table_at (entry s3 ?pdt ?i2))" "\<not> large (entry s3 ?pdt ?i2)"
    using ensure_table_room [OF inv2 p(2) index_less(3) _ s2(5) fl s2(2,3)] by auto
  have inv3: "vm_inv n s3" using s3(4) by (simp add: vm_step_def)
  let ?e = "ALIGN_DOWN phys PAGE_SIZE OR PAGE_FLAG_PRESENT OR ?fl" and ?pt = "table_at (entry s3 ?pdt ?i2)"
  let ?y = "set_entry ?pt (PT_INDEX v) ?e s3"
  have run: "vm_map_page n phys v flags x = Some (Map_ok, ?y)"
    using v s1(1) s2(1,6) s3(1,6) by (simp add: vm_map_page_def Let_def)
  have upd: "ent_upd n (PT_INDEX v # [?i2, ?i3, TL]) ?e s3 ?y"
    using set_entry_ent [OF inv3 p(3) _ s3(5), of "PT_INDEX v" ?e] by simp
  have "no_large n ?y" unfolding no_large_def
  proof (intro allI impI)
    fix j r assume r: "j < (512 :: u64)" "path 2 r" "r \<noteq> []" "last r = TL"
    have "path 4 (j # r)" "j # r \<noteq> PT_INDEX v # [?i2, ?i3, TL]" using r(1,2) by (auto simp: path_def)
    then show "\<not> large (ent ?y n (j # r))" using ent_updD [OF upd, of "j # r"] no_largeD [OF s3(3) r] by (auto simp del: ent.simps)
  qed
  then show ?thesis using run s3(2) by (simp add: set_entry_def)
qed

section \<open>What is safe while the clone is filled\<close>

text \<open>Frames that are free, pages in use that are not structures of the clone, and address spaces made of such pages.\<close>

definition free_frame :: "vm_state \<Rightarrow> u64 \<Rightarrow> bool" where
  "free_frame x c \<longleftrightarrow> page_aligned c \<and> frame c < length (phys_alloc_table (vm_pages x)) \<and> phys_alloc_table (vm_pages x) ! frame c = 0"

lemma free_frame_unused: "free_frame x c \<Longrightarrow> \<not> table_frame x (PHYS_REL c)"
  by (auto simp: free_frame_def table_frame_def PHYS_REL_def)

definition safe :: "u64 \<Rightarrow> vm_state \<Rightarrow> u64 \<Rightarrow> bool" where
  "safe n x u \<longleftrightarrow> table_frame x u \<and> u \<notin> own n x \<and> u \<noteq> n"

definition apart :: "u64 \<Rightarrow> u64 \<Rightarrow> vm_state \<Rightarrow> bool" where
  "apart p n x \<longleftrightarrow> vm_inv p x \<and> (\<forall>q u. path 3 q \<longrightarrow> tbl x p q = Some u \<longrightarrow> safe n x u)"

lemma kept_safe:
  assumes "kept n x y" "safe n x u"
  shows "safe n y u" "j < 512 \<Longrightarrow> entry y u j = entry x u j"
  using assms unfolding kept_def safe_def by blast+

lemma kept_free: "kept n x y \<Longrightarrow> free_frame y c \<Longrightarrow> free_frame x c"
  by (auto simp: kept_def free_frame_def)

lemma kept_apart:
  assumes k: "kept n x y" and a: "apart p n x"
  shows "apart p n y" "vm_phys_addr p w y = vm_phys_addr p w x"
proof -
  have safe: "safe n x u" if "path 3 q" "tbl x p q = Some u" for q u using a that by (simp add: apart_def)
  have t: "tbl y p q = tbl x p q" if "path 3 q" for q
    using that
  proof (induction q)
    case (Cons i q)
    have q: "path 3 q" and i: "i < 512" using Cons.prems by (auto simp: path_def)
    then show ?case using Cons.IH kept_safe(2) [OF k safe [OF q] i] by (auto split: option.splits)
  qed simp
  have inv: "vm_inv p x" using a by (simp add: apart_def)
  have "vm_inv p y" using inv k kept_inv [OF k] t unfolding vm_inv_def kept_def by auto
  then show "apart p n y" using safe kept_safe(1) [OF k] by (auto simp: apart_def t)
  show "vm_phys_addr p w y = vm_phys_addr p w x"
    by (rule kept_xlat [OF k inv]) (use safe in \<open>auto simp: safe_def\<close>)
qed

text \<open>Stores to a frame that was free change nothing of an address space.\<close>

lemma free_frame_store:
  assumes inv: "vm_inv n x" and cells: "\<forall>u j. table_frame x u \<longrightarrow> j < 512 \<longrightarrow> entry y u j = entry x u j"
  shows "path 3 q \<Longrightarrow> tbl y n q = tbl x n q" "path 3 q \<Longrightarrow> i < 512 \<Longrightarrow> ent y n (i # q) = ent x n (i # q)"
    "vm_phys_addr n w y = vm_phys_addr n w x"
proof -
  show t: "tbl y n q = tbl x n q" if "path 3 q" for q
    using that
  proof (induction q)
    case (Cons i q)
    have q: "path 3 q" and i: "i < 512" using Cons.prems by (auto simp: path_def)
    then show ?case using Cons.IH cells vm_invD(2) [OF inv q] by (auto split: option.splits)
  qed simp
  show e: "ent y n (i # q) = ent x n (i # q)" if "path 3 q" "i < 512" for i q
    using t [OF that(1)] cells vm_invD(2) [OF inv that(1)] that(2) by (auto split: option.splits)
  show "vm_phys_addr n w y = vm_phys_addr n w x" by (rule xlat_by_ent) (rule e)
qed

lemma copy_page_facts:
  fixes src :: u64
  assumes inv: "vm_inv n x" and al: "alloc_result (vm_pages x) c pg" "c \<noteq> 0" and small: "no_large n x"
  defines "y \<equiv> copy_page (PHYS_REL c) src (x\<lparr>vm_pages := pg\<rparr>)"
  shows "page_aligned c" "free_frame x c" "safe n y (PHYS_REL c)" "no_large n y"
    "vm_phys_addr n w y = vm_phys_addr n w x" "j < 512 \<Longrightarrow> entry y (PHYS_REL c) j = entry x src j"
proof -
  show c: "page_aligned c" and ff: "free_frame x c" using al by (auto simp: alloc_result_def free_frame_def)
  have nf: "\<not> table_frame x (PHYS_REL c)" by (rule free_frame_unused [OF ff])
  have sc: "struct_at (PHYS_REL c)" using c by (auto simp: struct_at_def)
  have "entry y u j = entry x u j" if "table_frame x u" "j < 512" for u j
  proof -
    have "u \<noteq> PHYS_REL c" using that(1) nf by auto
    then show ?thesis using entry_copy_page [OF sc table_frame_struct [OF that(1)] that(2)] by (simp add: y_def entry_def)
  qed
  then have cells: "\<forall>u j. table_frame x u \<longrightarrow> j < 512 \<longrightarrow> entry y u j = entry x u j" by blast
  note f = free_frame_store [OF inv cells]
  have "table_frame y (PHYS_REL c)" using al c by (auto simp: alloc_result_def table_frame_def y_def copy_page_def)
  moreover have "PHYS_REL c \<notin> own n y" using vm_invD(2) [OF inv] nf by (auto simp: own_def f(1))
  moreover have "PHYS_REL c \<noteq> n" using vm_invD(2) [OF inv, of "[]"] nf by auto
  ultimately show "safe n y (PHYS_REL c)" by (simp add: safe_def)
  show "no_large n y" unfolding no_large_def
  proof (intro allI impI)
    fix j r assume r: "j < (512 :: u64)" "path 2 r" "r \<noteq> []" "last r = TL"
    have "path 3 r" using r(2) by (rule path_mono) simp
    then show "\<not> large (ent y n (j # r))" using f(2) [OF _ r(1)] no_largeD [OF small r] by (simp del: ent.simps)
  qed
  show "vm_phys_addr n w y = vm_phys_addr n w x" by (rule f(3))
  show "entry y (PHYS_REL c) j = entry x src j" if "j < 512"
    using entry_copy_page [OF sc sc that] by (simp add: y_def entry_def)
qed

section \<open>The stacks\<close>

text \<open>A page of the clone is a copy when its frame was free before and holds the words of the page of the original.\<close>

definition copied :: "u64 \<Rightarrow> u64 \<Rightarrow> u64 \<Rightarrow> vm_state \<Rightarrow> vm_state \<Rightarrow> bool" where
  "copied p n a x y \<longleftrightarrow> free_frame x (vm_phys_addr n a y) \<and>
     (\<forall>j < 512. entry y (PHYS_REL (vm_phys_addr n a y)) j = entry x (PHYS_REL (vm_phys_addr p a x)) j)"

definition stack_page :: "u64 \<Rightarrow> bool" where
  "stack_page a \<longleftrightarrow> page_aligned a \<and> canonical a \<and> PML4T_INDEX a = TL"

lemma clone_page_step:
  assumes inv: "vm_inv n x" and a: "stack_page a" and free: "room (vm_pages x) (k + 4)" and small: "no_large n x"
  shows "\<exists>c y. (\<forall>as. clone_pages old n (a # as) x = clone_pages old n as y) \<and> kept n x y \<and> room (vm_pages y) k \<and> no_large n y \<and>
    vm_phys_addr n a y = c \<and> free_frame x c \<and> safe n y (PHYS_REL c) \<and>
    (\<forall>j < 512. entry y (PHYS_REL c) j = entry x (PHYS_REL (vm_phys_addr old a x)) j) \<and>
    (\<forall>w. ALIGN_DOWN w PAGE_SIZE \<noteq> a \<longrightarrow> vm_phys_addr n w y = vm_phys_addr n w x)"
proof -
  have room4: "room (vm_pages x) (Suc (k + 3))" using free by (simp add: eval_nat_numeral)
  obtain c pg where al: "alloc_page (vm_pages x) = Some (c, pg)" "c \<noteq> 0" "alloc_result (vm_pages x) c pg" "room pg (k + 3)"
    using alloc_room [OF vm_invD(1) [OF inv] room4] by blast
  let ?src = "PHYS_REL (vm_phys_addr old a x)"
  let ?x = "copy_page (PHYS_REL c) ?src (x\<lparr>vm_pages := pg\<rparr>)"
  note f = copy_page_facts [OF inv al(3,2) small]
  have k1: "kept n x ?x" by (rule copy_page_kept [OF inv al(3,2)])
  have v: "PML4T_INDEX a = TL" "canonical a" "ALIGN_DOWN a PAGE_SIZE = a" "page_aligned a"
    using a align_down_id by (auto simp: stack_page_def)
  have "vm_pages ?x = pg" by (simp add: copy_page_def)
  then obtain y where y: "vm_map_page n c a 6 ?x = Some (Map_ok, y)" "room (vm_pages y) k" "no_large n y"
    using vm_map_page_room [OF kept_inv [OF k1] v(1,2) flags_ok(1) _ f(4), of k c] al(4) by auto
  have k2: "kept n ?x y" by (rule vm_map_page_kept [OF kept_inv [OF k1] v(1) flags_ok(1) y(1)])
  have off: "a AND (PAGE_SIZE - 1) = 0"
  proof -
    have "PAGE_SIZE - 1 = mask 12" by (simp add: PAGE_SIZE_def mask_eq_exp_minus_1)
    then show ?thesis using page_aligned_bit [OF v(4)] by (intro bit_word_eqI) (auto simp: bit_simps)
  qed
  have xl: "vm_phys_addr n w y = (if ALIGN_DOWN w PAGE_SIZE = a then c OR (w AND (PAGE_SIZE - 1)) else vm_phys_addr n w x)" for w
    using vm_map_page_ok [OF kept_inv [OF k1] flags_ok(1), of c a] y(1) v(3) f(5) align_down_id [OF f(1)] by auto
  have run: "clone_pages old n (a # as) x = clone_pages old n as y" for "as"
    using al(1,2) y(1) by (simp add: Let_def vm_phys_addr_pages)
  have "vm_phys_addr n a y = c" using xl [of a] v(3) off by simp
  moreover have "safe n y (PHYS_REL c)" "\<forall>j < 512. entry y (PHYS_REL c) j = entry x ?src j"
    using kept_safe [OF k2 f(3)] f(6) by auto
  moreover have "kept n x y" by (rule kept_trans [OF k1 k2])
  ultimately show ?thesis using run y(2,3) f(2) xl by auto
qed

lemma clone_pages_room:
  assumes "vm_inv n x" "no_large n x" "room (vm_pages x) (4 * length as + k)" "\<forall>a \<in> set as. stack_page a" "distinct as"
    and "apart p n x" "\<forall>a \<in> set as. safe n x (PHYS_REL (vm_phys_addr p a x))"
  shows "\<exists>y. clone_pages p n as x = Some (True, y) \<and> kept n x y \<and> room (vm_pages y) k \<and> no_large n y \<and>
    (\<forall>w. ALIGN_DOWN w PAGE_SIZE \<notin> set as \<longrightarrow> vm_phys_addr n w y = vm_phys_addr n w x) \<and>
    (\<forall>a \<in> set as. copied p n a x y \<and> safe n y (PHYS_REL (vm_phys_addr n a y))) \<and> inj_on (\<lambda>a. vm_phys_addr n a y) (set as)"
  using assms
proof (induction "as" arbitrary: x)
  case (Cons a "as")
  have r: "room (vm_pages x) ((4 * length as + k) + 4)" using Cons.prems(3) by (simp add: algebra_simps)
  have sp: "stack_page a" using Cons.prems(4) by simp
  obtain c y where y: "\<And>as. clone_pages p n (a # as) x = clone_pages p n as y" "kept n x y" "room (vm_pages y) (4 * length as + k)"
    "no_large n y" "vm_phys_addr n a y = c" "free_frame x c" "safe n y (PHYS_REL c)"
    "\<And>j. j < 512 \<Longrightarrow> entry y (PHYS_REL c) j = entry x (PHYS_REL (vm_phys_addr p a x)) j"
    "\<And>w. ALIGN_DOWN w PAGE_SIZE \<noteq> a \<Longrightarrow> vm_phys_addr n w y = vm_phys_addr n w x"
    using clone_page_step [OF Cons.prems(1) sp r Cons.prems(2), of p] by blast
  note ap = kept_apart [OF y(2) Cons.prems(6)]
  have src: "\<forall>b \<in> set as. safe n y (PHYS_REL (vm_phys_addr p b y))"
    using Cons.prems(7) kept_safe(1) [OF y(2)] ap(2) by simp
  obtain z where z: "clone_pages p n as y = Some (True, z)" "kept n y z" "room (vm_pages z) k" "no_large n z"
    "\<And>w. ALIGN_DOWN w PAGE_SIZE \<notin> set as \<Longrightarrow> vm_phys_addr n w z = vm_phys_addr n w y"
    "\<And>b. b \<in> set as \<Longrightarrow> copied p n b y z \<and> safe n z (PHYS_REL (vm_phys_addr n b z))"
    "inj_on (\<lambda>a. vm_phys_addr n a z) (set as)"
    using Cons.IH [OF kept_inv [OF y(2)] y(4,3) _ _ ap(1) src] Cons.prems(4,5) by auto
  have down: "ALIGN_DOWN a PAGE_SIZE = a" using Cons.prems(4) by (auto simp: stack_page_def align_down_id)
  have az: "vm_phys_addr n a z = c" using z(5) [of a] y(5) down Cons.prems(5) by simp
  have sz: "safe n z (PHYS_REL c)" "\<And>j. j < 512 \<Longrightarrow> entry z (PHYS_REL c) j = entry y (PHYS_REL c) j"
    using kept_safe [OF z(2) y(7)] by auto
  have "copied p n a x z" unfolding copied_def az using y(6,8) sz(2) by simp
  moreover have "copied p n b x z" if b: "b \<in> set as" for b
  proof -
    have "safe n x (PHYS_REL (vm_phys_addr p b x))" using Cons.prems(7) b by simp
    then have "\<forall>j < 512. entry y (PHYS_REL (vm_phys_addr p b x)) j = entry x (PHYS_REL (vm_phys_addr p b x)) j"
      using kept_safe(2) [OF y(2)] by blast
    then show ?thesis using z(6) [OF b] ap(2) [of b] kept_free [OF y(2)] unfolding copied_def by auto
  qed
  moreover have "c \<noteq> vm_phys_addr n b z" if "b \<in> set as" for b
    using z(6) [OF that] y(7) free_frame_unused by (auto simp: copied_def safe_def)
  then have "inj_on (\<lambda>a. vm_phys_addr n a z) (set (a # as))" using z(7) az by (auto simp: inj_on_def) metis+
  moreover have "\<forall>w. ALIGN_DOWN w PAGE_SIZE \<notin> set (a # as) \<longrightarrow> vm_phys_addr n w z = vm_phys_addr n w x"
    using z(5) y(9) by auto
  ultimately show ?case using y(1) z(1,3,4,6) kept_trans [OF y(2) z(2)] sz(1) az by auto
qed (use kept_refl in \<open>auto intro!: exI\<close>)

text \<open>The pages that \<open>thread_clone\<close> copies are pairwise different pages of thread-local memory.\<close>

definition stacks :: "thread_args \<Rightarrow> u64 list" where
  "stacks args = stack_pages args @ kernel_stack_pages INTERRUPT_STACK_TOP_VMA @ kernel_stack_pages SYSCALL_STACK_TOP_VMA"

definition stack_placed :: "thread_args \<Rightarrow> bool" where
  "stack_placed args \<longleftrightarrow> page_aligned (ta_stack_base args) \<and> INTERRUPT_STACK_TOP_VMA \<le> ta_stack_base args \<and>
     unat (ta_stack_base args) + unat (ta_stack_size args) \<le> unat PROCESS_STACK_TOP_VMA"

lemma TL_canonical: "0xfffffd0000000000 \<le> v \<Longrightarrow> v < 0xfffffd8000000000 \<Longrightarrow> canonical v"
proof -
  assume v: "0xfffffd0000000000 \<le> v" "v < 0xfffffd8000000000"
  then have "unat v div 2 ^ 48 = 0xffff" by (simp add: word_le_nat_alt word_less_nat_alt)
  then have "unat (drop_bit 48 v) = 0xffff" by (simp add: unat_drop_bit_eq drop_bit_nat_def)
  then have "drop_bit 48 v = 0xffff" by (intro word_eq_by_unat) simp
  moreover have "PML4T_INDEX v = 506" using TL_range [OF v] TL_value(1) by simp
  ultimately show ?thesis by (simp add: canonical_def)
qed

lemma stack_pageI: "page_aligned a \<Longrightarrow> 0xfffffd0000000000 \<le> unat a \<Longrightarrow> unat a < 0xfffffd8000000000 \<Longrightarrow> stack_page a"
  using TL_range [of a] TL_canonical [of a] by (simp add: stack_page_def word_le_nat_alt word_less_nat_alt)

lemma user_stack_page:
  assumes "stack_placed args" "i < (unat (ta_stack_size args) + 4095) div 4096"
  shows "unat (ta_stack_base args + PAGE_SIZE * word_of_nat i) = unat (ta_stack_base args) + 4096 * i"
    "unat (ta_stack_base args) + 4096 * i < unat PROCESS_STACK_TOP_VMA"
proof -
  have lt: "4096 * i < unat (ta_stack_size args)" using assms(2) by (simp add: div_less_iff_less_mult less_eq_Suc_le)
  then show b: "unat (ta_stack_base args) + 4096 * i < unat PROCESS_STACK_TOP_VMA" using assms(1) by (simp add: stack_placed_def)
  have "unat (ta_stack_size args) < 18446744073709551616" by simp
  then have "4096 * i < 18446744073709551616" using lt by linarith
  then have "unat (PAGE_SIZE * word_of_nat i) = 4096 * i" by (simp add: PAGE_SIZE_def unat_word_ariths unat_of_nat)
  then show "unat (ta_stack_base args + PAGE_SIZE * word_of_nat i) = unat (ta_stack_base args) + 4096 * i"
    using b by (subst unat_plus64) (simp_all add: PROCESS_STACK_TOP_VMA_def)
qed

lemma kernel_stack_page:
  assumes "t = INTERRUPT_STACK_TOP_VMA \<or> t = SYSCALL_STACK_TOP_VMA" "i < 256"
  shows "unat (t - PAGE_SIZE - PAGE_SIZE * word_of_nat i) = unat t - (4096 + 4096 * i)"
proof -
  have u: "unat (PAGE_SIZE + PAGE_SIZE * word_of_nat i) = 4096 + 4096 * i" using assms(2)
    by (simp add: PAGE_SIZE_def unat_word_ariths unat_of_nat)
  then have "unat (t - (PAGE_SIZE + PAGE_SIZE * word_of_nat i)) = unat t - (4096 + 4096 * i)" using assms
    by (auto simp: unat_minus64 word_le_nat_alt INTERRUPT_STACK_TOP_VMA_def SYSCALL_STACK_TOP_VMA_def)
  then show ?thesis by (simp add: diff_diff_add)
qed

lemma kernel_stack_pages_facts:
  assumes "t = INTERRUPT_STACK_TOP_VMA \<or> t = SYSCALL_STACK_TOP_VMA"
  shows "distinct (kernel_stack_pages t)"
    "a \<in> set (kernel_stack_pages t) \<Longrightarrow> page_aligned a \<and> unat t - 0x100000 \<le> unat a \<and> unat a < unat t"
proof -
  have t: "4096 dvd unat t" "0x200000 \<le> unat t" using assms by (auto simp: INTERRUPT_STACK_TOP_VMA_def SYSCALL_STACK_TOP_VMA_def)
  have "i = j" if "i < 256" "j < 256" "t - PAGE_SIZE - PAGE_SIZE * word_of_nat i = t - PAGE_SIZE - PAGE_SIZE * word_of_nat j" for i j
    using arg_cong [OF that(3), of unat] kernel_stack_page [OF assms that(1)] kernel_stack_page [OF assms that(2)] that(1,2) t(2) by linarith
  then show "distinct (kernel_stack_pages t)"
    by (simp add: kernel_stack_pages_def distinct_map KERNEL_STACK_SIZE_def inj_on_def)
  show "page_aligned a \<and> unat t - 0x100000 \<le> unat a \<and> unat a < unat t" if a: "a \<in> set (kernel_stack_pages t)"
  proof -
    obtain i where "i < 256" "a = t - PAGE_SIZE - PAGE_SIZE * word_of_nat i"
      using a by (auto simp: kernel_stack_pages_def KERNEL_STACK_SIZE_def)
    then have "unat a = unat t - (4096 + 4096 * i)" "i < 256" using kernel_stack_page [OF assms] by auto
    then show ?thesis using t by (auto simp: page_aligned_def intro!: dvd_diff_nat)
  qed
qed

lemma user_stack_facts:
  assumes "stack_placed args"
  shows "distinct (stack_pages args)"
    "a \<in> set (stack_pages args) \<Longrightarrow> page_aligned a \<and> unat INTERRUPT_STACK_TOP_VMA \<le> unat a \<and> unat a < unat PROCESS_STACK_TOP_VMA"
proof -
  let ?n = "(unat (ta_stack_size args) + 4095) div 4096"
  note u = user_stack_page [OF assms]
  have "i = j" if "i < ?n" "j < ?n" "ta_stack_base args + PAGE_SIZE * word_of_nat i = ta_stack_base args + PAGE_SIZE * word_of_nat j" for i j
    using arg_cong [OF that(3), of unat] u(1) [OF that(1)] u(1) [OF that(2)] by linarith
  then have "inj_on (\<lambda>i. ta_stack_base args + PAGE_SIZE * word_of_nat i) {0..<?n}" by (auto simp: inj_on_def)
  then show "distinct (stack_pages args)" by (simp add: stack_pages_def distinct_map)
  show "page_aligned a \<and> unat INTERRUPT_STACK_TOP_VMA \<le> unat a \<and> unat a < unat PROCESS_STACK_TOP_VMA" if a: "a \<in> set (stack_pages args)"
  proof -
    obtain i where "i < ?n" "a = ta_stack_base args + PAGE_SIZE * word_of_nat i" using a by (auto simp: stack_pages_def split: if_splits)
    then have "unat a = unat (ta_stack_base args) + 4096 * i" "unat a < unat PROCESS_STACK_TOP_VMA" using u by auto
    then show ?thesis using assms by (auto simp: stack_placed_def page_aligned_def word_le_nat_alt)
  qed
qed

lemma stacks_facts:
  assumes "stack_placed args"
  shows "distinct (stacks args)" "\<forall>a \<in> set (stacks args). stack_page a \<and> a \<noteq> SIGINFO_VMA \<and> a \<noteq> SIGNAL_TRAMPOLINE_VMA"
proof -
  let ?I = "kernel_stack_pages INTERRUPT_STACK_TOP_VMA" and ?S = "kernel_stack_pages SYSCALL_STACK_TOP_VMA"
  note tops = INTERRUPT_STACK_TOP_VMA_def SYSCALL_STACK_TOP_VMA_def PROCESS_STACK_TOP_VMA_def
  have U: "page_aligned a \<and> 0xfffffd7fe0000000 \<le> unat a \<and> unat a < 0xfffffd8000000000" if "a \<in> set (stack_pages args)" for a
    using user_stack_facts(2) [OF assms that] by (simp add: tops)
  have I: "page_aligned a \<and> 0xfffffd7fdff00000 \<le> unat a \<and> unat a < 0xfffffd7fe0000000" if "a \<in> set ?I" for a
    using kernel_stack_pages_facts(2) [of INTERRUPT_STACK_TOP_VMA a] that by (simp add: tops)
  have S: "page_aligned a \<and> 0xfffffd7fcff00000 \<le> unat a \<and> unat a < 0xfffffd7fd0000000" if "a \<in> set ?S" for a
    using kernel_stack_pages_facts(2) [of SYSCALL_STACK_TOP_VMA a] that by (simp add: tops)
  have "set (stack_pages args) \<inter> set ?I = {}" "set (stack_pages args) \<inter> set ?S = {}" "set ?I \<inter> set ?S = {}"
    using U I S by fastforce+
  then show "distinct (stacks args)" unfolding stacks_def
    using user_stack_facts(1) [OF assms] kernel_stack_pages_facts(1) by auto
  show "\<forall>a \<in> set (stacks args). stack_page a \<and> a \<noteq> SIGINFO_VMA \<and> a \<noteq> SIGNAL_TRAMPOLINE_VMA"
  proof
    fix a assume "a \<in> set (stacks args)"
    then have a: "page_aligned a" "0xfffffd7fcff00000 \<le> unat a" "unat a < 0xfffffd8000000000" using U I S by (fastforce simp: stacks_def)+
    then have "stack_page a" by (intro stack_pageI) simp_all
    then show "stack_page a \<and> a \<noteq> SIGINFO_VMA \<and> a \<noteq> SIGNAL_TRAMPOLINE_VMA" using a(2)
      by (auto simp: SIGINFO_VMA_def SIGNAL_TRAMPOLINE_VMA_def)
  qed
qed

section \<open>The clone\<close>

lemma tl_kernel_data_room:
  assumes inv: "vm_inv n x" and small: "no_large n x" and free: "room (vm_pages x) 7"
    and st: "\<And>y. kept n x y \<Longrightarrow> vm_phys_addr cur tramp y = st"
    and fr: "frame st < length (phys_alloc_table (vm_pages x))" "phys_alloc_table (vm_pages x) ! frame st \<noteq> 0"
      "unat (phys_alloc_table (vm_pages x) ! frame st) + 1 < 2 ^ 32"
  shows "\<exists>z pg. thread_alloc_tl_kernel_data cur tramp n x = Some (True, z\<lparr>vm_pages := pg\<rparr>) \<and> kept n x z \<and>
    vm_inv n (z\<lparr>vm_pages := pg\<rparr>) \<and> (\<forall>w. ALIGN_DOWN w PAGE_SIZE \<notin> {SIGINFO_VMA, SIGNAL_TRAMPOLINE_VMA} \<longrightarrow> vm_phys_addr n w z = vm_phys_addr n w x)"
proof -
  have free': "room (vm_pages x) (Suc 6)" using free by simp
  obtain c pg where al: "alloc_page (vm_pages x) = Some (c, pg)" "c \<noteq> 0" "alloc_result (vm_pages x) c pg" "room pg 6"
    using alloc_room [OF vm_invD(1) [OF inv] free'] by blast
  let ?x = "x\<lparr>vm_pages := pg\<rparr>"
  have k0: "kept n x ?x" by (rule alloc_kept [OF inv al(3)]) (simp_all add: entry_def)
  have small0: "no_large n ?x" using small unfolding no_large_def ent_pages .
  have idx: "PML4T_INDEX SIGINFO_VMA = TL" "PML4T_INDEX SIGNAL_TRAMPOLINE_VMA = TL" "canonical SIGINFO_VMA" "canonical SIGNAL_TRAMPOLINE_VMA"
    "ALIGN_DOWN SIGINFO_VMA PAGE_SIZE = SIGINFO_VMA" "ALIGN_DOWN SIGNAL_TRAMPOLINE_VMA PAGE_SIZE = SIGNAL_TRAMPOLINE_VMA"
    by (simp_all add: TL_range TL_canonical SIGINFO_VMA_def SIGNAL_TRAMPOLINE_VMA_def ALIGN_DOWN_def PAGE_SIZE_def)
  obtain y where y: "vm_map_page n c SIGINFO_VMA 6 ?x = Some (Map_ok, y)" "room (vm_pages y) 3" "no_large n y"
    using vm_map_page_room [OF kept_inv [OF k0] idx(1,3) flags_ok(1) _ small0, of 3] al(4) by auto
  have k1: "kept n ?x y" by (rule vm_map_page_kept [OF kept_inv [OF k0] idx(1) flags_ok(1) y(1)])
  obtain z where z: "vm_map_page n st SIGNAL_TRAMPOLINE_VMA 4 y = Some (Map_ok, z)"
    using vm_map_page_room [OF kept_inv [OF k1] idx(2,4) flags_ok(2) _ y(3), of 0] y(2) by auto
  have k2: "kept n y z" by (rule vm_map_page_kept [OF kept_inv [OF k1] idx(2) flags_ok(2) z])
  have k: "kept n x z" using k0 k1 k2 kept_trans by blast
  have xl: "vm_phys_addr n w z = vm_phys_addr n w x" if "ALIGN_DOWN w PAGE_SIZE \<notin> {SIGINFO_VMA, SIGNAL_TRAMPOLINE_VMA}" for w
    using vm_map_page_ok [OF kept_inv [OF k0] flags_ok(1), of c SIGINFO_VMA] y(1)
      vm_map_page_ok [OF kept_inv [OF k1] flags_ok(2), of st SIGNAL_TRAMPOLINE_VMA] z that idx(5,6) by (auto simp: vm_phys_addr_pages)
  have run: "thread_alloc_tl_kernel_data cur tramp n x = map_option (\<lambda>pg. (True, z\<lparr>vm_pages := pg\<rparr>)) (ref_page st (vm_pages z))"
    using al(1,2) y(1) z st [OF k0] by (simp add: thread_alloc_tl_kernel_data_def Let_def)
  obtain ok u where u: "thread_alloc_tl_kernel_data cur tramp n x = Some (ok, u)" "ok \<longrightarrow> vm_inv n u"
    using tl_kernel_data_kept [OF inv st fr] by blast
  then obtain pg' where "ref_page st (vm_pages z) = Some pg'" "ok" "u = z\<lparr>vm_pages := pg'\<rparr>" using run by auto
  then have "thread_alloc_tl_kernel_data cur tramp n x = Some (True, z\<lparr>vm_pages := pg'\<rparr>)" "vm_inv n (z\<lparr>vm_pages := pg'\<rparr>)" using u by simp_all
  then show ?thesis using k xl by blast
qed

text \<open>The state before the stacks are copied.\<close>

lemma clone_base_ready:
  assumes pre: "clone_pre p n tlp s" and free: "room (vm_pages s) k"
  shows "\<exists>pg. ref_user (clone_cow p cp tlp s) p (vm_pages s) = Some pg \<and> room pg k \<and> vm_inv n (clone_base p cp n tlp pg s) \<and>
    no_large n (clone_base p cp n tlp pg s) \<and> apart p n (clone_base p cp n tlp pg s) \<and>
    own n (clone_base p cp n tlp pg s) = {tlp} \<and> (\<forall>u. table_frame s u \<longrightarrow> table_frame (clone_base p cp n tlp pg s) u) \<and>
    (\<forall>c. free_frame (clone_base p cp n tlp pg s) c \<longrightarrow> free_frame s c) \<and>
    length (phys_alloc_table pg) = length (phys_alloc_table (vm_pages s)) \<and>
    (\<forall>i < length (phys_alloc_table (vm_pages s)). phys_alloc_table (vm_pages s) ! i \<noteq> 0 \<longrightarrow> phys_alloc_table pg ! i \<noteq> 0 \<and>
      unat (phys_alloc_table pg ! i) \<le> unat (phys_alloc_table (vm_pages s) ! i) + length (user_refs s p))"
proof -
  note d = clone_preD [OF pre]
  let ?c = "clone_cow p cp tlp s" and ?t = "phys_alloc_table (vm_pages s)"
  have cnt: "counted (vm_pages s) (user_refs ?c p)" "length (user_refs ?c p) = length (user_refs s p)"
    using counted_frames [OF clone_cow_refs [OF pre, symmetric]] pre clone_cow_refs [OF pre]
    by (auto simp: clone_pre_def dest: map_eq_imp_length_eq)
  obtain pg where pg: "ref_user ?c p (vm_pages s) = Some pg" "pa_inv pg" "length (phys_alloc_table pg) = length ?t"
    "\<And>k. k < length ?t \<Longrightarrow> ?t ! k \<noteq> 0 \<Longrightarrow> phys_alloc_table pg ! k \<noteq> 0 \<and> unat (phys_alloc_table pg ! k) \<le> unat (?t ! k) + length (user_refs ?c p)"
    using ref_user_ok [OF vm_invD(1) [OF d(7)] cnt(1)] by blast
  let ?b = "clone_base p cp n tlp pg s"
  have inv: "vm_inv n ?b" and tf: "\<And>u. table_frame s u \<Longrightarrow> table_frame ?b u" using clone_base_inv [OF pre pg(2,3)] pg(4) by blast+
  have bp: "vm_pages ?b = pg" by (simp add: clone_base_def copy_page_def set_entry_def)
  have invp: "vm_inv p ?b" using d(7) pg(2) tf unfolding vm_inv_def bp by (auto simp: clone_base_old_tbl [OF pre])
  have p3: "path 3 [TL]" using TL_value by (simp add: numeral_eq_Suc)
  have own: "own n ?b = {tlp}"
  proof -
    have "tbl ?b n [TL] = Some tlp" using clone_base_tbl [OF pre p3] by (simp del: tbl.simps)
    then have "tlp \<in> own n ?b" unfolding own_def using p3 by (intro CollectI exI [of _ "[TL]"]) (simp del: tbl.simps)
    then show ?thesis using clone_base_tbl [OF pre] by (auto simp: own_def split: if_splits)
  qed
  have "safe n ?b u" if q: "path 3 q" "tbl ?b p q = Some u" for q u
    using q d(8) [OF q(1)] vm_invD(2) [OF invp q] by (simp add: safe_def own clone_base_old_tbl [OF pre])
  then have ap: "apart p n ?b" using invp by (auto simp: apart_def)
  have "no_large n ?b" unfolding no_large_def
  proof (intro allI impI)
    fix i q assume q: "i < (512 :: u64)" "path 2 q" "q \<noteq> []" "last q = TL"
    have q3: "path 3 q" using q(2) by (rule path_mono) simp
    have "ent ?b n (i # q) = 0" using clone_base_tbl [OF pre q3 q(3)] clone_base_entry [OF pre d(3) q(1)] d(6) q(4)
      by (cases "q = [TL]") simp_all
    then show "\<not> large (ent ?b n (i # q))" by (simp add: large_def)
  qed
  moreover have "room pg k" using each_ref_room free pg(1) unfolding ref_user_list by blast
  moreover have "free_frame s c" if "free_frame ?b c" for c using that pg(3,4) bp by (auto simp: free_frame_def)
  ultimately show ?thesis using pg inv tf ap own cnt(2) by metis
qed

text \<open>
  What a clone is: the new address space is well formed and translates every address outside of thread-local memory as the
  original one, which is unchanged but for the marks of its user half; both have the same entries there, and every page of the stacks is a copy in a
  frame of its own.\<close>

definition clone_made :: "u64 \<Rightarrow> u64 \<Rightarrow> bool \<Rightarrow> thread_args \<Rightarrow> vm_state \<Rightarrow> vm_state \<Rightarrow> bool" where
  "clone_made p n cp args x y \<longleftrightarrow> vm_inv n y \<and>
     (\<forall>w. PML4T_INDEX w \<noteq> TL \<longrightarrow> vm_phys_addr n w y = vm_phys_addr p w x) \<and> (\<forall>w. vm_phys_addr p w y = vm_phys_addr p w x) \<and>
     (\<forall>i < 256. entry y p i = cow_if cp (entry x p i) \<and> entry y n i = cow_if cp (entry x p i)) \<and>
     (\<forall>a \<in> set (stacks args). copied p n a x y) \<and> inj_on (\<lambda>a. vm_phys_addr n a y) (set (stacks args))"

definition clone_frames :: "thread_args \<Rightarrow> nat" where
  "clone_frames args = 4 * length (stacks args) + 7"

lemma clone_space_made:
  assumes pre: "clone_pre p n tlp s" "p = ta_pml4t args" and stack: "stack_placed args"
    and free: "room (vm_pages s) (clone_frames args)"
    and src: "\<forall>a \<in> set (stacks args). table_frame s (PHYS_REL (vm_phys_addr p a s)) \<and>
      PHYS_REL (vm_phys_addr p a s) \<notin> {p, n, tlp}"
    and st: "frame (vm_phys_addr p tramp s) < length (phys_alloc_table (vm_pages s))"
      "phys_alloc_table (vm_pages s) ! frame (vm_phys_addr p tramp s) \<noteq> 0"
      "unat (phys_alloc_table (vm_pages s) ! frame (vm_phys_addr p tramp s)) + length (user_refs s p) + 1 < 2 ^ 32"
  shows "\<exists>s'. clone_space p tramp args cp n tlp s = Some (True, s') \<and> clone_made p n cp args s s'"
proof -
  note d = clone_preD [OF pre(1)]
  let ?c = "clone_cow p cp tlp s" and ?t = "phys_alloc_table (vm_pages s)" and ?st = "vm_phys_addr p tramp s"
  have vp: "vm_pages ?c = vm_pages s" by (simp add: clone_cow_def clear_struct_def)
  obtain pg where pg: "ref_user ?c p (vm_pages s) = Some pg" "room pg (4 * length (stacks args) + 7)" "vm_inv n (clone_base p cp n tlp pg s)"
    "no_large n (clone_base p cp n tlp pg s)" "apart p n (clone_base p cp n tlp pg s)" "own n (clone_base p cp n tlp pg s) = {tlp}"
    "\<And>u. table_frame s u \<Longrightarrow> table_frame (clone_base p cp n tlp pg s) u" "\<And>c. free_frame (clone_base p cp n tlp pg s) c \<Longrightarrow> free_frame s c"
    "length (phys_alloc_table pg) = length ?t"
    "\<And>i. i < length ?t \<Longrightarrow> ?t ! i \<noteq> 0 \<Longrightarrow> phys_alloc_table pg ! i \<noteq> 0 \<and> unat (phys_alloc_table pg ! i) \<le> unat (?t ! i) + length (user_refs s p)"
    using clone_base_ready [OF pre(1) free [unfolded clone_frames_def]] by metis
  let ?b = "clone_base p cp n tlp pg s"
  have bp: "vm_pages ?b = pg" by (simp add: clone_base_def copy_page_def set_entry_def)
  note xl = clone_base_xlat [OF pre(1), of _ cp pg] and e = clone_base_entry [OF pre(1), of _ _ cp pg]
  have src_b: "safe n ?b (PHYS_REL (vm_phys_addr p a s))"
    "\<forall>j < 512. entry ?b (PHYS_REL (vm_phys_addr p a s)) j = entry s (PHYS_REL (vm_phys_addr p a s)) j" if "a \<in> set (stacks args)" for a
    using src that pg(6,7) e table_frame_struct by (auto simp: safe_def cow_if_def)
  obtain y where y: "clone_pages p n (stacks args) ?b = Some (True, y)" "kept n ?b y" "room (vm_pages y) 7" "no_large n y"
    "\<And>a. a \<in> set (stacks args) \<Longrightarrow> copied p n a ?b y \<and> safe n y (PHYS_REL (vm_phys_addr n a y))" "inj_on (\<lambda>a. vm_phys_addr n a y) (set (stacks args))"
    using clone_pages_room [OF pg(3,4) _ _ _ pg(5), of "stacks args" 7] pg(2) stacks_facts [OF stack] src_b xl(1) bp by auto
  have fr: "frame ?st < length (phys_alloc_table (vm_pages y))" "phys_alloc_table (vm_pages y) ! frame ?st \<noteq> 0"
    "unat (phys_alloc_table (vm_pages y) ! frame ?st) + 1 < 2 ^ 32"
    using y(2) bp pg(9) pg(10) [OF st(1,2)] st(1,3) by (auto simp: kept_def)
  have tr: "vm_phys_addr p tramp z = ?st" if "kept n y z" for z
    using kept_apart(2) [OF kept_trans [OF y(2) that] pg(5)] xl(1) by simp
  obtain z pg' where z: "thread_alloc_tl_kernel_data p tramp n y = Some (True, z\<lparr>vm_pages := pg'\<rparr>)" "kept n y z"
    "vm_inv n (z\<lparr>vm_pages := pg'\<rparr>)" "\<And>w. ALIGN_DOWN w PAGE_SIZE \<notin> {SIGINFO_VMA, SIGNAL_TRAMPOLINE_VMA} \<Longrightarrow> vm_phys_addr n w z = vm_phys_addr n w y"
    using tl_kernel_data_room [OF kept_inv [OF y(2)] y(4,3) tr fr] by blast
  let ?z = "z\<lparr>vm_pages := pg'\<rparr>"
  have k: "kept n ?b z" by (rule kept_trans [OF y(2) z(2)])
  have run: "clone_space p tramp args cp n tlp s = Some (True, ?z)"
  proof -
    have "ref_user ?c (ta_pml4t args) (vm_pages ?c) = Some pg" using pg(1) vp pre(2) by simp
    then show ?thesis using y(1) z(1) pre(2)
      by (simp add: clone_space_def Let_def clone_base_def clone_cow_def TL_entry_def stacks_def cong: if_cong)
  qed
  have ez: "entry ?z u j = entry z u j" for u j by (simp add: entry_def)
  have new: "vm_phys_addr n a z = vm_phys_addr n a y" if "a \<in> set (stacks args)" for a
    using z(4) [of a] stacks_facts(2) [OF stack] that align_down_id by (auto simp: stack_page_def)
  have copy: "copied p n a s ?z" if a: "a \<in> set (stacks args)" for a
  proof -
    have "\<forall>j < 512. entry z (PHYS_REL (vm_phys_addr n a y)) j = entry y (PHYS_REL (vm_phys_addr n a y)) j"
      using kept_safe(2) [OF z(2)] y(5) [OF a] by blast
    then show ?thesis using y(5) [OF a] pg(8) xl(1) src_b(2) [OF a] new [OF a] unfolding copied_def ez vm_phys_addr_pages by auto
  qed
  have inj: "inj_on (\<lambda>a. vm_phys_addr n a ?z) (set (stacks args))" using y(6) new by (simp add: vm_phys_addr_pages inj_on_def)
  have "entry z p i = cow_if cp (entry s p i) \<and> entry z n i = cow_if cp (entry s p i)" if i: "i < 256" for i
  proof -
    have i': "i < 512" "i \<noteq> TL" using i TL_value(2) by (auto simp: word_less_nat_alt)
    have sp: "safe n ?b p" using pg(5) unfolding apart_def by (metis path_simps(1) tbl.simps(1))
    have "table_frame ?b n" "n \<notin> own n ?b" using pg(6) vm_invD(2) [OF pg(3), of "[]"] d(6) by auto
    then have "entry z n i = entry ?b n i" using k i' by (auto simp: kept_def)
    then show ?thesis using kept_safe(2) [OF k sp i'(1)] e [OF d(1) i'(1)] e [OF d(2) i'(1)] d(4,5) i i'(2) by simp
  qed
  then have "clone_made p n cp args s ?z" unfolding clone_made_def ez
    using z(3) copy inj kept_apart(2) [OF k pg(5)] kept_own_xlat [OF k pg(3)] xl by (simp add: vm_phys_addr_pages)
  then show ?thesis using run by blast
qed

text \<open>Taking a frame for a structure of the clone.\<close>

lemma alloc_frame_facts:
  assumes inv: "vm_inv p x" and al: "alloc_result (vm_pages x) a pg" "a \<noteq> 0"
  defines "y \<equiv> x\<lparr>vm_pages := pg\<rparr>"
  shows "vm_inv p y" "free_frame x a" "table_frame y (PHYS_REL a)" "table_frame x u \<Longrightarrow> table_frame y u"
    "free_frame y c \<Longrightarrow> free_frame x c" "path 3 q \<Longrightarrow> tbl y p q \<noteq> Some (PHYS_REL a)"
    "i < length (phys_alloc_table (vm_pages x)) \<Longrightarrow> phys_alloc_table (vm_pages x) ! i \<noteq> 0 \<Longrightarrow>
       i < length (phys_alloc_table pg) \<and> phys_alloc_table pg ! i = phys_alloc_table (vm_pages x) ! i"
proof -
  have a: "page_aligned a" "frame a < length (phys_alloc_table (vm_pages x))" "phys_alloc_table (vm_pages x) ! frame a = 0"
    "phys_alloc_table pg = (phys_alloc_table (vm_pages x))[frame a := 1]" using al by (auto simp: alloc_result_def)
  show "vm_inv p y" unfolding y_def by (rule vm_inv_alloc [OF inv al(1)])
  show ff: "free_frame x a" using a by (simp add: free_frame_def)
  show "table_frame y (PHYS_REL a)" using a by (auto simp: table_frame_def y_def)
  show "table_frame x u \<Longrightarrow> table_frame y u" using a by (auto simp: y_def nth_list_update split: if_splits elim!: table_frame_mono)
  show "free_frame y c \<Longrightarrow> free_frame x c" using a by (auto simp: y_def free_frame_def nth_list_update split: if_splits)
  show "path 3 q \<Longrightarrow> tbl y p q \<noteq> Some (PHYS_REL a)"
    using vm_invD(2) [OF inv] free_frame_unused [OF ff] by (auto simp: y_def tbl_pages)
  show "i < length (phys_alloc_table (vm_pages x)) \<Longrightarrow> phys_alloc_table (vm_pages x) ! i \<noteq> 0 \<Longrightarrow>
      i < length (phys_alloc_table pg) \<and> phys_alloc_table pg ! i = phys_alloc_table (vm_pages x) ! i"
    using a by (auto simp: nth_list_update)
qed

lemma user_refs_pages: "user_refs (s\<lparr>vm_pages := pg\<rparr>) p = user_refs s p"
proof -
  have e: "entries (s\<lparr>vm_pages := pg\<rparr>) t = entries s t" for t by (rule ext) (simp add: entries_def entry_def)
  have "pt_refs (s\<lparr>vm_pages := pg\<rparr>) = pt_refs s" by (rule ext) (simp add: pt_refs_def e)
  then have "pdt_refs (s\<lparr>vm_pages := pg\<rparr>) = pdt_refs s" by (intro ext) (simp add: pdt_refs_def e)
  then have "pdpt_refs (s\<lparr>vm_pages := pg\<rparr>) = pdpt_refs s" by (intro ext) (simp add: pdpt_refs_def e)
  then show ?thesis by (simp add: user_refs_def e cong: if_cong)
qed

lemma entry_pages: "entry (s\<lparr>vm_pages := pg\<rparr>) u j = entry s u j"
  by (simp add: entry_def)

lemma counted_mono:
  assumes "counted pg es" "\<And>i. i < length (phys_alloc_table pg) \<Longrightarrow> phys_alloc_table pg ! i \<noteq> 0 \<Longrightarrow>
    i < length (phys_alloc_table pg') \<and> phys_alloc_table pg' ! i = phys_alloc_table pg ! i"
  shows "counted pg' es"
  unfolding counted_def
proof
  fix e assume "e \<in> set es"
  then have e: "frame e < length (phys_alloc_table pg)" "0 < unat (phys_alloc_table pg ! frame e)"
    "unat (phys_alloc_table pg ! frame e) + length es < 2 ^ 32" using assms(1) by (auto simp: counted_def)
  moreover from this have "phys_alloc_table pg ! frame e \<noteq> 0" by (metis less_numeral_extra(3) unat_0)
  ultimately show "frame e < length (phys_alloc_table pg') \<and> 0 < unat (phys_alloc_table pg' ! frame e) \<and>
      unat (phys_alloc_table pg' ! frame e) + length es < 2 ^ 32" using assms(2) by simp
qed

text \<open>
  C9: When there is enough memory \<open>thread_clone\<close> of the running thread succeeds, and the new thread has an address space of
  its own. Every address outside of thread-local memory translates in it as in the
  original one, whose translations are all unchanged; the entries of the user half are the same in
  both, without write permission and marked copy on write when a copy is asked for. Every page
  of the three stacks, for user, interrupt and system call code, has a frame of its own that was free before, and holds a
  copy of the words of the same page of the original thread. The memory needed is four frames per page of the stacks and nine more, below 2 TiB; the frames of the
  stacks, of the trampoline and of user memory are in use, and the counts leave room for the new references.\<close>

theorem thread_clone_spec:
  assumes args: "args = t_args thread" "p = ta_pml4t args" "stack_placed args"
    and inv: "vm_inv p (te_vm s)" and cnt: "counted (vm_pages (te_vm s)) (user_refs (te_vm s) p)"
    and free: "room (vm_pages (te_vm s)) (clone_frames args + 2)" and mem: "length (phys_alloc_table (vm_pages (te_vm s))) \<le> 2 ^ 29"
    and heap: "take_alloc (te_alloc s) = (True, al)" "alloc_pid (te_junk s) al (te_pids s) = Some (tid, ps, al')" "tid \<noteq> -1"
    and src: "\<forall>a \<in> set (stacks args). table_frame (te_vm s) (PHYS_REL (vm_phys_addr p a (te_vm s))) \<and> PHYS_REL (vm_phys_addr p a (te_vm s)) \<noteq> p"
    and st: "frame (vm_phys_addr p tramp (te_vm s)) < length (phys_alloc_table (vm_pages (te_vm s)))"
      "phys_alloc_table (vm_pages (te_vm s)) ! frame (vm_phys_addr p tramp (te_vm s)) \<noteq> 0"
      "unat (phys_alloc_table (vm_pages (te_vm s)) ! frame (vm_phys_addr p tramp (te_vm s))) + length (user_refs (te_vm s) p) + 1 < 2 ^ 32"
  shows "\<exists>n s'. thread_clone p tramp thread cp s =
      Some (Some \<lparr>t_tid = tid, t_args = args\<lparr>ta_pml4t := n\<rparr>, t_run = THREAD_STATE_RUNNING, t_error = t_error thread\<rparr>, s') \<and>
    te_pids s' = ps \<and> \<not> table_frame (te_vm s) n \<and> clone_made p n cp args (te_vm s) (te_vm s')"
proof -
  let ?v = "te_vm s"
  have free2: "room (vm_pages ?v) (Suc (Suc (clone_frames args)))" using free by simp
  obtain a1 pg1 where a1: "alloc_page (vm_pages ?v) = Some (a1, pg1)" "a1 \<noteq> 0" "alloc_result (vm_pages ?v) a1 pg1" "room pg1 (Suc (clone_frames args))"
    using alloc_room [OF vm_invD(1) [OF inv] free2] by blast
  let ?v1 = "?v\<lparr>vm_pages := pg1\<rparr>"
  note f1 = alloc_frame_facts [OF inv a1(3,2)]
  have r1: "room (vm_pages ?v1) (Suc (clone_frames args))" using a1(4) by simp
  obtain a2 pg2 where a2: "alloc_page (vm_pages ?v1) = Some (a2, pg2)" "a2 \<noteq> 0" "alloc_result (vm_pages ?v1) a2 pg2" "room pg2 (clone_frames args)"
    using alloc_room [OF vm_invD(1) [OF f1(1)] r1] by blast
  let ?v2 = "?v1\<lparr>vm_pages := pg2\<rparr>" and ?n = "PHYS_REL a1" and ?l = "PHYS_REL a2"
  note f2 = alloc_frame_facts [OF f1(1) a2(3,2)]
  have counts: "i < length (phys_alloc_table pg2) \<and> phys_alloc_table pg2 ! i = phys_alloc_table (vm_pages ?v) ! i"
    if "i < length (phys_alloc_table (vm_pages ?v))" "phys_alloc_table (vm_pages ?v) ! i \<noteq> 0" for i
    using f1(7) [OF that] f2(7) [of i] that by simp
  have ne: "?n \<noteq> ?l" using f1(3) free_frame_unused [OF f2(2)] by auto
  have pre: "clone_pre p ?n ?l ?v2" unfolding clone_pre_def
    using f2(1,3,6) f2(4) [OF f1(3)] f1(6) ne counted_mono [OF cnt counts] by (auto simp: user_refs_pages tbl_pages)
  have used: "u \<noteq> ?n \<and> u \<noteq> ?l \<and> table_frame ?v2 u" if "table_frame ?v u" for u
    using that f1(4) [OF that] f2(4) [OF f1(4) [OF that]] free_frame_unused [OF f1(2)] free_frame_unused [OF f2(2)] by auto
  have src2: "\<forall>a \<in> set (stacks args). table_frame ?v2 (PHYS_REL (vm_phys_addr p a ?v2)) \<and> PHYS_REL (vm_phys_addr p a ?v2) \<notin> {p, ?n, ?l}"
    using src used by (simp add: vm_phys_addr_pages)
  obtain v' where v': "clone_space p tramp args cp ?n ?l ?v2 = Some (True, v')" "clone_made p ?n cp args ?v2 v'"
    using clone_space_made [OF pre args(2,3) _ src2, of tramp cp] a2(4) st counts [OF st(1,2)] by (auto simp: vm_phys_addr_pages user_refs_pages)
  have low: "PHYS_REL a \<noteq> 0" if "frame a < 2 ^ 29" for a
  proof
    assume "PHYS_REL a = 0"
    then have "a = - LOW_PHYSICAL_BASE_VMA" by (simp add: PHYS_REL_def eq_neg_iff_add_eq_0)
    then have "frame a = 2 ^ 29" by (simp add: frame_def LOW_PHYSICAL_BASE_VMA_def)
    then show False using that by simp
  qed
  have nz: "?n \<noteq> 0" "?l \<noteq> 0" using low f1(2) f1(5) [OF f2(2)] mem by (auto simp: free_frame_def)
  have ff: "free_frame ?v2 c \<Longrightarrow> free_frame ?v c" for c using f1(5) f2(5) by blast
  have made: "clone_made p ?n cp args ?v v'" using v'(2) ff
    by (auto simp: clone_made_def copied_def vm_phys_addr_pages entry_pages)
  have pid: "te_alloc_pid (s\<lparr>te_alloc := al, te_vm := ?v1\<rparr>) = Some (tid, s\<lparr>te_alloc := al', te_vm := ?v1, te_pids := ps\<rparr>)"
    using heap(2) by (simp add: te_alloc_pid_def)
  have "thread_clone p tramp thread cp s = Some (Some \<lparr>t_tid = tid, t_args = args\<lparr>ta_pml4t := ?n\<rparr>, t_run = THREAD_STATE_RUNNING,
      t_error = t_error thread\<rparr>, s\<lparr>te_alloc := al', te_vm := v', te_pids := ps\<rparr>)"
    using heap(1,3) a1(1,2) a2(1,2) nz pid v'(1) args(1)
    by (simp add: thread_clone_def Let_def alloc_virtual_page_def)
  then show ?thesis using made free_frame_unused [OF f1(2)] by auto
qed

text \<open>A thread with one page of stack, in frame 2, whose first word is 42, and some 2300 free frames.\<close>

definition bare_memory :: vm_state where
  "bare_memory = \<lparr>vm_pages = \<lparr>phys_alloc_table = [1, 1, 1] @ replicate 2298 0, next_phys_addr = 0x3000, mem_avail = True,
     mm_regions = [\<lparr>rg_base = 0, rg_len = 0x8fc000\<rparr>], mm_curr = 0\<rparr>, vm_cells = (\<lambda>a. if a = PHYS_REL 0x2000 then 42 else 0)\<rparr>"

definition stack_memory :: vm_state where
  "stack_memory = snd (the (vm_map_page empty_pml4t 0x2000 0xfffffd7ffff00000 6 bare_memory))"

definition stack_thread :: task where
  "stack_thread = \<lparr>t_tid = 7, t_args = clone_args, t_run = THREAD_STATE_RUNNING, t_error = 0\<rparr>"

definition stack_env :: thread_env where
  "stack_env = \<lparr>te_vm = stack_memory, te_pids = \<lparr>pid_bitmap = [1], next_pid = 1, pid_bitmap_size = 1, pid_bitmap_lock = False, pid_errno = None\<rparr>,
     te_alloc = [], te_junk = (\<lambda>_. 0)\<rparr>"

lemma bare_table: "length (phys_alloc_table (vm_pages bare_memory)) = 2301"
  "i < 2301 \<Longrightarrow> phys_alloc_table (vm_pages bare_memory) ! i = (if i < 3 then 1 else 0)"
  by (auto simp: bare_memory_def nth_Cons split: nat.splits)

lemma bare_entry: "j < 512 \<Longrightarrow> entry bare_memory empty_pml4t j = 0"
  using cell_eq_iff [of "0x1000" "0x2000" j 0] by (auto simp: bare_memory_def entry_def page_aligned_def)

lemma bare_tbl: "path 3 q \<Longrightarrow> tbl bare_memory empty_pml4t q = (if q = [] then Some empty_pml4t else None)"
proof (induction q)
  case (Cons i q)
  then have "path 3 q" "i < 512" by (auto simp: path_def)
  then show ?case using Cons.IH bare_entry by simp
qed simp

lemma bare_frames: "a \<in> {0, 0x1000, 0x2000} \<Longrightarrow> table_frame bare_memory (PHYS_REL a)"
  unfolding table_frame_def
  by (rule exI [of _ a]) (auto simp: bare_table page_aligned_def frame_def)

lemma bare_inv: "vm_inv empty_pml4t bare_memory"
proof -
  have "pa_inv (vm_pages bare_memory)"
    using bare_table(1) by (simp add: pa_inv_def bare_memory_def region_ok_def page_aligned_def frame_def)
  then show ?thesis using bare_frames by (auto simp: vm_inv_def bare_tbl split: if_splits)
qed

lemma bare_room: "room (vm_pages bare_memory) 2100"
proof -
  have "{3..<2300} \<subseteq> frames_ahead (vm_pages bare_memory)"
    using bare_table by (auto simp: frames_ahead_def bare_memory_def frame_def)
  then have "card {3..<2300 :: nat} \<le> card (frames_ahead (vm_pages bare_memory))" by (rule card_mono [OF frames_ahead_finite])
  then show ?thesis by (simp add: room_def) (simp add: bare_memory_def frame_def)
qed

lemma stack_memory_facts:
  "kept empty_pml4t bare_memory stack_memory" "room (vm_pages stack_memory) 2097" "vm_inv empty_pml4t stack_memory"
  "vm_phys_addr empty_pml4t w stack_memory = (if ALIGN_DOWN w PAGE_SIZE = 0xfffffd7ffff00000 then 0x2000 OR (w AND (PAGE_SIZE - 1)) else 0)"
proof -
  let ?a = "0xfffffd7ffff00000 :: u64"
  have a: "PML4T_INDEX ?a = TL" "canonical ?a" by (simp_all add: TL_range TL_canonical)
  have "no_large empty_pml4t bare_memory" unfolding no_large_def
  proof (intro allI impI)
    fix i q assume q: "i < (512 :: u64)" "path 2 q" "q \<noteq> []" "last q = TL"
    have "path 3 q" using q(2) by (rule path_mono) simp
    then show "\<not> large (ent bare_memory empty_pml4t (i # q))" using bare_tbl [of q] q(3) by (simp add: large_def)
  qed
  then obtain y where y: "vm_map_page empty_pml4t 0x2000 ?a 6 bare_memory = Some (Map_ok, y)" "room (vm_pages y) 2097"
    using vm_map_page_room [OF bare_inv a flags_ok(1), of 2097 "0x2000"] bare_room by auto
  have e: "stack_memory = y" using y(1) by (simp add: stack_memory_def)
  show "kept empty_pml4t bare_memory stack_memory" unfolding e by (rule vm_map_page_kept [OF bare_inv a(1) flags_ok(1) y(1)])
  show "room (vm_pages stack_memory) 2097" unfolding e by (rule y(2))
  have "vm_phys_addr empty_pml4t w bare_memory = 0" by (simp add: vm_phys_addr_def Let_def bare_entry)
  then show "vm_inv empty_pml4t stack_memory" "vm_phys_addr empty_pml4t w stack_memory =
      (if ALIGN_DOWN w PAGE_SIZE = ?a then 0x2000 OR (w AND (PAGE_SIZE - 1)) else 0)"
    using vm_map_page_ok [OF bare_inv flags_ok(1), of "0x2000" ?a] y(1) e by (auto simp: ALIGN_DOWN_def PAGE_SIZE_def)
qed

lemma stack_memory_kept:
  "a \<in> {0, 0x1000, 0x2000} \<Longrightarrow> table_frame stack_memory (PHYS_REL a)"
  "length (phys_alloc_table (vm_pages stack_memory)) = 2301" "phys_alloc_table (vm_pages stack_memory) ! 0 = 1"
  "entry stack_memory (PHYS_REL 0x2000) 0 = 42" "user_refs stack_memory empty_pml4t = []"
proof -
  note k = stack_memory_facts(1) [unfolded kept_def]
  have own: "own empty_pml4t bare_memory = {}" by (auto simp: own_def bare_tbl)
  show "a \<in> {0, 0x1000, 0x2000} \<Longrightarrow> table_frame stack_memory (PHYS_REL a)" using k bare_frames by blast
  show "length (phys_alloc_table (vm_pages stack_memory)) = 2301" "phys_alloc_table (vm_pages stack_memory) ! 0 = 1"
    using k bare_table(1) bare_table(2) [of 0] by auto
  have ne: "PHYS_REL 0x2000 \<noteq> empty_pml4t" by (simp add: PHYS_REL_def)
  then have "entry stack_memory (PHYS_REL 0x2000) 0 = entry bare_memory (PHYS_REL 0x2000) 0"
    using k own bare_frames [of "0x2000"] by (auto simp: word_less_nat_alt)
  then show "entry stack_memory (PHYS_REL 0x2000) 0 = 42" by (simp add: bare_memory_def entry_def)
  have "entry stack_memory empty_pml4t j = 0" if "j < 256" for j
  proof -
    have j: "j < 512" "j \<noteq> TL" using that TL_value(2) by (auto simp: word_less_nat_alt)
    then show ?thesis using k own bare_frames [of "0x1000"] bare_entry [OF j(1)] by auto
  qed
  then have "entry stack_memory empty_pml4t (word_of_nat i) = 0" if "i < 256" for i using that by (simp add: word_less_nat_alt unat_of_nat)
  then have "entries stack_memory empty_pml4t (PAGE_STRUCT_ENTRIES div 2) = replicate 256 0"
    by (intro nth_equalityI) (simp_all add: entries_def PAGE_STRUCT_ENTRIES_def)
  then show "user_refs stack_memory empty_pml4t = []" by (simp add: user_refs_def)
qed

theorem thread_clone_spec_witness:
  "\<exists>n s'. thread_clone empty_pml4t 0 stack_thread True stack_env =
      Some (Some \<lparr>t_tid = 1, t_args = clone_args\<lparr>ta_pml4t := n\<rparr>, t_run = THREAD_STATE_RUNNING, t_error = 0\<rparr>, s') \<and>
    vm_phys_addr empty_pml4t 0xfffffd7ffff00000 (te_vm s') = 0x2000 \<and> vm_phys_addr n 0xfffffd7ffff00000 (te_vm s') \<noteq> 0x2000 \<and>
    entry (te_vm s') (PHYS_REL (vm_phys_addr n 0xfffffd7ffff00000 (te_vm s'))) 0 = 42"
proof -
  let ?a = "0xfffffd7ffff00000 :: u64" and ?v = "te_vm stack_env"
  have v: "?v = stack_memory" by (simp add: stack_env_def)
  have args: "clone_args = t_args stack_thread" "empty_pml4t = ta_pml4t clone_args" by (simp_all add: stack_thread_def clone_args_def)
  have placed: "stack_placed clone_args"
    by (simp add: stack_placed_def clone_args_def page_aligned_def INTERRUPT_STACK_TOP_VMA_def PROCESS_STACK_TOP_VMA_def)
  have user: "stack_pages clone_args = [?a]" by (simp add: stack_pages_def clone_args_def)
  then have "length (stacks clone_args) = 513" by (simp add: stacks_def kernel_stack_pages_def KERNEL_STACK_SIZE_def)
  then have free: "room (vm_pages ?v) (clone_frames clone_args + 2)"
    using room_mono [OF stack_memory_facts(2)] by (simp add: v clone_frames_def)
  have cnt: "counted (vm_pages ?v) (user_refs ?v empty_pml4t)" by (simp add: v stack_memory_kept counted_def)
  have "pid_scan [1] 1 (Suc 6) = Some (Some 1)" by (simp only: pid_scan.simps) (simp add: test_bit_bm_def)
  then have scan: "pid_scan [1] (Suc 0) 7 = Some (Some 1)" by simp
  have pid: "alloc_pid (te_junk stack_env) [] (te_pids stack_env) = Some (1, \<lparr>pid_bitmap = [3], next_pid = 2, pid_bitmap_size = 1,
      pid_bitmap_lock = False, pid_errno = None\<rparr>, [])"
    by (simp add: stack_env_def alloc_pid_def pid_lock_acquire_def, subst alloc_pid_loop.simps)
      (simp add: PID_BITMAP_SIZE_LIMIT_def scan set_bit_bm_def)
  have al: "take_alloc (te_alloc stack_env) = (True, [])" by (simp add: stack_env_def)
  have xa: "vm_phys_addr empty_pml4t a ?v = (if a = ?a then 0x2000 else 0)" if "page_aligned a" for a
    using stack_memory_facts(4) [of a] align_down_id [OF that] v by (auto simp: PAGE_SIZE_def)
  have src: "\<forall>a \<in> set (stacks clone_args). table_frame ?v (PHYS_REL (vm_phys_addr empty_pml4t a ?v)) \<and> PHYS_REL (vm_phys_addr empty_pml4t a ?v) \<noteq> empty_pml4t"
    using stacks_facts(2) [OF placed] xa stack_memory_kept(1) by (auto simp: stack_page_def v PHYS_REL_def)
  have z: "vm_phys_addr empty_pml4t 0 ?v = 0" using xa [of 0] by (simp add: page_aligned_def)
  obtain n s' where r: "thread_clone empty_pml4t 0 stack_thread True stack_env =
      Some (Some \<lparr>t_tid = 1, t_args = clone_args\<lparr>ta_pml4t := n\<rparr>, t_run = THREAD_STATE_RUNNING, t_error = t_error stack_thread\<rparr>, s')"
      "clone_made empty_pml4t n True clone_args ?v (te_vm s')"
    using thread_clone_spec [OF args placed _ cnt free _ al pid _ src, of 0 True] z stack_memory_facts(3) stack_memory_kept(2,3,5)
    by (auto simp: v frame_def)
  have a: "?a \<in> set (stacks clone_args)" using user by (simp add: stacks_def)
  have pa: "page_aligned ?a" by (simp add: page_aligned_def)
  have c: "copied empty_pml4t n ?a ?v (te_vm s')" "vm_phys_addr empty_pml4t ?a (te_vm s') = 0x2000"
    using r(2) a xa [OF pa] by (auto simp: clone_made_def)
  then have "entry (te_vm s') (PHYS_REL (vm_phys_addr n ?a (te_vm s'))) 0 = 42"
    using xa [OF pa] stack_memory_kept(4) v by (simp add: copied_def word_less_nat_alt)
  moreover have "vm_phys_addr n ?a (te_vm s') \<noteq> 0x2000"
    using c(1) stack_memory_kept(1) [of "0x2000"] free_frame_unused [of ?v "0x2000"] v by (auto simp: copied_def)
  ultimately show ?thesis using r(1) c(2) by (auto simp: stack_thread_def)
qed

end
