(* ===== verification/Spec2Isabelle.thy ===== *)
theory Spec2Isabelle
  imports Pml_Bitmap Pml_Map_Spec Pml_Kheap_Spec Pml_Pid Pml_Cred Pml_Fd Pml_Signal Pml_Bitarray Pml_Perm Pml_Pipe Pml_Space Pml_Strdup Pml_Hash Pml_Sync Pml_Tty Pml_Ext2_Mount Pml_Sched Pml_Clone
begin

text \<open>
  A verification library for PML, a small operating system kernel for x86-64 written in C. Paths
  below are relative to src/. The definitions translate the C code function by function and keep
  its names; the theorems are about these definitions.

  \<^bold>\<open>The parts of the program.\<close> At the bottom are the utilities (util/, include/stdlib.h) and the
  memory managers: page frames and page tables (arch/x86_64/mm.c) and the kernel heap
  (kernel/heap.c). Processes have numbers, credentials and groups (kernel/pid.c), descriptor tables
  (kernel/fd.c) and pending signals (kernel/signal.c); they have threads with address spaces of their own
  (arch/x86_64/thread.c), are forked, scheduled and freed (kernel/process.c, arch/x86_64/exit.c, sched.S) and wait for each
  other (kernel/wait.c). Files are reached through vnodes
  (drivers/fs/vnode.c, vnops.c) that form a tree (vtree.c, mount.c); the system calls on files
  (drivers/fs/syscall.c) combine the tree, the vnode operations and the descriptor tables. Below
  the vnodes is the ext2 driver (drivers/fs/ext2/), and beside them pipes (drivers/fs/pipe.c) and
  the terminal (drivers/tty.c, vgatext.c, ttydev.c, ioctl.c). The parts share hash maps
  (util/map.c), which use SipHash (util/siphash.c), and bitmaps (include/stdlib.h).

  \<^bold>\<open>Theories and what they show.\<close>
  \<^item> \<open>Pml_Prelude\<close>: machine words, error numbers, shared lemmas. \<open>Pml_Memory\<close>: byte-addressed
    memory with little-endian accesses and 64-bit pointer arithmetic.
  \<^item> \<open>Pml_Stdlib\<close>, \<open>Pml_Bitmap\<close>: the inline functions of include/stdlib.h with their arithmetical
    meaning; the interface \<open>bitmap_interface\<close> of byte arrays read as sets of bits.
  \<^item> \<open>Pml_Siphash\<close>, \<open>Pml_Map\<close>, \<open>Pml_Map_Spec\<close>: the chained hash maps. The interfaces
    \<open>map_interface\<close> and \<open>robust_map_interface\<close> say what clients rely on, also when memory runs
    out; every sequence of operations refines a finite map.
  \<^item> \<open>Pml_Kheap\<close>, \<open>Pml_Kheap_Spec\<close>: the heap with its headers and tails in byte memory. The
    abstract heap is the list of blocks; malloc, free, realloc and calloc refine operations on it
    and leave the contents of other blocks alone (interface \<open>allocator\<close>).
  \<^item> \<open>Pml_Page\<close>, \<open>Pml_Vm\<close>, \<open>Pml_Space\<close>: frames with reference counts (interface
    \<open>frame_source\<close>), page tables as cells of memory shared between address spaces, mapping and
    unmapping as updates of one translation, whole address spaces, the kernel's initial tables and
    the program break.
  \<^item> \<open>Pml_Pid\<close>, \<open>Pml_Cred\<close>, \<open>Pml_Fd\<close>, \<open>Pml_Signal\<close>: numbers of processes,
    credentials (no sequence of calls gains privileges), descriptors (reference counts equal the
    number of descriptors), signals (sending, polling, kill).
  \<^item> \<open>Pml_Thread\<close>, \<open>Pml_Clone\<close>: creating, cloning and freeing threads; with enough memory a clone shares user memory, copy on
    write, and has copies of the stacks in frames of its own.
  \<^item> \<open>Pml_Process\<close>, \<open>Pml_Sched\<close>: the queue of processes, forking, termination, freeing and waiting, with the wait states as
    bytes (\<open>Pml_Bytes\<close>); the tree of processes stays consistent in every run, and which threads the switch gives the processor to.
  \<^item> \<open>Pml_String\<close>, \<open>Pml_String_Spec\<close>, \<open>Pml_Strdup\<close>: the string functions on byte memory with their
    paths over whole words, against definitions on lists. \<open>Pml_Hash\<close>, \<open>Pml_Crc\<close>: SHA-256 against
    FIPS 180-4, CRC-16 and CRC-32 against division by the polynomial.
  \<^item> \<open>Pml_Perm\<close>, \<open>Pml_Vfs\<close>, \<open>Pml_Namei\<close>, \<open>Pml_Fssys\<close>, \<open>Pml_Sync\<close>: permissions, checked vnode
    operations, path resolution, all system calls of drivers/fs/syscall.c, and the traversal of
    cached vnodes by sync (interface \<open>traversal\<close>, interpreted on both of its passes).
  \<^item> \<open>Pml_Pipe\<close>, \<open>Pml_Tty\<close>: pipes; the terminal as a grid with a cursor and the line discipline.
  \<^item> \<open>Pml_Bitarray\<close>, \<open>Pml_Ext2\<close>, \<open>Pml_Ext2_Bitmap\<close>, \<open>Pml_Ext2_Alloc\<close>, \<open>Pml_Ext2_Mount\<close>: the ext2
    driver from the bit arrays over superblock, group descriptors and checksums to bitmaps,
    allocation (interface \<open>usage_bitmap\<close>) and opening a file system with its checks.

  \<^bold>\<open>Conventions.\<close> A function that can fail has a value of the type \<open>errno + 'a\<close>. The result
  \<open>None\<close> of an operation means that the C code has no defined behaviour there (an access outside
  of an array, a null pointer) or does not return (a lock that is held, a loop without end); each
  theory says which. Theorems about success therefore also say that the code returns. Machine
  integers are words, or natural numbers with the reduction modulo a power of two written out.
  The outcome of memory allocation is an argument: a list that says which of the calls succeed, so
  that theorems cover every pattern of failure. The device and file system drivers behind function
  pointers are arguments too; theorems that rely on them state what they rely on.

  \<^bold>\<open>Fuel and bounds.\<close> Loops are structural or have a termination proof; the resolution of paths is one of them, as the
  code limits the number of symbolic links. Loops that end only for well-formed data are partial functions with the
  result \<open>None\<close> when they do not end: the searches of the heap and of the page allocator, the loops over strings, the loops of the
  program break, the traversals of cached vnodes by sync, reading of directories, the thread switch and the loop that waits for a
  child; a property about one of them includes that it ends. The only fuel is that of the search of
  \<open>ext2_new_inode\<close>; no theorem depends on a choice of it.

  \<^bold>\<open>Deviations shown by theorems.\<close> Where the code does not do what it means to, the model does what
  the code does, and a theorem shows the behaviour on an example; the texts beside these theorems
  explain them.

  \<^bold>\<open>Not modelled.\<close> Hardware access and start-up code (arch/x86_64/ other than mm.c, thread.c, exit.c and the scheduling part of
  sched.S; kernel/entry.c),
  the device drivers ata.c, acpi.c, pci.c, ps2kbd.c, hpet.c, pit.c and pcspk.c, the device file
  system (devfs.c, device.c), the mounting of the root, program loading (exec.c), and in ext2 the
  directories, the extent trees, the cache of inodes and the vnode operations. Processes are not interleaved within an operation: the
  thread switch is an operation of its own, locks are taken and released within one operation, and operations run one after the other.
\<close>

end
